(* ===== verification/Bridge_Prelude.thy ===== *)
theory Bridge_Prelude
  imports Main "HOL-Library.Word"
begin

text \<open>
  Shared vocabulary of the BeamJS development: the machine types of the C sources as words,
  C strings as byte lists without their terminating NUL, the fact collections the component
  theories add to, and the generic lemmas on lists, maps and words they share.
\<close>

unbundle bit_operations_syntax

section \<open>Machine types\<close>

type_synonym u8 = "8 word"
type_synonym u16 = "16 word"
type_synonym u32 = "32 word"
type_synonym u64 = "64 word"

text \<open>A C \<open>int\<close> and \<open>int64_t\<close> are words too; they are read with \<open>sint\<close>.\<close>

type_synonym s32 = "32 word"
type_synonym s64 = "64 word"

text \<open>The bytes of a C string literal (all the literals of the sources are ASCII).\<close>

definition cstr :: "string \<Rightarrow> u8 list" where
  "cstr s = map (\<lambda>c. of_nat (of_char c)) s"

section \<open>Fact collections\<close>

named_theorems bridge_defs \<open>definitions of small handlers, unfolded together\<close>
named_theorems inv_intros \<open>steps preserve the invariants\<close>

section \<open>Generic lemmas\<close>

lemma cstr_Nil [simp]: "cstr [] = []"
  by (simp add: cstr_def)

lemma length_cstr [simp]: "length (cstr s) = length s"
  by (simp add: cstr_def)

lemma nth_snoc_length [simp]: "(xs @ [x]) ! length xs = x"
  by simp

lemma map_upt_nth_id: "map (\<lambda>i. xs ! i) [0..<length xs] = xs"
  by (simp add: map_nth)

lemma drop_eq_Cons_nth: "i < length xs \<Longrightarrow> drop i xs = xs ! i # drop (Suc i) xs"
  by (simp add: Cons_nth_drop_Suc)

lemma take_Suc_snoc: "i < length xs \<Longrightarrow> take (Suc i) xs = take i xs @ [xs ! i]"
  by (simp add: take_Suc_conv_app_nth)

lemma unat_ucast_mod: "unat (ucast x :: 'b :: len word) = unat x mod 2 ^ LENGTH('b)"
  by (simp only: unsigned_ucast_eq take_bit_eq_mod)

lemma unat_ucast_up:
  "LENGTH('a) \<le> LENGTH('b) \<Longrightarrow> unat (ucast (x :: 'a :: len word) :: 'b :: len word) = unat x"
  by (subst unat_ucast_mod) (rule mod_less, rule less_le_trans [OF unsigned_less], simp)

lemma unat_ucast_small: "unat x < 2 ^ LENGTH('b) \<Longrightarrow> unat (ucast x :: 'b :: len word) = unat x"
  by (simp add: unat_ucast_mod)

lemma unat_drop_bit: "unat (drop_bit k c) = unat (c :: 'a :: len word) div 2 ^ k"
  by (subst unat_drop_bit_eq) (rule drop_bit_eq_div)

lemma unat_of_nat_small: "n < 2 ^ LENGTH('a) \<Longrightarrow> unat (of_nat n :: 'a :: len word) = n"
  by (simp add: unsigned_of_nat take_bit_nat_eq_self)

lemma nat_or_tag: "x < 2 ^ n \<Longrightarrow> x OR m * 2 ^ n = x + m * 2 ^ n" for x m :: nat
proof -
  assume "x < 2 ^ n"
  then have x: "take_bit n x = x" by (simp add: take_bit_nat_eq_self)
  have "x AND push_bit n m = 0"
    by (rule bit_eqI) (subst x [symmetric], simp add: bit_simps)
  then show ?thesis by (simp add: disjunctive_add_eq_or push_bit_eq_mult)
qed

lemma unat_or_tag:
  "unat x < 2 ^ n \<Longrightarrow> unat tag = m * 2 ^ n \<Longrightarrow> unat (x OR tag) = unat x + unat tag"
  by (simp add: unsigned_or_eq nat_or_tag)

end
