(* ===== verification/Host_Protocol.thy ===== *)
theory Host_Protocol
  imports Bridge_Prelude
begin

text \<open>
  The reply protocol between the JavaScript thread (a dirty scheduler inside a NIF) and the
  processes that call \<open>deliver_host_reply\<close>: \<open>host_call_generic\<close> in host_functions.c,
  \<open>beamjs_module_loader\<close> in module_loader.c and \<open>nif_deliver_host_reply\<close> in beamjs_nif.c,
  one rule per action on the shared \<open>BeamjsContext\<close> fields, the mutex and the condition variable.
  A run interleaves the JavaScript thread, any number of delivering processes and the owner.
\<close>

section \<open>State\<close>

text \<open>The holder of \<open>bctx->mutex\<close>: the JavaScript thread or the delivering process \<open>d\<close>.\<close>

datatype thread = TJs | TDeliver nat

text \<open>What the JavaScript thread waits for: the reply of a host call or the source of a module.\<close>

datatype req = HostCall | LoadModule

text \<open>
  Where the JavaScript thread is. \<open>JTaken\<close> and \<open>JEval\<close> hold the reply and its environment in
  local variables; \<open>JFree\<close> is after \<open>enif_mutex_unlock\<close>, before \<open>enif_free_env\<close>.
\<close>

datatype 'r jpc =
    JIdle
  | JWantLock
  | JCheck
  | JInWait
  | JWoken
  | JTaken "'r option" "nat option"
  | JEval "'r option" "nat option"
  | JFree "'r option" "nat option"

text \<open>Where a call of \<open>nif_deliver_host_reply\<close> is.\<close>

datatype 'r dpc = DIdle | DWantLock 'r | DLocked 'r | DWritten | DSignalled

text \<open>
  \<open>ready\<close>, \<open>slot\<close> and \<open>slot_env\<close> are \<open>host_reply_ready\<close>, \<open>host_reply\<close> and \<open>host_reply_env\<close>.
  Environments are numbered by allocation; \<open>freed\<close> logs \<open>enif_free_env\<close>. \<open>owner_in_nif\<close> says that
  the process that evaluates the script is the owner itself, which then handles no message
  before the NIF returns. \<open>results\<close> are the replies handed back to the script so far.
\<close>

record 'r hstate =
  owner_in_nif :: bool
  mtx :: "thread option"
  pc :: "'r jpc"
  kind :: req
  dpcs :: "nat \<Rightarrow> 'r dpc"
  ready :: bool
  slot :: "'r option"
  slot_env :: "nat option"
  mailbox :: "nat list"
  sent :: nat
  results :: "'r option list"
  next_env :: nat
  freed :: "nat list"

text \<open>The state \<open>nif_new_context\<close> leaves: an unlocked mutex, no reply, no environment.\<close>

definition hinit :: "bool \<Rightarrow> 'r hstate" where
  "hinit self = \<lparr>owner_in_nif = self, mtx = None, pc = JIdle, kind = HostCall,
     dpcs = (\<lambda>_. DIdle), ready = False, slot = None, slot_env = None, mailbox = [],
     sent = 0, results = [], next_env = 0, freed = []\<rparr>"

section \<open>Steps\<close>

text \<open>
  The JavaScript thread in \<open>host_call_generic\<close>. \<open>enif_cond_wait\<close> releases the mutex and blocks;
  it may return spuriously, and it re-acquires the mutex before it returns.
\<close>

inductive request_step :: "'r hstate \<Rightarrow> 'r hstate \<Rightarrow> bool" where
  send: "pc s = JIdle \<Longrightarrow>
    request_step s (s\<lparr>pc := JWantLock, kind := k, mailbox := mailbox s @ [sent s], sent := Suc (sent s)\<rparr>)"
| send_fails: "pc s = JIdle \<Longrightarrow> request_step s s"
| lock: "pc s = JWantLock \<Longrightarrow> mtx s = None \<Longrightarrow>
    request_step s (s\<lparr>pc := JCheck, mtx := Some TJs\<rparr>)"
| cond_wait: "pc s = JCheck \<Longrightarrow> \<not> ready s \<Longrightarrow>
    request_step s (s\<lparr>pc := JInWait, mtx := None\<rparr>)"
| spurious: "pc s = JInWait \<Longrightarrow> request_step s (s\<lparr>pc := JWoken\<rparr>)"
| relock: "pc s = JWoken \<Longrightarrow> mtx s = None \<Longrightarrow>
    request_step s (s\<lparr>pc := JCheck, mtx := Some TJs\<rparr>)"
| take: "pc s = JCheck \<Longrightarrow> ready s \<Longrightarrow> kind s = HostCall \<Longrightarrow>
    request_step s (s\<lparr>pc := JTaken (slot s) (slot_env s)\<rparr>)"
| clear_unlock: "pc s = JTaken r e \<Longrightarrow>
    request_step s (s\<lparr>pc := JFree r e, ready := False, slot_env := None, mtx := None\<rparr>)"
| free: "pc s = JFree r e \<Longrightarrow>
    request_step s (s\<lparr>pc := JIdle, results := results s @ [r],
      freed := freed s @ (case e of None \<Rightarrow> [] | Some x \<Rightarrow> [x])\<rparr>)"

text \<open>
  \<open>beamjs_module_loader\<close> sends, locks and waits as above, but it compiles and evaluates the
  module between reading the reply and clearing it, with the mutex held. \<open>loader_nested\<close> is the
  request that evaluation makes when the module imports another module or calls a host function.
\<close>

inductive loader_step :: "'r hstate \<Rightarrow> 'r hstate \<Rightarrow> bool" where
  start_eval: "pc s = JCheck \<Longrightarrow> ready s \<Longrightarrow> kind s = LoadModule \<Longrightarrow>
    loader_step s (s\<lparr>pc := JEval (slot s) (slot_env s)\<rparr>)"
| end_eval: "pc s = JEval r e \<Longrightarrow>
    loader_step s (s\<lparr>pc := JFree r e, ready := False, slot_env := None, mtx := None\<rparr>)"

inductive nested_step :: "'r hstate \<Rightarrow> 'r hstate \<Rightarrow> bool" where
  loader_nested: "pc s = JEval r e \<Longrightarrow>
    nested_step s (s\<lparr>pc := JWantLock, kind := k, mailbox := mailbox s @ [sent s], sent := Suc (sent s)\<rparr>)"

text \<open>
  \<open>nif_deliver_host_reply\<close>: lock, copy the reply into a new environment and publish it, signal,
  unlock. A signal wakes the JavaScript thread when it is in the wait, and is lost otherwise.
\<close>

inductive deliver_step :: "'r hstate \<Rightarrow> 'r hstate \<Rightarrow> bool" where
  d_lock: "dpcs s d = DWantLock r \<Longrightarrow> mtx s = None \<Longrightarrow>
    deliver_step s (s\<lparr>dpcs := (dpcs s)(d := DLocked r), mtx := Some (TDeliver d)\<rparr>)"
| d_write: "dpcs s d = DLocked r \<Longrightarrow>
    deliver_step s (s\<lparr>dpcs := (dpcs s)(d := DWritten), slot := Some r, slot_env := Some (next_env s),
      next_env := Suc (next_env s), ready := True\<rparr>)"
| d_signal: "dpcs s d = DWritten \<Longrightarrow>
    deliver_step s (s\<lparr>dpcs := (dpcs s)(d := DSignalled),
      pc := (if pc s = JInWait then JWoken else pc s)\<rparr>)"
| d_unlock: "dpcs s d = DSignalled \<Longrightarrow>
    deliver_step s (s\<lparr>dpcs := (dpcs s)(d := DIdle), mtx := None\<rparr>)"

text \<open>
  The owner answers the oldest message of its mailbox: it computes a reply \<open>ans m\<close> and calls
  \<open>deliver_host_reply\<close>. It cannot while it is itself blocked inside the evaluating NIF.
  A stray delivery is a call of \<open>deliver_host_reply\<close> that answers no message.
\<close>

inductive owner_step :: "(nat \<Rightarrow> 'r) \<Rightarrow> 'r hstate \<Rightarrow> 'r hstate \<Rightarrow> bool" for ans where
  answer: "\<not> owner_in_nif s \<Longrightarrow> mailbox s = m # ms \<Longrightarrow> dpcs s d = DIdle \<Longrightarrow>
    owner_step ans s (s\<lparr>mailbox := ms, dpcs := (dpcs s)(d := DWantLock (ans m))\<rparr>)"

inductive stray_step :: "'r hstate \<Rightarrow> 'r hstate \<Rightarrow> bool" where
  stray: "dpcs s d = DIdle \<Longrightarrow> stray_step s (s\<lparr>dpcs := (dpcs s)(d := DWantLock r)\<rparr>)"

text \<open>\<open>sys_step\<close>: one reply per request. \<open>any_step\<close>: stray deliveries and nested requests too.\<close>

definition sys_step :: "(nat \<Rightarrow> 'r) \<Rightarrow> 'r hstate \<Rightarrow> 'r hstate \<Rightarrow> bool" where
  "sys_step ans s t \<longleftrightarrow> request_step s t \<or> loader_step s t \<or> deliver_step s t \<or> owner_step ans s t"

definition any_step :: "(nat \<Rightarrow> 'r) \<Rightarrow> 'r hstate \<Rightarrow> 'r hstate \<Rightarrow> bool" where
  "any_step ans s t \<longleftrightarrow> sys_step ans s t \<or> nested_step s t \<or> stray_step s t"

inductive reach :: "('s \<Rightarrow> 's \<Rightarrow> bool) \<Rightarrow> 's \<Rightarrow> 's \<Rightarrow> bool" for R where
  reach_refl: "reach R s s"
| reach_step: "reach R s t \<Longrightarrow> R t u \<Longrightarrow> reach R s u"


lemmas step_cases = request_step.cases loader_step.cases nested_step.cases deliver_step.cases
  owner_step.cases stray_step.cases

section \<open>Invariants by induction over runs\<close>

text \<open>The contract of an inductive invariant: it holds at the start and every step keeps it.\<close>

locale step_invariant =
  fixes R :: "'s \<Rightarrow> 's \<Rightarrow> bool" and start :: "'s \<Rightarrow> bool" and I :: "'s \<Rightarrow> bool"
  assumes base: "start s \<Longrightarrow> I s"
    and pres: "R s t \<Longrightarrow> I s \<Longrightarrow> I t"
begin

lemma always: "reach R s t \<Longrightarrow> start s \<Longrightarrow> I t"
  by (induction rule: reach.induct) (auto intro: base pres)

lemma from_inv: "reach R s t \<Longrightarrow> I s \<Longrightarrow> I t"
  by (induction rule: reach.induct) (auto intro: pres)

end

lemma reach_trans: "reach R s t \<Longrightarrow> R t u \<Longrightarrow> reach R s u"
  by (rule reach_step)

lemma reach_mono: "reach R s t \<Longrightarrow> (\<And>a b. R a b \<Longrightarrow> Q a b) \<Longrightarrow> reach Q s t"
  by (induction rule: reach.induct) (auto intro: reach.intros)

lemma sys_imp_any: "sys_step ans s t \<Longrightarrow> any_step ans s t"
  by (simp add: any_step_def)

section \<open>Safety: mutual exclusion, wakeups, reply environments\<close>

text \<open>The program points at which a thread is inside the critical section.\<close>

fun js_crit :: "'r jpc \<Rightarrow> bool" where
  "js_crit JCheck = True"
| "js_crit (JTaken r e) = True"
| "js_crit (JEval r e) = True"
| "js_crit _ = False"

fun d_crit :: "'r dpc \<Rightarrow> bool" where
  "d_crit (DLocked r) = True"
| "d_crit DWritten = True"
| "d_crit DSignalled = True"
| "d_crit _ = False"

definition mutex_inv :: "'r hstate \<Rightarrow> bool" where
  "mutex_inv s \<longleftrightarrow> (js_crit (pc s) \<longrightarrow> mtx s = Some TJs)
     \<and> (mtx s = Some TJs \<longrightarrow> js_crit (pc s) \<or> pc s = JWantLock)
     \<and> (\<forall>d. d_crit (dpcs s d) = (mtx s = Some (TDeliver d)))"

definition wake_inv :: "'r hstate \<Rightarrow> bool" where
  "wake_inv s \<longleftrightarrow> (pc s = JInWait \<and> ready s \<longrightarrow>
     (case mtx s of Some (TDeliver d) \<Rightarrow> dpcs s d = DWritten | _ \<Rightarrow> False))"

text \<open>The environment a local variable of the JavaScript thread still refers to.\<close>

fun env_held :: "'r jpc \<Rightarrow> nat option" where
  "env_held (JTaken r e) = e"
| "env_held (JEval r e) = e"
| "env_held (JFree r e) = e"
| "env_held _ = None"

definition env_inv :: "'r hstate \<Rightarrow> bool" where
  "env_inv s \<longleftrightarrow> distinct (freed s) \<and> (\<forall>e \<in> set (freed s). e < next_env s)
     \<and> (\<forall>e. slot_env s = Some e \<longrightarrow> e < next_env s \<and> e \<notin> set (freed s))
     \<and> (\<forall>e. env_held (pc s) = Some e \<longrightarrow> e < next_env s \<and> e \<notin> set (freed s))
     \<and> (\<forall>r e. pc s = JTaken r e \<or> pc s = JEval r e \<longrightarrow> slot s = r \<and> slot_env s = e)
     \<and> (\<forall>r e. pc s = JFree r (Some e) \<longrightarrow> slot_env s \<noteq> Some e)
     \<and> (ready s \<longrightarrow> slot s \<noteq> None \<and> slot_env s \<noteq> None)"

definition hp_safe :: "'r hstate \<Rightarrow> bool" where
  "hp_safe s \<longleftrightarrow> mutex_inv s \<and> wake_inv s \<and> env_inv s"

lemma mutex_inv_request: "request_step s t \<Longrightarrow> mutex_inv s \<Longrightarrow> mutex_inv t"
  by (erule request_step.cases) (auto simp: mutex_inv_def)

lemma mutex_inv_loader: "loader_step s t \<Longrightarrow> mutex_inv s \<Longrightarrow> mutex_inv t"
  by (erule loader_step.cases) (auto simp: mutex_inv_def)

lemma mutex_inv_nested: "nested_step s t \<Longrightarrow> mutex_inv s \<Longrightarrow> mutex_inv t"
  by (erule nested_step.cases) (auto simp: mutex_inv_def)

lemma mutex_inv_d: "mutex_inv s \<Longrightarrow> d_crit (dpcs s d) = (mtx s = Some (TDeliver d))"
  by (simp add: mutex_inv_def)

lemma mutex_inv_js: "mutex_inv s \<Longrightarrow> js_crit (pc s) \<Longrightarrow> mtx s = Some TJs"
  by (simp add: mutex_inv_def)

lemma mutex_inv_deliver:
  assumes "deliver_step s t" and inv: "mutex_inv s"
  shows "mutex_inv t"
  using assms(1)
proof (cases rule: deliver_step.cases)
  case (d_lock d r)
  with inv show ?thesis by (auto simp: mutex_inv_def)
next
  case (d_write d r)
  with inv mutex_inv_d [OF inv, of d] show ?thesis by (auto simp: mutex_inv_def)
next
  case (d_signal d)
  with inv mutex_inv_d [OF inv, of d] show ?thesis by (auto simp: mutex_inv_def)
next
  case (d_unlock d)
  then have "mtx s = Some (TDeliver d)" using mutex_inv_d [OF inv, of d] by simp
  with inv d_unlock show ?thesis by (simp add: mutex_inv_def)
qed

lemma mutex_inv_owner: "owner_step ans s t \<Longrightarrow> mutex_inv s \<Longrightarrow> mutex_inv t"
  by (erule owner_step.cases, frule_tac d = d in mutex_inv_d) (simp add: mutex_inv_def)

lemma mutex_inv_stray: "stray_step s t \<Longrightarrow> mutex_inv s \<Longrightarrow> mutex_inv t"
  by (erule stray_step.cases, frule_tac d = d in mutex_inv_d) (simp add: mutex_inv_def)

lemma mutex_inv_step: "any_step ans s t \<Longrightarrow> mutex_inv s \<Longrightarrow> mutex_inv t"
  unfolding any_step_def sys_step_def
  by (metis mutex_inv_request mutex_inv_loader mutex_inv_deliver mutex_inv_owner
      mutex_inv_nested mutex_inv_stray)


lemma wake_inv_step:
  assumes "any_step ans s t" and inv: "mutex_inv s" and wake: "wake_inv s"
  shows "wake_inv t"
proof -
  consider "request_step s t" | "loader_step s t" | "nested_step s t" | "deliver_step s t"
    | "owner_step ans s t" | "stray_step s t"
    using assms(1) by (auto simp: any_step_def sys_step_def)
  then show ?thesis
  proof cases
    case 1
    then show ?thesis using wake by (cases rule: request_step.cases) (auto simp: wake_inv_def)
  next
    case 2
    then show ?thesis using wake by (cases rule: loader_step.cases) (auto simp: wake_inv_def)
  next
    case 3
    then show ?thesis using wake by (cases rule: nested_step.cases) (auto simp: wake_inv_def)
  next
    case 4
    then show ?thesis
    proof (cases rule: deliver_step.cases)
      case (d_write d r)
      then show ?thesis using mutex_inv_d [OF inv, of d] by (simp add: wake_inv_def)
    next
      case (d_unlock d)
      then show ?thesis using mutex_inv_d [OF inv, of d] wake by (auto simp: wake_inv_def)
    qed (use wake in \<open>auto simp: wake_inv_def\<close>)
  next
    case 5
    then show ?thesis using wake
      by (cases rule: owner_step.cases) (auto simp: wake_inv_def split: option.splits thread.splits)
  next
    case 6
    then show ?thesis using wake
      by (cases rule: stray_step.cases) (auto simp: wake_inv_def split: option.splits thread.splits)
  qed
qed

lemma env_inv_step:
  assumes "any_step ans s t" and inv: "mutex_inv s" and env: "env_inv s"
  shows "env_inv t"
proof -
  consider "request_step s t" | "loader_step s t" | "nested_step s t" | "deliver_step s t"
    | "owner_step ans s t" | "stray_step s t"
    using assms(1) by (auto simp: any_step_def sys_step_def)
  then show ?thesis
  proof cases
    case 1
    then show ?thesis using env
      by (cases rule: request_step.cases) (auto simp: env_inv_def split: option.splits)
  next
    case 2
    then show ?thesis using env by (cases rule: loader_step.cases) (auto simp: env_inv_def)
  next
    case 3
    then show ?thesis using env by (cases rule: nested_step.cases) (auto simp: env_inv_def)
  next
    case 4
    then show ?thesis
    proof (cases rule: deliver_step.cases)
      case (d_write d r)
      then have "mtx s = Some (TDeliver d)" using mutex_inv_d [OF inv, of d] by simp
      then have "\<not> js_crit (pc s)" using mutex_inv_js [OF inv] by auto
      with d_write env show ?thesis by (cases "pc s") (auto simp: env_inv_def)
    qed (use env in \<open>auto simp: env_inv_def\<close>)
  next
    case 5
    then show ?thesis using env by (cases rule: owner_step.cases) (auto simp: env_inv_def)
  next
    case 6
    then show ?thesis using env by (cases rule: stray_step.cases) (auto simp: env_inv_def)
  qed
qed

text \<open>
  Any process may call \<open>deliver_host_reply\<close> at any time, and modules may nest: the safety
  invariants hold on every run all the same.
\<close>

interpretation safe: step_invariant "any_step ans" "\<lambda>s. \<exists>self. s = hinit self" hp_safe
proof unfold_locales
  fix s :: "'a hstate"
  assume "\<exists>self. s = hinit self"
  then show "hp_safe s"
    by (auto simp: hinit_def hp_safe_def mutex_inv_def wake_inv_def env_inv_def)
next
  fix s t :: "'a hstate"
  assume "any_step ans s t" and "hp_safe s"
  then show "hp_safe t"
    by (auto simp: hp_safe_def intro: mutex_inv_step wake_inv_step env_inv_step)
qed


section \<open>Every request gets its own reply\<close>

text \<open>
  The abstract service: requests are numbered, and the replies handed back are those of the
  requests, in order. \<open>rpc_phase\<close> says where the token of the outstanding request is: in the
  mailbox, with a delivering process before its write, or in the reply slot.
\<close>

definition others_idle :: "'r hstate \<Rightarrow> nat \<Rightarrow> bool" where
  "others_idle s d \<longleftrightarrow> (\<forall>d'. d' \<noteq> d \<longrightarrow> dpcs s d' = DIdle)"

definition in_mailbox :: "'r hstate \<Rightarrow> bool" where
  "in_mailbox s \<longleftrightarrow> \<not> owner_in_nif s \<and> mailbox s = [sent s - 1] \<and> \<not> ready s \<and> (\<forall>d. dpcs s d = DIdle)"

definition in_delivery :: "(nat \<Rightarrow> 'r) \<Rightarrow> 'r hstate \<Rightarrow> bool" where
  "in_delivery ans s \<longleftrightarrow> mailbox s = [] \<and> \<not> ready s \<and> (\<exists>d. others_idle s d \<and>
     (dpcs s d = DWantLock (ans (sent s - 1)) \<or> dpcs s d = DLocked (ans (sent s - 1))))"

definition in_slot :: "(nat \<Rightarrow> 'r) \<Rightarrow> 'r hstate \<Rightarrow> bool" where
  "in_slot ans s \<longleftrightarrow> mailbox s = [] \<and> ready s \<and> slot s = Some (ans (sent s - 1)) \<and>
     (\<exists>d. others_idle s d \<and> (dpcs s d = DIdle \<or> dpcs s d = DWritten \<or> dpcs s d = DSignalled))"

definition rpc_phase :: "(nat \<Rightarrow> 'r) \<Rightarrow> 'r hstate \<Rightarrow> bool" where
  "rpc_phase ans s \<longleftrightarrow> in_mailbox s \<or> in_delivery ans s \<or> in_slot ans s"

definition quiet :: "'r hstate \<Rightarrow> bool" where
  "quiet s \<longleftrightarrow> mailbox s = [] \<and> \<not> ready s \<and> (\<forall>d. dpcs s d = DIdle)"

fun rpc_pc :: "(nat \<Rightarrow> 'r) \<Rightarrow> 'r hstate \<Rightarrow> 'r jpc \<Rightarrow> bool" where
  "rpc_pc ans s JIdle = (quiet s \<and> length (results s) = sent s)"
| "rpc_pc ans s (JFree r e) = (quiet s \<and> r = Some (ans (length (results s))) \<and> sent s = Suc (length (results s)))"
| "rpc_pc ans s (JTaken r e) = (in_slot ans s \<and> r = Some (ans (length (results s))) \<and> sent s = Suc (length (results s)))"
| "rpc_pc ans s (JEval r e) = (in_slot ans s \<and> r = Some (ans (length (results s))) \<and> sent s = Suc (length (results s)))"
| "rpc_pc ans s _ = (rpc_phase ans s \<and> sent s = Suc (length (results s)))"

definition rpc_inv :: "(nat \<Rightarrow> 'r) \<Rightarrow> 'r hstate \<Rightarrow> bool" where
  "rpc_inv ans s \<longleftrightarrow> \<not> owner_in_nif s \<and> rpc_pc ans s (pc s)
     \<and> results s = map (Some \<circ> ans) [0..<length (results s)]"

lemmas rpc_defs = rpc_phase_def in_mailbox_def in_delivery_def in_slot_def quiet_def others_idle_def

lemma in_slot_js_quiet:
  "mutex_inv s \<Longrightarrow> js_crit (pc s) \<Longrightarrow> in_slot ans s \<Longrightarrow> dpcs s d = DIdle"
  using mutex_inv_js [of s] mutex_inv_d [of s d]
  by (auto simp: in_slot_def others_idle_def) (metis d_crit.simps)+

lemma rpc_inv_request:
  assumes "request_step s t" and inv: "mutex_inv s" and rpc: "rpc_inv ans s"
  shows "rpc_inv ans t"
  using assms(1)
proof (cases rule: request_step.cases)
  case (clear_unlock r e)
  then have "\<And>d. dpcs s d = DIdle" using in_slot_js_quiet [OF inv] rpc by (auto simp: rpc_inv_def)
  then show ?thesis using clear_unlock rpc by (auto simp: rpc_inv_def rpc_defs)
qed (use rpc in \<open>auto simp: rpc_inv_def rpc_defs\<close>)

lemma rpc_inv_loader:
  assumes "loader_step s t" and inv: "mutex_inv s" and rpc: "rpc_inv ans s"
  shows "rpc_inv ans t"
  using assms(1)
proof (cases rule: loader_step.cases)
  case (end_eval r e)
  then have "\<And>d. dpcs s d = DIdle" using in_slot_js_quiet [OF inv] rpc by (auto simp: rpc_inv_def)
  then show ?thesis using end_eval rpc by (auto simp: rpc_inv_def rpc_defs)
qed (use rpc in \<open>auto simp: rpc_inv_def rpc_defs\<close>)


text \<open>While a delivery is under way the JavaScript thread is waiting, so only the phase changes.\<close>

lemma rpc_busy:
  assumes "rpc_inv ans s" and "mutex_inv s" and "dpcs s d \<noteq> DIdle"
  shows "rpc_phase ans s" and "sent s = Suc (length (results s))"
    and "pc s \<in> {JWantLock, JCheck, JInWait, JWoken}"
proof -
  have "pc s \<in> {JWantLock, JCheck, JInWait, JWoken} \<and> rpc_phase ans s
    \<and> sent s = Suc (length (results s))"
    using assms in_slot_js_quiet [OF assms(2), of ans d]
    by (cases "pc s") (auto simp: rpc_inv_def quiet_def)
  then show "rpc_phase ans s" and "sent s = Suc (length (results s))"
    and "pc s \<in> {JWantLock, JCheck, JInWait, JWoken}" by auto
qed

lemma rpc_inv_phase:
  assumes "rpc_inv ans s" and "pc s \<in> {JWantLock, JCheck, JInWait, JWoken}"
    and "pc t \<in> {JWantLock, JCheck, JInWait, JWoken}" and "rpc_phase ans t"
    and "sent t = sent s" and "results t = results s" and "owner_in_nif t = owner_in_nif s"
  shows "rpc_inv ans t"
  using assms by (auto simp: rpc_inv_def)

lemma delivering:
  assumes "rpc_phase ans s" and "dpcs s d = DWantLock r \<or> dpcs s d = DLocked r"
  shows "others_idle s d" and "mailbox s = []" and "\<not> ready s" and "r = ans (sent s - 1)"
proof -
  from assms obtain d' where d': "mailbox s = []" "\<not> ready s" "others_idle s d'"
    "dpcs s d' = DWantLock (ans (sent s - 1)) \<or> dpcs s d' = DLocked (ans (sent s - 1))"
    by (auto simp: rpc_phase_def in_mailbox_def in_delivery_def in_slot_def others_idle_def)
      (metis dpc.distinct)+
  moreover have "d = d'" using assms(2) d'(3) by (auto simp: others_idle_def)
  ultimately show "others_idle s d" and "mailbox s = []" and "\<not> ready s" and "r = ans (sent s - 1)"
    using assms(2) by auto
qed

lemma delivered:
  assumes "rpc_phase ans s" and "dpcs s d = DWritten \<or> dpcs s d = DSignalled"
  shows "others_idle s d" and "mailbox s = []" and "ready s" and "slot s = Some (ans (sent s - 1))"
proof -
  from assms obtain d' where d': "mailbox s = []" "ready s" "others_idle s d'"
    "slot s = Some (ans (sent s - 1))"
    by (auto simp: rpc_phase_def in_mailbox_def in_delivery_def in_slot_def others_idle_def)
      (metis dpc.distinct)+
  moreover have "d = d'" using assms(2) d'(3) by (auto simp: others_idle_def)
  ultimately show "others_idle s d" and "mailbox s = []" and "ready s"
    and "slot s = Some (ans (sent s - 1))" by auto
qed

lemma rpc_inv_deliver:
  assumes "deliver_step s t" and inv: "mutex_inv s" and rpc: "rpc_inv ans s"
  shows "rpc_inv ans t"
  using assms(1)
proof (cases rule: deliver_step.cases)
  case (d_lock d r)
  then have ph: "rpc_phase ans s" and pc: "pc s \<in> {JWantLock, JCheck, JInWait, JWoken}"
    using rpc_busy [OF rpc inv, of d] by simp_all
  have "in_delivery ans t"
    using delivering [OF ph, of d r] d_lock by (auto simp: in_delivery_def others_idle_def intro!: exI [of _ d])
  with d_lock pc show ?thesis by (intro rpc_inv_phase [OF rpc]) (auto simp: rpc_phase_def)
next
  case (d_write d r)
  then have ph: "rpc_phase ans s" and pc: "pc s \<in> {JWantLock, JCheck, JInWait, JWoken}"
    using rpc_busy [OF rpc inv, of d] by simp_all
  have "in_slot ans t"
    using delivering [OF ph, of d r] d_write by (auto simp: in_slot_def others_idle_def intro!: exI [of _ d])
  with d_write pc show ?thesis by (intro rpc_inv_phase [OF rpc]) (auto simp: rpc_phase_def)
next
  case (d_signal d)
  then have ph: "rpc_phase ans s" and pc: "pc s \<in> {JWantLock, JCheck, JInWait, JWoken}"
    using rpc_busy [OF rpc inv, of d] by simp_all
  have "in_slot ans t"
    using delivered [OF ph, of d] d_signal by (auto simp: in_slot_def others_idle_def intro!: exI [of _ d])
  with d_signal pc show ?thesis by (intro rpc_inv_phase [OF rpc]) (auto simp: rpc_phase_def)
next
  case (d_unlock d)
  then have ph: "rpc_phase ans s" and pc: "pc s \<in> {JWantLock, JCheck, JInWait, JWoken}"
    using rpc_busy [OF rpc inv, of d] by simp_all
  have "in_slot ans t"
    using delivered [OF ph, of d] d_unlock by (auto simp: in_slot_def others_idle_def intro!: exI [of _ d])
  with d_unlock pc show ?thesis by (intro rpc_inv_phase [OF rpc]) (auto simp: rpc_phase_def)
qed

lemma rpc_inv_owner:
  assumes "owner_step ans s t" and inv: "mutex_inv s" and rpc: "rpc_inv ans s"
  shows "rpc_inv ans t"
  using assms(1)
proof (cases rule: owner_step.cases)
  case (answer m ms d)
  then have ph: "rpc_phase ans s" and pc: "pc s \<in> {JWantLock, JCheck, JInWait, JWoken}"
    using rpc by (cases "pc s"; auto simp: rpc_inv_def quiet_def in_slot_def)+
  have "in_mailbox s" using ph answer
    by (auto simp: rpc_phase_def in_delivery_def in_slot_def)
  then have "in_delivery ans t" using answer
    by (auto simp: in_mailbox_def in_delivery_def others_idle_def intro!: exI [of _ d])
  then have "rpc_phase ans t" by (simp add: rpc_phase_def)
  with answer pc show ?thesis by (intro rpc_inv_phase [OF rpc]) auto
qed

definition rpc_safe :: "(nat \<Rightarrow> 'r) \<Rightarrow> 'r hstate \<Rightarrow> bool" where
  "rpc_safe ans s \<longleftrightarrow> hp_safe s \<and> rpc_inv ans s"

interpretation rpc: step_invariant "sys_step ans" "\<lambda>s. s = hinit False" "rpc_safe ans"
proof unfold_locales
  fix s :: "'a hstate"
  assume "s = hinit False"
  then show "rpc_safe ans s"
    using safe.base [of s] by (auto simp: rpc_safe_def rpc_inv_def quiet_def hinit_def)
next
  fix s t :: "'a hstate"
  assume st: "sys_step ans s t" and safe: "rpc_safe ans s"
  have "hp_safe t" using safe.pres [OF sys_imp_any [OF st]] safe by (simp add: rpc_safe_def)
  moreover have "rpc_inv ans t"
    using st safe rpc_inv_request rpc_inv_loader rpc_inv_deliver rpc_inv_owner
    by (metis sys_step_def rpc_safe_def hp_safe_def)
  ultimately show "rpc_safe ans t" by (simp add: rpc_safe_def)
qed


section \<open>Reply environments are not leaked\<close>

definition leak_inv :: "'r hstate \<Rightarrow> bool" where
  "leak_inv s \<longleftrightarrow> (slot_env s \<noteq> None) = ready s \<and>
     {..<next_env s} = set (freed s) \<union> set_option (slot_env s) \<union> set_option (env_held (pc s))"

lemma env_held_wake [simp]: "env_held (if p = JInWait then JWoken else p) = env_held p"
  by simp

lemma leak_inv_step:
  assumes "sys_step ans s t" and safe: "rpc_safe ans s" and leak: "leak_inv s"
  shows "leak_inv t"
proof -
  have inv: "mutex_inv s" and env: "env_inv s" and rpc: "rpc_inv ans s"
    using safe by (simp_all add: rpc_safe_def hp_safe_def)
  consider "request_step s t" | "loader_step s t" | "deliver_step s t" | "owner_step ans s t"
    using assms(1) by (auto simp: sys_step_def)
  then show ?thesis
  proof cases
    case 1
    then show ?thesis
    proof (cases rule: request_step.cases)
      case (clear_unlock r e)
      then have "slot_env s = e" using env by (simp add: env_inv_def)
      with clear_unlock leak show ?thesis by (simp add: leak_inv_def)
    next
      case (free r e)
      with leak show ?thesis by (cases e) (simp_all add: leak_inv_def Un_commute)
    next
      case take
      with leak show ?thesis by (simp add: leak_inv_def)
    qed (use leak in \<open>simp_all add: leak_inv_def\<close>)
  next
    case 2
    then show ?thesis
    proof (cases rule: loader_step.cases)
      case (end_eval r e)
      then have "slot_env s = e" using env by (simp add: env_inv_def)
      with end_eval leak show ?thesis by (simp add: leak_inv_def)
    qed (use leak in \<open>simp_all add: leak_inv_def\<close>)
  next
    case 3
    then show ?thesis
    proof (cases rule: deliver_step.cases)
      case (d_write d r)
      then have "rpc_phase ans s" and pc: "pc s \<in> {JWantLock, JCheck, JInWait, JWoken}"
        using rpc_busy [OF rpc inv, of d] by simp_all
      then have "\<not> ready s" using delivering [of ans s d r] d_write by simp
      then have slot: "slot_env s = None" using leak by (simp add: leak_inv_def)
      have held: "env_held (pc s) = None" using pc by auto
      have "{..<next_env s} = set (freed s)" using leak slot held by (simp add: leak_inv_def)
      then have "{..<Suc (next_env s)} = set (freed s) \<union> {next_env s}" by (simp add: lessThan_Suc)
      with d_write held show ?thesis by (simp add: leak_inv_def)
    qed (use leak in \<open>simp_all add: leak_inv_def\<close>)
  next
    case 4
    then show ?thesis using leak by (cases rule: owner_step.cases) (simp_all add: leak_inv_def)
  qed
qed

interpretation leak: step_invariant "sys_step ans" "\<lambda>s. s = hinit False"
  "\<lambda>s. rpc_safe ans s \<and> leak_inv s"
proof unfold_locales
  fix s :: "'a hstate"
  assume "s = hinit False"
  then show "rpc_safe ans s \<and> leak_inv s"
    using rpc.base [of s ans] by (simp add: leak_inv_def hinit_def)
next
  fix s t :: "'a hstate"
  assume "sys_step ans s t" and "rpc_safe ans s \<and> leak_inv s"
  then show "rpc_safe ans t \<and> leak_inv t"
    using rpc.pres leak_inv_step by blast
qed

section \<open>The request that is answered by its own process\<close>

text \<open>
  When the owner is the process that evaluates the script, no message is ever handled: the
  first request leaves the JavaScript thread waiting for good.
\<close>

definition self_inv :: "'r hstate \<Rightarrow> bool" where
  "self_inv s \<longleftrightarrow> owner_in_nif s \<and> \<not> ready s \<and> (\<forall>d. dpcs s d = DIdle) \<and> results s = []
     \<and> (if sent s = 0 then pc s = JIdle else pc s \<in> {JWantLock, JCheck, JInWait, JWoken})"

lemma self_inv_step:
  assumes "sys_step ans s t" and self: "self_inv s"
  shows "self_inv t"
proof -
  consider "request_step s t" | "loader_step s t" | "deliver_step s t" | "owner_step ans s t"
    using assms(1) by (auto simp: sys_step_def)
  then show ?thesis
  proof cases
    case 1
    then show ?thesis using self by (cases rule: request_step.cases) (auto simp: self_inv_def split: if_splits)
  next
    case 2
    then show ?thesis using self by (cases rule: loader_step.cases) (auto simp: self_inv_def split: if_splits)
  next
    case 3
    then show ?thesis using self by (cases rule: deliver_step.cases) (auto simp: self_inv_def)
  next
    case 4
    then show ?thesis using self by (cases rule: owner_step.cases) (auto simp: self_inv_def)
  qed
qed

interpretation self_eval: step_invariant "sys_step ans" "\<lambda>s. s = hinit True" self_inv
proof unfold_locales
  show "self_inv t" if "sys_step ans s t" and "self_inv s" for s t :: "'a hstate"
    using that by (rule self_inv_step)
qed (simp add: self_inv_def hinit_def)

lemma sent_mono: "sys_step ans s t \<Longrightarrow> sent s \<le> sent t"
  unfolding sys_step_def
  by (auto elim: request_step.cases loader_step.cases deliver_step.cases owner_step.cases)

lemma sent_mono_reach: "reach (sys_step ans) s t \<Longrightarrow> sent s \<le> sent t"
  by (induction rule: reach.induct) (auto dest: sent_mono)

text \<open>A thread that wants a mutex it already holds never gets it, whatever the others do.\<close>

definition self_locked :: "'r hstate \<Rightarrow> bool" where
  "self_locked s \<longleftrightarrow> mutex_inv s \<and> pc s = JWantLock \<and> mtx s = Some TJs"

lemma self_locked_step:
  assumes "any_step ans s t" and locked: "self_locked s"
  shows "self_locked t"
proof -
  have inv: "mutex_inv s" and pc: "pc s = JWantLock" and mtx: "mtx s = Some TJs"
    using locked by (simp_all add: self_locked_def)
  have "\<And>d. \<not> d_crit (dpcs s d)" using mutex_inv_d [OF inv] mtx by simp
  then have no_d: "\<And>d. dpcs s d \<noteq> DSignalled" "\<And>d. dpcs s d \<noteq> DWritten"
    by (metis d_crit.simps(2,3))+
  have "pc t = JWantLock \<and> mtx t = Some TJs"
    using assms(1) pc mtx no_d unfolding any_step_def sys_step_def
    by (auto elim: request_step.cases loader_step.cases nested_step.cases
        deliver_step.cases owner_step.cases stray_step.cases)
  with mutex_inv_step [OF assms(1) inv] show ?thesis by (simp add: self_locked_def)
qed

interpretation nested: step_invariant "any_step ans" self_locked self_locked
  using self_locked_step by unfold_locales


section \<open>A pending request can always be completed\<close>

text \<open>Without nested requests the JavaScript thread holds the mutex only in its critical section.\<close>

definition no_nest :: "'r hstate \<Rightarrow> bool" where
  "no_nest s \<longleftrightarrow> (mtx s = Some TJs \<longrightarrow> js_crit (pc s))"

lemma no_nest_step: "sys_step ans s t \<Longrightarrow> mutex_inv s \<Longrightarrow> no_nest s \<Longrightarrow> no_nest t"
proof -
  assume st: "sys_step ans s t" and inv: "mutex_inv s" and nn: "no_nest s"
  consider "request_step s t" | "loader_step s t" | "deliver_step s t" | "owner_step ans s t"
    using st by (auto simp: sys_step_def)
  then show "no_nest t"
  proof cases
    case 1
    then show ?thesis using nn by (cases rule: request_step.cases) (auto simp: no_nest_def)
  next
    case 2
    then show ?thesis using nn by (cases rule: loader_step.cases) (auto simp: no_nest_def)
  next
    case 3
    then show ?thesis using nn by (cases rule: deliver_step.cases) (auto simp: no_nest_def)
  next
    case 4
    then show ?thesis using nn by (cases rule: owner_step.cases) (auto simp: no_nest_def)
  qed
qed

interpretation nonest: step_invariant "sys_step ans" "\<lambda>s. s = hinit False"
  "\<lambda>s. rpc_safe ans s \<and> no_nest s"
proof unfold_locales
  fix s :: "'a hstate"
  assume "s = hinit False"
  then show "rpc_safe ans s \<and> no_nest s" using rpc.base [of s ans] by (simp add: no_nest_def hinit_def)
next
  fix s t :: "'a hstate"
  assume "sys_step ans s t" and "rpc_safe ans s \<and> no_nest s"
  then show "rpc_safe ans t \<and> no_nest t"
    using rpc.pres no_nest_step by (auto simp: rpc_safe_def hp_safe_def)
qed

text \<open>How far the token of the outstanding request and the waiting thread are from the end.\<close>

fun d_left :: "'r dpc \<Rightarrow> nat" where
  "d_left DIdle = 0"
| "d_left DSignalled = 1"
| "d_left DWritten = 2"
| "d_left (DLocked r) = 3"
| "d_left (DWantLock r) = 4"

fun js_left :: "'r jpc \<Rightarrow> nat" where
  "js_left JIdle = 0"
| "js_left (JFree r e) = 1"
| "js_left (JTaken r e) = 2"
| "js_left (JEval r e) = 2"
| "js_left JCheck = 3"
| "js_left _ = 4"

definition work_at :: "'r hstate \<Rightarrow> nat \<Rightarrow> nat" where
  "work_at s d = (if mailbox s \<noteq> [] then 50
     else if dpcs s d \<noteq> DIdle then 10 * d_left (dpcs s d) + (if pc s = JCheck then 1 else 0)
     else js_left (pc s))"

text \<open>\<open>d\<close> is the only process that may be delivering.\<close>

lemma active_exists: "rpc_inv ans s \<Longrightarrow> \<exists>d. others_idle s d"
  by (cases "pc s") (auto simp: rpc_inv_def rpc_defs)

lemma others_idle_upd [simp]: "others_idle (s\<lparr>dpcs := (dpcs s)(d := x)\<rparr>) d = others_idle s d"
  by (auto simp: others_idle_def)

lemma sys_request: "request_step s t \<Longrightarrow> sys_step ans s t"
  and sys_loader: "loader_step s t \<Longrightarrow> sys_step ans s t"
  and sys_deliver: "deliver_step s t \<Longrightarrow> sys_step ans s t"
  and sys_owner: "owner_step ans s t \<Longrightarrow> sys_step ans s t"
  by (simp_all add: sys_step_def)

lemma progressI:
  "sys_step ans s t \<Longrightarrow> work_at t d < work_at s d \<and> others_idle t d \<and> sent t = sent s
    \<Longrightarrow> \<exists>t. sys_step ans s t \<and> work_at t d < work_at s d \<and> others_idle t d \<and> sent t = sent s"
  by blast

lemma mtx_free:
  assumes "mutex_inv s" and "no_nest s" and "\<not> js_crit (pc s)" and "\<And>d. \<not> d_crit (dpcs s d)"
  shows "mtx s = None"
proof (cases "mtx s")
  case (Some th)
  then show ?thesis using assms mutex_inv_d [OF assms(1)] by (cases th) (auto simp: no_nest_def)
qed simp

lemma progress_idle:
  assumes safe: "rpc_safe ans s" and nn: "no_nest s" and pc: "pc s \<noteq> JIdle"
    and mb: "mailbox s = []" and idle: "\<And>d. dpcs s d = DIdle"
  shows "\<exists>t. sys_step ans s t \<and> work_at t d < work_at s d \<and> others_idle t d \<and> sent t = sent s"
proof -
  have inv: "mutex_inv s" and wake: "wake_inv s" and rpc: "rpc_inv ans s"
    using safe by (simp_all add: rpc_safe_def hp_safe_def)
  have free: "mtx s = None" if "\<not> js_crit (pc s)"
    using mtx_free [OF inv nn that] idle by simp
  have ready: "ready s" if "pc s \<in> {JWantLock, JCheck, JInWait, JWoken}"
    using that rpc mb idle by (auto simp: rpc_inv_def rpc_defs)
  note step = work_at_def others_idle_def mb idle
  show ?thesis
  proof (cases "pc s")
    case JWantLock
    with free show ?thesis
      by (intro progressI [OF sys_request [OF request_step.lock]]) (auto simp: step)
  next
    case JCheck
    show ?thesis
    proof (cases "kind s")
      case HostCall
      with JCheck ready show ?thesis
        by (intro progressI [OF sys_request [OF request_step.take]]) (auto simp: step)
    next
      case LoadModule
      with JCheck ready show ?thesis
        by (intro progressI [OF sys_loader [OF loader_step.start_eval]]) (auto simp: step)
    qed
  next
    case JInWait
    with wake ready free show ?thesis by (auto simp: wake_inv_def)
  next
    case JWoken
    with free show ?thesis
      by (intro progressI [OF sys_request [OF request_step.relock]]) (auto simp: step)
  next
    case (JTaken r e)
    then show ?thesis
      by (intro progressI [OF sys_request [OF request_step.clear_unlock]]) (auto simp: step)
  next
    case (JEval r e)
    then show ?thesis
      by (intro progressI [OF sys_loader [OF loader_step.end_eval]]) (auto simp: step)
  next
    case (JFree r e)
    then show ?thesis
      by (intro progressI [OF sys_request [OF request_step.free]]) (auto simp: step)
  qed (use pc in simp)
qed

lemma progress_delivering:
  assumes safe: "rpc_safe ans s" and nn: "no_nest s"
    and d: "others_idle s d" and busy: "dpcs s d \<noteq> DIdle"
  shows "\<exists>t. sys_step ans s t \<and> work_at t d < work_at s d \<and> others_idle t d \<and> sent t = sent s"
proof -
  have inv: "mutex_inv s" and rpc: "rpc_inv ans s"
    using safe by (simp_all add: rpc_safe_def hp_safe_def)
  have ph: "rpc_phase ans s" and pc: "pc s \<in> {JWantLock, JCheck, JInWait, JWoken}"
    using rpc_busy [OF rpc inv busy] by simp_all
  show ?thesis
  proof (cases "dpcs s d")
    case (DWantLock r)
    then have mb: "mailbox s = []" "\<not> ready s" using delivering [OF ph, of d r] by simp_all
    show ?thesis
    proof (cases "js_crit (pc s)")
      case True
      then have "pc s = JCheck" using pc by auto
      with DWantLock mb d show ?thesis
        by (intro progressI [OF sys_request [OF request_step.cond_wait]])
          (auto simp: work_at_def others_idle_def)
    next
      case False
      have "\<not> d_crit (dpcs s d')" for d'
        using d DWantLock by (cases "d' = d") (auto simp: others_idle_def)
      then have "mtx s = None" using mtx_free [OF inv nn False] by simp
      with DWantLock mb d show ?thesis
        by (intro progressI [OF sys_deliver [OF deliver_step.d_lock]])
          (auto simp: work_at_def others_idle_def)
    qed
  next
    case (DLocked r)
    then show ?thesis using delivering [OF ph, of d r] d
      by (intro progressI [OF sys_deliver [OF deliver_step.d_write]])
        (auto simp: work_at_def others_idle_def)
  next
    case DWritten
    then show ?thesis using delivered [OF ph, of d] d
      by (intro progressI [OF sys_deliver [OF deliver_step.d_signal]])
        (auto simp: work_at_def others_idle_def)
  next
    case DSignalled
    then have "mtx s = Some (TDeliver d)" using mutex_inv_d [OF inv, of d] by simp
    then have "\<not> js_crit (pc s)" using mutex_inv_js [OF inv] by auto
    then have "pc s \<noteq> JCheck" by auto
    with pc have "js_left (pc s) = 4" by auto
    with DSignalled show ?thesis using delivered [OF ph, of d] d
      by (intro progressI [OF sys_deliver [OF deliver_step.d_unlock]])
        (auto simp: work_at_def others_idle_def)
  qed (use busy in simp)
qed

lemma progress_mailbox:
  assumes safe: "rpc_safe ans s" and d: "others_idle s d" and mb: "mailbox s \<noteq> []"
  shows "\<exists>t. sys_step ans s t \<and> work_at t d < work_at s d \<and> others_idle t d \<and> sent t = sent s"
proof -
  have rpc: "rpc_inv ans s" using safe by (simp add: rpc_safe_def)
  have "in_mailbox s" using rpc mb by (cases "pc s") (auto simp: rpc_inv_def rpc_defs)
  then have m: "mailbox s = [sent s - 1]" "\<not> owner_in_nif s" "dpcs s d = DIdle"
    by (auto simp: in_mailbox_def)
  show ?thesis using m d
    by (intro progressI [OF sys_owner [OF owner_step.answer [of s "sent s - 1" "[]" d]]])
      (auto simp: work_at_def others_idle_def)
qed

lemma progress_step:
  assumes "rpc_safe ans s" and "no_nest s" and "pc s \<noteq> JIdle" and "others_idle s d"
  shows "\<exists>t. sys_step ans s t \<and> work_at t d < work_at s d \<and> others_idle t d \<and> sent t = sent s"
proof (cases "mailbox s = []")
  case True
  show ?thesis
  proof (cases "dpcs s d = DIdle")
    case idle: True
    have "dpcs s d' = DIdle" for d' using idle assms(4) by (cases "d' = d") (auto simp: others_idle_def)
    with progress_idle [OF assms(1-3) True] show ?thesis by simp
  next
    case False
    with progress_delivering [OF assms(1,2,4)] show ?thesis by simp
  qed
next
  case False
  with progress_mailbox [OF assms(1,4)] show ?thesis by simp
qed

lemma reach_append: "reach R t u \<Longrightarrow> reach R s t \<Longrightarrow> reach R s u"
  by (induction rule: reach.induct) (auto intro: reach_step)

lemma progress_run:
  assumes "rpc_safe ans s" and "no_nest s" and "others_idle s d"
  shows "\<exists>t. reach (sys_step ans) s t \<and> pc t = JIdle \<and> sent t = sent s"
  using assms
proof (induction "work_at s d" arbitrary: s rule: less_induct)
  case less
  show ?case
  proof (cases "pc s = JIdle")
    case True
    then show ?thesis by (intro exI [of _ s]) (simp add: reach_refl)
  next
    case False
    from progress_step [OF less.prems(1,2) False less.prems(3)] obtain t where
      t: "sys_step ans s t" "work_at t d < work_at s d" "others_idle t d" "sent t = sent s" by blast
    have "rpc_safe ans t" "no_nest t" using nonest.pres [OF t(1)] less.prems by auto
    then obtain u where "reach (sys_step ans) t u" "pc u = JIdle" "sent u = sent t"
      using less.hyps [OF t(2)] t(3) by blast
    moreover have "reach (sys_step ans) s t" using t(1) by (blast intro: reach.intros)
    ultimately show ?thesis using t(4) reach_append by metis
  qed
qed

section \<open>Properties\<close>

lemma run_safe: "reach (any_step ans) (hinit self) s \<Longrightarrow> hp_safe s"
  by (rule safe.always) auto

text \<open>
  C11. Mutual exclusion on the reply fields: on every run, also with stray deliveries and nested
  requests, at most one thread is in a critical section, and it holds the mutex.
\<close>
theorem reply_slot_mutual_exclusion:
  assumes "reach (any_step ans) (hinit self) s"
  shows "\<not> (js_crit (pc s) \<and> d_crit (dpcs s d))
    \<and> (d_crit (dpcs s d) \<and> d_crit (dpcs s d') \<longrightarrow> d = d')"
proof -
  have inv: "mutex_inv s" using run_safe [OF assms] by (simp add: hp_safe_def)
  show ?thesis
    using mutex_inv_js [OF inv] mutex_inv_d [OF inv, of d] mutex_inv_d [OF inv, of d'] by auto
qed

text \<open>
  C12. No wakeup is lost: if a reply is ready while the JavaScript thread is blocked in
  \<open>enif_cond_wait\<close>, then the process that wrote it still holds the mutex and is about to signal.
\<close>
theorem no_lost_wakeup:
  assumes "reach (any_step ans) (hinit self) s" and "pc s = JInWait" and "ready s"
  shows "\<exists>d. mtx s = Some (TDeliver d) \<and> dpcs s d = DWritten"
  using run_safe [OF assms(1)] assms(2,3)
  by (auto simp: hp_safe_def wake_inv_def split: option.splits thread.splits)


text \<open>
  C10. When every message is answered by one delivery, the replies handed to the script are the
  answers to its requests, in order, and at most one request is outstanding.
\<close>
theorem requests_get_their_replies:
  assumes "reach (sys_step ans) (hinit False) s"
  shows "results s = map (Some \<circ> ans) [0..<length (results s)]
    \<and> length (results s) \<le> sent s \<and> sent s \<le> Suc (length (results s))"
proof -
  have "rpc_inv ans s" using rpc.always [OF assms] by (simp add: rpc_safe_def)
  then show ?thesis by (cases "pc s") (auto simp: rpc_inv_def)
qed

text \<open>
  C14. Under the same discipline no reply environment leaks: between two requests every
  environment that was ever allocated has been freed, exactly once.
\<close>
theorem reply_envs_all_freed:
  assumes "reach (sys_step ans) (hinit False) s" and "pc s = JIdle"
  shows "set (freed s) = {..<next_env s} \<and> distinct (freed s)"
proof -
  have inv: "rpc_safe ans s" "leak_inv s" using leak.always [OF assms(1)] by auto
  then have "\<not> ready s" using assms(2) by (simp add: rpc_safe_def rpc_inv_def quiet_def)
  with inv assms(2) show ?thesis
    by (auto simp: leak_inv_def rpc_safe_def hp_safe_def env_inv_def)
qed


text \<open>
  C16. The module loader evaluates a module with the mutex held, so a request made by that
  evaluation (a nested import, a host call) blocks for good on the thread's own mutex, whatever
  replies are delivered.
\<close>
theorem nested_module_request_deadlocks:
  assumes "reach (any_step ans) (hinit self) s" and "nested_step s t"
    and "reach (any_step ans) t u"
  shows "pc u = JWantLock \<and> mtx u = Some TJs"
proof -
  have inv: "mutex_inv s" using run_safe [OF assms(1)] by (simp add: hp_safe_def)
  have "self_locked t" using assms(2)
  proof (cases rule: nested_step.cases)
    case (loader_nested r e k)
    with inv mutex_inv_js [OF inv] mutex_inv_nested [OF assms(2) inv]
    show ?thesis by (simp add: self_locked_def)
  qed
  then have "self_locked u" using nested.from_inv [OF assms(3)] by simp
  then show ?thesis by (simp add: self_locked_def)
qed


text \<open>
  C9. No schedule gets stuck: from every state a disciplined run reaches, the outstanding
  request can be completed without a further request, and the script then has all its replies.
\<close>
theorem pending_request_completes:
  assumes "reach (sys_step ans) (hinit False) s"
  shows "\<exists>t. reach (sys_step ans) s t \<and> pc t = JIdle \<and> sent t = sent s
    \<and> results t = map (Some \<circ> ans) [0..<sent s]"
proof -
  have safe: "rpc_safe ans s" "no_nest s" using nonest.always [OF assms] by auto
  then obtain d where "others_idle s d" using active_exists by (auto simp: rpc_safe_def)
  from progress_run [OF safe this] obtain t where
    t: "reach (sys_step ans) s t" "pc t = JIdle" "sent t = sent s" by blast
  have "rpc_inv ans t" using rpc.always [OF reach_append [OF t(1) assms]] by (simp add: rpc_safe_def)
  then have "length (results t) = sent t" "results t = map (Some \<circ> ans) [0..<length (results t)]"
    using t(2) by (auto simp: rpc_inv_def)
  with t show ?thesis by metis
qed

lemma reach5: "R a b \<Longrightarrow> R b c \<Longrightarrow> R c d \<Longrightarrow> R d e \<Longrightarrow> R e f \<Longrightarrow> reach R a f"
  by (meson reach.intros)

text \<open>The run in which one delivery by \<open>d\<close> answers or precedes a request.\<close>

lemma stray_run:
  "\<exists>s. reach (any_step ans) (hinit False) s \<and> pc s = JIdle \<and> ready s \<and> slot s = Some r
     \<and> slot_env s = Some 0 \<and> next_env s = 1 \<and> freed s = [] \<and> results s = [] \<and> sent s = 0
     \<and> mailbox s = [] \<and> mtx s = None \<and> (\<forall>d. dpcs s d = DIdle) \<and> kind s = HostCall"
proof -
  let ?s0 = "hinit False :: 'a hstate"
  let ?s1 = "?s0\<lparr>dpcs := (dpcs ?s0)(0 := DWantLock r)\<rparr>"
  let ?s2 = "?s1\<lparr>dpcs := (dpcs ?s1)(0 := DLocked r), mtx := Some (TDeliver 0)\<rparr>"
  let ?s3 = "?s2\<lparr>dpcs := (dpcs ?s2)(0 := DWritten), slot := Some r, slot_env := Some (next_env ?s2),
      next_env := Suc (next_env ?s2), ready := True\<rparr>"
  let ?s4 = "?s3\<lparr>dpcs := (dpcs ?s3)(0 := DSignalled), pc := (if pc ?s3 = JInWait then JWoken else pc ?s3)\<rparr>"
  let ?s5 = "?s4\<lparr>dpcs := (dpcs ?s4)(0 := DIdle), mtx := None\<rparr>"
  note any = any_step_def sys_step_def
  have "any_step ans ?s0 ?s1" using stray_step.stray [of ?s0 0 r] by (simp add: any hinit_def)
  moreover have "any_step ans ?s1 ?s2" using deliver_step.d_lock [of ?s1 0 r] by (simp add: any hinit_def)
  moreover have "any_step ans ?s2 ?s3" using deliver_step.d_write [of ?s2 0 r] by (simp add: any hinit_def)
  moreover have "any_step ans ?s3 ?s4" using deliver_step.d_signal [of ?s3 0] by (simp add: any hinit_def)
  moreover have "any_step ans ?s4 ?s5" using deliver_step.d_unlock [of ?s4 0] by (simp add: any hinit_def)
  ultimately have "reach (any_step ans) ?s0 ?s5" by (rule reach5)
  then show ?thesis by (intro exI [of _ ?s5]) (simp add: hinit_def)
qed

lemma take_run:
  fixes s :: "'r hstate"
  assumes "pc s = JIdle" and "ready s" and "mtx s = None" and "slot s = Some r" and "slot_env s = Some e"
  shows "\<exists>t. reach (any_step ans) s t \<and> pc t = JIdle \<and> results t = results s @ [Some r]
     \<and> freed t = freed s @ [e] \<and> sent t = Suc (sent s) \<and> mailbox t = mailbox s @ [sent s]
     \<and> slot_env t = None \<and> next_env t = next_env s"
proof -
  let ?s1 = "s\<lparr>pc := JWantLock, kind := HostCall, mailbox := mailbox s @ [sent s], sent := Suc (sent s)\<rparr>"
  let ?s2 = "?s1\<lparr>pc := JCheck, mtx := Some TJs\<rparr>"
  let ?s3 = "?s2\<lparr>pc := JTaken (slot s) (slot_env s)\<rparr>"
  let ?s4 = "?s3\<lparr>pc := JFree (slot s) (slot_env s), ready := False, slot_env := None, mtx := None\<rparr>"
  let ?s5 = "?s4\<lparr>pc := JIdle, results := results ?s4 @ [Some r], freed := freed ?s4 @ [e]\<rparr>"
  note any = any_step_def sys_step_def
  have "any_step ans s ?s1" using request_step.send [of s HostCall] assms by (simp add: any)
  moreover have "any_step ans ?s1 ?s2" using request_step.lock [of ?s1] assms by (simp add: any)
  moreover have "any_step ans ?s2 ?s3" using request_step.take [of ?s2] assms by (simp add: any)
  moreover have "any_step ans ?s3 ?s4" using request_step.clear_unlock [of ?s3] by (simp add: any)
  moreover have "any_step ans ?s4 ?s5" using request_step.free [of ?s4 "Some r" "Some e"] assms
    by (simp add: any)
  ultimately have "reach (any_step ans) s ?s5" by (rule reach5)
  then show ?thesis by (intro exI [of _ ?s5]) simp
qed

text \<open>
  C17. The context does not pair replies with requests: after a stray \<open>deliver_host_reply\<close> the next
  request returns the stray value, whatever it is, while its own message is still unanswered.
\<close>
theorem stray_reply_is_returned:
  "\<exists>s. reach (any_step ans) (hinit False) s \<and> pc s = JIdle \<and> results s = [Some r] \<and> mailbox s = [0]"
proof -
  obtain s :: "'a hstate" where s: "reach (any_step ans) (hinit False) s" "pc s = JIdle" "ready s"
    "slot s = Some r" "slot_env s = Some 0" "results s = []" "sent s = 0" "mailbox s = []" "mtx s = None"
    using stray_run [of ans r] by blast
  from take_run [OF s(2,3,9,4,5), of ans] obtain t where
    "reach (any_step ans) s t" "pc t = JIdle" "results t = [Some r]" "mailbox t = [0]"
    using s(6-8) by auto
  with reach_append [OF _ s(1)] show ?thesis by (intro exI [of _ t]) simp
qed


text \<open>
  A second delivery before the first is read overwrites the slot: the first environment is
  then referred to by nothing and is never freed.
\<close>
theorem second_delivery_leaks:
  "\<exists>s. reach (any_step ans) (hinit False) s \<and> pc s = JIdle \<and> mtx s = None
     \<and> slot_env s = Some 1 \<and> next_env s = 2 \<and> freed s = []"
proof -
  obtain s :: "'a hstate" where s: "reach (any_step ans) (hinit False) s" "pc s = JIdle" "ready s"
    "slot_env s = Some 0" "next_env s = 1" "freed s = []" "mtx s = None" "\<forall>d. dpcs s d = DIdle"
    using stray_run [of ans undefined] by blast
  let ?s1 = "s\<lparr>dpcs := (dpcs s)(0 := DWantLock undefined)\<rparr>"
  let ?s2 = "?s1\<lparr>dpcs := (dpcs ?s1)(0 := DLocked undefined), mtx := Some (TDeliver 0)\<rparr>"
  let ?s3 = "?s2\<lparr>dpcs := (dpcs ?s2)(0 := DWritten), slot := Some undefined, slot_env := Some (next_env ?s2),
      next_env := Suc (next_env ?s2), ready := True\<rparr>"
  let ?s4 = "?s3\<lparr>dpcs := (dpcs ?s3)(0 := DSignalled), pc := (if pc ?s3 = JInWait then JWoken else pc ?s3)\<rparr>"
  let ?s5 = "?s4\<lparr>dpcs := (dpcs ?s4)(0 := DIdle), mtx := None\<rparr>"
  note any = any_step_def sys_step_def
  have "any_step ans s ?s1" using stray_step.stray [of s 0 undefined] s(8) by (simp add: any)
  moreover have "any_step ans ?s1 ?s2" using deliver_step.d_lock [of ?s1 0 undefined] s(7) by (simp add: any)
  moreover have "any_step ans ?s2 ?s3" using deliver_step.d_write [of ?s2 0 undefined] by (simp add: any)
  moreover have "any_step ans ?s3 ?s4" using deliver_step.d_signal [of ?s3 0] by (simp add: any)
  moreover have "any_step ans ?s4 ?s5" using deliver_step.d_unlock [of ?s4 0] by (simp add: any)
  ultimately have "reach (any_step ans) s ?s5" by (rule reach5)
  from reach_append [OF this s(1)] s(2,5,6) show ?thesis by (intro exI [of _ ?s5]) simp
qed

section \<open>Concrete runs\<close>

text \<open>
  The run in which request 0 is answered with 7: the state in which the reply is written while
  the script waits, and the state after the script has taken it.
\<close>

definition demo_sent :: "bool \<Rightarrow> nat hstate" where
  "demo_sent self = (hinit self)\<lparr>pc := JWantLock, mailbox := [0], sent := 1\<rparr>"

definition demo_wait :: "nat hstate" where
  "demo_wait = (hinit False)\<lparr>pc := JInWait, sent := 1, mtx := Some (TDeliver 0),
     dpcs := (\<lambda>_. DIdle)(0 := DWritten), slot := Some 7, slot_env := Some 0, next_env := 1, ready := True\<rparr>"

definition demo_taken :: "nat hstate" where
  "demo_taken = (hinit False)\<lparr>pc := JTaken (Some 7) (Some 0), sent := 1, mtx := Some TJs,
     slot := Some 7, slot_env := Some 0, next_env := 1, ready := True\<rparr>"

definition demo_done :: "nat hstate" where
  "demo_done = (hinit False)\<lparr>pc := JIdle, sent := 1, slot := Some 7, next_env := 1,
     results := [Some 7], freed := [0]\<rparr>"

lemma demo_sent_reach: "reach (sys_step (\<lambda>_. 7)) (hinit self) (demo_sent self)"
proof (rule reach_step [OF reach_refl], rule sys_request)
  show "request_step (hinit self) (demo_sent self)"
    using request_step.send [of "hinit self" HostCall] by (simp add: demo_sent_def hinit_def)
qed

lemma demo_wait_reach: "reach (sys_step (\<lambda>_. 7)) (hinit False) demo_wait"
proof -
  let ?s0 = "demo_sent False"
  let ?s1 = "?s0\<lparr>pc := JCheck, mtx := Some TJs\<rparr>"
  let ?s2 = "?s1\<lparr>pc := JInWait, mtx := None\<rparr>"
  let ?s3 = "?s2\<lparr>mailbox := [], dpcs := (dpcs ?s2)(0 := DWantLock 7)\<rparr>"
  let ?s4 = "?s3\<lparr>dpcs := (dpcs ?s3)(0 := DLocked 7), mtx := Some (TDeliver 0)\<rparr>"
  let ?s5 = "?s4\<lparr>dpcs := (dpcs ?s4)(0 := DWritten), slot := Some 7, slot_env := Some (next_env ?s4),
      next_env := Suc (next_env ?s4), ready := True\<rparr>"
  note d = demo_sent_def hinit_def
  have "sys_step (\<lambda>_. 7) ?s0 ?s1" using request_step.lock [of ?s0] by (simp add: sys_step_def d)
  moreover have "sys_step (\<lambda>_. 7) ?s1 ?s2" using request_step.cond_wait [of ?s1] by (simp add: sys_step_def d)
  moreover have "sys_step (\<lambda>_. 7) ?s2 ?s3"
    using owner_step.answer [of ?s2 0 "[]" 0 "\<lambda>_. 7"] by (simp add: sys_step_def d)
  moreover have "sys_step (\<lambda>_. 7) ?s3 ?s4" using deliver_step.d_lock [of ?s3 0 7] by (simp add: sys_step_def d)
  moreover have "sys_step (\<lambda>_. 7) ?s4 ?s5" using deliver_step.d_write [of ?s4 0 7] by (simp add: sys_step_def d)
  ultimately have "reach (sys_step (\<lambda>_. 7)) ?s0 ?s5" by (rule reach5)
  moreover have "?s5 = demo_wait" by (simp add: d demo_wait_def)
  ultimately show ?thesis using reach_append [OF _ demo_sent_reach] by simp
qed

lemma const_idle_upd: "(\<lambda>_. DIdle :: 'r dpc)(d := DIdle) = (\<lambda>_. DIdle)"
  by (rule ext) simp

lemma demo_taken_reach: "reach (sys_step (\<lambda>_. 7)) (hinit False) demo_taken"
proof -
  let ?s1 = "demo_wait\<lparr>dpcs := (dpcs demo_wait)(0 := DSignalled), pc := JWoken\<rparr>"
  let ?s2 = "?s1\<lparr>dpcs := (dpcs ?s1)(0 := DIdle), mtx := None\<rparr>"
  let ?s3 = "?s2\<lparr>pc := JCheck, mtx := Some TJs\<rparr>"
  let ?s4 = "?s3\<lparr>pc := JTaken (slot ?s3) (slot_env ?s3)\<rparr>"
  note d = demo_wait_def hinit_def
  have a: "sys_step (\<lambda>_. 7) demo_wait ?s1" using deliver_step.d_signal [of demo_wait 0] by (simp add: sys_step_def d)
  have b: "sys_step (\<lambda>_. 7) ?s1 ?s2" using deliver_step.d_unlock [of ?s1 0] by (simp add: sys_step_def d)
  have c: "sys_step (\<lambda>_. 7) ?s2 ?s3" using request_step.relock [of ?s2] by (simp add: sys_step_def d)
  have e: "sys_step (\<lambda>_. 7) ?s3 ?s4" using request_step.take [of ?s3] by (simp add: sys_step_def d)
  have "reach (sys_step (\<lambda>_. 7)) (hinit False) ?s4"
    by (rule demo_wait_reach [THEN reach_step, OF a, THEN reach_step, OF b, THEN reach_step, OF c, THEN reach_step, OF e])
  moreover have "?s4 = demo_taken" by (simp only: d demo_taken_def hstate.simps fun_upd_upd const_idle_upd)
  ultimately show ?thesis by simp
qed

lemma demo_done_reach: "reach (sys_step (\<lambda>_. 7)) (hinit False) demo_done"
proof -
  let ?s1 = "demo_taken\<lparr>pc := JFree (Some 7) (Some 0), ready := False, slot_env := None, mtx := None\<rparr>"
  note d = demo_taken_def hinit_def
  have a: "sys_step (\<lambda>_. 7) demo_taken ?s1"
    using request_step.clear_unlock [of demo_taken "Some 7" "Some 0"] by (simp add: sys_step_def d)
  have b: "sys_step (\<lambda>_. 7) ?s1 demo_done"
    using request_step.free [of ?s1 "Some 7" "Some 0"] by (simp add: sys_step_def d demo_done_def)
  show ?thesis by (rule reach_step [OF reach_step [OF demo_taken_reach a] b])
qed

lemma demo_any: "reach (sys_step ans) s t \<Longrightarrow> reach (any_step ans) s t"
  by (erule reach_mono) (rule sys_imp_any)

text \<open>The run in which the reply of a module request is evaluated and the module imports another.\<close>

definition demo_eval :: "nat hstate" where
  "demo_eval = (hinit False)\<lparr>pc := JEval (Some 7) (Some 0), kind := LoadModule, sent := 1, mtx := Some TJs,
     slot := Some 7, slot_env := Some 0, next_env := 1, ready := True\<rparr>"

definition demo_nested :: "nat hstate" where
  "demo_nested = demo_eval\<lparr>pc := JWantLock, mailbox := [1], sent := 2\<rparr>"

lemma demo_eval_reach: "reach (any_step (\<lambda>_. 7)) (hinit False) demo_eval"
proof -
  let ?s0 = "(hinit False :: nat hstate)"
  let ?s1 = "?s0\<lparr>pc := JWantLock, kind := LoadModule, mailbox := mailbox ?s0 @ [sent ?s0], sent := Suc (sent ?s0)\<rparr>"
  let ?s3 = "?s1\<lparr>mailbox := [], dpcs := (dpcs ?s1)(0 := DWantLock 7)\<rparr>"
  let ?s4 = "?s3\<lparr>dpcs := (dpcs ?s3)(0 := DLocked 7), mtx := Some (TDeliver 0)\<rparr>"
  let ?s5 = "?s4\<lparr>dpcs := (dpcs ?s4)(0 := DWritten), slot := Some 7, slot_env := Some (next_env ?s4),
      next_env := Suc (next_env ?s4), ready := True\<rparr>"
  let ?s6 = "?s5\<lparr>dpcs := (dpcs ?s5)(0 := DSignalled), pc := (if pc ?s5 = JInWait then JWoken else pc ?s5)\<rparr>"
  let ?s7 = "?s6\<lparr>dpcs := (dpcs ?s6)(0 := DIdle), mtx := None\<rparr>"
  let ?s8 = "?s7\<lparr>pc := JCheck, mtx := Some TJs\<rparr>"
  let ?s9 = "?s8\<lparr>pc := JEval (slot ?s8) (slot_env ?s8)\<rparr>"
  note any = any_step_def sys_step_def hinit_def
  have "any_step (\<lambda>_. 7) ?s0 ?s1" using request_step.send [of ?s0 LoadModule] by (simp add: any)
  moreover have "any_step (\<lambda>_. 7) ?s1 ?s3" using owner_step.answer [of ?s1 0 "[]" 0 "\<lambda>_. 7"] by (simp add: any)
  moreover have "any_step (\<lambda>_. 7) ?s3 ?s4" using deliver_step.d_lock [of ?s3 0 7] by (simp add: any)
  moreover have "any_step (\<lambda>_. 7) ?s4 ?s5" using deliver_step.d_write [of ?s4 0 7] by (simp add: any)
  moreover have "any_step (\<lambda>_. 7) ?s5 ?s6" using deliver_step.d_signal [of ?s5 0] by (simp add: any)
  ultimately have to6: "reach (any_step (\<lambda>_. 7)) ?s0 ?s6" by (rule reach5)
  have a: "any_step (\<lambda>_. 7) ?s6 ?s7" using deliver_step.d_unlock [of ?s6 0] by (simp add: any)
  have b: "any_step (\<lambda>_. 7) ?s7 ?s8" using request_step.lock [of ?s7] by (simp add: any)
  have c: "any_step (\<lambda>_. 7) ?s8 ?s9" using loader_step.start_eval [of ?s8] by (simp add: any)
  have "reach (any_step (\<lambda>_. 7)) ?s0 ?s9" by (rule to6 [THEN reach_step, OF a, THEN reach_step, OF b, THEN reach_step, OF c])
  moreover have "?s9 = demo_eval" by (simp only: demo_eval_def hinit_def hstate.simps fun_upd_upd const_idle_upd One_nat_def)
  ultimately show ?thesis by simp
qed

lemma demo_nested_step: "nested_step demo_eval demo_nested"
  using nested_step.loader_nested [of demo_eval "Some 7" "Some 0" LoadModule]
  by (simp add: demo_eval_def demo_nested_def hinit_def numeral_2_eq_2)

theorem reply_slot_mutual_exclusion_witness:
  "d_crit (dpcs demo_wait 0) \<and> \<not> js_crit (pc demo_wait)"
proof -
  have "\<not> (js_crit (pc demo_wait) \<and> d_crit (dpcs demo_wait 0))"
    using reply_slot_mutual_exclusion [OF demo_any [OF demo_wait_reach], of 0 0] by simp
  then show ?thesis by (simp add: demo_wait_def)
qed

theorem no_lost_wakeup_witness:
  "pc demo_wait = JInWait \<and> ready demo_wait \<and> (\<exists>d. mtx demo_wait = Some (TDeliver d) \<and> dpcs demo_wait d = DWritten)"
proof -
  have h: "pc demo_wait = JInWait" "ready demo_wait" by (simp_all add: demo_wait_def)
  with no_lost_wakeup [OF demo_any [OF demo_wait_reach] h] show ?thesis by simp
qed


theorem requests_get_their_replies_witness:
  "results demo_done = [Some 7] \<and> length (results demo_done) \<le> sent demo_done"
  using requests_get_their_replies [OF demo_done_reach] by (simp add: demo_done_def)

theorem reply_envs_all_freed_witness: "set (freed demo_done) = {..<next_env demo_done} \<and> next_env demo_done = 1"
proof -
  have "pc demo_done = JIdle" by (simp add: demo_done_def)
  from reply_envs_all_freed [OF demo_done_reach this] show ?thesis by (simp add: demo_done_def)
qed


theorem nested_module_request_deadlocks_witness:
  "nested_step demo_eval demo_nested \<and> pc demo_nested = JWantLock \<and> mtx demo_nested = Some TJs"
  using nested_module_request_deadlocks [OF demo_eval_reach demo_nested_step reach_refl] demo_nested_step
  by simp

theorem pending_request_completes_witness:
  "pc (demo_sent False) = JWantLock
    \<and> (\<exists>t. reach (sys_step (\<lambda>_. 7)) (demo_sent False) t \<and> pc t = JIdle \<and> results t = [Some 7])"
proof -
  from pending_request_completes [OF demo_sent_reach [of False]] obtain t where
    "reach (sys_step (\<lambda>_. 7)) (demo_sent False) t" "pc t = JIdle"
    "results t = map (Some \<circ> (\<lambda>_. 7)) [0..<sent (demo_sent False)]" by blast
  then show ?thesis by (intro conjI exI [of _ t]) (simp_all add: demo_sent_def)
qed

end
