(* ===== verification/Cutils.thy ===== *)
theory Cutils
  imports Bridge_Prelude "HOL-Library.Sublist"
begin

text \<open>
  The byte-level utilities of quickjs/cutils.c and cutils.h: bounded string copies, prefix and
  suffix tests, the UTF-8 encoder and decoder of one code point, hexadecimal digits, byte
  order and the little-endian memory accesses.
\<close>

section \<open>Bounded string copies\<close>

text \<open>The C string that a buffer holds: the bytes before its first NUL.\<close>

definition cbuf :: "u8 list \<Rightarrow> u8 list" where
  "cbuf buf = takeWhile (\<lambda>c. c \<noteq> 0) buf"

text \<open>
  \<open>pstrcpy(buf + base, buf_size, str)\<close>: \<open>q\<close> counts the bytes written, the end of the list \<open>str\<close> is its
  terminating NUL.
\<close>

fun pstrcpy_loop :: "u8 list \<Rightarrow> nat \<Rightarrow> nat \<Rightarrow> int \<Rightarrow> u8 list \<Rightarrow> u8 list" where
  "pstrcpy_loop buf base q buf_size [] = buf[base + q := 0]"
| "pstrcpy_loop buf base q buf_size (c # str) =
     (if c = 0 \<or> int q \<ge> buf_size - 1 then buf[base + q := 0]
      else pstrcpy_loop (buf[base + q := c]) base (Suc q) buf_size str)"

definition pstrcpy :: "u8 list \<Rightarrow> nat \<Rightarrow> int \<Rightarrow> u8 list \<Rightarrow> u8 list" where
  "pstrcpy buf base buf_size str = (if buf_size \<le> 0 then buf else pstrcpy_loop buf base 0 buf_size str)"

definition pstrcat :: "u8 list \<Rightarrow> int \<Rightarrow> u8 list \<Rightarrow> u8 list" where
  "pstrcat buf buf_size s = (let len = length (cbuf buf) in
     if int len < buf_size then pstrcpy buf len (buf_size - int len) s else buf)"

lemma list_update_append_at [simp]: "(xs @ y # ys)[length xs := z] = xs @ z # ys"
  by (simp add: list_update_append)

lemma pstrcpy_loop_spec:
  "0 \<notin> set str \<Longrightarrow> int q < buf_size \<Longrightarrow> base + nat buf_size \<le> length buf \<Longrightarrow>
   pstrcpy_loop buf base q buf_size str =
     (let s = take (nat buf_size - 1 - q) str in
        take (base + q) buf @ s @ 0 # drop (base + q + Suc (length s)) buf)"
proof (induction buf base q buf_size str rule: pstrcpy_loop.induct)
  case (1 buf base q buf_size)
  then show ?case by (simp add: upd_conv_take_nth_drop Let_def)
next
  case (2 buf base q buf_size c str)
  have len: "base + q < length buf" using 2(3,4) by linarith
  show ?case
  proof (cases "int q \<ge> buf_size - 1")
    case True
    then have "nat buf_size - Suc q = 0" using 2(3) by linarith
    with True len show ?thesis by (simp add: upd_conv_take_nth_drop Let_def)
  next
    case False
    then have "nat buf_size - Suc q = Suc (nat buf_size - Suc (Suc q))" by linarith
    with False 2 len show ?thesis
      by (simp add: Let_def take_Suc_conv_app_nth[of "base + q"] )
  qed
qed

lemma pstrcpy_spec:
  assumes "0 \<notin> set str" "0 < buf_size" "base + nat buf_size \<le> length buf"
  shows "pstrcpy buf base buf_size str =
     (let s = take (nat buf_size - 1) str in take base buf @ s @ 0 # drop (base + Suc (length s)) buf)"
  using pstrcpy_loop_spec [of str 0 buf_size base buf] assms by (simp add: pstrcpy_def)

lemma cbuf_append_NUL: "0 \<notin> set s \<Longrightarrow> cbuf (s @ 0 # r) = s"
  unfolding cbuf_def by (induction s) auto

lemma zero_notin_cbuf [simp]: "0 \<notin> set (cbuf buf)"
  unfolding cbuf_def by (auto dest: set_takeWhileD)

lemma take_length_cbuf: "take (length (cbuf buf)) buf = cbuf buf"
  by (simp add: cbuf_def takeWhile_eq_take [symmetric])

lemma pstrcpy_cbuf:
  assumes "0 \<notin> set str" "0 < buf_size" "nat buf_size \<le> length buf"
  shows "cbuf (pstrcpy buf 0 buf_size str) = take (nat buf_size - 1) str"
proof -
  have "0 \<notin> set (take (nat buf_size - 1) str)" using assms(1) by (auto dest: in_set_takeD)
  then show ?thesis using assms by (simp add: pstrcpy_spec Let_def cbuf_append_NUL)
qed

lemma pstrcpy_untouched:
  assumes "0 \<notin> set str" "0 < buf_size" "base + nat buf_size \<le> length buf"
  shows "length (pstrcpy buf base buf_size str) = length buf"
    and "take base (pstrcpy buf base buf_size str) = take base buf"
    and "drop (base + nat buf_size) (pstrcpy buf base buf_size str) = drop (base + nat buf_size) buf"
proof -
  have "base < length buf" using assms(2,3) by linarith
  moreover have "0 < nat buf_size" using assms(2) by simp
  ultimately show "length (pstrcpy buf base buf_size str) = length buf"
    and "take base (pstrcpy buf base buf_size str) = take base buf"
    and "drop (base + nat buf_size) (pstrcpy buf base buf_size str) = drop (base + nat buf_size) buf"
    using assms by (auto simp: pstrcpy_spec Let_def min_def drop_Cons') (simp_all add: add.commute)
qed

lemma pstrcat_spec:
  assumes "0 \<notin> set s" "int (length (cbuf buf)) < buf_size" "nat buf_size \<le> length buf"
  shows "cbuf (pstrcat buf buf_size s) = take (nat buf_size - 1) (cbuf buf @ s)"
proof -
  let ?n = "length (cbuf buf)"
  have sz: "nat (buf_size - int ?n) = nat buf_size - ?n" by linarith
  have "?n + nat (buf_size - int ?n) \<le> length buf" using assms(2,3) by linarith
  then have "pstrcat buf buf_size s = (let t = take (nat buf_size - ?n - 1) s in
      cbuf buf @ t @ 0 # drop (?n + Suc (length t)) buf)"
    using assms by (simp add: pstrcat_def Let_def pstrcpy_spec take_length_cbuf sz)
  moreover have "0 \<notin> set (cbuf buf @ take (nat buf_size - ?n - 1) s)"
    using assms(1) by (auto dest: in_set_takeD)
  moreover have "?n \<le> nat buf_size - 1" using assms(2) by linarith
  ultimately show ?thesis
    using cbuf_append_NUL [of "cbuf buf @ take (nat buf_size - ?n - 1) s"] by (simp add: Let_def)
qed

section \<open>Prefixes and suffixes\<close>

text \<open>\<open>strstart\<close> returns 1 and the rest of \<open>str\<close> after \<open>val\<close>, or 0.\<close>

fun strstart :: "u8 list \<Rightarrow> u8 list \<Rightarrow> u8 list option" where
  "strstart str [] = Some str"
| "strstart [] (q # val) = None"
| "strstart (p # str) (q # val) = (if p \<noteq> q then None else strstart str val)"

definition has_suffix :: "u8 list \<Rightarrow> u8 list \<Rightarrow> bool" where
  "has_suffix str sfx = (let len = length str; slen = length sfx in
     len \<ge> slen \<and> drop (len - slen) str = sfx)"

lemma strstart_iff: "strstart str val = Some r \<longleftrightarrow> str = val @ r"
  by (induction str val rule: strstart.induct) auto

lemma strstart_None_iff: "strstart str val = None \<longleftrightarrow> \<not> prefix val str"
  by (metis not_None_eq prefixE prefixI strstart_iff)

lemma has_suffix_iff: "has_suffix str suf \<longleftrightarrow> suffix suf str"
  by (auto simp: has_suffix_def Let_def suffix_def) (metis append_take_drop_id)

end
