(* ===== verification/Utf8.thy ===== *)
theory Utf8
  imports Cutils
begin

text \<open>
  \<open>unicode_to_utf8\<close> and \<open>unicode_from_utf8\<close> of cutils.c on 32-bit code points and bytes, and the
  lemmas that the one undoes the other.
\<close>

section \<open>Encoder and decoder\<close>

text \<open>The byte \<open>((c >> k) & 0x3f) | 0x80\<close>.\<close>

definition utf8_cont :: "nat \<Rightarrow> u32 \<Rightarrow> u8" where
  "utf8_cont k c = ucast ((drop_bit k c AND 0x3f) OR 0x80)"

text \<open>The bytes \<open>unicode_to_utf8\<close> stores; it returns their number, 0 for a code of 32 bits.\<close>

definition unicode_to_utf8 :: "u32 \<Rightarrow> u8 list" where
  "unicode_to_utf8 c =
    (if c < 0x80 then [ucast c]
     else if c < 0x800 then [ucast (drop_bit 6 c OR 0xc0), utf8_cont 0 c]
     else if c < 0x10000 then [ucast (drop_bit 12 c OR 0xe0), utf8_cont 6 c, utf8_cont 0 c]
     else if c < 0x00200000 then
       [ucast (drop_bit 18 c OR 0xf0), utf8_cont 12 c, utf8_cont 6 c, utf8_cont 0 c]
     else if c < 0x04000000 then
       [ucast (drop_bit 24 c OR 0xf8), utf8_cont 18 c, utf8_cont 12 c, utf8_cont 6 c, utf8_cont 0 c]
     else if c < 0x80000000 then
       [ucast (drop_bit 30 c OR 0xfc), utf8_cont 24 c, utf8_cont 18 c, utf8_cont 12 c, utf8_cont 6 c,
        utf8_cont 0 c]
     else [])"

definition utf8_min_code :: "u32 list" where
  "utf8_min_code = [0x80, 0x800, 0x10000, 0x00200000, 0x04000000]"

definition utf8_first_code_mask :: "u32 list" where
  "utf8_first_code_mask = [0x1f, 0xf, 0x7, 0x3, 0x1]"

text \<open>The \<open>switch\<close> on the first byte: the number of continuation bytes.\<close>

definition utf8_extra :: "u8 \<Rightarrow> nat option" where
  "utf8_extra c =
    (if 0xc0 \<le> c \<and> c \<le> 0xdf then Some 1
     else if 0xe0 \<le> c \<and> c \<le> 0xef then Some 2
     else if 0xf0 \<le> c \<and> c \<le> 0xf7 then Some 3
     else if 0xf8 \<le> c \<and> c \<le> 0xfb then Some 4
     else if 0xfc \<le> c \<and> c \<le> 0xfd then Some 5
     else None)"

text \<open>The loop over the \<open>l\<close> continuation bytes; a read past the list is not reached.\<close>

fun utf8_tail :: "nat \<Rightarrow> u32 \<Rightarrow> u8 list \<Rightarrow> (u32 \<times> u8 list) option" where
  "utf8_tail 0 c p = Some (c, p)"
| "utf8_tail (Suc l) c [] = None"
| "utf8_tail (Suc l) c (b # p) =
     (if b < 0x80 \<or> b \<ge> 0xc0 then None
      else utf8_tail l (push_bit 6 c OR (ucast b AND 0x3f)) p)"

text \<open>
  \<open>unicode_from_utf8(p, max_len, &pp)\<close>: the code point and the bytes after it, \<open>None\<close> for -1.
\<close>

definition unicode_from_utf8 :: "u8 list \<Rightarrow> int \<Rightarrow> (u32 \<times> u8 list) option" where
  "unicode_from_utf8 p max_len = (case p of [] \<Rightarrow> None
     | c # p' \<Rightarrow>
        if c < 0x80 then Some (ucast c, p')
        else (case utf8_extra c of None \<Rightarrow> None
          | Some l \<Rightarrow>
             if int l > max_len - 1 then None
             else (case utf8_tail l (ucast c AND utf8_first_code_mask ! (l - 1)) p' of None \<Rightarrow> None
               | Some (code, r) \<Rightarrow> if code < utf8_min_code ! (l - 1) then None else Some (code, r))))"

section \<open>Decoding undoes encoding\<close>

lemma and_mask_6: "x AND 0x3f = take_bit 6 (x :: 'a :: len word)"
  by (simp add: take_bit_eq_mask mask_eq_exp_minus_1)

lemma and_masks:
  "x AND 0x1f = take_bit 5 (x :: 'a :: len word)" "x AND 0xf = take_bit 4 x"
  "x AND 0x7 = take_bit 3 x" "x AND 0x3 = take_bit 2 x" "x AND 0x1 = take_bit 1 x"
  by (simp_all add: take_bit_eq_mask mask_eq_exp_minus_1)

lemma unat_cont: "unat (utf8_cont k c) = 128 + unat c div 2 ^ k mod 64"
proof -
  let ?x = "take_bit 6 (drop_bit k c) :: u32"
  have x: "unat ?x = unat c div 2 ^ k mod 64"
    by (simp add: unsigned_take_bit_eq unat_drop_bit) (simp add: take_bit_eq_mod)
  have "unat (?x OR 0x80) = unat ?x + 128"
    by (subst unat_or_tag [where n = 6 and m = 2]) (simp_all add: x)
  then have "unat (?x OR 0x80) = 128 + unat c div 2 ^ k mod 64" by (simp add: x)
  then show ?thesis
    unfolding utf8_cont_def and_mask_6 by (simp add: unsigned_ucast_eq take_bit_nat_eq_self)
qed

lemma cont_range: "\<not> utf8_cont k c < 0x80" "\<not> 0xc0 \<le> utf8_cont k c"
  by (simp_all add: word_less_nat_alt word_le_nat_alt unat_cont not_le)

lemma cont_payload: "ucast (utf8_cont k c) AND 0x3f = take_bit 6 (drop_bit k c)"
proof -
  have p: "(0x80 :: u32) = 2 ^ 7" by simp
  have b: "i < 6 \<Longrightarrow> \<not> bit (0x80 :: u32) i" for i
    unfolding p bit_exp_iff by simp
  show ?thesis
    unfolding utf8_cont_def and_mask_6
    by (rule bit_word_eqI) (auto simp: bit_take_bit_iff bit_unsigned_iff bit_or_iff dest: b)
qed

lemma shift_in: "push_bit 6 (drop_bit (k + 6) c) OR take_bit 6 (drop_bit k c) = drop_bit k (c :: u32)"
  by (rule bit_word_eqI) (auto simp: bit_simps add.commute add.left_commute)

lemma utf8_tail_cont:
  "utf8_tail (Suc l) (drop_bit (k + 6) c) (utf8_cont k c # p) = utf8_tail l (drop_bit k c) p"
  by (simp add: cont_range cont_payload shift_in)

lemma lead_payload:
  assumes "n \<le> 8" "take_bit (k + n) c = c"
  shows "take_bit n (ucast (ucast (drop_bit k c OR push_bit n t) :: u8)) = drop_bit k (c :: u32)"
proof -
  have "bit c (k + i) \<Longrightarrow> i < n" for i
    using assms(2) by (metis add_less_cancel_left bit_take_bit_iff)
  then show ?thesis using assms(1) by (intro bit_word_eqI) (fastforce simp: bit_simps)
qed

lemma unat_lead:
  assumes "unat c div 2 ^ k < 2 ^ n" "unat tag = m * 2 ^ n" "unat c div 2 ^ k + unat tag < 256"
  shows "unat (ucast (drop_bit k c OR tag :: u32) :: u8) = unat c div 2 ^ k + unat tag"
proof -
  have "unat (drop_bit k c OR tag) = unat c div 2 ^ k + unat tag"
    using assms by (subst unat_or_tag [of _ n]) (simp_all add: unat_drop_bit)
  then show ?thesis using assms(3) by (simp add: unsigned_ucast_eq take_bit_eq_mod)
qed


lemma utf8_lead_decode:
  assumes lead: "b = ucast (drop_bit k c OR push_bit n t)" and fits: "take_bit (k + n) c = c" "n \<le> 8"
    and extra: "utf8_extra b = Some l" "\<not> b < 0x80" "int l \<le> max_len - 1"
    and mask: "\<And>x. x AND utf8_first_code_mask ! (l - 1) = take_bit n x"
  shows "unicode_from_utf8 (b # p) max_len =
    (case utf8_tail l (drop_bit k c) p of None \<Rightarrow> None
       | Some (code, r) \<Rightarrow> if code < utf8_min_code ! (l - 1) then None else Some (code, r))"
  using lead_payload [of n k c t] assms by (simp add: unicode_from_utf8_def)

lemma take_bit_lt: "unat c < 2 ^ n \<Longrightarrow> take_bit n c = (c :: 'a :: len word)"
  by (rule word_unat_eq_iff [THEN iffD2]) (simp add: unsigned_take_bit_eq take_bit_nat_eq_self)

lemma utf8_tail_1: "utf8_tail 1 (drop_bit 6 c) (utf8_cont 0 c # r) = Some (c, r)"
  using utf8_tail_cont [of 0 0 c r] by (simp only: One_nat_def utf8_tail.simps(1)) simp

lemma utf8_tail_2: "utf8_tail 2 (drop_bit 12 c) (utf8_cont 6 c # utf8_cont 0 c # r) = Some (c, r)"
  using utf8_tail_cont [of 1 6 c "utf8_cont 0 c # r"] utf8_tail_1 [of c r]
  by (simp only: Suc_1 arith_simps)

lemma utf8_tail_3: "utf8_tail 3 (drop_bit 18 c) (utf8_cont 12 c # utf8_cont 6 c # utf8_cont 0 c # r) = Some (c, r)"
  using utf8_tail_cont [of 2 12 c "utf8_cont 6 c # utf8_cont 0 c # r"] utf8_tail_2 [of c r]
  by (simp only: Suc_numeral arith_simps)

lemma utf8_tail_4: "utf8_tail 4 (drop_bit 24 c) (utf8_cont 18 c # utf8_cont 12 c # utf8_cont 6 c # utf8_cont 0 c # r) = Some (c, r)"
  using utf8_tail_cont [of 3 18 c "utf8_cont 12 c # utf8_cont 6 c # utf8_cont 0 c # r"] utf8_tail_3 [of c r]
  by (simp only: Suc_numeral arith_simps)

lemma utf8_tail_5: "utf8_tail 5 (drop_bit 30 c) (utf8_cont 24 c # utf8_cont 18 c # utf8_cont 12 c # utf8_cont 6 c # utf8_cont 0 c # r) = Some (c, r)"
  using utf8_tail_cont [of 4 24 c "utf8_cont 18 c # utf8_cont 12 c # utf8_cont 6 c # utf8_cont 0 c # r"] utf8_tail_4 [of c r]
  by (simp only: Suc_numeral arith_simps)

lemmas utf8_tails = utf8_tail_1 utf8_tail_2 utf8_tail_3 utf8_tail_4 utf8_tail_5

lemma utf8_decode_2:
  assumes "\<not> c < 0x80" "c < 0x800" "int 2 \<le> max_len"
  shows "unicode_from_utf8 ([ucast (drop_bit 6 c OR 0xc0), utf8_cont 0 c] @ r) max_len = Some (c, r)"
proof -
  let ?b = "ucast (drop_bit 6 c OR 0xc0) :: u8"
  have lt: "unat c < 2 ^ (6 + 5)" using assms(2) by (simp add: word_less_nat_alt)
  then have "unat c < 2 ^ 5 * 2 ^ 6" by (simp only: power_add mult.commute)
  then have d: "unat c div 2 ^ 6 < 2 ^ 5" by (rule less_mult_imp_div_less)
  then have b2: "unat c div 2 ^ 6 < 32" by simp
  have b1: "unat ?b = unat c div 2 ^ 6 + 0xc0" by (subst unat_lead [where n = 5 and m = 6]) (use d in simp_all)
  have "utf8_extra ?b = Some 1" "\<not> ?b < 0x80"
    using b2 by (simp_all add: utf8_extra_def word_le_nat_alt word_less_nat_alt b1 not_le not_less)
  moreover have "int 1 \<le> max_len - 1" using assms(3) by simp
  ultimately have "unicode_from_utf8 (?b # [utf8_cont 0 c] @ r) max_len =
    (case utf8_tail 1 (drop_bit 6 c) ([utf8_cont 0 c] @ r) of None \<Rightarrow> None
       | Some (code, r) \<Rightarrow> if code < utf8_min_code ! (1 - 1) then None else Some (code, r))"
    using lt by (intro utf8_lead_decode [where n = 5 and t = 6])
      (simp_all add: take_bit_lt utf8_first_code_mask_def and_masks push_bit_eq_mult)
  then show ?thesis using assms(1)
    by (simp only: append_Cons append_Nil utf8_tails option.case prod.case) (simp add: utf8_min_code_def)
qed

lemma utf8_decode_3:
  assumes "\<not> c < 0x800" "c < 0x10000" "int 3 \<le> max_len"
  shows "unicode_from_utf8 ([ucast (drop_bit 12 c OR 0xe0), utf8_cont 6 c, utf8_cont 0 c] @ r) max_len = Some (c, r)"
proof -
  let ?b = "ucast (drop_bit 12 c OR 0xe0) :: u8"
  have lt: "unat c < 2 ^ (12 + 4)" using assms(2) by (simp add: word_less_nat_alt)
  then have "unat c < 2 ^ 4 * 2 ^ 12" by (simp only: power_add mult.commute)
  then have d: "unat c div 2 ^ 12 < 2 ^ 4" by (rule less_mult_imp_div_less)
  then have b2: "unat c div 2 ^ 12 < 16" by simp
  have b1: "unat ?b = unat c div 2 ^ 12 + 0xe0" by (subst unat_lead [where n = 4 and m = 14]) (use d in simp_all)
  have "utf8_extra ?b = Some 2" "\<not> ?b < 0x80"
    using b2 by (simp_all add: utf8_extra_def word_le_nat_alt word_less_nat_alt b1 not_le not_less)
  moreover have "int 2 \<le> max_len - 1" using assms(3) by simp
  ultimately have "unicode_from_utf8 (?b # [utf8_cont 6 c, utf8_cont 0 c] @ r) max_len =
    (case utf8_tail 2 (drop_bit 12 c) ([utf8_cont 6 c, utf8_cont 0 c] @ r) of None \<Rightarrow> None
       | Some (code, r) \<Rightarrow> if code < utf8_min_code ! (2 - 1) then None else Some (code, r))"
    using lt by (intro utf8_lead_decode [where n = 4 and t = 14])
      (simp_all add: take_bit_lt utf8_first_code_mask_def and_masks push_bit_eq_mult)
  then show ?thesis using assms(1)
    by (simp only: append_Cons append_Nil utf8_tails option.case prod.case) (simp add: utf8_min_code_def)
qed

lemma utf8_decode_4:
  assumes "\<not> c < 0x10000" "c < 0x00200000" "int 4 \<le> max_len"
  shows "unicode_from_utf8 ([ucast (drop_bit 18 c OR 0xf0), utf8_cont 12 c, utf8_cont 6 c, utf8_cont 0 c] @ r) max_len = Some (c, r)"
proof -
  let ?b = "ucast (drop_bit 18 c OR 0xf0) :: u8"
  have lt: "unat c < 2 ^ (18 + 3)" using assms(2) by (simp add: word_less_nat_alt)
  then have "unat c < 2 ^ 3 * 2 ^ 18" by (simp only: power_add mult.commute)
  then have d: "unat c div 2 ^ 18 < 2 ^ 3" by (rule less_mult_imp_div_less)
  then have b2: "unat c div 2 ^ 18 < 8" by simp
  have b1: "unat ?b = unat c div 2 ^ 18 + 0xf0" by (subst unat_lead [where n = 3 and m = 30]) (use d in simp_all)
  have "utf8_extra ?b = Some 3" "\<not> ?b < 0x80"
    using b2 by (simp_all add: utf8_extra_def word_le_nat_alt word_less_nat_alt b1 not_le not_less)
  moreover have "int 3 \<le> max_len - 1" using assms(3) by simp
  ultimately have "unicode_from_utf8 (?b # [utf8_cont 12 c, utf8_cont 6 c, utf8_cont 0 c] @ r) max_len =
    (case utf8_tail 3 (drop_bit 18 c) ([utf8_cont 12 c, utf8_cont 6 c, utf8_cont 0 c] @ r) of None \<Rightarrow> None
       | Some (code, r) \<Rightarrow> if code < utf8_min_code ! (3 - 1) then None else Some (code, r))"
    using lt by (intro utf8_lead_decode [where n = 3 and t = 30])
      (simp_all add: take_bit_lt utf8_first_code_mask_def and_masks push_bit_eq_mult)
  then show ?thesis using assms(1)
    by (simp only: append_Cons append_Nil utf8_tails option.case prod.case) (simp add: utf8_min_code_def)
qed

lemma utf8_decode_5:
  assumes "\<not> c < 0x00200000" "c < 0x04000000" "int 5 \<le> max_len"
  shows "unicode_from_utf8 ([ucast (drop_bit 24 c OR 0xf8), utf8_cont 18 c, utf8_cont 12 c, utf8_cont 6 c, utf8_cont 0 c] @ r) max_len = Some (c, r)"
proof -
  let ?b = "ucast (drop_bit 24 c OR 0xf8) :: u8"
  have lt: "unat c < 2 ^ (24 + 2)" using assms(2) by (simp add: word_less_nat_alt)
  then have "unat c < 2 ^ 2 * 2 ^ 24" by (simp only: power_add mult.commute)
  then have d: "unat c div 2 ^ 24 < 2 ^ 2" by (rule less_mult_imp_div_less)
  then have b2: "unat c div 2 ^ 24 < 4" by simp
  have b1: "unat ?b = unat c div 2 ^ 24 + 0xf8" by (subst unat_lead [where n = 2 and m = 62]) (use d in simp_all)
  have "utf8_extra ?b = Some 4" "\<not> ?b < 0x80"
    using b2 by (simp_all add: utf8_extra_def word_le_nat_alt word_less_nat_alt b1 not_le not_less)
  moreover have "int 4 \<le> max_len - 1" using assms(3) by simp
  ultimately have "unicode_from_utf8 (?b # [utf8_cont 18 c, utf8_cont 12 c, utf8_cont 6 c, utf8_cont 0 c] @ r) max_len =
    (case utf8_tail 4 (drop_bit 24 c) ([utf8_cont 18 c, utf8_cont 12 c, utf8_cont 6 c, utf8_cont 0 c] @ r) of None \<Rightarrow> None
       | Some (code, r) \<Rightarrow> if code < utf8_min_code ! (4 - 1) then None else Some (code, r))"
    using lt by (intro utf8_lead_decode [where n = 2 and t = 62])
      (simp_all add: take_bit_lt utf8_first_code_mask_def and_masks push_bit_eq_mult)
  then show ?thesis using assms(1)
    by (simp only: append_Cons append_Nil utf8_tails option.case prod.case) (simp add: utf8_min_code_def)
qed

lemma utf8_decode_6:
  assumes "\<not> c < 0x04000000" "c < 0x80000000" "int 6 \<le> max_len"
  shows "unicode_from_utf8 ([ucast (drop_bit 30 c OR 0xfc), utf8_cont 24 c, utf8_cont 18 c, utf8_cont 12 c, utf8_cont 6 c, utf8_cont 0 c] @ r) max_len = Some (c, r)"
proof -
  let ?b = "ucast (drop_bit 30 c OR 0xfc) :: u8"
  have lt: "unat c < 2 ^ (30 + 1)" using assms(2) by (simp add: word_less_nat_alt)
  then have "unat c < 2 ^ 1 * 2 ^ 30" by (simp only: power_add mult.commute)
  then have d: "unat c div 2 ^ 30 < 2 ^ 1" by (rule less_mult_imp_div_less)
  then have b2: "unat c div 2 ^ 30 < 2" by simp
  have b1: "unat ?b = unat c div 2 ^ 30 + 0xfc" by (subst unat_lead [where n = 1 and m = 126]) (use d in simp_all)
  have "utf8_extra ?b = Some 5" "\<not> ?b < 0x80"
    using b2 by (simp_all add: utf8_extra_def word_le_nat_alt word_less_nat_alt b1 not_le not_less)
  moreover have "int 5 \<le> max_len - 1" using assms(3) by simp
  ultimately have "unicode_from_utf8 (?b # [utf8_cont 24 c, utf8_cont 18 c, utf8_cont 12 c, utf8_cont 6 c, utf8_cont 0 c] @ r) max_len =
    (case utf8_tail 5 (drop_bit 30 c) ([utf8_cont 24 c, utf8_cont 18 c, utf8_cont 12 c, utf8_cont 6 c, utf8_cont 0 c] @ r) of None \<Rightarrow> None
       | Some (code, r) \<Rightarrow> if code < utf8_min_code ! (5 - 1) then None else Some (code, r))"
    using lt by (intro utf8_lead_decode [where n = 1 and t = 126])
      (simp_all add: take_bit_lt utf8_first_code_mask_def and_masks push_bit_eq_mult)
  then show ?thesis using assms(1)
    by (simp only: append_Cons append_Nil utf8_tails option.case prod.case) (simp add: utf8_min_code_def)
qed

lemma unicode_to_utf8_Nil_iff: "unicode_to_utf8 c = [] \<longleftrightarrow> \<not> c < 0x80000000"
  by (auto simp: unicode_to_utf8_def word_less_nat_alt)

lemma length_unicode_to_utf8: "length (unicode_to_utf8 c) \<le> 6"
  by (simp add: unicode_to_utf8_def)

lemma utf8_decode_1: "c < 0x80 \<Longrightarrow> unicode_from_utf8 (ucast c # r) max_len = Some (c, r)"
proof -
  assume "c < 0x80"
  then have lt: "unat c < 128" by (simp add: word_less_nat_alt)
  then have "unat (ucast c :: u8) = unat c" by (simp add: unat_ucast_small)
  then have u: "(ucast c :: u8) < 0x80" "ucast (ucast c :: u8) = c"
    using lt by (simp_all add: word_less_nat_alt word_unat_eq_iff unat_ucast_up)
  then show ?thesis by (simp add: unicode_from_utf8_def)
qed

lemma utf8_decode_encode:
  assumes "c < 0x80000000" "int (length (unicode_to_utf8 c)) \<le> max_len"
  shows "unicode_from_utf8 (unicode_to_utf8 c @ r) max_len = Some (c, r)"
proof -
  note d = utf8_decode_2 utf8_decode_3 utf8_decode_4 utf8_decode_5 utf8_decode_6
  consider "c < 0x80" | "\<not> c < 0x80" "c < 0x800" | "\<not> c < 0x80" "\<not> c < 0x800" "c < 0x10000"
    | "\<not> c < 0x80" "\<not> c < 0x800" "\<not> c < 0x10000" "c < 0x00200000"
    | "\<not> c < 0x80" "\<not> c < 0x800" "\<not> c < 0x10000" "\<not> c < 0x00200000" "c < 0x04000000"
    | "\<not> c < 0x80" "\<not> c < 0x800" "\<not> c < 0x10000" "\<not> c < 0x00200000" "\<not> c < 0x04000000"
    by blast
  then show ?thesis
  proof cases
    case 1
    then show ?thesis by (simp add: unicode_to_utf8_def utf8_decode_1)
  next
    case 2
    with assms(2) d(1) [of c max_len r] show ?thesis by (simp add: unicode_to_utf8_def)
  next
    case 3
    with assms(2) d(2) [of c max_len r] show ?thesis by (simp add: unicode_to_utf8_def)
  next
    case 4
    with assms(2) d(3) [of c max_len r] show ?thesis by (simp add: unicode_to_utf8_def)
  next
    case 5
    with assms(2) d(4) [of c max_len r] show ?thesis by (simp add: unicode_to_utf8_def)
  next
    case 6
    with assms d(5) [of c max_len r] show ?thesis by (simp add: unicode_to_utf8_def)
  qed
qed

lemma unicode_to_utf8_hd:
  assumes "\<not> c < 0x80" "c < 0x80000000"
  shows "\<exists>b bs. unicode_to_utf8 c = b # bs \<and> \<not> b < 0x80"
proof -
  have "unicode_to_utf8 c \<noteq> []" using assms(2) by (simp add: unicode_to_utf8_Nil_iff)
  then obtain b bs where e: "unicode_to_utf8 c = b # bs" by (cases "unicode_to_utf8 c") auto
  have "\<not> b < 0x80"
  proof
    assume b: "b < 0x80"
    have "unicode_from_utf8 (b # bs @ []) 6 = Some (c, [])"
      using utf8_decode_encode [OF assms(2), of 6 "[]"] length_unicode_to_utf8 [of c] by (simp add: e)
    then have "c = ucast b" using b by (simp add: unicode_from_utf8_def)
    then have "unat c = unat b" by (simp add: unat_ucast_up)
    then show False using b assms(1) by (simp add: word_less_nat_alt)
  qed
  with e show ?thesis by blast
qed

end
