(* ===== verification/JSStrings.thy ===== *)
theory JSStrings
  imports Utf8
begin

text \<open>
  JavaScript strings of quickjs.c: the 8-bit and 16-bit representations, the growing
  \<open>StringBuffer\<close>, the conversions from and to UTF-8 (\<open>JS_NewStringLen\<close>, \<open>JS_ToCStringLen2\<close>) that
  every binary and atom crossing the bridge goes through, and string comparison. The memory
  allocator is a parameter: a call returns the extra usable bytes, or fails.
\<close>

section \<open>Representations\<close>

text \<open>A \<open>JSString\<close>: \<open>is_wide_char\<close> selects the union member, \<open>len\<close> is the length of the list.\<close>

datatype js_string = Str8 "u8 list" | Str16 "u16 list"

fun units :: "js_string \<Rightarrow> u16 list" where
  "units (Str8 xs) = map ucast xs"
| "units (Str16 xs) = xs"

definition JS_STRING_LEN_MAX :: int where
  "JS_STRING_LEN_MAX = 2 ^ 30 - 1"

definition sizeof_JSString :: int where
  "sizeof_JSString = 16"

text \<open>
  The allocator threads its own state; it is asked for a number of bytes (a \<open>size_t\<close>) and
  returns the slack above them, or \<open>None\<close>. A C \<open>int\<close> made of a \<open>size_t\<close> keeps the low 32 bits.
\<close>

type_synonym 'm alloc = "'m \<Rightarrow> int \<Rightarrow> 'm \<times> int option"

definition size_t :: "int \<Rightarrow> int" where
  "size_t x = x mod 2 ^ 64"

definition c_int :: "nat \<Rightarrow> int" where
  "c_int n = sint (of_nat n :: s32)"

text \<open>\<open>js_alloc_string_rt\<close>: whether the header and the characters could be allocated.\<close>

definition js_alloc_string :: "'m alloc \<Rightarrow> 'm \<Rightarrow> int \<Rightarrow> bool \<Rightarrow> 'm \<times> bool" where
  "js_alloc_string A m max_len wide =
     (case A m (size_t (sizeof_JSString + (if wide then max_len * 2 else max_len) + (if wide then 0 else 1)))
        of (m', r) \<Rightarrow> (m', r \<noteq> None))"

section \<open>String buffers\<close>

text \<open>
  \<open>sb_units\<close> are the characters written so far (its length is \<open>len\<close>), \<open>sb_cap\<close> is the field
  \<open>size\<close>, the number of characters the allocation holds.
\<close>

record 'm strbuf =
  sb_mem :: 'm
  sb_units :: "u16 list"
  sb_cap :: int
  sb_wide :: bool
  sb_error :: bool

definition sb_len :: "'m strbuf \<Rightarrow> int" where
  "sb_len s = int (length (sb_units s))"

definition string_buffer_init2 :: "'m alloc \<Rightarrow> 'm \<Rightarrow> int \<Rightarrow> bool \<Rightarrow> 'm strbuf \<times> bool" where
  "string_buffer_init2 A m cap wide = (case js_alloc_string A m cap wide of
     (m', True) \<Rightarrow> (\<lparr>sb_mem = m', sb_units = [], sb_cap = cap, sb_wide = wide, sb_error = False\<rparr>, True)
   | (m', False) \<Rightarrow> (\<lparr>sb_mem = m', sb_units = [], sb_cap = 0, sb_wide = wide, sb_error = True\<rparr>, False))"

definition string_buffer_init :: "'m alloc \<Rightarrow> 'm \<Rightarrow> int \<Rightarrow> 'm strbuf \<times> bool" where
  "string_buffer_init A m cap = string_buffer_init2 A m cap False"

definition string_buffer_set_error :: "'m strbuf \<Rightarrow> 'm strbuf \<times> bool" where
  "string_buffer_set_error s = (s\<lparr>sb_units := [], sb_cap := 0, sb_error := True\<rparr>, False)"

definition string_buffer_widen :: "'m alloc \<Rightarrow> 'm strbuf \<Rightarrow> int \<Rightarrow> 'm strbuf \<times> bool" where
  "string_buffer_widen A s cap =
    (if sb_error s then (s, False)
     else case A (sb_mem s) (size_t (sizeof_JSString + cap * 2)) of
       (m, None) \<Rightarrow> string_buffer_set_error (s\<lparr>sb_mem := m\<rparr>)
     | (m, Some slack) \<Rightarrow> (s\<lparr>sb_mem := m, sb_cap := cap + slack div 2, sb_wide := True\<rparr>, True))"

text \<open>\<open>s->size * 3 / 2\<close> on a C \<open>int\<close>: the product wraps, the division truncates toward zero.\<close>

definition c_grow :: "int \<Rightarrow> int" where
  "c_grow n = (let x = sint (word_of_int (n * 3) :: s32) in if x < 0 then - ((- x) div 2) else x div 2)"

definition string_buffer_realloc :: "'m alloc \<Rightarrow> 'm strbuf \<Rightarrow> int \<Rightarrow> u32 \<Rightarrow> 'm strbuf \<times> bool" where
  "string_buffer_realloc A s new_len c =
    (if sb_error s then (s, False)
     else if new_len > JS_STRING_LEN_MAX then string_buffer_set_error s
     else let new_size = min (max new_len (c_grow (sb_cap s))) JS_STRING_LEN_MAX in
       if \<not> sb_wide s \<and> c \<ge> 0x100 then string_buffer_widen A s new_size
       else case A (sb_mem s) (size_t (sizeof_JSString
              + (if sb_wide s then new_size * 2 else new_size) + 1 - (if sb_wide s then 1 else 0))) of
         (m, None) \<Rightarrow> string_buffer_set_error (s\<lparr>sb_mem := m\<rparr>)
       | (m, Some slack) \<Rightarrow>
           (s\<lparr>sb_mem := m, sb_cap := min (new_size + (if sb_wide s then slack div 2 else slack))
                JS_STRING_LEN_MAX\<rparr>, True))"

text \<open>Storing one character: \<open>str16\<close> keeps 16 bits of it, \<open>str8\<close> keeps 8.\<close>

definition sb_store :: "'m strbuf \<Rightarrow> u32 \<Rightarrow> 'm strbuf" where
  "sb_store s c = s\<lparr>sb_units := sb_units s @ [if sb_wide s then ucast c else ucast (ucast c :: u8)]\<rparr>"

definition string_buffer_putc_slow :: "'m alloc \<Rightarrow> 'm strbuf \<Rightarrow> u32 \<Rightarrow> 'm strbuf \<times> bool" where
  "string_buffer_putc_slow A s c =
    (case (if sb_len s \<ge> sb_cap s then string_buffer_realloc A s (sb_len s + 1) c else (s, True)) of
       (s1, False) \<Rightarrow> (s1, False)
     | (s1, True) \<Rightarrow>
         if sb_wide s1 then (sb_store s1 c, True)
         else if c < 0x100 then (sb_store s1 c, True)
         else (case string_buffer_widen A s1 (sb_cap s1) of
             (s2, False) \<Rightarrow> (s2, False)
           | (s2, True) \<Rightarrow> (sb_store s2 c, True)))"

definition string_buffer_putc8 :: "'m alloc \<Rightarrow> 'm strbuf \<Rightarrow> u32 \<Rightarrow> 'm strbuf \<times> bool" where
  "string_buffer_putc8 A s c =
    (case (if sb_len s \<ge> sb_cap s then string_buffer_realloc A s (sb_len s + 1) c else (s, True)) of
       (s1, False) \<Rightarrow> (s1, False)
     | (s1, True) \<Rightarrow> (sb_store s1 c, True))"

definition string_buffer_putc16 :: "'m alloc \<Rightarrow> 'm strbuf \<Rightarrow> u32 \<Rightarrow> 'm strbuf \<times> bool" where
  "string_buffer_putc16 A s c =
    (if sb_len s < sb_cap s \<and> (sb_wide s \<or> c < 0x100) then (sb_store s c, True)
     else string_buffer_putc_slow A s c)"

definition string_buffer_putc :: "'m alloc \<Rightarrow> 'm strbuf \<Rightarrow> u32 \<Rightarrow> 'm strbuf \<times> bool" where
  "string_buffer_putc A s c =
    (if c \<ge> 0x10000 then
       let d = c - 0x10000 in
       case string_buffer_putc16 A s (drop_bit 10 d + 0xd800) of
         (s1, False) \<Rightarrow> (s1, False)
       | (s1, True) \<Rightarrow> string_buffer_putc16 A s1 ((d AND 0x3ff) + 0xdc00)
     else string_buffer_putc16 A s c)"

definition string_buffer_write8 :: "'m alloc \<Rightarrow> 'm strbuf \<Rightarrow> u8 list \<Rightarrow> 'm strbuf \<times> bool" where
  "string_buffer_write8 A s p =
    (case (if sb_len s + int (length p) > sb_cap s
           then string_buffer_realloc A s (sb_len s + int (length p)) 0 else (s, True)) of
       (s1, False) \<Rightarrow> (s1, False)
     | (s1, True) \<Rightarrow> (s1\<lparr>sb_units := sb_units s1 @ map ucast p\<rparr>, True))"

definition string_buffer_write16 :: "'m alloc \<Rightarrow> 'm strbuf \<Rightarrow> u16 list \<Rightarrow> 'm strbuf \<times> bool" where
  "string_buffer_write16 A s p =
    (let c = fold (OR) p 0 :: u16;
         r = (if sb_len s + int (length p) > sb_cap s
                then string_buffer_realloc A s (sb_len s + int (length p)) (ucast c)
              else if \<not> sb_wide s \<and> c \<ge> 0x100 then string_buffer_widen A s (sb_cap s)
              else (s, True)) in
     case r of (s1, False) \<Rightarrow> (s1, False)
     | (s1, True) \<Rightarrow>
         (s1\<lparr>sb_units := sb_units s1 @ (if sb_wide s1 then p else map (\<lambda>x. ucast (ucast x :: u8)) p)\<rparr>, True))"

definition string_buffer_concat :: "'m alloc \<Rightarrow> 'm strbuf \<Rightarrow> js_string \<Rightarrow> nat \<Rightarrow> nat \<Rightarrow> 'm strbuf \<times> bool" where
  "string_buffer_concat A s p from to =
    (if to \<le> from then (s, True)
     else case p of
       Str16 xs \<Rightarrow> string_buffer_write16 A s (take (to - from) (drop from xs))
     | Str8 xs \<Rightarrow> string_buffer_write8 A s (take (to - from) (drop from xs)))"

fun sb_fill_loop :: "'m alloc \<Rightarrow> 'm strbuf \<Rightarrow> u32 \<Rightarrow> nat \<Rightarrow> 'm strbuf \<times> bool" where
  "sb_fill_loop A s c 0 = (s, True)"
| "sb_fill_loop A s c (Suc n) = (case string_buffer_putc16 A s c of
     (s1, False) \<Rightarrow> (s1, False) | (s1, True) \<Rightarrow> sb_fill_loop A s1 c n)"

definition string_buffer_fill :: "'m alloc \<Rightarrow> 'm strbuf \<Rightarrow> u32 \<Rightarrow> nat \<Rightarrow> 'm strbuf \<times> bool" where
  "string_buffer_fill A s c count =
    (case (if sb_len s + int count > sb_cap s then string_buffer_realloc A s (sb_len s + int count) c
           else (s, True)) of
       (s1, False) \<Rightarrow> (s1, False)
     | (s1, True) \<Rightarrow> sb_fill_loop A s1 c count)"

text \<open>\<open>string_buffer_end\<close>: \<open>None\<close> is \<open>JS_EXCEPTION\<close>; shrinking the allocation may fail harmlessly.\<close>

definition string_buffer_end :: "'m alloc \<Rightarrow> 'm strbuf \<Rightarrow> 'm \<times> js_string option" where
  "string_buffer_end A s =
    (if sb_error s then (sb_mem s, None)
     else if sb_len s = 0 then (sb_mem s, Some (Str8 []))
     else ((if sb_len s < sb_cap s
            then fst (A (sb_mem s) (size_t (sizeof_JSString
                   + (if sb_wide s then sb_len s * 2 else sb_len s) + 1 - (if sb_wide s then 1 else 0))))
            else sb_mem s),
       Some (if sb_wide s then Str16 (sb_units s) else Str8 (map ucast (sb_units s)))))"

section \<open>Appending\<close>

text \<open>
  What holds of a buffer between operations: an error empties it, an 8-bit buffer holds
  characters below 256, and the characters fit the allocation.
\<close>

definition sb_inv :: "'m strbuf \<Rightarrow> bool" where
  "sb_inv s \<longleftrightarrow> (sb_error s \<longrightarrow> sb_units s = [] \<and> sb_cap s = 0)
     \<and> (sb_wide s \<or> (\<forall>u \<in> set (sb_units s). u < 0x100)) \<and> sb_len s \<le> sb_cap s"

text \<open>
  The contract of an appending operation: it keeps the invariant; when it returns 0 it has
  appended exactly \<open>xs\<close>, when it returns -1 the buffer is in the error state.
\<close>

definition appends :: "('m strbuf \<Rightarrow> 'm strbuf \<times> bool) \<Rightarrow> u16 list \<Rightarrow> bool" where
  "appends f xs \<longleftrightarrow> (\<forall>s. sb_inv s \<longrightarrow> (case f s of (s', ok) \<Rightarrow> sb_inv s' \<and>
     (if ok then sb_error s' = sb_error s \<and> sb_units s' = sb_units s @ xs else sb_error s')))"

text \<open>What an operation that only makes room promises.\<close>

definition makes_room :: "'m strbuf \<Rightarrow> 'm strbuf \<times> bool \<Rightarrow> int \<Rightarrow> u32 \<Rightarrow> bool" where
  "makes_room s r n c \<longleftrightarrow> (case r of (s', ok) \<Rightarrow> sb_inv s' \<and>
     (if ok then sb_error s' = sb_error s \<and> sb_units s' = sb_units s \<and> n \<le> sb_cap s'
        \<and> (sb_wide s \<longrightarrow> sb_wide s') \<and> (\<not> sb_wide s' \<longrightarrow> \<not> sb_wide s)
      else sb_error s'))"

lemma sb_len_nonneg [simp]: "0 \<le> sb_len s"
  by (simp add: sb_len_def)

lemma appendsD:
  "appends f xs \<Longrightarrow> sb_inv s \<Longrightarrow> f s = (s', ok) \<Longrightarrow>
    sb_inv s' \<and> (if ok then sb_error s' = sb_error s \<and> sb_units s' = sb_units s @ xs else sb_error s')"
  by (auto simp: appends_def)

lemma appendsI:
  "(\<And>s. sb_inv s \<Longrightarrow> case f s of (s', ok) \<Rightarrow> sb_inv s' \<and>
     (if ok then sb_error s' = sb_error s \<and> sb_units s' = sb_units s @ xs else sb_error s')) \<Longrightarrow> appends f xs"
  by (simp add: appends_def)

lemma u32_small_u8: "c < 0x100 \<Longrightarrow> (ucast (ucast (c :: u32) :: u8) :: u16) = ucast c"
  by (simp add: word_unat_eq_iff word_less_nat_alt unat_ucast_up unat_ucast_small)

lemma ucast_u8_less: "(ucast (x :: u8) :: u16) < 0x100"
proof -
  have "unat x < 2 ^ LENGTH(8)" by (rule unsigned_less)
  then show ?thesis by (simp add: word_less_nat_alt unat_ucast_up)
qed

locale allocator =
  fixes A :: "'m alloc"
  assumes slack_nonneg: "A m n = (m', Some k) \<Longrightarrow> 0 \<le> k"
begin

lemma widen_room: "sb_inv s \<Longrightarrow> sb_len s \<le> cap \<Longrightarrow> makes_room s (string_buffer_widen A s cap) cap c"
  by (auto simp: makes_room_def string_buffer_widen_def string_buffer_set_error_def sb_inv_def sb_len_def
      split: prod.splits option.splits dest!: slack_nonneg)

lemma widen_wide: "string_buffer_widen A s cap = (s', True) \<Longrightarrow> sb_wide s'"
  by (auto simp: string_buffer_widen_def string_buffer_set_error_def split: if_splits prod.splits option.splits)

lemma realloc_room:
  assumes "sb_inv s" "sb_len s \<le> n"
  shows "makes_room s (string_buffer_realloc A s n c) n c"
proof (cases "sb_error s \<or> n > JS_STRING_LEN_MAX")
  case True
  with assms show ?thesis
    by (auto simp: makes_room_def string_buffer_realloc_def string_buffer_set_error_def sb_inv_def sb_len_def)
next
  case False
  let ?new = "min (max n (c_grow (sb_cap s))) JS_STRING_LEN_MAX"
  have new: "n \<le> ?new" using False by auto
  show ?thesis
  proof (cases "\<not> sb_wide s \<and> c \<ge> 0x100")
    case True
    have "sb_len s \<le> ?new" using new assms(2) by linarith
    with widen_room [OF assms(1) this, of c] new True False show ?thesis
      by (auto simp: makes_room_def string_buffer_realloc_def Let_def split: prod.splits)
  next
    case narrow: False
    with False new assms show ?thesis
      by (auto simp: makes_room_def string_buffer_realloc_def string_buffer_set_error_def sb_inv_def
          sb_len_def Let_def split: prod.splits option.splits dest!: slack_nonneg)
  qed
qed

lemma realloc_wide:
  "string_buffer_realloc A s n c = (s', True) \<Longrightarrow> c < 0x100 \<or> sb_wide s'"
  using widen_wide [of s] by (auto simp: string_buffer_realloc_def Let_def string_buffer_set_error_def not_less
      split: if_splits prod.splits option.splits)

end

lemma store_ok:
  assumes "sb_inv s" "sb_len s < sb_cap s" "sb_wide s \<or> c < 0x100"
  shows "sb_inv (sb_store s c)" "sb_units (sb_store s c) = sb_units s @ [ucast c]"
    "sb_error (sb_store s c) = sb_error s"
  using assms by (auto simp: sb_inv_def sb_store_def sb_len_def u32_small_u8 ucast_u8_less
      word_less_nat_alt unat_ucast_small)

lemma roomD:
  assumes "makes_room s (s', ok) n c"
  shows "sb_inv s'" "\<not> ok \<Longrightarrow> sb_error s'" "ok \<Longrightarrow> sb_error s' = sb_error s"
    "ok \<Longrightarrow> sb_units s' = sb_units s" "ok \<Longrightarrow> n \<le> sb_cap s'" "ok \<Longrightarrow> sb_wide s \<Longrightarrow> sb_wide s'"
  using assms by (auto simp: makes_room_def)

lemma roomD_len: "makes_room s (s', True) n c \<Longrightarrow> sb_len s' = sb_len s"
  by (simp add: makes_room_def sb_len_def)

lemma or_less_0x100: "x OR y < 0x100 \<longleftrightarrow> x < 0x100 \<and> y < (0x100 :: u16)"
proof -
  have *: "z < 0x100 \<longleftrightarrow> drop_bit 8 z = 0" for z :: u16
    by (simp add: word_less_nat_alt word_unat_eq_iff unat_drop_bit div_eq_0_iff)
  show ?thesis
    unfolding * by (simp add: bit_eq_iff bit_simps) blast
qed

lemma fold_or_less: "fold (OR) p (a :: u16) < 0x100 \<longleftrightarrow> a < 0x100 \<and> (\<forall>x \<in> set p. x < 0x100)"
  by (induction p arbitrary: a) (auto simp: or_less_0x100)

text \<open>The UTF-16 code units \<open>string_buffer_putc\<close> writes for one code point.\<close>

definition utf16_enc :: "u32 \<Rightarrow> u16 list" where
  "utf16_enc c = (if c \<ge> 0x10000
     then [ucast (drop_bit 10 (c - 0x10000) + 0xd800), ucast (((c - 0x10000) AND 0x3ff) + 0xdc00)]
     else [ucast c])"

lemma appends_seq:
  assumes "appends f xs" "appends g ys"
  shows "appends (\<lambda>s. case f s of (s1, False) \<Rightarrow> (s1, False) | (s1, True) \<Rightarrow> g s1) (xs @ ys)"
proof (rule appendsI)
  fix s :: "'a strbuf"
  assume "sb_inv s"
  obtain s1 ok1 s2 ok2 where r: "f s = (s1, ok1)" "g s1 = (s2, ok2)" by force
  note 1 = appendsD [OF assms(1) \<open>sb_inv s\<close> r(1)]
  note 2 = appendsD [OF assms(2) _ r(2)]
  from 1 2 r show "case (case f s of (s1, False) \<Rightarrow> (s1, False) | (s1, True) \<Rightarrow> g s1) of (s', ok) \<Rightarrow>
      sb_inv s' \<and> (if ok then sb_error s' = sb_error s \<and> sb_units s' = sb_units s @ xs @ ys else sb_error s')"
    by (cases ok1) auto
qed

context allocator
begin

lemma room_if:
  assumes "sb_inv s" "sb_len s \<le> n"
  shows "makes_room s (if n > sb_cap s then string_buffer_realloc A s n c else (s, True)) n c"
  using realloc_room [OF assms] assms by (auto simp: makes_room_def)

lemma room_one:
  assumes "sb_inv s"
  shows "makes_room s (if sb_len s \<ge> sb_cap s then string_buffer_realloc A s (sb_len s + 1) c else (s, True))
    (sb_len s + 1) c"
  using room_if [OF assms, of "sb_len s + 1" c] by (auto simp: makes_room_def split: if_splits)

lemma putc8_appends:
  assumes c: "c < 0x100"
  shows "appends (\<lambda>s. string_buffer_putc8 A s c) [ucast c]"
proof (rule appendsI)
  fix s :: "'m strbuf"
  assume inv: "sb_inv s"
  obtain s1 ok1 where r: "(if sb_len s \<ge> sb_cap s then string_buffer_realloc A s (sb_len s + 1) c
      else (s, True)) = (s1, ok1)" by force
  note room = room_one [OF inv, of c, unfolded r]
  show "case string_buffer_putc8 A s c of (s', ok) \<Rightarrow> sb_inv s' \<and>
    (if ok then sb_error s' = sb_error s \<and> sb_units s' = sb_units s @ [ucast c] else sb_error s')"
  proof (cases ok1)
    case True
    with room have "makes_room s (s1, True) (sb_len s + 1) c" by simp
    note rd = roomD [OF this] roomD_len [OF this]
    then have "sb_len s1 < sb_cap s1" by simp
    with store_ok [OF rd(1) this] c r rd True show ?thesis by (simp add: string_buffer_putc8_def)
  next
    case False
    with roomD(1,2) [OF room] r show ?thesis by (simp add: string_buffer_putc8_def)
  qed
qed

lemma putc_slow_appends: "appends (\<lambda>s. string_buffer_putc_slow A s c) [ucast c]"
proof (rule appendsI)
  fix s :: "'m strbuf"
  assume inv: "sb_inv s"
  obtain s1 ok1 where r: "(if sb_len s \<ge> sb_cap s then string_buffer_realloc A s (sb_len s + 1) c
      else (s, True)) = (s1, ok1)" by force
  note room = room_one [OF inv, of c, unfolded r]
  show "case string_buffer_putc_slow A s c of (s', ok) \<Rightarrow> sb_inv s' \<and>
    (if ok then sb_error s' = sb_error s \<and> sb_units s' = sb_units s @ [ucast c] else sb_error s')"
  proof (cases ok1)
    case True
    with room have "makes_room s (s1, True) (sb_len s + 1) c" by simp
    note rd = roomD [OF this] roomD_len [OF this]
    then have lt: "sb_len s1 < sb_cap s1" by simp
    show ?thesis
    proof (cases "sb_wide s1 \<or> c < 0x100")
      case True
      with store_ok [OF rd(1) lt True] r rd \<open>ok1\<close> show ?thesis
        by (auto simp: string_buffer_putc_slow_def)
    next
      case False
      obtain s2 ok2 where w: "string_buffer_widen A s1 (sb_cap s1) = (s2, ok2)" by force
      have "makes_room s1 (s2, ok2) (sb_cap s1) c"
        using widen_room [OF rd(1), of "sb_cap s1" c] lt w by simp
      note wd = roomD [OF this]
      have "ok2 \<Longrightarrow> sb_wide s2 \<and> sb_len s2 < sb_cap s2"
        using widen_wide w wd lt by (auto simp: sb_len_def)
      with store_ok [OF wd(1), of c] False r w rd wd \<open>ok1\<close> show ?thesis
        by (cases ok2) (auto simp: string_buffer_putc_slow_def)
    qed
  next
    case False
    with roomD(1,2) [OF room] r show ?thesis by (simp add: string_buffer_putc_slow_def)
  qed
qed

lemma putc16_appends: "appends (\<lambda>s. string_buffer_putc16 A s c) [ucast c]"
  using putc_slow_appends [of c] by (auto simp: appends_def string_buffer_putc16_def store_ok)

lemma putc_appends: "appends (\<lambda>s. string_buffer_putc A s c) (utf16_enc c)"
  using appends_seq [OF putc16_appends putc16_appends] putc16_appends
  by (simp add: string_buffer_putc_def [abs_def] utf16_enc_def Let_def)

lemma write8_appends: "appends (\<lambda>s. string_buffer_write8 A s p) (map ucast p)"
proof (rule appendsI)
  fix s :: "'m strbuf"
  assume inv: "sb_inv s"
  let ?n = "sb_len s + int (length p)"
  obtain s1 ok1 where r: "(if ?n > sb_cap s then string_buffer_realloc A s ?n 0 else (s, True)) = (s1, ok1)"
    by force
  note room = room_if [OF inv, of ?n 0, unfolded r, simplified]
  show "case string_buffer_write8 A s p of (s', ok) \<Rightarrow> sb_inv s' \<and>
    (if ok then sb_error s' = sb_error s \<and> sb_units s' = sb_units s @ map ucast p else sb_error s')"
  proof (cases ok1)
    case True
    with room have "makes_room s (s1, True) ?n 0" by simp
    note rd = roomD [OF this] roomD_len [OF this]
    with True r show ?thesis
      by (auto simp: string_buffer_write8_def sb_inv_def sb_len_def ucast_u8_less)
  next
    case False
    with roomD(1,2) [OF room] r show ?thesis by (simp add: string_buffer_write8_def)
  qed
qed

lemma write16_appends: "appends (\<lambda>s. string_buffer_write16 A s p) p"
proof (rule appendsI)
  fix s :: "'m strbuf"
  assume inv: "sb_inv s"
  let ?n = "sb_len s + int (length p)" and ?c = "fold (OR) p (0 :: u16)"
  obtain s1 ok1 where r: "(if ?n > sb_cap s then string_buffer_realloc A s ?n (ucast ?c)
      else if \<not> sb_wide s \<and> ?c \<ge> 0x100 then string_buffer_widen A s (sb_cap s) else (s, True)) = (s1, ok1)"
    by force
  have c: "(ucast ?c :: u32) < 0x100 \<longleftrightarrow> ?c < 0x100"
    by (simp add: word_less_nat_alt unat_ucast_up)
  have room: "makes_room s (s1, ok1) ?n (ucast ?c)"
    using room_if [OF inv, of ?n "ucast ?c"] widen_room [OF inv, of "sb_cap s" "ucast ?c"] r inv
    by (auto simp: makes_room_def sb_inv_def split: if_splits)
  have wide: "ok1 \<Longrightarrow> sb_wide s1 \<or> ?c < 0x100"
    using r realloc_wide [of s ?n "ucast ?c" s1] widen_wide [of s "sb_cap s" s1]
    by (auto simp: c not_le split: if_splits)
  show "case string_buffer_write16 A s p of (s', ok) \<Rightarrow> sb_inv s' \<and>
    (if ok then sb_error s' = sb_error s \<and> sb_units s' = sb_units s @ p else sb_error s')"
  proof (cases ok1)
    case True
    with room have "makes_room s (s1, True) ?n (ucast ?c)" by simp
    note rd = roomD [OF this] roomD_len [OF this]
    have small: "\<forall>x \<in> set p. x < 0x100" if "\<not> sb_wide s1"
      using wide [OF True] that by (simp add: fold_or_less)
    have id: "map (\<lambda>x. ucast (ucast x :: u8)) p = p" if "\<not> sb_wide s1"
      using small [OF that] by (intro map_idI)
        (simp add: word_unat_eq_iff word_less_nat_alt unat_ucast_up unat_ucast_small)
    show ?thesis
      using True r rd small id by (auto simp: string_buffer_write16_def Let_def sb_inv_def sb_len_def)
  next
    case False
    with roomD(1,2) [OF room] r show ?thesis by (simp add: string_buffer_write16_def Let_def)
  qed
qed

lemma concat_appends:
  "from \<le> to \<Longrightarrow> appends (\<lambda>s. string_buffer_concat A s p from to) (take (to - from) (drop from (units p)))"
  using write8_appends write16_appends
  by (cases p) (auto simp: string_buffer_concat_def drop_map take_map appends_def)

lemma fill_loop_appends: "appends (\<lambda>s. sb_fill_loop A s c n) (replicate n (ucast c))"
proof (induction n)
  case 0
  then show ?case by (simp add: appends_def)
next
  case (Suc n)
  from appends_seq [OF putc16_appends Suc] show ?case by simp
qed

lemma fill_appends: "appends (\<lambda>s. string_buffer_fill A s c n) (replicate n (ucast c))"
proof (rule appendsI)
  fix s :: "'m strbuf"
  assume inv: "sb_inv s"
  let ?n = "sb_len s + int n"
  obtain s1 ok1 where r: "(if ?n > sb_cap s then string_buffer_realloc A s ?n c else (s, True)) = (s1, ok1)"
    by force
  note room = room_if [OF inv, of ?n c, unfolded r, simplified]
  obtain s2 ok2 where f: "sb_fill_loop A s1 c n = (s2, ok2)" by force
  note fill = appendsD [OF fill_loop_appends roomD(1) [OF room] f]
  show "case string_buffer_fill A s c n of (s', ok) \<Rightarrow> sb_inv s' \<and>
    (if ok then sb_error s' = sb_error s \<and> sb_units s' = sb_units s @ replicate n (ucast c) else sb_error s')"
    using roomD [OF room] r f fill by (cases ok1) (auto simp: string_buffer_fill_def)
qed

lemma end_units:
  "sb_inv s \<Longrightarrow> \<not> sb_error s \<Longrightarrow> \<exists>m str. string_buffer_end A s = (m, Some str) \<and> units str = sb_units s"
  by (auto simp: string_buffer_end_def sb_len_def sb_inv_def word_less_nat_alt word_unat_eq_iff
      unat_ucast_up unat_ucast_small intro!: map_idI)

lemma end_error: "sb_error s \<Longrightarrow> snd (string_buffer_end A s) = None"
  by (simp add: string_buffer_end_def)

end

section \<open>When an operation can fail\<close>

text \<open>The allocator turns some request down.\<close>

definition refuses :: "'m alloc \<Rightarrow> bool" where
  "refuses A \<longleftrightarrow> (\<exists>m n. snd (A m n) = None)"

text \<open>An allocator that never does: it serves as the instance of the theorems about allocators.\<close>

definition plenty :: "unit alloc" where
  "plenty = (\<lambda>m n. (m, Some 0))"

lemma plenty_serves: "\<not> refuses plenty"
  by (simp add: refuses_def plenty_def)

interpretation plenty: allocator plenty
  by unfold_locales (simp add: plenty_def)

text \<open>
  Appending \<open>n\<close> characters to a sound buffer fails only where the allocator refuses or the string
  gets too long.
\<close>

definition served :: "'m alloc \<Rightarrow> ('m strbuf \<Rightarrow> 'm strbuf \<times> bool) \<Rightarrow> nat \<Rightarrow> bool" where
  "served A f n \<longleftrightarrow> (\<forall>s. \<not> snd (f s) \<longrightarrow> sb_error s \<or> refuses A \<or> sb_len s + int n > JS_STRING_LEN_MAX)"

lemma refusesI: "A m n = (m', None) \<Longrightarrow> refuses A"
  unfolding refuses_def by (metis snd_conv)

lemma widen_served: "string_buffer_widen A s cap = (s', False) \<Longrightarrow> sb_error s \<or> refuses A"
  by (auto simp: string_buffer_widen_def split: if_splits prod.splits option.splits dest: refusesI)

lemma realloc_served:
  "string_buffer_realloc A s n c = (s', False) \<Longrightarrow> sb_error s \<or> refuses A \<or> n > JS_STRING_LEN_MAX"
  by (auto simp: string_buffer_realloc_def Let_def split: if_splits prod.splits option.splits dest: refusesI widen_served)

lemma realloc_error: "string_buffer_realloc A s n c = (s', True) \<Longrightarrow> sb_error s' = sb_error s \<and> sb_len s' = sb_len s"
  by (auto simp: string_buffer_realloc_def string_buffer_widen_def string_buffer_set_error_def sb_len_def Let_def
      split: if_splits prod.splits option.splits)

lemma putc16_served: "served A (\<lambda>s. string_buffer_putc16 A s c) 1"
  unfolding served_def string_buffer_putc16_def string_buffer_putc_slow_def
  by (auto split: if_splits prod.splits bool.splits dest!: realloc_served realloc_error widen_served)

lemma write8_served: "served A (\<lambda>s. string_buffer_write8 A s p) (length p)"
  unfolding served_def string_buffer_write8_def
  by (auto split: if_splits prod.splits bool.splits dest!: realloc_served)

end
