(* ===== verification/StringConv.thy ===== *)
theory StringConv
  imports JSStrings
begin

text \<open>
  \<open>JS_NewStringLen\<close> (UTF-8 bytes to a JavaScript string), \<open>JS_ToCStringLen2\<close> (and back),
  \<open>string_getc\<close> and string comparison, with the specification of each on lists of code points
  and UTF-16 units.
\<close>

section \<open>From UTF-8\<close>

text \<open>
  The recovery of \<open>JS_NewStringLen\<close> after an invalid sequence: it skips continuation bytes, one
  further byte, and continuation bytes again.
\<close>

definition is_cont :: "u8 \<Rightarrow> bool" where
  "is_cont b \<longleftrightarrow> b \<ge> 0x80 \<and> b < 0xc0"

definition utf8_resync :: "u8 list \<Rightarrow> u8 list" where
  "utf8_resync p = (case dropWhile is_cont p of [] \<Rightarrow> [] | b # p' \<Rightarrow> dropWhile is_cont p')"

lemma length_utf8_tail: "utf8_tail l c p = Some (c', r) \<Longrightarrow> length r + l = length p"
  by (induction l c p rule: utf8_tail.induct) (auto split: if_splits)

lemma length_unicode_from_utf8: "unicode_from_utf8 p m = Some (c, r) \<Longrightarrow> length r < length p"
  by (auto simp: unicode_from_utf8_def split: list.splits if_splits option.splits dest!: length_utf8_tail)

lemma length_utf8_resync: "length (utf8_resync (b # p)) \<le> length p"
  using length_dropWhile_le [of is_cont p]
  by (auto simp: utf8_resync_def split: list.splits dest!: arg_cong [where f = length]
      intro: le_trans [OF length_dropWhile_le])

text \<open>The loop of \<open>JS_NewStringLen\<close>; the return codes of the writes are ignored, as in the code.\<close>

function new_string_loop :: "'m alloc \<Rightarrow> 'm strbuf \<Rightarrow> u8 list \<Rightarrow> 'm strbuf" where
  "new_string_loop A b [] = b"
| "new_string_loop A b (x # p) =
    (if x < 128 then new_string_loop A (fst (string_buffer_putc8 A b (ucast x))) p
     else case unicode_from_utf8 (x # p) (c_int (length (x # p))) of
       Some (c, p_next) \<Rightarrow>
         (if c < 0x10000 then new_string_loop A (fst (string_buffer_putc16 A b c)) p_next
          else if c \<le> 0x10FFFF then
            let c' = c - 0x10000;
                b' = fst (string_buffer_putc16 A b (drop_bit 10 c' + 0xd800))
            in new_string_loop A (fst (string_buffer_putc16 A b' ((c' AND 0x3ff) + 0xdc00))) p_next
          else new_string_loop A (fst (string_buffer_putc16 A b 0xfffd)) (utf8_resync (x # p)))
     | None \<Rightarrow> new_string_loop A (fst (string_buffer_putc16 A b 0xfffd)) (utf8_resync (x # p)))"
  by pat_completeness auto

termination
proof (relation "measure (\<lambda>(A, b, p). length p)", goal_cases)
  case 1
  then show ?case by simp
next
  case (2 A b x p)
  then show ?case by simp
qed (auto simp: le_less_trans [OF length_utf8_resync] dest!: length_unicode_from_utf8)

text \<open>
  \<open>JS_NewStringLen(ctx, buf, buf_len)\<close>: \<open>None\<close> is \<open>JS_EXCEPTION\<close>.
\<close>

definition JS_NewStringLen :: "'m alloc \<Rightarrow> 'm \<Rightarrow> u8 list \<Rightarrow> 'm \<times> js_string option" where
  "JS_NewStringLen A m buf =
    (let ascii = takeWhile (\<lambda>x. x < 128) buf; p = dropWhile (\<lambda>x. x < 128) buf in
     if int (length ascii) > JS_STRING_LEN_MAX then (m, None)
     else if p = [] then
       (if buf = [] then (m, Some (Str8 []))
        else case js_alloc_string A m (c_int (length buf)) False of
          (m', True) \<Rightarrow> (m', Some (Str8 buf)) | (m', False) \<Rightarrow> (m', None))
     else case string_buffer_init A m (c_int (length buf)) of
       (b, False) \<Rightarrow> (sb_mem b, None)
     | (b, True) \<Rightarrow> string_buffer_end A (new_string_loop A (fst (string_buffer_write8 A b ascii)) p))"

text \<open>What the conversion means: the UTF-16 units of a byte sequence.\<close>

function utf16_of_utf8 :: "u8 list \<Rightarrow> u16 list" where
  "utf16_of_utf8 [] = []"
| "utf16_of_utf8 (x # p) =
    (case unicode_from_utf8 (x # p) (int (length (x # p))) of
       Some (c, p_next) \<Rightarrow>
         (if c \<le> 0x10FFFF then utf16_enc c @ utf16_of_utf8 p_next
          else 0xfffd # utf16_of_utf8 (utf8_resync (x # p)))
     | None \<Rightarrow> 0xfffd # utf16_of_utf8 (utf8_resync (x # p)))"
  by pat_completeness auto

termination
  by (relation "measure length")
    (auto simp: le_less_trans [OF length_utf8_resync] le_imp_less_Suc [OF length_utf8_resync]
       dest!: length_unicode_from_utf8)

lemma c_int_small: "n < 2 ^ 31 \<Longrightarrow> c_int n = int n"
proof -
  assume "n < 2 ^ 31"
  then have "signed_take_bit 31 (int n) = int n"
    by (intro signed_take_bit_int_eq_self) auto
  then show ?thesis by (simp add: c_int_def signed_of_nat)
qed

lemma appends_fst:
  "appends f xs \<Longrightarrow> sb_inv s \<Longrightarrow> sb_inv (fst (f s)) \<and>
     (\<not> sb_error (fst (f s)) \<longrightarrow> \<not> sb_error s \<and> sb_units (fst (f s)) = sb_units s @ xs)"
  using appendsD [of f xs s "fst (f s)" "snd (f s)"] by (auto split: if_splits)

lemma ascii_decode: "x < 0x80 \<Longrightarrow> unicode_from_utf8 (x # p) m = Some (ucast x, p)"
  by (simp add: unicode_from_utf8_def)

lemma ucast_u8_small: "(ucast (x :: u8) :: u32) < 0x100"
proof -
  have "unat x < 2 ^ LENGTH(8)" by (rule unsigned_less)
  then show ?thesis by (simp add: word_less_nat_alt unat_ucast_up)
qed

lemma ucast_u8_u16: "(ucast (ucast (x :: u8) :: u32) :: u16) = ucast x"
  using ucast_u8_small [of x]
  by (simp add: word_unat_eq_iff word_less_nat_alt unat_ucast_up unat_ucast_small)

lemma utf16_enc_u8: "utf16_enc (ucast (x :: u8)) = [ucast x]"
  using ucast_u8_small [of x]
  by (auto simp: utf16_enc_def word_unat_eq_iff word_less_nat_alt word_le_nat_alt unat_ucast_up
      unat_ucast_mod [where 'b = 16])

lemma utf16_of_ascii: "x < 0x80 \<Longrightarrow> utf16_of_utf8 (x # p) = ucast x # utf16_of_utf8 p"
proof -
  assume x: "x < 0x80"
  have "(ucast x :: u32) \<le> 0x10FFFF"
    using ucast_u8_small [of x] by (simp add: word_less_nat_alt word_le_nat_alt)
  with x show ?thesis by (simp add: ascii_decode utf16_enc_u8)
qed

lemma utf16_of_ascii_prefix:
  "utf16_of_utf8 p = map ucast (takeWhile (\<lambda>x. x < 0x80) p) @ utf16_of_utf8 (dropWhile (\<lambda>x. x < 0x80) p)"
  by (induction p) (auto simp: utf16_of_ascii simp del: utf16_of_utf8.simps(2))

context allocator
begin

lemma new_string_loop_units:
  "sb_inv b \<Longrightarrow> length p < 2 ^ 31 \<Longrightarrow> sb_inv (new_string_loop A b p) \<and>
    (\<not> sb_error (new_string_loop A b p) \<longrightarrow>
       \<not> sb_error b \<and> sb_units (new_string_loop A b p) = sb_units b @ utf16_of_utf8 p)"
proof (induction p arbitrary: b rule: measure_induct_rule [of length])
  case (less p)
  note putc16 = appends_fst [OF putc16_appends]
  show ?case
  proof (cases p)
    case Nil
    then show ?thesis using less.prems by simp
  next
    case (Cons x q)
    have IH: "sb_inv b' \<Longrightarrow> length r \<le> length q \<Longrightarrow> sb_inv (new_string_loop A b' r) \<and>
        (\<not> sb_error (new_string_loop A b' r) \<longrightarrow>
           \<not> sb_error b' \<and> sb_units (new_string_loop A b' r) = sb_units b' @ utf16_of_utf8 r)" for b' r
      using less.IH [of r b'] less.prems(2) Cons by simp
    let ?skip = "new_string_loop A (fst (string_buffer_putc16 A b 0xfffd)) (utf8_resync p)"
    have skip: "sb_inv ?skip \<and> (\<not> sb_error ?skip \<longrightarrow>
        \<not> sb_error b \<and> sb_units ?skip = sb_units b @ 0xfffd # utf16_of_utf8 (utf8_resync p))"
      using IH [of "fst (string_buffer_putc16 A b 0xfffd)" "utf8_resync p"]
        putc16 [OF less.prems(1), of "0xfffd"] length_utf8_resync [of x q] Cons by auto
    show ?thesis
    proof (cases "x < 128")
      case True
      have "(ucast x :: u32) < 0x100" by (rule ucast_u8_small)
      from appends_fst [OF putc8_appends [OF this] less.prems(1)] True Cons
        IH [of "fst (string_buffer_putc8 A b (ucast x))" q]
      show ?thesis by (auto simp: utf16_of_ascii ucast_u8_u16 simp del: utf16_of_utf8.simps(2))
    next
      case False
      show ?thesis
      proof (cases "unicode_from_utf8 (x # q) (int (length (x # q)))")
        case None
        then show ?thesis using skip False Cons less.prems(2) by (simp add: c_int_small)
      next
        case (Some cr)
        obtain c r where cr: "cr = (c, r)" by force
        have len: "length r \<le> length q" using length_unicode_from_utf8 [of "x # q"] Some cr by force
        note dec = Some [unfolded cr]
        consider "c < 0x10000" | "\<not> c < 0x10000" "c \<le> 0x10FFFF" | "\<not> c \<le> 0x10FFFF" by blast
        then show ?thesis
        proof cases
          case 1
          then have "c \<le> 0x10FFFF" by (simp add: word_less_nat_alt word_le_nat_alt)
          with 1 putc16 [OF less.prems(1), of c] IH [of "fst (string_buffer_putc16 A b c)" r] len dec False Cons
            less.prems(2)
          show ?thesis by (auto simp: c_int_small utf16_enc_def not_le)
        next
          case 2
          let ?hi = "drop_bit 10 (c - 0x10000) + 0xd800" and ?lo = "((c - 0x10000) AND 0x3ff) + 0xdc00"
          let ?b1 = "fst (string_buffer_putc16 A b ?hi)"
          let ?b2 = "fst (string_buffer_putc16 A ?b1 ?lo)"
          note s1 = putc16 [OF less.prems(1), of ?hi]
          then have i1: "sb_inv ?b1" by blast
          note s2 = putc16 [OF i1, of ?lo]
          from 2 s1 s2 IH [of ?b2 r] len dec False Cons less.prems(2)
          show ?thesis by (auto simp: c_int_small utf16_enc_def Let_def not_le)
        next
          case 3
          then have "\<not> c < 0x10000" by (simp add: word_less_nat_alt word_le_nat_alt)
          with 3 skip dec False Cons less.prems(2) show ?thesis by (simp add: c_int_small)
        qed
      qed
    qed
  qed
qed

lemma init_spec:
  "0 \<le> cap \<Longrightarrow> string_buffer_init A m cap = (b, True) \<Longrightarrow>
    sb_inv b \<and> \<not> sb_error b \<and> sb_units b = []"
  by (auto simp: string_buffer_init_def string_buffer_init2_def sb_inv_def sb_len_def
      split: prod.splits bool.splits)

text \<open>Whatever string \<open>JS_NewStringLen\<close> returns, its UTF-16 units are those of the bytes.\<close>

lemma new_string_units:
  assumes "length buf < 2 ^ 31" "JS_NewStringLen A m buf = (m', Some str)"
  shows "units str = utf16_of_utf8 buf"
proof -
  let ?a = "takeWhile (\<lambda>x. x < 128) buf" and ?p = "dropWhile (\<lambda>x. x < 128) buf"
  show ?thesis
  proof (cases "?p = []")
    case True
    have "?a @ ?p = buf" by simp
    then have "?a = buf" using True by simp
    then have "utf16_of_utf8 buf = map ucast buf" using utf16_of_ascii_prefix [of buf]
      by (simp only: True) simp
    with True assms(2) show ?thesis
      by (auto simp: JS_NewStringLen_def Let_def split: if_splits prod.splits bool.splits)
  next
    case False
    obtain b ok where init: "string_buffer_init A m (int (length buf)) = (b, ok)" by force
    have ok: "ok" and res: "string_buffer_end A (new_string_loop A (fst (string_buffer_write8 A b ?a)) ?p)
        = (m', Some str)"
      using False assms init
      by (cases ok; auto simp: JS_NewStringLen_def Let_def c_int_small split: if_splits)+
    let ?b = "fst (string_buffer_write8 A b ?a)"
    have b: "sb_inv b" "\<not> sb_error b" "sb_units b = []" using init_spec [of "int (length buf)" m b] init ok by auto
    note w = appends_fst [OF write8_appends b(1), of ?a]
    have "length ?p < 2 ^ 31" using assms(1) length_dropWhile_le [of "\<lambda>x. x < 128" buf] by linarith
    note l = new_string_loop_units [OF conjunct1 [OF w] this]
    let ?e = "new_string_loop A ?b ?p"
    have "\<not> sb_error ?e" using end_error [of ?e] res by auto
    with l w b have "sb_units ?e = map ucast ?a @ utf16_of_utf8 ?p" by simp
    moreover have "units str = sb_units ?e"
      using end_units [of ?e] l \<open>\<not> sb_error ?e\<close> res by auto
    ultimately show ?thesis using utf16_of_ascii_prefix [of buf] by simp
  qed
qed

end

section \<open>To UTF-8\<close>

text \<open>
  The 16-bit loop of \<open>JS_ToCStringLen2\<close>: a high surrogate followed by a low one is one code
  point unless \<open>cesu8\<close>; an unmatched surrogate is kept as it is.
\<close>

fun to_utf8_loop :: "bool \<Rightarrow> u16 list \<Rightarrow> u8 list" where
  "to_utf8_loop cesu8 [] = []"
| "to_utf8_loop cesu8 [c] = (if c < 0x80 then [ucast c] else unicode_to_utf8 (ucast c))"
| "to_utf8_loop cesu8 (c # c1 # rest) =
    (if c < 0x80 then ucast c # to_utf8_loop cesu8 (c1 # rest)
     else if c \<ge> 0xd800 \<and> c < 0xdc00 \<and> \<not> cesu8 \<and> c1 \<ge> 0xdc00 \<and> c1 < 0xe000
       then unicode_to_utf8 ((push_bit 10 (ucast c AND 0x3ff) OR (ucast c1 AND 0x3ff)) + 0x10000)
         @ to_utf8_loop cesu8 rest
     else unicode_to_utf8 (ucast c) @ to_utf8_loop cesu8 (c1 # rest))"

definition to_utf8_narrow :: "u8 list \<Rightarrow> u8 list" where
  "to_utf8_narrow src = concat (map (\<lambda>c. if c < 0x80 then [c]
     else [drop_bit 6 c OR 0xc0, (c AND 0x3f) OR 0x80]) src)"

text \<open>
  \<open>JS_ToCStringLen2\<close> of a string value: the bytes it returns, \<open>None\<close> when the allocation fails.
  A string of ASCII bytes is returned as it is. \<open>len * 3\<close> is a C \<open>int\<close> product.
\<close>

definition JS_ToCStringLen2 :: "'m alloc \<Rightarrow> 'm \<Rightarrow> js_string \<Rightarrow> bool \<Rightarrow> 'm \<times> u8 list option" where
  "JS_ToCStringLen2 A m str cesu8 = (case str of
     Str8 src \<Rightarrow>
       (let count = length (filter (\<lambda>c. drop_bit 7 c = 1) src) in
        if count = 0 then (m, Some src)
        else case js_alloc_string A m (int (length src) + int count) False of
          (m', False) \<Rightarrow> (m', None) | (m', True) \<Rightarrow> (m', Some (to_utf8_narrow src)))
   | Str16 src \<Rightarrow>
       (case js_alloc_string A m (sint (word_of_int (int (length src) * 3) :: s32)) False of
          (m', False) \<Rightarrow> (m', None) | (m', True) \<Rightarrow> (m', Some (to_utf8_loop cesu8 src))))"

text \<open>No write goes past the allocation, whose last byte is for the terminating NUL.\<close>

lemma length_unicode_to_utf8_u16: "length (unicode_to_utf8 (ucast (c :: u16))) \<le> 3"
proof -
  have "unat c < 2 ^ LENGTH(16)" by (rule unsigned_less)
  then have "(ucast c :: u32) < 0x10000" by (simp add: word_less_nat_alt unat_ucast_up)
  then show ?thesis by (simp add: unicode_to_utf8_def)
qed

lemma length_to_utf8_loop: "length (to_utf8_loop cesu8 src) \<le> 3 * length src"
proof (induction cesu8 src rule: to_utf8_loop.induct)
  case (3 cesu8 c c1 rest)
  then show ?case
    using length_unicode_to_utf8_u16 [of c]
      length_unicode_to_utf8 [of "(push_bit 10 (ucast c AND 0x3ff) OR (ucast c1 AND 0x3ff)) + 0x10000"]
    by auto
qed (use length_unicode_to_utf8_u16 in auto)

lemma high_bit: "drop_bit 7 (c :: u8) = 1 \<longleftrightarrow> \<not> c < 0x80"
proof -
  have "unat c < 2 ^ LENGTH(8)" by (rule unsigned_less)
  then show ?thesis by (auto simp: word_unat_eq_iff unat_drop_bit word_less_nat_alt)
qed

lemma length_to_utf8_narrow:
  "length (to_utf8_narrow src) = length src + length (filter (\<lambda>c. drop_bit 7 c = 1) src)"
  by (induction src) (auto simp: to_utf8_narrow_def high_bit)

lemma unat_u8: "unat (c :: u8) < 256"
proof -
  have "unat c < 2 ^ LENGTH(8)" by (rule unsigned_less)
  then show ?thesis by simp
qed

lemma narrow_bytes:
  assumes "\<not> (c :: u8) < 0x80"
  shows "unicode_to_utf8 (ucast c) = [drop_bit 6 c OR 0xc0, (c AND 0x3f) OR 0x80]"
proof -
  have c: "128 \<le> unat c" "unat c div 64 < 4"
    using assms unat_u8 [of c] by (simp_all add: word_less_nat_alt div_less_iff_less_mult)
  have l: "unat (drop_bit 6 c OR 0xc0) = unat c div 64 + 192"
    by (subst unat_or_tag [where n = 6 and m = 3]) (use c in \<open>simp_all add: unat_drop_bit\<close>)
  have t: "unat ((c AND 0x3f) OR 0x80) = unat c mod 64 + 128"
    unfolding and_mask_6
    by (subst unat_or_tag [where n = 6 and m = 2]) (simp_all add: unsigned_take_bit_eq take_bit_nat_def)
  have "ucast (drop_bit 6 (ucast c :: u32) OR 0xc0) = drop_bit 6 c OR 0xc0"
    by (rule word_unat_eq_iff [THEN iffD2], subst unat_lead [where n = 5 and m = 6])
      (use c in \<open>simp_all add: unat_ucast_up l\<close>)
  moreover have "utf8_cont 0 (ucast c) = (c AND 0x3f) OR 0x80"
    by (rule word_unat_eq_iff [THEN iffD2]) (simp add: unat_cont t unat_ucast_up)
  ultimately show ?thesis
    using c unat_u8 [of c] by (simp add: unicode_to_utf8_def word_less_nat_alt unat_ucast_up)
qed

lemma to_utf8_loop_plain:
  assumes "\<not> (c \<ge> 0xd800 \<and> c < 0xdc00)"
  shows "to_utf8_loop cesu8 (c # rest) =
    (if c < 0x80 then [ucast c] else unicode_to_utf8 (ucast c)) @ to_utf8_loop cesu8 rest"
  using assms by (cases rest) auto

lemma narrow_is_wide: "to_utf8_narrow src = to_utf8_loop cesu8 (map ucast src)"
proof (induction src)
  case Nil
  then show ?case by (simp add: to_utf8_narrow_def)
next
  case (Cons c src)
  have u: "unat (ucast c :: u16) = unat c" by (simp add: unat_ucast_up)
  have "\<not> ((ucast c :: u16) \<ge> 0xd800 \<and> (ucast c :: u16) < 0xdc00)"
    using unat_u8 [of c] by (simp add: word_less_nat_alt word_le_nat_alt u)
  note plain = to_utf8_loop_plain [OF this, of cesu8 "map ucast src"]
  have "(ucast (ucast c :: u16) :: u32) = ucast c" "(ucast (ucast c :: u16) :: u8) = c"
    using unat_u8 [of c] by (simp_all add: word_unat_eq_iff unat_ucast_up unat_ucast_small)
  with plain Cons show ?case
    by (simp add: to_utf8_narrow_def narrow_bytes word_less_nat_alt u)
qed

lemma narrow_ascii: "filter (\<lambda>c. drop_bit 7 c = 1) src = [] \<Longrightarrow> to_utf8_narrow src = src"
  by (induction src) (auto simp: to_utf8_narrow_def high_bit split: if_splits)

text \<open>Whatever \<open>JS_ToCStringLen2\<close> returns depends only on the UTF-16 units, not on the representation.\<close>

lemma to_cstring_units:
  "JS_ToCStringLen2 A m str cesu8 = (m', Some bs) \<Longrightarrow> bs = to_utf8_loop cesu8 (units str)"
  by (cases str) (auto simp: JS_ToCStringLen2_def Let_def narrow_is_wide [symmetric] narrow_ascii
      split: if_splits prod.splits bool.splits)

section \<open>Round trips\<close>

definition scalar :: "u32 \<Rightarrow> bool" where
  "scalar c \<longleftrightarrow> c < 0xd800 \<or> (0xe000 \<le> c \<and> c < 0x110000)"

definition utf8 :: "u32 list \<Rightarrow> u8 list" where
  "utf8 cs = concat (map unicode_to_utf8 cs)"

definition utf16 :: "u32 list \<Rightarrow> u16 list" where
  "utf16 cs = concat (map utf16_enc cs)"

lemma scalar_lt: "scalar c \<Longrightarrow> unat c < 0x110000"
  by (auto simp: scalar_def word_less_nat_alt)

lemma decode_scalar:
  assumes "scalar c"
  shows "utf16_of_utf8 (unicode_to_utf8 c @ p) = utf16_enc c @ utf16_of_utf8 p"
proof -
  have c: "c < 0x80000000" "c \<le> 0x10FFFF"
    using scalar_lt [OF assms] by (simp_all add: word_less_nat_alt word_le_nat_alt)
  have "unicode_to_utf8 c \<noteq> []" using c by (simp add: unicode_to_utf8_Nil_iff)
  then obtain x q where e: "unicode_to_utf8 c = x # q" by (cases "unicode_to_utf8 c") auto
  have "unicode_from_utf8 (unicode_to_utf8 c @ p) (int (length (unicode_to_utf8 c @ p))) = Some (c, p)"
    by (rule utf8_decode_encode [OF c(1)]) simp
  with e c(2) show ?thesis by simp
qed

lemma utf16_of_utf8_scalars: "\<forall>c \<in> set cs. scalar c \<Longrightarrow> utf16_of_utf8 (utf8 cs) = utf16 cs"
  by (induction cs) (simp_all add: utf8_def utf16_def decode_scalar)

lemma and_mask_10: "x AND 0x3ff = take_bit 10 (x :: 'a :: len word)"
  by (simp add: take_bit_eq_mask mask_eq_exp_minus_1)

lemma unat_add_small: "unat x + unat y < 2 ^ LENGTH('a) \<Longrightarrow> unat (x + y) = unat x + unat (y :: 'a :: len word)"
  by (simp add: unat_plus_if')

lemma surrogates:
  fixes c :: u32
  assumes c: "\<not> c < 0x10000" "unat c < 0x110000"
  defines "hi \<equiv> ucast (drop_bit 10 (c - 0x10000) + 0xd800) :: u16"
    and "lo \<equiv> ucast (((c - 0x10000) AND 0x3ff) + 0xdc00) :: u16"
  shows "unat hi = (unat c - 0x10000) div 1024 + 0xd800" "unat lo = (unat c - 0x10000) mod 1024 + 0xdc00"
    "(push_bit 10 (ucast hi AND 0x3ff) OR (ucast lo AND 0x3ff)) + 0x10000 = c"
proof -
  define d where "d = c - 0x10000"
  have d: "unat d = unat c - 0x10000"
    unfolding d_def using c(1) by (simp add: unat_sub_if' word_less_nat_alt)
  have dh: "unat d div 1024 < 1024" using c(2) d by (simp add: div_less_iff_less_mult)
  have "unat (drop_bit 10 d + 0xd800) = unat d div 1024 + 0xd800"
    using dh by (subst unat_add_small) (simp_all add: unat_drop_bit)
  then show hi: "unat hi = (unat c - 0x10000) div 1024 + 0xd800"
    using dh unfolding hi_def d_def [symmetric] by (subst unat_ucast_small) (simp_all add: d)
  have dl: "unat (take_bit 10 d) = unat d mod 1024"
    by (simp add: unsigned_take_bit_eq take_bit_nat_def)
  then have "unat (take_bit 10 d + 0xdc00) = unat d mod 1024 + 0xdc00"
    by (subst unat_add_small) simp_all
  then show lo: "unat lo = (unat c - 0x10000) mod 1024 + 0xdc00"
    unfolding lo_def d_def [symmetric] and_mask_10 by (subst unat_ucast_small) (simp_all add: d)
  have "unat (take_bit 10 (ucast hi :: u32)) = unat d div 1024"
    using dh mod_mult_self2 [of "unat d div 1024" 1024 54]
    by (simp add: unsigned_take_bit_eq take_bit_nat_def unat_ucast_up hi d)
  then have "unat (push_bit 10 (take_bit 10 (ucast hi :: u32))) = unat d div 1024 * 1024"
    using dh by (simp add: push_bit_eq_mult unat_word_ariths del: unsigned_take_bit_eq)
  moreover have "unat (take_bit 10 (ucast lo :: u32)) = unat d mod 1024"
    using mod_mult_self2 [of "unat d" 1024 55]
    by (simp add: unsigned_take_bit_eq take_bit_nat_def unat_ucast_up lo d mod_add_left_eq)
  moreover have "unat d mod 1024 OR unat d div 1024 * 1024 = unat d"
    using nat_or_tag [of "unat d mod 1024" 10 "unat d div 1024"] by simp
  ultimately have "push_bit 10 (take_bit 10 (ucast hi :: u32)) OR take_bit 10 (ucast lo) = d"
    by (simp add: word_unat_eq_iff unsigned_or_eq or.commute del: unsigned_take_bit_eq)
  then show "(push_bit 10 (ucast hi AND 0x3ff) OR (ucast lo AND 0x3ff)) + 0x10000 = c"
    by (simp add: and_mask_10 d_def)
qed

lemma encode_scalar:
  assumes "scalar c"
  shows "to_utf8_loop False (utf16_enc c @ us) = unicode_to_utf8 c @ to_utf8_loop False us"
proof (cases "c < 0x10000")
  case True
  then have u: "unat (ucast c :: u16) = unat c" by (simp add: word_less_nat_alt unat_ucast_small)
  then have "(ucast (ucast c :: u16) :: u32) = c" by (simp add: word_unat_eq_iff unat_ucast_up)
  moreover have "\<not> ((ucast c :: u16) \<ge> 0xd800 \<and> (ucast c :: u16) < 0xdc00)"
    using assms u by (auto simp: scalar_def word_less_nat_alt word_le_nat_alt)
  moreover have "c < 0x80 \<longleftrightarrow> (ucast c :: u16) < 0x80" by (simp add: word_less_nat_alt u)
  moreover have "(ucast (ucast c :: u16) :: u8) = ucast c"
    by (simp add: word_unat_eq_iff unat_ucast_mod mod_mod_cancel)
  moreover have "utf16_enc c = [ucast c]" using True by (simp add: utf16_enc_def not_le)
  moreover have "c < 0x80 \<Longrightarrow> unicode_to_utf8 c = [ucast c]" by (simp add: unicode_to_utf8_def)
  ultimately show ?thesis by (simp add: to_utf8_loop_plain)
next
  case False
  let ?d = "c - 0x10000"
  let ?hi = "ucast (drop_bit 10 ?d + 0xd800) :: u16" and ?lo = "ucast ((?d AND 0x3ff) + 0xdc00) :: u16"
  have c: "unat c < 0x110000" by (rule scalar_lt [OF assms])
  note s = surrogates [OF False c]
  have "(unat c - 0x10000) div 1024 < 1024" using c by (simp add: div_less_iff_less_mult)
  then have "?hi \<ge> 0xd800" "?hi < 0xdc00" "\<not> ?hi < 0x80" "?lo \<ge> 0xdc00" "?lo < 0xe000"
    by (simp_all only: word_less_nat_alt word_le_nat_alt s) simp_all
  then have "to_utf8_loop False (?hi # ?lo # us) = unicode_to_utf8 ((push_bit 10 (ucast ?hi AND 0x3ff)
      OR (ucast ?lo AND 0x3ff)) + 0x10000) @ to_utf8_loop False us"
    by (simp only: to_utf8_loop.simps if_False if_True simp_thms)
  then show ?thesis using False by (simp only: s(3)) (simp add: utf16_enc_def not_less)
qed

lemma to_utf8_of_utf16_scalars: "\<forall>c \<in> set cs. scalar c \<Longrightarrow> to_utf8_loop False (utf16 cs) = utf8 cs"
  by (induction cs) (simp_all add: utf8_def utf16_def encode_scalar)

text \<open>The UTF-16 form of a byte sequence is no longer than the bytes: the buffer never grows.\<close>

lemma tail_step_bound:
  assumes "unat c < k" "k \<le> 2 ^ 26"
  shows "unat (push_bit 6 c OR (ucast b AND 0x3f) :: u32) < k * 64"
proof -
  have p: "unat (push_bit 6 c) = unat c * 64"
    using assms by (simp add: push_bit_eq_mult unat_word_ariths)
  have b: "unat (take_bit 6 (ucast b :: u32)) < 64"
    by (simp add: unsigned_take_bit_eq take_bit_nat_def)
  have "unat (push_bit 6 c OR take_bit 6 (ucast b)) = unat (take_bit 6 (ucast b :: u32)) + unat c * 64"
    using nat_or_tag [of "unat (take_bit 6 (ucast b :: u32))" 6 "unat c"] b
    by (simp add: unsigned_or_eq or.commute p del: unsigned_take_bit_eq)
  then show ?thesis using assms(1) b by (simp add: and_mask_6)
qed

lemma tail_bound:
  "utf8_tail l c p = Some (c', r) \<Longrightarrow> unat c < k \<Longrightarrow> k * 64 ^ l \<le> 2 ^ 32 \<Longrightarrow> unat c' < k * 64 ^ l"
proof (induction l c p arbitrary: k rule: utf8_tail.induct)
  case (3 l c b p)
  have "k \<le> k * 64 ^ l" by simp
  moreover have "k * 64 ^ l \<le> 2 ^ 26" using 3(4) by simp
  ultimately have "k \<le> 2 ^ 26" by (rule le_trans)
  from tail_step_bound [OF 3(3) this, of b] 3(1) [of "k * 64"] 3(2,4) show ?case
    by (simp add: mult.assoc split: if_splits)
qed auto

lemma supplementary_length:
  assumes d: "unicode_from_utf8 p m = Some (c, r)" and c: "\<not> c < 0x10000"
  shows "length r + 4 \<le> length p"
proof -
  from d obtain b q where p: "p = b # q" by (cases p) (auto simp: unicode_from_utf8_def)
  have "\<not> b < 0x80"
  proof
    assume "b < 0x80"
    with d p have "c = ucast b" by (simp add: unicode_from_utf8_def)
    with ucast_u8_small [of b] c show False by (simp add: word_less_nat_alt)
  qed
  with d p obtain l where l: "utf8_extra b = Some l"
    "utf8_tail l (ucast b AND utf8_first_code_mask ! (l - 1)) q = Some (c, r)"
    by (auto simp: unicode_from_utf8_def split: option.splits if_splits)
  have "l \<noteq> 1"
  proof
    assume "l = 1"
    with tail_bound [OF l(2), of 32] c show False
      by (simp add: utf8_first_code_mask_def and_masks unsigned_take_bit_eq take_bit_nat_def word_less_nat_alt)
  qed
  moreover have "l \<noteq> 2"
  proof
    assume "l = 2"
    with tail_bound [OF l(2), of 16] c show False
      by (simp add: utf8_first_code_mask_def and_masks unsigned_take_bit_eq take_bit_nat_def word_less_nat_alt)
  qed
  moreover have "1 \<le> l" using l(1) by (auto simp: utf8_extra_def split: if_splits)
  ultimately show ?thesis using length_utf8_tail [OF l(2)] p by simp
qed

lemma length_utf16_of_utf8: "length (utf16_of_utf8 p) \<le> length p"
proof (induction p rule: utf16_of_utf8.induct)
  case (2 x p)
  show ?case
  proof (cases "unicode_from_utf8 (x # p) (int (length (x # p)))")
    case None
    with 2(1) [OF None] length_utf8_resync [of x p] show ?thesis by simp
  next
    case (Some cr)
    obtain c r where cr: "cr = (c, r)" by force
    show ?thesis
    proof (cases "c \<le> 0x10FFFF")
      case True
      have "length (utf16_enc c) + length r \<le> length (x # p)"
        using supplementary_length [OF Some [unfolded cr]] length_unicode_from_utf8 [OF Some [unfolded cr]]
        by (auto simp: utf16_enc_def not_less)
      with 2(2) [OF Some cr [symmetric] True] Some cr True show ?thesis by simp
    next
      case False
      with 2(3) [OF Some cr [symmetric] False] length_utf8_resync [of x p] Some cr show ?thesis by simp
    qed
  qed
qed simp

section \<open>Reading code points\<close>

definition string_get :: "js_string \<Rightarrow> nat \<Rightarrow> u32" where
  "string_get p idx = (case p of Str16 xs \<Rightarrow> ucast (xs ! idx) | Str8 xs \<Rightarrow> ucast (xs ! idx))"

text \<open>\<open>string_getc(p, &idx)\<close>: the code point at \<open>idx\<close> and the index after it.\<close>

definition string_getc :: "js_string \<Rightarrow> nat \<Rightarrow> u32 \<times> nat" where
  "string_getc p idx = (case p of
     Str16 xs \<Rightarrow>
       (let c = ucast (xs ! idx) :: u32; idx1 = idx + 1 in
        if c \<ge> 0xd800 \<and> c < 0xdc00 \<and> idx1 < length xs then
          (let c1 = ucast (xs ! idx1) :: u32 in
           if c1 \<ge> 0xdc00 \<and> c1 < 0xe000
             then ((push_bit 10 (c AND 0x3ff) OR (c1 AND 0x3ff)) + 0x10000, idx1 + 1)
             else (c, idx1))
        else (c, idx1))
   | Str8 xs \<Rightarrow> (ucast (xs ! idx), idx + 1))"

text \<open>Reading a string of encoded scalar values gives the values back, one by one.\<close>

lemma string_getc_scalar:
  assumes "scalar c"
  shows "string_getc (Str16 (pre @ utf16_enc c @ post)) (length pre) = (c, length pre + length (utf16_enc c))"
proof (cases "c < 0x10000")
  case True
  then have u: "(ucast (ucast c :: u16) :: u32) = c"
    by (simp add: word_unat_eq_iff word_less_nat_alt unat_ucast_up unat_ucast_small)
  have "\<not> (c \<ge> 0xd800 \<and> c < 0xdc00)"
    using assms by (auto simp: scalar_def word_less_nat_alt word_le_nat_alt)
  with True u show ?thesis by (auto simp: string_getc_def utf16_enc_def Let_def)
next
  case False
  let ?d = "c - 0x10000"
  let ?hi = "ucast (drop_bit 10 ?d + 0xd800) :: u16" and ?lo = "ucast ((?d AND 0x3ff) + 0xdc00) :: u16"
  have c: "unat c < 0x110000" by (rule scalar_lt [OF assms])
  note s = surrogates [OF False c]
  have "(unat c - 0x10000) div 1024 < 1024" using c by (simp add: div_less_iff_less_mult)
  then have r: "(ucast ?hi :: u32) \<ge> 0xd800" "(ucast ?hi :: u32) < 0xdc00"
    "(ucast ?lo :: u32) \<ge> 0xdc00" "(ucast ?lo :: u32) < 0xe000"
    by (simp_all only: word_less_nat_alt word_le_nat_alt unat_ucast_up [where 'a = 16 and 'b = 32, simplified] s) simp_all
  have e: "utf16_enc c = [?hi, ?lo]" using False by (simp add: utf16_enc_def not_less)
  have n: "(pre @ [?hi, ?lo] @ post) ! length pre = ?hi" "(pre @ [?hi, ?lo] @ post) ! (length pre + 1) = ?lo"
    "length pre + 1 < length (pre @ [?hi, ?lo] @ post)"
    by (simp_all add: nth_append)
  show ?thesis
    unfolding e string_getc_def js_string.case Let_def n(1,2) using r n(3) s(3)
    by (simp only: if_True simp_thms) simp
qed

section \<open>Comparison\<close>

text \<open>The first non-zero difference of \<open>memcmp16\<close> and \<open>memcmp16_8\<close> over \<open>n\<close> characters.\<close>

fun memcmp16 :: "u16 list \<Rightarrow> u16 list \<Rightarrow> nat \<Rightarrow> int" where
  "memcmp16 (x # xs) (y # ys) (Suc n) =
     (let c = uint x - uint y in if c \<noteq> 0 then c else memcmp16 xs ys n)"
| "memcmp16 _ _ _ = 0"

fun memcmp16_8 :: "u16 list \<Rightarrow> u8 list \<Rightarrow> nat \<Rightarrow> int" where
  "memcmp16_8 (x # xs) (y # ys) (Suc n) =
     (let c = uint x - uint y in if c \<noteq> 0 then c else memcmp16_8 xs ys n)"
| "memcmp16_8 _ _ _ = 0"

text \<open>The C library's \<open>memcmp\<close>, which promises a sign only.\<close>

fun memcmp8 :: "u8 list \<Rightarrow> u8 list \<Rightarrow> nat \<Rightarrow> int" where
  "memcmp8 (x # xs) (y # ys) (Suc n) =
     (let c = uint x - uint y in if c \<noteq> 0 then sgn c else memcmp8 xs ys n)"
| "memcmp8 _ _ _ = 0"

definition js_string_memcmp :: "js_string \<Rightarrow> js_string \<Rightarrow> nat \<Rightarrow> int" where
  "js_string_memcmp p1 p2 n = (case (p1, p2) of
     (Str8 a, Str8 b) \<Rightarrow> memcmp8 a b n
   | (Str8 a, Str16 b) \<Rightarrow> - memcmp16_8 b a n
   | (Str16 a, Str8 b) \<Rightarrow> memcmp16_8 a b n
   | (Str16 a, Str16 b) \<Rightarrow> memcmp16 a b n)"

definition str_len :: "js_string \<Rightarrow> nat" where
  "str_len p = length (units p)"

definition js_string_compare :: "js_string \<Rightarrow> js_string \<Rightarrow> int" where
  "js_string_compare p1 p2 =
     (let res = js_string_memcmp p1 p2 (min (str_len p1) (str_len p2)) in
      if res = 0 then
        (if str_len p1 = str_len p2 then 0 else if str_len p1 < str_len p2 then - 1 else 1)
      else res)"

text \<open>The specification: the sign of the lexicographic comparison of the UTF-16 units.\<close>

fun units_cmp :: "u16 list \<Rightarrow> u16 list \<Rightarrow> int" where
  "units_cmp [] [] = 0"
| "units_cmp [] (_ # _) = - 1"
| "units_cmp (_ # _) [] = 1"
| "units_cmp (x # xs) (y # ys) = (if x < y then - 1 else if x > y then 1 else units_cmp xs ys)"

lemma units_cmp_Nil: "units_cmp xs [] = (if xs = [] then 0 else 1)" "units_cmp [] ys = (if ys = [] then 0 else - 1)"
  by (cases xs; simp) (cases ys; simp)

lemma sgn_uint_diff: "sgn (uint x - uint y) = (if x < y then - 1 else if x > y then 1 else 0)"
  by (auto simp: word_less_def sgn_if)

lemma uint_u8_u16: "uint (ucast (x :: u8) :: u16) = uint x"
proof -
  have "unat (ucast x :: u16) = unat x" by (simp add: unat_ucast_up)
  then show ?thesis by (metis of_nat_unat)
qed

lemma memcmp16_cmp:
  "memcmp16 xs ys (min (length xs) (length ys)) = r \<Longrightarrow>
   units_cmp xs ys = (if r = 0 then sgn (int (length xs) - int (length ys)) else sgn r)"
  by (induction xs ys arbitrary: r rule: units_cmp.induct)
    (auto simp: Let_def sgn_uint_diff word_less_def split: if_splits)

lemma memcmp16_8_eq: "memcmp16_8 xs ys n = memcmp16 xs (map ucast ys) n"
  by (induction xs ys n rule: memcmp16_8.induct) (auto simp: Let_def uint_u8_u16)

lemma memcmp8_eq: "memcmp8 xs ys n = sgn (memcmp16 (map ucast xs) (map ucast ys) n)"
  by (induction xs ys n rule: memcmp8.induct) (auto simp: Let_def uint_u8_u16)

lemma memcmp16_sym: "memcmp16 xs ys n = - memcmp16 ys xs n"
  by (induction xs ys n rule: memcmp16.induct) (auto simp: Let_def elim: list.exhaust)

lemma compare_units: "sgn (js_string_compare p q) = units_cmp (units p) (units q)"
proof -
  let ?n = "min (str_len p) (str_len q)"
  let ?m = "memcmp16 (units p) (units q) ?n"
  have m: "js_string_memcmp p q ?n = ?m \<or> js_string_memcmp p q ?n = sgn ?m"
    using memcmp16_sym [of "units p" "units q" ?n]
    by (cases p; cases q) (auto simp: js_string_memcmp_def memcmp16_8_eq memcmp8_eq)
  have "units_cmp (units p) (units q) = (if ?m = 0 then sgn (int (str_len p) - int (str_len q)) else sgn ?m)"
    using memcmp16_cmp [of "units p" "units q"] by (simp add: str_len_def)
  with m show ?thesis by (auto simp: js_string_compare_def Let_def sgn_0_0)
qed

section \<open>With memory available the conversions succeed\<close>

text \<open>
  \<open>memory_ok P A\<close>: from a state that satisfies \<open>P\<close> every allocation succeeds, and \<open>P\<close> still holds.
\<close>

definition memory_ok :: "('m \<Rightarrow> bool) \<Rightarrow> 'm alloc \<Rightarrow> bool" where
  "memory_ok P A \<longleftrightarrow> (\<forall>m n. P m \<longrightarrow> (\<exists>m' k. A m n = (m', Some k) \<and> 0 \<le> k \<and> P m'))"

lemma memory_okE:
  assumes "memory_ok P A" "P m"
  obtains m' k where "A m n = (m', Some k)" "0 \<le> k" "P m'"
  using assms unfolding memory_ok_def by blast

lemma memory_okD: "memory_ok P A \<Longrightarrow> P m \<Longrightarrow> P (fst (A m n)) \<and> snd (A m n) \<noteq> None"
  by (erule (1) memory_okE [of P A m n]) simp

lemma alloc_string_ok: "memory_ok P A \<Longrightarrow> P m \<Longrightarrow> \<exists>m'. js_alloc_string A m n w = (m', True) \<and> P m'"
  using memory_okD [of P A m "size_t (sizeof_JSString + (if w then n * 2 else n) + (if w then 0 else 1))"]
  by (auto simp: js_alloc_string_def split: prod.splits)

text \<open>A buffer in a good state, with room for \<open>n\<close> more characters.\<close>

definition sb_room :: "('m \<Rightarrow> bool) \<Rightarrow> 'm strbuf \<Rightarrow> nat \<Rightarrow> bool" where
  "sb_room P s n \<longleftrightarrow> \<not> sb_error s \<and> P (sb_mem s) \<and> sb_len s + int n \<le> sb_cap s"

lemma widen_ok:
  assumes "memory_ok P A" "\<not> sb_error s" "P (sb_mem s)"
  shows "\<exists>s'. string_buffer_widen A s cap = (s', True) \<and> \<not> sb_error s' \<and> P (sb_mem s')
    \<and> sb_units s' = sb_units s \<and> cap \<le> sb_cap s'"
  by (rule memory_okE [OF assms(1,3), of "size_t (sizeof_JSString + cap * 2)"])
    (simp add: string_buffer_widen_def assms(2))

lemma putc16_ok:
  assumes mem: "memory_ok P A" and room: "sb_room P s (Suc n)"
  shows "sb_room P (fst (string_buffer_putc16 A s c)) n"
proof (cases "sb_wide s \<or> c < 0x100")
  case True
  with room show ?thesis by (auto simp: string_buffer_putc16_def sb_room_def sb_store_def sb_len_def)
next
  case False
  have lt: "sb_len s < sb_cap s" using room by (simp add: sb_room_def)
  from widen_ok [OF mem, of s "sb_cap s"] room obtain s' where
    "string_buffer_widen A s (sb_cap s) = (s', True)" "\<not> sb_error s'" "P (sb_mem s')"
    "sb_units s' = sb_units s" "sb_cap s \<le> sb_cap s'" by (auto simp: sb_room_def)
  with False lt room show ?thesis
    by (auto simp: string_buffer_putc16_def string_buffer_putc_slow_def sb_room_def sb_store_def sb_len_def)
qed

lemma putc8_ok: "sb_room P s (Suc n) \<Longrightarrow> sb_room P (fst (string_buffer_putc8 A s c)) n"
  by (auto simp: string_buffer_putc8_def sb_room_def sb_store_def sb_len_def)

lemma sb_room_mono: "sb_room P s n \<Longrightarrow> k \<le> n \<Longrightarrow> sb_room P s k"
  by (simp add: sb_room_def)

lemma new_string_loop_ok:
  assumes mem: "memory_ok P A"
  shows "sb_room P b (length (utf16_of_utf8 p)) \<Longrightarrow> length p < 2 ^ 31 \<Longrightarrow>
    \<not> sb_error (new_string_loop A b p) \<and> P (sb_mem (new_string_loop A b p))"
proof (induction p arbitrary: b rule: measure_induct_rule [of length])
  case (less p)
  show ?case
  proof (cases p)
    case Nil
    then show ?thesis using less.prems by (simp add: sb_room_def)
  next
    case (Cons x q)
    have IH: "sb_room P b' (length (utf16_of_utf8 r)) \<Longrightarrow> length r \<le> length q \<Longrightarrow>
        \<not> sb_error (new_string_loop A b' r) \<and> P (sb_mem (new_string_loop A b' r))" for b' r
      using less.IH [of r b'] less.prems(2) Cons by simp
    have skip: "sb_room P b (Suc (length (utf16_of_utf8 (utf8_resync p)))) \<Longrightarrow>
        \<not> sb_error (new_string_loop A (fst (string_buffer_putc16 A b 0xfffd)) (utf8_resync p))
        \<and> P (sb_mem (new_string_loop A (fst (string_buffer_putc16 A b 0xfffd)) (utf8_resync p)))"
      using IH [OF putc16_ok [OF mem]] length_utf8_resync [of x q] Cons by simp
    show ?thesis
    proof (cases "x < 128")
      case True
      then have "length (utf16_of_utf8 p) = Suc (length (utf16_of_utf8 q))"
        using Cons by (simp add: utf16_of_ascii del: utf16_of_utf8.simps)
      with less.prems(1) have "sb_room P (fst (string_buffer_putc8 A b (ucast x))) (length (utf16_of_utf8 q))"
        by (intro putc8_ok) simp
      from IH [OF this] True Cons show ?thesis by simp
    next
      case False
      show ?thesis
      proof (cases "unicode_from_utf8 (x # q) (int (length (x # q)))")
        case None
        then show ?thesis using skip less.prems False Cons by (simp add: c_int_small)
      next
        case (Some cr)
        obtain c r where cr: "cr = (c, r)" by force
        have len: "length r \<le> length q" using length_unicode_from_utf8 [of "x # q"] Some cr by force
        note dec = Some [unfolded cr]
        consider "c < 0x10000" | "\<not> c < 0x10000" "c \<le> 0x10FFFF" | "\<not> c \<le> 0x10FFFF" by blast
        then show ?thesis
        proof cases
          case 1
          then have "c \<le> 0x10FFFF" by (simp add: word_less_nat_alt word_le_nat_alt)
          then have "sb_room P b (Suc (length (utf16_of_utf8 r)))"
            using less.prems(1) 1 dec Cons by (simp add: utf16_enc_def not_le [symmetric])
          from IH [OF putc16_ok [OF mem this, of c] len] 1 dec False Cons less.prems(2)
          show ?thesis by (simp add: c_int_small)
        next
          case 2
          then have "sb_room P b (Suc (Suc (length (utf16_of_utf8 r))))"
            using less.prems(1) dec Cons by (simp add: utf16_enc_def not_less)
          from IH [OF putc16_ok [OF mem putc16_ok [OF mem this]] len] 2 dec False Cons less.prems(2)
          show ?thesis by (simp add: c_int_small Let_def)
        next
          case 3
          then have "\<not> c < 0x10000" by (simp add: word_less_nat_alt word_le_nat_alt)
          with 3 skip dec False Cons less.prems show ?thesis by (simp add: c_int_small)
        qed
      qed
    qed
  qed
qed

lemma utf16_prefix_length:
  "length (takeWhile (\<lambda>x. x < 128) p) + length (utf16_of_utf8 (dropWhile (\<lambda>x. x < 128) p)) = length (utf16_of_utf8 p)"
  using arg_cong [OF utf16_of_ascii_prefix [of p], of length] by (simp only: length_append length_map)

lemma end_ok:
  assumes "memory_ok P A" "\<not> sb_error s" "P (sb_mem s)"
  shows "\<exists>m' str. string_buffer_end A s = (m', Some str) \<and> P m'"
  using assms memory_okD [OF assms(1,3)] by (auto simp: string_buffer_end_def)

lemma new_string_Some:
  assumes mem: "memory_ok P A" and m: "P m" and len: "length buf < 2 ^ 30"
  shows "\<exists>m' str. JS_NewStringLen A m buf = (m', Some str) \<and> P m'"
proof -
  let ?a = "takeWhile (\<lambda>x. x < 128) buf" and ?p = "dropWhile (\<lambda>x. x < 128) buf"
  have ascii: "\<not> int (length ?a) > JS_STRING_LEN_MAX"
    using length_takeWhile_le [of "\<lambda>x. x < 128" buf] len by (simp add: JS_STRING_LEN_MAX_def)
  have c: "c_int (length buf) = int (length buf)" using len by (intro c_int_small) simp
  show ?thesis
  proof (cases "?p = []")
    case True
    with ascii m show ?thesis
      using alloc_string_ok [OF mem m, of "c_int (length buf)" False]
      by (auto simp: JS_NewStringLen_def Let_def)
  next
    case False
    obtain m1 where m1: "js_alloc_string A m (int (length buf)) False = (m1, True)" "P m1"
      using alloc_string_ok [OF mem m] by blast
    let ?b = "\<lparr>sb_mem = m1, sb_units = [], sb_cap = int (length buf), sb_wide = False, sb_error = False\<rparr>"
    let ?w = "fst (string_buffer_write8 A ?b ?a)"
    have "length ?a + length (utf16_of_utf8 ?p) \<le> length buf"
      using length_utf16_of_utf8 [of buf] by (simp only: utf16_prefix_length)
    then have "sb_room P ?w (length (utf16_of_utf8 ?p))"
      using m1(2) length_takeWhile_le [of "\<lambda>x. x < 128" buf]
      by (auto simp: sb_room_def string_buffer_write8_def sb_len_def)
    moreover have "length ?p < 2 ^ 31"
      by (rule le_less_trans [OF length_dropWhile_le]) (use len in simp)
    ultimately have "\<not> sb_error (new_string_loop A ?w ?p) \<and> P (sb_mem (new_string_loop A ?w ?p))"
      by (rule new_string_loop_ok [OF mem])
    with end_ok [OF mem] obtain m' str where
      "string_buffer_end A (new_string_loop A ?w ?p) = (m', Some str)" "P m'" by blast
    then show ?thesis using False ascii m1(1) c
      by (auto simp: JS_NewStringLen_def Let_def string_buffer_init_def string_buffer_init2_def)
  qed
qed

lemma to_cstring_Some:
  "memory_ok P A \<Longrightarrow> P m \<Longrightarrow>
    \<exists>m'. JS_ToCStringLen2 A m str cesu8 = (m', Some (to_utf8_loop cesu8 (units str))) \<and> P m'"
proof -
  assume mem: "memory_ok P A" "P m"
  note alloc = alloc_string_ok [OF mem]
  show ?thesis
  proof (cases str)
    case (Str8 src)
    show ?thesis
      using alloc [of "int (length src) + int (length (filter (\<lambda>c. drop_bit 7 c = 1) src))" False] mem(2)
      by (auto simp: Str8 JS_ToCStringLen2_def Let_def narrow_is_wide [symmetric] narrow_ascii)
  next
    case (Str16 src)
    show ?thesis
      using alloc [of "sint (word_of_int (int (length src) * 3) :: s32)" False]
      by (auto simp: Str16 JS_ToCStringLen2_def)
  qed
qed

context allocator
begin

lemma JS_NewStringLen_ok:
  "memory_ok P A \<Longrightarrow> P m \<Longrightarrow> length buf < 2 ^ 30 \<Longrightarrow>
    \<exists>m' str. JS_NewStringLen A m buf = (m', Some str) \<and> P m' \<and> units str = utf16_of_utf8 buf"
  using new_string_Some [of P A m buf] new_string_units [of buf m] by fastforce

end

end
