(* ===== verification/Float64.thy ===== *)
theory Float64
  imports Bridge_Prelude
begin

text \<open>
  Doubles as their 64 bits: classification, exact value, comparison, the C casts between
  \<open>double\<close> and the integer types, and the number conversions of quickjs.c and quickjs.h that
  work on the bits (\<open>JS_ToInt32Free\<close>, \<open>JS_ToInt64Free\<close>, \<open>JS_ToInt64SatFree\<close>, \<open>JS_NewFloat64\<close>).
\<close>

section \<open>The value of a double\<close>

definition f64_neg :: "u64 \<Rightarrow> bool" where
  "f64_neg d \<longleftrightarrow> bit d 63"

definition f64_exp :: "u64 \<Rightarrow> nat" where
  "f64_exp d = unat (drop_bit 52 d AND 0x7ff)"

definition f64_frac :: "u64 \<Rightarrow> nat" where
  "f64_frac d = unat (d AND 0xfffffffffffff)"

definition f64_nan :: "u64 \<Rightarrow> bool" where
  "f64_nan d \<longleftrightarrow> f64_exp d = 2047 \<and> f64_frac d \<noteq> 0"

definition f64_finite :: "u64 \<Rightarrow> bool" where
  "f64_finite d \<longleftrightarrow> f64_exp d \<noteq> 2047"

text \<open>
  The magnitude of a double times \<open>2 ^ 1074\<close>, as an integer. The encoding of the infinities
  falls above every finite magnitude, so comparing these integers compares all but NaNs.
\<close>

definition mag :: "nat \<Rightarrow> nat \<Rightarrow> nat" where
  "mag e f = (if e = 0 then f else (2 ^ 52 + f) * 2 ^ (e - 1))"

definition f64_scaled :: "u64 \<Rightarrow> int" where
  "f64_scaled d = (let m = int (mag (f64_exp d) (f64_frac d)) in if f64_neg d then - m else m)"

definition f64_one :: int where
  "f64_one = 2 ^ 1074"

definition f64_eq :: "u64 \<Rightarrow> u64 \<Rightarrow> bool" where
  "f64_eq a b \<longleftrightarrow> \<not> f64_nan a \<and> \<not> f64_nan b \<and> f64_scaled a = f64_scaled b"

definition f64_ge_int :: "u64 \<Rightarrow> int \<Rightarrow> bool" where
  "f64_ge_int d n \<longleftrightarrow> \<not> f64_nan d \<and> f64_scaled d \<ge> n * f64_one"

definition f64_le_int :: "u64 \<Rightarrow> int \<Rightarrow> bool" where
  "f64_le_int d n \<longleftrightarrow> \<not> f64_nan d \<and> f64_scaled d \<le> n * f64_one"

text \<open>Truncation toward zero.\<close>

definition f64_trunc :: "u64 \<Rightarrow> int" where
  "f64_trunc d = (let m = int (mag (f64_exp d) (f64_frac d)) div f64_one in if f64_neg d then - m else m)"

text \<open>
  The casts \<open>(int64_t)d\<close> and \<open>(int32_t)d\<close>. C leaves them undefined for NaN and out of range; \<open>oob\<close>
  is what the machine then yields.
\<close>

definition f64_to_int :: "nat \<Rightarrow> (u64 \<Rightarrow> int) \<Rightarrow> u64 \<Rightarrow> int" where
  "f64_to_int w oob d =
    (if f64_finite d \<and> - (2 ^ (w - 1)) \<le> f64_trunc d \<and> f64_trunc d < 2 ^ (w - 1) then f64_trunc d else oob d)"

section \<open>From integers\<close>

fun ilog2 :: "nat \<Rightarrow> nat" where
  "ilog2 n = (if n < 2 then 0 else Suc (ilog2 (n div 2)))"

declare ilog2.simps [simp del]

text \<open>
  \<open>(double)n\<close> for a non-zero magnitude: 53 significant bits, ties to even; a carry out of the
  significand moves into the exponent field.
\<close>

definition f64_mag_bits :: "nat \<Rightarrow> nat" where
  "f64_mag_bits m = (let e = ilog2 m in
     if e \<le> 52 then (1023 + e) * 2 ^ 52 + (m * 2 ^ (52 - e) - 2 ^ 52)
     else let q = m div 2 ^ (e - 52); r = m mod 2 ^ (e - 52); half = 2 ^ (e - 53);
              up = (if r > half \<or> (r = half \<and> odd q) then 1 else 0)
          in (1023 + e) * 2 ^ 52 + (q + up - 2 ^ 52))"

definition f64_of_int :: "int \<Rightarrow> u64" where
  "f64_of_int n = (if n = 0 then 0
     else of_nat (f64_mag_bits (nat \<bar>n\<bar>) + (if n < 0 then 2 ^ 63 else 0)))"

lemma ilog2_bounds: "0 < n \<Longrightarrow> 2 ^ ilog2 n \<le> n \<and> n < 2 ^ Suc (ilog2 n)"
proof (induction n rule: ilog2.induct)
  case (1 n)
  show ?case
  proof (cases "n < 2")
    case True
    with 1(2) show ?thesis by (simp add: ilog2.simps)
  next
    case False
    with 1 have "2 ^ ilog2 (n div 2) \<le> n div 2" "n div 2 < 2 ^ Suc (ilog2 (n div 2))" by simp_all
    with False show ?thesis by (subst (1 2) ilog2.simps) (simp add: less_mult_imp_div_less, linarith)
  qed
qed

lemma ilog2_le: "0 < n \<Longrightarrow> n < 2 ^ Suc k \<Longrightarrow> ilog2 n \<le> k"
  using ilog2_bounds [of n] power_less_imp_less_exp [of "2 :: nat" "ilog2 n" "Suc k"]
  by (simp add: le_less_trans less_Suc_eq_le)

text \<open>The bit fields of an assembled double.\<close>

lemma and_mask_52: "d AND 0xfffffffffffff = take_bit 52 (d :: u64)"
  by (simp add: take_bit_eq_mask mask_eq_exp_minus_1)

lemma and_mask_11: "d AND 0x7ff = take_bit 11 (d :: u64)"
  by (simp add: take_bit_eq_mask mask_eq_exp_minus_1)

lemma f64_exp_unat: "f64_exp d = unat d div 2 ^ 52 mod 2048"
  by (simp add: f64_exp_def and_mask_11 unsigned_take_bit_eq unat_drop_bit take_bit_nat_def)

lemma f64_frac_unat: "f64_frac d = unat d mod 2 ^ 52"
  by (simp add: f64_frac_def and_mask_52 unsigned_take_bit_eq take_bit_nat_def)

lemma f64_neg_unat: "f64_neg d \<longleftrightarrow> 2 ^ 63 \<le> unat d"
proof -
  have "unat d < 2 ^ LENGTH(64)" by (rule unsigned_less)
  moreover have "bit d 63 = bit (unat d) 63" by (simp add: bit_unsigned_iff)
  then have "bit d 63 = odd (unat d div 2 ^ 63)" by (simp only: bit_iff_odd)
  ultimately show ?thesis
    using div_less_iff_less_mult [of "2 ^ 63" "unat d" 2]
    by (cases "unat d < 2 ^ 63") (auto simp: f64_neg_def not_less div_eq_0_iff dest: le_imp_less_Suc)
qed

lemma fields:
  assumes "e < 2048" "f < 2 ^ 52"
  shows "f64_exp (of_nat (e * 2 ^ 52 + f + (if neg then 2 ^ 63 else 0))) = e"
    "f64_frac (of_nat (e * 2 ^ 52 + f + (if neg then 2 ^ 63 else 0))) = f"
    "f64_neg (of_nat (e * 2 ^ 52 + f + (if neg then 2 ^ 63 else 0))) = neg"
proof -
  let ?s = "(if neg then 2 ^ 63 else 0) :: nat"
  let ?n = "e * 2 ^ 52 + f + ?s"
  have ef: "e * 2 ^ 52 + f < 2 ^ 63"
  proof -
    have "e * 2 ^ 52 + f < (e + 1) * 2 ^ 52" using assms(2) by simp
    also have "\<dots> \<le> 2048 * 2 ^ 52" using assms(1) by (intro mult_le_mono1) simp
    finally show ?thesis by simp
  qed
  then have "?n < 2 ^ 64" by auto
  then have u: "unat (of_nat ?n :: u64) = ?n"
    by (intro unat_of_nat_small) simp
  have s: "?s = (if neg then 2048 else 0) * 2 ^ 52" by simp
  have d: "?n div 2 ^ 52 = e + (if neg then 2048 else 0)"
    unfolding s using assms(2) by simp
  show "f64_exp (of_nat ?n) = e" unfolding f64_exp_unat u d using assms(1) by simp
  have n: "?n = f + (e + (if neg then 2048 else 0)) * 2 ^ 52" by (simp add: add_mult_distrib)
  have "?n mod 2 ^ 52 = f mod 2 ^ 52" unfolding n by (rule mod_mult_self1)
  then show "f64_frac (of_nat ?n) = f" unfolding f64_frac_unat u using assms(2) by simp
  show "f64_neg (of_nat ?n) = neg" unfolding f64_neg_unat u using ef by auto
qed

lemma of_int_fields:
  assumes "n \<noteq> 0" "\<bar>n\<bar> < 2 ^ 53"
  defines "e \<equiv> ilog2 (nat \<bar>n\<bar>)"
  shows "f64_exp (f64_of_int n) = 1023 + e" "f64_frac (f64_of_int n) = nat \<bar>n\<bar> * 2 ^ (52 - e) - 2 ^ 52"
    "f64_neg (f64_of_int n) = (n < 0)" "e \<le> 52" "2 ^ 52 \<le> nat \<bar>n\<bar> * 2 ^ (52 - e)"
proof -
  let ?m = "nat \<bar>n\<bar>"
  have m: "0 < ?m" "?m < 2 ^ 53" using assms(1,2) by auto
  show e: "e \<le> 52" unfolding e_def by (rule ilog2_le) (use m in simp_all)
  have "2 ^ e \<le> ?m" "?m < 2 ^ Suc e" using ilog2_bounds [OF m(1)] by (auto simp: e_def)
  then have "2 ^ e * 2 ^ (52 - e) \<le> ?m * 2 ^ (52 - e)" "?m * 2 ^ (52 - e) < 2 ^ Suc e * 2 ^ (52 - e)"
    by simp_all
  moreover have pw: "2 ^ e * 2 ^ (52 - e) = (2 ^ 52 :: nat)" "2 ^ Suc e * 2 ^ (52 - e) = (2 ^ 53 :: nat)"
    using e by (simp_all only: power_add [symmetric]) simp_all
  ultimately have b: "2 ^ 52 \<le> ?m * 2 ^ (52 - e)" "?m * 2 ^ (52 - e) < 2 ^ 53"
    unfolding pw by simp_all
  then show "2 ^ 52 \<le> ?m * 2 ^ (52 - e)" by simp
  let ?f = "?m * 2 ^ (52 - e) - 2 ^ 52"
  have f: "?f < 2 ^ 52" using b by (simp add: less_diff_conv2)
  have e2: "1023 + e < 2048" using e by simp
  have eq: "f64_of_int n = of_nat ((1023 + e) * 2 ^ 52 + ?f + (if n < 0 then 2 ^ 63 else 0))"
    using assms(1) e by (simp add: f64_of_int_def f64_mag_bits_def e_def Let_def)
  show "f64_exp (f64_of_int n) = 1023 + e" "f64_frac (f64_of_int n) = ?f" "f64_neg (f64_of_int n) = (n < 0)"
    unfolding eq by (rule fields [OF e2 f])+
qed

lemma f64_of_int_exact:
  assumes "\<bar>n\<bar> < 2 ^ 53"
  shows "f64_scaled (f64_of_int n) = n * f64_one" "f64_finite (f64_of_int n)"
proof -
  show "f64_finite (f64_of_int n)"
    using of_int_fields [OF _ assms] by (cases "n = 0") (auto simp: f64_finite_def f64_of_int_def f64_exp_unat)
  show "f64_scaled (f64_of_int n) = n * f64_one"
  proof (cases "n = 0")
    case True
    then show ?thesis by (simp add: f64_of_int_def f64_scaled_def f64_exp_unat f64_frac_unat mag_def)
  next
    case False
    define e where "e = ilog2 (nat \<bar>n\<bar>)"
    note f = of_int_fields [OF False assms, folded e_def]
    have "mag (1023 + e) (nat \<bar>n\<bar> * 2 ^ (52 - e) - 2 ^ 52) = nat \<bar>n\<bar> * (2 ^ (52 - e) * 2 ^ (1022 + e))"
      using f(5) by (simp add: mag_def)
    also have "2 ^ (52 - e) * 2 ^ (1022 + e) = (2 ^ 1074 :: nat)"
      using f(4) by (simp add: power_add [symmetric] del: power_Suc)
    finally have "int (mag (1023 + e) (nat \<bar>n\<bar> * 2 ^ (52 - e) - 2 ^ 52)) = \<bar>n\<bar> * f64_one"
      by (simp add: f64_one_def)
    then show ?thesis by (simp add: f64_scaled_def f f64_one_def Let_def split: if_splits)
  qed
qed

lemma f64_one_pos: "0 < f64_one"
  by (simp add: f64_one_def)

lemma trunc_scaled: "f64_trunc d = sgn (f64_scaled d) * (\<bar>f64_scaled d\<bar> div f64_one)"
  by (auto simp: f64_trunc_def f64_scaled_def Let_def sgn_if)

lemma trunc_exact: "f64_scaled d = n * f64_one \<Longrightarrow> f64_trunc d = n"
  using f64_one_pos by (simp add: trunc_scaled abs_mult sgn_mult mult.commute)
    (simp add: abs_mult_sgn)

section \<open>The double is determined by its value\<close>

definition mag_bits :: "nat \<Rightarrow> nat" where
  "mag_bits b = mag (b div 2 ^ 52) (b mod 2 ^ 52)"

lemma mag_carry:
  assumes "Suc f = 2 ^ 52"
  shows "mag e f < mag (Suc e) 0"
proof (cases e)
  case 0
  then show ?thesis using assms by (simp add: mag_def)
next
  case (Suc k)
  have "(2 ^ 52 + f) * 2 ^ k < 2 ^ 53 * 2 ^ k" using assms by simp
  then show ?thesis by (simp add: mag_def Suc)
qed

lemma mag_bits_Suc: "mag_bits b < mag_bits (Suc b)"
proof (cases "Suc (b mod 2 ^ 52) = 2 ^ 52")
  case True
  then have "Suc b div 2 ^ 52 = Suc (b div 2 ^ 52)" "Suc b mod 2 ^ 52 = 0"
    by (simp_all add: div_Suc mod_Suc)
  then show ?thesis using mag_carry [OF True] by (simp add: mag_bits_def del: power_numeral)
next
  case False
  then have "Suc b div 2 ^ 52 = b div 2 ^ 52" "Suc b mod 2 ^ 52 = Suc (b mod 2 ^ 52)"
    by (simp_all add: div_Suc mod_Suc)
  then show ?thesis by (simp add: mag_bits_def mag_def del: power_numeral)
qed

lemma mag_bits_inj: "mag_bits a = mag_bits b \<longleftrightarrow> a = b"
  by (rule strict_mono_eq) (simp add: strict_mono_Suc_iff mag_bits_Suc)

lemma mag_bits_unat: "mag (f64_exp d) (f64_frac d) = mag_bits (unat d mod 2 ^ 63)"
proof -
  have "unat d mod 2 ^ 63 div 2 ^ 52 = unat d div 2 ^ 52 mod 2048"
    using drop_bit_take_bit [of 52 63 "unat d"] by (simp add: drop_bit_eq_div take_bit_eq_mod)
  moreover have "unat d mod 2 ^ 63 mod 2 ^ 52 = unat d mod 2 ^ 52"
    by (rule mod_mod_cancel) simp
  ultimately show ?thesis unfolding mag_bits_def f64_exp_unat f64_frac_unat by (simp only:)
qed

lemma scaled_zero: "f64_scaled d = 0 \<longleftrightarrow> unat d mod 2 ^ 63 = 0"
  using mag_bits_inj [of "unat d mod 2 ^ 63" 0]
  by (simp add: f64_scaled_def Let_def mag_bits_unat) (simp add: mag_bits_def mag_def)

text \<open>Two doubles of the same non-zero value have the same bits.\<close>

lemma scaled_inj:
  assumes "f64_scaled a = f64_scaled b" "f64_scaled a \<noteq> 0"
  shows "a = b"
proof -
  have neg: "f64_neg a = f64_neg b"
    using assms by (auto simp: f64_scaled_def Let_def split: if_splits)
  with assms have "mag_bits (unat a mod 2 ^ 63) = mag_bits (unat b mod 2 ^ 63)"
    by (auto simp: f64_scaled_def Let_def mag_bits_unat split: if_splits)
  then have m: "unat a mod 2 ^ 63 = unat b mod 2 ^ 63" by (simp only: mag_bits_inj)
  have split: "unat d = unat d mod 2 ^ 63 + (if f64_neg d then 2 ^ 63 else 0)" for d :: u64
  proof -
    have "unat d < 2 ^ LENGTH(64)" by (rule unsigned_less)
    then show ?thesis using mod_if [of "unat d - 2 ^ 63" "2 ^ 63"]
      by (auto simp: f64_neg_unat le_mod_geq not_le)
  qed
  show "a = b" unfolding word_unat_eq_iff using split [of a] split [of b] neg m by simp
qed

section \<open>Number conversions of the engine\<close>

text \<open>
  \<open>JS_NewFloat64\<close>: the small integer whose double has exactly these bits, if there is one
  (\<open>JS_TAG_INT\<close>), and \<open>None\<close> for \<open>JS_TAG_FLOAT64\<close>.
\<close>

definition new_float64 :: "(u64 \<Rightarrow> int) \<Rightarrow> u64 \<Rightarrow> s32 option" where
  "new_float64 oob d = (let val = sint (word_of_int (f64_to_int 32 oob d) :: s32) in
     if d = f64_of_int val then Some (word_of_int val) else None)"

text \<open>
  The float case of \<open>js_value_to_erl\<close>: \<open>d == (double)(long)d\<close> within the range of \<open>int\<close>; the
  result is \<open>(int)d\<close>, or \<open>None\<close> for the double itself.
\<close>

definition whole_int :: "(u64 \<Rightarrow> int) \<Rightarrow> u64 \<Rightarrow> s32 option" where
  "whole_int oob d =
    (if f64_eq d (f64_of_int (sint (word_of_int (f64_to_int 64 oob d) :: s64)))
        \<and> f64_ge_int d (- 2147483648) \<and> f64_le_int d 2147483647
     then Some (word_of_int (f64_to_int 32 oob d)) else None)"

text \<open>The \<open>JS_TAG_FLOAT64\<close> cases of \<open>JS_ToInt32Free\<close>, \<open>JS_ToInt64Free\<close> and \<open>JS_ToInt64SatFree\<close>.\<close>

definition float_to_int32 :: "(u64 \<Rightarrow> int) \<Rightarrow> u64 \<Rightarrow> s32" where
  "float_to_int32 oob d = (let e = f64_exp d in
     if e \<le> 1023 + 30 then word_of_int (f64_to_int 32 oob d)
     else if e \<le> 1023 + 30 + 53 then
       (let v = (d AND 0xfffffffffffff) OR push_bit 52 1;
            v = push_bit (nat (int e - 1023 - 52 + 32)) v;
            ret = ucast (drop_bit 32 v) in
        if bit d 63 then - ret else ret)
     else 0)"

definition float_to_int64 :: "(u64 \<Rightarrow> int) \<Rightarrow> u64 \<Rightarrow> s64" where
  "float_to_int64 oob d = (let e = f64_exp d in
     if e \<le> 1023 + 62 then word_of_int (f64_to_int 64 oob d)
     else if e \<le> 1023 + 62 + 53 then
       (let v = (d AND 0xfffffffffffff) OR push_bit 52 1;
            ret = push_bit (nat (int e - 1023 - 52)) v in
        if bit d 63 then - ret else ret)
     else 0)"

text \<open>The comparisons with \<open>INT64_MIN\<close> and \<open>INT64_MAX\<close> are made on doubles: the latter is \<open>2 ^ 63\<close>.\<close>

definition float_to_int64_sat :: "(u64 \<Rightarrow> int) \<Rightarrow> u64 \<Rightarrow> s64" where
  "float_to_int64_sat oob d =
    (if f64_nan d then 0
     else if \<not> f64_ge_int d (- (2 ^ 63)) then word_of_int (- (2 ^ 63))
     else if \<not> f64_le_int d (2 ^ 63) then word_of_int (2 ^ 63 - 1)
     else word_of_int (f64_to_int 64 oob d))"

lemma trunc_mag: "\<bar>f64_trunc d\<bar> = int (mag (f64_exp d) (f64_frac d) div 2 ^ 1074)"
proof -
  have one: "f64_one = int (2 ^ 1074)" by (simp add: f64_one_def)
  show ?thesis unfolding f64_trunc_def Let_def one zdiv_int [symmetric] by simp
qed

lemma f64_frac_lt: "f64_frac d < 2 ^ 52"
  by (simp add: f64_frac_unat)

lemma trunc_small:
  assumes "f64_exp d \<le> 1022 + k"
  shows "\<bar>f64_trunc d\<bar> < 2 ^ k"
proof -
  let ?e = "f64_exp d" and ?f = "f64_frac d"
  have "mag ?e ?f < 2 ^ (k + 1074)"
  proof (cases "?e = 0")
    case True
    have "(2 :: nat) ^ 52 \<le> 2 ^ (k + 1074)" by (rule power_increasing) simp_all
    with f64_frac_lt [of d] have "?f < 2 ^ (k + 1074)" by (rule less_le_trans)
    then show ?thesis using True by (simp only: mag_def simp_thms if_True)
  next
    case False
    have "(2 ^ 52 + ?f) * 2 ^ (?e - 1) < 2 ^ 53 * 2 ^ (?e - 1)" using f64_frac_lt [of d] by simp
    also have "\<dots> = (2 :: nat) ^ (53 + (?e - 1))" by (simp only: power_add)
    also have "\<dots> \<le> 2 ^ (k + 1074)" using assms False by (intro power_increasing) auto
    finally show ?thesis using False by (simp only: mag_def if_False)
  qed
  then have "mag ?e ?f div 2 ^ 1074 < 2 ^ k"
    by (intro less_mult_imp_div_less) (simp only: power_add [symmetric])
  then have "int (mag ?e ?f div 2 ^ 1074) < int (2 ^ k)" by (simp only: of_nat_less_iff)
  then show ?thesis by (simp only: trunc_mag of_nat_power of_nat_numeral)
qed

lemma trunc_sign: "f64_trunc d = (if f64_neg d then - \<bar>f64_trunc d\<bar> else \<bar>f64_trunc d\<bar>)"
  using f64_one_pos by (auto simp: f64_trunc_def Let_def pos_imp_zdiv_nonneg_iff)

text \<open>Above \<open>2 ^ 52\<close> the truncation is the significand shifted left.\<close>

lemma trunc_large:
  assumes "1075 \<le> f64_exp d"
  shows "\<bar>f64_trunc d\<bar> = int ((2 ^ 52 + f64_frac d) * 2 ^ (f64_exp d - 1075))"
proof -
  have "f64_exp d - 1 = (f64_exp d - 1075) + 1074" using assms by simp
  then have "mag (f64_exp d) (f64_frac d) = (2 ^ 52 + f64_frac d) * 2 ^ (f64_exp d - 1075) * 2 ^ 1074"
    using assms by (simp only: mag_def power_add mult.assoc) simp
  then show ?thesis unfolding trunc_mag by (simp only: nonzero_mult_div_cancel_right power_not_zero) simp
qed

lemma to_int_in_range:
  assumes "f64_exp d \<le> 1022 + k" "k < 1025" "k < w"
  shows "f64_to_int w oob d = f64_trunc d"
proof -
  have "(2 :: int) ^ k \<le> 2 ^ (w - 1)" using assms(3) by (intro power_increasing) auto
  with trunc_small [OF assms(1)] have "\<bar>f64_trunc d\<bar> < 2 ^ (w - 1)" by (rule less_le_trans)
  then have "- (2 ^ (w - 1)) \<le> f64_trunc d" "f64_trunc d < 2 ^ (w - 1)" by linarith+
  then show ?thesis using assms(1,2) by (simp add: f64_to_int_def f64_finite_def)
qed

lemma significand:
  "unat ((d AND 0xfffffffffffff) OR push_bit 52 1 :: u64) = 2 ^ 52 + f64_frac d"
proof -
  have "unat (push_bit 52 1 :: u64) = 1 * 2 ^ 52" by (simp add: push_bit_eq_mult)
  moreover have "unat (d AND 0xfffffffffffff) < 2 ^ 52" using f64_frac_lt [of d] by (simp add: f64_frac_def)
  ultimately show ?thesis by (subst unat_or_tag [where n = 52 and m = 1]) (simp_all add: f64_frac_def)
qed

lemma ucast_of_nat: "ucast w = (of_nat (unat w) :: 'b :: len word)"
  by (simp add: word_unat_eq_iff unat_ucast_mod unsigned_of_nat take_bit_nat_def)

lemma signed_word: "(if b then - of_nat x else of_nat x) = word_of_int (if b then - int x else int x)"
  by simp

lemma trunc_signed: "\<bar>f64_trunc d\<bar> = int x \<Longrightarrow> word_of_int (f64_trunc d) = (if f64_neg d then - of_nat x else of_nat x)"
  using trunc_sign [of d] by (metis signed_word)

text \<open>The shift by \<open>e - 1043\<close> and back by 32 is the truncation, when the exponent is in between.\<close>

lemma trunc_shift:
  assumes "1043 \<le> f64_exp d"
  shows "\<bar>f64_trunc d\<bar> = int ((2 ^ 52 + f64_frac d) * 2 ^ (f64_exp d - 1043) div 2 ^ 32)"
proof -
  let ?M = "2 ^ 52 + f64_frac d" and ?s = "f64_exp d - 1043"
  have "f64_exp d - 1 = ?s + 1042" using assms by simp
  then have m: "mag (f64_exp d) (f64_frac d) = ?M * 2 ^ ?s * 2 ^ 1042"
    using assms by (simp only: mag_def power_add mult.assoc) simp
  have p: "(2 :: nat) ^ 1074 = 2 ^ 32 * 2 ^ 1042" by (simp only: power_add [symmetric]) simp
  show ?thesis unfolding trunc_mag m p by (subst div_mult_mult2) simp_all
qed

lemma unat_push_bit: "unat (push_bit k v :: u64) = unat v * 2 ^ k mod 2 ^ 64"
proof -
  have "unat (push_bit k v) = take_bit LENGTH(64) (push_bit k (unat v))" by (rule unsigned_push_bit_eq)
  then show ?thesis by (simp only: take_bit_eq_mod push_bit_eq_mult) simp
qed

text \<open>\<open>ToInt32\<close> of ECMAScript: truncation modulo \<open>2 ^ 32\<close>, zero for NaN and the infinities.\<close>

lemma float_to_int32_spec:
  "float_to_int32 oob d = (if f64_finite d then word_of_int (f64_trunc d) else 0)"
proof -
  let ?e = "f64_exp d" and ?M = "2 ^ 52 + f64_frac d"
  consider "?e \<le> 1053" | "1053 < ?e" "?e \<le> 1106" | "1106 < ?e" by linarith
  then show ?thesis
  proof cases
    case 1
    then have "f64_to_int 32 oob d = f64_trunc d" by (intro to_int_in_range [of _ 31]) simp_all
    with 1 show ?thesis by (simp add: float_to_int32_def f64_finite_def)
  next
    case 2
    let ?v = "push_bit (nat (int ?e - 1023 - 52 + 32)) ((d AND 0xfffffffffffff) OR push_bit 52 1)"
    have s: "nat (int ?e - 1023 - 52 + 32) = ?e - 1043" by simp
    have "unat (drop_bit 32 ?v) = ?M * 2 ^ (?e - 1043) mod 2 ^ 64 div 2 ^ 32"
      unfolding s by (simp only: unat_drop_bit unat_push_bit significand)
    also have "\<dots> = ?M * 2 ^ (?e - 1043) div 2 ^ 32 mod 2 ^ 32"
      using drop_bit_take_bit [of 32 64 "?M * 2 ^ (?e - 1043)"]
      by (simp only: drop_bit_eq_div take_bit_eq_mod) simp
    finally have v: "(ucast (drop_bit 32 ?v) :: s32) = of_nat (?M * 2 ^ (?e - 1043) div 2 ^ 32)"
      unfolding ucast_of_nat by (simp only: word_unat_eq_iff unsigned_of_nat take_bit_eq_mod) simp
    have "float_to_int32 oob d = (if f64_neg d then - ucast (drop_bit 32 ?v) else ucast (drop_bit 32 ?v))"
      using 2 by (simp only: float_to_int32_def Let_def f64_neg_def) simp
    moreover have "word_of_int (f64_trunc d) = (if f64_neg d then - ucast (drop_bit 32 ?v) else ucast (drop_bit 32 ?v) :: s32)"
      unfolding v by (rule trunc_signed, rule trunc_shift) (use 2 in simp)
    ultimately show ?thesis using 2 by (simp only: f64_finite_def) simp
  next
    case 3
    then have "?e - 1075 = (?e - 1107) + 32" by simp
    then have "\<bar>f64_trunc d\<bar> = int (?M * 2 ^ (?e - 1107) * 2 ^ 32)"
      using trunc_large [of d] 3 by (simp only: power_add mult.assoc)
    moreover have "(of_nat (?M * 2 ^ (?e - 1107) * 2 ^ 32) :: s32) = 0"
      by (simp only: word_unat_eq_iff unsigned_of_nat take_bit_eq_mod) simp
    ultimately have "word_of_int (f64_trunc d) = (0 :: s32)"
      by (simp only: trunc_signed) simp
    with 3 show ?thesis by (simp add: float_to_int32_def Let_def)
  qed
qed

lemma float_to_int64_spec:
  "float_to_int64 oob d = (if f64_finite d then word_of_int (f64_trunc d) else 0)"
proof -
  let ?e = "f64_exp d" and ?M = "2 ^ 52 + f64_frac d"
  consider "?e \<le> 1085" | "1085 < ?e" "?e \<le> 1138" | "1138 < ?e" by linarith
  then show ?thesis
  proof cases
    case 1
    then have "f64_to_int 64 oob d = f64_trunc d" by (intro to_int_in_range [of _ 63]) simp_all
    with 1 show ?thesis by (simp add: float_to_int64_def f64_finite_def)
  next
    case 2
    let ?v = "push_bit (nat (int ?e - 1023 - 52)) ((d AND 0xfffffffffffff) OR push_bit 52 1)"
    have s: "nat (int ?e - 1023 - 52) = ?e - 1075" by simp
    have "unat ?v = ?M * 2 ^ (?e - 1075) mod 2 ^ 64"
      unfolding s by (simp only: unat_push_bit significand)
    then have v: "?v = of_nat (?M * 2 ^ (?e - 1075))"
      by (simp only: word_unat_eq_iff unsigned_of_nat take_bit_eq_mod) simp
    have "float_to_int64 oob d = (if f64_neg d then - ?v else ?v)"
      using 2 by (simp only: float_to_int64_def Let_def f64_neg_def) simp
    moreover have "word_of_int (f64_trunc d) = (if f64_neg d then - ?v else ?v)"
      unfolding v by (rule trunc_signed, rule trunc_large) (use 2 in simp)
    ultimately show ?thesis using 2 by (simp only: f64_finite_def) simp
  next
    case 3
    then have "?e - 1075 = (?e - 1139) + 64" by simp
    then have "\<bar>f64_trunc d\<bar> = int (?M * 2 ^ (?e - 1139) * 2 ^ 64)"
      using trunc_large [of d] 3 by (simp only: power_add mult.assoc)
    moreover have "(of_nat (?M * 2 ^ (?e - 1139) * 2 ^ 64) :: s64) = 0"
      by (simp only: word_unat_eq_iff unsigned_of_nat take_bit_eq_mod) simp
    ultimately have "word_of_int (f64_trunc d) = (0 :: s64)"
      by (simp only: trunc_signed) simp
    with 3 show ?thesis by (simp add: float_to_int64_def Let_def)
  qed
qed

lemma sint_word_of_int_small:
  "- (2 ^ (LENGTH('a) - 1)) \<le> n \<Longrightarrow> n < 2 ^ (LENGTH('a) - 1) \<Longrightarrow> sint (word_of_int n :: 'a :: len word) = n"
  by (simp add: signed_of_int signed_take_bit_int_eq_self)

lemma scaled_le_trunc:
  "f64_finite d \<Longrightarrow> f64_scaled d = n * f64_one \<Longrightarrow> f64_trunc d = n"
  by (rule trunc_exact)

text \<open>An exact small integer is recognised, whatever the machine does with the other casts.\<close>

lemma whole_int_Some:
  assumes "f64_finite d" "f64_scaled d = n * f64_one" "- (2 ^ 31) \<le> n" "n < 2 ^ 31"
  shows "whole_int oob d = Some (word_of_int n)"
proof -
  have t: "f64_trunc d = n" by (rule trunc_exact [OF assms(2)])
  have c: "f64_to_int 64 oob d = n" "f64_to_int 32 oob d = n"
    using assms(1,3,4) by (simp_all add: f64_to_int_def t)
  have s: "sint (word_of_int n :: s64) = n" using assms(3,4) by (intro sint_word_of_int_small) simp_all
  have "\<bar>n\<bar> < 2 ^ 53" using assms(3,4) by (simp add: abs_less_iff)
  note ex = f64_of_int_exact [OF this]
  have nn: "\<not> f64_nan d" "\<not> f64_nan (f64_of_int n)"
    using assms(1) ex(2) by (simp_all add: f64_nan_def f64_finite_def)
  have ord: "- 2147483648 * f64_one \<le> n * f64_one" "n * f64_one \<le> 2147483647 * f64_one"
    using assms(3,4) f64_one_pos by (intro mult_right_mono; simp)+
  show ?thesis
    using nn ord by (simp add: whole_int_def c s f64_eq_def ex assms(2) f64_ge_int_def f64_le_int_def)
qed

lemma trunc_upper:
  assumes "f64_scaled d \<le> n * f64_one" "0 \<le> n"
  shows "f64_trunc d \<le> n"
proof (cases "0 \<le> f64_scaled d")
  case True
  have "f64_scaled d div f64_one \<le> n * f64_one div f64_one"
    by (rule zdiv_mono1 [OF assms(1) f64_one_pos])
  then show ?thesis using True f64_one_pos assms(2) by (simp add: trunc_scaled sgn_if)
next
  case False
  then have "0 \<le> - f64_scaled d div f64_one" using f64_one_pos by (simp add: pos_imp_zdiv_nonneg_iff)
  then show ?thesis using False assms(2) by (simp add: trunc_scaled sgn_if)
qed

lemma trunc_lower:
  assumes "n * f64_one \<le> f64_scaled d" "n \<le> 0"
  shows "n \<le> f64_trunc d"
proof (cases "f64_scaled d < 0")
  case True
  have "- f64_scaled d \<le> (- n) * f64_one" using assms(1) by simp
  then have "(- f64_scaled d) div f64_one \<le> (- n) * f64_one div f64_one"
    by (rule zdiv_mono1 [OF _ f64_one_pos])
  moreover have "(- n) * f64_one div f64_one = - n"
    by (rule nonzero_mult_div_cancel_right) (use f64_one_pos in simp)
  ultimately have "(- f64_scaled d) div f64_one \<le> - n" by (simp only:)
  then show ?thesis using True by (simp add: trunc_scaled sgn_if)
next
  case False
  then have "0 \<le> f64_scaled d div f64_one" using f64_one_pos by (simp add: pos_imp_zdiv_nonneg_iff)
  then show ?thesis using False assms(2) by (simp add: trunc_scaled sgn_if)
qed

lemma small_trunc_finite:
  assumes t: "\<bar>f64_trunc d\<bar> < 2 ^ 1024"
  shows "f64_finite d"
proof (rule ccontr)
  assume "\<not> f64_finite d"
  then have e: "f64_exp d = 2047" by (simp add: f64_finite_def)
  have "(2 :: nat) ^ 52 * 2 ^ 972 \<le> (2 ^ 52 + f64_frac d) * 2 ^ (f64_exp d - 1075)"
    unfolding e by (intro mult_le_mono) simp_all
  moreover have "\<bar>f64_trunc d\<bar> = int ((2 ^ 52 + f64_frac d) * 2 ^ (f64_exp d - 1075))"
    by (rule trunc_large) (simp add: e)
  ultimately have "int (2 ^ 52 * 2 ^ 972) \<le> \<bar>f64_trunc d\<bar>" by (simp only: of_nat_le_iff)
  moreover have "int (2 ^ 52 * 2 ^ 972) = 2 ^ 1024" by (simp flip: power_add)
  ultimately show False using t by linarith
qed

text \<open>Conversely, only an exact small integer is: the out-of-range casts never matter.\<close>

lemma whole_int_SomeD:
  assumes "whole_int oob d = Some w"
  shows "f64_finite d \<and> - (2 ^ 31) \<le> f64_trunc d \<and> f64_trunc d < 2 ^ 31
    \<and> f64_scaled d = f64_trunc d * f64_one \<and> w = word_of_int (f64_trunc d)"
proof -
  have eq: "f64_eq d (f64_of_int (sint (word_of_int (f64_to_int 64 oob d) :: s64)))"
    and lo: "- 2147483648 * f64_one \<le> f64_scaled d" and hi: "f64_scaled d \<le> 2147483647 * f64_one"
    and w: "w = word_of_int (f64_to_int 32 oob d)"
    using assms by (auto simp: whole_int_def f64_ge_int_def f64_le_int_def split: if_splits)
  have t: "- 2147483648 \<le> f64_trunc d" "f64_trunc d \<le> 2147483647"
    using trunc_lower [OF lo] trunc_upper [OF hi] by simp_all
  then have "\<bar>f64_trunc d\<bar> < 2 ^ 32" by (simp add: abs_less_iff)
  also have "(2 :: int) ^ 32 \<le> 2 ^ 1024" by (rule power_increasing) simp_all
  finally have fin: "f64_finite d" by (rule small_trunc_finite)
  have c: "f64_to_int 64 oob d = f64_trunc d" "f64_to_int 32 oob d = f64_trunc d"
    using fin t by (simp_all add: f64_to_int_def)
  have s: "sint (word_of_int (f64_trunc d) :: s64) = f64_trunc d"
    using t by (intro sint_word_of_int_small) simp_all
  have "\<bar>f64_trunc d\<bar> < 2 ^ 53" using t by (simp add: abs_less_iff)
  from f64_of_int_exact(1) [OF this] eq have "f64_scaled d = f64_trunc d * f64_one"
    by (simp add: f64_eq_def c s)
  with fin t w c show ?thesis by simp
qed

text \<open>\<open>JS_NewFloat64\<close> makes a small integer of exactly the integral doubles of that range, but \<open>-0\<close>.\<close>

lemma new_float64_Some:
  assumes "new_float64 oob d = Some w"
  shows "f64_finite d" "f64_scaled d = sint w * f64_one"
proof -
  let ?v = "sint (word_of_int (f64_to_int 32 oob d) :: s32)"
  have d: "d = f64_of_int ?v" and w: "w = word_of_int ?v"
    using assms by (auto simp: new_float64_def Let_def split: if_splits)
  have "- (2 ^ 31) \<le> ?v" "?v < 2 ^ 31" using sint_greater_eq [of "word_of_int (f64_to_int 32 oob d) :: s32"]
      sint_less [of "word_of_int (f64_to_int 32 oob d) :: s32"] by simp_all
  then have "\<bar>?v\<bar> < 2 ^ 53" by (simp add: abs_less_iff)
  note ex = f64_of_int_exact [OF this]
  show "f64_finite d" by (subst d) (rule ex)
  have "sint w = ?v" unfolding w by simp
  then show "f64_scaled d = sint w * f64_one" by (subst d) (simp add: ex)
qed

text \<open>
  The saturating conversion clamps the truncation to 64 bits, except at \<open>2 ^ 63\<close> itself: that
  double passes both comparisons, and the cast is undefined.
\<close>

lemma trunc_above:
  assumes "n * f64_one \<le> f64_scaled d" "0 \<le> n"
  shows "n \<le> f64_trunc d"
proof -
  have s: "0 \<le> f64_scaled d" using assms f64_one_pos by (meson mult_nonneg_nonneg order_trans less_imp_le)
  have "n * f64_one div f64_one \<le> f64_scaled d div f64_one" by (rule zdiv_mono1 [OF assms(1) f64_one_pos])
  moreover have "n * f64_one div f64_one = n"
    by (rule nonzero_mult_div_cancel_right) (use f64_one_pos in simp)
  ultimately show ?thesis using s by (cases "f64_scaled d = 0") (simp_all add: trunc_scaled)
qed

lemma trunc_below:
  assumes "f64_scaled d < n * f64_one" "0 < n"
  shows "f64_trunc d < n"
proof (cases "0 \<le> f64_scaled d")
  case True
  have "f64_scaled d div f64_one < n"
  proof (rule ccontr)
    assume "\<not> f64_scaled d div f64_one < n"
    then have "n * f64_one \<le> f64_scaled d div f64_one * f64_one"
      using f64_one_pos by (intro mult_right_mono) simp_all
    also have "\<dots> \<le> f64_scaled d"
      using pos_mod_sign [OF f64_one_pos, of "f64_scaled d"] div_mult_mod_eq [of "f64_scaled d" f64_one] by linarith
    finally show False using assms(1) by simp
  qed
  then show ?thesis using True assms(2) by (simp add: trunc_scaled sgn_if)
next
  case False
  then have "0 \<le> - f64_scaled d div f64_one" using f64_one_pos by (simp add: pos_imp_zdiv_nonneg_iff)
  then show ?thesis using False assms(2) by (simp add: trunc_scaled sgn_if)
qed

lemma float_to_int64_sat_spec:
  assumes "\<not> f64_nan d" "f64_scaled d \<noteq> 2 ^ 63 * f64_one"
  shows "float_to_int64_sat oob d = word_of_int (max (- (2 ^ 63)) (min (2 ^ 63 - 1) (f64_trunc d)))"
proof -
  consider "f64_scaled d < - (2 ^ 63) * f64_one" | "2 ^ 63 * f64_one < f64_scaled d"
    | "- (2 ^ 63) * f64_one \<le> f64_scaled d" "f64_scaled d < 2 ^ 63 * f64_one"
    using assms(2) by linarith
  then show ?thesis
  proof cases
    case 1
    then have "2 ^ 63 * f64_one div f64_one \<le> - f64_scaled d div f64_one"
      by (intro zdiv_mono1 f64_one_pos) simp
    moreover have "2 ^ 63 * f64_one div f64_one = 2 ^ 63"
      by (rule nonzero_mult_div_cancel_right) (use f64_one_pos in simp)
    moreover have "f64_scaled d < 0" by (rule less_trans [OF 1]) (use f64_one_pos in simp)
    ultimately have "f64_trunc d \<le> - (2 ^ 63)" by (simp add: trunc_scaled)
    with 1 assms(1) show ?thesis by (simp add: float_to_int64_sat_def f64_ge_int_def not_le)
  next
    case 2
    then have "2 ^ 63 \<le> f64_trunc d" by (intro trunc_above) simp_all
    moreover have "- (2 ^ 63) * f64_one \<le> f64_scaled d" using 2 f64_one_pos by simp
    ultimately show ?thesis using 2 assms(1)
      by (simp add: float_to_int64_sat_def f64_ge_int_def f64_le_int_def)
  next
    case 3
    have t: "- (2 ^ 63) \<le> f64_trunc d" "f64_trunc d < 2 ^ 63"
      using trunc_lower [OF 3(1)] trunc_below [OF 3(2)] by simp_all
    then have "\<bar>f64_trunc d\<bar> < 2 ^ 64" by (simp add: abs_less_iff)
    also have "(2 :: int) ^ 64 \<le> 2 ^ 1024" by (rule power_increasing) simp_all
    finally have "f64_finite d" by (rule small_trunc_finite)
    with t 3 assms(1) show ?thesis
      by (simp add: float_to_int64_sat_def f64_ge_int_def f64_le_int_def f64_to_int_def)
  qed
qed

lemma float_to_int64_sat_limit:
  assumes "f64_scaled d = 2 ^ 63 * f64_one" "\<not> f64_nan d"
  shows "float_to_int64_sat oob d = word_of_int (oob d)"
proof -
  have "f64_trunc d = 2 ^ 63" by (rule trunc_exact [OF assms(1)])
  moreover have "- (2 ^ 63) * f64_one \<le> 2 ^ 63 * f64_one" using f64_one_pos by simp
  ultimately show ?thesis using assms
    by (simp add: float_to_int64_sat_def f64_ge_int_def f64_le_int_def f64_to_int_def)
qed

end
