(* ===== verification/Terms.thy ===== *)
theory Terms
  imports StringConv Float64
begin

text \<open>
  What both sides of the bridge exchange: Erlang terms, JavaScript values, and the two
  interfaces the C code is written against. The Erlang NIF API is not part of the repository:
  it is the record \<open>enif\<close> of operations on an abstract term type, with its documented behaviour
  as the locale \<open>erl_nif\<close>. The JavaScript engine's object operations are the record \<open>qjs\<close> on an
  abstract heap, with the behaviour of plain arrays and objects as the locale \<open>js_engine\<close>; its
  string and number conversions are the modelled ones.
\<close>

section \<open>Erlang terms\<close>

text \<open>
  An atom is its list of code points, a binary its bytes; a map is its list of pairs in iterator
  order. \<open>EOther\<close> stands for the terms the bridge does not inspect (pids, references, funs, ...).
\<close>

datatype eterm =
    EInt int
  | EFloat u64
  | EAtom "u32 list"
  | EBin "u8 list"
  | ENil
  | ECons eterm eterm
  | ETuple "eterm list"
  | EMap "(eterm \<times> eterm) list"
  | EOther nat

fun elist :: "eterm list \<Rightarrow> eterm" where
  "elist [] = ENil"
| "elist (t # ts) = ECons t (elist ts)"

text \<open>The elements of a proper list.\<close>

fun eitems :: "eterm \<Rightarrow> eterm list option" where
  "eitems ENil = Some []"
| "eitems (ECons h t) = map_option (\<lambda>ts. h # ts) (eitems t)"
| "eitems _ = None"

text \<open>The bytes of an iolist: bytes, binaries and iolists in a list that may end in a binary.\<close>

fun iolist :: "eterm \<Rightarrow> u8 list option" where
  "iolist ENil = Some []"
| "iolist (EBin b) = Some b"
| "iolist (ECons h t) =
    (case (case h of EInt i \<Rightarrow> if 0 \<le> i \<and> i < 256 then Some [word_of_int i] else None | _ \<Rightarrow> iolist h) of
       None \<Rightarrow> None
     | Some a \<Rightarrow> (case iolist t of None \<Rightarrow> None | Some b \<Rightarrow> Some (a @ b)))"
| "iolist _ = None"

text \<open>Latin-1 names: the atoms \<open>enif_get_atom\<close> can return as bytes.\<close>

definition latin1 :: "u32 list \<Rightarrow> u8 list option" where
  "latin1 cs = (if \<forall>c \<in> set cs. c < 0x100 then Some (map ucast cs) else None)"

definition ascii_atom :: "string \<Rightarrow> eterm" where
  "ascii_atom s = EAtom (map ucast (cstr s))"

section \<open>The NIF API\<close>

record 't enif =
  get_int :: "'t \<Rightarrow> s32 option"
  get_long :: "'t \<Rightarrow> s64 option"
  get_int64 :: "'t \<Rightarrow> s64 option"
  get_double :: "'t \<Rightarrow> u64 option"
  get_atom_length :: "'t \<Rightarrow> nat option"
  get_atom :: "'t \<Rightarrow> nat \<Rightarrow> u8 list option"
  inspect_binary :: "'t \<Rightarrow> u8 list option"
  inspect_iolist_as_binary :: "'t \<Rightarrow> u8 list option"
  get_tuple :: "'t \<Rightarrow> 't list option"
  get_list_length :: "'t \<Rightarrow> nat option"
  get_list_cell :: "'t \<Rightarrow> ('t \<times> 't) option"
  map_pairs :: "'t \<Rightarrow> ('t \<times> 't) list option"
  make_int :: "s32 \<Rightarrow> 't"
  make_double :: "u64 \<Rightarrow> 't"
  make_atom :: "u8 list \<Rightarrow> 't"
  make_binary :: "u8 list \<Rightarrow> 't"
  make_list :: "'t list \<Rightarrow> 't"
  make_tuple :: "'t list \<Rightarrow> 't"
  make_new_map :: "'t"
  make_map_put :: "'t \<Rightarrow> 't \<Rightarrow> 't \<Rightarrow> 't"
  enif_alloc_ok :: "int \<Rightarrow> bool"

text \<open>
  \<open>map_pairs\<close> is \<open>enif_is_map\<close> followed by an iteration with \<open>enif_map_iterator_get_pair\<close>;
  \<open>enif_alloc_ok\<close> says whether \<open>enif_alloc\<close> of that many bytes returns memory.
\<close>

definition in_range :: "nat \<Rightarrow> int \<Rightarrow> bool" where
  "in_range w i \<longleftrightarrow> - (2 ^ (w - 1)) \<le> i \<and> i < 2 ^ (w - 1)"

text \<open>Insertion in a list of pairs: a new key goes to the end.\<close>

fun put_pair :: "'k \<Rightarrow> 'v \<Rightarrow> ('k \<times> 'v) list \<Rightarrow> ('k \<times> 'v) list" where
  "put_pair k v [] = [(k, v)]"
| "put_pair k v ((k', v') # kvs) = (if k = k' then (k, v) # kvs else (k', v') # put_pair k v kvs)"

lemma put_pair_map_of: "map_of (put_pair k v kvs) = (map_of kvs)(k \<mapsto> v)"
  by (induction kvs) (auto simp: fun_eq_iff)

lemma put_pair_keys: "set (map fst (put_pair k v kvs)) = insert k (set (map fst kvs))"
  by (induction k v kvs rule: put_pair.induct) auto

lemma put_pair_distinct: "distinct (map fst kvs) \<Longrightarrow> distinct (map fst (put_pair k v kvs))"
proof (induction k v kvs rule: put_pair.induct)
  case (2 k v k' v' kvs)
  then show ?case using put_pair_keys [of k v kvs] by auto
qed simp

text \<open>The documented behaviour: \<open>rep\<close> is the term a handle stands for.\<close>

locale erl_nif =
  fixes E :: "'t enif" and rep :: "'t \<Rightarrow> eterm"
  assumes get_int: "get_int E t = (case rep t of EInt i \<Rightarrow> if in_range 32 i then Some (word_of_int i) else None | _ \<Rightarrow> None)"
    and get_long: "get_long E t = (case rep t of EInt i \<Rightarrow> if in_range 64 i then Some (word_of_int i) else None | _ \<Rightarrow> None)"
    and get_int64: "get_int64 E t = (case rep t of EInt i \<Rightarrow> if in_range 64 i then Some (word_of_int i) else None | _ \<Rightarrow> None)"
    and get_double: "get_double E t = (case rep t of EFloat d \<Rightarrow> Some d | _ \<Rightarrow> None)"
    and get_atom_length: "get_atom_length E t = (case rep t of EAtom cs \<Rightarrow> map_option length (latin1 cs) | _ \<Rightarrow> None)"
    and get_atom: "get_atom E t n = (case rep t of EAtom cs \<Rightarrow>
        if length cs < n then latin1 cs else None | _ \<Rightarrow> None)"
    and inspect_binary: "inspect_binary E t = (case rep t of EBin b \<Rightarrow> Some b | _ \<Rightarrow> None)"
    and inspect_iolist: "inspect_iolist_as_binary E t = iolist (rep t)"
    and get_tuple: "map_option (map rep) (get_tuple E t) = (case rep t of ETuple ts \<Rightarrow> Some ts | _ \<Rightarrow> None)"
    and get_list_length: "get_list_length E t = map_option length (eitems (rep t))"
    and get_list_cell: "map_option (map_prod rep rep) (get_list_cell E t) =
        (case rep t of ECons h r \<Rightarrow> Some (h, r) | _ \<Rightarrow> None)"
    and map_pairs: "map_option (map (map_prod rep rep)) (map_pairs E t) =
        (case rep t of EMap kvs \<Rightarrow> Some kvs | _ \<Rightarrow> None)"
    and make_int: "rep (make_int E i) = EInt (sint i)"
    and make_double: "f64_finite d \<Longrightarrow> rep (make_double E d) = EFloat d"
    and make_atom: "rep (make_atom E a) = EAtom (map ucast a)"
    and make_binary: "rep (make_binary E b) = EBin b"
    and make_list: "rep (make_list E ts) = elist (map rep ts)"
    and make_tuple: "rep (make_tuple E ts) = ETuple (map rep ts)"
    and make_new_map: "rep (make_new_map E) = EMap []"
    and make_map_put: "rep m = EMap kvs \<Longrightarrow> distinct (map fst kvs) \<Longrightarrow>
        \<exists>kvs'. rep (make_map_put E m k v) = EMap kvs' \<and> distinct (map fst kvs')
          \<and> map_of kvs' = (map_of kvs)(rep k \<mapsto> rep v)"

text \<open>
  The term store of the Erlang machine as this interface sees it: terms are their own handles.
  A non-finite double makes no float; an allocation of a negative size, which is a huge
  \<open>size_t\<close>, fails.
\<close>

definition beam :: "eterm enif" where
  "beam = \<lparr>
     get_int = (\<lambda>t. case t of EInt i \<Rightarrow> if in_range 32 i then Some (word_of_int i) else None | _ \<Rightarrow> None),
     get_long = (\<lambda>t. case t of EInt i \<Rightarrow> if in_range 64 i then Some (word_of_int i) else None | _ \<Rightarrow> None),
     get_int64 = (\<lambda>t. case t of EInt i \<Rightarrow> if in_range 64 i then Some (word_of_int i) else None | _ \<Rightarrow> None),
     get_double = (\<lambda>t. case t of EFloat d \<Rightarrow> Some d | _ \<Rightarrow> None),
     get_atom_length = (\<lambda>t. case t of EAtom cs \<Rightarrow> map_option length (latin1 cs) | _ \<Rightarrow> None),
     get_atom = (\<lambda>t n. case t of EAtom cs \<Rightarrow> if length cs < n then latin1 cs else None | _ \<Rightarrow> None),
     inspect_binary = (\<lambda>t. case t of EBin b \<Rightarrow> Some b | _ \<Rightarrow> None),
     inspect_iolist_as_binary = iolist,
     get_tuple = (\<lambda>t. case t of ETuple ts \<Rightarrow> Some ts | _ \<Rightarrow> None),
     get_list_length = (\<lambda>t. map_option length (eitems t)),
     get_list_cell = (\<lambda>t. case t of ECons h r \<Rightarrow> Some (h, r) | _ \<Rightarrow> None),
     map_pairs = (\<lambda>t. case t of EMap kvs \<Rightarrow> Some kvs | _ \<Rightarrow> None),
     make_int = (\<lambda>i. EInt (sint i)),
     make_double = (\<lambda>d. if f64_finite d then EFloat d else EOther 0),
     make_atom = (\<lambda>a. EAtom (map ucast a)),
     make_binary = EBin,
     make_list = elist,
     make_tuple = ETuple,
     make_new_map = EMap [],
     make_map_put = (\<lambda>m k v. case m of EMap kvs \<Rightarrow> EMap (put_pair k v kvs) | _ \<Rightarrow> m),
     enif_alloc_ok = (\<lambda>n. 0 \<le> n \<and> n < 2 ^ 40)\<rparr>"

interpretation beam: erl_nif beam id
  by unfold_locales (auto simp: beam_def option.map_id0 list.map_id0 prod.map_id0 map_prod.id
      put_pair_map_of put_pair_distinct split: eterm.splits)

section \<open>JavaScript values\<close>

text \<open>
  Values by tag. Strings are immutable, so they are their contents; an object is a handle.
  \<open>JOther\<close> stands for the other tags (symbols, big integers and decimals, modules, ...).
\<close>

datatype jsval =
    JUndef
  | JNull
  | JBool bool
  | JInt s32
  | JFloat u64
  | JStr js_string
  | JObj nat
  | JExc
  | JBigFloat nat
  | JOther nat

text \<open>A \<open>JSAtom\<close>: \<open>JS_ATOM_NULL\<close>, or the interned name.\<close>

datatype jsatom = AtomNull | Atom "u16 list"

section \<open>The engine's object operations\<close>

text \<open>
  Each operation takes the heap and returns the new one; anything that may run script code
  (getters, proxies, \<open>toString\<close>) may change the heap arbitrarily. The integer result of a setter
  is its return code, \<open>None\<close> of \<open>own_names\<close> is -1, \<open>None\<close> of \<open>to_string\<close> is an exception.
  \<open>has_atom8\<close> says whether the atom table holds an 8-bit string of exactly these characters.
\<close>

record 'h qjs =
  qalloc :: "'h \<Rightarrow> int \<Rightarrow> 'h \<times> int option"
  new_array :: "'h \<Rightarrow> 'h \<times> jsval"
  new_object :: "'h \<Rightarrow> 'h \<times> jsval"
  set_idx :: "'h \<Rightarrow> jsval \<Rightarrow> u32 \<Rightarrow> jsval \<Rightarrow> 'h \<times> int"
  set_prop :: "'h \<Rightarrow> jsval \<Rightarrow> jsatom \<Rightarrow> jsval \<Rightarrow> 'h \<times> int"
  get_idx :: "'h \<Rightarrow> jsval \<Rightarrow> u32 \<Rightarrow> 'h \<times> jsval"
  get_prop :: "'h \<Rightarrow> jsval \<Rightarrow> jsatom \<Rightarrow> 'h \<times> jsval"
  own_names :: "'h \<Rightarrow> jsval \<Rightarrow> 'h \<times> jsatom list option"
  is_array :: "'h \<Rightarrow> jsval \<Rightarrow> 'h \<times> int"
  is_error :: "'h \<Rightarrow> jsval \<Rightarrow> bool"
  to_string :: "'h \<Rightarrow> jsval \<Rightarrow> 'h \<times> js_string option"
  to_number :: "'h \<Rightarrow> jsval \<Rightarrow> 'h \<times> jsval"
  big_int64 :: "'h \<Rightarrow> nat \<Rightarrow> s64"
  has_atom8 :: "'h \<Rightarrow> u8 list \<Rightarrow> bool"
  free_val :: "'h \<Rightarrow> jsval \<Rightarrow> 'h"
  free_atom :: "'h \<Rightarrow> jsatom \<Rightarrow> 'h"
  get_exception :: "'h \<Rightarrow> 'h \<times> jsval"

end
