(* ===== verification/TermConvert.thy ===== *)
theory TermConvert
  imports Terms "HOL-Library.Monad_Syntax"
begin

text \<open>
  term_convert.c: \<open>erl_term_to_js\<close>, \<open>js_value_to_erl\<close> and \<open>js_exception_to_erl\<close>, over any NIF API
  and any engine. The functions recurse on the C stack: their first argument is the number of
  stack frames left, and \<open>None\<close> is a crash of the virtual machine (stack exhausted, or a read or
  write through memory that was not allocated).
\<close>

section \<open>Owned references\<close>

text \<open>
  The state the C code threads: the engine's heap, and (as a ghost) the number of references,
  strings and atoms it has been handed and must still release or give away.
\<close>

record 'h js =
  heap :: 'h
  owed :: int

definition owe :: "'h js \<Rightarrow> 'h \<Rightarrow> int \<Rightarrow> 'h js" where
  "owe s h k = s\<lparr>heap := h, owed := owed s + k\<rparr>"

definition c_free :: "'h qjs \<Rightarrow> 'h js \<Rightarrow> jsval \<Rightarrow> 'h js" where
  "c_free Q s v = owe s (free_val Q (heap s) v) (- 1)"

definition c_free_atom :: "'h qjs \<Rightarrow> 'h js \<Rightarrow> jsatom \<Rightarrow> 'h js" where
  "c_free_atom Q s a = owe s (free_atom Q (heap s) a) (- 1)"

section \<open>Engine functions by their sources\<close>

definition is_digit :: "u8 \<Rightarrow> bool" where
  "is_digit c \<longleftrightarrow> c \<ge> 48 \<and> c \<le> 57"

text \<open>
  \<open>JS_NewAtomLen\<close>: unless the name starts with a digit, an existing 8-bit atom whose characters
  are the bytes of the name is returned; only otherwise are the bytes decoded as UTF-8.
\<close>

definition JS_NewAtomLen :: "'h qjs \<Rightarrow> 'h \<Rightarrow> u8 list \<Rightarrow> 'h \<times> jsatom" where
  "JS_NewAtomLen Q h str =
    (if (str = [] \<or> \<not> is_digit (hd str)) \<and> has_atom8 Q h str then (h, Atom (map ucast str))
     else case JS_NewStringLen (qalloc Q) h str of
       (h', None) \<Rightarrow> (h', AtomNull) | (h', Some p) \<Rightarrow> (h', Atom (units p)))"

definition JS_NewAtom :: "'h qjs \<Rightarrow> 'h \<Rightarrow> u8 list \<Rightarrow> 'h \<times> jsatom" where
  "JS_NewAtom Q h str = JS_NewAtomLen Q h (cbuf str)"

definition JS_GetPropertyStr :: "'h qjs \<Rightarrow> 'h \<Rightarrow> jsval \<Rightarrow> u8 list \<Rightarrow> 'h \<times> jsval" where
  "JS_GetPropertyStr Q h v prop =
    (let (h1, atom) = JS_NewAtom Q h prop;
         (h2, ret) = get_prop Q h1 v atom in (free_atom Q h2 atom, ret))"

definition JS_SetPropertyStr :: "'h qjs \<Rightarrow> 'h \<Rightarrow> jsval \<Rightarrow> u8 list \<Rightarrow> jsval \<Rightarrow> 'h \<times> int" where
  "JS_SetPropertyStr Q h v prop x =
    (let (h1, atom) = JS_NewAtom Q h prop;
         (h2, ret) = set_prop Q h1 v atom x in (free_atom Q h2 atom, ret))"

text \<open>
  \<open>JS_ToInt64Free\<close>; its \<open>redo\<close> loop ends when \<open>JS_ToNumberFree\<close> returns a number or throws. The
  result is the value stored in \<open>*pres\<close> and whether the return code is 0.
\<close>

partial_function (option) JS_ToInt64Free ::
  "(u64 \<Rightarrow> int) \<Rightarrow> 'h qjs \<Rightarrow> 'h \<Rightarrow> jsval \<Rightarrow> ('h \<times> s64 \<times> bool) option" where
  "JS_ToInt64Free oob Q h v = (case v of
     JInt i \<Rightarrow> Some (h, word_of_int (sint i), True)
   | JBool b \<Rightarrow> Some (h, (if b then 1 else 0), True)
   | JNull \<Rightarrow> Some (h, 0, True)
   | JUndef \<Rightarrow> Some (h, 0, True)
   | JFloat d \<Rightarrow> Some (h, float_to_int64 oob d, True)
   | JBigFloat p \<Rightarrow> Some (free_val Q h v, big_int64 Q h p, True)
   | _ \<Rightarrow> (let (h', v') = to_number Q h v in
       if v' = JExc then Some (h', 0, False) else JS_ToInt64Free oob Q h' v'))"

section \<open>Erlang terms to JavaScript\<close>

text \<open>\<open>JS_NewFloat64\<close>, and the value \<open>JS_NewStringLen\<close> returns.\<close>

definition JS_NewFloat64 :: "(u64 \<Rightarrow> int) \<Rightarrow> u64 \<Rightarrow> jsval" where
  "JS_NewFloat64 oob d = (case new_float64 oob d of Some i \<Rightarrow> JInt i | None \<Rightarrow> JFloat d)"

definition c_new_string :: "'h qjs \<Rightarrow> 'h js \<Rightarrow> u8 list \<Rightarrow> 'h js \<times> jsval" where
  "c_new_string Q s b = (case JS_NewStringLen (qalloc Q) (heap s) b of
     (h, Some str) \<Rightarrow> (owe s h 1, JStr str) | (h, None) \<Rightarrow> (owe s h 1, JExc))"

text \<open>An integer of 64 bits: small ones are \<open>JS_TAG_INT\<close>, the others become doubles.\<close>

definition c_new_int64 :: "(u64 \<Rightarrow> int) \<Rightarrow> s64 \<Rightarrow> jsval" where
  "c_new_int64 oob l = (if sint l \<ge> - 2147483648 \<and> sint l \<le> 2147483647 then JInt (word_of_int (sint l))
     else JS_NewFloat64 oob (f64_of_int (sint l)))"

text \<open>The atoms with a meaning of their own; any other name becomes a string.\<close>

definition c_new_atom_name :: "'h qjs \<Rightarrow> 'h js \<Rightarrow> u8 list \<Rightarrow> 'h js \<times> jsval" where
  "c_new_atom_name Q s name =
    (if cbuf name = cstr ''true'' then (owe s (heap s) 1, JBool True)
     else if cbuf name = cstr ''false'' then (owe s (heap s) 1, JBool False)
     else if cbuf name = cstr ''nil'' \<or> cbuf name = cstr ''null'' then (owe s (heap s) 1, JNull)
     else if cbuf name = cstr ''undefined'' then (owe s (heap s) 1, JUndef)
     else c_new_string Q s name)"

text \<open>
  The first tests of \<open>erl_term_to_js\<close>, up to the binaries: \<open>None\<close> when none of them applies.
  An atom of 256 characters or more is not converted here.
\<close>

definition scalar_to_js ::
  "(u64 \<Rightarrow> int) \<Rightarrow> 't enif \<Rightarrow> 'h qjs \<Rightarrow> 'h js \<Rightarrow> 't \<Rightarrow> ('h js \<times> jsval) option" where
  "scalar_to_js oob E Q s t =
    (case get_int E t of Some i \<Rightarrow> Some (owe s (heap s) 1, JInt i) | None \<Rightarrow>
     case get_long E t of Some l \<Rightarrow> Some (owe s (heap s) 1, c_new_int64 oob l) | None \<Rightarrow>
     case get_int64 E t of Some l \<Rightarrow> Some (owe s (heap s) 1, c_new_int64 oob l) | None \<Rightarrow>
     case get_double E t of Some d \<Rightarrow> Some (owe s (heap s) 1, JS_NewFloat64 oob d) | None \<Rightarrow>
     case (case get_atom_length E t of Some n \<Rightarrow> if n < 256 then get_atom E t 256 else None | None \<Rightarrow> None) of
       Some name \<Rightarrow> Some (c_new_atom_name Q s name) | None \<Rightarrow>
     case inspect_binary E t of Some b \<Rightarrow> Some (c_new_string Q s b) | None \<Rightarrow>
     case inspect_iolist_as_binary E t of Some b \<Rightarrow> Some (c_new_string Q s b) | None \<Rightarrow> None)"

text \<open>Storing converted elements from index \<open>i\<close> on; \<open>conv\<close> is the recursive call.\<close>

fun set_elems ::
  "'h qjs \<Rightarrow> ('h js \<Rightarrow> 't \<Rightarrow> ('h js \<times> jsval) option) \<Rightarrow> jsval \<Rightarrow> u32 \<Rightarrow> 't list \<Rightarrow> 'h js \<Rightarrow> 'h js option" where
  "set_elems Q conv arr i [] s = Some s"
| "set_elems Q conv arr i (t # ts) s = (case conv s t of None \<Rightarrow> None
     | Some (s1, elem) \<Rightarrow>
         set_elems Q conv arr (i + 1) ts (owe s1 (fst (set_idx Q (heap s1) arr i elem)) (- 1)))"

text \<open>The heads \<open>enif_get_list_cell\<close> yields.\<close>

partial_function (option) list_heads :: "'t enif \<Rightarrow> 't \<Rightarrow> 't list option" where
  "list_heads E t = (case get_list_cell E t of None \<Rightarrow> Some []
     | Some (h, r) \<Rightarrow> Option.bind (list_heads E r) (\<lambda>hs. Some (h # hs)))"

text \<open>Storing the pairs of a map; a key that is neither a binary nor an atom is skipped.\<close>

definition set_pair ::
  "'h qjs \<Rightarrow> ('h js \<Rightarrow> 't \<Rightarrow> ('h js \<times> jsval) option) \<Rightarrow> jsval \<Rightarrow> ('h \<Rightarrow> 'h \<times> jsatom) \<Rightarrow> 't \<Rightarrow> 'h js \<Rightarrow> 'h js option" where
  "set_pair Q conv obj mk_atom v s = (case conv s v of None \<Rightarrow> None
     | Some (s1, js_val) \<Rightarrow>
         (let (h2, atom) = mk_atom (heap s1); s2 = owe s1 h2 1;
              s3 = owe s2 (fst (set_prop Q (heap s2) obj atom js_val)) (- 1) in
          Some (c_free_atom Q s3 atom)))"

fun set_pairs ::
  "'t enif \<Rightarrow> 'h qjs \<Rightarrow> ('h js \<Rightarrow> 't \<Rightarrow> ('h js \<times> jsval) option) \<Rightarrow> jsval \<Rightarrow> ('t \<times> 't) list \<Rightarrow> 'h js \<Rightarrow> 'h js option" where
  "set_pairs E Q conv obj [] s = Some s"
| "set_pairs E Q conv obj ((k, v) # kvs) s =
    (case (case inspect_binary E k of
         Some b \<Rightarrow> set_pair Q conv obj (\<lambda>h. JS_NewAtomLen Q h b) v s
       | None \<Rightarrow> (case get_atom E k 512 of
           Some a \<Rightarrow> set_pair Q conv obj (\<lambda>h. JS_NewAtom Q h a) v s
         | None \<Rightarrow> Some s)) of
       None \<Rightarrow> None | Some s' \<Rightarrow> set_pairs E Q conv obj kvs s')"

fun erl_term_to_js ::
  "(u64 \<Rightarrow> int) \<Rightarrow> 't enif \<Rightarrow> 'h qjs \<Rightarrow> nat \<Rightarrow> 'h js \<Rightarrow> 't \<Rightarrow> ('h js \<times> jsval) option" where
  "erl_term_to_js oob E Q 0 s t = None"
| "erl_term_to_js oob E Q (Suc n) s t =
    (case scalar_to_js oob E Q s t of Some r \<Rightarrow> Some r | None \<Rightarrow>
     case get_tuple E t of
       Some ts \<Rightarrow>
         (let (h, arr) = new_array Q (heap s) in
          map_option (\<lambda>s'. (s', arr)) (set_elems Q (erl_term_to_js oob E Q n) arr 0 ts (owe s h 1)))
     | None \<Rightarrow>
     case get_list_length E t of
       Some _ \<Rightarrow>
         (let (h, arr) = new_array Q (heap s) in
          case list_heads E t of None \<Rightarrow> None
          | Some ts \<Rightarrow>
            map_option (\<lambda>s'. (s', arr)) (set_elems Q (erl_term_to_js oob E Q n) arr 0 ts (owe s h 1)))
     | None \<Rightarrow>
     case map_pairs E t of
       Some kvs \<Rightarrow>
         (let (h, obj) = new_object Q (heap s) in
          map_option (\<lambda>s'. (s', obj)) (set_pairs E Q (erl_term_to_js oob E Q n) obj kvs (owe s h 1)))
     | None \<Rightarrow> Some (owe s (heap s) 1, JNull))"

section \<open>JavaScript values to Erlang\<close>

definition atom_undefined :: "'t enif \<Rightarrow> 't" where
  "atom_undefined E = make_atom E (cstr ''undefined'')"

definition atom_null :: "'t enif \<Rightarrow> 't" where
  "atom_null E = make_atom E (cstr ''nil'')"

definition atom_true :: "'t enif \<Rightarrow> 't" where
  "atom_true E = make_atom E (cstr ''true'')"

definition atom_false :: "'t enif \<Rightarrow> 't" where
  "atom_false E = make_atom E (cstr ''false'')"

definition atom_error :: "'t enif \<Rightarrow> 't" where
  "atom_error E = make_atom E (cstr ''error'')"

definition atom_js_exception :: "'t enif \<Rightarrow> 't" where
  "atom_js_exception E = make_atom E (cstr ''js_exception'')"

text \<open>
  \<open>JS_ToCStringLen(ctx, &len, v)\<close>: the bytes, without the terminating NUL, which the caller
  must free; \<open>None\<close> after an exception. \<open>JS_AtomToCString\<close> is the same on the atom's string.
\<close>

definition c_to_cstring :: "'h qjs \<Rightarrow> 'h js \<Rightarrow> jsval \<Rightarrow> 'h js \<times> u8 list option" where
  "c_to_cstring Q s v =
    (case (case v of JStr str \<Rightarrow> (heap s, Some str) | _ \<Rightarrow> to_string Q (heap s) v) of
       (h, None) \<Rightarrow> (owe s h 0, None)
     | (h, Some str) \<Rightarrow> (case JS_ToCStringLen2 (qalloc Q) h str False of
         (h', None) \<Rightarrow> (owe s h' 0, None)
       | (h', Some b) \<Rightarrow> (owe s h' 1, Some b)))"

definition c_free_cstring :: "'h js \<Rightarrow> 'h js" where
  "c_free_cstring s = owe s (heap s) (- 1)"

definition atom_string :: "u16 list \<Rightarrow> js_string" where
  "atom_string us = (if \<forall>u \<in> set us. u < 0x100 then Str8 (map ucast us) else Str16 us)"

definition c_atom_to_cstring :: "'h qjs \<Rightarrow> 'h js \<Rightarrow> jsatom \<Rightarrow> 'h js \<times> u8 list option" where
  "c_atom_to_cstring Q s a = (case a of AtomNull \<Rightarrow> c_to_cstring Q s (JStr (Str8 []))
     | Atom us \<Rightarrow> c_to_cstring Q s (JStr (atom_string us)))"

text \<open>
  The array loop: for each index a \<open>JS_GetPropertyUint32\<close> (of the index cut to 32 bits), the
  conversion, and the release of the element.
\<close>

fun get_items ::
  "'h qjs \<Rightarrow> ('h js \<Rightarrow> jsval \<Rightarrow> ('h js \<times> 't) option) \<Rightarrow> jsval \<Rightarrow> nat \<Rightarrow> nat \<Rightarrow> 'h js \<Rightarrow> ('h js \<times> 't list) option" where
  "get_items Q conv v i 0 s = Some (s, [])"
| "get_items Q conv v i (Suc n) s =
    (let (h, elem) = get_idx Q (heap s) v (of_nat i); s1 = owe s h 1 in
     case conv s1 elem of None \<Rightarrow> None
     | Some (s2, t) \<Rightarrow>
         (case get_items Q conv v (Suc i) n (c_free Q s2 elem) of None \<Rightarrow> None
          | Some (s3, ts) \<Rightarrow> Some (s3, t # ts)))"

text \<open>
  An array: the length as an \<open>int64_t\<close>, a buffer of that many terms, the loop, and
  \<open>enif_make_list_from_array\<close> with the length cut to 32 bits. A negative length makes it read
  some \<open>2 ^ 32\<close> terms that are not there; a buffer that was not allocated is written through.
\<close>

definition array_to_erl ::
  "(u64 \<Rightarrow> int) \<Rightarrow> 't enif \<Rightarrow> 'h qjs \<Rightarrow> ('h js \<Rightarrow> jsval \<Rightarrow> ('h js \<times> 't) option) \<Rightarrow> 'h js \<Rightarrow> jsval \<Rightarrow> ('h js \<times> 't) option" where
  "array_to_erl oob E Q conv s v =
    (let (h1, length_val) = JS_GetPropertyStr Q (heap s) v (cstr ''length''); s1 = owe s h1 1 in
     case JS_ToInt64Free oob Q (heap s1) length_val of None \<Rightarrow> None
     | Some (h2, len, ok) \<Rightarrow>
       (let s2 = c_free Q (s1\<lparr>heap := h2\<rparr>) length_val; n = sint len in
        if n < 0 \<or> (n > 0 \<and> \<not> enif_alloc_ok E (size_t (8 * n))) then None
        else case get_items Q conv v 0 (nat n) s2 of None \<Rightarrow> None
          | Some (s3, items) \<Rightarrow> Some (s3, make_list E (take (nat n mod 2 ^ 32) items))))"

text \<open>
  The property loop of an object: the key as a C string (cut at its first NUL), the value, and
  the release of both and of the atom.
\<close>

fun get_props ::
  "'t enif \<Rightarrow> 'h qjs \<Rightarrow> ('h js \<Rightarrow> jsval \<Rightarrow> ('h js \<times> 't) option) \<Rightarrow> jsval \<Rightarrow> jsatom list \<Rightarrow> 't \<Rightarrow> 'h js \<Rightarrow> ('h js \<times> 't) option" where
  "get_props E Q conv v [] m s = Some (s, m)"
| "get_props E Q conv v (a # as) m s =
    (case c_atom_to_cstring Q s a of
       (s1, None) \<Rightarrow> get_props E Q conv v as m (c_free_atom Q s1 a)
     | (s1, Some key) \<Rightarrow>
       (let (h2, prop_val) = get_prop Q (heap s1) v a; s2 = owe s1 h2 1;
            key_term = make_binary E (cbuf key) in
        case conv s2 prop_val of None \<Rightarrow> None
        | Some (s3, val_term) \<Rightarrow>
            get_props E Q conv v as (make_map_put E m key_term val_term)
              (c_free_atom Q (c_free_cstring (c_free Q s3 prop_val)) a)))"

text \<open>
  A plain object. An object whose \<open>__beamjs_type\<close> is the string \<open>pid\<close> stands for its
  \<open>__beamjs_data\<close>.
\<close>

definition object_to_erl ::
  "'t enif \<Rightarrow> 'h qjs \<Rightarrow> ('h js \<Rightarrow> jsval \<Rightarrow> ('h js \<times> 't) option) \<Rightarrow> 'h js \<Rightarrow> jsval \<Rightarrow> ('h js \<times> 't) option" where
  "object_to_erl E Q conv s v =
    (let (h1, type_val) = JS_GetPropertyStr Q (heap s) v (cstr ''__beamjs_type''); s1 = owe s h1 1;
         (s2, is_pid) = (case type_val of
            JStr _ \<Rightarrow> (case c_to_cstring Q s1 type_val of
                (s2, None) \<Rightarrow> (s2, False)
              | (s2, Some type_str) \<Rightarrow>
                  if cbuf type_str = cstr ''pid'' then (s2, True) else (c_free_cstring s2, False))
          | _ \<Rightarrow> (s1, False)) in
     if is_pid then
       (let (h3, pid_data) = JS_GetPropertyStr Q (heap s2) v (cstr ''__beamjs_data''); s3 = owe s2 h3 1 in
        case conv s3 pid_data of None \<Rightarrow> None
        | Some (s4, t) \<Rightarrow> Some (c_free Q (c_free_cstring (c_free Q s4 pid_data)) type_val, t))
     else
       (let s3 = c_free Q s2 type_val; (h4, names) = own_names Q (heap s3) v in
        case names of None \<Rightarrow> Some (owe s3 h4 0, atom_null E)
        | Some as \<Rightarrow> get_props E Q conv v as (make_new_map E) (owe s3 h4 (int (length as)))))"

definition string_to_erl :: "'t enif \<Rightarrow> 'h qjs \<Rightarrow> 'h js \<Rightarrow> jsval \<Rightarrow> 'h js \<times> 't" where
  "string_to_erl E Q s v = (case c_to_cstring Q s v of
     (s1, Some b) \<Rightarrow> (c_free_cstring s1, make_binary E b)
   | (s1, None) \<Rightarrow> (s1, atom_null E))"

definition float_to_erl :: "(u64 \<Rightarrow> int) \<Rightarrow> 't enif \<Rightarrow> u64 \<Rightarrow> 't" where
  "float_to_erl oob E d = (case whole_int oob d of Some i \<Rightarrow> make_int E i | None \<Rightarrow> make_double E d)"

fun js_value_to_erl ::
  "(u64 \<Rightarrow> int) \<Rightarrow> 't enif \<Rightarrow> 'h qjs \<Rightarrow> nat \<Rightarrow> 'h js \<Rightarrow> jsval \<Rightarrow> ('h js \<times> 't) option" where
  "js_value_to_erl oob E Q 0 s v = None"
| "js_value_to_erl oob E Q (Suc n) s v = (case v of
     JUndef \<Rightarrow> Some (s, atom_undefined E)
   | JNull \<Rightarrow> Some (s, atom_null E)
   | JBool b \<Rightarrow> Some (s, if b then atom_true E else atom_false E)
   | JInt i \<Rightarrow> Some (s, make_int E i)
   | JFloat d \<Rightarrow> Some (s, float_to_erl oob E d)
   | JStr _ \<Rightarrow> Some (string_to_erl E Q s v)
   | _ \<Rightarrow>
     (let (h1, arr) = is_array Q (heap s) v; s1 = owe s h1 0 in
      if arr \<noteq> 0 then array_to_erl oob E Q (js_value_to_erl oob E Q n) s1 v
      else case v of JObj _ \<Rightarrow> object_to_erl E Q (js_value_to_erl oob E Q n) s1 v
        | _ \<Rightarrow> Some (s1, atom_undefined E)))"

section \<open>Exceptions\<close>

text \<open>A C string as a binary: up to its first NUL, or empty for \<open>NULL\<close>.\<close>

definition cstr_term :: "'t enif \<Rightarrow> u8 list option \<Rightarrow> 't" where
  "cstr_term E b = make_binary E (case b of None \<Rightarrow> [] | Some b \<Rightarrow> cbuf b)"

definition free_opt_cstring :: "'h js \<Rightarrow> u8 list option \<Rightarrow> 'h js" where
  "free_opt_cstring s b = (case b of None \<Rightarrow> s | Some _ \<Rightarrow> c_free_cstring s)"

definition js_exception_to_erl ::
  "(u64 \<Rightarrow> int) \<Rightarrow> 't enif \<Rightarrow> 'h qjs \<Rightarrow> nat \<Rightarrow> 'h js \<Rightarrow> ('h js \<times> 't) option" where
  "js_exception_to_erl oob E Q n s =
    (let (h0, exc) = get_exception Q (heap s); s0 = owe s h0 1 in
     if is_error Q (heap s0) exc then
       (let (h1, msg_val) = JS_GetPropertyStr Q (heap s0) exc (cstr ''message''); s1 = owe s0 h1 1;
            (h2, stack_val) = JS_GetPropertyStr Q (heap s1) exc (cstr ''stack''); s2 = owe s1 h2 1;
            (s3, msg) = c_to_cstring Q s2 msg_val;
            (s4, stack) = c_to_cstring Q s3 stack_val;
            s5 = free_opt_cstring (free_opt_cstring s4 msg) stack;
            s6 = c_free Q (c_free Q s5 msg_val) stack_val;
            reason = make_tuple E [atom_js_exception E, cstr_term E msg, cstr_term E stack] in
        Some (c_free Q s6 exc, make_tuple E [atom_error E, reason]))
     else case js_value_to_erl oob E Q n s0 exc of None \<Rightarrow> None
       | Some (s1, reason) \<Rightarrow> Some (c_free Q s1 exc, make_tuple E [atom_error E, reason]))"

section \<open>Ownership: no reference is leaked\<close>

text \<open>
  Whatever the engine and the NIF API do, getters that throw, proxies and failing allocations
  included: \<open>erl_term_to_js\<close> hands exactly one new reference to its caller, the other two
  conversions leave none behind.
\<close>

lemma owe_simps [simp]: "owed (owe s h k) = owed s + k" "heap (owe s h k) = h" "owe s (heap s) 0 = s"
  by (simp_all add: owe_def)

lemma owed_free [simp]: "owed (c_free Q s v) = owed s - 1" "owed (c_free_atom Q s a) = owed s - 1"
  "owed (c_free_cstring s) = owed s - 1"
  by (simp_all add: c_free_def c_free_atom_def c_free_cstring_def)

definition conv_owes :: "('h js \<Rightarrow> 'a \<Rightarrow> ('h js \<times> 'b) option) \<Rightarrow> int \<Rightarrow> bool" where
  "conv_owes conv k \<longleftrightarrow> (\<forall>s x s' y. conv s x = Some (s', y) \<longrightarrow> owed s' = owed s + k)"

lemma conv_owesD: "conv_owes conv k \<Longrightarrow> conv s x = Some (s', y) \<Longrightarrow> owed s' = owed s + k"
  by (auto simp: conv_owes_def)

lemma owed_new_string: "c_new_string Q s b = (s', v) \<Longrightarrow> owed s' = owed s + 1"
  by (auto simp: c_new_string_def split: prod.splits option.splits)

lemma owed_scalar: "scalar_to_js oob E Q s t = Some (s', v) \<Longrightarrow> owed s' = owed s + 1"
  by (auto simp: scalar_to_js_def c_new_atom_name_def split: option.splits if_splits dest: owed_new_string)

lemma owed_set_elems: "conv_owes conv 1 \<Longrightarrow> set_elems Q conv arr i ts s = Some s' \<Longrightarrow> owed s' = owed s"
  by (induction Q conv arr i ts s rule: set_elems.induct)
    (auto split: option.splits dest: conv_owesD)

lemma owed_set_pair: "conv_owes conv 1 \<Longrightarrow> set_pair Q conv obj mk v s = Some s' \<Longrightarrow> owed s' = owed s"
  by (auto simp: set_pair_def Let_def split: option.splits prod.splits dest: conv_owesD)

lemma owed_set_pairs: "conv_owes conv 1 \<Longrightarrow> set_pairs E Q conv obj kvs s = Some s' \<Longrightarrow> owed s' = owed s"
  by (induction E Q conv obj kvs s rule: set_pairs.induct)
    (auto split: option.splits dest: owed_set_pair)

lemma owed_erl_term_to_js: "conv_owes (erl_term_to_js oob E Q n) 1"
proof (induction n)
  case 0
  then show ?case by (simp add: conv_owes_def)
next
  case (Suc n)
  show ?case
    unfolding conv_owes_def
    by (auto split: option.splits prod.splits dest: owed_scalar owed_set_elems [OF Suc] owed_set_pairs [OF Suc])
qed

lemma owed_cstring: "c_to_cstring Q s v = (s', r) \<Longrightarrow> owed s' = owed s + (case r of None \<Rightarrow> 0 | Some _ \<Rightarrow> 1)"
  by (auto simp: c_to_cstring_def split: prod.splits option.splits jsval.splits)

lemma owed_atom_cstring:
  "c_atom_to_cstring Q s a = (s', r) \<Longrightarrow> owed s' = owed s + (case r of None \<Rightarrow> 0 | Some _ \<Rightarrow> 1)"
  by (cases a) (auto simp: c_atom_to_cstring_def dest: owed_cstring)

lemma owed_get_items: "conv_owes conv 0 \<Longrightarrow> get_items Q conv v i n s = Some (s', ts) \<Longrightarrow> owed s' = owed s"
  by (induction Q conv v i n s arbitrary: ts rule: get_items.induct)
    (auto simp: Let_def split: option.splits prod.splits dest!: conv_owesD)

lemma owed_array:
  "conv_owes conv 0 \<Longrightarrow> array_to_erl oob E Q conv s v = Some (s', t) \<Longrightarrow> owed s' = owed s"
  by (auto simp: array_to_erl_def Let_def split: option.splits prod.splits if_splits dest!: owed_get_items)

lemma owed_get_props:
  "conv_owes conv 0 \<Longrightarrow> get_props E Q conv v as m s = Some (s', t) \<Longrightarrow> owed s' = owed s - int (length as)"
  by (induction E Q conv v as m s rule: get_props.induct)
    (auto simp: Let_def split: option.splits prod.splits dest!: conv_owesD owed_atom_cstring)

lemma owed_object:
  assumes "conv_owes conv 0" "object_to_erl E Q conv s v = Some (s', t)"
  shows "owed s' = owed s"
  using assms(2)
  by (auto simp: object_to_erl_def Let_def split: option.splits prod.splits if_splits jsval.splits
      dest!: conv_owesD [OF assms(1)] owed_get_props [OF assms(1)] owed_cstring)

lemma owed_js_value_to_erl: "conv_owes (js_value_to_erl oob E Q n) 0"
proof (induction n)
  case 0
  then show ?case by (simp add: conv_owes_def)
next
  case (Suc n)
  have str: "string_to_erl E Q s v = (s', t) \<Longrightarrow> owed s' = owed s" for s v s' t
    by (auto simp: string_to_erl_def split: prod.splits option.splits dest: owed_cstring)
  show ?case
    unfolding conv_owes_def
    by (auto simp: Let_def split: jsval.splits prod.splits if_splits
        dest: str owed_array [OF Suc] owed_object [OF Suc])
qed

lemma owed_exception:
  "js_exception_to_erl oob E Q n s = Some (s', t) \<Longrightarrow> owed s' = owed s"
  by (auto simp: js_exception_to_erl_def free_opt_cstring_def Let_def split: prod.splits if_splits option.splits
      dest!: conv_owesD [OF owed_js_value_to_erl] owed_cstring)

section \<open>Stack use on terms\<close>

text \<open>The nesting depth of a term, which bounds the stack that converting it needs.\<close>

fun edepth :: "eterm \<Rightarrow> nat" where
  "edepth (ECons h t) = max (Suc (edepth h)) (edepth t)"
| "edepth (ETuple ts) = Suc (foldr (\<lambda>t m. max (edepth t) m) ts 0)"
| "edepth (EMap kvs) = Suc (foldr (\<lambda>kv m. max (edepth (snd kv)) m) kvs 0)"
| "edepth _ = 1"

lemma foldr_max_le: "foldr (\<lambda>x m. max (f x) m) xs 0 \<le> (n :: nat) \<longleftrightarrow> (\<forall>x \<in> set xs. f x \<le> n)"
  by (induction xs) auto

lemma edepth_tuple: "edepth (ETuple ts) \<le> Suc n \<longleftrightarrow> (\<forall>t \<in> set ts. edepth t \<le> n)"
  by (simp add: foldr_max_le)

lemma edepth_map: "edepth (EMap kvs) \<le> Suc n \<longleftrightarrow> (\<forall>kv \<in> set kvs. edepth (snd kv) \<le> n)"
  by (simp add: foldr_max_le)

lemma edepth_items: "eitems t = Some ts \<Longrightarrow> edepth t \<le> Suc n \<Longrightarrow> \<forall>x \<in> set ts. edepth x \<le> n"
  by (induction t arbitrary: ts rule: eitems.induct) auto

lemma edepth_pos: "0 < edepth t"
  by (induction t rule: edepth.induct) auto

lemma set_elems_total:
  "\<forall>t \<in> set ts. \<forall>s. conv s t \<noteq> None \<Longrightarrow> set_elems Q conv arr i ts s \<noteq> None"
  by (induction Q conv arr i ts s rule: set_elems.induct) (auto split: option.splits)

lemma set_pairs_total:
  "\<forall>kv \<in> set kvs. \<forall>s. conv s (snd kv) \<noteq> None \<Longrightarrow> set_pairs E Q conv obj kvs s \<noteq> None"
proof (induction E Q conv obj kvs s rule: set_pairs.induct)
  case (2 E Q conv obj k v kvs s)
  have "set_pair Q conv obj mk v s \<noteq> None" for mk s
    using 2(2) by (auto simp: set_pair_def split: option.splits prod.splits)
  with 2 show ?case by (auto split: option.splits)
qed simp

context erl_nif
begin

lemma cell_cons: "rep t = ECons a b \<Longrightarrow> \<exists>h r. get_list_cell E t = Some (h, r) \<and> rep h = a \<and> rep r = b"
  using get_list_cell [of t] by auto

lemma cell_none: "rep t = ENil \<Longrightarrow> get_list_cell E t = None"
  using get_list_cell [of t] by auto

lemma list_heads_items:
  "eitems (rep t) = Some ts \<Longrightarrow> \<exists>hs. list_heads E t = Some hs \<and> map rep hs = ts"
proof (induction ts arbitrary: t)
  case Nil
  then have "rep t = ENil" by (cases "rep t") auto
  then show ?case by (subst list_heads.simps) (simp add: cell_none)
next
  case (Cons x ts)
  then obtain b where b: "rep t = ECons x b" "eitems b = Some ts" by (cases "rep t") auto
  from cell_cons [OF b(1)] obtain h r where hr: "get_list_cell E t = Some (h, r)" "rep h = x" "rep r = b"
    by blast
  from Cons.IH [of r] hr b obtain hs where "list_heads E r = Some hs" "map rep hs = ts" by auto
  with hr show ?case by (subst list_heads.simps) simp
qed

lemma erl_term_to_js_total:
  "edepth (rep t) \<le> n \<Longrightarrow> erl_term_to_js oob E Q n s t \<noteq> None"
proof (induction n arbitrary: t s)
  case 0
  then show ?case using edepth_pos [of "rep t"] by simp
next
  case (Suc n)
  have tuple: "set_elems Q (erl_term_to_js oob E Q n) arr i ts s' \<noteq> None"
    if "get_tuple E t = Some ts" for ts arr i s'
  proof (rule set_elems_total, intro ballI allI)
    fix x s'' assume "x \<in> set ts"
    moreover have "rep t = ETuple (map rep ts)"
      using get_tuple [of t] that by (auto split: eterm.splits)
    ultimately show "erl_term_to_js oob E Q n s'' x \<noteq> None" using Suc.prems
      by (intro Suc.IH) (simp only: edepth_tuple, simp)
  qed
  have items: "\<exists>hs. list_heads E t = Some hs \<and> (\<forall>arr i s'. set_elems Q (erl_term_to_js oob E Q n) arr i hs s' \<noteq> None)"
    if l: "get_list_length E t = Some k" for k
  proof -
    from l obtain ts where ts: "eitems (rep t) = Some ts" using get_list_length [of t] by auto
    with list_heads_items obtain hs where hs: "list_heads E t = Some hs" "map rep hs = ts" by blast
    have "set_elems Q (erl_term_to_js oob E Q n) arr i hs s' \<noteq> None" for arr i s'
      using edepth_items [OF ts Suc.prems] hs(2) by (intro set_elems_total ballI allI Suc.IH) auto
    with hs show ?thesis by blast
  qed
  have pairs: "set_pairs E Q (erl_term_to_js oob E Q n) obj kvs s' \<noteq> None"
    if "map_pairs E t = Some kvs" for kvs obj s'
  proof (rule set_pairs_total, intro ballI allI)
    fix kv s'' assume "kv \<in> set kvs"
    moreover have "rep t = EMap (map (map_prod rep rep) kvs)"
      using map_pairs [of t] that by (auto split: eterm.splits)
    ultimately show "erl_term_to_js oob E Q n s'' (snd kv) \<noteq> None" using Suc.prems
      by (intro Suc.IH) (simp only: edepth_map, force)
  qed
  show ?case
    using tuple pairs by (auto split: option.splits prod.splits dest: items)
qed

end

end
