(* ===== verification/JSHeap.thy ===== *)
theory JSHeap
  imports Terms
begin

text \<open>
  The contract of the engine's object operations on plain data (arrays without holes, objects
  with data properties), and the own-property heap that provides it.
\<close>

section \<open>The contract\<close>

text \<open>
  \<open>arr h\<close> and \<open>obj h\<close> give the elements of the plain arrays and the own enumerable string
  properties of the plain objects of a heap, in enumeration order; \<open>refs h i\<close> is the number of
  references to object \<open>i\<close>. \<open>same\<close>: nothing of this changed. \<open>gained\<close>: one more reference to a value.
\<close>

type_synonym props = "(u16 list \<times> jsval) list"

definition cunits :: "string \<Rightarrow> u16 list" where
  "cunits s = map ucast (cstr s)"

definition add_ref :: "(nat \<Rightarrow> nat) \<Rightarrow> jsval \<Rightarrow> nat \<Rightarrow> nat" where
  "add_ref rc v = (case v of JObj j \<Rightarrow> rc(j := Suc (rc j)) | _ \<Rightarrow> rc)"

definition drop_ref :: "(nat \<Rightarrow> nat) \<Rightarrow> jsval \<Rightarrow> nat \<Rightarrow> nat" where
  "drop_ref rc v = (case v of JObj j \<Rightarrow> rc(j := rc j - 1) | _ \<Rightarrow> rc)"

definition live :: "(nat \<Rightarrow> nat) \<Rightarrow> jsval \<Rightarrow> bool" where
  "live rc v \<longleftrightarrow> (case v of JObj j \<Rightarrow> 1 \<le> rc j | _ \<Rightarrow> True)"

definition shared :: "(nat \<Rightarrow> nat) \<Rightarrow> jsval \<Rightarrow> bool" where
  "shared rc v \<longleftrightarrow> (case v of JObj j \<Rightarrow> 2 \<le> rc j | _ \<Rightarrow> True)"

text \<open>Names with a meaning of their own for plain objects.\<close>

definition special_name :: "u16 list \<Rightarrow> bool" where
  "special_name k \<longleftrightarrow> k = cunits ''__proto__''"

locale js_engine = allocator "qalloc Q" for Q :: "'h qjs" +
  fixes ok :: "'h \<Rightarrow> bool"
    and arr :: "'h \<Rightarrow> nat \<Rightarrow> jsval list option"
    and obj :: "'h \<Rightarrow> nat \<Rightarrow> props option"
    and refs :: "'h \<Rightarrow> nat \<Rightarrow> nat"
  assumes memory: "memory_ok (\<lambda>h'. ok h' \<and> arr h' = arr h \<and> obj h' = obj h \<and> refs h' = refs h) (qalloc Q)"
    and new_array: "ok h \<Longrightarrow> \<exists>h' i. new_array Q h = (h', JObj i) \<and> ok h' \<and> arr h i = None \<and> obj h i = None
        \<and> arr h' = (arr h)(i \<mapsto> []) \<and> obj h' = obj h \<and> refs h' = (refs h)(i := 1)"
    and new_object: "ok h \<Longrightarrow> \<exists>h' i. new_object Q h = (h', JObj i) \<and> ok h' \<and> arr h i = None \<and> obj h i = None
        \<and> arr h' = arr h \<and> obj h' = (obj h)(i \<mapsto> []) \<and> refs h' = (refs h)(i := 1)"
    and set_idx: "ok h \<Longrightarrow> arr h i = Some xs \<Longrightarrow> unat n = length xs \<Longrightarrow> live (refs h) v \<Longrightarrow>
        \<exists>h' r. set_idx Q h (JObj i) n v = (h', r) \<and> ok h'
          \<and> arr h' = (arr h)(i \<mapsto> xs @ [v]) \<and> obj h' = obj h \<and> refs h' = refs h"
    and set_prop: "ok h \<Longrightarrow> obj h i = Some ps \<Longrightarrow> k \<notin> fst ` set ps \<Longrightarrow> \<not> special_name k \<Longrightarrow>
        live (refs h) v \<Longrightarrow> \<exists>h' r ps'. set_prop Q h (JObj i) (Atom k) v = (h', r) \<and> ok h'
          \<and> arr h' = arr h \<and> obj h' = (obj h)(i \<mapsto> ps') \<and> refs h' = refs h
          \<and> map_of ps' = (map_of ps)(k \<mapsto> v) \<and> length ps' = Suc (length ps)"
    and get_idx: "ok h \<Longrightarrow> arr h i = Some xs \<Longrightarrow> unat n < length xs \<Longrightarrow>
        \<exists>h'. get_idx Q h (JObj i) n = (h', xs ! unat n) \<and> ok h'
          \<and> arr h' = arr h \<and> obj h' = obj h \<and> refs h' = add_ref (refs h) (xs ! unat n)"
    and get_length: "ok h \<Longrightarrow> arr h i = Some xs \<Longrightarrow> length xs < 2 ^ 31 \<Longrightarrow>
        \<exists>h'. get_prop Q h (JObj i) (Atom (cunits ''length'')) = (h', JInt (of_nat (length xs))) \<and> ok h'
          \<and> arr h' = arr h \<and> obj h' = obj h \<and> refs h' = refs h"
    and get_prop: "ok h \<Longrightarrow> obj h i = Some ps \<Longrightarrow> map_of ps k = Some v \<Longrightarrow>
        \<exists>h'. get_prop Q h (JObj i) (Atom k) = (h', v) \<and> ok h'
          \<and> arr h' = arr h \<and> obj h' = obj h \<and> refs h' = add_ref (refs h) v"
    and get_type: "ok h \<Longrightarrow> obj h i = Some ps \<Longrightarrow> map_of ps (cunits ''__beamjs_type'') = None \<Longrightarrow>
        \<exists>h'. get_prop Q h (JObj i) (Atom (cunits ''__beamjs_type'')) = (h', JUndef) \<and> ok h'
          \<and> arr h' = arr h \<and> obj h' = obj h \<and> refs h' = refs h"
    and own_names: "ok h \<Longrightarrow> obj h i = Some ps \<Longrightarrow>
        \<exists>h'. own_names Q h (JObj i) = (h', Some (map (Atom \<circ> fst) ps)) \<and> ok h'
          \<and> arr h' = arr h \<and> obj h' = obj h \<and> refs h' = refs h"
    and is_array: "ok h \<Longrightarrow> arr h i \<noteq> None \<or> obj h i \<noteq> None \<Longrightarrow>
        \<exists>h'. is_array Q h (JObj i) = (h', if arr h i \<noteq> None then 1 else 0) \<and> ok h'
          \<and> arr h' = arr h \<and> obj h' = obj h \<and> refs h' = refs h"
    and free_val: "ok h \<Longrightarrow> shared (refs h) v \<Longrightarrow> ok (free_val Q h v) \<and> arr (free_val Q h v) = arr h
        \<and> obj (free_val Q h v) = obj h \<and> refs (free_val Q h v) = drop_ref (refs h) v"
    and free_atom: "ok h \<Longrightarrow> ok (free_atom Q h a) \<and> arr (free_atom Q h a) = arr h
        \<and> obj (free_atom Q h a) = obj h \<and> refs (free_atom Q h a) = refs h"
    and arr_live: "ok h \<Longrightarrow> arr h i = Some xs \<Longrightarrow> v \<in> set xs \<Longrightarrow> live (refs h) v"
    and obj_live: "ok h \<Longrightarrow> obj h i = Some ps \<Longrightarrow> v \<in> snd ` set ps \<Longrightarrow> live (refs h) v"
    and keys_distinct: "ok h \<Longrightarrow> obj h i = Some ps \<Longrightarrow> distinct (map fst ps)"
    and disjoint: "ok h \<Longrightarrow> arr h i \<noteq> None \<Longrightarrow> obj h i = None"

section \<open>The own-property heap\<close>

text \<open>
  Objects by number: the elements of an array, or the properties of an object with the array
  indices first in ascending order and then the other names in order of creation, as
  \<open>JS_GetOwnPropertyNames\<close> enumerates them. There are no accessors, no proxies and no script
  code, so nothing throws; every allocation succeeds.
\<close>

datatype cell = CArr "jsval list" | CObj props

record jheap =
  cells :: "nat \<Rightarrow> cell option"
  counts :: "nat \<Rightarrow> nat"
  next_cell :: nat
  pending :: jsval

definition heap_arr :: "jheap \<Rightarrow> nat \<Rightarrow> jsval list option" where
  "heap_arr h i = (case cells h i of Some (CArr xs) \<Rightarrow> Some xs | _ \<Rightarrow> None)"

definition heap_obj :: "jheap \<Rightarrow> nat \<Rightarrow> props option" where
  "heap_obj h i = (case cells h i of Some (CObj ps) \<Rightarrow> Some ps | _ \<Rightarrow> None)"

text \<open>The decimal value of a canonical array index below \<open>2 ^ 32 - 1\<close>.\<close>

definition array_index :: "u16 list \<Rightarrow> nat option" where
  "array_index us = (if us \<noteq> [] \<and> (\<forall>u \<in> set us. 48 \<le> u \<and> u \<le> 57) \<and> (hd us = 48 \<longrightarrow> length us = 1)
      \<and> fold (\<lambda>u n. n * 10 + (unat u - 48)) us 0 < 2 ^ 32 - 1
    then Some (fold (\<lambda>u n. n * 10 + (unat u - 48)) us 0) else None)"

text \<open>Whether a property named \<open>k\<close> is enumerated before one named \<open>k'\<close> that is already there.\<close>

definition name_before :: "u16 list \<Rightarrow> u16 list \<Rightarrow> bool" where
  "name_before k k' = (case array_index k of None \<Rightarrow> False
     | Some n \<Rightarrow> (case array_index k' of None \<Rightarrow> True | Some n' \<Rightarrow> n < n'))"

fun insert_prop :: "u16 list \<Rightarrow> jsval \<Rightarrow> props \<Rightarrow> props" where
  "insert_prop k v [] = [(k, v)]"
| "insert_prop k v ((k', v') # ps) =
    (if name_before k k' then (k, v) # (k', v') # ps else (k', v') # insert_prop k v ps)"

fun update_prop :: "u16 list \<Rightarrow> jsval \<Rightarrow> props \<Rightarrow> props" where
  "update_prop k v [] = []"
| "update_prop k v ((k', v') # ps) = (if k = k' then (k, v) # ps else (k', v') # update_prop k v ps)"

text \<open>Releasing the last reference to an object frees it; its own references are released in turn.\<close>

fun heap_free :: "nat \<Rightarrow> jheap \<Rightarrow> jsval \<Rightarrow> jheap" where
  "heap_free 0 h v = h"
| "heap_free (Suc n) h v = (case v of
     JObj i \<Rightarrow>
       if counts h i \<ge> 2 then h\<lparr>counts := (counts h)(i := counts h i - 1)\<rparr>
       else (let h' = h\<lparr>counts := (counts h)(i := 0), cells := (cells h)(i := None)\<rparr> in
         (case cells h i of Some (CArr xs) \<Rightarrow> fold (\<lambda>x g. heap_free n g x) xs h'
          | Some (CObj ps) \<Rightarrow> fold (\<lambda>p g. heap_free n g (snd p)) ps h'
          | None \<Rightarrow> h'))
   | _ \<Rightarrow> h)"

definition heap_ref :: "jheap \<Rightarrow> jsval \<Rightarrow> jheap" where
  "heap_ref h v = h\<lparr>counts := add_ref (counts h) v\<rparr>"

definition heap_get :: "jheap \<Rightarrow> jsval \<Rightarrow> u16 list \<Rightarrow> jheap \<times> jsval" where
  "heap_get h v k = (case v of
     JObj i \<Rightarrow> (case cells h i of
         Some (CArr xs) \<Rightarrow>
           if k = cunits ''length'' then (h, JInt (of_nat (length xs)))
           else (case array_index k of Some n \<Rightarrow> if n < length xs then (heap_ref h (xs ! n), xs ! n) else (h, JUndef)
             | None \<Rightarrow> (h, JUndef))
       | Some (CObj ps) \<Rightarrow> (case map_of ps k of Some x \<Rightarrow> (heap_ref h x, x) | None \<Rightarrow> (h, JUndef))
       | None \<Rightarrow> (h, JUndef))
   | _ \<Rightarrow> (h, JUndef))"

definition heap_new :: "jheap \<Rightarrow> cell \<Rightarrow> jheap \<times> jsval" where
  "heap_new h c = (h\<lparr>cells := (cells h)(next_cell h \<mapsto> c), counts := (counts h)(next_cell h := 1),
     next_cell := Suc (next_cell h)\<rparr>, JObj (next_cell h))"

definition heap_set_idx :: "jheap \<Rightarrow> jsval \<Rightarrow> u32 \<Rightarrow> jsval \<Rightarrow> jheap \<times> int" where
  "heap_set_idx h v k x = (case v of
     JObj i \<Rightarrow> (case cells h i of
         Some (CArr xs) \<Rightarrow>
           if unat k < length xs
             then (heap_free (next_cell h) (h\<lparr>cells := (cells h)(i \<mapsto> CArr (xs[unat k := x]))\<rparr>) (xs ! unat k), 1)
           else (h\<lparr>cells := (cells h)(i \<mapsto> CArr (xs @ replicate (unat k - length xs) JUndef @ [x]))\<rparr>, 1)
       | _ \<Rightarrow> (h, - 1))
   | _ \<Rightarrow> (h, - 1))"

definition heap_set_prop :: "jheap \<Rightarrow> jsval \<Rightarrow> jsatom \<Rightarrow> jsval \<Rightarrow> jheap \<times> int" where
  "heap_set_prop h v a x = (case (v, a) of
     (JObj i, Atom k) \<Rightarrow> (case cells h i of
         Some (CObj ps) \<Rightarrow>
           if special_name k then (heap_free (next_cell h) h x, 1)
           else (case map_of ps k of
               None \<Rightarrow> (h\<lparr>cells := (cells h)(i \<mapsto> CObj (insert_prop k x ps))\<rparr>, 1)
             | Some y \<Rightarrow> (heap_free (next_cell h) (h\<lparr>cells := (cells h)(i \<mapsto> CObj (update_prop k x ps))\<rparr>) y, 1))
       | _ \<Rightarrow> (h, - 1))
   | _ \<Rightarrow> (h, - 1))"

text \<open>The engine on this heap. \<open>free_val\<close> follows at most as many references as there are cells.\<close>

definition plain_js :: "jheap qjs" where
  "plain_js = \<lparr>
     qalloc = (\<lambda>h n. (h, Some 0)),
     new_array = (\<lambda>h. heap_new h (CArr [])),
     new_object = (\<lambda>h. heap_new h (CObj [])),
     set_idx = heap_set_idx,
     set_prop = heap_set_prop,
     get_idx = (\<lambda>h v k. case v of
        JObj i \<Rightarrow> (case cells h i of
            Some (CArr xs) \<Rightarrow> if unat k < length xs then (heap_ref h (xs ! unat k), xs ! unat k) else (h, JUndef)
          | _ \<Rightarrow> (h, JUndef))
      | _ \<Rightarrow> (h, JUndef)),
     get_prop = (\<lambda>h v a. case a of Atom k \<Rightarrow> heap_get h v k | AtomNull \<Rightarrow> (h, JUndef)),
     own_names = (\<lambda>h v. case v of
        JObj i \<Rightarrow> (h, case cells h i of Some (CObj ps) \<Rightarrow> Some (map (Atom \<circ> fst) ps) | _ \<Rightarrow> Some [])
      | _ \<Rightarrow> (h, None)),
     is_array = (\<lambda>h v. (h, case v of JObj i \<Rightarrow> if heap_arr h i \<noteq> None then 1 else 0 | _ \<Rightarrow> 0)),
     is_error = (\<lambda>h v. False),
     to_string = (\<lambda>h v. (h, None)),
     to_number = (\<lambda>h v. (h, JExc)),
     big_int64 = (\<lambda>h p. 0),
     has_atom8 = (\<lambda>h b. False),
     free_val = (\<lambda>h v. heap_free (Suc (next_cell h)) h v),
     free_atom = (\<lambda>h a. h),
     get_exception = (\<lambda>h. (h\<lparr>pending := JNull\<rparr>, pending h))\<rparr>"

definition heap_ok :: "jheap \<Rightarrow> bool" where
  "heap_ok h \<longleftrightarrow> (\<forall>i. next_cell h \<le> i \<longrightarrow> cells h i = None)
     \<and> (\<forall>i xs v. cells h i = Some (CArr xs) \<longrightarrow> v \<in> set xs \<longrightarrow> live (counts h) v)
     \<and> (\<forall>i ps. cells h i = Some (CObj ps) \<longrightarrow> distinct (map fst ps) \<and> (\<forall>v \<in> snd ` set ps. live (counts h) v))"

lemma live_mono: "live rc v \<Longrightarrow> (\<And>j. rc j \<le> rc' j) \<Longrightarrow> live rc' v"
  by (auto simp: live_def split: jsval.splits intro: le_trans)

lemma live_upd: "live rc v \<Longrightarrow> 1 \<le> n \<Longrightarrow> live (rc(i := n)) v"
  by (auto simp: live_def split: jsval.splits)

lemma live_add_ref: "live rc v \<Longrightarrow> live (add_ref rc x) v"
  by (erule live_mono) (auto simp: add_ref_def split: jsval.splits)

lemma live_drop_shared: "live rc v \<Longrightarrow> shared rc x \<Longrightarrow> live (drop_ref rc x) v"
  by (auto simp: live_def shared_def drop_ref_def split: jsval.splits)

lemma insert_prop_set: "set (insert_prop k v ps) = insert (k, v) (set ps)"
  by (induction k v ps rule: insert_prop.induct) auto

lemma insert_prop_map_of: "k \<notin> fst ` set ps \<Longrightarrow> map_of (insert_prop k v ps) = (map_of ps)(k \<mapsto> v)"
  by (induction k v ps rule: insert_prop.induct) (auto simp: fun_eq_iff)

lemma insert_prop_distinct:
  "k \<notin> fst ` set ps \<Longrightarrow> distinct (map fst ps) \<Longrightarrow> distinct (map fst (insert_prop k v ps))"
  by (induction k v ps rule: insert_prop.induct) (auto simp: insert_prop_set)

lemma insert_prop_length: "length (insert_prop k v ps) = Suc (length ps)"
  by (induction k v ps rule: insert_prop.induct) auto

lemma heap_view_upd:
  "heap_arr (h\<lparr>cells := (cells h)(i \<mapsto> CArr xs)\<rparr>) = (heap_arr h)(i \<mapsto> xs)"
  "cells h i = Some (CArr ys) \<or> cells h i = None \<Longrightarrow>
     heap_obj (h\<lparr>cells := (cells h)(i \<mapsto> CArr xs)\<rparr>) = heap_obj h"
  "heap_obj (h\<lparr>cells := (cells h)(i \<mapsto> CObj ps)\<rparr>) = (heap_obj h)(i \<mapsto> ps)"
  "cells h i = Some (CObj qs) \<or> cells h i = None \<Longrightarrow>
     heap_arr (h\<lparr>cells := (cells h)(i \<mapsto> CObj ps)\<rparr>) = heap_arr h"
  by (auto simp: heap_arr_def heap_obj_def fun_eq_iff split: option.splits cell.splits)

lemma heap_view_counts [simp]:
  "heap_arr (h\<lparr>counts := c\<rparr>) = heap_arr h" "heap_obj (h\<lparr>counts := c\<rparr>) = heap_obj h"
  by (simp_all add: heap_arr_def heap_obj_def fun_eq_iff)

lemma heap_arr_Some: "heap_arr h i = Some xs \<longleftrightarrow> cells h i = Some (CArr xs)"
  by (auto simp: heap_arr_def split: option.splits cell.splits)

lemma heap_obj_Some: "heap_obj h i = Some ps \<longleftrightarrow> cells h i = Some (CObj ps)"
  by (auto simp: heap_obj_def split: option.splits cell.splits)

lemma heap_ok_counts: "heap_ok h \<Longrightarrow> (\<And>v. live (counts h) v \<Longrightarrow> live c v) \<Longrightarrow> heap_ok (h\<lparr>counts := c\<rparr>)"
  unfolding heap_ok_def by auto

lemma heap_ok_new:
  assumes "heap_ok h"
  shows "heap_ok (fst (heap_new h (CArr [])))" "heap_ok (fst (heap_new h (CObj [])))"
  using assms by (auto simp: heap_ok_def heap_new_def intro!: live_upd) (metis snd_conv)+

lemma heap_ok_fresh: "heap_ok h \<Longrightarrow> cells h (next_cell h) = None"
  by (simp add: heap_ok_def)

lemma heap_ok_set_arr:
  assumes "heap_ok h" "cells h i = Some (CArr xs)" "live (counts h) v"
  shows "heap_ok (h\<lparr>cells := (cells h)(i \<mapsto> CArr (xs @ [v]))\<rparr>)"
  using assms unfolding heap_ok_def by auto

lemma heap_ok_set_obj:
  assumes "heap_ok h" "cells h i = Some (CObj ps)" "live (counts h) v" "k \<notin> fst ` set ps"
  shows "heap_ok (h\<lparr>cells := (cells h)(i \<mapsto> CObj (insert_prop k v ps))\<rparr>)"
  using assms unfolding heap_ok_def
  by (auto simp: insert_prop_set intro!: insert_prop_distinct)

interpretation plain: allocator "qalloc plain_js"
  by unfold_locales (simp add: plain_js_def)

lemma plain_memory:
  "memory_ok (\<lambda>h'. heap_ok h' \<and> heap_arr h' = heap_arr h \<and> heap_obj h' = heap_obj h \<and> counts h' = counts h)
    (qalloc plain_js)"
  by (simp add: memory_ok_def plain_js_def)

lemma plain_new_array:
  "heap_ok h \<Longrightarrow> \<exists>h' i. new_array plain_js h = (h', JObj i) \<and> heap_ok h' \<and> heap_arr h i = None
    \<and> heap_obj h i = None \<and> heap_arr h' = (heap_arr h)(i \<mapsto> []) \<and> heap_obj h' = heap_obj h
    \<and> counts h' = (counts h)(i := 1)"
  using heap_ok_new(1) [of h] heap_ok_fresh [of h]
  by (auto simp: plain_js_def heap_new_def heap_arr_def heap_obj_def fun_eq_iff)

lemma plain_new_object:
  "heap_ok h \<Longrightarrow> \<exists>h' i. new_object plain_js h = (h', JObj i) \<and> heap_ok h' \<and> heap_arr h i = None
    \<and> heap_obj h i = None \<and> heap_arr h' = heap_arr h \<and> heap_obj h' = (heap_obj h)(i \<mapsto> [])
    \<and> counts h' = (counts h)(i := 1)"
  using heap_ok_new(2) [of h] heap_ok_fresh [of h]
  by (auto simp: plain_js_def heap_new_def heap_arr_def heap_obj_def fun_eq_iff)

lemma plain_set_idx:
  "heap_ok h \<Longrightarrow> heap_arr h i = Some xs \<Longrightarrow> unat n = length xs \<Longrightarrow> live (counts h) v \<Longrightarrow>
    \<exists>h' r. set_idx plain_js h (JObj i) n v = (h', r) \<and> heap_ok h'
      \<and> heap_arr h' = (heap_arr h)(i \<mapsto> xs @ [v]) \<and> heap_obj h' = heap_obj h \<and> counts h' = counts h"
  using heap_ok_set_arr [of h i xs v] heap_view_upd(1) [of h i "xs @ [v]"] heap_view_upd(2) [of h i xs "xs @ [v]"]
  by (simp add: plain_js_def heap_set_idx_def heap_arr_Some)

lemma plain_set_prop:
  "heap_ok h \<Longrightarrow> heap_obj h i = Some ps \<Longrightarrow> k \<notin> fst ` set ps \<Longrightarrow> \<not> special_name k \<Longrightarrow> live (counts h) v \<Longrightarrow>
    \<exists>h' r ps'. set_prop plain_js h (JObj i) (Atom k) v = (h', r) \<and> heap_ok h'
      \<and> heap_arr h' = heap_arr h \<and> heap_obj h' = (heap_obj h)(i \<mapsto> ps') \<and> counts h' = counts h
      \<and> map_of ps' = (map_of ps)(k \<mapsto> v) \<and> length ps' = Suc (length ps)"
proof -
  assume h: "heap_ok h" "heap_obj h i = Some ps" "k \<notin> fst ` set ps" "\<not> special_name k" "live (counts h) v"
  have c: "cells h i = Some (CObj ps)" using h(2) by (simp add: heap_obj_Some)
  have m: "map_of ps k = None" using h(3) by (simp add: map_of_eq_None_iff)
  show ?thesis
    using heap_ok_set_obj [OF h(1) c h(5,3)] heap_view_upd(3) [of h i "insert_prop k v ps"]
      heap_view_upd(4) [of h i ps "insert_prop k v ps"] insert_prop_map_of [OF h(3)] insert_prop_length [of k v ps]
    by (auto simp: plain_js_def heap_set_prop_def c m h(4))
qed

lemma plain_get_idx:
  "heap_ok h \<Longrightarrow> heap_arr h i = Some xs \<Longrightarrow> unat n < length xs \<Longrightarrow>
    \<exists>h'. get_idx plain_js h (JObj i) n = (h', xs ! unat n) \<and> heap_ok h'
      \<and> heap_arr h' = heap_arr h \<and> heap_obj h' = heap_obj h \<and> counts h' = add_ref (counts h) (xs ! unat n)"
  by (auto simp: plain_js_def heap_ref_def heap_arr_Some intro!: heap_ok_counts live_add_ref)

lemma plain_get_length:
  "heap_ok h \<Longrightarrow> heap_arr h i = Some xs \<Longrightarrow> length xs < 2 ^ 31 \<Longrightarrow>
    \<exists>h'. get_prop plain_js h (JObj i) (Atom (cunits ''length'')) = (h', JInt (of_nat (length xs))) \<and> heap_ok h'
      \<and> heap_arr h' = heap_arr h \<and> heap_obj h' = heap_obj h \<and> counts h' = counts h"
  by (simp add: plain_js_def heap_get_def heap_arr_Some)

lemma plain_get_prop:
  "heap_ok h \<Longrightarrow> heap_obj h i = Some ps \<Longrightarrow> map_of ps k = Some v \<Longrightarrow>
    \<exists>h'. get_prop plain_js h (JObj i) (Atom k) = (h', v) \<and> heap_ok h'
      \<and> heap_arr h' = heap_arr h \<and> heap_obj h' = heap_obj h \<and> counts h' = add_ref (counts h) v"
  by (auto simp: plain_js_def heap_get_def heap_ref_def heap_obj_Some intro!: heap_ok_counts live_add_ref)

lemma plain_get_type:
  "heap_ok h \<Longrightarrow> heap_obj h i = Some ps \<Longrightarrow> map_of ps (cunits ''__beamjs_type'') = None \<Longrightarrow>
    \<exists>h'. get_prop plain_js h (JObj i) (Atom (cunits ''__beamjs_type'')) = (h', JUndef) \<and> heap_ok h'
      \<and> heap_arr h' = heap_arr h \<and> heap_obj h' = heap_obj h \<and> counts h' = counts h"
  by (simp add: plain_js_def heap_get_def heap_obj_Some)

lemma plain_own_names:
  "heap_ok h \<Longrightarrow> heap_obj h i = Some ps \<Longrightarrow>
    \<exists>h'. own_names plain_js h (JObj i) = (h', Some (map (Atom \<circ> fst) ps)) \<and> heap_ok h'
      \<and> heap_arr h' = heap_arr h \<and> heap_obj h' = heap_obj h \<and> counts h' = counts h"
  by (simp add: plain_js_def heap_obj_Some)

lemma plain_is_array:
  "heap_ok h \<Longrightarrow> heap_arr h i \<noteq> None \<or> heap_obj h i \<noteq> None \<Longrightarrow>
    \<exists>h'. is_array plain_js h (JObj i) = (h', if heap_arr h i \<noteq> None then 1 else 0) \<and> heap_ok h'
      \<and> heap_arr h' = heap_arr h \<and> heap_obj h' = heap_obj h \<and> counts h' = counts h"
  by (simp add: plain_js_def)

lemma plain_free_val:
  "heap_ok h \<Longrightarrow> shared (counts h) v \<Longrightarrow> heap_ok (free_val plain_js h v) \<and> heap_arr (free_val plain_js h v) = heap_arr h
    \<and> heap_obj (free_val plain_js h v) = heap_obj h \<and> counts (free_val plain_js h v) = drop_ref (counts h) v"
  using heap_ok_counts [of h "drop_ref (counts h) v"] live_drop_shared [of "counts h" _ v]
  by (cases v) (auto simp: plain_js_def shared_def drop_ref_def)

lemma plain_free_atom:
  "heap_ok h \<Longrightarrow> heap_ok (free_atom plain_js h a) \<and> heap_arr (free_atom plain_js h a) = heap_arr h
    \<and> heap_obj (free_atom plain_js h a) = heap_obj h \<and> counts (free_atom plain_js h a) = counts h"
  by (simp add: plain_js_def)

lemma plain_arr_live: "heap_ok h \<Longrightarrow> heap_arr h i = Some xs \<Longrightarrow> v \<in> set xs \<Longrightarrow> live (counts h) v"
  by (auto simp: heap_ok_def heap_arr_Some)

lemma plain_obj_live: "heap_ok h \<Longrightarrow> heap_obj h i = Some ps \<Longrightarrow> v \<in> snd ` set ps \<Longrightarrow> live (counts h) v"
  unfolding heap_ok_def heap_obj_Some by blast

lemma plain_keys_distinct: "heap_ok h \<Longrightarrow> heap_obj h i = Some ps \<Longrightarrow> distinct (map fst ps)"
  unfolding heap_ok_def heap_obj_Some by blast

lemma plain_disjoint: "heap_ok h \<Longrightarrow> heap_arr h i \<noteq> None \<Longrightarrow> heap_obj h i = None"
  by (auto simp: heap_arr_def heap_obj_def split: option.splits cell.splits)

lemmas plain_laws = plain_memory plain_new_array plain_new_object plain_set_idx plain_set_prop plain_get_idx
  plain_get_length plain_get_prop plain_get_type plain_own_names plain_is_array plain_free_val plain_free_atom
  plain_arr_live plain_obj_live plain_keys_distinct plain_disjoint

interpretation plain: js_engine plain_js heap_ok heap_arr heap_obj counts
  by unfold_locales (fact plain_laws)+

end
