(* ===== verification/TermRefine.thy ===== *)
theory TermRefine
  imports TermConvert JSHeap
begin

text \<open>
  What the conversions of term_convert.c mean: a specification on trees of plain data, the proof
  that \<open>erl_term_to_js\<close> builds the specified tree in the heap and that \<open>js_value_to_erl\<close> reads it
  back, and the terms that survive the round trip.
\<close>

section \<open>Plain data\<close>

datatype jdata =
    DUndef
  | DNull
  | DBool bool
  | DInt s32
  | DFloat u64
  | DStr "u16 list"
  | DArr "jdata list"
  | DObj "(u16 list \<times> jdata) list"

text \<open>
  \<open>denotes a o v d\<close>: with arrays \<open>a\<close> and objects \<open>o\<close>, the value \<open>v\<close> is the tree \<open>d\<close>. Properties
  are compared by name, not by order.
\<close>

inductive denotes :: "(nat \<Rightarrow> jsval list option) \<Rightarrow> (nat \<Rightarrow> props option) \<Rightarrow> jsval \<Rightarrow> jdata \<Rightarrow> bool"
  for a and ob where
  "denotes a ob JUndef DUndef"
| "denotes a ob JNull DNull"
| "denotes a ob (JBool b) (DBool b)"
| "denotes a ob (JInt i) (DInt i)"
| "denotes a ob (JFloat f) (DFloat f)"
| "denotes a ob (JStr s) (DStr (units s))"
| "a i = Some xs \<Longrightarrow> list_all2 (denotes a ob) xs ds \<Longrightarrow> denotes a ob (JObj i) (DArr ds)"
| "ob i = Some ps \<Longrightarrow> length ps = length ds \<Longrightarrow> distinct (map fst ds) \<Longrightarrow>
     (\<forall>k. rel_option (denotes a ob) (map_of ps k) (map_of ds k)) \<Longrightarrow> denotes a ob (JObj i) (DObj ds)"

inductive_cases denotesE: "denotes a ob v d"

lemma denotes_mono:
  assumes "a \<subseteq>\<^sub>m a'" "ob \<subseteq>\<^sub>m ob'"
  shows "denotes a ob v d \<Longrightarrow> denotes a' ob' v d"
proof (induction rule: denotes.induct)
  case (7 i xs ds)
  have "a' i = Some xs" using 7(1) assms(1) by (auto simp: map_le_def dom_def)
  moreover have "list_all2 (denotes a' ob') xs ds" using 7(2) by (rule list_all2_mono) simp
  ultimately show ?case by (rule denotes.intros)
next
  case (8 i ps ds)
  have "ob' i = Some ps" using 8(1) assms(2) by (auto simp: map_le_def dom_def)
  moreover have "\<forall>k. rel_option (denotes a' ob') (map_of ps k) (map_of ds k)"
    using 8(4) by (auto elim: option.rel_mono_strong)
  ultimately show ?case using 8(2,3) by (intro denotes.intros)
qed (auto intro: denotes.intros)

section \<open>The tree of a term\<close>

text \<open>A key of a map: a binary, or an atom whose name fits the buffer; other keys are dropped.\<close>

fun key_name :: "eterm \<Rightarrow> u16 list option" where
  "key_name (EBin b) = Some (utf16_of_utf8 b)"
| "key_name (EAtom cs) = (if length cs < 512 then map_option (\<lambda>b. utf16_of_utf8 (cbuf b)) (latin1 cs) else None)"
| "key_name _ = None"

definition num_data :: "(u64 \<Rightarrow> int) \<Rightarrow> u64 \<Rightarrow> jdata" where
  "num_data oob d = (case new_float64 oob d of Some i \<Rightarrow> DInt i | None \<Rightarrow> DFloat d)"

definition int_data :: "(u64 \<Rightarrow> int) \<Rightarrow> int \<Rightarrow> jdata" where
  "int_data oob i = (if in_range 32 i then DInt (word_of_int i)
     else if in_range 64 i then num_data oob (f64_of_int i) else DNull)"

definition atom_data :: "u32 list \<Rightarrow> jdata" where
  "atom_data cs = (case (if length cs < 256 then latin1 cs else None) of None \<Rightarrow> DNull
     | Some b \<Rightarrow>
       (if cbuf b = cstr ''true'' then DBool True
        else if cbuf b = cstr ''false'' then DBool False
        else if cbuf b = cstr ''nil'' \<or> cbuf b = cstr ''null'' then DNull
        else if cbuf b = cstr ''undefined'' then DUndef
        else DStr (utf16_of_utf8 b)))"

fun js_data :: "(u64 \<Rightarrow> int) \<Rightarrow> eterm \<Rightarrow> jdata"
  and js_items :: "(u64 \<Rightarrow> int) \<Rightarrow> eterm \<Rightarrow> jdata list" where
  "js_data oob (EInt i) = int_data oob i"
| "js_data oob (EFloat d) = num_data oob d"
| "js_data oob (EAtom cs) = atom_data cs"
| "js_data oob (EBin b) = DStr (utf16_of_utf8 b)"
| "js_data oob ENil = DStr []"
| "js_data oob (ECons h t) = (case iolist (ECons h t) of
     Some b \<Rightarrow> DStr (utf16_of_utf8 b)
   | None \<Rightarrow> (case eitems (ECons h t) of Some _ \<Rightarrow> DArr (js_data oob h # js_items oob t) | None \<Rightarrow> DNull))"
| "js_data oob (ETuple ts) = DArr (map (js_data oob) ts)"
| "js_data oob (EMap kvs) = DObj (concat (map (\<lambda>kv. case key_name (fst kv) of
     None \<Rightarrow> [] | Some n \<Rightarrow> [(n, js_data oob (snd kv))]) kvs))"
| "js_data oob (EOther n) = DNull"
| "js_items oob (ECons h t) = js_data oob h # js_items oob t"
| "js_items oob _ = []"

text \<open>
  The terms whose conversion the specification describes: every name fits a JavaScript string,
  every sequence fits an array; the names of a map are ASCII (other names depend on the atom
  table), pairwise different and not \<open>__proto__\<close>.
\<close>

definition ascii :: "u8 list \<Rightarrow> bool" where
  "ascii b \<longleftrightarrow> (\<forall>x \<in> set b. x < 0x80)"

fun key_bytes :: "eterm \<Rightarrow> u8 list option" where
  "key_bytes (EBin b) = Some b"
| "key_bytes (EAtom cs) = (if length cs < 512 then map_option cbuf (latin1 cs) else None)"
| "key_bytes _ = None"

definition good_key :: "eterm \<Rightarrow> bool" where
  "good_key k \<longleftrightarrow> (case key_bytes k of None \<Rightarrow> True
     | Some b \<Rightarrow> ascii b \<and> length b < 2 ^ 30 \<and> \<not> special_name (utf16_of_utf8 b))"

definition names :: "(eterm \<times> 'a) list \<Rightarrow> u16 list list" where
  "names kvs = concat (map (\<lambda>kv. case key_name (fst kv) of None \<Rightarrow> [] | Some n \<Rightarrow> [n]) kvs)"

definition fits_string :: "eterm \<Rightarrow> bool" where
  "fits_string t \<longleftrightarrow> (case iolist t of None \<Rightarrow> True | Some b \<Rightarrow> length b < 2 ^ 30)"

fun convertible :: "eterm \<Rightarrow> bool" and convertible_tail :: "eterm \<Rightarrow> bool" where
  "convertible (ECons h t) = (fits_string (ECons h t) \<and> convertible h \<and> convertible_tail t
     \<and> (case eitems (ECons h t) of None \<Rightarrow> True | Some ts \<Rightarrow> length ts < 2 ^ 32))"
| "convertible (ETuple ts) = (length ts < 2 ^ 32 \<and> (\<forall>t \<in> set ts. convertible t))"
| "convertible (EMap kvs) = (distinct (names kvs) \<and> (\<forall>kv \<in> set kvs. good_key (fst kv) \<and> convertible (snd kv)))"
| "convertible t = fits_string t"
| "convertible_tail (ECons h t) = (convertible h \<and> convertible_tail t)"
| "convertible_tail t = True"

lemma utf16_ascii: "ascii b \<Longrightarrow> utf16_of_utf8 b = map ucast b"
  by (induction b) (simp_all add: ascii_def utf16_of_ascii del: utf16_of_utf8.simps(2))

lemma key_name_bytes: "key_name k = map_option utf16_of_utf8 (key_bytes k)"
  by (cases k) (auto simp: option.map_comp comp_def)

lemma js_items_map: "eitems t = Some ts \<Longrightarrow> js_items oob t = map (js_data oob) ts"
  by (induction t arbitrary: ts rule: eitems.induct) auto

lemma js_data_list:
  "iolist t = None \<Longrightarrow> eitems t = Some ts \<Longrightarrow> js_data oob t = DArr (map (js_data oob) ts)"
  by (cases t) (auto simp: js_items_map)

lemma convertible_tail_items: "eitems t = Some ts \<Longrightarrow> convertible_tail t \<longleftrightarrow> (\<forall>x \<in> set ts. convertible x)"
  by (induction t arbitrary: ts rule: eitems.induct) auto

lemma convertible_items: "eitems t = Some ts \<Longrightarrow> convertible t \<Longrightarrow> \<forall>x \<in> set ts. convertible x"
  using convertible_tail_items [of t ts] by (cases t) auto

lemma convertible_list:
  "eitems t = Some ts \<Longrightarrow> iolist t = None \<Longrightarrow> length ts < 2 ^ 32 \<Longrightarrow> \<forall>x \<in> set ts. convertible x \<Longrightarrow> convertible t"
  using convertible_tail_items [of t ts] by (cases t) (auto simp: fits_string_def simp del: eitems.simps(2))

lemma convertible_length: "eitems t = Some ts \<Longrightarrow> convertible t \<Longrightarrow> length ts < 2 ^ 32"
  by (cases t) (auto simp del: eitems.simps(2) split: option.splits)

section \<open>The conversion builds the tree\<close>

locale bridge = erl_nif E rep + js_engine Q ok arr obj refs
  for E :: "'t enif" and rep and Q :: "'h qjs" and ok arr obj refs
begin

text \<open>The handles not in use in a heap.\<close>

definition unused :: "'h \<Rightarrow> nat set" where
  "unused h = {i. arr h i = None \<and> obj h i = None}"

text \<open>The arrays and objects of \<open>h0\<close> are still there in \<open>h\<close>, with the same reference counts.\<close>

definition grown :: "'h \<Rightarrow> 'h \<Rightarrow> bool" where
  "grown h0 h \<longleftrightarrow> ok h \<and> arr h0 \<subseteq>\<^sub>m arr h \<and> obj h0 \<subseteq>\<^sub>m obj h \<and> (\<forall>j. j \<notin> unused h0 \<longrightarrow> refs h j = refs h0 j)"

text \<open>A new value \<open>v\<close> that is the tree \<open>d\<close>, made of new objects only.\<close>

definition built :: "'h \<Rightarrow> 'h \<Rightarrow> jsval \<Rightarrow> jdata \<Rightarrow> bool" where
  "built h0 h v d \<longleftrightarrow> grown h0 h \<and> live (refs h) v
     \<and> denotes (arr h |` unused h0) (obj h |` unused h0) v d"

text \<open>An array or an object under construction: its contents so far are new objects other than itself.\<close>

definition filling_arr :: "'h \<Rightarrow> nat \<Rightarrow> 'h \<Rightarrow> jdata list \<Rightarrow> bool" where
  "filling_arr h0 i h ds \<longleftrightarrow> grown h0 h \<and> i \<in> unused h0 \<and> 1 \<le> refs h i \<and> (\<exists>xs. arr h i = Some xs
     \<and> list_all2 (denotes (arr h |` (unused h0 - {i})) (obj h |` (unused h0 - {i}))) xs ds)"

definition filling_obj :: "'h \<Rightarrow> nat \<Rightarrow> 'h \<Rightarrow> (u16 list \<times> jdata) list \<Rightarrow> bool" where
  "filling_obj h0 i h ds \<longleftrightarrow> grown h0 h \<and> i \<in> unused h0 \<and> 1 \<le> refs h i \<and> distinct (map fst ds)
     \<and> (\<exists>ps. obj h i = Some ps \<and> length ps = length ds
     \<and> (\<forall>k. rel_option (denotes (arr h |` (unused h0 - {i})) (obj h |` (unused h0 - {i})))
          (map_of ps k) (map_of ds k)))"

lemma unused_grown: "grown h0 h \<Longrightarrow> unused h \<subseteq> unused h0"
  by (auto simp: grown_def unused_def map_le_def dom_def)

lemma grown_refl: "ok h \<Longrightarrow> grown h h"
  by (simp add: grown_def)

lemma grown_trans: "grown h0 h \<Longrightarrow> grown h h' \<Longrightarrow> grown h0 h'"
  using unused_grown [of h0 h]
  by (auto simp: grown_def intro: map_le_trans)

lemma restrict_le:
  assumes "m \<subseteq>\<^sub>m m'" "A \<subseteq> B"
  shows "(m |` A) \<subseteq>\<^sub>m (m' |` B)"
  using assms by (auto simp: map_le_def restrict_map_def dom_def split: if_splits)

lemma denotes_grown:
  assumes "denotes (arr h |` A) (obj h |` A) v d" "grown h h'" "A \<subseteq> B"
  shows "denotes (arr h' |` B) (obj h' |` B) v d"
  using assms(1) by (rule denotes_mono [rotated 2]) (use assms in \<open>auto simp: grown_def intro: restrict_le\<close>)

lemma filling_arr_start:
  assumes "ok h0" "arr h0 i = None" "obj h0 i = None" "ok h" "arr h = (arr h0)(i \<mapsto> [])" "obj h = obj h0"
    "refs h = (refs h0)(i := 1)"
  shows "filling_arr h0 i h []"
  using assms by (auto simp: filling_arr_def grown_def unused_def map_le_def)

lemma filling_obj_start:
  assumes "ok h0" "arr h0 i = None" "obj h0 i = None" "ok h" "arr h = arr h0" "obj h = (obj h0)(i \<mapsto> [])"
    "refs h = (refs h0)(i := 1)"
  shows "filling_obj h0 i h []"
  using assms by (auto simp: filling_obj_def grown_def unused_def map_le_def)

lemma filling_arr_done: "filling_arr h0 i h ds \<Longrightarrow> built h0 h (JObj i) (DArr ds)"
proof -
  assume f: "filling_arr h0 i h ds"
  then obtain xs where xs: "arr h i = Some xs"
    "list_all2 (denotes (arr h |` (unused h0 - {i})) (obj h |` (unused h0 - {i}))) xs ds"
    by (auto simp: filling_arr_def)
  have g: "grown h h" using f by (auto simp: filling_arr_def grown_def)
  have "list_all2 (denotes (arr h |` unused h0) (obj h |` unused h0)) xs ds"
    using xs(2) by (rule list_all2_mono) (rule denotes_grown [OF _ g], auto)
  then have "denotes (arr h |` unused h0) (obj h |` unused h0) (JObj i) (DArr ds)"
    using f xs(1) by (intro denotes.intros(7)) (auto simp: filling_arr_def)
  then show ?thesis using f by (auto simp: built_def filling_arr_def live_def)
qed

lemma filling_obj_done: "filling_obj h0 i h ds \<Longrightarrow> built h0 h (JObj i) (DObj ds)"
proof -
  assume f: "filling_obj h0 i h ds"
  then obtain ps where ps: "obj h i = Some ps" "length ps = length ds"
    "\<forall>k. rel_option (denotes (arr h |` (unused h0 - {i})) (obj h |` (unused h0 - {i}))) (map_of ps k) (map_of ds k)"
    by (auto simp: filling_obj_def)
  have g: "grown h h" using f by (auto simp: filling_obj_def grown_def)
  have "\<forall>k. rel_option (denotes (arr h |` unused h0) (obj h |` unused h0)) (map_of ps k) (map_of ds k)"
  proof
    fix k
    from ps(3) have "rel_option (denotes (arr h |` (unused h0 - {i})) (obj h |` (unused h0 - {i})))
        (map_of ps k) (map_of ds k)" by blast
    then show "rel_option (denotes (arr h |` unused h0) (obj h |` unused h0)) (map_of ps k) (map_of ds k)"
      by (rule option.rel_mono_strong) (rule denotes_grown [OF _ g], auto)
  qed
  then have "denotes (arr h |` unused h0) (obj h |` unused h0) (JObj i) (DObj ds)"
    using f ps(1,2) by (intro denotes.intros(8)) (auto simp: filling_obj_def)
  then show ?thesis using f by (auto simp: built_def filling_obj_def live_def)
qed

text \<open>Storing a new value in the array, or under a new name in the object.\<close>

lemma filling_arr_step:
  assumes f: "filling_arr h0 i h ds" and b: "built h h1 v d" and n: "unat n = length ds"
  shows "filling_arr h0 i (fst (set_idx Q h1 (JObj i) n v)) (ds @ [d])"
proof -
  let ?M = "unused h0 - {i}"
  from f obtain xs where g: "grown h0 h" and i: "i \<in> unused h0" "1 \<le> refs h i" and xs: "arr h i = Some xs"
    "list_all2 (denotes (arr h |` ?M) (obj h |` ?M)) xs ds"
    by (auto simp: filling_arr_def)
  from b have g1: "grown h h1" and v: "live (refs h1) v" "denotes (arr h1 |` unused h) (obj h1 |` unused h) v d"
    by (auto simp: built_def)
  have iu: "i \<notin> unused h" using xs(1) by (simp add: unused_def)
  have xs1: "arr h1 i = Some xs" using g1 xs(1) by (auto simp: grown_def map_le_def dom_def)
  have "length xs = unat n" using xs(2) n by (simp add: list_all2_lengthD)
  with set_idx [of h1 i xs n v] g1 v(1) xs1 obtain h2 r where h2: "set_idx Q h1 (JObj i) n v = (h2, r)"
    "ok h2" "arr h2 = (arr h1)(i \<mapsto> xs @ [v])" "obj h2 = obj h1" "refs h2 = refs h1"
    by (auto simp: grown_def)
  have g02: "grown h0 h2"
    using grown_trans [OF g g1] h2 i(1) by (auto simp: grown_def map_le_def unused_def dom_def)
  have M: "arr h2 |` ?M = arr h1 |` ?M" using h2(3) by (auto simp: restrict_map_def fun_eq_iff)
  have "list_all2 (denotes (arr h1 |` ?M) (obj h1 |` ?M)) xs ds"
    using xs(2) by (rule list_all2_mono) (rule denotes_grown [OF _ g1], auto)
  moreover have "unused h \<subseteq> ?M" using unused_grown [OF g] iu by auto
  then have "denotes (arr h1 |` ?M) (obj h1 |` ?M) v d"
    using denotes_grown [OF v(2), of h1 ?M] g1 by (auto simp: grown_def)
  ultimately have "list_all2 (denotes (arr h2 |` ?M) (obj h2 |` ?M)) (xs @ [v]) (ds @ [d])"
    unfolding M h2(4) by (simp add: list_all2_appendI)
  moreover have "1 \<le> refs h2 i" using g1 i(2) iu h2(5) by (simp add: grown_def)
  ultimately show ?thesis using g02 i(1) h2(1,3) by (simp add: filling_arr_def)
qed

lemma filling_obj_step:
  assumes f: "filling_obj h0 i h ds" and b: "built h h1 v d" and k: "k \<notin> fst ` set ds" "\<not> special_name k"
    and a: "ok ha" "arr ha = arr h1" "obj ha = obj h1" "refs ha = refs h1"
  shows "filling_obj h0 i (fst (set_prop Q ha (JObj i) (Atom k) v)) (ds @ [(k, d)])"
proof -
  let ?M = "unused h0 - {i}"
  from f obtain ps where g: "grown h0 h" and i: "i \<in> unused h0" "1 \<le> refs h i" and ps: "obj h i = Some ps"
    "length ps = length ds" and rel: "\<And>n. rel_option (denotes (arr h |` ?M) (obj h |` ?M)) (map_of ps n) (map_of ds n)"
    and dist: "distinct (map fst ds)"
    by (auto simp: filling_obj_def)
  from b have g1: "grown h h1" and v: "live (refs h1) v" "denotes (arr h1 |` unused h) (obj h1 |` unused h) v d"
    by (auto simp: built_def)
  have ga: "grown h ha" using g1 a by (simp add: grown_def)
  have iu: "i \<notin> unused h" using ps(1) by (simp add: unused_def)
  have ps1: "obj ha i = Some ps" using ga ps(1) by (auto simp: grown_def map_le_def dom_def)
  have "map_of ds k = None" using k(1) by (simp add: map_of_eq_None_iff)
  with rel [of k] have "map_of ps k = None" by simp
  then have "k \<notin> fst ` set ps" by (simp add: map_of_eq_None_iff)
  with set_prop [OF a(1) ps1 _ k(2)] v(1) a(4) obtain h2 r ps' where h2: "set_prop Q ha (JObj i) (Atom k) v = (h2, r)"
    "ok h2" "arr h2 = arr ha" "obj h2 = (obj ha)(i \<mapsto> ps')" "refs h2 = refs ha"
    and ps': "map_of ps' = (map_of ps)(k \<mapsto> v)" "length ps' = Suc (length ps)"
    by metis
  have g02: "grown h0 h2"
    using grown_trans [OF g ga] h2 i(1) by (auto simp: grown_def map_le_def unused_def dom_def)
  have M: "obj h2 |` ?M = obj h1 |` ?M" using h2(4) a(3) by (auto simp: restrict_map_def fun_eq_iff)
  have vM: "denotes (arr h1 |` ?M) (obj h1 |` ?M) v d"
    using denotes_grown [OF v(2), of h1 ?M] g1 unused_grown [OF g] iu by (auto simp: grown_def)
  have "rel_option (denotes (arr h2 |` ?M) (obj h2 |` ?M)) (map_of ps' n) (map_of (ds @ [(k, d)]) n)" for n
  proof (cases "n = k")
    case True
    then show ?thesis using vM \<open>map_of ds k = None\<close> unfolding M h2(3) a(2) by (simp add: ps' map_add_def)
  next
    case False
    have "rel_option (denotes (arr h1 |` ?M) (obj h1 |` ?M)) (map_of ps n) (map_of ds n)"
      using rel [of n] by (rule option.rel_mono_strong) (rule denotes_grown [OF _ g1], auto)
    then show ?thesis using False unfolding M h2(3) a(2)
      by (auto simp: ps' map_add_def split: option.splits)
  qed
  moreover have "1 \<le> refs h2 i" using ga i(2) iu h2(5) by (simp add: grown_def)
  ultimately show ?thesis using g02 i(1) h2(1,4) ps' ps(2) dist k(1) by (simp add: filling_obj_def)
qed

definition converts :: "('h js \<Rightarrow> 't \<Rightarrow> ('h js \<times> jsval) option) \<Rightarrow> 't \<Rightarrow> jdata \<Rightarrow> bool" where
  "converts conv t d \<longleftrightarrow> (\<forall>s. ok (heap s) \<longrightarrow>
     (\<exists>s' v. conv s t = Some (s', v) \<and> built (heap s) (heap s') v d))"

lemma set_elems_built:
  "list_all2 (converts conv) ts ds \<Longrightarrow> filling_arr h0 i (heap s) ds0 \<Longrightarrow> unat n = length ds0 \<Longrightarrow>
   length ds0 + length ts < 2 ^ 32 \<Longrightarrow>
   \<exists>s'. set_elems Q conv (JObj i) n ts s = Some s' \<and> filling_arr h0 i (heap s') (ds0 @ ds)"
proof (induction ts ds arbitrary: n s ds0 rule: list_all2_induct)
  case Nil
  then show ?case by simp
next
  case (Cons t ts d ds)
  have "ok (heap s)" using Cons.prems(1) by (auto simp: filling_arr_def grown_def)
  with Cons.hyps(1) obtain s1 v where c: "conv s t = Some (s1, v)" "built (heap s) (heap s1) v d"
    by (auto simp: converts_def)
  let ?s2 = "owe s1 (fst (set_idx Q (heap s1) (JObj i) n v)) (- 1)"
  have f: "filling_arr h0 i (heap ?s2) (ds0 @ [d])"
    using filling_arr_step [OF Cons.prems(1) c(2) Cons.prems(2)] by simp
  have "unat n + unat (1 :: u32) < 2 ^ LENGTH(32)" using Cons.prems(2,3) by simp
  then have "unat (n + 1) = length (ds0 @ [d])"
    using Cons.prems(2) by (simp only: unat_add_small) simp
  from Cons.IH [OF f this] Cons.prems(3) c(1) show ?case by simp
qed

lemma new_atom_ascii:
  assumes "ok h" "ascii b" "length b < 2 ^ 30"
  shows "\<exists>h'. JS_NewAtomLen Q h b = (h', Atom (utf16_of_utf8 b)) \<and> ok h' \<and> arr h' = arr h \<and> obj h' = obj h
    \<and> refs h' = refs h"
  using JS_NewStringLen_ok [OF memory [of h], of h b] assms
  by (auto simp: JS_NewAtomLen_def utf16_ascii)

lemma set_pair_built:
  assumes "converts conv t d" "filling_obj h0 i (heap s) ds" "k \<notin> fst ` set ds" "\<not> special_name k"
    and atom: "\<And>h. ok h \<Longrightarrow> \<exists>h'. mk h = (h', Atom k) \<and> ok h' \<and> arr h' = arr h \<and> obj h' = obj h \<and> refs h' = refs h"
  shows "\<exists>s'. set_pair Q conv (JObj i) mk t s = Some s' \<and> filling_obj h0 i (heap s') (ds @ [(k, d)])"
proof -
  have "ok (heap s)" using assms(2) by (auto simp: filling_obj_def grown_def)
  with assms(1) obtain s1 v where c: "conv s t = Some (s1, v)" "built (heap s) (heap s1) v d"
    by (auto simp: converts_def)
  then have "ok (heap s1)" by (auto simp: built_def grown_def)
  from atom [OF this] obtain h2 where h2: "mk (heap s1) = (h2, Atom k)" "ok h2" "arr h2 = arr (heap s1)"
    "obj h2 = obj (heap s1)" "refs h2 = refs (heap s1)" by blast
  let ?h3 = "fst (set_prop Q h2 (JObj i) (Atom k) v)"
  have f: "filling_obj h0 i ?h3 (ds @ [(k, d)])"
    by (rule filling_obj_step [OF assms(2) c(2) assms(3,4) h2(2-5)])
  then have "ok ?h3" by (auto simp: filling_obj_def grown_def)
  from free_atom [OF this, of "Atom k"] f
  have "filling_obj h0 i (free_atom Q ?h3 (Atom k)) (ds @ [(k, d)])"
    by (simp add: filling_obj_def grown_def)
  then show ?thesis using c(1) h2(1) by (simp add: set_pair_def Let_def c_free_atom_def)
qed

text \<open>What the pairs of a map contribute to the object.\<close>

definition pair_data :: "(u64 \<Rightarrow> int) \<Rightarrow> eterm \<times> eterm \<Rightarrow> (u16 list \<times> jdata) list" where
  "pair_data oob kv = (case key_name (fst kv) of None \<Rightarrow> [] | Some n \<Rightarrow> [(n, js_data oob (snd kv))])"

lemma key_cases:
  assumes "good_key (rep k)" "ok h"
  shows "(\<exists>b. inspect_binary E k = Some b \<and> rep k = EBin b \<and> ascii b \<and> length b < 2 ^ 30 \<and> \<not> special_name (utf16_of_utf8 b))
    \<or> (\<exists>a. inspect_binary E k = None \<and> get_atom E k 512 = Some a \<and> key_bytes (rep k) = Some (cbuf a)
        \<and> ascii (cbuf a) \<and> length (cbuf a) < 2 ^ 30 \<and> \<not> special_name (utf16_of_utf8 (cbuf a)))
    \<or> (inspect_binary E k = None \<and> get_atom E k 512 = None \<and> key_bytes (rep k) = None)"
  using assms by (cases "rep k") (auto simp: inspect_binary get_atom good_key_def split: option.splits if_splits)

lemma set_pairs_built:
  "\<forall>kv \<in> set kvs. good_key (rep (fst kv)) \<and> converts conv (snd kv) (js_data oob (rep (snd kv))) \<Longrightarrow>
   distinct (map fst ds0 @ names (map (map_prod rep rep) kvs)) \<Longrightarrow> filling_obj h0 i (heap s) ds0 \<Longrightarrow>
   \<exists>s'. set_pairs E Q conv (JObj i) kvs s = Some s'
     \<and> filling_obj h0 i (heap s') (ds0 @ concat (map (pair_data oob) (map (map_prod rep rep) kvs)))"
proof (induction kvs arbitrary: s ds0)
  case Nil
  then show ?case by simp
next
  case (Cons kv kvs)
  obtain k v where kv: "kv = (k, v)" by force
  have good: "good_key (rep k)" and conv: "converts conv v (js_data oob (rep v))"
    using Cons.prems(1) kv by auto
  have okh: "ok (heap s)" using Cons.prems(3) by (auto simp: filling_obj_def grown_def)
  consider (skip) "inspect_binary E k = None" "get_atom E k 512 = None" "key_bytes (rep k) = None"
    | (name) b where "key_bytes (rep k) = Some b" "ascii b" "length b < 2 ^ 30"
        "\<not> special_name (utf16_of_utf8 b)" "\<And>s. (case inspect_binary E k of
          Some b \<Rightarrow> set_pair Q conv (JObj i) (\<lambda>h. JS_NewAtomLen Q h b) v s
        | None \<Rightarrow> (case get_atom E k 512 of Some a \<Rightarrow> set_pair Q conv (JObj i) (\<lambda>h. JS_NewAtom Q h a) v s
            | None \<Rightarrow> Some s)) = set_pair Q conv (JObj i) (\<lambda>h. JS_NewAtomLen Q h b) v s"
    using key_cases [OF good okh] by (auto simp: JS_NewAtom_def)
  then show ?case
  proof cases
    case skip
    then have "key_name (rep k) = None" by (simp add: key_name_bytes)
    with skip Cons.IH [of ds0 s] Cons.prems kv show ?thesis by (simp add: names_def pair_data_def)
  next
    case name
    let ?n = "utf16_of_utf8 b" and ?d = "js_data oob (rep v)"
    have n: "key_name (rep k) = Some ?n" using name(1) by (simp add: key_name_bytes)
    have fresh: "?n \<notin> fst ` set ds0" using Cons.prems(2) kv n by (auto simp: names_def)
    have "\<exists>s'. set_pair Q conv (JObj i) (\<lambda>h. JS_NewAtomLen Q h b) v s = Some s'
        \<and> filling_obj h0 i (heap s') (ds0 @ [(?n, ?d)])"
      by (rule set_pair_built [OF conv Cons.prems(3) fresh name(4)]) (rule new_atom_ascii [OF _ name(2,3)])
    then obtain s1 where s1: "set_pair Q conv (JObj i) (\<lambda>h. JS_NewAtomLen Q h b) v s = Some s1"
      "filling_obj h0 i (heap s1) (ds0 @ [(?n, ?d)])" by blast
    have "distinct (map fst (ds0 @ [(?n, ?d)]) @ names (map (map_prod rep rep) kvs))"
      using Cons.prems(2) kv n by (simp add: names_def)
    from Cons.IH [OF _ this s1(2)] Cons.prems(1) s1(1) kv n name(5)
    show ?thesis by (auto simp: pair_data_def)
  qed
qed

lemma not_tuple: "(\<And>ts. rep t \<noteq> ETuple ts) \<Longrightarrow> get_tuple E t = None"
  using get_tuple [of t] by (auto split: eterm.splits)

lemma not_map: "(\<And>kvs. rep t \<noteq> EMap kvs) \<Longrightarrow> map_pairs E t = None"
  using map_pairs [of t] by (auto split: eterm.splits)

lemma built_same:
  assumes "ok h" "ok h'" "arr h' = arr h" "obj h' = obj h" "refs h' = refs h" "\<And>i. v \<noteq> JObj i"
    "\<And>a ob. denotes a ob v d"
  shows "built h h' v d"
  using assms by (auto simp: built_def grown_def live_def split: jsval.splits)

lemma new_string_built:
  assumes "ok (heap s)" "length b < 2 ^ 30"
  shows "\<exists>s' v. c_new_string Q s b = (s', v) \<and> built (heap s) (heap s') v (DStr (utf16_of_utf8 b))"
proof -
  from JS_NewStringLen_ok [OF memory [of "heap s"], of "heap s" b] assms obtain h' str where
    h': "JS_NewStringLen (qalloc Q) (heap s) b = (h', Some str)" "ok h'" "arr h' = arr (heap s)"
    "obj h' = obj (heap s)" "refs h' = refs (heap s)" "units str = utf16_of_utf8 b" by blast
  have "denotes a ob (JStr str) (DStr (utf16_of_utf8 b))" for a ob
    using denotes.intros(6) [of a ob str] h'(6) by simp
  then have "built (heap s) h' (JStr str) (DStr (utf16_of_utf8 b))"
    by (intro built_same) (use assms(1) h' in auto)
  with h'(1) show ?thesis by (simp add: c_new_string_def)
qed

lemma num_built: "ok h \<Longrightarrow> built h h (JS_NewFloat64 oob d) (num_data oob d)"
  by (rule built_same) (auto simp: JS_NewFloat64_def num_data_def intro: denotes.intros split: option.splits)

lemma atom_built:
  assumes "ok (heap s)" "length b < 256" "latin1 cs = Some b"
  shows "\<exists>s' v. c_new_atom_name Q s b = (s', v) \<and> built (heap s) (heap s') v (atom_data cs)"
proof -
  have "length cs = length b" using assms(3) by (auto simp: latin1_def split: if_splits)
  then have d: "atom_data cs = (if cbuf b = cstr ''true'' then DBool True
        else if cbuf b = cstr ''false'' then DBool False
        else if cbuf b = cstr ''nil'' \<or> cbuf b = cstr ''null'' then DNull
        else if cbuf b = cstr ''undefined'' then DUndef else DStr (utf16_of_utf8 b))"
    using assms(2,3) by (simp add: atom_data_def)
  have c: "built (heap s) (heap s) v d" if "\<And>i. v \<noteq> JObj i" "\<And>a ob. denotes a ob v d" for v d
    by (rule built_same) (use assms(1) that in auto)
  show ?thesis
    using new_string_built [OF assms(1), of b] assms(2) unfolding d c_new_atom_name_def
    by (auto intro!: c denotes.intros)
qed

lemma in_range_32_64: "in_range 32 i \<Longrightarrow> in_range 64 i"
  by (simp add: in_range_def)

lemma int64_built:
  assumes "ok h" "\<not> in_range 32 i" "in_range 64 i"
  shows "built h h (c_new_int64 oob (word_of_int i)) (int_data oob i)"
proof -
  have "sint (word_of_int i :: s64) = i"
    using assms(3) by (intro sint_word_of_int_small) (simp_all add: in_range_def)
  then have "c_new_int64 oob (word_of_int i) = JS_NewFloat64 oob (f64_of_int i)"
    using assms(2) by (auto simp: c_new_int64_def in_range_def)
  then show ?thesis using num_built [OF assms(1)] assms(2,3) by (simp add: int_data_def)
qed

lemma list_loop_built:
  assumes it: "eitems (rep t) = Some ts" and len: "length ts < 2 ^ 32"
    and conv: "\<And>x. rep x \<in> set ts \<Longrightarrow> converts conv x (js_data oob (rep x))" and okh: "ok (heap s)"
  shows "\<exists>h i hs s'. new_array Q (heap s) = (h, JObj i) \<and> list_heads E t = Some hs
    \<and> set_elems Q conv (JObj i) 0 hs (owe s h 1) = Some s'
    \<and> built (heap s) (heap s') (JObj i) (DArr (map (js_data oob) ts))"
proof -
  from list_heads_items [OF it] obtain hs where hs: "list_heads E t = Some hs" "map rep hs = ts" by blast
  from new_array [OF okh] obtain h i where h: "new_array Q (heap s) = (h, JObj i)" "ok h" "arr (heap s) i = None"
    "obj (heap s) i = None" "arr h = (arr (heap s))(i \<mapsto> [])" "obj h = obj (heap s)" "refs h = (refs (heap s))(i := 1)"
    by blast
  have f: "filling_arr (heap s) i (heap (owe s h 1)) []"
    using filling_arr_start [OF okh h(3,4,2,5,6,7)] by simp
  have "list_all2 (converts conv) hs (map (js_data oob) ts)"
    using conv hs(2) by (auto simp: list_all2_map2 list.rel_refl_strong list_all2_conv_all_nth)
  from set_elems_built [OF this f, of 0] len hs(2) obtain s' where
    "set_elems Q conv (JObj i) 0 hs (owe s h 1) = Some s'"
    "filling_arr (heap s) i (heap s') (map (js_data oob) ts)" by auto
  with h(1) hs(1) filling_arr_done show ?thesis by blast
qed

lemma tuple_loop_built:
  assumes t: "rep t = ETuple ts" and len: "length ts < 2 ^ 32"
    and conv: "\<And>x. rep x \<in> set ts \<Longrightarrow> converts conv x (js_data oob (rep x))" and okh: "ok (heap s)"
  shows "\<exists>h i hs s'. new_array Q (heap s) = (h, JObj i) \<and> get_tuple E t = Some hs
    \<and> set_elems Q conv (JObj i) 0 hs (owe s h 1) = Some s'
    \<and> built (heap s) (heap s') (JObj i) (DArr (map (js_data oob) ts))"
proof -
  obtain hs where hs: "get_tuple E t = Some hs" "map rep hs = ts" using get_tuple [of t] t by auto
  from new_array [OF okh] obtain h i where h: "new_array Q (heap s) = (h, JObj i)" "ok h" "arr (heap s) i = None"
    "obj (heap s) i = None" "arr h = (arr (heap s))(i \<mapsto> [])" "obj h = obj (heap s)" "refs h = (refs (heap s))(i := 1)"
    by blast
  have f: "filling_arr (heap s) i (heap (owe s h 1)) []"
    using filling_arr_start [OF okh h(3,4,2,5,6,7)] by simp
  have "list_all2 (converts conv) hs (map (js_data oob) ts)"
    using conv hs(2) by (auto simp: list_all2_map2 list.rel_refl_strong list_all2_conv_all_nth)
  from set_elems_built [OF this f, of 0] len hs(2) obtain s' where
    "set_elems Q conv (JObj i) 0 hs (owe s h 1) = Some s'"
    "filling_arr (heap s) i (heap s') (map (js_data oob) ts)" by auto
  with h(1) hs(1) filling_arr_done show ?thesis by blast
qed

lemma map_loop_built:
  assumes t: "rep t = EMap kvs" and names: "distinct (names kvs)"
    and conv: "\<And>x kv. kv \<in> set kvs \<Longrightarrow> rep x = snd kv \<Longrightarrow> converts conv x (js_data oob (snd kv))"
    and keys: "\<And>kv. kv \<in> set kvs \<Longrightarrow> good_key (fst kv)" and okh: "ok (heap s)"
  shows "\<exists>h i ps s'. new_object Q (heap s) = (h, JObj i) \<and> map_pairs E t = Some ps
    \<and> set_pairs E Q conv (JObj i) ps (owe s h 1) = Some s'
    \<and> built (heap s) (heap s') (JObj i) (DObj (concat (map (pair_data oob) kvs)))"
proof -
  obtain ps where ps: "map_pairs E t = Some ps" "map (map_prod rep rep) ps = kvs" using map_pairs [of t] t by auto
  from new_object [OF okh] obtain h i where h: "new_object Q (heap s) = (h, JObj i)" "ok h" "arr (heap s) i = None"
    "obj (heap s) i = None" "arr h = arr (heap s)" "obj h = (obj (heap s))(i \<mapsto> [])" "refs h = (refs (heap s))(i := 1)"
    by blast
  have f: "filling_obj (heap s) i (heap (owe s h 1)) []"
    using filling_obj_start [OF okh h(3,4,2,5,6,7)] by simp
  have "\<forall>kv \<in> set ps. good_key (rep (fst kv)) \<and> converts conv (snd kv) (js_data oob (rep (snd kv)))"
  proof
    fix kv assume "kv \<in> set ps"
    then have "map_prod rep rep kv \<in> set kvs" using ps(2) by auto
    then show "good_key (rep (fst kv)) \<and> converts conv (snd kv) (js_data oob (rep (snd kv)))"
      using keys [of "map_prod rep rep kv"] conv [of "map_prod rep rep kv" "snd kv"]
      by (cases kv) auto
  qed
  from set_pairs_built [OF this _ f] names ps(2) obtain s' where
    "set_pairs E Q conv (JObj i) ps (owe s h 1) = Some s'"
    "filling_obj (heap s) i (heap s') (concat (map (pair_data oob) kvs))" by auto
  with h(1) ps(1) filling_obj_done show ?thesis by blast
qed

lemma scalar_none:
  assumes "rep t = ECons a b \<and> iolist (rep t) = None \<or> (\<exists>ts. rep t = ETuple ts) \<or> (\<exists>kvs. rep t = EMap kvs)"
  shows "scalar_to_js oob E Q s t = None"
  using assms by (auto simp: scalar_to_js_def get_int get_long get_int64 get_double get_atom_length get_atom
      inspect_binary inspect_iolist split: option.splits)

lemma scalar_built:
  assumes okh: "ok (heap s)" and fits: "fits_string (rep t)"
    and kind: "\<And>ts. rep t \<noteq> ETuple ts" "\<And>kvs. rep t \<noteq> EMap kvs" "(\<forall>a b. rep t \<noteq> ECons a b) \<or> iolist (rep t) \<noteq> None"
  shows "(\<exists>s' v. scalar_to_js oob E Q s t = Some (s', v) \<and> built (heap s) (heap s') v (js_data oob (rep t)))
    \<or> (scalar_to_js oob E Q s t = None \<and> js_data oob (rep t) = DNull \<and> eitems (rep t) = None)"
proof -
  note api = get_int get_long get_int64 get_double get_atom_length get_atom inspect_binary inspect_iolist
  have same: "built (heap s) (heap s) v d" if "\<And>i. v \<noteq> JObj i" "\<And>a ob. denotes a ob v d" for v d
    by (rule built_same) (use okh that in auto)
  have io: "\<exists>s' v. scalar_to_js oob E Q s t = Some (s', v) \<and> built (heap s) (heap s') v (DStr (utf16_of_utf8 b))"
    if "iolist (rep t) = Some b" for b
    using new_string_built [OF okh, of b] fits that
    by (cases "rep t") (auto simp: scalar_to_js_def api fits_string_def split: option.splits)
  show ?thesis
  proof (cases "rep t")
    case (EInt i)
    then show ?thesis
      using int64_built [OF okh, of i oob] same [of "JInt (word_of_int i)" "DInt (word_of_int i)"]
      by (auto simp: scalar_to_js_def api int_data_def intro: denotes.intros)
  next
    case (EFloat d)
    then show ?thesis using num_built [OF okh, of oob d] by (auto simp: scalar_to_js_def api)
  next
    case (EAtom cs)
    then show ?thesis
      using atom_built [OF okh, of "the (latin1 cs)" cs]
      by (cases "latin1 cs") (auto simp: scalar_to_js_def api atom_data_def latin1_def split: if_splits)
  next
    case (EBin b)
    with io [of b] show ?thesis by simp
  next
    case ENil
    with io [of "[]"] show ?thesis by simp
  next
    case (ECons a b)
    with kind(3) obtain bs where "iolist (rep t) = Some bs" by auto
    with io [of bs] ECons show ?thesis by (auto split: option.splits)
  next
    case (EOther n)
    then show ?thesis by (simp add: scalar_to_js_def api)
  qed (use kind in auto)
qed

lemma erl_term_to_js_converts:
  "convertible (rep t) \<Longrightarrow> edepth (rep t) \<le> n \<Longrightarrow> converts (erl_term_to_js oob E Q n) t (js_data oob (rep t))"
proof (induction n arbitrary: t)
  case 0
  then show ?case using edepth_pos [of "rep t"] by simp
next
  case (Suc n)
  let ?conv = "erl_term_to_js oob E Q n"
  show ?case
    unfolding converts_def
  proof (intro allI impI)
    fix s :: "'h js" assume okh: "ok (heap s)"
    show "\<exists>s' v. erl_term_to_js oob E Q (Suc n) s t = Some (s', v) \<and> built (heap s) (heap s') v (js_data oob (rep t))"
    proof -
      consider (tuple) ts where "rep t = ETuple ts" | (map) kvs where "rep t = EMap kvs"
        | (list) a b ts where "rep t = ECons a b" "iolist (rep t) = None" "eitems (rep t) = Some ts"
        | (improper) a b where "rep t = ECons a b" "iolist (rep t) = None" "eitems (rep t) = None"
        | (scalar) "\<And>ts. rep t \<noteq> ETuple ts" "\<And>kvs. rep t \<noteq> EMap kvs" "(\<forall>a b. rep t \<noteq> ECons a b) \<or> iolist (rep t) \<noteq> None"
        by (cases "rep t"; cases "iolist (rep t)"; cases "eitems (rep t)") auto
      then show ?thesis
      proof cases
        case (tuple ts)
        have "converts ?conv x (js_data oob (rep x))" if "rep x \<in> set ts" for x
          using Suc.prems that tuple by (intro Suc.IH) (auto simp: foldr_max_le)
        from tuple_loop_built [OF tuple _ this okh] Suc.prems(1) tuple show ?thesis
          by (auto simp: scalar_none)
      next
        case (map kvs)
        have c: "\<And>x kv. kv \<in> set kvs \<Longrightarrow> rep x = snd kv \<Longrightarrow> converts ?conv x (js_data oob (snd kv))"
        proof -
          fix x kv assume kv: "kv \<in> set kvs" "rep x = snd kv"
          have "\<forall>kv \<in> set kvs. edepth (snd kv) \<le> n" "\<forall>kv \<in> set kvs. convertible (snd kv)"
            using Suc.prems map by (simp_all add: foldr_max_le)
          from bspec [OF this(1) kv(1)] bspec [OF this(2) kv(1)] kv(2) Suc.IH [of x]
          show "converts ?conv x (js_data oob (snd kv))" by simp
        qed
        from map_loop_built [OF map _ c _ okh] Suc.prems(1) map show ?thesis
          by (auto simp: scalar_none not_tuple get_list_length pair_data_def [abs_def])
      next
        case (list a b ts)
        have "converts ?conv x (js_data oob (rep x))" if "rep x \<in> set ts" for x
        proof (rule Suc.IH)
          show "edepth (rep x) \<le> n" using edepth_items [OF list(3) Suc.prems(2)] that by blast
          show "convertible (rep x)" using convertible_items [OF list(3) Suc.prems(1)] that by blast
        qed
        moreover have "length ts < 2 ^ 32" using convertible_length [OF list(3) Suc.prems(1)] .
        ultimately obtain h i hs s' where l: "new_array Q (heap s) = (h, JObj i)" "list_heads E t = Some hs"
          "set_elems Q ?conv (JObj i) 0 hs (owe s h 1) = Some s'"
          "built (heap s) (heap s') (JObj i) (DArr (map (js_data oob) ts))"
          using list_loop_built [OF list(3) _ _ okh, of ?conv oob] by blast
        have "scalar_to_js oob E Q s t = None" "get_tuple E t = None" "get_list_length E t = Some (length ts)"
          using list(1,2) not_tuple [of t] list(3) by (simp_all add: scalar_none get_list_length del: eitems.simps)
        then have "erl_term_to_js oob E Q (Suc n) s t = Some (s', JObj i)"
          using l(1-3) by (simp add: owe_def)
        with l(4) show ?thesis unfolding js_data_list [OF list(2,3)] by blast
      next
        case (improper a b)
        then have "js_data oob (rep t) = DNull" by simp
        then show ?thesis using improper built_same [of "heap s" "heap s" JNull DNull] okh
          by (auto simp: scalar_none not_tuple not_map get_list_length intro: denotes.intros)
      next
        case scalar
        have "fits_string (rep t)" using Suc.prems(1) scalar by (cases "rep t") (auto simp: fits_string_def)
        moreover have "built (heap s) (heap s) JNull DNull"
          by (rule built_same) (use okh in \<open>auto intro: denotes.intros\<close>)
        ultimately show ?thesis
          using scalar_built [OF okh _ scalar, of oob] scalar(1,2)
          by (auto simp: not_tuple not_map get_list_length)
      qed
    qed
  qed
qed

end

end
