(* ===== verification/TermBack.thy ===== *)
theory TermBack
  imports TermRefine
begin

text \<open>
  What \<open>js_value_to_erl\<close> computes on plain data: the term of a tree, equal up to the order of the
  pairs of maps, with the heap unchanged. Then the round trip of terms through JavaScript, and the
  values on which the conversion does not return.
\<close>

section \<open>The term of a tree\<close>

text \<open>The key of a property in the Erlang map: its UTF-8 form up to the first NUL.\<close>

definition key_out :: "u16 list \<Rightarrow> u8 list" where
  "key_out n = cbuf (to_utf8_loop False n)"

fun erl_data :: "(u64 \<Rightarrow> int) \<Rightarrow> jdata \<Rightarrow> eterm" where
  "erl_data oob DUndef = ascii_atom ''undefined''"
| "erl_data oob DNull = ascii_atom ''nil''"
| "erl_data oob (DBool b) = ascii_atom (if b then ''true'' else ''false'')"
| "erl_data oob (DInt i) = EInt (sint i)"
| "erl_data oob (DFloat d) = (case whole_int oob d of Some i \<Rightarrow> EInt (sint i) | None \<Rightarrow> EFloat d)"
| "erl_data oob (DStr u) = EBin (to_utf8_loop False u)"
| "erl_data oob (DArr ds) = elist (map (erl_data oob) ds)"
| "erl_data oob (DObj ds) = EMap (map (\<lambda>kd. (EBin (key_out (fst kd)), erl_data oob (snd kd))) ds)"

text \<open>
  The trees that have a term: finite numbers, arrays whose length is a 32-bit integer, objects
  whose names stay different as keys and that are not special \<open>__beamjs_type\<close> objects.
\<close>

fun readable :: "jdata \<Rightarrow> bool" where
  "readable (DFloat d) = f64_finite d"
| "readable (DArr ds) = (length ds < 2 ^ 31 \<and> (\<forall>d \<in> set ds. readable d))"
| "readable (DObj ds) = (distinct (map (key_out \<circ> fst) ds) \<and> cunits ''__beamjs_type'' \<notin> fst ` set ds
     \<and> (\<forall>kd \<in> set ds. readable (snd kd)))"
| "readable d = True"

fun jdepth :: "jdata \<Rightarrow> nat" where
  "jdepth (DArr ds) = Suc (foldr (\<lambda>d m. max (jdepth d) m) ds 0)"
| "jdepth (DObj ds) = Suc (foldr (\<lambda>kd m. max (jdepth (snd kd)) m) ds 0)"
| "jdepth d = 1"

text \<open>Equal terms, up to the order in which maps list their pairs.\<close>

inductive term_eqv :: "eterm \<Rightarrow> eterm \<Rightarrow> bool" where
  eqv_same: "term_eqv t t"
| eqv_cons: "term_eqv a a' \<Longrightarrow> term_eqv b b' \<Longrightarrow> term_eqv (ECons a b) (ECons a' b')"
| eqv_tuple: "list_all2 term_eqv ts ts' \<Longrightarrow> term_eqv (ETuple ts) (ETuple ts')"
| eqv_map: "distinct (map fst kvs) \<Longrightarrow> distinct (map fst kvs') \<Longrightarrow>
    (\<forall>k. rel_option term_eqv (map_of kvs k) (map_of kvs' k)) \<Longrightarrow> term_eqv (EMap kvs) (EMap kvs')"

lemma eqv_elist: "list_all2 term_eqv ts ts' \<Longrightarrow> term_eqv (elist ts) (elist ts')"
  by (induction rule: list_all2_induct) (auto intro: term_eqv.intros)

lemma jdepth_pos: "0 < jdepth d"
  by (cases d) simp_all

lemma units_atom_string: "units (atom_string us) = us"
proof -
  have "(ucast (ucast u :: u8) :: u16) = u" if "u < 0x100" for u :: u16
    using that by (simp add: word_unat_eq_iff unat_ucast_up unat_ucast_small word_less_nat_alt)
  then have "map ((ucast :: u8 \<Rightarrow> u16) \<circ> ucast) us = us" if "\<forall>u \<in> set us. u < 0x100"
    using that by (induction us) auto
  then show ?thesis by (simp add: atom_string_def)
qed

text \<open>Looking up the key of a name in the pairs of a term, when keys are different.\<close>

lemma map_of_keyed:
  "distinct (map (f \<circ> fst) ds) \<Longrightarrow> n \<in> fst ` set ds \<Longrightarrow>
    map_of (map (\<lambda>kd. (f (fst kd), g (snd kd))) ds) (f n) = map_option g (map_of ds n)"
proof (induction ds)
  case (Cons kd ds)
  have d: "distinct (map (f \<circ> fst) ds)" "f (fst kd) \<notin> f ` fst ` set ds"
    using Cons.prems(1) by (simp_all add: image_comp comp_def)
  show ?case
  proof (cases "n = fst kd")
    case True
    then show ?thesis by (cases kd) simp
  next
    case False
    then have n: "n \<in> fst ` set ds" using Cons.prems(2) by auto
    with d(2) have "f n \<noteq> f (fst kd)" by (metis image_eqI)
    with Cons.IH [OF d(1) n] False show ?thesis by (cases kd) simp
  qed
qed simp

lemma map_of_keyed_None:
  "k \<notin> (f \<circ> fst) ` set ds \<Longrightarrow> map_of (map (\<lambda>kd. (f (fst kd), g (snd kd))) ds) k = None"
  by (induction ds) auto

lemma same_names:
  assumes "\<forall>k. rel_option R (map_of ps k) (map_of ds k)"
  shows "fst ` set ps = fst ` set ds"
proof -
  have "(map_of ps k = None) = (map_of ds k = None)" for k
    using assms by (metis option.rel_distinct(1,2) not_None_eq)
  then have "dom (map_of ps) = dom (map_of ds)" by (auto simp: dom_def)
  then show ?thesis by (simp add: dom_map_of_conv_image_fst)
qed

lemma distinct_renamed:
  assumes "distinct (map (f \<circ> fst) ds)" "distinct (map fst ps)" "fst ` set ps = fst ` set ds"
  shows "distinct (map (f \<circ> fst) ps)"
proof -
  have "inj_on f (fst ` set ds)" using assms(1) by (metis distinct_map map_map list.set_map)
  then show ?thesis using assms(2,3) by (metis distinct_map map_map list.set_map)
qed

text \<open>The heap as plain data is unchanged.\<close>

context bridge
begin

definition unchanged :: "'h \<Rightarrow> 'h \<Rightarrow> bool" where
  "unchanged h h' \<longleftrightarrow> ok h' \<and> arr h' = arr h \<and> obj h' = obj h \<and> refs h' = refs h"

lemma unchanged_trans: "unchanged h h' \<Longrightarrow> unchanged h' h'' \<Longrightarrow> unchanged h h''"
  by (simp add: unchanged_def)

lemma unchanged_refl: "ok h \<Longrightarrow> unchanged h h"
  by (simp add: unchanged_def)

text \<open>Borrowing a value: a getter adds a reference, and the release takes it back.\<close>

lemma free_borrowed:
  assumes "unchanged h1 h2" "ok h1" "refs h1 = add_ref (refs h) v" "arr h1 = arr h" "obj h1 = obj h" "live (refs h) v"
  shows "unchanged h (free_val Q h2 v)"
proof -
  have "shared (refs h2) v" using assms by (auto simp: unchanged_def shared_def live_def add_ref_def split: jsval.splits)
  moreover have "drop_ref (refs h2) v = refs h"
    using assms by (auto simp: unchanged_def drop_ref_def add_ref_def split: jsval.splits)
  ultimately show ?thesis using free_val [of h2 v] assms by (simp add: unchanged_def)
qed

lemma cstring_ok:
  assumes "ok (heap s)"
  shows "\<exists>s'. c_to_cstring Q s (JStr str) = (s', Some (to_utf8_loop False (units str))) \<and> unchanged (heap s) (heap s')"
  using to_cstring_Some [OF memory [of "heap s"], of "heap s" str False] assms
  by (auto simp: c_to_cstring_def unchanged_def)

lemma atom_cstring_ok:
  assumes "ok (heap s)"
  shows "\<exists>s'. c_atom_to_cstring Q s (Atom us) = (s', Some (to_utf8_loop False us)) \<and> unchanged (heap s) (heap s')"
  using cstring_ok [OF assms, of "atom_string us"] by (simp add: c_atom_to_cstring_def units_atom_string)

definition reads :: "('h js \<Rightarrow> jsval \<Rightarrow> ('h js \<times> 't) option) \<Rightarrow> (u64 \<Rightarrow> int) \<Rightarrow> 'h \<Rightarrow> jsval \<Rightarrow> jdata \<Rightarrow> bool" where
  "reads conv oob h v d \<longleftrightarrow> (\<forall>s. ok (heap s) \<longrightarrow> arr (heap s) = arr h \<longrightarrow> obj (heap s) = obj h \<longrightarrow>
     (\<exists>s' t. conv s v = Some (s', t) \<and> term_eqv (rep t) (erl_data oob d) \<and> unchanged (heap s) (heap s')))"

lemma readsD:
  "reads conv oob h v d \<Longrightarrow> ok (heap s) \<Longrightarrow> arr (heap s) = arr h \<Longrightarrow> obj (heap s) = obj h \<Longrightarrow>
     \<exists>s' t. conv s v = Some (s', t) \<and> term_eqv (rep t) (erl_data oob d) \<and> unchanged (heap s) (heap s')"
  by (simp add: reads_def)

lemma reads_heap: "arr h' = arr h \<Longrightarrow> obj h' = obj h \<Longrightarrow> reads conv oob h' = reads conv oob h"
  by (simp add: reads_def fun_eq_iff)

lemma get_items_read:
  assumes a: "arr h i = Some xs" and len: "length xs < 2 ^ 31"
  shows "list_all2 (reads conv oob h) ys ds \<Longrightarrow> drop k xs = ys \<Longrightarrow> k \<le> length xs \<Longrightarrow>
    ok (heap s) \<Longrightarrow> arr (heap s) = arr h \<Longrightarrow> obj (heap s) = obj h \<Longrightarrow>
    \<exists>s' ts. get_items Q conv (JObj i) k (length ys) s = Some (s', ts)
      \<and> list_all2 term_eqv (map rep ts) (map (erl_data oob) ds) \<and> unchanged (heap s) (heap s')"
proof (induction ys ds arbitrary: k s rule: list_all2_induct)
  case Nil
  then show ?case by (simp add: unchanged_refl)
next
  case (Cons y ys d ds)
  have k: "k < length xs" "xs ! k = y" "drop (Suc k) xs = ys"
    using Cons.prems(1,2) by (cases "k < length xs"; auto simp: Cons_nth_drop_Suc [symmetric])+
  have uk: "unat (of_nat k :: u32) = k" using k(1) len by (intro unat_of_nat_small) simp
  have ar: "arr (heap s) i = Some xs" using Cons.prems(4) a by simp
  from get_idx [OF Cons.prems(3) ar, of "of_nat k"] uk k(1,2) obtain h1 where h1:
    "get_idx Q (heap s) (JObj i) (of_nat k) = (h1, y)" "ok h1" "arr h1 = arr (heap s)" "obj h1 = obj (heap s)"
    "refs h1 = add_ref (refs (heap s)) y" by auto
  let ?s1 = "owe s h1 1"
  from readsD [OF Cons.hyps(1), of ?s1] h1(2-4) Cons.prems(4,5) obtain s2 t where c: "conv ?s1 y = Some (s2, t)"
    "term_eqv (rep t) (erl_data oob d)" "unchanged h1 (heap s2)" by auto
  have y: "live (refs (heap s)) y" using arr_live [OF Cons.prems(3) ar] k(1,2) by auto
  have u: "unchanged (heap s) (heap (c_free Q s2 y))"
    using free_borrowed [OF c(3) h1(2) h1(5,3,4) y] by (simp add: c_free_def)
  then have "ok (heap (c_free Q s2 y))" "arr (heap (c_free Q s2 y)) = arr h" "obj (heap (c_free Q s2 y)) = obj h"
    using Cons.prems(4,5) by (simp_all add: unchanged_def)
  from Cons.IH [OF k(3) _ this] k(1) obtain s3 ts where
    "get_items Q conv (JObj i) (Suc k) (length ys) (c_free Q s2 y) = Some (s3, ts)"
    "list_all2 term_eqv (map rep ts) (map (erl_data oob) ds)" "unchanged (heap (c_free Q s2 y)) (heap s3)"
    by auto
  then show ?case using c h1(1) unchanged_trans [OF u] by simp
qed

text \<open>Reading a property under an ASCII name.\<close>

lemma prop_str:
  assumes "ok h" "ascii b" "length b < 2 ^ 30" "0 \<notin> set b"
    and get: "\<And>h1. ok h1 \<Longrightarrow> arr h1 = arr h \<Longrightarrow> obj h1 = obj h \<Longrightarrow>
      \<exists>h2. get_prop Q h1 v (Atom (map ucast b)) = (h2, x) \<and> ok h2 \<and> arr h2 = arr h1 \<and> obj h2 = obj h1 \<and> refs h2 = refs h1"
  shows "\<exists>h'. JS_GetPropertyStr Q h v b = (h', x) \<and> unchanged h h'"
proof -
  have b: "cbuf b = b" using assms(4) by (auto simp: cbuf_def takeWhile_eq_all_conv)
  from new_atom_ascii [OF assms(1-3)] obtain h1 where h1: "JS_NewAtomLen Q h b = (h1, Atom (map ucast b))"
    "ok h1" "arr h1 = arr h" "obj h1 = obj h" "refs h1 = refs h" by (auto simp: utf16_ascii [OF assms(2)])
  from get [OF h1(2-4)] obtain h2 where h2: "get_prop Q h1 v (Atom (map ucast b)) = (h2, x)" "ok h2"
    "arr h2 = arr h1" "obj h2 = obj h1" "refs h2 = refs h1" by blast
  show ?thesis using free_atom [OF h2(2), of "Atom (map ucast b)"] h1 h2 b
    by (simp add: JS_GetPropertyStr_def JS_NewAtom_def unchanged_def)
qed

lemma length_name: "ascii (cstr ''length'')" "length (cstr ''length'') < 2 ^ 30" "0 \<notin> set (cstr ''length'')"
  "ascii (cstr ''__beamjs_type'')" "length (cstr ''__beamjs_type'') < 2 ^ 30" "0 \<notin> set (cstr ''__beamjs_type'')"
  by (simp_all add: ascii_def cstr_def)

lemma array_run:
  assumes okh: "ok (heap s)" and a: "arr (heap s) i = Some xs" and len: "length xs < 2 ^ 31"
    and alloc: "\<And>n. 0 \<le> n \<Longrightarrow> n < 2 ^ 34 \<Longrightarrow> enif_alloc_ok E n"
  shows "\<exists>s2. unchanged (heap s) (heap s2) \<and> array_to_erl oob E Q conv s (JObj i) =
    (case get_items Q conv (JObj i) 0 (length xs) s2 of None \<Rightarrow> None
     | Some (s3, items) \<Rightarrow> Some (s3, make_list E (take (length xs) items)))"
proof -
  have "\<exists>h'. JS_GetPropertyStr Q (heap s) (JObj i) (cstr ''length'') = (h', JInt (of_nat (length xs)))
      \<and> unchanged (heap s) h'"
  proof (rule prop_str [OF okh length_name(1-3)])
    fix h1 assume "ok h1" "arr h1 = arr (heap s)" "obj h1 = obj (heap s)"
    with get_length [of h1 i xs] a len
    show "\<exists>h2. get_prop Q h1 (JObj i) (Atom (map ucast (cstr ''length''))) = (h2, JInt (of_nat (length xs)))
        \<and> ok h2 \<and> arr h2 = arr h1 \<and> obj h2 = obj h1 \<and> refs h2 = refs h1"
      by (simp add: cunits_def)
  qed
  then obtain h1 where h1: "JS_GetPropertyStr Q (heap s) (JObj i) (cstr ''length'') = (h1, JInt (of_nat (length xs)))"
    "unchanged (heap s) h1" by blast
  let ?n = "JInt (of_nat (length xs))" and ?s1 = "owe s h1 1"
  let ?s2 = "c_free Q (?s1\<lparr>heap := h1\<rparr>) ?n"
  have sl: "sint (of_nat (length xs) :: s32) = int (length xs)"
    using len sint_word_of_int_small [of "int (length xs)", where 'a = 32] by simp
  have sl64: "sint (of_nat (length xs) :: s64) = int (length xs)"
    using len sint_word_of_int_small [of "int (length xs)", where 'a = 64] by simp
  have u2: "unchanged (heap s) (heap ?s2)"
    using free_val [of h1 ?n] h1(2) by (simp add: unchanged_def shared_def drop_ref_def c_free_def)
  have ti: "JS_ToInt64Free oob Q (heap ?s1) ?n = Some (h1, word_of_int (int (length xs)), True)"
    by (simp add: JS_ToInt64Free.simps sl)
  have al: "enif_alloc_ok E (size_t (8 * int (length xs)))"
    using len by (simp add: size_t_def alloc)
  have m: "length xs mod 4294967296 = length xs" using len by simp
  have "array_to_erl oob E Q conv s (JObj i) =
    (case get_items Q conv (JObj i) 0 (length xs) ?s2 of None \<Rightarrow> None
     | Some (s3, items) \<Rightarrow> Some (s3, make_list E (take (length xs) items)))"
    using al ti by (simp add: array_to_erl_def h1(1) sl64 Let_def m del: owe_simps(2) split: option.split)
  with u2 show ?thesis by blast
qed

lemma array_to_erl_read:
  assumes okh: "ok (heap s)" and a: "arr (heap s) i = Some xs" and len: "length xs < 2 ^ 31"
    and alloc: "\<And>n. 0 \<le> n \<Longrightarrow> n < 2 ^ 34 \<Longrightarrow> enif_alloc_ok E n"
    and el: "list_all2 (reads conv oob (heap s)) xs ds"
  shows "\<exists>s' t. array_to_erl oob E Q conv s (JObj i) = Some (s', t)
    \<and> term_eqv (rep t) (erl_data oob (DArr ds)) \<and> unchanged (heap s) (heap s')"
proof -
  from array_run [OF okh a len alloc] obtain s2 where u2: "unchanged (heap s) (heap s2)"
    and run: "array_to_erl oob E Q conv s (JObj i) = (case get_items Q conv (JObj i) 0 (length xs) s2 of None \<Rightarrow> None
     | Some (s3, items) \<Rightarrow> Some (s3, make_list E (take (length xs) items)))" by metis
  have "list_all2 (reads conv oob (heap s2)) xs ds"
    using el u2 reads_heap [of "heap s2" "heap s"] by (simp add: unchanged_def)
  from get_items_read [OF _ len this, of i 0 s2] a u2 obtain s3 ts where g:
    "get_items Q conv (JObj i) 0 (length xs) s2 = Some (s3, ts)"
    "list_all2 term_eqv (map rep ts) (map (erl_data oob) ds)" "unchanged (heap s2) (heap s3)"
    by (auto simp: unchanged_def)
  have "length ts = length xs" using g(2) el by (auto dest!: list_all2_lengthD)
  then have "array_to_erl oob E Q conv s (JObj i) = Some (s3, make_list E ts)" using run g(1) by simp
  moreover have "term_eqv (rep (make_list E ts)) (erl_data oob (DArr ds))"
    using eqv_elist [OF g(2)] by (simp add: make_list)
  ultimately show ?thesis using unchanged_trans [OF u2 g(3)] by blast
qed

text \<open>The property loop: the map gets the keys of the remaining properties, each with its term.\<close>

definition key_term :: "u16 list \<Rightarrow> eterm" where
  "key_term n = EBin (key_out n)"

lemma get_props_read:
  assumes o: "obj h i = Some ps"
  shows "\<forall>p \<in> set qs. \<exists>d. D (fst p) = Some d \<and> map_of ps (fst p) = Some (snd p) \<and> reads conv oob h (snd p) d \<Longrightarrow>
    distinct (map (key_out \<circ> fst) qs) \<Longrightarrow> ok (heap s) \<Longrightarrow> arr (heap s) = arr h \<Longrightarrow> obj (heap s) = obj h \<Longrightarrow>
    rep m = EMap kvs \<Longrightarrow> distinct (map fst kvs) \<Longrightarrow>
    \<exists>s' m' kvs'. get_props E Q conv (JObj i) (map (Atom \<circ> fst) qs) m s = Some (s', m')
      \<and> rep m' = EMap kvs' \<and> distinct (map fst kvs') \<and> unchanged (heap s) (heap s')
      \<and> (\<forall>p \<in> set qs. \<exists>x. map_of kvs' (key_term (fst p)) = Some x \<and> term_eqv x (erl_data oob (the (D (fst p)))))
      \<and> (\<forall>k. k \<notin> (key_term \<circ> fst) ` set qs \<longrightarrow> map_of kvs' k = map_of kvs k)"
proof (induction qs arbitrary: s m kvs)
  case Nil
  then show ?case by (simp add: unchanged_refl)
next
  case (Cons p qs)
  obtain n w where p: "p = (n, w)" by force
  with Cons.prems(1) obtain d where d: "D n = Some d" "map_of ps n = Some w" "reads conv oob h w d" by auto
  from atom_cstring_ok [OF Cons.prems(3), of n] obtain s1 where s1:
    "c_atom_to_cstring Q s (Atom n) = (s1, Some (to_utf8_loop False n))" "unchanged (heap s) (heap s1)" by blast
  then have o1: "ok (heap s1)" "obj (heap s1) i = Some ps" using o Cons.prems(5) by (simp_all add: unchanged_def)
  from get_prop [OF o1 d(2)] obtain h2 where h2: "get_prop Q (heap s1) (JObj i) (Atom n) = (h2, w)" "ok h2"
    "arr h2 = arr (heap s1)" "obj h2 = obj (heap s1)" "refs h2 = add_ref (refs (heap s1)) w" by blast
  let ?s2 = "owe s1 h2 1"
  from readsD [OF d(3), of ?s2] h2 s1(2) Cons.prems(4,5) obtain s3 t where c: "conv ?s2 w = Some (s3, t)"
    "term_eqv (rep t) (erl_data oob d)" "unchanged h2 (heap s3)" by (auto simp: unchanged_def)
  have "w \<in> snd ` set ps" using map_of_SomeD [OF d(2)] by force
  then have lw: "live (refs (heap s1)) w" by (rule obj_live [OF o1])
  let ?s4 = "c_free_atom Q (c_free_cstring (c_free Q s3 w)) (Atom n)"
  have u3: "unchanged (heap s1) (free_val Q (heap s3) w)" by (rule free_borrowed [OF c(3) h2(2,5,3,4) lw])
  then have u4: "unchanged (heap s) (heap ?s4)"
    using free_atom [of "free_val Q (heap s3) w" "Atom n"] s1(2)
    by (simp add: unchanged_def c_free_def c_free_cstring_def c_free_atom_def)
  let ?k = "make_binary E (key_out n)"
  from make_map_put [OF Cons.prems(6,7), of ?k t] obtain kvs1 where k1: "rep (make_map_put E m ?k t) = EMap kvs1"
    "distinct (map fst kvs1)" "map_of kvs1 = (map_of kvs)(key_term n \<mapsto> rep t)"
    by (auto simp: make_binary key_term_def)
  have pre: "\<forall>p \<in> set qs. \<exists>d. D (fst p) = Some d \<and> map_of ps (fst p) = Some (snd p) \<and> reads conv oob h (snd p) d"
    "distinct (map (key_out \<circ> fst) qs)" using Cons.prems(1,2) by (simp_all add: comp_def)
  have h4: "ok (heap ?s4)" "arr (heap ?s4) = arr h" "obj (heap ?s4) = obj h"
    using u4 Cons.prems(4,5) by (simp_all add: unchanged_def)
  from Cons.IH [OF pre h4 k1(1,2)] obtain s5 m' kvs' where r:
    "get_props E Q conv (JObj i) (map (Atom \<circ> fst) qs) (make_map_put E m ?k t) ?s4 = Some (s5, m')"
    "rep m' = EMap kvs'" "distinct (map fst kvs')" "unchanged (heap ?s4) (heap s5)"
    "\<forall>p \<in> set qs. \<exists>x. map_of kvs' (key_term (fst p)) = Some x \<and> term_eqv x (erl_data oob (the (D (fst p))))"
    "\<forall>k. k \<notin> (key_term \<circ> fst) ` set qs \<longrightarrow> map_of kvs' k = map_of kvs1 k" by blast
  have nk: "key_term n \<notin> (key_term \<circ> fst) ` set qs"
    using Cons.prems(2) p by (auto simp: key_term_def)
  then have "map_of kvs' (key_term n) = Some (rep t)" using r(6) k1(3) by simp
  then have "\<forall>p \<in> set (p # qs). \<exists>x. map_of kvs' (key_term (fst p)) = Some x \<and> term_eqv x (erl_data oob (the (D (fst p))))"
    using r(5) c(2) d(1) p by simp
  moreover have "get_props E Q conv (JObj i) (map (Atom \<circ> fst) (p # qs)) m s = Some (s5, m')"
    using r(1) c(1) by (simp add: p s1(1) h2(1) key_out_def)
  moreover have "\<forall>k. k \<notin> (key_term \<circ> fst) ` set (p # qs) \<longrightarrow> map_of kvs' k = map_of kvs k"
    using r(6) k1(3) p by simp
  moreover have "unchanged (heap s) (heap s5)" by (rule unchanged_trans [OF u4 r(4)])
  ultimately show ?case using r(2,3) by blast
qed

lemma object_to_erl_read:
  assumes okh: "ok (heap s)" and o: "obj (heap s) i = Some ps"
    and rel: "\<forall>k. rel_option (reads conv oob (heap s)) (map_of ps k) (map_of ds k)"
    and rd: "distinct (map (key_out \<circ> fst) ds)" "cunits ''__beamjs_type'' \<notin> fst ` set ds" "distinct (map fst ds)"
  shows "\<exists>s' t. object_to_erl E Q conv s (JObj i) = Some (s', t)
    \<and> term_eqv (rep t) (erl_data oob (DObj ds)) \<and> unchanged (heap s) (heap s')"
proof -
  have names: "fst ` set ps = fst ` set ds" by (rule same_names [OF rel])
  then have ty: "map_of ps (cunits ''__beamjs_type'') = None" using rd(2) by (simp add: map_of_eq_None_iff)
  have "\<exists>h'. JS_GetPropertyStr Q (heap s) (JObj i) (cstr ''__beamjs_type'') = (h', JUndef) \<and> unchanged (heap s) h'"
  proof (rule prop_str [OF okh length_name(4-6)])
    fix h1 assume "ok h1" "arr h1 = arr (heap s)" "obj h1 = obj (heap s)"
    with get_type [of h1 i ps] o ty
    show "\<exists>h2. get_prop Q h1 (JObj i) (Atom (map ucast (cstr ''__beamjs_type''))) = (h2, JUndef)
        \<and> ok h2 \<and> arr h2 = arr h1 \<and> obj h2 = obj h1 \<and> refs h2 = refs h1"
      by (simp add: cunits_def)
  qed
  then obtain h1 where h1: "JS_GetPropertyStr Q (heap s) (JObj i) (cstr ''__beamjs_type'') = (h1, JUndef)"
    "unchanged (heap s) h1" by blast
  let ?s3 = "c_free Q (owe s h1 1) JUndef"
  have u3: "unchanged (heap s) (heap ?s3)"
    using free_val [of h1 JUndef] h1(2) by (simp add: unchanged_def shared_def drop_ref_def c_free_def)
  then have o3: "ok (heap ?s3)" "obj (heap ?s3) i = Some ps" using o by (simp_all add: unchanged_def)
  from own_names [OF o3] obtain h4 where h4: "own_names Q (heap ?s3) (JObj i) = (h4, Some (map (Atom \<circ> fst) ps))"
    "ok h4" "arr h4 = arr (heap ?s3)" "obj h4 = obj (heap ?s3)" "refs h4 = refs (heap ?s3)" by blast
  let ?s4 = "owe ?s3 h4 (int (length ps))"
  have u4: "unchanged (heap s) (heap ?s4)" using u3 h4 by (simp add: unchanged_def)
  have dps: "distinct (map fst ps)" by (rule keys_distinct [OF okh o])
  have pre: "\<forall>p \<in> set ps. \<exists>d. map_of ds (fst p) = Some d \<and> map_of ps (fst p) = Some (snd p)
      \<and> reads conv oob (heap s) (snd p) d"
  proof
    fix p assume p: "p \<in> set ps"
    then have m: "map_of ps (fst p) = Some (snd p)" using dps by simp
    with rel obtain d where "map_of ds (fst p) = Some d" "reads conv oob (heap s) (snd p) d"
      by (metis option_rel_Some1)
    with m show "\<exists>d. map_of ds (fst p) = Some d \<and> map_of ps (fst p) = Some (snd p)
      \<and> reads conv oob (heap s) (snd p) d" by blast
  qed
  have h: "ok (heap ?s4)" "arr (heap ?s4) = arr (heap s)" "obj (heap ?s4) = obj (heap s)"
    using u4 by (simp_all add: unchanged_def)
  from get_props_read [OF o pre distinct_renamed [OF rd(1) dps names] h make_new_map] obtain s5 m' kvs' where r:
    "get_props E Q conv (JObj i) (map (Atom \<circ> fst) ps) (make_new_map E) ?s4 = Some (s5, m')"
    "rep m' = EMap kvs'" "distinct (map fst kvs')" "unchanged (heap ?s4) (heap s5)"
    "\<forall>p \<in> set ps. \<exists>x. map_of kvs' (key_term (fst p)) = Some x \<and> term_eqv x (erl_data oob (the (map_of ds (fst p))))"
    "\<forall>k. k \<notin> (key_term \<circ> fst) ` set ps \<longrightarrow> map_of kvs' k = None"
    by auto
  have run: "object_to_erl E Q conv s (JObj i) = Some (s5, m')"
    using r(1) h4(1) by (simp add: object_to_erl_def h1(1))
  let ?out = "map (\<lambda>kd. (key_term (fst kd), erl_data oob (snd kd))) ds"
  have kd: "distinct (map (key_term \<circ> fst) ds)"
    using rd(1) by (auto simp: key_term_def comp_def distinct_map inj_on_def)
  have "rel_option term_eqv (map_of kvs' k) (map_of ?out k)" for k
  proof (cases "k \<in> (key_term \<circ> fst) ` set ps")
    case True
    then obtain p where p: "p \<in> set ps" "k = key_term (fst p)" by auto
    from r(5) p obtain x where x: "map_of kvs' k = Some x" "term_eqv x (erl_data oob (the (map_of ds (fst p))))" by auto
    from pre p obtain d where d: "map_of ds (fst p) = Some d" by auto
    have "fst p \<in> fst ` set ds" using names p(1) by auto
    then have "map_of ?out k = Some (erl_data oob d)"
      using map_of_keyed [OF kd, of "fst p" "erl_data oob"] d p(2) by simp
    then show ?thesis using x d by simp
  next
    case False
    moreover have "k \<notin> (key_term \<circ> fst) ` set ds" using False names by (metis image_comp)
    ultimately show ?thesis using r(6) map_of_keyed_None [of k key_term ds "erl_data oob"] by simp
  qed
  moreover have "distinct (map fst ?out)" using kd by (simp add: comp_def)
  ultimately have "term_eqv (EMap kvs') (EMap ?out)" using r(3) by (intro eqv_map) simp_all
  then have "term_eqv (rep m') (erl_data oob (DObj ds))" using r(2) by (simp add: key_term_def)
  with run unchanged_trans [OF u4 r(4)] show ?thesis by blast
qed

lemma js_value_to_erl_reads:
  assumes alloc: "\<And>n. 0 \<le> n \<Longrightarrow> n < 2 ^ 34 \<Longrightarrow> enif_alloc_ok E n"
  shows "readable d \<Longrightarrow> jdepth d \<le> n \<Longrightarrow> ok h \<Longrightarrow> denotes (arr h) (obj h) v d \<Longrightarrow>
    reads (js_value_to_erl oob E Q n) oob h v d"
proof (induction n arbitrary: d v)
  case 0
  then show ?case using jdepth_pos [of d] by simp
next
  case (Suc n)
  let ?conv = "js_value_to_erl oob E Q n"
  show ?case
    unfolding reads_def
  proof (intro allI impI)
    fix s :: "'h js" assume okh: "ok (heap s)" and ha: "arr (heap s) = arr h" and ho: "obj (heap s) = obj h"
    have r: "reads ?conv oob (heap s) = reads ?conv oob h" by (rule reads_heap [OF ha ho])
    have obj_case: "\<exists>h1. is_array Q (heap s) (JObj i) = (h1, if arr h i \<noteq> None then 1 else 0) \<and> unchanged (heap s) h1"
      if "arr h i \<noteq> None \<or> obj h i \<noteq> None" for i
      using is_array [OF okh, of i] that ha ho by (auto simp: unchanged_def)
    from Suc.prems(4) show "\<exists>s' t. js_value_to_erl oob E Q (Suc n) s v = Some (s', t) \<and> term_eqv (rep t) (erl_data oob d)
      \<and> unchanged (heap s) (heap s')"
    proof (cases rule: denotes.cases)
      case (6 str)
      from cstring_ok [OF okh, of str] obtain s' where
        "c_to_cstring Q s (JStr str) = (s', Some (to_utf8_loop False (units str)))" "unchanged (heap s) (heap s')" by blast
      then show ?thesis using 6 by (auto simp: string_to_erl_def make_binary c_free_cstring_def intro: eqv_same)
    next
      case (5 f)
      then show ?thesis using Suc.prems(1) okh
        by (auto simp: float_to_erl_def make_int make_double unchanged_refl intro: eqv_same split: option.splits)
    next
      case (7 i xs ds)
      from obj_case [of i] 7 obtain h1 where h1: "is_array Q (heap s) (JObj i) = (h1, 1)" "unchanged (heap s) h1" by auto
      have "\<forall>d \<in> set ds. readable d \<and> jdepth d \<le> n" using Suc.prems(1,2) 7(2) by (simp add: foldr_max_le)
      then have "list_all2 (reads ?conv oob h) xs ds"
        using 7(4) Suc.IH [OF _ _ Suc.prems(3)] by (auto simp: list_all2_conv_all_nth)
      then have el: "list_all2 (reads ?conv oob (heap (owe s h1 0))) xs ds"
        using h1(2) ha ho reads_heap [of h1 h] by (simp add: unchanged_def)
      have "length xs < 2 ^ 31" using Suc.prems(1) 7(2,4) by (simp add: list_all2_lengthD)
      from array_to_erl_read [OF _ _ this alloc el, of i] h1 7 ha obtain s' t where
        "array_to_erl oob E Q ?conv (owe s h1 0) (JObj i) = Some (s', t)" "term_eqv (rep t) (erl_data oob (DArr ds))"
        "unchanged h1 (heap s')" by (auto simp: unchanged_def)
      then show ?thesis using h1 7(1,2) unchanged_trans [OF h1(2)] by simp
    next
      case (8 i ps ds)
      from obj_case [of i] 8 obtain h1 where h1: "is_array Q (heap s) (JObj i) = (h1, if arr h i \<noteq> None then 1 else 0)"
        "unchanged (heap s) h1" by auto
      have na: "arr h i = None" using disjoint [OF Suc.prems(3), of i] 8(3) by (cases "arr h i") auto
      have "\<forall>kd \<in> set ds. readable (snd kd) \<and> jdepth (snd kd) \<le> n" using Suc.prems(1,2) 8(2) by (simp add: foldr_max_le)
      then have "reads ?conv oob h w e" if "map_of ds k = Some e" "denotes (arr h) (obj h) w e" for k w e
        using that map_of_SomeD [OF that(1)] Suc.IH [OF _ _ Suc.prems(3) that(2)] by force
      then have "rel_option (reads ?conv oob h) (map_of ps k) (map_of ds k)" for k
        using 8(6) by (cases "map_of ds k"; cases "map_of ps k") (force dest: spec [of _ k])+
      then have el: "\<forall>k. rel_option (reads ?conv oob (heap (owe s h1 0))) (map_of ps k) (map_of ds k)"
        using h1(2) ha ho reads_heap [of h1 h] by (simp add: unchanged_def)
      have rd: "distinct (map (key_out \<circ> fst) ds)" "cunits ''__beamjs_type'' \<notin> fst ` set ds"
        using Suc.prems(1) 8(2) by simp_all
      from object_to_erl_read [OF _ _ el rd 8(5), of i] h1 8 ho obtain s' t where
        "object_to_erl E Q ?conv (owe s h1 0) (JObj i) = Some (s', t)" "term_eqv (rep t) (erl_data oob (DObj ds))"
        "unchanged h1 (heap s')" by (auto simp: unchanged_def)
      then show ?thesis using h1 8(1,2) na unchanged_trans [OF h1(2)] by simp
    qed (use okh in \<open>auto simp: unchanged_refl make_int atom_undefined_def atom_null_def atom_true_def atom_false_def
        make_atom ascii_atom_def intro: eqv_same\<close>)
  qed
qed

text \<open>An array that is its own first element: the recursion never ends, whatever stack there is.\<close>

lemma cyclic_diverges:
  assumes alloc: "\<And>n. 0 \<le> n \<Longrightarrow> n < 2 ^ 34 \<Longrightarrow> enif_alloc_ok E n" and len: "length xs < 2 ^ 31 - 1"
  shows "ok (heap s) \<Longrightarrow> arr (heap s) i = Some (JObj i # xs) \<Longrightarrow> js_value_to_erl oob E Q n s (JObj i) = None"
proof (induction n arbitrary: s)
  case (Suc n)
  let ?xs = "JObj i # xs"
  from is_array [OF Suc.prems(1), of i] Suc.prems(2) obtain h0 where h0: "is_array Q (heap s) (JObj i) = (h0, 1)"
    "ok h0" "arr h0 i = Some ?xs" by auto
  let ?s0 = "owe s h0 0"
  from array_run [OF _ _ _ alloc, of ?s0 i ?xs oob "js_value_to_erl oob E Q n"] h0 len obtain s2 where
    s2: "unchanged h0 (heap s2)" and run: "array_to_erl oob E Q (js_value_to_erl oob E Q n) ?s0 (JObj i) =
      (case get_items Q (js_value_to_erl oob E Q n) (JObj i) 0 (length ?xs) s2 of None \<Rightarrow> None
       | Some (s3, items) \<Rightarrow> Some (s3, make_list E (take (length ?xs) items)))" by auto
  have s2': "ok (heap s2)" "arr (heap s2) i = Some ?xs" using s2 h0(3) by (simp_all add: unchanged_def)
  from get_idx [OF s2', of 0] s2' obtain h3 where h3: "get_idx Q (heap s2) (JObj i) 0 = (h3, JObj i)" "ok h3" "arr h3 i = Some ?xs"
    by auto
  have "js_value_to_erl oob E Q n (owe s2 h3 1) (JObj i) = None" by (rule Suc.IH) (use h3 in simp_all)
  then have "array_to_erl oob E Q (js_value_to_erl oob E Q n) ?s0 (JObj i) = None" using h3(1) run by simp
  then show ?case by (simp add: h0(1))
qed simp

end

end
