(* ===== verification/TermRoundTrip.thy ===== *)
theory TermRoundTrip
  imports TermBack
begin

text \<open>
  The round trip of terms through JavaScript, the ownership and totality theorems of
  term_convert.c, and what the conversions do at their edges.
\<close>

section \<open>Terms that survive the round trip\<close>

text \<open>
  \<open>faithful t\<close>: integers of 32 bits, finite floats that are not such an integer, the atoms
  \<open>true\<close>, \<open>false\<close>, \<open>nil\<close> and \<open>undefined\<close>, well-formed UTF-8 binaries, proper lists that are no
  iolist (so not the empty list), and maps whose keys are ASCII binaries without NUL.
\<close>

definition wf_utf8 :: "u8 list \<Rightarrow> bool" where
  "wf_utf8 b \<longleftrightarrow> (\<exists>cs. (\<forall>c \<in> set cs. scalar c) \<and> b = utf8 cs)"

definition whole32 :: "u64 \<Rightarrow> bool" where
  "whole32 d \<longleftrightarrow> (\<exists>i. in_range 32 i \<and> f64_scaled d = i * f64_one)"

fun plain_key :: "eterm \<Rightarrow> bool" where
  "plain_key (EBin b) = (ascii b \<and> 0 \<notin> set b \<and> length b < 2 ^ 30 \<and> b \<noteq> cstr ''__proto__'' \<and> b \<noteq> cstr ''__beamjs_type'')"
| "plain_key _ = False"

fun faithful :: "eterm \<Rightarrow> bool" and faithful_tail :: "eterm \<Rightarrow> bool" where
  "faithful (EInt i) = in_range 32 i"
| "faithful (EFloat d) = (f64_finite d \<and> \<not> whole32 d)"
| "faithful (EAtom cs) = (EAtom cs \<in> ascii_atom ` {''true'', ''false'', ''nil'', ''undefined''})"
| "faithful (EBin b) = (wf_utf8 b \<and> length b < 2 ^ 30)"
| "faithful (ECons h t) = (iolist (ECons h t) = None \<and> faithful h \<and> faithful_tail t
     \<and> (case eitems t of None \<Rightarrow> False | Some ts \<Rightarrow> Suc (length ts) < 2 ^ 31))"
| "faithful (EMap kvs) = (distinct (map fst kvs) \<and> (\<forall>kv \<in> set kvs. plain_key (fst kv) \<and> faithful (snd kv)))"
| "faithful _ = False"
| "faithful_tail (ECons h t) = (faithful h \<and> faithful_tail t)"
| "faithful_tail t = True"

lemma faithful_items: "eitems t = Some ts \<Longrightarrow> faithful_tail t \<Longrightarrow> \<forall>x \<in> set ts. faithful x"
  by (induction t arbitrary: ts rule: eitems.induct) auto

lemma elist_items: "eitems t = Some ts \<Longrightarrow> t = elist ts"
  by (induction t arbitrary: ts rule: eitems.induct) auto

lemma faithful_list:
  assumes "faithful (ECons h t)"
  obtains ts where "eitems (ECons h t) = Some ts" "length ts < 2 ^ 31" "\<forall>x \<in> set ts. faithful x"
    "iolist (ECons h t) = None"
  using assms faithful_items [of t] by (auto simp del: iolist.simps split: option.splits)

lemma not_whole32: "\<not> whole32 d \<Longrightarrow> whole_int oob d = None \<and> new_float64 oob d = None"
proof -
  assume w: "\<not> whole32 d"
  have "whole_int oob d = None"
  proof (rule ccontr)
    assume "whole_int oob d \<noteq> None"
    then obtain x where "whole_int oob d = Some x" by auto
    from whole_int_SomeD [OF this] w show False by (auto simp: whole32_def in_range_def)
  qed
  moreover have "new_float64 oob d = None"
  proof (rule ccontr)
    assume "new_float64 oob d \<noteq> None"
    then obtain x where "new_float64 oob d = Some x" by auto
    from new_float64_Some [OF this] w sint_greater_eq [of x] sint_less [of x] show False
      by (auto simp: whole32_def in_range_def)
  qed
  ultimately show ?thesis by simp
qed

lemma utf8_round: "wf_utf8 b \<Longrightarrow> to_utf8_loop False (utf16_of_utf8 b) = b"
  by (auto simp: wf_utf8_def utf16_of_utf8_scalars to_utf8_of_utf16_scalars)

lemma utf8_ascii: "ascii b \<Longrightarrow> wf_utf8 b"
proof -
  assume a: "ascii b"
  have "(ucast (ucast x :: u32) :: u8) = x" for x :: u8
    using unat_u8 [of x] by (simp add: word_unat_eq_iff unat_ucast_mod)
  then have "utf8 (map ucast b) = b" using a
    by (induction b) (auto simp: utf8_def ascii_def unicode_to_utf8_def word_less_nat_alt unat_ucast_up)
  moreover have "\<forall>c \<in> set (map ucast b :: u32 list). scalar c"
    using a by (auto simp: ascii_def scalar_def word_less_nat_alt unat_ucast_up)
  ultimately show ?thesis unfolding wf_utf8_def by metis
qed

lemma plain_key_name:
  assumes "plain_key k"
  shows "\<exists>b. k = EBin b \<and> key_name k = Some (utf16_of_utf8 b) \<and> key_out (utf16_of_utf8 b) = b \<and> good_key k
    \<and> utf16_of_utf8 b \<noteq> cunits ''__beamjs_type''"
proof -
  from assms obtain b where b: "k = EBin b" "ascii b" "0 \<notin> set b" "length b < 2 ^ 30"
    "b \<noteq> cstr ''__proto__''" "b \<noteq> cstr ''__beamjs_type''" by (cases k) auto
  have c: "cbuf b = b" using b(3) by (auto simp: cbuf_def takeWhile_eq_all_conv)
  have o: "key_out (utf16_of_utf8 b) = b" using utf8_round [OF utf8_ascii [OF b(2)]] c by (simp add: key_out_def)
  have inj: "utf16_of_utf8 b = cunits s \<Longrightarrow> ascii (cstr s) \<Longrightarrow> 0 \<notin> set (cstr s) \<Longrightarrow> b = cstr s" for s
  proof -
    assume h: "utf16_of_utf8 b = cunits s" "ascii (cstr s)" "0 \<notin> set (cstr s)"
    then have "utf16_of_utf8 b = utf16_of_utf8 (cstr s)" by (simp add: cunits_def utf16_ascii)
    then show "b = cstr s" using utf8_round [OF utf8_ascii [OF b(2)]] utf8_round [OF utf8_ascii [OF h(2)]] by metis
  qed
  have "good_key k" using b inj [of "''__proto__''"] by (auto simp: good_key_def special_name_def ascii_def cstr_def)
  moreover have "utf16_of_utf8 b \<noteq> cunits ''__beamjs_type''"
    using inj [of "''__beamjs_type''"] b(6) by (auto simp: ascii_def cstr_def)
  ultimately show ?thesis using b(1) o by simp
qed

lemma leaf_depth [simp]: "jdepth (num_data oob d) = 1" "jdepth (int_data oob i) = 1" "jdepth (atom_data cs) = 1"
proof -
  show n: "jdepth (num_data oob d) = 1" for d by (simp add: num_data_def split: option.split)
  show "jdepth (int_data oob i) = 1" by (simp add: int_data_def n)
  show "jdepth (atom_data cs) = 1" by (cases "if length cs < 256 then latin1 cs else None") (simp_all add: atom_data_def)
qed

lemma js_depth: "edepth t \<le> n \<Longrightarrow> jdepth (js_data oob t) \<le> n"
proof (induction n arbitrary: t)
  case 0
  then show ?case using edepth_pos [of t] by simp
next
  case (Suc n)
  show ?case
  proof (cases t)
    case (ECons a b)
    show ?thesis
    proof (cases "iolist t = None \<and> eitems t \<noteq> None")
      case True
      then obtain ts where ts: "eitems t = Some ts" "iolist t = None" by auto
      show ?thesis using edepth_items [OF ts(1) Suc.prems] Suc.IH
        by (simp add: js_data_list [OF ts(2,1)] foldr_max_le)
    next
      case False
      then show ?thesis using ECons by (auto split: option.splits)
    qed
  next
    case (EMap kvs)
    then show ?thesis using Suc by (auto simp: foldr_max_le split: option.splits)
  qed (use Suc in \<open>auto simp: foldr_max_le\<close>)
qed

lemma faithful_pairs:
  assumes "\<forall>kv \<in> set kvs. plain_key (fst kv) \<and> erl_data oob (js_data oob (snd kv)) = snd kv
        \<and> readable (js_data oob (snd kv)) \<and> convertible (snd kv)" and dist: "distinct (map fst kvs)"
  shows "erl_data oob (js_data oob (EMap kvs)) = EMap kvs \<and> readable (js_data oob (EMap kvs)) \<and> convertible (EMap kvs)"
proof -
  let ?n = "\<lambda>k. the (key_name k)"
  have k: "\<forall>kv \<in> set kvs. key_name (fst kv) = Some (?n (fst kv)) \<and> EBin (key_out (?n (fst kv))) = fst kv
      \<and> ?n (fst kv) \<noteq> cunits ''__beamjs_type'' \<and> good_key (fst kv)"
  proof
    fix kv assume "kv \<in> set kvs"
    with assms(1) have "plain_key (fst kv)" by blast
    from plain_key_name [OF this] show "key_name (fst kv) = Some (?n (fst kv)) \<and> EBin (key_out (?n (fst kv))) = fst kv
      \<and> ?n (fst kv) \<noteq> cunits ''__beamjs_type'' \<and> good_key (fst kv)" by auto
  qed
  have d: "js_data oob (EMap kvs) = DObj (map (\<lambda>kv. (?n (fst kv), js_data oob (snd kv))) kvs)"
    using k by (induction kvs) (auto split: option.splits)
  have "map (\<lambda>kv. (EBin (key_out (?n (fst kv))), erl_data oob (js_data oob (snd kv)))) kvs = kvs"
    using k assms(1) by (intro map_idI) auto
  then have e: "erl_data oob (js_data oob (EMap kvs)) = EMap kvs" unfolding d by (simp add: comp_def)
  have ns: "names kvs = map (\<lambda>kv. ?n (fst kv)) kvs" using k unfolding names_def by (induction kvs) (auto split: option.splits)
  have m: "map EBin (map (\<lambda>kv. key_out (?n (fst kv))) kvs) = map fst kvs" using k by simp
  have "distinct (map EBin (map (\<lambda>kv. key_out (?n (fst kv))) kvs))" unfolding m by (rule dist)
  then have ko: "distinct (map (\<lambda>kv. key_out (?n (fst kv))) kvs)" by (simp only: distinct_map)
  then have "distinct (map key_out (map (\<lambda>kv. ?n (fst kv)) kvs))" by (simp only: map_map comp_def)
  then have "distinct (names kvs)" unfolding ns by (simp only: distinct_map)
  then have "convertible (EMap kvs)" using k assms(1) by simp
  moreover have "readable (js_data oob (EMap kvs))" unfolding d using k assms(1) ko by (auto simp: comp_def)
  ultimately show ?thesis using e by blast
qed

lemma atom_data_names:
  "atom_data (map ucast (cstr ''true'')) = DBool True" "atom_data (map ucast (cstr ''false'')) = DBool False"
  "atom_data (map ucast (cstr ''nil'')) = DNull" "atom_data (map ucast (cstr ''undefined'')) = DUndef"
  by code_simp+

lemma faithful_atom:
  assumes "EAtom cs \<in> ascii_atom ` {''true'', ''false'', ''nil'', ''undefined''}"
  shows "erl_data oob (atom_data cs) = EAtom cs \<and> readable (atom_data cs)"
proof -
  from assms consider "cs = map ucast (cstr ''true'')" | "cs = map ucast (cstr ''false'')"
    | "cs = map ucast (cstr ''nil'')" | "cs = map ucast (cstr ''undefined'')"
    unfolding ascii_atom_def by blast
  then show ?thesis by cases (simp_all only: atom_data_names erl_data.simps readable.simps ascii_atom_def if_True if_False simp_thms)
qed

lemma faithful_round:
  "faithful t \<Longrightarrow> edepth t \<le> n \<Longrightarrow> erl_data oob (js_data oob t) = t \<and> readable (js_data oob t) \<and> convertible t"
proof (induction n arbitrary: t)
  case 0
  then show ?case using edepth_pos [of t] by simp
next
  case (Suc n)
  show ?case
  proof (cases t)
    case (EInt i)
    then have "sint (word_of_int i :: s32) = i"
      using Suc.prems(1) by (intro sint_word_of_int_small) (simp_all add: in_range_def)
    then show ?thesis using EInt Suc.prems(1) by (simp add: int_data_def fits_string_def)
  next
    case (EFloat d)
    then show ?thesis using Suc.prems(1) not_whole32 [of d oob] by (simp add: num_data_def fits_string_def)
  next
    case (EAtom cs)
    then have "EAtom cs \<in> ascii_atom ` {''true'', ''false'', ''nil'', ''undefined''}" using Suc.prems(1) by simp
    then show ?thesis unfolding EAtom using faithful_atom [of cs oob] by (simp add: fits_string_def)
  next
    case (EBin b)
    then show ?thesis using Suc.prems(1) by (simp add: utf8_round fits_string_def)
  next
    case (ECons a b)
    then have "faithful (ECons a b)" using Suc.prems(1) by simp
    from faithful_list [OF this] ECons obtain ts where ts: "eitems t = Some ts" "length ts < 2 ^ 31"
      "\<forall>x \<in> set ts. faithful x" "iolist t = None" by metis
    have "\<forall>x \<in> set ts. erl_data oob (js_data oob x) = x \<and> readable (js_data oob x) \<and> convertible x"
      using edepth_items [OF ts(1) Suc.prems(2)] ts(3) Suc.IH by blast
    then have "map (erl_data oob \<circ> js_data oob) ts = ts" "\<forall>x \<in> set ts. readable (js_data oob x)" "\<forall>x \<in> set ts. convertible x"
      by (simp_all add: map_idI)
    moreover have "convertible t" using convertible_list [OF ts(1,4)] ts(2) \<open>\<forall>x \<in> set ts. convertible x\<close> by simp
    moreover have d: "js_data oob t = DArr (map (js_data oob) ts)" by (rule js_data_list [OF ts(4,1)])
    ultimately show ?thesis using ts(2) elist_items [OF ts(1)] unfolding d by simp
  next
    case (EMap kvs)
    have kvs: "\<forall>kv \<in> set kvs. plain_key (fst kv) \<and> erl_data oob (js_data oob (snd kv)) = snd kv
        \<and> readable (js_data oob (snd kv)) \<and> convertible (snd kv)"
    proof
      fix kv assume kv: "kv \<in> set kvs"
      then have "faithful (snd kv)" "edepth (snd kv) \<le> n" "plain_key (fst kv)"
        using Suc.prems EMap by (auto simp: foldr_max_le)
      with Suc.IH show "plain_key (fst kv) \<and> erl_data oob (js_data oob (snd kv)) = snd kv
        \<and> readable (js_data oob (snd kv)) \<and> convertible (snd kv)" by blast
    qed
    show ?thesis using faithful_pairs [OF kvs] Suc.prems(1) EMap by simp
  qed (use Suc.prems(1) in auto)
qed

section \<open>The conversions on any engine and NIF API\<close>

lemma map_restrict_le: "(m |` A) \<subseteq>\<^sub>m m"
  by (auto simp: map_le_def restrict_map_def dom_def split: if_splits)

context bridge
begin

lemma builds:
  assumes "ok (heap s)" "convertible (rep t)" "edepth (rep t) \<le> n"
  shows "\<exists>s' v. erl_term_to_js oob E Q n s t = Some (s', v)
    \<and> denotes (arr (heap s')) (obj (heap s')) v (js_data oob (rep t))
    \<and> ok (heap s') \<and> arr (heap s) \<subseteq>\<^sub>m arr (heap s') \<and> obj (heap s) \<subseteq>\<^sub>m obj (heap s')
    \<and> owed s' = owed s + 1"
proof -
  from erl_term_to_js_converts [OF assms(2,3)] assms(1) obtain s' v where
    c: "erl_term_to_js oob E Q n s t = Some (s', v)" "built (heap s) (heap s') v (js_data oob (rep t))"
    unfolding converts_def by blast
  then have "denotes (arr (heap s')) (obj (heap s')) v (js_data oob (rep t))"
    using denotes_mono [OF map_restrict_le map_restrict_le] unfolding built_def by blast
  with c conv_owesD [OF owed_erl_term_to_js c(1)] show ?thesis by (auto simp: built_def grown_def)
qed

lemma reads_back:
  assumes "\<And>k. 0 \<le> k \<Longrightarrow> k < 2 ^ 34 \<Longrightarrow> enif_alloc_ok E k" "ok (heap s)" "denotes (arr (heap s)) (obj (heap s)) v d"
    "readable d" "jdepth d \<le> n"
  shows "\<exists>s' t. js_value_to_erl oob E Q n s v = Some (s', t) \<and> term_eqv (rep t) (erl_data oob d)
    \<and> ok (heap s') \<and> arr (heap s') = arr (heap s) \<and> obj (heap s') = obj (heap s) \<and> refs (heap s') = refs (heap s)
    \<and> owed s' = owed s"
proof -
  from readsD [OF js_value_to_erl_reads [OF assms(1,4,5,2,3)] assms(2) refl refl] obtain s' t where
    c: "js_value_to_erl oob E Q n s v = Some (s', t)" "term_eqv (rep t) (erl_data oob d)" "unchanged (heap s) (heap s')"
    by blast
  with conv_owesD [OF owed_js_value_to_erl c(1)] show ?thesis by (auto simp: unchanged_def)
qed

lemma round_trip_faithful:
  assumes "\<And>k. 0 \<le> k \<Longrightarrow> k < 2 ^ 34 \<Longrightarrow> enif_alloc_ok E k" "ok (heap s)" "faithful (rep t)" "edepth (rep t) \<le> n"
  shows "\<exists>s1 v s2 t'. erl_term_to_js oob E Q n s t = Some (s1, v) \<and> js_value_to_erl oob E Q n s1 v = Some (s2, t')
    \<and> term_eqv (rep t') (rep t)"
proof -
  note f = faithful_round [OF assms(3,4), of oob]
  from builds [OF assms(2) _ assms(4), of oob] f obtain s1 v where
    b: "erl_term_to_js oob E Q n s t = Some (s1, v)" "denotes (arr (heap s1)) (obj (heap s1)) v (js_data oob (rep t))"
    "ok (heap s1)" by blast
  from reads_back [OF assms(1) b(3,2), of n oob] f js_depth [OF assms(4)] b(1) show ?thesis by fastforce
qed

end

interpretation bridge_model: bridge beam id plain_js heap_ok heap_arr heap_obj counts
  by unfold_locales

lemma beam_alloc: "0 \<le> n \<Longrightarrow> n < 2 ^ 34 \<Longrightarrow> enif_alloc_ok beam n"
  by (simp add: beam_def)

definition empty_heap :: jheap where
  "empty_heap = \<lparr>cells = (\<lambda>_. None), counts = (\<lambda>_. 0), next_cell = 0, pending = JNull\<rparr>"

definition js0 :: "jheap js" where
  "js0 = \<lparr>heap = empty_heap, owed = 0\<rparr>"

lemma js0_ok: "heap_ok (heap js0)"
  by (simp add: heap_ok_def empty_heap_def js0_def)


text \<open>
  C3. \<open>js_value_to_erl\<close> reads plain data: with enough stack it returns the term of the tree, equal
  up to the order of map pairs, and leaves every object and every reference count as it was.
\<close>
theorem js_value_to_erl_reads_data:
  assumes "bridge E rep Q ok arr obj refs" and "\<And>k. 0 \<le> k \<Longrightarrow> k < 2 ^ 34 \<Longrightarrow> enif_alloc_ok E k"
    and "ok (heap s)" and "denotes (arr (heap s)) (obj (heap s)) v d" and "readable d" and "jdepth d \<le> n"
  shows "\<exists>s' t. js_value_to_erl oob E Q n s v = Some (s', t) \<and> term_eqv (rep t) (erl_data oob d)
    \<and> ok (heap s') \<and> arr (heap s') = arr (heap s) \<and> obj (heap s') = obj (heap s) \<and> refs (heap s') = refs (heap s)
    \<and> owed s' = owed s"
  using bridge.reads_back [OF assms] .

text \<open>
  C1. Round trip: a faithful term sent to JavaScript and read back is the same term, up to the
  order of map pairs.
\<close>
theorem term_round_trip:
  assumes "bridge E rep Q ok arr obj refs" and "\<And>k. 0 \<le> k \<Longrightarrow> k < 2 ^ 34 \<Longrightarrow> enif_alloc_ok E k"
    and "ok (heap s)" and "faithful (rep t)" and "edepth (rep t) \<le> n"
  shows "\<exists>s1 v s2 t'. erl_term_to_js oob E Q n s t = Some (s1, v) \<and> js_value_to_erl oob E Q n s1 v = Some (s2, t')
    \<and> term_eqv (rep t') (rep t)"
  using bridge.round_trip_faithful [OF assms] .

text \<open>
  C18. An array that is its own first element has no term: \<open>js_value_to_erl\<close> does not return,
  whatever the size of the stack (in the C code, it overflows it).
\<close>
theorem cyclic_value_never_returns:
  assumes "bridge E rep Q ok arr obj refs" and "\<And>k. 0 \<le> k \<Longrightarrow> k < 2 ^ 34 \<Longrightarrow> enif_alloc_ok E k"
    and "ok (heap s)" and "arr (heap s) i = Some (JObj i # xs)" and "length xs < 2 ^ 31 - 1"
  shows "js_value_to_erl oob E Q n s (JObj i) = None"
  using bridge.cyclic_diverges [OF assms(1,2,5,3,4)] .

section \<open>Concrete runs\<close>

text \<open>A map with a list, and the tree of an object with an array.\<close>

definition demo_term :: eterm where
  "demo_term = EMap [(EBin [97], ECons (EInt 300) (ECons (EBin [98]) ENil)), (EBin [98], ascii_atom ''nil'')]"

definition demo_heap :: jheap where
  "demo_heap = \<lparr>cells = [0 \<mapsto> CArr [JInt 5, JObj 1], 1 \<mapsto> CObj [([120], JNull)]], counts = (\<lambda>_. 1), next_cell = 2,
     pending = JNull\<rparr>"

definition demo_cycle :: jheap where
  "demo_cycle = \<lparr>cells = [0 \<mapsto> CArr [JObj 0]], counts = (\<lambda>_. 1), next_cell = 1, pending = JNull\<rparr>"

lemma demo_convertible: "convertible (id demo_term)"
  by (simp add: demo_term_def fits_string_def good_key_def ascii_def special_name_def cunits_def cstr_def names_def
      utf16_ascii ascii_atom_def del: utf16_of_utf8.simps(2))

lemma demo_faithful: "faithful (id demo_term)"
proof -
  have "wf_utf8 [98]" by (rule utf8_ascii) (simp add: ascii_def)
  moreover have "faithful (ascii_atom ''nil'')"
    unfolding ascii_atom_def faithful.simps unfolding ascii_atom_def [symmetric] by simp
  ultimately show ?thesis by (simp add: demo_term_def in_range_def ascii_def cstr_def)
qed

lemma demo_depth: "edepth (id demo_term) \<le> 3"
  by (simp add: demo_term_def ascii_atom_def)

lemma demo_heap_ok: "heap_ok (heap \<lparr>heap = demo_heap, owed = 0\<rparr>)"
  by (auto simp: heap_ok_def demo_heap_def live_def)

lemma demo_denotes:
  "denotes (heap_arr (heap \<lparr>heap = demo_heap, owed = 0\<rparr>)) (heap_obj (heap \<lparr>heap = demo_heap, owed = 0\<rparr>))
    (JObj 0) (DArr [DInt 5, DObj [([120], DNull)]])"
  by (auto intro!: denotes.intros simp: heap_arr_def heap_obj_def demo_heap_def)

theorem term_round_trip_witness:
  "\<exists>s1 v s2 t'. erl_term_to_js (\<lambda>_. 0) beam plain_js 3 js0 demo_term = Some (s1, v)
    \<and> js_value_to_erl (\<lambda>_. 0) beam plain_js 3 s1 v = Some (s2, t') \<and> term_eqv t' demo_term"
  using term_round_trip [OF bridge_model.bridge_axioms beam_alloc js0_ok demo_faithful demo_depth] by simp


theorem js_value_to_erl_reads_data_witness:
  "\<exists>s' t. js_value_to_erl (\<lambda>_. 0) beam plain_js 3 \<lparr>heap = demo_heap, owed = 0\<rparr> (JObj 0) = Some (s', t)
    \<and> term_eqv t (ECons (EInt 5) (ECons (EMap [(EBin [120], ascii_atom ''nil'')]) ENil)) \<and> counts (heap s') = (\<lambda>_. 1)"
proof -
  have r: "readable (DArr [DInt 5, DObj [([120], DNull)]])" by (simp add: cunits_def cstr_def)
  have k: "key_out [120] = [120]" by code_simp
  have d: "jdepth (DArr [DInt 5, DObj [([120], DNull)]]) \<le> 3" by simp
  show ?thesis
    using js_value_to_erl_reads_data [OF bridge_model.bridge_axioms beam_alloc demo_heap_ok demo_denotes r d, of "\<lambda>_. 0"]
    by (auto simp: k demo_heap_def)
qed

theorem cyclic_value_never_returns_witness:
  "\<forall>n. js_value_to_erl (\<lambda>_. 0) beam plain_js n \<lparr>heap = demo_cycle, owed = 0\<rparr> (JObj 0) = None"
  by (intro allI, rule cyclic_value_never_returns [OF bridge_model.bridge_axioms beam_alloc, of _ _ "[]"])
    (auto simp: demo_cycle_def heap_ok_def live_def heap_arr_def)

end
