(* ===== verification/JobQueue.thy ===== *)
theory JobQueue
  imports TermConvert JSHeap
begin

text \<open>
  The queue of pending jobs (promise reactions) of a runtime: the circular doubly linked lists of
  list.h on an explicit store of links, \<open>JS_EnqueueJob\<close>, \<open>JS_IsJobPending\<close> and
  \<open>JS_ExecutePendingJob\<close> of quickjs.c, and the loop of beamjs_nif.c that drains the queue.
\<close>

section \<open>Linked lists\<close>

text \<open>A link is an address; \<open>NULL\<close> is 0.\<close>

record links =
  prv :: "nat \<Rightarrow> nat"
  nxt :: "nat \<Rightarrow> nat"

definition init_list_head :: "nat \<Rightarrow> links \<Rightarrow> links" where
  "init_list_head h m = m\<lparr>prv := (prv m)(h := h), nxt := (nxt m)(h := h)\<rparr>"

text \<open>\<open>__list_add\<close>: the four assignments in their order.\<close>

definition list_add_between :: "nat \<Rightarrow> nat \<Rightarrow> nat \<Rightarrow> links \<Rightarrow> links" where
  "list_add_between el p n m =
    (let m1 = m\<lparr>nxt := (nxt m)(p := el)\<rparr>;
         m2 = m1\<lparr>prv := (prv m1)(el := p)\<rparr>;
         m3 = m2\<lparr>nxt := (nxt m2)(el := n)\<rparr> in
     m3\<lparr>prv := (prv m3)(n := el)\<rparr>)"

definition list_add :: "nat \<Rightarrow> nat \<Rightarrow> links \<Rightarrow> links" where
  "list_add el h m = list_add_between el h (nxt m h) m"

definition list_add_tail :: "nat \<Rightarrow> nat \<Rightarrow> links \<Rightarrow> links" where
  "list_add_tail el h m = list_add_between el (prv m h) h m"

definition list_del :: "nat \<Rightarrow> links \<Rightarrow> links" where
  "list_del el m =
    (let p = prv m el; n = nxt m el;
         m1 = m\<lparr>nxt := (nxt m)(p := n)\<rparr>;
         m2 = m1\<lparr>prv := (prv m1)(n := p)\<rparr>;
         m3 = m2\<lparr>prv := (prv m2)(el := 0)\<rparr> in
     m3\<lparr>nxt := (nxt m3)(el := 0)\<rparr>)"

definition list_empty :: "nat \<Rightarrow> links \<Rightarrow> bool" where
  "list_empty h m \<longleftrightarrow> nxt m h = h"

text \<open>\<open>ring m h xs\<close>: from the head \<open>h\<close> the links lead through \<open>xs\<close> back to \<open>h\<close>, both ways.\<close>

fun linked :: "links \<Rightarrow> nat list \<Rightarrow> bool" where
  "linked m (a # b # xs) = (nxt m a = b \<and> prv m b = a \<and> linked m (b # xs))"
| "linked m _ = True"

definition ring :: "links \<Rightarrow> nat \<Rightarrow> nat list \<Rightarrow> bool" where
  "ring m h xs \<longleftrightarrow> distinct (h # xs) \<and> linked m (h # xs @ [h])"

lemma linked_append: "linked m (xs @ a # ys) \<longleftrightarrow> linked m (xs @ [a]) \<and> linked m (a # ys)"
  by (induction m xs rule: linked.induct) auto

lemma linked_frame:
  "linked m xs \<Longrightarrow> \<forall>a \<in> set (butlast xs). nxt m' a = nxt m a \<Longrightarrow> \<forall>a \<in> set (tl xs). prv m' a = prv m a \<Longrightarrow> linked m' xs"
  by (induction m xs rule: linked.induct) auto

lemma ring_init: "ring (init_list_head h m) h []"
  by (simp add: ring_def init_list_head_def)

lemma ring_next: "ring m h xs \<Longrightarrow> nxt m h = hd (xs @ [h])"
  by (cases xs) (auto simp: ring_def)

lemma ring_empty: "ring m h xs \<Longrightarrow> list_empty h m \<longleftrightarrow> xs = []"
  by (cases xs) (auto simp: list_empty_def ring_def)

lemma ring_split_last:
  assumes "h # xs = ys @ [p]"
  shows "tl (ys @ [p]) = xs" "set (ys @ [p]) = insert h (set xs)"
  unfolding assms [symmetric] by simp_all

lemma ring_add_tail:
  assumes r: "ring m h xs" and e: "e \<notin> set (h # xs)"
  shows "ring (list_add_tail e h m) h (xs @ [e])"
proof -
  let ?m = "list_add_tail e h m"
  obtain ys p where hx: "h # xs = ys @ [p]" by (cases "h # xs" rule: rev_cases) auto
  note sl = ring_split_last [OF hx]
  have "linked m ((h # xs) @ [h])" using r by (simp add: ring_def)
  then have "linked m (ys @ p # [h])" unfolding hx by simp
  then have l: "linked m (ys @ [p])" "prv m h = p" using linked_append [of m ys p "[h]"] by simp_all
  have "distinct (ys @ [p])" using r unfolding hx [symmetric] by (simp add: ring_def)
  then have d: "p \<notin> set ys" by simp
  have ey: "e \<notin> set ys" "e \<noteq> p" using e sl(2) by auto
  have n: "nxt ?m = (nxt m)(p := e, e := h)" "prv ?m = (prv m)(e := p, h := e)"
    by (simp_all add: list_add_tail_def list_add_between_def l(2))
  have he: "h \<notin> set xs" "e \<notin> set xs" using r e by (simp_all add: ring_def)
  have "linked ?m (ys @ [p])"
  proof (rule linked_frame [OF l(1)])
    show "\<forall>a \<in> set (butlast (ys @ [p])). nxt ?m a = nxt m a" unfolding n using d ey by auto
    show "\<forall>a \<in> set (tl (ys @ [p])). prv ?m a = prv m a" unfolding n sl(1) using he by auto
  qed
  moreover have "linked ?m (p # [e, h])" using n ey e by auto
  ultimately have "linked ?m (ys @ p # [e, h])" using linked_append [of ?m ys p "[e, h]"] by simp
  then have "linked ?m ((h # xs) @ [e, h])" unfolding hx by simp
  then show ?thesis using r e by (simp add: ring_def)
qed

lemma ring_del:
  assumes r: "ring m h (us @ e # vs)"
  shows "ring (list_del e m) h (us @ vs)"
proof -
  let ?m = "list_del e m"
  obtain ys p where hu: "h # us = ys @ [p]" by (cases "h # us" rule: rev_cases) auto
  obtain n zs where vh: "vs @ [h] = n # zs" by (cases "vs @ [h]") auto
  note sl = ring_split_last [OF hu]
  have d: "distinct (h # us @ e # vs)" using r by (simp add: ring_def)
  have "linked m ((h # us) @ e # (vs @ [h]))" using r by (simp add: ring_def)
  then have "linked m (ys @ p # e # n # zs)" unfolding hu vh by simp
  then have l: "linked m (ys @ [p])" "nxt m p = e" "prv m e = p" "nxt m e = n" "prv m n = e" "linked m (n # zs)"
    using linked_append [of m ys p "e # n # zs"] by simp_all
  have nv: "n = h \<and> zs = [] \<and> vs = [] \<or> (\<exists>ws. vs = n # ws \<and> zs = ws @ [h])" using vh by (cases vs) auto
  have pu: "p \<in> insert h (set us)" "n \<in> insert h (set vs)" using sl(2) nv by auto
  have m: "nxt ?m = (nxt m)(p := n, e := 0)" "prv ?m = (prv m)(n := p, e := 0)"
    by (simp_all add: list_del_def l Let_def)
  have ne: "p \<noteq> e" "n \<noteq> e" using pu d by auto
  have "distinct (ys @ [p])" using d unfolding hu [symmetric] by simp
  then have dy: "p \<notin> set ys" by simp
  have ey: "e \<notin> set ys" using sl(2) d by auto
  have hu': "n \<notin> set us" "e \<notin> set us" "p \<notin> set vs" "e \<notin> set vs" using pu d by auto
  have "linked ?m (ys @ [p])"
  proof (rule linked_frame [OF l(1)])
    show "\<forall>a \<in> set (butlast (ys @ [p])). nxt ?m a = nxt m a" unfolding m using dy ey by auto
    show "\<forall>a \<in> set (tl (ys @ [p])). prv ?m a = prv m a" unfolding m sl(1) using hu' by auto
  qed
  moreover have "linked ?m (n # zs)"
  proof (rule linked_frame [OF l(6)])
    have b: "butlast (n # zs) = vs" unfolding vh [symmetric] by simp
    show "\<forall>a \<in> set (butlast (n # zs)). nxt ?m a = nxt m a" unfolding b m using hu' by auto
    have "n \<notin> set zs" "e \<notin> set zs" using nv d by auto
    then show "\<forall>a \<in> set (tl (n # zs)). prv ?m a = prv m a" unfolding m by auto
  qed
  moreover have "linked ?m [p, n]" using m ne by simp
  ultimately have "linked ?m (ys @ p # n # zs)" using linked_append [of ?m ys p "n # zs"] by simp
  then have "linked ?m ((h # us) @ (vs @ [h]))" unfolding hu vh by simp
  then show ?thesis using d by (simp add: ring_def)
qed

section \<open>The job queue\<close>

text \<open>A \<open>JSJobEntry\<close>: the function and its arguments.\<close>

record job =
  job_func :: nat
  job_argv :: "jsval list"

text \<open>
  The part of a runtime the queue uses: the links, the address of \<open>job_list\<close>, the allocated
  entries by address, and the rest of the engine.
\<close>

record 'h jrt =
  jlinks :: links
  job_list :: nat
  entries :: "nat \<Rightarrow> job option"
  jstate :: "'h js"

text \<open>
  The calls into the rest of the engine: \<open>js_malloc\<close> (address 0 on failure), \<open>JS_DupValue\<close> and a
  job function, which runs script code: it may not return, and may enqueue jobs.
\<close>

record 'h jobapi =
  jmalloc :: "'h jrt \<Rightarrow> int \<Rightarrow> 'h \<times> nat"
  dup_val :: "'h \<Rightarrow> jsval \<Rightarrow> 'h"
  jcall :: "nat \<Rightarrow> jsval list \<Rightarrow> 'h jrt \<Rightarrow> ('h jrt \<times> jsval) option"

definition sizeof_JSJobEntry :: int where
  "sizeof_JSJobEntry = 40"

definition sizeof_JSValue :: int where
  "sizeof_JSValue = 16"

definition JS_EnqueueJob :: "'h jobapi \<Rightarrow> nat \<Rightarrow> jsval list \<Rightarrow> 'h jrt \<Rightarrow> 'h jrt \<times> int" where
  "JS_EnqueueJob J f args r =
    (let (h, e) = jmalloc J r (sizeof_JSJobEntry + int (length args) * sizeof_JSValue);
         r1 = r\<lparr>jstate := owe (jstate r) h 0\<rparr> in
     if e = 0 then (r1, - 1)
     else
       (let s = fold (\<lambda>v s. owe s (dup_val J (heap s) v) 1) args (jstate r1) in
        (r1\<lparr>jstate := s, entries := (entries r1)(e \<mapsto> \<lparr>job_func = f, job_argv = args\<rparr>),
           jlinks := list_add_tail e (job_list r1) (jlinks r1)\<rparr>, 0)))"

definition JS_IsJobPending :: "'h jrt \<Rightarrow> bool" where
  "JS_IsJobPending r \<longleftrightarrow> \<not> list_empty (job_list r) (jlinks r)"

text \<open>
  \<open>JS_ExecutePendingJob\<close>: the return code is 0 for no job, 1 for a job, -1 for a job that threw.
  The entry leaves the list before its function runs.
\<close>

definition free_vals :: "'h qjs \<Rightarrow> jsval list \<Rightarrow> 'h js \<Rightarrow> 'h js" where
  "free_vals Q vs s = fold (\<lambda>v s. c_free Q s v) vs s"

definition JS_ExecutePendingJob :: "'h qjs \<Rightarrow> 'h jobapi \<Rightarrow> 'h jrt \<Rightarrow> ('h jrt \<times> int) option" where
  "JS_ExecutePendingJob Q J r =
    (if list_empty (job_list r) (jlinks r) then Some (r, 0)
     else
       (let e = nxt (jlinks r) (job_list r); r1 = r\<lparr>jlinks := list_del e (jlinks r)\<rparr> in
        case entries r1 e of None \<Rightarrow> None
        | Some j \<Rightarrow>
          (case jcall J (job_func j) (job_argv j) r1 of None \<Rightarrow> None
           | Some (r2, res) \<Rightarrow>
               Some (r2\<lparr>jstate := c_free Q (free_vals Q (job_argv j) (jstate r2)) res,
                       entries := (entries r2)(e := None)\<rparr>,
                     if res = JExc then - 1 else 1))))"

text \<open>
  \<open>while (JS_ExecutePendingJob(rt, &pctx) > 0) count++\<close>: it need not end, as a job may enqueue
  another one; the count of beamjs_nif.c is an \<open>int\<close>.
\<close>

partial_function (option) run_pending_jobs ::
  "'h qjs \<Rightarrow> 'h jobapi \<Rightarrow> 'h jrt \<Rightarrow> nat \<Rightarrow> ('h jrt \<times> nat) option" where
  "run_pending_jobs Q J r count =
    (case JS_ExecutePendingJob Q J r of None \<Rightarrow> None
     | Some (r', ret) \<Rightarrow> if ret > 0 then run_pending_jobs Q J r' (Suc count) else Some (r', count))"

text \<open>\<open>queue r xs\<close>: the job list is the ring of the allocated entries \<open>xs\<close>.\<close>

definition queue :: "'h jrt \<Rightarrow> nat list \<Rightarrow> bool" where
  "queue r xs \<longleftrightarrow> ring (jlinks r) (job_list r) xs \<and> (\<forall>x \<in> set xs. entries r x \<noteq> None)"

lemma queue_pending: "queue r xs \<Longrightarrow> JS_IsJobPending r \<longleftrightarrow> xs \<noteq> []"
  by (auto simp: JS_IsJobPending_def queue_def ring_empty)

lemma queue_state [simp]: "queue (r\<lparr>jstate := s\<rparr>) xs = queue r xs"
  by (simp add: queue_def)

lemma enqueue_links:
  assumes "queue r xs" and "JS_EnqueueJob J f args r = (r', 0)"
    and "\<And>h e. jmalloc J r (sizeof_JSJobEntry + int (length args) * sizeof_JSValue) = (h, e) \<Longrightarrow> e \<noteq> 0 \<Longrightarrow>
      entries r e = None \<and> e \<noteq> job_list r"
  shows "\<exists>e. queue r' (xs @ [e]) \<and> entries r e = None \<and> entries r' = (entries r)(e \<mapsto> \<lparr>job_func = f, job_argv = args\<rparr>)"
proof -
  obtain h e where m: "jmalloc J r (sizeof_JSJobEntry + int (length args) * sizeof_JSValue) = (h, e)" by force
  with assms(2) have e: "e \<noteq> 0" by (auto simp: JS_EnqueueJob_def Let_def split: if_splits)
  from assms(3) [OF m e] have f: "entries r e = None" "e \<noteq> job_list r" by auto
  have n: "e \<notin> set (job_list r # xs)" using f assms(1) by (auto simp: queue_def)
  have r': "jlinks r' = list_add_tail e (job_list r) (jlinks r)" "job_list r' = job_list r"
    "entries r' = (entries r)(e \<mapsto> \<lparr>job_func = f, job_argv = args\<rparr>)"
    using assms(2) m e by (auto simp: JS_EnqueueJob_def Let_def)
  have "ring (jlinks r') (job_list r') (xs @ [e])" unfolding r' using ring_add_tail [OF _ n] assms(1) by (simp add: queue_def)
  then have "queue r' (xs @ [e])" using assms(1) by (auto simp: queue_def r'(3))
  with f(1) r'(3) show ?thesis by blast
qed

text \<open>Taking the oldest entry off the list.\<close>

lemma dequeue_links:
  assumes "queue r (x # xs)"
  shows "\<not> list_empty (job_list r) (jlinks r)" "nxt (jlinks r) (job_list r) = x"
    "queue (r\<lparr>jlinks := list_del x (jlinks r)\<rparr>) xs" "x \<notin> set xs"
proof -
  have r: "ring (jlinks r) (job_list r) ([] @ x # xs)" using assms by (simp add: queue_def)
  show "\<not> list_empty (job_list r) (jlinks r)" using ring_empty [OF r] by simp
  show "nxt (jlinks r) (job_list r) = x" using ring_next [OF r] by simp
  show "queue (r\<lparr>jlinks := list_del x (jlinks r)\<rparr>) xs" using ring_del [OF r] assms by (simp add: queue_def)
  show "x \<notin> set xs" using r by (simp add: ring_def)
qed

text \<open>
  What the queue needs of the engine: while entries are allocated, nobody else changes them, and
  script code changes the list only by appending new entries.
\<close>

definition appends_jobs :: "'h jrt \<Rightarrow> 'h jrt \<Rightarrow> bool" where
  "appends_jobs r r' \<longleftrightarrow> (\<forall>x. entries r x \<noteq> None \<longrightarrow> entries r' x = entries r x)
     \<and> (\<forall>xs. queue r xs \<longrightarrow> (\<exists>ys. queue r' (xs @ ys) \<and> (\<forall>y \<in> set ys. entries r y = None)))"

locale job_runtime =
  fixes Q :: "'h qjs" and J :: "'h jobapi" and rok :: "'h jrt \<Rightarrow> bool"
  assumes calls: "rok r \<Longrightarrow> jcall J f args r = Some (r', v) \<Longrightarrow> rok r' \<and> appends_jobs r r'"
    and links: "rok r \<Longrightarrow> rok (r\<lparr>jlinks := m\<rparr>)"
    and frees: "rok r \<Longrightarrow> rok (r\<lparr>jstate := c_free Q (free_vals Q vs (jstate r)) v, entries := (entries r)(e := None)\<rparr>)"
begin

lemma execute_oldest:
  assumes "rok r" "queue r (x # xs)" "entries r x = Some j"
    and call: "jcall J (job_func j) (job_argv j) (r\<lparr>jlinks := list_del x (jlinks r)\<rparr>) = Some (r2, v)"
  shows "\<exists>r' ys. JS_ExecutePendingJob Q J r = Some (r', if v = JExc then - 1 else 1) \<and> rok r'
    \<and> queue r' (xs @ ys) \<and> (\<forall>y \<in> set xs. entries r' y = entries r y) \<and> (\<forall>y \<in> set ys. entries r y = None)"
proof -
  note d = dequeue_links [OF assms(2)]
  let ?r1 = "r\<lparr>jlinks := list_del x (jlinks r)\<rparr>"
  have a: "rok r2" "appends_jobs ?r1 r2" using calls [OF links [OF assms(1)] call] by simp_all
  from a(2) d(3) obtain ys where ys: "queue r2 (xs @ ys)" "\<forall>y \<in> set ys. entries r y = None"
    and keep: "\<And>y. entries r y \<noteq> None \<Longrightarrow> entries r2 y = entries r y" unfolding appends_jobs_def by fastforce
  let ?r' = "r2\<lparr>jstate := c_free Q (free_vals Q (job_argv j) (jstate r2)) v, entries := (entries r2)(x := None)\<rparr>"
  have "x \<notin> set (xs @ ys)" using d(4) ys(2) assms(3) by auto
  then have "queue ?r' (xs @ ys)" using ys(1) by (auto simp: queue_def)
  moreover have "JS_ExecutePendingJob Q J r = Some (?r', if v = JExc then - 1 else 1)"
    using d(1,2) assms(3) call by (simp add: JS_ExecutePendingJob_def)
  moreover have "\<forall>y \<in> set xs. entries ?r' y = entries r y"
    using d(4) keep assms(2) by (auto simp: queue_def)
  ultimately show ?thesis using frees [OF a(1)] ys(2) by blast
qed

lemma execute_step:
  assumes "rok r" "queue r xs" "JS_ExecutePendingJob Q J r = Some (r', k)"
  shows "rok r' \<and> (case xs of [] \<Rightarrow> k = 0 \<and> r' = r
    | x # ws \<Rightarrow> (k = 1 \<or> k = - 1) \<and> (\<exists>ys. queue r' (ws @ ys) \<and> (\<forall>y \<in> set ws. entries r' y = entries r y)))"
proof (cases xs)
  case Nil
  then show ?thesis using assms by (auto simp: JS_ExecutePendingJob_def queue_def ring_empty)
next
  case (Cons x ws)
  note d = dequeue_links [OF assms(2) [unfolded Cons]]
  obtain j where j: "entries r x = Some j" using assms(2) Cons by (auto simp: queue_def)
  obtain r2 v where c: "jcall J (job_func j) (job_argv j) (r\<lparr>jlinks := list_del x (jlinks r)\<rparr>) = Some (r2, v)"
    using assms(3) d(1,2) j by (auto simp: JS_ExecutePendingJob_def split: option.splits)
  from execute_oldest [OF assms(1) assms(2) [unfolded Cons] j c] assms(3) Cons show ?thesis by auto
qed

text \<open>A job that returns normally from every state.\<close>

definition returns_job :: "job \<Rightarrow> bool" where
  "returns_job j \<longleftrightarrow> (\<forall>r. rok r \<longrightarrow> (\<exists>r' v. jcall J (job_func j) (job_argv j) r = Some (r', v) \<and> v \<noteq> JExc))"

lemma run_returning_prefix:
  "rok r \<Longrightarrow> queue r (us @ vs) \<Longrightarrow> \<forall>u \<in> set us. \<exists>j. entries r u = Some j \<and> returns_job j \<Longrightarrow>
    \<exists>r' ys. run_pending_jobs Q J r n = run_pending_jobs Q J r' (n + length us) \<and> rok r'
      \<and> queue r' (vs @ ys) \<and> (\<forall>y \<in> set vs. entries r' y = entries r y)"
proof (induction us arbitrary: r n vs)
  case Nil
  then show ?case by (intro exI [of _ r] exI [of _ "[]"]) simp
next
  case (Cons u us)
  from Cons.prems(3) obtain j where j: "entries r u = Some j" "returns_job j" by auto
  have q: "queue r (u # (us @ vs))" using Cons.prems(2) by simp
  from j(2) links [OF Cons.prems(1)] obtain r2 v where
    c: "jcall J (job_func j) (job_argv j) (r\<lparr>jlinks := list_del u (jlinks r)\<rparr>) = Some (r2, v)" "v \<noteq> JExc"
    unfolding returns_job_def by blast
  from execute_oldest [OF Cons.prems(1) q j(1) c(1)] c(2) obtain r1 ys where
    e: "JS_ExecutePendingJob Q J r = Some (r1, 1)" "rok r1" "queue r1 (us @ (vs @ ys))"
    "\<forall>y \<in> set (us @ vs). entries r1 y = entries r y" by auto
  have "\<forall>u \<in> set us. \<exists>j. entries r1 u = Some j \<and> returns_job j" using Cons.prems(3) e(4) by auto
  from Cons.IH [OF e(2,3) this, of "Suc n"] obtain r' zs where
    "run_pending_jobs Q J r1 (Suc n) = run_pending_jobs Q J r' (Suc n + length us)" "rok r'"
    "queue r' ((vs @ ys) @ zs)" "\<forall>y \<in> set (vs @ ys). entries r' y = entries r1 y" by blast
  moreover have "run_pending_jobs Q J r n = run_pending_jobs Q J r1 (Suc n)"
    using e(1) by (subst run_pending_jobs.simps) simp
  ultimately show ?case using e(4) by (intro exI [of _ r'] exI [of _ "ys @ zs"]) auto
qed

lemma run_stops_at_exception:
  assumes "rok r" "queue r (us @ x # vs)" "\<forall>u \<in> set us. \<exists>j. entries r u = Some j \<and> returns_job j"
    and "entries r x = Some j" "\<And>r. rok r \<Longrightarrow> \<exists>r'. jcall J (job_func j) (job_argv j) r = Some (r', JExc)"
  shows "\<exists>r' ys. run_pending_jobs Q J r n = Some (r', n + length us) \<and> queue r' (vs @ ys)"
proof -
  from run_returning_prefix [OF assms(1-3), of n] obtain r1 ys where r1:
    "run_pending_jobs Q J r n = run_pending_jobs Q J r1 (n + length us)" "rok r1" "queue r1 ((x # vs) @ ys)"
    and en: "\<forall>y \<in> set (x # vs). entries r1 y = entries r y" by blast
  then have r1x: "entries r1 x = Some j" using assms(4) by simp
  from assms(5) links [OF r1(2)] obtain r2 where
    "jcall J (job_func j) (job_argv j) (r1\<lparr>jlinks := list_del x (jlinks r1)\<rparr>) = Some (r2, JExc)" by blast
  from execute_oldest [OF r1(2) _ r1x this, of "vs @ ys"] r1(3) obtain r' zs where
    "JS_ExecutePendingJob Q J r1 = Some (r', - 1)" "queue r' (vs @ ys @ zs)" by auto
  then show ?thesis using r1(1) by (auto simp: run_pending_jobs.simps [of Q J r1])
qed

text \<open>
  Jobs that do not throw and whose new jobs together weigh less than themselves: the loop ends.
\<close>

definition well_behaved :: "(job \<Rightarrow> nat) \<Rightarrow> bool" where
  "well_behaved w \<longleftrightarrow> (\<forall>r j xs. rok r \<longrightarrow> queue r xs \<longrightarrow>
     (\<exists>r' v ys. jcall J (job_func j) (job_argv j) r = Some (r', v) \<and> v \<noteq> JExc \<and> queue r' (xs @ ys)
       \<and> sum_list (map (\<lambda>y. w (the (entries r' y))) ys) < w j))"

definition total_weight :: "(job \<Rightarrow> nat) \<Rightarrow> 'h jrt \<Rightarrow> nat list \<Rightarrow> nat" where
  "total_weight w r xs = sum_list (map (\<lambda>y. w (the (entries r y))) xs)"

lemma queue_unique: "queue r xs \<Longrightarrow> queue r ys \<Longrightarrow> xs = ys"
proof -
  have walk: "linked m (a # xs @ [h]) \<Longrightarrow> linked m (a # ys @ [h]) \<Longrightarrow> h \<notin> set xs \<Longrightarrow> h \<notin> set ys \<Longrightarrow> xs = ys" for m a h
  proof (induction xs arbitrary: a ys)
    case Nil
    then show ?case by (cases ys) auto
  next
    case (Cons x xs)
    then show ?case by (cases ys) auto
  qed
  show "queue r xs \<Longrightarrow> queue r ys \<Longrightarrow> xs = ys" by (auto simp: queue_def ring_def intro: walk)
qed

lemma run_drains:
  assumes w: "well_behaved w"
  shows "rok r \<Longrightarrow> queue r xs \<Longrightarrow> \<exists>r' m. run_pending_jobs Q J r n = Some (r', m) \<and> n + length xs \<le> m \<and> queue r' []"
proof (induction "total_weight w r xs" arbitrary: r xs n rule: less_induct)
  case less
  show ?case
  proof (cases xs)
    case Nil
    then have "JS_ExecutePendingJob Q J r = Some (r, 0)" using ring_empty [of "jlinks r" "job_list r" xs] less.prems(2)
      by (simp add: JS_ExecutePendingJob_def queue_def)
    then show ?thesis using less.prems(2) Nil by (subst run_pending_jobs.simps) auto
  next
    case (Cons x ws)
    note d = dequeue_links [OF less.prems(2) [unfolded Cons]]
    obtain j where j: "entries r x = Some j" using less.prems(2) Cons by (auto simp: queue_def)
    from w links [OF less.prems(1)] d(3) obtain r2 v ys where c:
      "jcall J (job_func j) (job_argv j) (r\<lparr>jlinks := list_del x (jlinks r)\<rparr>) = Some (r2, v)" "v \<noteq> JExc"
      "queue r2 (ws @ ys)" "sum_list (map (\<lambda>y. w (the (entries r2 y))) ys) < w j"
      unfolding well_behaved_def by blast
    have a: "rok r2" "appends_jobs (r\<lparr>jlinks := list_del x (jlinks r)\<rparr>) r2"
      using calls [OF links [OF less.prems(1)] c(1)] by simp_all
    from a(2) d(3) obtain zs where zs: "queue r2 (ws @ zs)" "\<forall>y \<in> set zs. entries r y = None"
      and keep: "\<And>y. entries r y \<noteq> None \<Longrightarrow> entries r2 y = entries r y" unfolding appends_jobs_def by fastforce
    have "ys = zs" using queue_unique [OF c(3) zs(1)] by simp
    then have xn: "x \<notin> set (ws @ ys)" using d(4) zs(2) j by auto
    let ?r' = "r2\<lparr>jstate := c_free Q (free_vals Q (job_argv j) (jstate r2)) v, entries := (entries r2)(x := None)\<rparr>"
    have q: "queue ?r' (ws @ ys)" using c(3) xn by (auto simp: queue_def)
    have e: "JS_ExecutePendingJob Q J r = Some (?r', 1)"
      using d(1,2) j c(1,2) by (simp add: JS_ExecutePendingJob_def)
    have same: "map (\<lambda>y. w (the (entries ?r' y))) ws = map (\<lambda>y. w (the (entries r y))) ws"
      using xn keep less.prems(2) Cons by (auto simp: queue_def)
    have ysw: "map (\<lambda>y. w (the (entries ?r' y))) ys = map (\<lambda>y. w (the (entries r2 y))) ys" using xn by auto
    have "total_weight w ?r' (ws @ ys) < total_weight w r xs"
      unfolding total_weight_def map_append sum_list_append same ysw using c(4) j Cons by simp
    from less.hyps [OF this frees [OF a(1)] q, of "Suc n"] e Cons show ?thesis
      by (subst run_pending_jobs.simps) auto
  qed
qed

end

section \<open>A scripted runtime\<close>

text \<open>
  An engine whose job functions follow a program: function \<open>f\<close> enqueues the functions
  \<open>fst (prog f)\<close>, and throws if \<open>snd (prog f)\<close>. Addresses are handed out in ascending order.
\<close>

definition quiet_api :: "jheap jobapi" where
  "quiet_api = \<lparr>jmalloc = (\<lambda>r n. ((heap (jstate r))\<lparr>next_cell := Suc (next_cell (heap (jstate r)))\<rparr>, Suc (next_cell (heap (jstate r))))),
     dup_val = (\<lambda>h v. heap_ref h v), jcall = (\<lambda>f args r. None)\<rparr>"

fun enqueue_all :: "nat list \<Rightarrow> jheap jrt \<Rightarrow> jheap jrt" where
  "enqueue_all [] r = r"
| "enqueue_all (f # fs) r = enqueue_all fs (fst (JS_EnqueueJob quiet_api f [] r))"

definition scripted :: "(nat \<Rightarrow> nat list \<times> bool) \<Rightarrow> jheap jobapi" where
  "scripted prog = quiet_api\<lparr>jcall := (\<lambda>f args r. Some (enqueue_all (fst (prog f)) r, if snd (prog f) then JExc else JUndef))\<rparr>"

definition scripted_ok :: "jheap jrt \<Rightarrow> bool" where
  "scripted_ok r \<longleftrightarrow> (\<forall>e. entries r e \<noteq> None \<longrightarrow> e \<le> next_cell (heap (jstate r))) \<and> job_list r \<le> next_cell (heap (jstate r))"

lemma next_cell_free: "next_cell (heap_free n h v) = next_cell h"
proof (induction n arbitrary: h v)
  case (Suc n)
  have f: "next_cell (fold (\<lambda>x g. heap_free n g (f x)) xs g) = next_cell g" for f :: "'b \<Rightarrow> jsval" and xs g
    by (induction xs arbitrary: g) (simp_all add: Suc)
  have f': "next_cell (fold (\<lambda>x g. heap_free n g x) xs g) = next_cell g" for xs g using f [of "\<lambda>x. x"] by simp
  show ?case by (cases v) (auto simp: f f' Let_def split: option.split cell.split)
qed simp

lemma next_cell_free_vals: "next_cell (heap (c_free plain_js (free_vals plain_js vs s) v)) = next_cell (heap s)"
proof -
  have "next_cell (heap (c_free plain_js s v)) = next_cell (heap s)" for s v
    by (simp add: c_free_def plain_js_def next_cell_free del: heap_free.simps)
  moreover have "next_cell (heap (free_vals plain_js vs s)) = next_cell (heap s)" for s
    unfolding free_vals_def by (induction vs arbitrary: s) (simp_all add: calculation)
  ultimately show ?thesis by simp
qed

lemma scripted_enqueue:
  assumes "scripted_ok r"
  shows "scripted_ok (fst (JS_EnqueueJob quiet_api f [] r))" "appends_jobs r (fst (JS_EnqueueJob quiet_api f [] r))"
    "queue r xs \<Longrightarrow> \<exists>e. queue (fst (JS_EnqueueJob quiet_api f [] r)) (xs @ [e]) \<and> entries r e = None
       \<and> entries (fst (JS_EnqueueJob quiet_api f [] r)) e = Some \<lparr>job_func = f, job_argv = []\<rparr>"
proof -
  let ?e = "Suc (next_cell (heap (jstate r)))"
  let ?r = "fst (JS_EnqueueJob quiet_api f [] r)"
  have e: "entries r ?e = None" "?e \<noteq> job_list r" using assms by (auto simp: scripted_ok_def)
  have run: "JS_EnqueueJob quiet_api f [] r = (?r, 0)"
    by (simp add: JS_EnqueueJob_def quiet_api_def)
  have en: "entries ?r = (entries r)(?e \<mapsto> \<lparr>job_func = f, job_argv = []\<rparr>)" "job_list ?r = job_list r"
    "next_cell (heap (jstate ?r)) = ?e"
    by (simp_all add: JS_EnqueueJob_def quiet_api_def Let_def)
  show "scripted_ok ?r" using assms by (auto simp: scripted_ok_def en)
  have q: "\<exists>e. queue ?r (xs @ [e]) \<and> entries r e = None \<and> entries ?r = (entries r)(e \<mapsto> \<lparr>job_func = f, job_argv = []\<rparr>)"
    if "queue r xs" for xs
    by (rule enqueue_links [OF that run]) (use e in \<open>auto simp: quiet_api_def\<close>)
  then show "queue r xs \<Longrightarrow> \<exists>e. queue ?r (xs @ [e]) \<and> entries r e = None \<and> entries ?r e = Some \<lparr>job_func = f, job_argv = []\<rparr>"
    by fastforce
  show "appends_jobs r ?r"
    unfolding appends_jobs_def
  proof (intro conjI allI impI)
    fix x assume "entries r x \<noteq> None"
    then show "entries ?r x = entries r x" using e(1) en(1) by auto
  next
    fix xs assume "queue r xs"
    from q [OF this] show "\<exists>ys. queue ?r (xs @ ys) \<and> (\<forall>y \<in> set ys. entries r y = None)" by fastforce
  qed
qed

lemma appends_trans: "appends_jobs r r' \<Longrightarrow> appends_jobs r' r'' \<Longrightarrow> appends_jobs r r''"
proof -
  assume a: "appends_jobs r r'" "appends_jobs r' r''"
  have k: "entries r x \<noteq> None \<Longrightarrow> entries r'' x = entries r x" for x using a by (auto simp: appends_jobs_def)
  have "\<exists>ys. queue r'' (xs @ ys) \<and> (\<forall>y \<in> set ys. entries r y = None)" if q: "queue r xs" for xs
  proof -
    from a(1) q obtain ys where ys: "queue r' (xs @ ys)" "\<forall>y \<in> set ys. entries r y = None"
      by (auto simp: appends_jobs_def)
    with a(2) obtain zs where zs: "queue r'' ((xs @ ys) @ zs)" "\<forall>y \<in> set zs. entries r' y = None"
      unfolding appends_jobs_def by blast
    moreover have "\<forall>y \<in> set zs. entries r y = None" using zs(2) a(1) by (auto simp: appends_jobs_def)
    ultimately show ?thesis using ys(2) by (intro exI [of _ "ys @ zs"]) auto
  qed
  with k show ?thesis by (simp add: appends_jobs_def)
qed

lemma scripted_enqueue_all:
  "scripted_ok r \<Longrightarrow> scripted_ok (enqueue_all fs r) \<and> appends_jobs r (enqueue_all fs r)
    \<and> (\<forall>xs. queue r xs \<longrightarrow> (\<exists>ys. queue (enqueue_all fs r) (xs @ ys)
        \<and> map (entries (enqueue_all fs r)) ys = map (\<lambda>f. Some \<lparr>job_func = f, job_argv = []\<rparr>) fs))"
proof (induction fs arbitrary: r)
  case Nil
  have "appends_jobs r r" unfolding appends_jobs_def by (metis append_Nil2 empty_iff list.set(1))
  then show ?case using Nil by (auto intro: exI [of _ "[]"])
next
  case (Cons f fs)
  let ?r = "fst (JS_EnqueueJob quiet_api f [] r)"
  note e = scripted_enqueue [OF Cons.prems, where f = f]
  note ih = Cons.IH [OF e(1)]
  have "\<exists>ys. queue (enqueue_all fs ?r) (xs @ ys)
        \<and> map (entries (enqueue_all fs ?r)) ys = map (\<lambda>f. Some \<lparr>job_func = f, job_argv = []\<rparr>) (f # fs)"
    if q: "queue r xs" for xs
  proof -
    from e(3) [OF q] obtain a where a: "queue ?r (xs @ [a])" "entries ?r a = Some \<lparr>job_func = f, job_argv = []\<rparr>" by blast
    with ih obtain ys where ys: "queue (enqueue_all fs ?r) ((xs @ [a]) @ ys)"
      "map (entries (enqueue_all fs ?r)) ys = map (\<lambda>f. Some \<lparr>job_func = f, job_argv = []\<rparr>) fs" by blast
    have "entries (enqueue_all fs ?r) a = entries ?r a" using ih a(2) by (auto simp: appends_jobs_def)
    with ys a(2) show ?thesis by (intro exI [of _ "a # ys"]) simp
  qed
  with ih appends_trans [OF e(2)] show ?case by simp
qed

interpretation scripted: job_runtime plain_js "scripted prog" scripted_ok for prog
proof
  fix r f args r' v assume "scripted_ok r" "jcall (scripted prog) f args r = Some (r', v)"
  then show "scripted_ok r' \<and> appends_jobs r r'" using scripted_enqueue_all [of r "fst (prog f)"]
    by (auto simp: scripted_def)
qed (auto simp: scripted_ok_def next_cell_free_vals)

section \<open>Properties of the queue and of the draining loop\<close>

text \<open>
  C27. The queue is first in, first out: \<open>JS_EnqueueJob\<close> puts the new job behind all others, and
  \<open>JS_ExecutePendingJob\<close> runs the oldest job and removes it, keeping the order of the others and
  of the jobs that were added while it ran.
\<close>
theorem job_queue_is_fifo:
  assumes "job_runtime Q J rok" and "rok r" and "queue r (x # xs)" and "entries r x = Some j"
    and "jcall J (job_func j) (job_argv j) (r\<lparr>jlinks := list_del x (jlinks r)\<rparr>) = Some (r2, v)"
    and "JS_EnqueueJob J f args r = (r3, 0)"
    and "\<And>h e. jmalloc J r (sizeof_JSJobEntry + int (length args) * sizeof_JSValue) = (h, e) \<Longrightarrow> e \<noteq> 0 \<Longrightarrow>
      entries r e = None \<and> e \<noteq> job_list r"
  shows "(\<exists>r' ys. JS_ExecutePendingJob Q J r = Some (r', if v = JExc then - 1 else 1) \<and> queue r' (xs @ ys)
      \<and> (\<forall>y \<in> set xs. entries r' y = entries r y) \<and> (\<forall>y \<in> set ys. entries r y = None))
    \<and> (\<exists>e. queue r3 ((x # xs) @ [e]) \<and> entries r3 = (entries r)(e \<mapsto> \<lparr>job_func = f, job_argv = args\<rparr>))"
proof
  show "\<exists>r' ys. JS_ExecutePendingJob Q J r = Some (r', if v = JExc then - 1 else 1) \<and> queue r' (xs @ ys)
      \<and> (\<forall>y \<in> set xs. entries r' y = entries r y) \<and> (\<forall>y \<in> set ys. entries r y = None)"
    using job_runtime.execute_oldest [OF assms(1-5)] by blast
  have "\<exists>e. queue r3 ((x # xs) @ [e]) \<and> entries r e = None \<and> entries r3 = (entries r)(e \<mapsto> \<lparr>job_func = f, job_argv = args\<rparr>)"
    by (rule enqueue_links [OF assms(3,6)]) (rule assms(7))
  then show "\<exists>e. queue r3 ((x # xs) @ [e]) \<and> entries r3 = (entries r)(e \<mapsto> \<lparr>job_func = f, job_argv = args\<rparr>)"
    by blast
qed

text \<open>
  The loop that drains the queue stops at the first job that throws: the jobs behind it stay
  queued, and the count is that of the jobs before it.
\<close>
theorem pending_jobs_stop_at_exception:
  assumes "job_runtime Q J rok" and "rok r" and "queue r (us @ x # vs)"
    and "\<forall>u \<in> set us. \<exists>j. entries r u = Some j \<and> job_runtime.returns_job J rok j"
    and "entries r x = Some j" and "\<And>r. rok r \<Longrightarrow> \<exists>r'. jcall J (job_func j) (job_argv j) r = Some (r', JExc)"
  shows "\<exists>r' ys. run_pending_jobs Q J r n = Some (r', n + length us) \<and> queue r' (vs @ ys)"
  using job_runtime.run_stops_at_exception [OF assms] .


section \<open>Concrete runs\<close>

definition demo_jobs :: "jheap jrt" where
  "demo_jobs = enqueue_all [5, 6, 7] \<lparr>jlinks = init_list_head 1 \<lparr>prv = \<lambda>_. 0, nxt = \<lambda>_. 0\<rparr>, job_list = 1,
     entries = (\<lambda>_. None), jstate = \<lparr>heap = \<lparr>cells = (\<lambda>_. None), counts = (\<lambda>_. 0), next_cell = 1, pending = JNull\<rparr>, owed = 0\<rparr>\<rparr>"

lemma demo_jobs_ok: "scripted_ok demo_jobs"
  unfolding demo_jobs_def by (rule conjunct1 [OF scripted_enqueue_all]) (simp add: scripted_ok_def)

lemma demo_jobs_queue: "queue demo_jobs [2, 3, 4]"
  by (simp add: demo_jobs_def JS_EnqueueJob_def quiet_api_def Let_def queue_def ring_def init_list_head_def
      list_add_tail_def list_add_between_def eval_nat_numeral)

lemma demo_jobs_entries:
  "entries demo_jobs 2 = Some \<lparr>job_func = 5, job_argv = []\<rparr>" "entries demo_jobs 3 = Some \<lparr>job_func = 6, job_argv = []\<rparr>"
  by (simp_all add: demo_jobs_def JS_EnqueueJob_def quiet_api_def Let_def eval_nat_numeral)

text \<open>Function 6 throws; functions 5 and 7 enqueue functions 8 and 9.\<close>

definition demo_prog :: "nat \<Rightarrow> nat list \<times> bool" where
  "demo_prog f = (if f = 6 then ([], True) else if f < 8 then ([8, 9], False) else ([], False))"

definition calm_prog :: "nat \<Rightarrow> nat list \<times> bool" where
  "calm_prog f = (if f < 8 then ([8, 9], False) else ([], False))"

definition demo_weight :: "job \<Rightarrow> nat" where
  "demo_weight j = (if job_func j < 8 then 3 else 1)"

lemma demo_returns: "scripted.returns_job demo_prog \<lparr>job_func = 5, job_argv = []\<rparr>"
  unfolding scripted.returns_job_def by (simp add: scripted_def demo_prog_def)

lemma calm_well_behaved: "scripted.well_behaved calm_prog demo_weight"
  unfolding scripted.well_behaved_def
proof (intro allI impI)
  fix r :: "jheap jrt" and j :: job and xs assume r: "scripted_ok r" "queue r xs"
  let ?r = "enqueue_all (fst (calm_prog (job_func j))) r"
  from scripted_enqueue_all [OF r(1)] r(2) obtain ys where ys: "queue ?r (xs @ ys)"
    "map (entries ?r) ys = map (\<lambda>f. Some \<lparr>job_func = f, job_argv = []\<rparr>) (fst (calm_prog (job_func j)))" by blast
  have "map (\<lambda>y. demo_weight (the (entries ?r y))) ys = map (demo_weight \<circ> the) (map (entries ?r) ys)" by simp
  also have "\<dots> = map (\<lambda>f. demo_weight \<lparr>job_func = f, job_argv = []\<rparr>) (fst (calm_prog (job_func j)))"
    unfolding ys(2) by simp
  finally have "sum_list (map (\<lambda>y. demo_weight (the (entries ?r y))) ys) < demo_weight j"
    by (simp add: calm_prog_def demo_weight_def)
  with ys(1) show "\<exists>r' v ys. jcall (scripted calm_prog) (job_func j) (job_argv j) r = Some (r', v) \<and> v \<noteq> JExc
      \<and> queue r' (xs @ ys) \<and> sum_list (map (\<lambda>y. demo_weight (the (entries r' y))) ys) < demo_weight j"
    by (auto simp: scripted_def calm_prog_def)
qed

theorem job_queue_is_fifo_witness:
  "\<exists>r' ys. JS_ExecutePendingJob plain_js (scripted demo_prog) demo_jobs = Some (r', 1) \<and> queue r' ([3, 4] @ ys)"
proof -
  have c: "jcall (scripted demo_prog) (job_func \<lparr>job_func = 5, job_argv = []\<rparr>) (job_argv \<lparr>job_func = 5, job_argv = []\<rparr>)
      (demo_jobs\<lparr>jlinks := list_del 2 (jlinks demo_jobs)\<rparr>)
    = Some (enqueue_all [8, 9] (demo_jobs\<lparr>jlinks := list_del 2 (jlinks demo_jobs)\<rparr>), JUndef)"
    by (simp add: scripted_def demo_prog_def)
  have q: "JS_EnqueueJob (scripted demo_prog) 8 [] demo_jobs = (fst (JS_EnqueueJob (scripted demo_prog) 8 [] demo_jobs), 0)"
    by (simp add: JS_EnqueueJob_def scripted_def quiet_api_def Let_def)
  have m: "entries demo_jobs e = None \<and> e \<noteq> job_list demo_jobs"
    if "jmalloc (scripted demo_prog) demo_jobs (sizeof_JSJobEntry + int (length ([] :: jsval list)) * sizeof_JSValue) = (h, e)" for h e
    using demo_jobs_ok that by (auto simp: scripted_def quiet_api_def scripted_ok_def)
  show ?thesis
    using conjunct1 [OF job_queue_is_fifo [OF scripted.job_runtime_axioms demo_jobs_ok demo_jobs_queue demo_jobs_entries(1) c q]] m
    by fastforce
qed

theorem pending_jobs_stop_at_exception_witness:
  "\<exists>r' ys. run_pending_jobs plain_js (scripted demo_prog) demo_jobs 0 = Some (r', 1) \<and> queue r' ([4] @ ys)"
proof -
  have us: "\<forall>u \<in> set [2]. \<exists>j. entries demo_jobs u = Some j \<and> scripted.returns_job demo_prog j"
    using demo_jobs_entries demo_returns by auto
  have t: "\<exists>r'. jcall (scripted demo_prog) (job_func \<lparr>job_func = 6, job_argv = []\<rparr>) (job_argv \<lparr>job_func = 6, job_argv = []\<rparr>) r
      = Some (r', JExc)" for r
    by (simp add: scripted_def demo_prog_def)
  have q: "queue demo_jobs ([2] @ 3 # [4])" using demo_jobs_queue by simp
  show ?thesis
    using pending_jobs_stop_at_exception [OF scripted.job_runtime_axioms demo_jobs_ok q us demo_jobs_entries(2) t, of 0]
    by simp
qed


end
