(* ===== verification/HostFunctions.thy ===== *)
theory HostFunctions
  imports TermRoundTrip
begin

text \<open>
  host_functions.c: the call of a host function (conversion of the arguments, message, reply), the
  table of the functions a script sees, the console, and the installation in the global object.
\<close>

section \<open>Calling the owner\<close>

text \<open>
  The engine and the mailbox around a host call: \<open>throw_internal\<close> is \<open>JS_ThrowInternalError\<close>,
  \<open>send\<close> says whether \<open>enif_send\<close> reached the owner, \<open>reply_to\<close> is the reply that the wait on the
  condition variable ends with, \<open>None\<close> if it never does.
\<close>

record ('t, 'h) hostapi =
  throw_internal :: "'h \<Rightarrow> string \<Rightarrow> 'h"
  send :: "'t \<Rightarrow> bool"
  reply_to :: "'t \<Rightarrow> 't option"

text \<open>The arguments as terms, from left to right; the argument values are borrowed.\<close>

fun convert_args :: "('h js \<Rightarrow> jsval \<Rightarrow> ('h js \<times> 't) option) \<Rightarrow> jsval list \<Rightarrow> 'h js \<Rightarrow> ('h js \<times> 't list) option" where
  "convert_args conv [] s = Some (s, [])"
| "convert_args conv (v # vs) s = (case conv s v of None \<Rightarrow> None
     | Some (s1, t) \<Rightarrow> (case convert_args conv vs s1 of None \<Rightarrow> None | Some (s2, ts) \<Rightarrow> Some (s2, t # ts)))"

definition host_call_message :: "'t enif \<Rightarrow> string \<Rightarrow> 't list \<Rightarrow> 't" where
  "host_call_message E fn_name ts =
    make_tuple E [make_atom E (cstr ''host_call''), make_binary E (cstr fn_name), make_list E ts]"

definition host_call_generic ::
  "(u64 \<Rightarrow> int) \<Rightarrow> 't enif \<Rightarrow> 'h qjs \<Rightarrow> ('t, 'h) hostapi \<Rightarrow> nat \<Rightarrow> bool \<Rightarrow> string \<Rightarrow> 'h js \<Rightarrow> jsval list \<Rightarrow> ('h js \<times> jsval) option" where
  "host_call_generic oob E Q H n has_ctx fn_name s argv =
    (if \<not> has_ctx then Some (owe s (throw_internal H (heap s) ''No BeamJS context'') 0, JExc)
     else case convert_args (js_value_to_erl oob E Q n) argv s of None \<Rightarrow> None
     | Some (s1, ts) \<Rightarrow>
         (let msg = host_call_message E fn_name ts in
          if \<not> send H msg then Some (owe s1 (throw_internal H (heap s1) ''Failed to send to owner process'') 0, JExc)
          else case reply_to H msg of None \<Rightarrow> None
          | Some reply \<Rightarrow> erl_term_to_js oob E Q n s1 reply))"

section \<open>The host functions\<close>

text \<open>Global name, name sent to the owner, and declared number of arguments, in the order installed.\<close>

definition host_table :: "(string \<times> string \<times> nat) list" where
  "host_table = [
     (''__beamjs_send'', ''send'', 2), (''__beamjs_self'', ''self'', 0), (''__beamjs_spawn'', ''spawn'', 2),
     (''__beamjs_spawn_link'', ''spawn_link'', 2), (''__beamjs_receive'', ''receive'', 1),
     (''__beamjs_register'', ''register'', 1), (''__beamjs_whereis'', ''whereis'', 1),
     (''__beamjs_monitor'', ''monitor'', 1), (''__beamjs_link'', ''link'', 1), (''__beamjs_exit'', ''exit'', 1),
     (''__beamjs_call'', ''call'', 3), (''__beamjs_cast'', ''cast'', 2), (''__beamjs_reply'', ''reply'', 2),
     (''__beamjs_start_gen_server'', ''start_gen_server'', 4),
     (''__beamjs_start_supervisor'', ''start_supervisor'', 1), (''__beamjs_log'', ''log'', 2),
     (''__beamjs_task_async'', ''task_async'', 1), (''__beamjs_task_await'', ''task_await'', 2),
     (''__beamjs_agent_start'', ''agent_start'', 2), (''__beamjs_agent_get'', ''agent_get'', 2),
     (''__beamjs_agent_update'', ''agent_update'', 2), (''__beamjs_agent_stop'', ''agent_stop'', 1)]"

text \<open>The C function behind the entry number \<open>k\<close> of the table.\<close>

definition js_beamjs_function ::
  "(u64 \<Rightarrow> int) \<Rightarrow> 't enif \<Rightarrow> 'h qjs \<Rightarrow> ('t, 'h) hostapi \<Rightarrow> nat \<Rightarrow> bool \<Rightarrow> nat \<Rightarrow> 'h js \<Rightarrow> jsval list \<Rightarrow> ('h js \<times> jsval) option" where
  "js_beamjs_function oob E Q H n has_ctx k s argv =
    (case drop k host_table of [] \<Rightarrow> None
     | (_, fn_name, _) # _ \<Rightarrow> host_call_generic oob E Q H n has_ctx fn_name s argv)"

section \<open>The console\<close>

text \<open>
  The line that \<open>console.log\<close> (on the standard output) and \<open>console.error\<close> (on the standard error)
  write: an argument whose conversion throws is left out, and the exception stays pending.
\<close>

fun console_args :: "'h qjs \<Rightarrow> nat \<Rightarrow> jsval list \<Rightarrow> 'h js \<Rightarrow> 'h js \<times> u8 list" where
  "console_args Q i [] s = (s, [])"
| "console_args Q i (v # vs) s = (case c_to_cstring Q s v of
     (s1, None) \<Rightarrow> console_args Q (Suc i) vs s1
   | (s1, Some str) \<Rightarrow>
       (let (s2, out) = console_args Q (Suc i) vs (c_free_cstring s1) in
        (s2, (if i > 0 then cstr '' '' else []) @ cbuf str @ out)))"

definition js_console_log :: "'h qjs \<Rightarrow> 'h js \<Rightarrow> jsval list \<Rightarrow> 'h js \<times> u8 list \<times> jsval" where
  "js_console_log Q s argv = (let (s1, out) = console_args Q 0 argv s in (s1, out @ [10], JUndef))"

section \<open>Installation\<close>

text \<open>
  \<open>JS_NewCFunction\<close> of the C function number \<open>k\<close> with a name and a length, \<open>JS_GetGlobalObject\<close>
  and \<open>JS_SetContextOpaque\<close>. The entries of the table come first; the two console functions are
  numbers 22 and 23.
\<close>

record 'h instapi =
  new_cfunction :: "'h \<Rightarrow> nat \<Rightarrow> string \<Rightarrow> nat \<Rightarrow> 'h \<times> jsval"
  global_object :: "'h \<Rightarrow> 'h \<times> jsval"
  set_opaque :: "'h \<Rightarrow> 'h"

definition set_function :: "'h qjs \<Rightarrow> 'h instapi \<Rightarrow> jsval \<Rightarrow> nat \<Rightarrow> string \<Rightarrow> nat \<Rightarrow> 'h js \<Rightarrow> 'h js" where
  "set_function Q I target k name len s =
    (let (h1, f) = new_cfunction I (heap s) k name len; s1 = owe s h1 1 in
     owe s1 (fst (JS_SetPropertyStr Q (heap s1) target (cstr name) f)) (- 1))"

fun install_table :: "'h qjs \<Rightarrow> 'h instapi \<Rightarrow> jsval \<Rightarrow> nat \<Rightarrow> (string \<times> string \<times> nat) list \<Rightarrow> 'h js \<Rightarrow> 'h js" where
  "install_table Q I global k [] s = s"
| "install_table Q I global k ((name, fn, len) # tab) s =
    install_table Q I global (Suc k) tab (set_function Q I global k name len s)"

definition install_console :: "'h qjs \<Rightarrow> 'h instapi \<Rightarrow> jsval \<Rightarrow> 'h js \<Rightarrow> 'h js" where
  "install_console Q I global s =
    (let (h1, console) = new_object Q (heap s); s1 = owe s h1 1;
         s2 = set_function Q I console 22 ''log'' 1 s1;
         s3 = set_function Q I console 22 ''info'' 1 s2;
         s4 = set_function Q I console 23 ''warn'' 1 s3;
         s5 = set_function Q I console 23 ''error'' 1 s4 in
     owe s5 (fst (JS_SetPropertyStr Q (heap s5) global (cstr ''console'') console)) (- 1))"

definition install_host_functions :: "'h qjs \<Rightarrow> 'h instapi \<Rightarrow> 'h js \<Rightarrow> 'h js" where
  "install_host_functions Q I s =
    (let (h1, global) = global_object I (heap s); s1 = owe s (set_opaque I h1) 1;
         s2 = install_table Q I global 0 host_table s1;
         s3 = install_console Q I global s2 in
     c_free Q s3 global)"

section \<open>Ownership\<close>

lemma owed_convert_args:
  "conv_owes conv 0 \<Longrightarrow> convert_args conv vs s = Some (s', ts) \<Longrightarrow> owed s' = owed s"
  by (induction conv vs s arbitrary: ts rule: convert_args.induct) (auto split: option.splits dest!: conv_owesD)

lemma owed_set_function [simp]: "owed (set_function Q I t k name len s) = owed s"
  by (simp add: set_function_def split: prod.split)

lemma owed_install_table [simp]: "owed (install_table Q I g k tab s) = owed s"
  by (induction Q I g k tab s rule: install_table.induct) simp_all

lemma owed_install_console [simp]: "owed (install_console Q I g s) = owed s"
  by (simp add: install_console_def Let_def split: prod.split)

lemma owed_install: "owed (install_host_functions Q I s) = owed s"
  by (simp add: install_host_functions_def Let_def split: prod.split)

lemma owed_host_call:
  "host_call_generic oob E Q H n b fn s argv = Some (s', v) \<Longrightarrow> v \<noteq> JExc \<Longrightarrow> owed s' = owed s + 1"
  by (auto simp: host_call_generic_def Let_def split: if_splits option.splits
      dest!: owed_convert_args [OF owed_js_value_to_erl] conv_owesD [OF owed_erl_term_to_js])

lemma owed_console_args: "owed (fst (console_args Q i vs s)) = owed s"
proof (induction Q i vs s rule: console_args.induct)
  case (2 Q i v vs s)
  obtain s1 r where c: "c_to_cstring Q s v = (s1, r)" by force
  show ?case
  proof (cases r)
    case None
    then show ?thesis using 2(1) [OF c [symmetric] None] owed_cstring [OF c] by (simp add: c)
  next
    case (Some b)
    then show ?thesis using 2(2) [OF c [symmetric] Some] owed_cstring [OF c] by (simp add: c case_prod_beta Let_def)
  qed
qed simp

section \<open>A host call from end to end\<close>

text \<open>The message of a call with plain arguments, as a term.\<close>

definition call_term :: "(u64 \<Rightarrow> int) \<Rightarrow> string \<Rightarrow> jdata list \<Rightarrow> eterm" where
  "call_term oob fn_name ds =
    ETuple [ascii_atom ''host_call'', EBin (cstr fn_name), elist (map (erl_data oob) ds)]"

context bridge
begin

lemma convert_args_read:
  assumes alloc: "\<And>k. 0 \<le> k \<Longrightarrow> k < 2 ^ 34 \<Longrightarrow> enif_alloc_ok E k"
  shows "list_all2 (denotes (arr (heap s)) (obj (heap s))) vs ds \<Longrightarrow> ok (heap s) \<Longrightarrow>
    \<forall>d \<in> set ds. readable d \<and> jdepth d \<le> n \<Longrightarrow>
    \<exists>s' ts. convert_args (js_value_to_erl oob E Q n) vs s = Some (s', ts)
      \<and> list_all2 term_eqv (map rep ts) (map (erl_data oob) ds) \<and> unchanged (heap s) (heap s')"
proof (induction vs arbitrary: ds s)
  case Nil
  then show ?case by (simp add: unchanged_refl)
next
  case (Cons v vs)
  then obtain d es where ds: "ds = d # es" "denotes (arr (heap s)) (obj (heap s)) v d"
    "list_all2 (denotes (arr (heap s)) (obj (heap s))) vs es" by (cases ds) auto
  from Cons.prems(3) ds(1) have d: "readable d" "jdepth d \<le> n" "\<forall>d \<in> set es. readable d \<and> jdepth d \<le> n" by auto
  from readsD [OF js_value_to_erl_reads [OF alloc d(1,2) Cons.prems(2) ds(2)] Cons.prems(2) refl refl] obtain s1 t where
    c: "js_value_to_erl oob E Q n s v = Some (s1, t)" "term_eqv (rep t) (erl_data oob d)" "unchanged (heap s) (heap s1)"
    by blast
  then have "list_all2 (denotes (arr (heap s1)) (obj (heap s1))) vs es" "ok (heap s1)"
    using ds(3) by (simp_all add: unchanged_def)
  from Cons.IH [OF this d(3)] obtain s2 ts where
    "convert_args (js_value_to_erl oob E Q n) vs s1 = Some (s2, ts)"
    "list_all2 term_eqv (map rep ts) (map (erl_data oob) es)" "unchanged (heap s1) (heap s2)" by blast
  then show ?case using c ds(1) unchanged_trans [OF c(3)] by simp
qed

lemma call_message:
  assumes "list_all2 term_eqv (map rep ts) (map (erl_data oob) ds)"
  shows "term_eqv (rep (host_call_message E fn ts)) (call_term oob fn ds)"
  using eqv_elist [OF assms]
  by (auto simp: host_call_message_def call_term_def make_tuple make_atom make_binary make_list ascii_atom_def
      intro!: eqv_tuple eqv_same)

lemma host_call_answers:
  assumes alloc: "\<And>k. 0 \<le> k \<Longrightarrow> k < 2 ^ 34 \<Longrightarrow> enif_alloc_ok E k"
    and "ok (heap s)" "list_all2 (denotes (arr (heap s)) (obj (heap s))) vs ds"
    and "\<forall>d \<in> set ds. readable d \<and> jdepth d \<le> n"
    and owner: "\<And>m. term_eqv (rep m) (call_term oob fn ds) \<Longrightarrow> send H m \<and> (\<exists>r. reply_to H m = Some r \<and> rep r = answer)"
    and answer: "convertible answer" "edepth answer \<le> n"
  shows "\<exists>s' v. host_call_generic oob E Q H n True fn s vs = Some (s', v)
    \<and> denotes (arr (heap s')) (obj (heap s')) v (js_data oob answer) \<and> ok (heap s')
    \<and> arr (heap s) \<subseteq>\<^sub>m arr (heap s') \<and> obj (heap s) \<subseteq>\<^sub>m obj (heap s') \<and> owed s' = owed s + 1"
proof -
  from convert_args_read [OF alloc assms(3,2,4)] obtain s1 ts where c:
    "convert_args (js_value_to_erl oob E Q n) vs s = Some (s1, ts)"
    "list_all2 term_eqv (map rep ts) (map (erl_data oob) ds)" "unchanged (heap s) (heap s1)" by blast
  let ?m = "host_call_message E fn ts"
  from owner [OF call_message [OF c(2)]] obtain r where r: "send H ?m" "reply_to H ?m = Some r" "rep r = answer" by blast
  have "ok (heap s1)" using c(3) by (simp add: unchanged_def)
  from builds [OF this, of r n oob] r(3) answer obtain s' v where b: "erl_term_to_js oob E Q n s1 r = Some (s', v)"
    "denotes (arr (heap s')) (obj (heap s')) v (js_data oob answer)" "ok (heap s')"
    "arr (heap s1) \<subseteq>\<^sub>m arr (heap s')" "obj (heap s1) \<subseteq>\<^sub>m obj (heap s')" "owed s' = owed s1 + 1" by auto
  have "owed s1 = owed s" by (rule owed_convert_args [OF owed_js_value_to_erl c(1)])
  then show ?thesis using b c(1,3) r(1,2) by (simp add: host_call_generic_def unchanged_def)
qed

end

section \<open>The installed functions\<close>

definition good_name :: "string \<Rightarrow> bool" where
  "good_name n \<longleftrightarrow> ascii (cstr n) \<and> 0 \<notin> set (cstr n) \<and> length (cstr n) < 2 ^ 30 \<and> \<not> special_name (cunits n)"

lemma host_names_good: "\<forall>e \<in> set host_table. good_name (fst e)"
  by (simp add: host_table_def good_name_def ascii_def special_name_def cunits_def cstr_def)

lemma host_names_distinct: "distinct (map (cunits \<circ> fst) host_table)" "cunits ''console'' \<notin> (cunits \<circ> fst) ` set host_table"
  by (simp_all add: host_table_def cunits_def cstr_def)

locale host_engine = bridge E rep Q ok arr obj refs
  for E :: "'t enif" and rep and Q :: "'h qjs" and ok arr obj refs +
  fixes I :: "'h instapi" and glob :: nat
  assumes new_fn: "ok h \<Longrightarrow> new_cfunction I h k name len = (h', f) \<Longrightarrow> grown h h' \<and> live (refs h') f"
    and global: "ok h \<Longrightarrow> obj h glob = Some ps \<Longrightarrow> \<exists>h'. global_object I h = (h', JObj glob) \<and> ok h'
        \<and> arr h' = arr h \<and> obj h' = obj h \<and> refs h' = add_ref (refs h) (JObj glob)"
    and opaque: "ok h \<Longrightarrow> unchanged h (set_opaque I h)"
begin

text \<open>Storing a live value under a new good name of an object.\<close>

lemma set_str:
  assumes "ok h" "obj h i = Some ps" "good_name name" "cunits name \<notin> fst ` set ps" "live (refs h) v"
  shows "\<exists>h' r ps'. JS_SetPropertyStr Q h (JObj i) (cstr name) v = (h', r) \<and> ok h' \<and> arr h' = arr h
    \<and> obj h' = (obj h)(i \<mapsto> ps') \<and> refs h' = refs h \<and> map_of ps' = (map_of ps)(cunits name \<mapsto> v)"
proof -
  have n: "ascii (cstr name)" "0 \<notin> set (cstr name)" "length (cstr name) < 2 ^ 30" "\<not> special_name (cunits name)"
    using assms(3) by (simp_all add: good_name_def)
  have b: "cbuf (cstr name) = cstr name" using n(2) by (auto simp: cbuf_def takeWhile_eq_all_conv)
  from new_atom_ascii [OF assms(1) n(1,3)] obtain h1 where h1: "JS_NewAtomLen Q h (cstr name) = (h1, Atom (cunits name))"
    "ok h1" "arr h1 = arr h" "obj h1 = obj h" "refs h1 = refs h" by (auto simp: utf16_ascii [OF n(1)] cunits_def)
  have o1: "obj h1 i = Some ps" using h1(4) assms(2) by simp
  from set_prop [OF h1(2) o1 assms(4) n(4)] assms(5) h1(5) obtain h2 r ps' where h2:
    "set_prop Q h1 (JObj i) (Atom (cunits name)) v = (h2, r)" "ok h2" "arr h2 = arr h1" "obj h2 = (obj h1)(i \<mapsto> ps')"
    "refs h2 = refs h1" "map_of ps' = (map_of ps)(cunits name \<mapsto> v)" by metis
  from free_atom [OF h2(2), of "Atom (cunits name)"] h1 h2 b show ?thesis
    by (intro exI [of _ "free_atom Q h2 (Atom (cunits name))"] exI [of _ r] exI [of _ ps'])
      (simp add: JS_SetPropertyStr_def JS_NewAtom_def)
qed

lemma set_function_adds:
  assumes "ok (heap s)" "obj (heap s) i = Some ps" "good_name name" "cunits name \<notin> fst ` set ps"
  shows "\<exists>ps' h. ok (heap (set_function Q I (JObj i) k name len s)) \<and> obj (heap (set_function Q I (JObj i) k name len s)) i = Some ps'
    \<and> (\<forall>j. j \<noteq> i \<longrightarrow> obj (heap s) j \<noteq> None \<longrightarrow> obj (heap (set_function Q I (JObj i) k name len s)) j = obj (heap s) j)
    \<and> (\<forall>j. obj (heap s) j \<noteq> None \<longrightarrow> refs (heap (set_function Q I (JObj i) k name len s)) j = refs (heap s) j)
    \<and> map_of ps' = (map_of ps)(cunits name \<mapsto> snd (new_cfunction I h k name len))"
proof -
  obtain h1 f where f: "new_cfunction I (heap s) k name len = (h1, f)" by force
  have g: "grown (heap s) h1" "live (refs h1) f" using new_fn [OF assms(1) f] by simp_all
  have keep: "obj h1 j = obj (heap s) j" if "obj (heap s) j \<noteq> None" for j
    using g(1) that by (auto simp: grown_def map_le_def dom_def)
  have ok1: "ok h1" "obj h1 i = Some ps" using g(1) assms(2) keep [of i] by (simp_all add: grown_def)
  from set_str [OF ok1 assms(3,4) g(2)] obtain h2 r ps' where h2:
    "JS_SetPropertyStr Q h1 (JObj i) (cstr name) f = (h2, r)" "ok h2" "arr h2 = arr h1" "obj h2 = (obj h1)(i \<mapsto> ps')"
    "refs h2 = refs h1" "map_of ps' = (map_of ps)(cunits name \<mapsto> f)" by blast
  have hs: "heap (set_function Q I (JObj i) k name len s) = h2" using f h2(1) by (simp add: set_function_def)
  have rf: "refs h2 j = refs (heap s) j" if "obj (heap s) j \<noteq> None" for j
    using g(1) that h2(5) by (auto simp: grown_def unused_def)
  show ?thesis unfolding hs using h2 keep rf f by (intro exI [of _ ps'] exI [of _ "heap s"]) auto
qed

text \<open>An object \<open>ps'\<close> that has the functions of a table, numbered from \<open>k\<close>, in addition to \<open>ps\<close>.\<close>

definition has_functions :: "nat \<Rightarrow> (string \<times> string \<times> nat) list \<Rightarrow> props \<Rightarrow> props \<Rightarrow> bool" where
  "has_functions k tab ps ps' \<longleftrightarrow>
    (\<forall>j < length tab. \<exists>h. map_of ps' (cunits (fst (tab ! j))) = Some (snd (new_cfunction I h (k + j) (fst (tab ! j)) (snd (snd (tab ! j))))))
     \<and> (\<forall>n. n \<notin> (cunits \<circ> fst) ` set tab \<longrightarrow> map_of ps' n = map_of ps n)"

lemma install_table_adds:
  "ok (heap s) \<Longrightarrow> obj (heap s) i = Some ps \<Longrightarrow> \<forall>e \<in> set tab. good_name (fst e) \<Longrightarrow> distinct (map (cunits \<circ> fst) tab) \<Longrightarrow>
   \<forall>e \<in> set tab. cunits (fst e) \<notin> fst ` set ps \<Longrightarrow>
   \<exists>ps'. ok (heap (install_table Q I (JObj i) k tab s)) \<and> obj (heap (install_table Q I (JObj i) k tab s)) i = Some ps'
     \<and> refs (heap (install_table Q I (JObj i) k tab s)) i = refs (heap s) i \<and> has_functions k tab ps ps'"
proof (induction tab arbitrary: s k ps)
  case Nil
  then show ?case by (simp add: has_functions_def)
next
  case (Cons e tab)
  obtain name fn len where e: "e = (name, fn, len)" by (cases e)
  let ?s = "set_function Q I (JObj i) k name len s"
  have "good_name name" "cunits name \<notin> fst ` set ps" using Cons.prems(3,5) e by simp_all
  from set_function_adds [OF Cons.prems(1,2) this, of k len] obtain ps1 h where s1: "ok (heap ?s)" "obj (heap ?s) i = Some ps1"
    "refs (heap ?s) i = refs (heap s) i" "map_of ps1 = (map_of ps)(cunits name \<mapsto> snd (new_cfunction I h k name len))"
    using Cons.prems(2) by auto
  have dom: "fst ` set ps1 = insert (cunits name) (fst ` set ps)"
    using s1(4) by (simp add: dom_map_of_conv_image_fst [symmetric])
  have pr: "\<forall>e \<in> set tab. good_name (fst e)" "distinct (map (cunits \<circ> fst) tab)" using Cons.prems(3,4) by (simp_all add: comp_def)
  have fr: "\<forall>e \<in> set tab. cunits (fst e) \<notin> fst ` set ps1"
  proof
    fix e' assume e': "e' \<in> set tab"
    then have "(cunits \<circ> fst) e' \<in> set (map (cunits \<circ> fst) tab)" by simp
    moreover have "(cunits \<circ> fst) e \<notin> set (map (cunits \<circ> fst) tab)" using Cons.prems(4) by simp
    ultimately have "cunits (fst e') \<noteq> cunits name" using e by (metis comp_apply fst_conv)
    then show "cunits (fst e') \<notin> fst ` set ps1" using Cons.prems(5) dom e' by simp
  qed
  from Cons.IH [OF s1(1,2) pr fr, of "Suc k"] obtain ps' where ps':
    "ok (heap (install_table Q I (JObj i) (Suc k) tab ?s))" "obj (heap (install_table Q I (JObj i) (Suc k) tab ?s)) i = Some ps'"
    "refs (heap (install_table Q I (JObj i) (Suc k) tab ?s)) i = refs (heap ?s) i" "has_functions (Suc k) tab ps1 ps'" by blast
  have "has_functions k (e # tab) ps ps'"
    unfolding has_functions_def
  proof (intro conjI allI impI)
    fix j assume j: "j < length (e # tab)"
    show "\<exists>h. map_of ps' (cunits (fst ((e # tab) ! j))) = Some (snd (new_cfunction I h (k + j) (fst ((e # tab) ! j)) (snd (snd ((e # tab) ! j)))))"
    proof (cases j)
      case 0
      have "cunits name \<notin> (cunits \<circ> fst) ` set tab" using Cons.prems(4) e by auto
      then have "map_of ps' (cunits name) = map_of ps1 (cunits name)" using ps'(4) by (simp add: has_functions_def)
      then show ?thesis using 0 s1(4) e by auto
    next
      case (Suc j')
      then show ?thesis using ps'(4) j by (auto simp: has_functions_def)
    qed
  next
    fix n assume n: "n \<notin> (cunits \<circ> fst) ` set (e # tab)"
    then have "map_of ps' n = map_of ps1 n" using ps'(4) by (simp add: has_functions_def)
    then show "map_of ps' n = map_of ps n" using n s1(4) e by simp
  qed
  then show ?case using ps' s1(3) e by auto
qed

text \<open>The console object: \<open>log\<close> and \<open>info\<close> are function 22, \<open>warn\<close> and \<open>error\<close> function 23.\<close>

definition is_console :: "props \<Rightarrow> bool" where
  "is_console ps \<longleftrightarrow> (\<forall>(n, k) \<in> {(''log'', 22), (''info'', 22), (''warn'', 23), (''error'', 23)}.
     \<exists>h. map_of ps (cunits n) = Some (snd (new_cfunction I h k n 1)))"

lemma console_names: "\<forall>n \<in> {''log'', ''info'', ''warn'', ''error'', ''console''}. good_name n"
  "distinct (map cunits [''log'', ''info'', ''warn'', ''error''])"
  by (simp_all add: good_name_def ascii_def special_name_def cunits_def cstr_def)

lemma console_fill:
  assumes "ok (heap s)" "obj (heap s) c = Some []"
  defines "t \<equiv> set_function Q I (JObj c) 23 ''error'' 1 (set_function Q I (JObj c) 23 ''warn'' 1
    (set_function Q I (JObj c) 22 ''info'' 1 (set_function Q I (JObj c) 22 ''log'' 1 s)))"
  shows "\<exists>ps. ok (heap t) \<and> obj (heap t) c = Some ps \<and> is_console ps \<and> refs (heap t) c = refs (heap s) c
    \<and> (\<forall>j. j \<noteq> c \<longrightarrow> obj (heap s) j \<noteq> None \<longrightarrow> obj (heap t) j = obj (heap s) j)
    \<and> (\<forall>j. obj (heap s) j \<noteq> None \<longrightarrow> refs (heap t) j = refs (heap s) j)"
proof -
  let ?s1 = "set_function Q I (JObj c) 22 ''log'' 1 s"
  let ?s2 = "set_function Q I (JObj c) 22 ''info'' 1 ?s1"
  let ?s3 = "set_function Q I (JObj c) 23 ''warn'' 1 ?s2"
  have dom: "fst ` set ps' = insert k (fst ` set ps)" if "map_of ps' = (map_of ps)(k \<mapsto> v)" for ps' ps :: props and k v
    using that by (simp add: dom_map_of_conv_image_fst [symmetric])
  from set_function_adds [OF assms(1,2), of "''log''" 22 1] console_names(1) obtain ps1 h1 where s1: "ok (heap ?s1)"
    "obj (heap ?s1) c = Some ps1" "\<forall>j. j \<noteq> c \<longrightarrow> obj (heap s) j \<noteq> None \<longrightarrow> obj (heap ?s1) j = obj (heap s) j"
    "\<forall>j. obj (heap s) j \<noteq> None \<longrightarrow> refs (heap ?s1) j = refs (heap s) j"
    "map_of ps1 = (map_of [])(cunits ''log'' \<mapsto> snd (new_cfunction I h1 22 ''log'' 1))" by auto
  from set_function_adds [OF s1(1,2), of "''info''" 22 1] console_names dom [OF s1(5)] obtain ps2 h2 where s2: "ok (heap ?s2)"
    "obj (heap ?s2) c = Some ps2" "\<forall>j. j \<noteq> c \<longrightarrow> obj (heap ?s1) j \<noteq> None \<longrightarrow> obj (heap ?s2) j = obj (heap ?s1) j"
    "\<forall>j. obj (heap ?s1) j \<noteq> None \<longrightarrow> refs (heap ?s2) j = refs (heap ?s1) j"
    "map_of ps2 = (map_of ps1)(cunits ''info'' \<mapsto> snd (new_cfunction I h2 22 ''info'' 1))" by auto
  from set_function_adds [OF s2(1,2), of "''warn''" 23 1] console_names dom [OF s1(5)] dom [OF s2(5)] obtain ps3 h3 where s3: "ok (heap ?s3)"
    "obj (heap ?s3) c = Some ps3" "\<forall>j. j \<noteq> c \<longrightarrow> obj (heap ?s2) j \<noteq> None \<longrightarrow> obj (heap ?s3) j = obj (heap ?s2) j"
    "\<forall>j. obj (heap ?s2) j \<noteq> None \<longrightarrow> refs (heap ?s3) j = refs (heap ?s2) j"
    "map_of ps3 = (map_of ps2)(cunits ''warn'' \<mapsto> snd (new_cfunction I h3 23 ''warn'' 1))" by auto
  from set_function_adds [OF s3(1,2), of "''error''" 23 1] console_names dom [OF s1(5)] dom [OF s2(5)] dom [OF s3(5)] obtain ps4 h4
    where s4: "ok (heap t)" "obj (heap t) c = Some ps4" "\<forall>j. j \<noteq> c \<longrightarrow> obj (heap ?s3) j \<noteq> None \<longrightarrow> obj (heap t) j = obj (heap ?s3) j"
    "\<forall>j. obj (heap ?s3) j \<noteq> None \<longrightarrow> refs (heap t) j = refs (heap ?s3) j"
    "map_of ps4 = (map_of ps3)(cunits ''error'' \<mapsto> snd (new_cfunction I h4 23 ''error'' 1))" unfolding t_def by auto
  have "is_console ps4" using console_names(2) unfolding is_console_def by (auto simp: s4(5) s3(5) s2(5) s1(5))
  moreover have "\<forall>j. j \<noteq> c \<longrightarrow> obj (heap s) j \<noteq> None \<longrightarrow> obj (heap t) j = obj (heap s) j"
    using s1(3) s2(3) s3(3) s4(3) by simp
  moreover have "refs (heap t) j = refs (heap s) j" if "obj (heap s) j \<noteq> None" for j
  proof -
    have 1: "obj (heap ?s1) j \<noteq> None" using s1(2,3) that by (cases "j = c") auto
    have 2: "obj (heap ?s2) j \<noteq> None" using s2(2,3) 1 by (cases "j = c") auto
    have 3: "obj (heap ?s3) j \<noteq> None" using s3(2,3) 2 by (cases "j = c") auto
    show ?thesis using s1(4) s2(4) s3(4) s4(4) that 1 2 3 by simp
  qed
  ultimately show ?thesis using s4(1,2) assms(2) by auto
qed

lemma installed:
  assumes "ok (heap s)" "obj (heap s) glob = Some ps" "refs (heap s) glob \<ge> 1"
    and fresh: "\<forall>e \<in> set host_table. cunits (fst e) \<notin> fst ` set ps" "cunits ''console'' \<notin> fst ` set ps"
  shows "\<exists>ps' c cps. obj (heap (install_host_functions Q I s)) glob = Some ps' \<and> ok (heap (install_host_functions Q I s))
    \<and> (\<forall>j < length host_table. \<exists>h. map_of ps' (cunits (fst (host_table ! j)))
          = Some (snd (new_cfunction I h j (fst (host_table ! j)) (snd (snd (host_table ! j))))))
    \<and> map_of ps' (cunits ''console'') = Some (JObj c) \<and> obj (heap (install_host_functions Q I s)) c = Some cps \<and> is_console cps
    \<and> (\<forall>n. n \<notin> (cunits \<circ> fst) ` set host_table \<longrightarrow> n \<noteq> cunits ''console'' \<longrightarrow> map_of ps' n = map_of ps n)"
proof -
  let ?g = "JObj glob"
  from global [OF assms(1,2)] obtain h1 where h1: "global_object I (heap s) = (h1, ?g)" "ok h1" "arr h1 = arr (heap s)"
    "obj h1 = obj (heap s)" "refs h1 = add_ref (refs (heap s)) ?g" by blast
  let ?s1 = "owe s (set_opaque I h1) 1"
  have s1: "ok (heap ?s1)" "obj (heap ?s1) glob = Some ps" "refs (heap ?s1) glob = Suc (refs (heap s) glob)"
    using opaque [OF h1(2)] h1 assms(2) by (simp_all add: unchanged_def add_ref_def)
  let ?s2 = "install_table Q I ?g 0 host_table ?s1"
  from install_table_adds [OF s1(1,2) host_names_good host_names_distinct(1) fresh(1), of 0] obtain ps2 where s2:
    "ok (heap ?s2)" "obj (heap ?s2) glob = Some ps2" "refs (heap ?s2) glob = refs (heap ?s1) glob" "has_functions 0 host_table ps ps2"
    by blast
  from new_object [OF s2(1)] obtain h3 c where h3: "new_object Q (heap ?s2) = (h3, JObj c)" "ok h3"
    "obj (heap ?s2) c = None" "obj h3 = (obj (heap ?s2))(c \<mapsto> [])" "refs h3 = (refs (heap ?s2))(c := 1)" by blast
  have cg: "c \<noteq> glob" using h3(3) s2(2) by auto
  let ?s3 = "owe ?s2 h3 1"
  let ?t = "set_function Q I (JObj c) 23 ''error'' 1 (set_function Q I (JObj c) 23 ''warn'' 1
    (set_function Q I (JObj c) 22 ''info'' 1 (set_function Q I (JObj c) 22 ''log'' 1 ?s3)))"
  from console_fill [of ?s3 c] h3(2,4) obtain cps where t: "ok (heap ?t)" "obj (heap ?t) c = Some cps" "is_console cps"
    "refs (heap ?t) c = refs h3 c" "\<forall>j. j \<noteq> c \<longrightarrow> obj h3 j \<noteq> None \<longrightarrow> obj (heap ?t) j = obj h3 j"
    "\<forall>j. obj h3 j \<noteq> None \<longrightarrow> refs (heap ?t) j = refs h3 j" by auto
  have tg: "obj (heap ?t) glob = Some ps2" "refs (heap ?t) glob = Suc (refs (heap s) glob)"
    using t(5,6) h3(4,5) s2(2,3) s1(3) cg by simp_all
  have nc: "map_of ps2 (cunits ''console'') = None"
    using s2(4) host_names_distinct(2) fresh(2) by (simp add: has_functions_def map_of_eq_None_iff)
  have "live (refs (heap ?t)) (JObj c)" using t(4) h3(5) by (simp add: live_def)
  from set_str [OF t(1) tg(1) _ _ this, of "''console''"] console_names(1) nc obtain h4 r ps' where h4:
    "JS_SetPropertyStr Q (heap ?t) ?g (cstr ''console'') (JObj c) = (h4, r)" "ok h4" "obj h4 = (obj (heap ?t))(glob \<mapsto> ps')"
    "refs h4 = refs (heap ?t)" "map_of ps' = (map_of ps2)(cunits ''console'' \<mapsto> JObj c)" by (auto simp: map_of_eq_None_iff)
  have "shared (refs h4) ?g" using h4(4) tg(2) assms(3) by (simp add: shared_def)
  from free_val [OF h4(2) this] have fin: "ok (free_val Q h4 ?g)" "obj (free_val Q h4 ?g) = obj h4" by simp_all
  have hs: "heap (install_host_functions Q I s) = free_val Q h4 ?g"
    using h1(1) h3(1) h4(1) by (simp add: install_host_functions_def install_console_def c_free_def Let_def)
  have "\<exists>h. map_of ps' (cunits (fst (host_table ! j))) = Some (snd (new_cfunction I h j (fst (host_table ! j)) (snd (snd (host_table ! j)))))"
    if "j < length host_table" for j
  proof -
    have "cunits (fst (host_table ! j)) \<noteq> cunits ''console''" using host_names_distinct(2) nth_mem [OF that] by force
    then show ?thesis using s2(4) that h4(5) by (simp add: has_functions_def)
  qed
  moreover have "map_of ps' n = map_of ps n" if "n \<notin> (cunits \<circ> fst) ` set host_table" "n \<noteq> cunits ''console''" for n
    using s2(4) that h4(5) by (simp add: has_functions_def)
  ultimately show ?thesis unfolding hs fin(2) using fin(1) h4(3,5) t(2,3) cg by auto
qed

end

section \<open>Console output\<close>

text \<open>The line for string arguments: their C strings, separated by spaces, and a newline.\<close>

definition console_line :: "js_string list \<Rightarrow> u8 list" where
  "console_line strs = (case map (\<lambda>x. cbuf (to_utf8_loop False (units x))) strs of
     [] \<Rightarrow> [10] | b # bs \<Rightarrow> b @ concat (map (\<lambda>b. 32 # b) bs) @ [10])"

context bridge
begin

lemma console_args_strings:
  "ok (heap s) \<Longrightarrow> \<exists>s'. console_args Q i (map JStr strs) s = (s', concat (map (\<lambda>(j, x). (if j > 0 then [32] else [])
      @ cbuf (to_utf8_loop False (units x))) (enumerate i strs))) \<and> unchanged (heap s) (heap s')"
proof (induction strs arbitrary: i s)
  case Nil
  then show ?case by (simp add: unchanged_refl)
next
  case (Cons x strs)
  from cstring_ok [OF Cons.prems, of x] obtain s1 where s1:
    "c_to_cstring Q s (JStr x) = (s1, Some (to_utf8_loop False (units x)))" "unchanged (heap s) (heap s1)" by blast
  have h: "heap (c_free_cstring s1) = heap s1" by (simp add: c_free_cstring_def)
  then have "ok (heap (c_free_cstring s1))" using s1(2) by (simp add: unchanged_def)
  from Cons.IH [OF this, of "Suc i"] obtain s2 where s2:
    "console_args Q (Suc i) (map JStr strs) (c_free_cstring s1) = (s2, concat (map (\<lambda>(j, x). (if j > 0 then [32] else [])
      @ cbuf (to_utf8_loop False (units x))) (enumerate (Suc i) strs)))" "unchanged (heap s1) (heap s2)"
    unfolding h by blast
  show ?case using s1(1) s2(1) unchanged_trans [OF s1(2) s2(2)] by (simp add: cstr_def)
qed

lemma console_log_strings:
  assumes "ok (heap s)"
  shows "\<exists>s'. js_console_log Q s (map JStr strs) = (s', console_line strs, JUndef) \<and> unchanged (heap s) (heap s') \<and> owed s' = owed s"
proof -
  from console_args_strings [OF assms, of 0 strs] obtain s' where s':
    "console_args Q 0 (map JStr strs) s = (s', concat (map (\<lambda>(j, x). (if j > 0 then [32] else [])
      @ cbuf (to_utf8_loop False (units x))) (enumerate 0 strs)))" "unchanged (heap s) (heap s')" by blast
  have e: "concat (map (\<lambda>(j, x). (if j > 0 then [32] else []) @ f x) (enumerate (Suc i) xs)) = concat (map (\<lambda>x. 32 # f x) xs)"
    for i and f :: "js_string \<Rightarrow> u8 list" and xs
    by (induction xs arbitrary: i) simp_all
  have "owed s' = owed s" using owed_console_args [of Q 0 "map JStr strs" s] s'(1) by simp
  moreover have "js_console_log Q s (map JStr strs) = (s', console_line strs, JUndef)"
    using s'(1) by (cases strs) (simp_all add: js_console_log_def console_line_def e comp_def)
  ultimately show ?thesis using s'(2) by blast
qed

end

section \<open>The own-property heap as host engine\<close>

text \<open>The global object is object 0; a native function is an object without enumerable properties.\<close>

definition plain_inst :: "jheap instapi" where
  "plain_inst = \<lparr>new_cfunction = (\<lambda>h k name len. heap_new h (CObj [])), global_object = (\<lambda>h. (heap_ref h (JObj 0), JObj 0)),
     set_opaque = (\<lambda>h. h)\<rparr>"

interpretation plain_host: host_engine beam id plain_js heap_ok heap_arr heap_obj counts plain_inst 0
proof
  fix h h' :: jheap and k name len f
  assume ok: "heap_ok h" and f: "new_cfunction plain_inst h k name len = (h', f)"
  have "heap_ok h'" using heap_ok_new(2) [OF ok] f by (simp add: plain_inst_def)
  moreover have "heap_arr h (next_cell h) = None" "heap_obj h (next_cell h) = None"
    using heap_ok_fresh [OF ok] by (simp_all add: heap_arr_def heap_obj_def)
  ultimately show "bridge_model.grown h h' \<and> live (counts h') f"
    using f by (auto simp: plain_inst_def heap_new_def bridge_model.grown_def bridge_model.unused_def live_def map_le_def dom_def
        heap_arr_def heap_obj_def split: if_splits)
next
  fix h :: jheap and ps assume "heap_ok h" "heap_obj h 0 = Some ps"
  then show "\<exists>h'. global_object plain_inst h = (h', JObj 0) \<and> heap_ok h' \<and> heap_arr h' = heap_arr h
      \<and> heap_obj h' = heap_obj h \<and> counts h' = add_ref (counts h) (JObj 0)"
    by (auto simp: plain_inst_def heap_ref_def intro!: heap_ok_counts live_add_ref)
qed (simp add: plain_inst_def bridge_model.unchanged_def)

section \<open>Properties of the host functions\<close>

text \<open>
  C19. A host call from end to end: with plain arguments the owner gets the message
  \<open>{host_call, name, [arguments]}\<close>, and when it replies the script gets the value of the reply; the
  objects of the script are unchanged, and it owns one new reference.
\<close>
theorem host_call_end_to_end:
  assumes "bridge E rep Q ok arr obj refs" and "\<And>k. 0 \<le> k \<Longrightarrow> k < 2 ^ 34 \<Longrightarrow> enif_alloc_ok E k"
    and "ok (heap s)" and "list_all2 (denotes (arr (heap s)) (obj (heap s))) vs ds"
    and "\<forall>d \<in> set ds. readable d \<and> jdepth d \<le> n"
    and "\<And>m. term_eqv (rep m) (call_term oob fn ds) \<Longrightarrow> send H m \<and> (\<exists>r. reply_to H m = Some r \<and> rep r = answer)"
    and "convertible answer" and "edepth answer \<le> n"
  shows "\<exists>s' v. host_call_generic oob E Q H n True fn s vs = Some (s', v)
    \<and> denotes (arr (heap s')) (obj (heap s')) v (js_data oob answer) \<and> ok (heap s')
    \<and> arr (heap s) \<subseteq>\<^sub>m arr (heap s') \<and> obj (heap s) \<subseteq>\<^sub>m obj (heap s') \<and> owed s' = owed s + 1"
  using bridge.host_call_answers [OF assms] .


text \<open>
  \<open>console.log\<close> of strings prints their UTF-8 forms, each up to its first NUL, separated by
  single spaces and ended by a newline, and leaves the heap and the references as they were.
\<close>
theorem console_log_prints:
  assumes "bridge E rep Q ok arr obj refs" and "ok (heap s)"
  shows "\<exists>s'. js_console_log Q s (map JStr strs) = (s', console_line strs, JUndef)
    \<and> arr (heap s') = arr (heap s) \<and> obj (heap s') = obj (heap s) \<and> owed s' = owed s"
  using bridge.console_log_strings [OF assms] bridge.unchanged_def [OF assms(1)] by metis

section \<open>Concrete runs\<close>

definition demo_owner :: "(eterm, jheap) hostapi" where
  "demo_owner = \<lparr>throw_internal = (\<lambda>h msg. h), send = (\<lambda>m. True), reply_to = (\<lambda>m. Some (EBin [111, 107]))\<rparr>"

definition demo_global :: jheap where
  "demo_global = \<lparr>cells = [0 \<mapsto> CObj []], counts = (\<lambda>_. 1), next_cell = 1, pending = JNull\<rparr>"

theorem host_call_end_to_end_witness:
  "\<exists>s' v. host_call_generic (\<lambda>_. 0) beam plain_js demo_owner 3 True ''log'' \<lparr>heap = demo_heap, owed = 0\<rparr> [JObj 0] = Some (s', v)
    \<and> denotes (heap_arr (heap s')) (heap_obj (heap s')) v (DStr (utf16_of_utf8 [111, 107])) \<and> owed s' = 1"
proof -
  have d: "list_all2 (denotes (heap_arr (heap \<lparr>heap = demo_heap, owed = 0\<rparr>)) (heap_obj (heap \<lparr>heap = demo_heap, owed = 0\<rparr>)))
      [JObj 0] [DArr [DInt 5, DObj [([120], DNull)]]]"
    using demo_denotes by simp
  have r: "\<forall>d \<in> set [DArr [DInt 5, DObj [([120], DNull)]]]. readable d \<and> jdepth d \<le> 3" by (simp add: cunits_def cstr_def)
  have o: "send demo_owner m \<and> (\<exists>r. reply_to demo_owner m = Some r \<and> id r = EBin [111, 107])" for m
    by (simp add: demo_owner_def)
  show ?thesis
    using host_call_end_to_end [OF bridge_model.bridge_axioms beam_alloc demo_heap_ok d r, of "\<lambda>_. 0" "''log''" demo_owner "EBin [111, 107]"] o
    by (auto simp: fits_string_def)
qed


theorem console_log_prints_witness:
  "\<exists>s'. js_console_log plain_js js0 [JStr (Str8 [97]), JStr (Str8 [98])] = (s', [97, 32, 98, 10], JUndef) \<and> owed s' = 0"
proof -
  have "console_line [Str8 [97], Str8 [98]] = [97, 32, 98, 10]" by code_simp
  then show ?thesis
    using console_log_prints [OF bridge_model.bridge_axioms js0_ok, of "[Str8 [97], Str8 [98]]"] by (auto simp: js0_def)
qed

end
