(* ===== verification/ModuleLoader.thy ===== *)
theory ModuleLoader
  imports Cutils TermRoundTrip
begin

text \<open>
  module_loader.c: the resolution of module specifiers and the loading of a module through the
  owner process.
\<close>

section \<open>Resolving specifiers\<close>

text \<open>\<open>strrchr\<close>: the position of the last occurrence of a character.\<close>

fun strrchr :: "u8 list \<Rightarrow> u8 \<Rightarrow> nat option" where
  "strrchr [] c = None"
| "strrchr (x # xs) c = (case strrchr xs c of Some i \<Rightarrow> Some (Suc i) | None \<Rightarrow> if x = c then Some 0 else None)"

text \<open>The result of a C function that returns a string: \<open>NULL\<close>, the string, or a write through \<open>NULL\<close>.\<close>

datatype cptr = CNull | CStr "u8 list" | CFault

text \<open>\<open>mem n\<close> says whether \<open>js_malloc\<close> of \<open>n\<close> bytes returns memory.\<close>

definition js_strdup :: "(nat \<Rightarrow> bool) \<Rightarrow> u8 list \<Rightarrow> cptr" where
  "js_strdup mem str = (if mem (length str + 1) then CStr str else CNull)"

definition is_relative :: "u8 list \<Rightarrow> bool" where
  "is_relative name \<longleftrightarrow> (case name of
     c0 # c1 # r \<Rightarrow> c0 = 46 \<and> (c1 = 47 \<or> c1 = 46 \<and> (case r of c2 # _ \<Rightarrow> c2 = 47 | [] \<Rightarrow> False))
   | _ \<Rightarrow> False)"

definition beamjs_module_normalize :: "(nat \<Rightarrow> bool) \<Rightarrow> u8 list \<Rightarrow> u8 list \<Rightarrow> cptr" where
  "beamjs_module_normalize mem base_name name =
    (if take 7 name = cstr ''beamjs:'' then js_strdup mem name
     else if is_relative name then
       (let dir_len = (case strrchr base_name 47 of Some i \<Rightarrow> i | None \<Rightarrow> 0);
            result_len = dir_len + 1 + length name + 4 in
        if \<not> mem (result_len + 1) then CFault
        else if dir_len > 0 then CStr (take result_len (take dir_len base_name @ [47] @ name))
        else CStr (take result_len name))
     else js_strdup mem name)"

text \<open>The directory of a file name.\<close>

definition dirname :: "u8 list \<Rightarrow> u8 list" where
  "dirname b = (case strrchr b 47 of Some i \<Rightarrow> take i b | None \<Rightarrow> [])"

lemma strrchr_None: "strrchr b c = None \<longleftrightarrow> c \<notin> set b"
  by (induction b) (auto split: option.splits)

lemma strrchr_lt: "strrchr b c = Some i \<Longrightarrow> i < length b \<and> b ! i = c \<and> c \<notin> set (drop (Suc i) b)"
  by (induction b arbitrary: i) (auto split: option.splits if_splits simp: strrchr_None)

lemma normalize_result:
  assumes "\<And>n. mem n"
  shows "beamjs_module_normalize mem base name = CStr (
    if take 7 name \<noteq> cstr ''beamjs:'' \<and> is_relative name \<and> dirname base \<noteq> [] then dirname base @ [47] @ name else name)"
proof -
  have d: "length (dirname base) = (case strrchr base 47 of Some i \<Rightarrow> i | None \<Rightarrow> 0)"
    using strrchr_lt [of base 47] by (auto simp: dirname_def split: option.splits)
  have "dirname base = take (case strrchr base 47 of Some i \<Rightarrow> i | None \<Rightarrow> 0) base"
    by (simp add: dirname_def split: option.split)
  then show ?thesis using assms d
    by (auto simp: beamjs_module_normalize_def js_strdup_def Let_def simp del: length_greater_0_conv)
qed

text \<open>
  Paths as components: \<open>walk st p\<close> follows the components of \<open>p\<close> from the directory \<open>st\<close>, with
  \<open>.\<close> and empty components meaning the same directory and \<open>..\<close> its parent.
\<close>

fun comps :: "u8 list \<Rightarrow> u8 list list" where
  "comps [] = [[]]"
| "comps (x # xs) = (if x = 47 then [] # comps xs else (case comps xs of c # cs \<Rightarrow> (x # c) # cs | [] \<Rightarrow> [[x]]))"

definition walk_step :: "u8 list list \<Rightarrow> u8 list \<Rightarrow> u8 list list" where
  "walk_step st c = (if c = [] \<or> c = [46] then st else if c = [46, 46] then butlast st else st @ [c])"

definition walk :: "u8 list list \<Rightarrow> u8 list \<Rightarrow> u8 list list" where
  "walk st p = foldl walk_step st (comps p)"

lemma comps_nonempty: "comps p \<noteq> []"
  by (induction p) (auto split: list.split)

lemma comps_join: "comps (d @ 47 # n) = comps d @ comps n"
proof (induction d)
  case (Cons x d)
  then show ?case using comps_nonempty [of d] by (cases "comps d") (auto split: list.split)
qed simp

lemma walk_join: "walk st (d @ 47 # n) = walk (walk st d) n"
  by (simp add: walk_def comps_join)

section \<open>Loading a module\<close>

text \<open>
  The engine and the mailbox as the loader uses them. \<open>js_eval src file flags\<close> is \<open>JS_Eval\<close>,
  \<open>eval_function\<close> is \<open>JS_EvalFunction\<close>, which consumes its argument; both run the engine and may
  not return. A module value is \<open>JOther m\<close> for the module definition \<open>m\<close>.
\<close>

record ('t, 'h) modapi =
  mod_send :: "'t \<Rightarrow> bool"
  mod_reply :: "'t \<Rightarrow> 't option"
  js_eval :: "u8 list \<Rightarrow> u8 list \<Rightarrow> int \<Rightarrow> 'h js \<Rightarrow> ('h js \<times> jsval) option"
  eval_function :: "jsval \<Rightarrow> 'h js \<Rightarrow> ('h js \<times> jsval) option"
  throw_reference :: "'h \<Rightarrow> u8 list \<Rightarrow> 'h"

definition JS_EVAL_TYPE_GLOBAL :: int where "JS_EVAL_TYPE_GLOBAL = 0"
definition JS_EVAL_TYPE_MODULE :: int where "JS_EVAL_TYPE_MODULE = 1"
definition JS_EVAL_FLAG_STRICT :: int where "JS_EVAL_FLAG_STRICT = 8"
definition JS_EVAL_FLAG_COMPILE_ONLY :: int where "JS_EVAL_FLAG_COMPILE_ONLY = 32"

definition load_message :: "'t enif \<Rightarrow> u8 list \<Rightarrow> 't" where
  "load_message E module_name = make_tuple E [make_atom E (cstr ''load_module''), make_binary E module_name]"

text \<open>The source in a reply \<open>{ok, Binary}\<close>; anything else has none.\<close>

definition reply_source :: "'t enif \<Rightarrow> 't \<Rightarrow> u8 list option" where
  "reply_source E reply = (case get_tuple E reply of
     Some [t0, t1] \<Rightarrow>
       (case get_atom E t0 16 of Some a \<Rightarrow> if cbuf a = cstr ''ok'' then inspect_binary E t1 else None | None \<Rightarrow> None)
   | _ \<Rightarrow> None)"

definition load_source :: "'h qjs \<Rightarrow> ('t, 'h) modapi \<Rightarrow> u8 list \<Rightarrow> u8 list \<Rightarrow> 'h js \<Rightarrow> ('h js \<times> nat option) option" where
  "load_source Q M src module_name s =
    (case js_eval M src module_name (JS_EVAL_TYPE_MODULE + JS_EVAL_FLAG_COMPILE_ONLY) s of None \<Rightarrow> None
     | Some (s1, func_val) \<Rightarrow>
       if func_val = JExc then Some (c_free Q s1 func_val, None)
       else
         (let md = (case func_val of JOther m \<Rightarrow> Some m | _ \<Rightarrow> None) in
          case eval_function M func_val s1 of None \<Rightarrow> None
          | Some (s2, eval_result) \<Rightarrow>
              Some (c_free Q s2 eval_result, if eval_result = JExc then None else md)))"

definition beamjs_module_loader ::
  "'t enif \<Rightarrow> 'h qjs \<Rightarrow> ('t, 'h) modapi \<Rightarrow> bool \<Rightarrow> u8 list \<Rightarrow> 'h js \<Rightarrow> ('h js \<times> nat option) option" where
  "beamjs_module_loader E Q M has_ctx module_name s =
    (if \<not> has_ctx then Some (s, None)
     else
       (let msg = load_message E module_name in
        if \<not> mod_send M msg
        then Some (owe s (throw_reference M (heap s)
               (cstr ''Cannot load module '' @ [39] @ module_name @ [39] @ cstr '': owner process dead'')) 0, None)
        else case mod_reply M msg of None \<Rightarrow> None
        | Some reply \<Rightarrow>
          (case (case reply_source E reply of None \<Rightarrow> Some (s, None) | Some src \<Rightarrow> load_source Q M src module_name s) of
             None \<Rightarrow> None
           | Some (s1, Some md) \<Rightarrow> Some (s1, Some md)
           | Some (s1, None) \<Rightarrow>
               Some (owe s1 (throw_reference M (heap s1) (cstr ''Could not load module '' @ [39] @ module_name @ [39])) 0, None))))"

text \<open>What the loader needs of evaluation: the value it returns is the only new reference.\<close>

definition eval_owes :: "('t, 'h) modapi \<Rightarrow> bool" where
  "eval_owes M \<longleftrightarrow> (\<forall>src f fl s s' v. js_eval M src f fl s = Some (s', v) \<longrightarrow> owed s' = owed s + 1)
     \<and> (\<forall>v s s' r. eval_function M v s = Some (s', r) \<longrightarrow> owed s' = owed s)"

lemma eval_owesD:
  "eval_owes M \<Longrightarrow> js_eval M src f fl s = Some (s', v) \<Longrightarrow> owed s' = owed s + 1"
  "eval_owes M \<Longrightarrow> eval_function M v s = Some (s', r) \<Longrightarrow> owed s' = owed s"
  unfolding eval_owes_def by blast+

lemma load_source_owed:
  assumes e: "eval_owes M" and l: "load_source Q M src f s = Some (s', r)"
  shows "owed s' = owed s"
  using l by (auto simp: load_source_def Let_def split: option.splits if_splits dest!: eval_owesD(1) [OF e] eval_owesD(2) [OF e])

lemma load_source_Some:
  assumes "load_source Q M src f s = Some (s', Some md)"
  shows "\<exists>s1 s2 r. js_eval M src f (JS_EVAL_TYPE_MODULE + JS_EVAL_FLAG_COMPILE_ONLY) s = Some (s1, JOther md)
    \<and> eval_function M (JOther md) s1 = Some (s2, r) \<and> r \<noteq> JExc"
  using assms by (auto simp: load_source_def Let_def split: option.splits if_splits jsval.splits)

context erl_nif
begin

lemma reply_source_spec:
  "reply_source E r = Some src \<longleftrightarrow> (\<exists>cs a. rep r = ETuple [EAtom cs, EBin src] \<and> length cs < 16
     \<and> latin1 cs = Some a \<and> cbuf a = cstr ''ok'')"
  using get_tuple [of r]
  by (auto simp: reply_source_def get_atom inspect_binary split: option.splits list.splits eterm.splits if_splits)

end

section \<open>Properties of the loader\<close>


text \<open>
  Resolved names are not canonical: two modules that import the same file get different module
  names for it, so the engine loads it twice. (From \<open>l/a\<close>, \<open>./c\<close> becomes \<open>l/./c\<close>; from
  \<open>l/s/b\<close>, \<open>../c\<close> becomes \<open>l/s/../c\<close>.)
\<close>
theorem same_file_two_names:
  "\<exists>base1 name1 base2 name2 r1 r2. beamjs_module_normalize (\<lambda>_. True) base1 name1 = CStr r1
    \<and> beamjs_module_normalize (\<lambda>_. True) base2 name2 = CStr r2 \<and> walk [] r1 = walk [] r2 \<and> r1 \<noteq> r2"
proof (intro exI conjI)
  show "beamjs_module_normalize (\<lambda>_. True) (cstr ''l/a'') (cstr ''./c'') = CStr (cstr ''l/./c'')"
    "beamjs_module_normalize (\<lambda>_. True) (cstr ''l/s/b'') (cstr ''../c'') = CStr (cstr ''l/s/../c'')"
    "walk [] (cstr ''l/./c'') = walk [] (cstr ''l/s/../c'')" "cstr ''l/./c'' \<noteq> cstr ''l/s/../c''"
    by code_simp+
qed


section \<open>Concrete runs\<close>

text \<open>An engine that compiles every source to module 7 and evaluates it, and an owner that has it.\<close>

definition demo_modapi :: "(eterm, jheap) modapi" where
  "demo_modapi = \<lparr>mod_send = (\<lambda>m. True), mod_reply = (\<lambda>m. Some (ETuple [ascii_atom ''ok'', EBin [49]])),
     js_eval = (\<lambda>src f fl s. Some (owe s (heap s) 1, JOther 7)), eval_function = (\<lambda>v s. Some (s, JUndef)),
     throw_reference = (\<lambda>h msg. h)\<rparr>"



end
