(* ===== verification/NifContext.thy ===== *)
theory NifContext
  imports HostFunctions JobQueue ModuleLoader
begin

text \<open>
  beamjs_nif.c: the context resource and its life cycle, and the NIFs that run scripts, over the
  conversions, the job queue and the host functions.
\<close>

section \<open>State\<close>

text \<open>
  A \<open>BeamjsContext\<close>: \<open>rt\<close> is the runtime with its job queue, \<open>None\<close> for \<open>NULL\<close>; \<open>ctx\<close>, \<open>mutex\<close> and
  \<open>reply_cond\<close> say whether the pointer is set. \<open>stack_top\<close> is the thread whose stack the engine
  measures recursion against.
\<close>

record 'h bctx =
  rt :: "'h jrt option"
  ctx :: bool
  mutex :: bool
  reply_cond :: bool
  mem_limit :: int
  max_stack :: int
  stack_top :: nat

text \<open>All resources by number, and the numbers of engine and system objects alive.\<close>

record 'h nifstate =
  resources :: "nat \<Rightarrow> 'h bctx option"
  next_resource :: nat
  live_rt :: int
  live_ctx :: int
  live_mutex :: int
  live_cond :: int

datatype 't nifres = Badarg | Ret 't | Crash

text \<open>
  The rest of the engine and of the NIF API: resource terms, \<open>JS_NewRuntime\<close>, \<open>JS_NewContext\<close>,
  \<open>JS_Eval\<close> and \<open>JS_Call\<close> on a runtime, and \<open>JS_IsFunction\<close>.
\<close>

record ('t, 'h) nifapi =
  get_resource :: "'t \<Rightarrow> nat option"
  make_resource :: "nat \<Rightarrow> 't"
  new_runtime :: "nat \<Rightarrow> 'h jrt option"
  new_context :: "'h jrt \<Rightarrow> 'h jrt \<times> bool"
  rt_eval :: "u8 list \<Rightarrow> u8 list \<Rightarrow> int \<Rightarrow> 'h jrt \<Rightarrow> ('h jrt \<times> jsval) option"
  rt_call :: "jsval \<Rightarrow> jsval \<Rightarrow> jsval list \<Rightarrow> 'h jrt \<Rightarrow> ('h jrt \<times> jsval) option"
  is_function :: "'h \<Rightarrow> jsval \<Rightarrow> bool"

section \<open>Life cycle\<close>

definition zero_bctx :: "'h bctx" where
  "zero_bctx = \<lparr>rt = None, ctx = False, mutex = False, reply_cond = False, mem_limit = 0, max_stack = 0, stack_top = 0\<rparr>"

text \<open>\<open>JS_FreeContext\<close> and \<open>JS_FreeRuntime\<close> of what is still there, and the pointers to \<open>NULL\<close>.\<close>

definition destroy_engine :: "'h bctx \<Rightarrow> 'h nifstate \<Rightarrow> 'h bctx \<times> 'h nifstate" where
  "destroy_engine b st =
    (let (b1, st1) = (if ctx b then (b\<lparr>ctx := False\<rparr>, st\<lparr>live_ctx := live_ctx st - 1\<rparr>) else (b, st)) in
     if rt b1 \<noteq> None then (b1\<lparr>rt := None\<rparr>, st1\<lparr>live_rt := live_rt st1 - 1\<rparr>) else (b1, st1))"

definition beamjs_context_dtor :: "nat \<Rightarrow> 'h nifstate \<Rightarrow> 'h nifstate" where
  "beamjs_context_dtor i st = (case resources st i of None \<Rightarrow> st
     | Some b \<Rightarrow>
       (let (b1, st1) = destroy_engine b st;
            st2 = (if mutex b1 then st1\<lparr>live_mutex := live_mutex st1 - 1\<rparr> else st1);
            st3 = (if reply_cond b1 then st2\<lparr>live_cond := live_cond st2 - 1\<rparr> else st2) in
        st3\<lparr>resources := (resources st3)(i := None)\<rparr>))"

definition atom_ok :: "'t enif \<Rightarrow> 't" where
  "atom_ok E = make_atom E (cstr ''ok'')"

definition error_tuple :: "'t enif \<Rightarrow> string \<Rightarrow> 't" where
  "error_tuple E reason = make_tuple E [atom_error E, make_atom E (cstr reason)]"

definition nif_new_context ::
  "'t enif \<Rightarrow> 'h qjs \<Rightarrow> 'h instapi \<Rightarrow> ('t, 'h) nifapi \<Rightarrow> nat \<Rightarrow> 'h nifstate \<Rightarrow> 'h nifstate \<times> 't nifres" where
  "nif_new_context E Q I V th st =
    (let i = next_resource st;
         st0 = st\<lparr>resources := (resources st)(i \<mapsto> zero_bctx), next_resource := Suc i\<rparr> in
     case new_runtime V i of
       None \<Rightarrow> (beamjs_context_dtor i st0, Ret (error_tuple E ''runtime_creation_failed''))
     | Some r \<Rightarrow>
       (let st1 = st0\<lparr>live_rt := live_rt st0 + 1\<rparr>; (r1, created) = new_context V r in
        if \<not> created then
          (beamjs_context_dtor i (st1\<lparr>live_rt := live_rt st1 - 1\<rparr>), Ret (error_tuple E ''context_creation_failed''))
        else
          (let r2 = r1\<lparr>jstate := install_host_functions Q I (jstate r1)\<rparr>;
               b = \<lparr>rt = Some r2, ctx = True, mutex = True, reply_cond = True, mem_limit = 256 * 1024 * 1024,
                    max_stack = 4 * 1024 * 1024, stack_top = th\<rparr> in
           (st1\<lparr>resources := (resources st1)(i \<mapsto> b), live_ctx := live_ctx st1 + 1, live_mutex := live_mutex st1 + 1,
                live_cond := live_cond st1 + 1\<rparr>,
            Ret (make_tuple E [atom_ok E, make_resource V i])))))"

definition nif_destroy_context :: "'t enif \<Rightarrow> ('t, 'h) nifapi \<Rightarrow> 'h nifstate \<Rightarrow> 't \<Rightarrow> 'h nifstate \<times> 't nifres" where
  "nif_destroy_context E V st a0 = (case get_resource V a0 of None \<Rightarrow> (st, Badarg)
     | Some i \<Rightarrow> (case resources st i of None \<Rightarrow> (st, Crash)
       | Some b \<Rightarrow> (let (b1, st1) = destroy_engine b st in
           (st1\<lparr>resources := (resources st1)(i \<mapsto> b1)\<rparr>, Ret (atom_ok E)))))"

section \<open>Running scripts\<close>

text \<open>An argument that is a binary or an iolist, copied and NUL-terminated; a failed copy faults.\<close>

definition bin_arg :: "'t enif \<Rightarrow> 't \<Rightarrow> u8 list option" where
  "bin_arg E t = (case inspect_binary E t of Some b \<Rightarrow> Some b | None \<Rightarrow> inspect_iolist_as_binary E t)"

definition copied :: "'t enif \<Rightarrow> u8 list \<Rightarrow> bool" where
  "copied E b \<longleftrightarrow> enif_alloc_ok E (int (length b) + 1)"

fun strstr :: "u8 list \<Rightarrow> u8 list \<Rightarrow> bool" where
  "strstr [] pat = (pat = [])"
| "strstr (x # xs) pat = (take (length pat) (x # xs) = pat \<or> strstr xs pat)"

definition eval_flags :: "u8 list \<Rightarrow> int" where
  "eval_flags source = JS_EVAL_FLAG_STRICT +
    (if strstr (cbuf source) (cstr ''import '') \<or> strstr (cbuf source) (cstr ''export '') then JS_EVAL_TYPE_MODULE
     else JS_EVAL_TYPE_GLOBAL)"

text \<open>The answer of a call: \<open>{ok, Value}\<close>, or the pending exception; then the value is released.\<close>

definition call_answer ::
  "(u64 \<Rightarrow> int) \<Rightarrow> 't enif \<Rightarrow> 'h qjs \<Rightarrow> nat \<Rightarrow> jsval \<Rightarrow> 'h js \<Rightarrow> ('h js \<times> 't) option" where
  "call_answer oob E Q n v s =
    (case (if v = JExc then js_exception_to_erl oob E Q n s
           else map_option (\<lambda>(s1, t). (s1, make_tuple E [atom_ok E, t])) (js_value_to_erl oob E Q n s v)) of
       None \<Rightarrow> None | Some (s1, t) \<Rightarrow> Some (c_free Q s1 v, t))"

definition put_rt :: "nat \<Rightarrow> 'h bctx \<Rightarrow> 'h jrt \<Rightarrow> 'h nifstate \<Rightarrow> 'h nifstate" where
  "put_rt i b r st = st\<lparr>resources := (resources st)(i \<mapsto> b\<lparr>rt := Some r\<rparr>)\<rparr>"

text \<open>After the call: drain the job queue, then convert the result.\<close>

definition finish_call ::
  "(u64 \<Rightarrow> int) \<Rightarrow> 't enif \<Rightarrow> 'h qjs \<Rightarrow> 'h jobapi \<Rightarrow> nat \<Rightarrow> 'h jrt \<Rightarrow> jsval \<Rightarrow> ('h jrt \<times> 't) option" where
  "finish_call oob E Q J n r v = (case run_pending_jobs Q J r 0 of None \<Rightarrow> None
     | Some (r1, _) \<Rightarrow> (case call_answer oob E Q n v (jstate r1) of None \<Rightarrow> None
       | Some (s, t) \<Rightarrow> Some (r1\<lparr>jstate := s\<rparr>, t)))"

definition nif_eval ::
  "(u64 \<Rightarrow> int) \<Rightarrow> 't enif \<Rightarrow> 'h qjs \<Rightarrow> 'h jobapi \<Rightarrow> ('t, 'h) nifapi \<Rightarrow> nat \<Rightarrow> nat \<Rightarrow> 'h nifstate \<Rightarrow> 't \<Rightarrow> 't \<Rightarrow> 't
    \<Rightarrow> ('h nifstate \<times> 't nifres) option" where
  "nif_eval oob E Q J V n th st a0 a1 a2 = (case get_resource V a0 of None \<Rightarrow> Some (st, Badarg)
     | Some i \<Rightarrow> (case resources st i of None \<Rightarrow> Some (st, Crash)
     | Some b \<Rightarrow>
       if \<not> ctx b then Some (st, Ret (error_tuple E ''context_destroyed''))
       else (case bin_arg E a1 of None \<Rightarrow> Some (st, Badarg)
       | Some source \<Rightarrow> (case bin_arg E a2 of None \<Rightarrow> Some (st, Badarg)
       | Some filename \<Rightarrow>
         if \<not> copied E source \<or> \<not> copied E filename then Some (st, Crash)
         else (case rt b of None \<Rightarrow> Some (st, Crash)
         | Some r \<Rightarrow> (case rt_eval V source (cbuf filename) (eval_flags source) r of None \<Rightarrow> None
         | Some (r1, v) \<Rightarrow> (case finish_call oob E Q J n r1 v of None \<Rightarrow> None
           | Some (r2, t) \<Rightarrow> Some (put_rt i (b\<lparr>stack_top := th\<rparr>) r2 st, Ret t))))))))"

text \<open>The arguments of a function call as values, from left to right.\<close>

fun terms_to_js :: "('h js \<Rightarrow> 't \<Rightarrow> ('h js \<times> jsval) option) \<Rightarrow> 't list \<Rightarrow> 'h js \<Rightarrow> ('h js \<times> jsval list) option" where
  "terms_to_js conv [] s = Some (s, [])"
| "terms_to_js conv (t # ts) s = (case conv s t of None \<Rightarrow> None
     | Some (s1, v) \<Rightarrow> (case terms_to_js conv ts s1 of None \<Rightarrow> None | Some (s2, vs) \<Rightarrow> Some (s2, v # vs)))"

definition nif_call_function ::
  "(u64 \<Rightarrow> int) \<Rightarrow> 't enif \<Rightarrow> 'h qjs \<Rightarrow> 'h instapi \<Rightarrow> 'h jobapi \<Rightarrow> ('t, 'h) nifapi \<Rightarrow> nat \<Rightarrow> nat \<Rightarrow> 'h nifstate
    \<Rightarrow> 't \<Rightarrow> 't \<Rightarrow> 't \<Rightarrow> ('h nifstate \<times> 't nifres) option" where
  "nif_call_function oob E Q I J V n th st a0 a1 a2 = (case get_resource V a0 of None \<Rightarrow> Some (st, Badarg)
     | Some i \<Rightarrow> (case resources st i of None \<Rightarrow> Some (st, Crash)
     | Some b \<Rightarrow>
       if \<not> ctx b then Some (st, Ret (error_tuple E ''context_destroyed''))
       else (case bin_arg E a1 of None \<Rightarrow> Some (st, Badarg)
       | Some fn_name \<Rightarrow>
         if \<not> copied E fn_name then Some (st, Crash)
         else (case rt b of None \<Rightarrow> Some (st, Crash)
         | Some r \<Rightarrow>
           (let b1 = b\<lparr>stack_top := th\<rparr>;
                (h1, global) = global_object I (heap (jstate r)); s1 = owe (jstate r) h1 1;
                (h2, func) = JS_GetPropertyStr Q (heap s1) global (cbuf fn_name); s2 = owe s1 h2 1 in
            if \<not> is_function V (heap s2) func
            then Some (put_rt i b1 (r\<lparr>jstate := c_free Q (c_free Q s2 func) global\<rparr>) st,
                       Ret (error_tuple E ''not_a_function''))
            else (case get_list_length E a2 of
              None \<Rightarrow> Some (put_rt i b1 (r\<lparr>jstate := c_free Q (c_free Q s2 func) global\<rparr>) st, Badarg)
            | Some args_len \<Rightarrow>
              if \<not> enif_alloc_ok E (sizeof_JSValue * (if args_len > 0 then int args_len else 1)) then Some (st, Crash)
              else (case list_heads E a2 of None \<Rightarrow> None
              | Some args \<Rightarrow> (case terms_to_js (erl_term_to_js oob E Q n) args s2 of None \<Rightarrow> None
              | Some (s3, js_args) \<Rightarrow> (case rt_call V func global js_args (r\<lparr>jstate := s3\<rparr>) of None \<Rightarrow> None
              | Some (r1, v) \<Rightarrow> (case finish_call oob E Q J n r1 v of None \<Rightarrow> None
                | Some (r2, t) \<Rightarrow>
                    Some (put_rt i b1 (r2\<lparr>jstate := c_free Q (c_free Q (free_vals Q js_args (jstate r2)) func) global\<rparr>) st,
                          Ret t)))))))))))"

text \<open>
  The other NIFs do not check that the context is still there: on a destroyed context they follow
  a \<open>NULL\<close> pointer.
\<close>

definition nif_set_global ::
  "(u64 \<Rightarrow> int) \<Rightarrow> 't enif \<Rightarrow> 'h qjs \<Rightarrow> 'h instapi \<Rightarrow> ('t, 'h) nifapi \<Rightarrow> nat \<Rightarrow> 'h nifstate \<Rightarrow> 't \<Rightarrow> 't \<Rightarrow> 't
    \<Rightarrow> ('h nifstate \<times> 't nifres) option" where
  "nif_set_global oob E Q I V n st a0 a1 a2 = (case get_resource V a0 of None \<Rightarrow> Some (st, Badarg)
     | Some i \<Rightarrow> (case resources st i of None \<Rightarrow> Some (st, Crash)
     | Some b \<Rightarrow> (case bin_arg E a1 of None \<Rightarrow> Some (st, Badarg)
     | Some name \<Rightarrow>
       if \<not> copied E name \<or> \<not> ctx b then Some (st, Crash)
       else (case rt b of None \<Rightarrow> Some (st, Crash)
       | Some r \<Rightarrow>
         (let (h1, global) = global_object I (heap (jstate r)); s1 = owe (jstate r) h1 1 in
          case erl_term_to_js oob E Q n s1 a2 of None \<Rightarrow> None
          | Some (s2, js_val) \<Rightarrow>
            (let s3 = owe s2 (fst (JS_SetPropertyStr Q (heap s2) global (cbuf name) js_val)) (- 1) in
             Some (put_rt i b (r\<lparr>jstate := c_free Q s3 global\<rparr>) st, Ret (atom_ok E))))))))"

definition nif_get_global ::
  "(u64 \<Rightarrow> int) \<Rightarrow> 't enif \<Rightarrow> 'h qjs \<Rightarrow> 'h instapi \<Rightarrow> ('t, 'h) nifapi \<Rightarrow> nat \<Rightarrow> 'h nifstate \<Rightarrow> 't \<Rightarrow> 't
    \<Rightarrow> ('h nifstate \<times> 't nifres) option" where
  "nif_get_global oob E Q I V n st a0 a1 = (case get_resource V a0 of None \<Rightarrow> Some (st, Badarg)
     | Some i \<Rightarrow> (case resources st i of None \<Rightarrow> Some (st, Crash)
     | Some b \<Rightarrow> (case bin_arg E a1 of None \<Rightarrow> Some (st, Badarg)
     | Some name \<Rightarrow>
       if \<not> copied E name \<or> \<not> ctx b then Some (st, Crash)
       else (case rt b of None \<Rightarrow> Some (st, Crash)
       | Some r \<Rightarrow>
         (let (h1, global) = global_object I (heap (jstate r)); s1 = owe (jstate r) h1 1;
              (h2, val) = JS_GetPropertyStr Q (heap s1) global (cbuf name); s2 = owe s1 h2 1 in
          case js_value_to_erl oob E Q n s2 val of None \<Rightarrow> None
          | Some (s3, result) \<Rightarrow>
              Some (put_rt i b (r\<lparr>jstate := c_free Q (c_free Q s3 val) global\<rparr>) st,
                    Ret (make_tuple E [atom_ok E, result])))))))"

definition nif_execute_pending_jobs ::
  "'t enif \<Rightarrow> 'h qjs \<Rightarrow> 'h jobapi \<Rightarrow> ('t, 'h) nifapi \<Rightarrow> 'h nifstate \<Rightarrow> 't \<Rightarrow> ('h nifstate \<times> 't nifres) option" where
  "nif_execute_pending_jobs E Q J V st a0 = (case get_resource V a0 of None \<Rightarrow> Some (st, Badarg)
     | Some i \<Rightarrow> (case resources st i of None \<Rightarrow> Some (st, Crash)
     | Some b \<Rightarrow> (case rt b of None \<Rightarrow> Some (st, Crash)
     | Some r \<Rightarrow> (case run_pending_jobs Q J r 0 of None \<Rightarrow> None
       | Some (r1, count) \<Rightarrow>
           Some (put_rt i b r1 st, Ret (make_tuple E [atom_ok E, make_int E (of_nat count)]))))))"

section \<open>The library\<close>

text \<open>The table of the NIFs: name, arity, and whether it runs on a dirty scheduler.\<close>

definition nif_funcs :: "(string \<times> nat \<times> bool) list" where
  "nif_funcs = [(''new_context'', 1, False), (''destroy_context'', 1, False), (''eval'', 3, True), (''call_function'', 3, True),
     (''set_global'', 3, True), (''get_global'', 2, True), (''execute_pending_jobs'', 1, True), (''deliver_host_reply'', 2, False)]"

text \<open>\<open>load\<close>: -1 if the resource type cannot be opened, else the cached atoms.\<close>

definition nif_load :: "'t enif \<Rightarrow> bool \<Rightarrow> int \<times> 't list" where
  "nif_load E opened = (if \<not> opened then (- 1, [])
     else (0, map (\<lambda>a. make_atom E (cstr a)) [''ok'', ''error'', ''undefined'', ''nil'', ''true'', ''false'', ''host_call'',
       ''host_reply'', ''js_exception'']))"

section \<open>Accounting\<close>

text \<open>
  Every engine and system object alive belongs to exactly one resource that points to it, a context
  comes with its runtime, and the mutex and the condition variable come together.
\<close>

definition owners :: "('h bctx \<Rightarrow> bool) \<Rightarrow> 'h nifstate \<Rightarrow> nat set" where
  "owners p st = {i. \<exists>b. resources st i = Some b \<and> p b}"

definition nif_inv :: "'h nifstate \<Rightarrow> bool" where
  "nif_inv st \<longleftrightarrow> live_rt st = int (card (owners (\<lambda>b. rt b \<noteq> None) st)) \<and> live_ctx st = int (card (owners ctx st))
     \<and> live_mutex st = int (card (owners mutex st)) \<and> live_cond st = int (card (owners reply_cond st))
     \<and> (\<forall>i. next_resource st \<le> i \<longrightarrow> resources st i = None)
     \<and> (\<forall>i b. resources st i = Some b \<longrightarrow> (ctx b \<longrightarrow> rt b \<noteq> None) \<and> mutex b \<and> reply_cond b)"

definition init_nif :: "'h nifstate" where
  "init_nif = \<lparr>resources = (\<lambda>_. None), next_resource = 0, live_rt = 0, live_ctx = 0, live_mutex = 0, live_cond = 0\<rparr>"

lemma owners_upd:
  "owners p (st\<lparr>resources := (resources st)(i := r)\<rparr>) =
    (if \<exists>b. r = Some b \<and> p b then insert i (owners p st) else owners p st - {i})"
  by (auto simp: owners_def)

lemma finite_owners: "nif_inv st \<Longrightarrow> finite (owners p st)"
proof -
  assume "nif_inv st"
  then have "owners p st \<subseteq> {..<next_resource st}" by (fastforce simp: owners_def nif_inv_def not_le [symmetric])
  then show ?thesis by (rule finite_subset) simp
qed

text \<open>Replacing a resource by one that owns the same things.\<close>

lemma nif_inv_same:
  assumes "nif_inv st" "resources st i = Some b" "rt b' \<noteq> None \<longleftrightarrow> rt b \<noteq> None" "ctx b' = ctx b" "mutex b' = mutex b"
    "reply_cond b' = reply_cond b"
  shows "nif_inv (st\<lparr>resources := (resources st)(i \<mapsto> b')\<rparr>)"
proof -
  have "owners p (st\<lparr>resources := (resources st)(i \<mapsto> b')\<rparr>) = owners p st" if "p b' = p b" for p
    using that assms(2) by (auto simp: owners_def)
  with assms show ?thesis unfolding nif_inv_def by (auto simp del: fun_upd_apply) (auto split: if_splits)
qed

lemma card_owners_upd:
  assumes "finite (owners p st)"
  shows "int (card (owners p (st\<lparr>resources := (resources st)(i := r)\<rparr>))) = int (card (owners p st))
    + (case r of Some b \<Rightarrow> if p b then 1 else 0 | None \<Rightarrow> 0) - (case resources st i of Some b \<Rightarrow> if p b then 1 else 0 | None \<Rightarrow> 0)"
proof -
  have i: "i \<in> owners p st \<longleftrightarrow> (case resources st i of Some b \<Rightarrow> p b | None \<Rightarrow> False)"
    by (auto simp: owners_def split: option.splits)
  have "card (owners p st - {i}) = card (owners p st) - 1" "0 < card (owners p st)" if "i \<in> owners p st"
    using that assms by (auto simp: card_gt_0_iff)
  then show ?thesis using i assms
    by (cases "i \<in> owners p st") (auto simp: owners_upd card_insert_if of_nat_diff split: option.splits)
qed

lemma owners_counters [simp]:
  "owners p (st\<lparr>live_rt := a\<rparr>) = owners p st" "owners p (st\<lparr>live_ctx := a\<rparr>) = owners p st"
  "owners p (st\<lparr>live_mutex := a\<rparr>) = owners p st" "owners p (st\<lparr>live_cond := a\<rparr>) = owners p st"
  "owners p (st\<lparr>next_resource := k\<rparr>) = owners p st"
  by (simp_all add: owners_def)

text \<open>Changing one resource together with the counters.\<close>

lemma nif_inv_change:
  assumes inv: "nif_inv st" and st': "resources st' = (resources st)(i := r)" "next_resource st \<le> next_resource st'"
    and wf: "\<And>b. r = Some b \<Longrightarrow> i < next_resource st' \<and> (ctx b \<longrightarrow> rt b \<noteq> None) \<and> mutex b \<and> reply_cond b"
    and counts: "live_rt st' = live_rt st + (case r of Some b \<Rightarrow> if rt b \<noteq> None then 1 else 0 | None \<Rightarrow> 0)
        - (case resources st i of Some b \<Rightarrow> if rt b \<noteq> None then 1 else 0 | None \<Rightarrow> 0)"
      "live_ctx st' = live_ctx st + (case r of Some b \<Rightarrow> if ctx b then 1 else 0 | None \<Rightarrow> 0)
        - (case resources st i of Some b \<Rightarrow> if ctx b then 1 else 0 | None \<Rightarrow> 0)"
      "live_mutex st' = live_mutex st + (case r of Some b \<Rightarrow> if mutex b then 1 else 0 | None \<Rightarrow> 0)
        - (case resources st i of Some b \<Rightarrow> if mutex b then 1 else 0 | None \<Rightarrow> 0)"
      "live_cond st' = live_cond st + (case r of Some b \<Rightarrow> if reply_cond b then 1 else 0 | None \<Rightarrow> 0)
        - (case resources st i of Some b \<Rightarrow> if reply_cond b then 1 else 0 | None \<Rightarrow> 0)"
  shows "nif_inv st'"
proof -
  have o: "owners p st' = owners p (st\<lparr>resources := (resources st)(i := r)\<rparr>)" for p
    using st'(1) by (simp add: owners_def)
  have c: "int (card (owners p st')) = int (card (owners p st)) + (case r of Some b \<Rightarrow> if p b then 1 else 0 | None \<Rightarrow> 0)
      - (case resources st i of Some b \<Rightarrow> if p b then 1 else 0 | None \<Rightarrow> 0)" for p
    unfolding o by (rule card_owners_upd [OF finite_owners [OF inv]])
  have i: "live_rt st = int (card (owners (\<lambda>b. rt b \<noteq> None) st))" "live_ctx st = int (card (owners ctx st))"
    "live_mutex st = int (card (owners mutex st))" "live_cond st = int (card (owners reply_cond st))"
    "\<And>i. next_resource st \<le> i \<Longrightarrow> resources st i = None"
    "\<And>i b. resources st i = Some b \<Longrightarrow> (ctx b \<longrightarrow> rt b \<noteq> None) \<and> mutex b \<and> reply_cond b"
    using inv unfolding nif_inv_def by blast+
  have n: "resources st' j = None" if "next_resource st' \<le> j" for j
    using that st' wf i(5) by (cases r) (auto simp: not_less [symmetric])
  have w: "(ctx b \<longrightarrow> rt b \<noteq> None) \<and> mutex b \<and> reply_cond b" if "resources st' j = Some b" for j b
    using that wf [of b] i(6) [of j b] unfolding st'(1) by (cases "j = i") simp_all
  have "live_rt st' = int (card (owners (\<lambda>b. rt b \<noteq> None) st'))" by (simp only: counts(1) c i(1))
  moreover have "live_ctx st' = int (card (owners ctx st'))" by (simp only: counts(2) c i(2))
  moreover have "live_mutex st' = int (card (owners mutex st'))" by (simp only: counts(3) c i(3))
  moreover have "live_cond st' = int (card (owners reply_cond st'))" by (simp only: counts(4) c i(4))
  ultimately show ?thesis unfolding nif_inv_def using n w by blast
qed

lemma inv_contexts:
  "nif_inv st \<Longrightarrow> resources st i = Some b \<Longrightarrow> (ctx b \<longrightarrow> rt b \<noteq> None) \<and> mutex b \<and> reply_cond b \<and> i < next_resource st"
  unfolding nif_inv_def by (metis not_less option.discI)

lemma nif_inv_destroy:
  assumes "nif_inv st" "resources st i = Some b" "destroy_engine b st = (b1, st1)"
  shows "nif_inv (st1\<lparr>resources := (resources st1)(i \<mapsto> b1)\<rparr>)"
proof (rule nif_inv_change [OF assms(1), of _ i "Some b1"])
  note w = inv_contexts [OF assms(1,2)]
  show "resources (st1\<lparr>resources := (resources st1)(i \<mapsto> b1)\<rparr>) = (resources st)(i \<mapsto> b1)"
    "next_resource st \<le> next_resource (st1\<lparr>resources := (resources st1)(i \<mapsto> b1)\<rparr>)"
    using assms(3) by (auto simp: destroy_engine_def Let_def split: if_splits)
  show "\<And>b. Some b1 = Some b \<Longrightarrow> i < next_resource (st1\<lparr>resources := (resources st1)(i \<mapsto> b1)\<rparr>)
      \<and> (ctx b \<longrightarrow> rt b \<noteq> None) \<and> mutex b \<and> reply_cond b"
    using assms(3) w by (auto simp: destroy_engine_def Let_def split: if_splits)
qed (use assms inv_contexts [OF assms(1,2)] in \<open>auto simp: destroy_engine_def Let_def split: if_splits\<close>)

lemma nif_inv_dtor:
  assumes "nif_inv st"
  shows "nif_inv (beamjs_context_dtor i st)"
proof (cases "resources st i")
  case None
  then show ?thesis using assms by (simp add: beamjs_context_dtor_def)
next
  case (Some b)
  note w = inv_contexts [OF assms Some]
  show ?thesis
    by (rule nif_inv_change [OF assms, of _ i None])
      (use Some w in \<open>auto simp: beamjs_context_dtor_def destroy_engine_def Let_def split: if_splits\<close>)
qed

text \<open>A failed creation leaves the state as it was, but for the number of the resource.\<close>

lemma dtor_zero:
  "resources st i = None \<Longrightarrow>
    beamjs_context_dtor i (st\<lparr>resources := (resources st)(i \<mapsto> zero_bctx), next_resource := k\<rparr>) = st\<lparr>next_resource := k\<rparr>"
  by (auto simp: beamjs_context_dtor_def destroy_engine_def zero_bctx_def Let_def fun_upd_idem)

lemma nif_inv_new:
  assumes "nif_inv st"
  shows "nif_inv (fst (nif_new_context E Q I V th st))"
proof -
  have f: "resources st (next_resource st) = None" using assms by (simp add: nif_inv_def)
  have "nif_inv (st\<lparr>next_resource := Suc (next_resource st)\<rparr>)" using assms by (auto simp: nif_inv_def)
  moreover have "beamjs_context_dtor (next_resource st) (st\<lparr>resources := (resources st)(next_resource st \<mapsto> zero_bctx),
      next_resource := Suc (next_resource st), live_rt := live_rt st\<rparr>) = st\<lparr>next_resource := Suc (next_resource st)\<rparr>"
    using dtor_zero [OF f, of "Suc (next_resource st)"] by simp
  ultimately show ?thesis
    unfolding nif_new_context_def using dtor_zero [OF f, of "Suc (next_resource st)"]
    by (auto simp: Let_def f split: option.split prod.split intro!: nif_inv_change [OF assms, of _ "next_resource st"])
qed

text \<open>Runs: any sequence of NIF calls and of collections of resources.\<close>

inductive nif_step ::
  "(u64 \<Rightarrow> int) \<Rightarrow> 't enif \<Rightarrow> 'h qjs \<Rightarrow> 'h instapi \<Rightarrow> 'h jobapi \<Rightarrow> ('t, 'h) nifapi \<Rightarrow> nat \<Rightarrow> 'h nifstate \<Rightarrow> 'h nifstate \<Rightarrow> bool"
  for oob E Q I J V n where
  step_new: "nif_new_context E Q I V th st = (st', r) \<Longrightarrow> nif_step oob E Q I J V n st st'"
| step_destroy: "nif_destroy_context E V st a0 = (st', r) \<Longrightarrow> nif_step oob E Q I J V n st st'"
| step_eval: "nif_eval oob E Q J V n th st a0 a1 a2 = Some (st', r) \<Longrightarrow> nif_step oob E Q I J V n st st'"
| step_call: "nif_call_function oob E Q I J V n th st a0 a1 a2 = Some (st', r) \<Longrightarrow> nif_step oob E Q I J V n st st'"
| step_set: "nif_set_global oob E Q I V n st a0 a1 a2 = Some (st', r) \<Longrightarrow> nif_step oob E Q I J V n st st'"
| step_get: "nif_get_global oob E Q I V n st a0 a1 = Some (st', r) \<Longrightarrow> nif_step oob E Q I J V n st st'"
| step_jobs: "nif_execute_pending_jobs E Q J V st a0 = Some (st', r) \<Longrightarrow> nif_step oob E Q I J V n st st'"
| step_gc: "nif_step oob E Q I J V n st (beamjs_context_dtor i st)"

inductive nif_reach ::
  "(u64 \<Rightarrow> int) \<Rightarrow> 't enif \<Rightarrow> 'h qjs \<Rightarrow> 'h instapi \<Rightarrow> 'h jobapi \<Rightarrow> ('t, 'h) nifapi \<Rightarrow> nat \<Rightarrow> 'h nifstate \<Rightarrow> bool"
  for oob E Q I J V n where
  nif_init: "nif_reach oob E Q I J V n init_nif"
| nif_next: "nif_reach oob E Q I J V n st \<Longrightarrow> nif_step oob E Q I J V n st st' \<Longrightarrow> nif_reach oob E Q I J V n st'"

lemma nif_inv_put_rt:
  assumes "nif_inv st" "resources st i = Some b" "rt b \<noteq> None" "ctx b' = ctx b" "mutex b' = mutex b" "reply_cond b' = reply_cond b"
  shows "nif_inv (put_rt i b' r st)"
  unfolding put_rt_def by (rule nif_inv_same [OF assms(1,2)]) (use assms in simp_all)

lemma nif_inv_step: "nif_step oob E Q I J V n st st' \<Longrightarrow> nif_inv st \<Longrightarrow> nif_inv st'"
proof (induction rule: nif_step.induct)
  case (step_new th st st' r)
  then show ?case using nif_inv_new [of st E Q I V th] by simp
next
  case (step_destroy st a0 st' r)
  then show ?case
    by (auto simp: nif_destroy_context_def split: option.splits prod.splits intro: nif_inv_destroy)
next
  case (step_eval th st a0 a1 a2 st' r)
  then show ?case
    by (auto simp: nif_eval_def split: option.splits if_splits prod.splits intro!: nif_inv_put_rt)
next
  case (step_call th st a0 a1 a2 st' r)
  then show ?case
    by (auto simp: nif_call_function_def Let_def split: option.splits if_splits prod.splits intro!: nif_inv_put_rt)
next
  case (step_set st a0 a1 a2 st' r)
  then show ?case
    by (auto simp: nif_set_global_def Let_def split: option.splits if_splits prod.splits intro!: nif_inv_put_rt)
next
  case (step_get st a0 a1 st' r)
  then show ?case
    by (auto simp: nif_get_global_def Let_def split: option.splits if_splits prod.splits intro!: nif_inv_put_rt)
next
  case (step_jobs st a0 st' r)
  then show ?case
    by (auto simp: nif_execute_pending_jobs_def split: option.splits prod.splits intro!: nif_inv_put_rt)
next
  case (step_gc st i)
  then show ?case by (rule nif_inv_dtor)
qed

lemma nif_reach_inv: "nif_reach oob E Q I J V n st \<Longrightarrow> nif_inv st"
proof (induction rule: nif_reach.induct)
  case nif_init
  then show ?case by (simp add: nif_inv_def init_nif_def owners_def)
qed (rule nif_inv_step)

section \<open>Globals\<close>

context host_engine
begin

text \<open>Reading a property with a good name.\<close>

lemma get_str:
  assumes "ok h" "obj h i = Some ps" "good_name name" "map_of ps (cunits name) = Some v"
  shows "\<exists>h'. JS_GetPropertyStr Q h (JObj i) (cstr name) = (h', v) \<and> ok h' \<and> arr h' = arr h \<and> obj h' = obj h"
proof -
  have n: "ascii (cstr name)" "0 \<notin> set (cstr name)" "length (cstr name) < 2 ^ 30"
    using assms(3) by (simp_all add: good_name_def)
  have b: "cbuf (cstr name) = cstr name" using n(2) by (auto simp: cbuf_def takeWhile_eq_all_conv)
  from new_atom_ascii [OF assms(1) n(1,3)] obtain h1 where h1: "JS_NewAtomLen Q h (cstr name) = (h1, Atom (cunits name))"
    "ok h1" "arr h1 = arr h" "obj h1 = obj h" by (auto simp: utf16_ascii [OF n(1)] cunits_def)
  have "obj h1 i = Some ps" using h1(4) assms(2) by simp
  from get_prop [OF h1(2) this assms(4)] obtain h2 where h2: "get_prop Q h1 (JObj i) (Atom (cunits name)) = (h2, v)" "ok h2"
    "arr h2 = arr h1" "obj h2 = obj h1" by blast
  from free_atom [OF h2(2), of "Atom (cunits name)"] h1 h2 b show ?thesis
    by (simp add: JS_GetPropertyStr_def JS_NewAtom_def)
qed

lemma set_then_get:
  assumes alloc: "\<And>k. 0 \<le> k \<Longrightarrow> k < 2 ^ 34 \<Longrightarrow> enif_alloc_ok E k"
    and res: "get_resource V a0 = Some i" "resources st i = Some b" "ctx b" "rt b = Some r"
    and h: "ok (heap (jstate r))" "obj (heap (jstate r)) glob = Some ps" "1 \<le> refs (heap (jstate r)) glob"
    and name: "bin_arg E a1 = Some (cstr name)" "good_name name" "cunits name \<notin> fst ` set ps"
    and t: "faithful (rep a2)" "edepth (rep a2) \<le> n"
  shows "\<exists>st1 st2 u t. nif_set_global oob E Q I V n st a0 a1 a2 = Some (st1, Ret (atom_ok E))
    \<and> nif_get_global oob E Q I V n st1 a0 a1 = Some (st2, Ret t) \<and> rep t = ETuple [ascii_atom ''ok'', u] \<and> term_eqv u (rep a2)"
proof -
  let ?g = "JObj glob" and ?s = "jstate r"
  have len: "length (cstr name) < 2 ^ 30" using name(2) by (simp add: good_name_def)
  have cp: "copied E (cstr name)" unfolding copied_def using len by (intro alloc) simp_all
  have nb: "cbuf (cstr name) = cstr name" using name(2) by (auto simp: good_name_def cbuf_def takeWhile_eq_all_conv)
  note f = faithful_round [OF t, of oob]
  from global [OF h(1,2)] obtain h1 where h1: "global_object I (heap ?s) = (h1, ?g)" "ok h1" "arr h1 = arr (heap ?s)"
    "obj h1 = obj (heap ?s)" "refs h1 = add_ref (refs (heap ?s)) ?g" by blast
  let ?s1 = "owe ?s h1 1" and ?d = "js_data oob (rep a2)"
  from erl_term_to_js_converts [OF conjunct2 [OF conjunct2 [OF f]] t(2), of oob] h1(2) obtain s2 v where c:
    "erl_term_to_js oob E Q n ?s1 a2 = Some (s2, v)" "built h1 (heap s2) v ?d" unfolding converts_def by force
  have g: "grown h1 (heap s2)" "live (refs (heap s2)) v" "denotes (arr (heap s2) |` unused h1) (obj (heap s2) |` unused h1) v ?d"
    using c(2) by (simp_all add: built_def)
  have o2: "ok (heap s2)" "obj (heap s2) glob = Some ps" "refs (heap s2) glob = Suc (refs (heap ?s) glob)"
    using g(1) h1(4,5) h(2) by (auto simp: grown_def map_le_def dom_def unused_def add_ref_def)
  from set_str [OF o2(1,2) name(2,3) g(2)] obtain h3 k ps' where h3: "JS_SetPropertyStr Q (heap s2) ?g (cstr name) v = (h3, k)"
    "ok h3" "arr h3 = arr (heap s2)" "obj h3 = (obj (heap s2))(glob \<mapsto> ps')" "refs h3 = refs (heap s2)"
    "map_of ps' = (map_of ps)(cunits name \<mapsto> v)" by blast
  let ?s3 = "c_free Q (owe s2 h3 (- 1)) ?g"
  have "shared (refs h3) ?g" using h3(5) o2(3) h(3) by (simp add: shared_def)
  from free_val [OF h3(2) this] have fr: "ok (heap ?s3)" "arr (heap ?s3) = arr h3" "obj (heap ?s3) = obj h3"
    by (simp_all add: c_free_def)
  let ?st1 = "put_rt i b (r\<lparr>jstate := ?s3\<rparr>) st"
  have set: "nif_set_global oob E Q I V n st a0 a1 a2 = Some (?st1, Ret (atom_ok E))"
    by (simp add: nif_set_global_def res name(1) cp h1(1) c(1) h3(1) nb Let_def)
  have gu: "glob \<notin> unused h1" using h1(4) h(2) by (simp add: unused_def)
  have "obj h3 |` unused h1 = obj (heap s2) |` unused h1" using h3(4) gu by (auto simp: restrict_map_def fun_eq_iff)
  then have "denotes (arr h3) (obj h3) v ?d"
    using denotes_mono [OF map_restrict_le map_restrict_le] g(3) h3(3) by metis
  then have dn: "denotes (arr (heap ?s3)) (obj (heap ?s3)) v ?d" using fr by simp
  have og: "obj (heap ?s3) glob = Some ps'" using fr(3) h3(4) by simp
  from global [OF fr(1) og] obtain h4 where h4: "global_object I (heap ?s3) = (h4, ?g)" "ok h4" "arr h4 = arr (heap ?s3)"
    "obj h4 = obj (heap ?s3)" by blast
  have "obj h4 glob = Some ps'" using h4(4) og by simp
  from get_str [OF h4(2) this name(2), of v] h3(6) obtain h5 where h5:
    "JS_GetPropertyStr Q h4 ?g (cstr name) = (h5, v)" "ok h5" "arr h5 = arr h4" "obj h5 = obj h4" by auto
  let ?s5 = "owe (owe ?s3 h4 1) h5 1"
  have "ok (heap ?s5)" "denotes (arr (heap ?s5)) (obj (heap ?s5)) v ?d" using h5 h4 dn by simp_all
  from reads_back [OF alloc this, of n oob] f js_depth [OF t(2)] obtain s6 w where w:
    "js_value_to_erl oob E Q n ?s5 v = Some (s6, w)" "term_eqv (rep w) (rep a2)" by auto
  have "nif_get_global oob E Q I V n ?st1 a0 a1 = Some (put_rt i (b\<lparr>rt := Some (r\<lparr>jstate := ?s3\<rparr>)\<rparr>)
      (r\<lparr>jstate := c_free Q (c_free Q s6 v) ?g\<rparr>) ?st1, Ret (make_tuple E [atom_ok E, w]))"
    using w(1) by (simp add: nif_get_global_def put_rt_def res name(1) cp h4(1) h5(1) nb Let_def)
  moreover have "rep (make_tuple E [atom_ok E, w]) = ETuple [ascii_atom ''ok'', rep w]"
    by (simp add: make_tuple atom_ok_def make_atom ascii_atom_def)
  ultimately show ?thesis using set w(2) by blast
qed

end

section \<open>Properties of the NIFs\<close>


text \<open>
  After \<open>destroy_context\<close>, \<open>eval\<close> and \<open>call_function\<close> return \<open>{error, context_destroyed}\<close>, and a
  second \<open>destroy_context\<close> returns \<open>ok\<close>; none of them changes anything.
\<close>
theorem destroyed_context_is_refused:
  assumes "get_resource V a0 = Some i" and "resources st i = Some b"
    and "nif_destroy_context E V st a0 = (st', r)"
  shows "r = Ret (atom_ok E)
    \<and> nif_eval oob E Q J V n th st' a0 a1 a2 = Some (st', Ret (error_tuple E ''context_destroyed''))
    \<and> nif_call_function oob E Q I J V n th st' a0 a1 a2 = Some (st', Ret (error_tuple E ''context_destroyed''))
    \<and> nif_destroy_context E V st' a0 = (st', Ret (atom_ok E))"
proof -
  have st': "st' = (snd (destroy_engine b st))\<lparr>resources := (resources (snd (destroy_engine b st)))(i \<mapsto> fst (destroy_engine b st))\<rparr>"
    "r = Ret (atom_ok E)"
    using assms by (auto simp: nif_destroy_context_def split: prod.splits)
  have b': "\<not> ctx (fst (destroy_engine b st))" "rt (fst (destroy_engine b st)) = None"
    by (auto simp: destroy_engine_def Let_def)
  have r': "resources st' i = Some (fst (destroy_engine b st))" by (simp add: st'(1))
  have "nif_destroy_context E V st' a0 = (st'\<lparr>resources := (resources st')(i \<mapsto> fst (destroy_engine b st))\<rparr>, Ret (atom_ok E))"
    using assms(1) r' b' by (simp add: nif_destroy_context_def destroy_engine_def [of "fst (destroy_engine b st)"])
  also have "st'\<lparr>resources := (resources st')(i \<mapsto> fst (destroy_engine b st))\<rparr> = st'"
    using r' by (simp add: fun_upd_idem)
  finally show ?thesis using st'(2) assms(1) r' b'(1) by (simp add: nif_eval_def nif_call_function_def)
qed



section \<open>Concrete runs\<close>

text \<open>A NIF API where runtimes and contexts are always created and scripts return \<open>undefined\<close>.\<close>

definition demo_links :: links where
  "demo_links = init_list_head 1 \<lparr>prv = (\<lambda>_. 0), nxt = (\<lambda>_. 0)\<rparr>"

definition demo_rt :: "jheap jrt" where
  "demo_rt = \<lparr>jlinks = demo_links, job_list = 1, entries = (\<lambda>_. None), jstate = \<lparr>heap = demo_global, owed = 0\<rparr>\<rparr>"

definition demo_nif :: "(eterm, jheap) nifapi" where
  "demo_nif = \<lparr>get_resource = (\<lambda>t. case t of EOther i \<Rightarrow> Some i | _ \<Rightarrow> None), make_resource = EOther,
     new_runtime = (\<lambda>i. Some demo_rt), new_context = (\<lambda>r. (r, True)), rt_eval = (\<lambda>src file flags r. Some (r, JUndef)),
     rt_call = (\<lambda>f this args r. Some (r, JUndef)), is_function = (\<lambda>h v. False)\<rparr>"

definition demo_nif_state :: "jheap nifstate" where
  "demo_nif_state = \<lparr>resources = [0 \<mapsto> \<lparr>rt = Some demo_rt, ctx = True, mutex = True, reply_cond = True, mem_limit = 0, max_stack = 0,
     stack_top = 0\<rparr>], next_resource = 1, live_rt = 1, live_ctx = 1, live_mutex = 1, live_cond = 1\<rparr>"

definition demo_created :: "jheap nifstate" where
  "demo_created = fst (nif_new_context beam plain_js plain_inst demo_nif 7 init_nif)"


theorem destroyed_context_is_refused_witness:
  "\<exists>st. nif_destroy_context beam demo_nif demo_created (EOther 0) = (st, Ret (EAtom (map ucast (cstr ''ok''))))
    \<and> nif_eval (\<lambda>_. 0) beam plain_js quiet_api demo_nif 3 7 st (EOther 0) (EBin [49]) (EBin [97])
        = Some (st, Ret (ETuple [EAtom (map ucast (cstr ''error'')), EAtom (map ucast (cstr ''context_destroyed''))]))"
proof -
  let ?b = "\<lparr>rt = Some (demo_rt\<lparr>jstate := install_host_functions plain_js plain_inst (jstate demo_rt)\<rparr>),
      ctx = True, mutex = True, reply_cond = True, mem_limit = 256 * 1024 * 1024, max_stack = 4 * 1024 * 1024, stack_top = 7\<rparr>"
  have b: "get_resource demo_nif (EOther 0) = Some 0" "resources demo_created 0 = Some ?b"
    by (simp_all add: demo_created_def nif_new_context_def init_nif_def demo_nif_def Let_def)
  obtain st r where d: "nif_destroy_context beam demo_nif demo_created (EOther 0) = (st, r)" by (cases "nif_destroy_context beam demo_nif demo_created (EOther 0)")
  have a: "atom_ok beam = EAtom (map ucast (cstr ''ok''))"
    "error_tuple beam ''context_destroyed'' = ETuple [EAtom (map ucast (cstr ''error'')), EAtom (map ucast (cstr ''context_destroyed''))]"
    by (simp_all add: atom_ok_def error_tuple_def atom_error_def beam_def)
  show ?thesis
    using destroyed_context_is_refused [OF b d, of "\<lambda>_. 0" plain_js quiet_api 3 7 "EBin [49]" "EBin [97]" plain_inst] d
    unfolding a by auto
qed



end
