(* ===== verification/CharRanges.thy ===== *)
theory CharRanges
  imports JSStrings
begin

text \<open>
  Character ranges of libunicode.c, which the regular expression compiler builds its classes with: a
  sorted array of points where membership starts and stops. The array grows through a reallocation
  function that may fail; union, intersection, exclusive or and complement are read as operations
  on sets of code points.
\<close>

section \<open>The growing array of points\<close>

text \<open>
  A \<open>CharRange\<close>: \<open>cr_points\<close> are the first \<open>len\<close> entries of the array, \<open>cr_size\<close> is the allocated
  number of entries and \<open>cr_heap\<close> the state of the reallocation function.
\<close>

record 'm crange =
  cr_heap :: 'm
  cr_points :: "u32 list"
  cr_size :: int

definition cr_len :: "'m crange \<Rightarrow> int" where
  "cr_len cr = int (length (cr_points cr))"

definition cr_init :: "'m \<Rightarrow> 'm crange" where
  "cr_init m = \<lparr>cr_heap = m, cr_points = [], cr_size = 0\<rparr>"

text \<open>The result is \<open>False\<close> where the C function returns -1.\<close>

definition cr_realloc :: "'m alloc \<Rightarrow> 'm crange \<Rightarrow> int \<Rightarrow> 'm crange \<times> bool" where
  "cr_realloc A cr sz =
    (if sz > cr_size cr then
       (let new_size = max sz (c_grow (cr_size cr)) in
        case A (cr_heap cr) (size_t (new_size * 4)) of
          (m, None) \<Rightarrow> (cr\<lparr>cr_heap := m\<rparr>, False)
        | (m, Some slack) \<Rightarrow> (cr\<lparr>cr_heap := m, cr_size := new_size\<rparr>, True))
     else (cr, True))"

definition cr_copy :: "'m alloc \<Rightarrow> 'm crange \<Rightarrow> 'm crange \<Rightarrow> 'm crange \<times> bool" where
  "cr_copy A cr cr1 = (case cr_realloc A cr (cr_len cr1) of
     (cr', False) \<Rightarrow> (cr', False)
   | (cr', True) \<Rightarrow> (cr'\<lparr>cr_points := cr_points cr1\<rparr>, True))"

definition cr_add_point :: "'m alloc \<Rightarrow> 'm crange \<Rightarrow> u32 \<Rightarrow> 'm crange \<times> bool" where
  "cr_add_point A cr v =
    (case (if cr_len cr \<ge> cr_size cr then cr_realloc A cr (cr_len cr + 1) else (cr, True)) of
       (cr', False) \<Rightarrow> (cr', False)
     | (cr', True) \<Rightarrow> (cr'\<lparr>cr_points := cr_points cr' @ [v]\<rparr>, True))"

definition cr_add_interval :: "'m alloc \<Rightarrow> 'm crange \<Rightarrow> u32 \<Rightarrow> u32 \<Rightarrow> 'm crange \<times> bool" where
  "cr_add_interval A cr c1 c2 =
    (case (if cr_len cr + 2 > cr_size cr then cr_realloc A cr (cr_len cr + 2) else (cr, True)) of
       (cr', False) \<Rightarrow> (cr', False)
     | (cr', True) \<Rightarrow> (cr'\<lparr>cr_points := cr_points cr' @ [c1, c2]\<rparr>, True))"

section \<open>Compression\<close>

text \<open>
  \<open>cr_compress\<close> works in place: the inner loop finds the last interval that continues the one at
  \<open>i\<close>, the outer loop writes the merged interval at \<open>k\<close>.
\<close>

function cr_run_end :: "u32 list \<Rightarrow> nat \<Rightarrow> nat" where
  "cr_run_end pt j = (if j + 3 < length pt \<and> pt ! (j + 1) = pt ! (j + 2) then cr_run_end pt (j + 2) else j)"
  by auto
termination by (relation "measure (\<lambda>(pt, j). length pt - j)") auto

declare cr_run_end.simps [simp del]

lemma cr_run_end_ge: "j \<le> cr_run_end pt j"
proof (induction pt j rule: cr_run_end.induct)
  case (1 pt j)
  then show ?case by (subst cr_run_end.simps) auto
qed

function cr_compress_loop :: "u32 list \<Rightarrow> nat \<Rightarrow> nat \<Rightarrow> u32 list \<times> nat" where
  "cr_compress_loop pt i k =
    (if i + 1 < length pt then
       if pt ! i = pt ! (i + 1) then cr_compress_loop pt (i + 2) k
       else (let j = cr_run_end pt i in cr_compress_loop (pt[k := pt ! i, k + 1 := pt ! (j + 1)]) (j + 2) (k + 2))
     else (pt, k))"
  by auto
termination
proof (relation "measure (\<lambda>(pt, i, k). length pt - i)", goal_cases)
  case (3 pt i k j)
  then show ?case using cr_run_end_ge [of i pt] by simp
qed auto

declare cr_compress_loop.simps [simp del]

definition cr_compress :: "'m crange \<Rightarrow> 'm crange" where
  "cr_compress cr = (let (pt, k) = cr_compress_loop (cr_points cr) 0 0 in cr\<lparr>cr_points := take k pt\<rparr>)"

section \<open>Set operations\<close>

datatype CharRangeOpEnum = CR_OP_UNION | CR_OP_INTER | CR_OP_XOR

text \<open>One more point of \<open>a\<close> or \<open>b\<close> in increasing order, with the indices after it.\<close>

definition cr_next_point :: "u32 list \<Rightarrow> nat \<Rightarrow> u32 list \<Rightarrow> nat \<Rightarrow> (u32 \<times> nat \<times> nat) option" where
  "cr_next_point a ai b bi =
    (if ai < length a \<and> bi < length b then
       if a ! ai < b ! bi then Some (a ! ai, ai + 1, bi)
       else if a ! ai = b ! bi then Some (a ! ai, ai + 1, bi + 1)
       else Some (b ! bi, ai, bi + 1)
     else if ai < length a then Some (a ! ai, ai + 1, bi)
     else if bi < length b then Some (b ! bi, ai, bi + 1)
     else None)"

fun cr_op_in :: "CharRangeOpEnum \<Rightarrow> bool \<Rightarrow> bool \<Rightarrow> bool" where
  "cr_op_in CR_OP_UNION x y = (x \<or> y)"
| "cr_op_in CR_OP_INTER x y = (x \<and> y)"
| "cr_op_in CR_OP_XOR x y = (x \<noteq> y)"

function cr_op_loop ::
  "'m alloc \<Rightarrow> 'm crange \<Rightarrow> u32 list \<Rightarrow> nat \<Rightarrow> u32 list \<Rightarrow> nat \<Rightarrow> CharRangeOpEnum \<Rightarrow> 'm crange \<times> bool" where
  "cr_op_loop A cr a ai b bi op =
    (case cr_next_point a ai b bi of
       None \<Rightarrow> (cr_compress cr, True)
     | Some (v, ai', bi') \<Rightarrow>
         if cr_op_in op (odd ai') (odd bi') \<noteq> odd (length (cr_points cr)) then
           (case cr_add_point A cr v of
              (cr', False) \<Rightarrow> (cr', False)
            | (cr', True) \<Rightarrow> cr_op_loop A cr' a ai' b bi' op)
         else cr_op_loop A cr a ai' b bi' op)"
  by auto
termination
  by (relation "measure (\<lambda>(A, cr, a, ai, b, bi, op). (length a - ai) + (length b - bi))")
    (auto simp: cr_next_point_def split: if_splits)

declare cr_op_loop.simps [simp del]

definition cr_op :: "'m alloc \<Rightarrow> 'm crange \<Rightarrow> u32 list \<Rightarrow> u32 list \<Rightarrow> CharRangeOpEnum \<Rightarrow> 'm crange \<times> bool" where
  "cr_op A cr a b op = cr_op_loop A cr a 0 b 0 op"

text \<open>The old array is freed after the union, by a reallocation to size 0.\<close>

definition cr_union1 :: "'m alloc \<Rightarrow> 'm crange \<Rightarrow> u32 list \<Rightarrow> 'm crange \<times> bool" where
  "cr_union1 A cr b =
    (let (cr', ok) = cr_op A (cr\<lparr>cr_points := [], cr_size := 0\<rparr>) (cr_points cr) b CR_OP_UNION in
     (cr'\<lparr>cr_heap := fst (A (cr_heap cr') 0)\<rparr>, ok))"

definition cr_union_interval :: "'m alloc \<Rightarrow> 'm crange \<Rightarrow> u32 \<Rightarrow> u32 \<Rightarrow> 'm crange \<times> bool" where
  "cr_union_interval A cr c1 c2 = cr_union1 A cr [c1, c2 + 1]"

definition cr_invert :: "'m alloc \<Rightarrow> 'm crange \<Rightarrow> 'm crange \<times> bool" where
  "cr_invert A cr = (case cr_realloc A cr (cr_len cr + 2) of
     (cr', False) \<Rightarrow> (cr', False)
   | (cr', True) \<Rightarrow> (cr_compress (cr'\<lparr>cr_points := [0] @ cr_points cr' @ [- 1]\<rparr>), True))"

section \<open>Membership\<close>

text \<open>A code point is in the set when an odd number of points are at or below it.\<close>

definition crosses :: "u32 list \<Rightarrow> u32 \<Rightarrow> bool" where
  "crosses pts c = odd (length (filter (\<lambda>p. p \<le> c) pts))"

definition set_of :: "u32 list \<Rightarrow> u32 set" where
  "set_of pts = {c. crosses pts c}"

lemma crosses_Nil [simp]: "\<not> crosses [] c"
  by (simp add: crosses_def)

lemma crosses_Cons [simp]: "crosses (p # pts) c = ((p \<le> c) \<noteq> crosses pts c)"
  by (simp add: crosses_def)

lemma crosses_append [simp]: "crosses (xs @ ys) c = (crosses xs c \<noteq> crosses ys c)"
  by (simp add: crosses_def)

lemma crosses_above: "\<forall>p \<in> set pts. c < p \<Longrightarrow> \<not> crosses pts c"
  by (induction pts) auto

lemma crosses_below: "\<forall>p \<in> set pts. p \<le> c \<Longrightarrow> crosses pts c = odd (length pts)"
  by (induction pts) auto

text \<open>The usual reading of a sorted array of pairs: a union of half-open intervals.\<close>

fun intervals :: "u32 list \<Rightarrow> (u32 \<times> u32) list" where
  "intervals (a # b # pts) = (a, b) # intervals pts"
| "intervals _ = []"

lemma sorted_crosses:
  "sorted pts \<Longrightarrow> even (length pts) \<Longrightarrow> crosses pts c \<longleftrightarrow> (\<exists>(a, b) \<in> set (intervals pts). a \<le> c \<and> c < b)"
proof (induction pts rule: intervals.induct)
  case (1 a b pts)
  have "(a \<le> c \<and> c < b) \<Longrightarrow> \<not> crosses pts c"
    using 1(2) by (intro crosses_above) auto
  moreover have "a \<le> c \<longleftrightarrow> (a \<le> c \<and> c < b) \<or> b \<le> c" using 1(2) by auto
  ultimately have "crosses (a # b # pts) c \<longleftrightarrow> (a \<le> c \<and> c < b) \<or> crosses pts c"
    using 1(2) by (auto simp: not_le)
  then show ?case using 1 by auto
qed auto

section \<open>Compression keeps the set and makes the array canonical\<close>

lemma run_end_inside: "i + 1 < length pt \<Longrightarrow> cr_run_end pt i + 1 < length pt"
proof (induction pt i rule: cr_run_end.induct)
  case (1 pt j)
  then show ?case by (subst cr_run_end.simps) auto
qed

lemma run_end_crosses:
  "i + 1 < length pt \<Longrightarrow>
    crosses (drop (i + 1) pt) c = ((pt ! (cr_run_end pt i + 1) \<le> c) \<noteq> crosses (drop (cr_run_end pt i + 2) pt) c)"
proof (induction pt i rule: cr_run_end.induct)
  case (1 pt j)
  have d: "drop (j + 1) pt = pt ! (j + 1) # drop (j + 2) pt" using 1(2) by (simp add: drop_eq_Cons_nth)
  show ?case
  proof (cases "j + 3 < length pt \<and> pt ! (j + 1) = pt ! (j + 2)")
    case True
    have e: "drop (j + 2) pt = pt ! (j + 2) # drop (j + 3) pt"
      using True Cons_nth_drop_Suc [of "j + 2" pt] by (simp add: eval_nat_numeral)
    have "crosses (drop (j + 3) pt) c = ((pt ! (cr_run_end pt (j + 2) + 1) \<le> c) \<noteq> crosses (drop (cr_run_end pt (j + 2) + 2) pt) c)"
      using 1(1) True by (simp add: eval_nat_numeral)
    moreover have "cr_run_end pt j = cr_run_end pt (j + 2)" using True by (subst cr_run_end.simps) simp
    ultimately show ?thesis unfolding d e using True by (simp, argo)
  next
    case False
    then have "cr_run_end pt j = j" by (subst cr_run_end.simps) auto
    then show ?thesis using d by simp
  qed
qed

lemma run_end_stop:
  "cr_run_end pt i + 3 < length pt \<Longrightarrow> pt ! (cr_run_end pt i + 1) \<noteq> pt ! (cr_run_end pt i + 2)"
proof (induction pt i rule: cr_run_end.induct)
  case (1 pt j)
  show ?case
  proof (cases "j + 3 < length pt \<and> pt ! (j + 1) = pt ! (j + 2)")
    case True
    then have "cr_run_end pt j = cr_run_end pt (j + 2)" by (subst cr_run_end.simps) simp
    then show ?thesis using 1 True by simp
  next
    case False
    then have "cr_run_end pt j = j" by (subst cr_run_end.simps) auto
    then show ?thesis using False 1(2) by auto
  qed
qed

lemma run_end_even: "even (cr_run_end pt i - i)"
proof (induction pt i rule: cr_run_end.induct)
  case (1 pt j)
  then show ?case using cr_run_end_ge [of "j + 2" pt] by (subst cr_run_end.simps) (auto simp: even_diff_nat)
qed

lemma take_update_pair:
  "k + 1 < length pt \<Longrightarrow> take (k + 2) (pt[k := x, k + 1 := y]) = take k pt @ [x, y]"
  by (intro nth_equalityI) (auto simp: nth_append nth_list_update less_Suc_eq split: nat_diff_split)

lemma sorted_gap: "sorted xs \<Longrightarrow> i < j \<Longrightarrow> j < length xs \<Longrightarrow> xs ! i \<le> (xs ! j :: 'a :: linorder)"
  by (simp add: sorted_iff_nth_mono)

text \<open>The part written so far and the part still to read make up the set; the former is strictly sorted.\<close>

definition packed :: "u32 list \<Rightarrow> u32 list \<Rightarrow> nat \<Rightarrow> nat \<Rightarrow> bool" where
  "packed orig pt i k \<longleftrightarrow> length pt = length orig \<and> k \<le> i \<and> i \<le> length orig \<and> even i \<and> even k \<and> drop i pt = drop i orig
     \<and> (\<forall>c. (crosses (take k pt) c \<noteq> crosses (drop i orig) c) = crosses orig c)
     \<and> sorted_wrt (<) (take k pt) \<and> (i + 1 < length orig \<longrightarrow> (\<forall>x \<in> set (take k pt). x < orig ! i))"

lemma packed_skip:
  assumes p: "packed orig pt i k" and s: "sorted orig" and i: "i + 1 < length pt" and e: "pt ! i = pt ! (i + 1)"
  shows "packed orig pt (i + 2) k"
proof -
  have l: "length pt = length orig" and d: "drop i pt = drop i orig" using p by (simp_all add: packed_def)
  have n: "pt ! i = orig ! i" "pt ! (i + 1) = orig ! (i + 1)"
    using d i l nth_drop [of i pt 0] nth_drop [of i orig 0] nth_drop [of i pt 1] nth_drop [of i orig 1] by simp_all
  have c: "drop i orig = orig ! i # orig ! (i + 1) # drop (i + 2) orig" using i l by (simp add: drop_eq_Cons_nth)
  have "drop (i + 2) pt = drop (i + 2) orig" using arg_cong [OF d, of "drop 2"] by (simp add: add.commute)
  moreover have "x < orig ! (i + 2)" if "i + 3 < length orig" "x \<in> set (take k pt)" for x
  proof -
    have "x < orig ! i" using p that i l by (simp add: packed_def)
    also have "orig ! i \<le> orig ! (i + 2)" using sorted_gap [OF s, of i "i + 2"] that by simp
    finally show ?thesis .
  qed
  ultimately show ?thesis using p i l e n c unfolding packed_def by (auto simp: eval_nat_numeral) (simp add: numeral_2_eq_2 [symmetric])
qed

lemma packed_copy:
  assumes p: "packed orig pt i k" and s: "sorted orig" and i: "i + 1 < length pt" and e: "pt ! i \<noteq> pt ! (i + 1)"
  shows "packed orig (pt[k := pt ! i, k + 1 := pt ! (cr_run_end pt i + 1)]) (cr_run_end pt i + 2) (k + 2)"
proof -
  let ?j = "cr_run_end pt i" and ?pt = "pt[k := pt ! i, k + 1 := pt ! (cr_run_end pt i + 1)]"
  have l: "length pt = length orig" and d: "drop i pt = drop i orig" and k: "k \<le> i" using p by (simp_all add: packed_def)
  have n: "pt ! x = orig ! x" if "i \<le> x" for x
    using that i l nth_drop [of i pt "x - i"] nth_drop [of i orig "x - i"] unfolding d by simp
  have j: "i \<le> ?j" "?j + 1 < length orig" using cr_run_end_ge run_end_inside [OF i] l by simp_all
  have dd: "drop (?j + 2) pt = drop (?j + 2) orig"
    using arg_cong [OF d, of "drop (?j + 2 - i)"] j(1) by simp
  have d': "drop (?j + 2) ?pt = drop (?j + 2) orig" using k j(1) dd by (simp add: drop_update_swap)
  have t: "take (k + 2) ?pt = take k pt @ [pt ! i, pt ! (?j + 1)]" using take_update_pair [of k pt] k i by simp
  have lt: "pt ! i < pt ! (?j + 1)"
  proof -
    have "pt ! i \<le> pt ! (i + 1)" using sorted_gap [OF s, of i "i + 1"] i l n by simp
    moreover have "pt ! (i + 1) \<le> pt ! (?j + 1)" using sorted_nth_mono [OF s, of "i + 1" "?j + 1"] j n by simp
    ultimately show ?thesis using e by simp
  qed
  have before: "\<forall>x \<in> set (take k pt). x < pt ! i" using p i l n unfolding packed_def by simp
  have cr: "crosses (drop i orig) c = ((pt ! i \<le> c) \<noteq> ((pt ! (?j + 1) \<le> c) \<noteq> crosses (drop (?j + 2) orig) c))" for c
  proof -
    have "drop i orig = pt ! i # drop (i + 1) pt" using d i by (metis Suc_eq_plus1 add_lessD1 drop_eq_Cons_nth)
    then show ?thesis using run_end_crosses [OF i, of c] dd by simp
  qed
  have "(crosses (take (k + 2) ?pt) c \<noteq> crosses (drop (?j + 2) orig) c) = crosses orig c" for c
    using p cr [of c] unfolding t packed_def crosses_append by auto
  moreover have "sorted_wrt (<) (take (k + 2) ?pt)"
    using p before lt less_trans [OF _ lt] unfolding t packed_def by (auto simp: sorted_wrt_append)
  moreover have "x < orig ! (?j + 2)" if "?j + 3 < length orig" "x \<in> set (take (k + 2) ?pt)" for x
  proof -
    have "pt ! (?j + 1) \<noteq> pt ! (?j + 2)" using run_end_stop [of pt i] that(1) l by simp
    then have "pt ! (?j + 1) < orig ! (?j + 2)" using sorted_gap [OF s, of "?j + 1" "?j + 2"] that(1) n [of "?j + 1"] n [of "?j + 2"] j(1) by simp
    then show ?thesis using that(2) before lt unfolding t by fastforce
  qed
  moreover have "even ?j" using run_end_even [of pt i] j(1) p by (simp add: packed_def even_diff_nat)
  ultimately show ?thesis using p d' j k l unfolding packed_def by (simp add: eval_nat_numeral) (simp add: numeral_2_eq_2 [symmetric])
qed

lemma compress_loop_packed:
  "packed orig pt i k \<Longrightarrow> sorted orig \<Longrightarrow> even (length orig) \<Longrightarrow> cr_compress_loop pt i k = (pt', k') \<Longrightarrow>
    packed orig pt' (length orig) k'"
proof (induction pt i k rule: cr_compress_loop.induct)
  case (1 pt i k)
  show ?case
  proof (cases "i + 1 < length pt")
    case True
    then show ?thesis
      using 1(1,2) 1(3-6) packed_skip [OF 1(3,4) True] packed_copy [OF 1(3,4) True]
      by (subst (asm) (3) cr_compress_loop.simps) (auto simp: Let_def split: if_splits)
  next
    case False
    have e: "length pt = length orig" "even i" using 1(3) by (simp_all add: packed_def)
    have le: "i \<le> length orig" using 1(3) by (simp add: packed_def)
    have "length orig = i"
    proof (rule ccontr)
      assume "length orig \<noteq> i"
      then have "length orig = i + 1" using le False e(1) by simp
      then show False using e(2) 1(5) by simp
    qed
    then show ?thesis using 1(3,6) False by (subst (asm) cr_compress_loop.simps) auto
  qed
qed

text \<open>Compression of a sorted array: the same set, strictly sorted points.\<close>

lemma cr_compress_spec:
  assumes "sorted (cr_points cr)" "even (length (cr_points cr))"
  shows "set_of (cr_points (cr_compress cr)) = set_of (cr_points cr)" "sorted_wrt (<) (cr_points (cr_compress cr))"
    "even (length (cr_points (cr_compress cr)))"
proof -
  obtain pt k where r: "cr_compress_loop (cr_points cr) 0 0 = (pt, k)" by (cases "cr_compress_loop (cr_points cr) 0 0")
  have "packed (cr_points cr) (cr_points cr) 0 0" by (simp add: packed_def)
  from compress_loop_packed [OF this assms r] have p: "packed (cr_points cr) pt (length (cr_points cr)) k" .
  then show "set_of (cr_points (cr_compress cr)) = set_of (cr_points cr)" "sorted_wrt (<) (cr_points (cr_compress cr))"
    "even (length (cr_points (cr_compress cr)))"
    using r by (auto simp: packed_def cr_compress_def set_of_def min_def)
qed

section \<open>The set operations\<close>

lemma cr_realloc_points [simp]: "cr_points (fst (cr_realloc A cr sz)) = cr_points cr"
  by (simp add: cr_realloc_def Let_def split: prod.split option.split)

lemma cr_realloc_eq: "cr_realloc A cr sz = (cr', r) \<Longrightarrow> cr_points cr' = cr_points cr"
  using cr_realloc_points [of A cr sz] by simp

lemma cr_add_point_eq: "cr_add_point A cr v = (cr', True) \<Longrightarrow> cr_points cr' = cr_points cr @ [v]"
  by (auto simp: cr_add_point_def split: prod.splits if_splits bool.splits dest: cr_realloc_eq)

fun set_op :: "CharRangeOpEnum \<Rightarrow> u32 set \<Rightarrow> u32 set \<Rightarrow> u32 set" where
  "set_op CR_OP_UNION X Y = X \<union> Y"
| "set_op CR_OP_INTER X Y = X \<inter> Y"
| "set_op CR_OP_XOR X Y = (X - Y) \<union> (Y - X)"

lemma set_of_op: "\<forall>c. crosses p c = cr_op_in op (crosses a c) (crosses b c) \<Longrightarrow> set_of p = set_op op (set_of a) (set_of b)"
  by (cases op) (auto simp: set_of_def)

text \<open>
  While merging, the points written so far stand for the operation on the points consumed so far,
  and everything consumed or written is at or below what remains.
\<close>

definition merging :: "CharRangeOpEnum \<Rightarrow> u32 list \<Rightarrow> nat \<Rightarrow> u32 list \<Rightarrow> nat \<Rightarrow> u32 list \<Rightarrow> bool" where
  "merging op a ai b bi p \<longleftrightarrow> ai \<le> length a \<and> bi \<le> length b \<and> sorted p
     \<and> odd (length p) = cr_op_in op (odd ai) (odd bi)
     \<and> (\<forall>c. crosses p c = cr_op_in op (crosses (take ai a) c) (crosses (take bi b) c))
     \<and> (\<forall>x \<in> set p \<union> set (take ai a) \<union> set (take bi b). \<forall>y \<in> set (drop ai a) \<union> set (drop bi b). x \<le> y)"

lemma next_point_cases:
  assumes "cr_next_point a ai b bi = Some (v, ai', bi')" "sorted a" "sorted b"
  shows "v \<in> set (drop ai a) \<union> set (drop bi b) \<and> (\<forall>y \<in> set (drop ai' a) \<union> set (drop bi' b). v \<le> y)
    \<and> (take ai' a = take ai a \<and> ai' = ai \<or> take ai' a = take ai a @ [v] \<and> ai' = Suc ai \<and> ai < length a)
    \<and> (take bi' b = take bi b \<and> bi' = bi \<or> take bi' b = take bi b @ [v] \<and> bi' = Suc bi \<and> bi < length b)
    \<and> (ai' \<noteq> ai \<or> bi' \<noteq> bi)
    \<and> set (drop ai' a) \<subseteq> set (drop ai a) \<and> set (drop bi' b) \<subseteq> set (drop bi b)"
proof -
  have n: "drop i xs = xs ! i # drop (Suc i) xs" "\<forall>y \<in> set (drop i xs). xs ! i \<le> y" "take (Suc i) xs = take i xs @ [xs ! i]"
    if "i < length xs" "sorted xs" for i and xs :: "u32 list"
  proof -
    show d: "drop i xs = xs ! i # drop (Suc i) xs" "take (Suc i) xs = take i xs @ [xs ! i]"
      using that by (simp_all add: drop_eq_Cons_nth take_Suc_snoc)
    have "sorted (drop i xs)" using that by (simp add: sorted_wrt_drop)
    then show "\<forall>y \<in> set (drop i xs). xs ! i \<le> y" unfolding d by simp
  qed
  have sub: "set (drop (Suc i) xs) \<subseteq> set (drop i xs)" for i and xs :: "u32 list"
    by (simp add: set_drop_subset_set_drop)
  have up: "\<forall>y \<in> set (drop j ys). x \<le> y" if "x \<le> ys ! j" "\<forall>y \<in> set (drop j ys). ys ! j \<le> y" for x j and ys :: "u32 list"
    using that by (meson order_trans)
  have sk: "\<forall>y \<in> set (drop (Suc j) ys). x \<le> y" if "\<forall>y \<in> set (drop j ys). x \<le> y" for x j and ys :: "u32 list"
    using that sub by blast
  consider (a) "ai < length a" "v = a ! ai" "ai' = Suc ai" "bi' = bi" "bi < length b \<longrightarrow> a ! ai \<le> b ! bi"
    | (ab) "ai < length a" "bi < length b" "v = a ! ai" "v = b ! bi" "ai' = Suc ai" "bi' = Suc bi"
    | (b) "bi < length b" "v = b ! bi" "ai' = ai" "bi' = Suc bi" "ai < length a \<longrightarrow> b ! bi \<le> a ! ai"
    using assms(1) unfolding cr_next_point_def by (auto split: if_splits)
  then show ?thesis
  proof cases
    case a
    have "\<forall>y \<in> set (drop bi b). v \<le> y" using a(2,5) up n(2) [OF _ assms(3)] by (cases "bi < length b") auto
    then show ?thesis using a n [OF a(1) assms(2)] sub by auto
  next
    case ab
    have "\<forall>y \<in> set (drop ai' a). v \<le> y" "\<forall>y \<in> set (drop bi' b). v \<le> y"
      using sk n(2) [OF ab(1) assms(2)] n(2) [OF ab(2) assms(3)] ab(3-6) by auto
    then show ?thesis using ab n(1,3) [OF ab(1) assms(2)] n(1,3) [OF ab(2) assms(3)] sub by auto
  next
    case b
    have "\<forall>y \<in> set (drop ai a). v \<le> y" using b(2,5) up n(2) [OF _ assms(2)] by (cases "ai < length a") auto
    then show ?thesis using b n [OF b(1) assms(3)] sub by auto
  qed
qed

lemma crosses_all_below: "\<forall>x \<in> set p. x \<le> v \<Longrightarrow> v \<le> c \<Longrightarrow> crosses p c = odd (length p)"
  by (rule crosses_below) (auto intro: order_trans)

lemma merging_step:
  assumes m: "merging op a ai b bi p" and n: "cr_next_point a ai b bi = Some (v, ai', bi')" and s: "sorted a" "sorted b"
    and p': "p' = (if cr_op_in op (odd ai') (odd bi') \<noteq> odd (length p) then p @ [v] else p)"
  shows "merging op a ai' b bi' p'"
proof -
  note nc = next_point_cases [OF n s]
  have le: "\<forall>x \<in> set p \<union> set (take ai a) \<union> set (take bi b). x \<le> v"
    using m nc unfolding merging_def by blast
  have le': "\<forall>x \<in> set p' \<union> set (take ai' a) \<union> set (take bi' b). x \<le> v"
  proof -
    have "set p' \<subseteq> insert v (set p)" by (auto simp: p')
    moreover have "set (take ai' a) \<subseteq> insert v (set (take ai a))" "set (take bi' b) \<subseteq> insert v (set (take bi b))"
      using nc by (elim conjE disjE; simp add: subset_insertI)+
    ultimately show ?thesis using le by blast
  qed
  have len: "ai' \<le> length a" "bi' \<le> length b" using m nc by (auto simp: merging_def)
  have par: "odd (length p') = cr_op_in op (odd ai') (odd bi')" by (auto simp: p')
  have "crosses p' c = cr_op_in op (crosses (take ai' a) c) (crosses (take bi' b) c)" for c
  proof (cases "v \<le> c")
    case True
    then show ?thesis using crosses_all_below [OF _ True] le' par len by (simp add: min_def)
  next
    case False
    then have "crosses p' c = crosses p c" "crosses (take ai' a) c = crosses (take ai a) c"
      "crosses (take bi' b) c = crosses (take bi b) c"
    proof -
      show "crosses p' c = crosses p c" using False by (simp add: p')
      have "take ai' a = take ai a \<or> take ai' a = take ai a @ [v]" "take bi' b = take bi b \<or> take bi' b = take bi b @ [v]"
        using nc by blast+
      then show "crosses (take ai' a) c = crosses (take ai a) c" "crosses (take bi' b) c = crosses (take bi b) c"
        using False by auto
    qed
    then show ?thesis using m by (simp add: merging_def)
  qed
  moreover have "sorted p'" using m le by (auto simp: p' merging_def sorted_append)
  moreover have "\<forall>x \<in> set p' \<union> set (take ai' a) \<union> set (take bi' b). \<forall>y \<in> set (drop ai' a) \<union> set (drop bi' b). x \<le> y"
  proof (intro ballI)
    fix x y assume "x \<in> set p' \<union> set (take ai' a) \<union> set (take bi' b)" "y \<in> set (drop ai' a) \<union> set (drop bi' b)"
    then have "x \<le> v" "v \<le> y" using le' nc by blast+
    then show "x \<le> y" by (rule order_trans)
  qed
  ultimately show ?thesis using par len by (simp add: merging_def)
qed

lemma cr_op_loop_spec:
  "cr_op_loop A cr a ai b bi op = (cr', True) \<Longrightarrow> merging op a ai b bi (cr_points cr) \<Longrightarrow> sorted a \<Longrightarrow> sorted b \<Longrightarrow>
    even (length a) \<Longrightarrow> even (length b) \<Longrightarrow>
    set_of (cr_points cr') = set_op op (set_of a) (set_of b) \<and> sorted_wrt (<) (cr_points cr') \<and> even (length (cr_points cr'))"
proof (induction A cr a ai b bi op rule: cr_op_loop.induct)
  case (1 A cr a ai b bi op)
  show ?case
  proof (cases "cr_next_point a ai b bi")
    case None
    then have e: "ai \<ge> length a" "bi \<ge> length b" by (auto simp: cr_next_point_def not_less split: if_splits)
    then have t: "ai = length a" "bi = length b" using 1(4) by (simp_all add: merging_def)
    have "sorted (cr_points cr)" "even (length (cr_points cr))"
      using 1(4,7,8) unfolding t merging_def by (cases op; simp)+
    moreover have "set_of (cr_points cr) = set_op op (set_of a) (set_of b)"
      using 1(4) unfolding t merging_def by (intro set_of_op) simp
    moreover have "cr' = cr_compress cr" using 1(3) None by (subst (asm) cr_op_loop.simps) simp
    ultimately show ?thesis using cr_compress_spec by blast
  next
    case (Some x)
    obtain v ai' bi' where x: "x = (v, ai', bi')" by (cases x)
    note n = Some [unfolded x]
    note step = merging_step [OF 1(4) n 1(5,6) refl]
    show ?thesis
    proof (cases "cr_op_in op (odd ai') (odd bi') \<noteq> odd (length (cr_points cr))")
      case True
      then obtain cr1 where cr1: "cr_add_point A cr v = (cr1, True)" "cr_op_loop A cr1 a ai' b bi' op = (cr', True)"
        using 1(3) n by (subst (asm) cr_op_loop.simps) (auto split: prod.splits bool.splits)
      show ?thesis
        using 1(1) [OF n refl refl True cr1(1) [symmetric] _ cr1(2) _ 1(5-8)] step True cr_add_point_eq [OF cr1(1)] by simp
    next
      case False
      then have "cr_op_loop A cr a ai' b bi' op = (cr', True)" using 1(3) n by (subst (asm) cr_op_loop.simps) simp
      then show ?thesis using 1(2) [OF n refl refl False _ _ 1(5-8)] step False by simp
    qed
  qed
qed

lemma cr_op_spec:
  assumes "cr_op A (cr\<lparr>cr_points := []\<rparr>) a b op = (cr', True)" "sorted a" "sorted b" "even (length a)" "even (length b)"
  shows "set_of (cr_points cr') = set_op op (set_of a) (set_of b) \<and> sorted_wrt (<) (cr_points cr') \<and> even (length (cr_points cr'))"
  by (rule cr_op_loop_spec [OF assms(1) [unfolded cr_op_def] _ assms(2-5)]) (cases op; simp add: merging_def)

lemma strict_sorted: "sorted_wrt (<) xs \<Longrightarrow> sorted (xs :: u32 list)"
  by (rule sorted_wrt_mono_rel [of _ "(<)"]) simp_all

lemma cr_invert_spec:
  assumes "cr_invert A cr = (cr', True)" "sorted (cr_points cr)" "even (length (cr_points cr))"
  shows "set_of (cr_points cr') - {- 1} = - set_of (cr_points cr) - {- 1} \<and> sorted_wrt (<) (cr_points cr')
    \<and> even (length (cr_points cr'))"
proof -
  obtain cr1 where c: "cr' = cr_compress (cr1\<lparr>cr_points := [0] @ cr_points cr @ [- 1]\<rparr>)"
    using assms(1) by (auto simp: cr_invert_def split: prod.splits bool.splits dest: cr_realloc_eq)
  let ?p = "[0] @ cr_points cr @ [- 1] :: u32 list"
  have max: "x \<le> (- 1 :: u32)" for x by (rule word_n1_ge)
  have "sorted ?p" using assms(2) max by (auto simp: sorted_append)
  moreover have "set_of ?p - {- 1} = - set_of (cr_points cr) - {- 1}"
    using max by (auto simp: set_of_def dest: antisym)
  ultimately show ?thesis using cr_compress_spec [of "cr1\<lparr>cr_points := ?p\<rparr>"] assms(3) unfolding c by simp
qed

lemma set_of_pair: "a \<le> b \<Longrightarrow> set_of [a, b] = {a..<b}"
  by (auto simp: set_of_def not_le)

text \<open>The operations only fail where the reallocation function does.\<close>

lemma cr_realloc_total: "snd (cr_realloc A cr sz) \<or> refuses A"
  unfolding cr_realloc_def Let_def refuses_def by (auto split: prod.split option.split) (metis snd_conv)

lemma cr_add_point_total: "snd (cr_add_point A cr v) \<or> refuses A"
  using cr_realloc_total [of A cr] by (auto simp: cr_add_point_def split: prod.splits bool.splits) (metis snd_conv)

lemma cr_op_loop_total: "snd (cr_op_loop A cr a ai b bi op) \<or> refuses A"
proof (induction A cr a ai b bi op rule: cr_op_loop.induct)
  case (1 A cr a ai b bi op)
  show ?case
  proof (cases "cr_next_point a ai b bi")
    case (Some x)
    obtain v ai' bi' where x: "x = (v, ai', bi')" by (cases x)
    obtain cr1 r where r: "cr_add_point A cr v = (cr1, r)" by (cases "cr_add_point A cr v")
    have "r \<or> refuses A" using cr_add_point_total [of A cr v] r by simp
    then show ?thesis
      using 1(1) [OF Some [unfolded x] refl refl _ r [symmetric]] 1(2) [OF Some [unfolded x] refl refl] Some r
      by (subst cr_op_loop.simps) (auto simp: x)
  qed (subst cr_op_loop.simps, simp)
qed

lemma cr_op_total: "snd (cr_op A cr a b op) \<or> refuses A"
  by (simp add: cr_op_def cr_op_loop_total)

lemma cr_invert_total: "snd (cr_invert A cr) \<or> refuses A"
  using cr_realloc_total [of A cr "cr_len cr + 2"] by (auto simp: cr_invert_def split: prod.splits bool.splits)

section \<open>Properties of character ranges\<close>

text \<open>
  C33. \<open>cr_op\<close> on sorted arrays computes the union, the intersection or the symmetric difference of
  the sets they stand for, unless an allocation fails. Its result is canonical: strictly increasing
  points, so that no interval is empty and no two touch.
\<close>
theorem cr_op_computes_sets:
  assumes "\<not> refuses A" and "sorted a" and "sorted b" and "even (length a)" and "even (length b)"
  shows "\<exists>cr'. cr_op A (cr_init m) a b op = (cr', True) \<and> set_of (cr_points cr') = set_op op (set_of a) (set_of b)
    \<and> sorted_wrt (<) (cr_points cr') \<and> even (length (cr_points cr'))"
proof -
  obtain cr' where "cr_op A (cr_init m) a b op = (cr', True)"
    using cr_op_total [of A "cr_init m" a b op] assms(1) by (cases "cr_op A (cr_init m) a b op") simp
  then show ?thesis using cr_op_spec [OF _ assms(2-5), of A "cr_init m" op cr'] by (simp add: cr_init_def)
qed

text \<open>
  \<open>cr_invert\<close> complements the set on every code point below the largest 32-bit number, unless
  the allocation fails, and keeps the array canonical.
\<close>
theorem cr_invert_complements:
  assumes "\<not> refuses A" and "sorted (cr_points cr)" and "even (length (cr_points cr))"
  shows "\<exists>cr'. cr_invert A cr = (cr', True) \<and> set_of (cr_points cr') - {- 1} = - set_of (cr_points cr) - {- 1}
    \<and> sorted_wrt (<) (cr_points cr') \<and> even (length (cr_points cr'))"
proof -
  obtain cr' where "cr_invert A cr = (cr', True)"
    using cr_invert_total [of A cr] assms(1) by (cases "cr_invert A cr") simp
  then show ?thesis using cr_invert_spec [OF _ assms(2,3)] by blast
qed

theorem cr_op_computes_sets_witness:
  "\<exists>cr'. cr_op plenty (cr_init ()) [10, 20, 30, 40] [15, 30] CR_OP_UNION = (cr', True) \<and> set_of (cr_points cr') = {10..<40}"
proof -
  have s: "sorted [10, 20, 30, 40 :: u32]" "sorted [15, 30 :: u32]" by simp_all
  have "set_of [10, 20, 30, 40] = {10..<20} \<union> {30..<40 :: u32}"
    by (rule set_eqI) (simp add: set_of_def sorted_crosses [OF s(1)] del: crosses_Cons)
  moreover have "set_of [15, 30] = {15..<30 :: u32}" by (rule set_of_pair) simp
  moreover have "{10..<20} \<union> {30..<40} \<union> {15..<30} = {10..<40 :: u32}"
    by (rule set_eqI) (simp add: word_less_nat_alt word_le_nat_alt, arith)
  ultimately show ?thesis using cr_op_computes_sets [OF plenty_serves s, of "()" CR_OP_UNION] by auto
qed

theorem cr_invert_complements_witness:
  "\<exists>cr'. cr_invert plenty \<lparr>cr_heap = (), cr_points = [10, 20], cr_size = 2\<rparr> = (cr', True) \<and> 5 \<in> set_of (cr_points cr')"
proof -
  let ?c = "\<lparr>cr_heap = (), cr_points = [10, 20 :: u32], cr_size = 2\<rparr>"
  have "5 \<in> - set_of (cr_points ?c) - {- 1}" by (simp add: set_of_def)
  moreover have "sorted (cr_points ?c)" "even (length (cr_points ?c))" by simp_all
  ultimately show ?thesis using cr_invert_complements [OF plenty_serves, of ?c] by blast
qed

end
