(* ===== verification/Rqsort.thy ===== *)
theory Rqsort
  imports Bridge_Prelude "HOL-Library.Multiset"
begin

text \<open>
  The sorting routine of cutils.c that the engine uses instead of \<open>qsort\<close>: exchange functions chosen
  by alignment, a heap sort, and an introspective quicksort with three-way partition and an explicit
  stack of 50 entries.
\<close>

section \<open>Exchanging memory\<close>

text \<open>A load or store of \<open>w\<close> bytes; a machine word in memory is the list of its bytes.\<close>

definition load :: "nat \<Rightarrow> u8 list \<Rightarrow> nat \<Rightarrow> u8 list" where
  "load w mem a = take w (drop a mem)"

definition store :: "u8 list \<Rightarrow> nat \<Rightarrow> u8 list \<Rightarrow> u8 list" where
  "store mem a v = take a mem @ v @ drop (a + length v) mem"

text \<open>\<open>t = *ap; *ap = *bp; *bp = t\<close> on words of \<open>w\<close> bytes, and \<open>n\<close> of them from low to high addresses.\<close>

definition exchange_word :: "nat \<Rightarrow> u8 list \<Rightarrow> nat \<Rightarrow> nat \<Rightarrow> u8 list" where
  "exchange_word w mem a b = (let t = load w mem a in store (store mem a (load w mem b)) b t)"

fun exchange_words :: "nat \<Rightarrow> nat \<Rightarrow> u8 list \<Rightarrow> nat \<Rightarrow> nat \<Rightarrow> u8 list" where
  "exchange_words w 0 mem a b = mem"
| "exchange_words w (Suc n) mem a b = exchange_words w n (exchange_word w mem a b) (a + w) (b + w)"

type_synonym exchange_f = "u8 list \<Rightarrow> nat \<Rightarrow> nat \<Rightarrow> nat \<Rightarrow> u8 list"

definition exchange_bytes :: exchange_f where
  "exchange_bytes mem a b sz = exchange_words 1 sz mem a b"

definition exchange_one_byte :: exchange_f where
  "exchange_one_byte mem a b sz = exchange_word 1 mem a b"

definition exchange_int16s :: exchange_f where
  "exchange_int16s mem a b sz = exchange_words 2 (sz div 2) mem a b"

definition exchange_one_int16 :: exchange_f where
  "exchange_one_int16 mem a b sz = exchange_word 2 mem a b"

definition exchange_int32s :: exchange_f where
  "exchange_int32s mem a b sz = exchange_words 4 (sz div 4) mem a b"

definition exchange_one_int32 :: exchange_f where
  "exchange_one_int32 mem a b sz = exchange_word 4 mem a b"

definition exchange_int64s :: exchange_f where
  "exchange_int64s mem a b sz = exchange_words 8 (sz div 8) mem a b"

definition exchange_one_int64 :: exchange_f where
  "exchange_one_int64 mem a b sz = exchange_word 8 mem a b"

text \<open>Two words at a time: both are read before the four stores.\<close>

definition exchange_one_int128 :: exchange_f where
  "exchange_one_int128 mem a b sz =
    (let t = load 8 mem a; u = load 8 mem (a + 8);
         m1 = store mem a (load 8 mem b); m2 = store m1 (a + 8) (load 8 m1 (b + 8));
         m3 = store m2 b t in
     store m3 (b + 8) u)"

fun exchange_pairs :: "nat \<Rightarrow> u8 list \<Rightarrow> nat \<Rightarrow> nat \<Rightarrow> u8 list" where
  "exchange_pairs 0 mem a b = mem"
| "exchange_pairs (Suc n) mem a b = exchange_pairs n (exchange_one_int128 mem a b 16) (a + 16) (b + 16)"

definition exchange_int128s :: exchange_f where
  "exchange_int128s mem a b sz = exchange_pairs (sz div 16) mem a b"

definition exchange_func :: "nat \<Rightarrow> nat \<Rightarrow> exchange_f" where
  "exchange_func base sz =
    (let k = (base OR sz) AND 15 in
     if k = 0 then (if sz = 16 then exchange_one_int128 else exchange_int128s)
     else if k = 8 then (if sz = 8 then exchange_one_int64 else exchange_int64s)
     else if k = 4 \<or> k = 12 then (if sz = 4 then exchange_one_int32 else exchange_int32s)
     else if k = 2 \<or> k = 6 \<or> k = 10 \<or> k = 14 then (if sz = 2 then exchange_one_int16 else exchange_int16s)
     else if sz = 1 then exchange_one_byte else exchange_bytes)"

section \<open>Sorting\<close>

text \<open>
  From here on the array is the list of its elements: the pointer \<open>base + k * size\<close> is the index \<open>k\<close>,
  and a function that is given a pointer and a count works on that segment of the array.
\<close>

type_synonym 'a cmp_f = "'a \<Rightarrow> 'a \<Rightarrow> int"

definition swap_elts :: "'a list \<Rightarrow> nat \<Rightarrow> nat \<Rightarrow> 'a list" where
  "swap_elts xs a b = xs[a := xs ! b, b := xs ! a]"

fun swap_block :: "'a list \<Rightarrow> nat \<Rightarrow> nat \<Rightarrow> nat \<Rightarrow> 'a list" where
  "swap_block xs i j 0 = xs"
| "swap_block xs i j (Suc n) = swap_block (swap_elts xs i j) (Suc i) (Suc j) n"

text \<open>The loop over \<open>r\<close> and \<open>c\<close> of \<open>heapsortx\<close>, on a heap of \<open>n\<close> elements.\<close>

function sift :: "'a cmp_f \<Rightarrow> 'a list \<Rightarrow> nat \<Rightarrow> nat \<Rightarrow> 'a list" where
  "sift cmp xs r n =
    (let c = r * 2 + 1 in
     if c < n then
       (let c' = (if c < n - 1 \<and> cmp (xs ! c) (xs ! (c + 1)) \<le> 0 then c + 1 else c) in
        if cmp (xs ! r) (xs ! c') > 0 then xs else sift cmp (swap_elts xs r c') c' n)
     else xs)"
  by auto
termination by (relation "measure (\<lambda>(cmp, xs, r, n). n - r)") auto

declare sift.simps [simp del]

fun heap_build :: "'a cmp_f \<Rightarrow> 'a list \<Rightarrow> nat \<Rightarrow> nat \<Rightarrow> 'a list" where
  "heap_build cmp xs 0 n = xs"
| "heap_build cmp xs (Suc i) n = heap_build cmp (sift cmp xs i n) i n"

fun heap_pop :: "'a cmp_f \<Rightarrow> 'a list \<Rightarrow> nat \<Rightarrow> 'a list" where
  "heap_pop cmp xs 0 = xs"
| "heap_pop cmp xs (Suc i) = heap_pop cmp (sift cmp (swap_elts xs 0 (Suc i)) 0 (Suc i)) i"

definition heapsortx :: "'a cmp_f \<Rightarrow> 'a list \<Rightarrow> 'a list" where
  "heapsortx cmp xs = (let n = length xs in
     if n > 1 then heap_pop cmp (heap_build cmp xs (n div 2) n) (n - 1) else xs)"

definition med3 :: "'a cmp_f \<Rightarrow> 'a list \<Rightarrow> nat \<Rightarrow> nat \<Rightarrow> nat \<Rightarrow> nat" where
  "med3 cmp xs a b c =
    (if cmp (xs ! a) (xs ! b) < 0
     then (if cmp (xs ! b) (xs ! c) < 0 then b else if cmp (xs ! a) (xs ! c) < 0 then c else a)
     else (if cmp (xs ! b) (xs ! c) > 0 then b else if cmp (xs ! a) (xs ! c) < 0 then a else c))"

text \<open>
  The two scans of the partition loop. The indices \<open>i\<close> and \<open>lt\<close> stand for the pointers \<open>pi\<close> and \<open>plt\<close>
  too, \<open>gt\<close> and \<open>j\<close> for \<open>pgt\<close> and \<open>pj\<close>; the pivot is element 0.
\<close>

function scan_left :: "'a cmp_f \<Rightarrow> 'a list \<Rightarrow> nat \<Rightarrow> nat \<Rightarrow> nat \<Rightarrow> 'a list \<times> nat \<times> nat" where
  "scan_left cmp xs lt i j =
    (if i < j \<and> cmp (xs ! 0) (xs ! i) \<ge> 0 then
       (if cmp (xs ! 0) (xs ! i) = 0 then scan_left cmp (swap_elts xs lt i) (lt + 1) (i + 1) j
        else scan_left cmp xs lt (i + 1) j)
     else (xs, lt, i))"
  by auto
termination by (relation "measure (\<lambda>(cmp, xs, lt, i, j). j - i)") auto

declare scan_left.simps [simp del]

function scan_right :: "'a cmp_f \<Rightarrow> 'a list \<Rightarrow> nat \<Rightarrow> nat \<Rightarrow> nat \<Rightarrow> 'a list \<times> nat \<times> nat" where
  "scan_right cmp xs gt i j =
    (let j1 = j - 1 in
     if i < j1 \<and> cmp (xs ! 0) (xs ! j1) \<le> 0 then
       (if cmp (xs ! 0) (xs ! j1) = 0 then scan_right cmp (swap_elts xs (gt - 1) j1) (gt - 1) i j1
        else scan_right cmp xs gt i j1)
     else (xs, gt, j1))"
  by auto
termination by (relation "measure (\<lambda>(cmp, xs, gt, i, j). j)") auto

declare scan_right.simps [simp del]

lemma scan_right_down: "scan_right cmp xs gt i j = (xs', gt', j') \<Longrightarrow> j' \<le> j - 1"
proof (induction cmp xs gt i j rule: scan_right.induct)
  case (1 cmp xs gt i j)
  then show ?case by (subst (asm) (3) scan_right.simps) (fastforce simp: Let_def split: if_splits)
qed

function partition_loop :: "'a cmp_f \<Rightarrow> 'a list \<Rightarrow> nat \<Rightarrow> nat \<Rightarrow> nat \<Rightarrow> nat \<Rightarrow> 'a list \<times> nat \<times> nat \<times> nat" where
  "partition_loop cmp xs lt i j gt =
    (case scan_left cmp xs lt i j of (xs1, lt1, i1) \<Rightarrow>
     case scan_right cmp xs1 gt i1 j of (xs2, gt1, j1) \<Rightarrow>
       if i1 \<ge> j1 then (xs2, lt1, i1, gt1) else partition_loop cmp (swap_elts xs2 i1 j1) lt1 (i1 + 1) j1 gt1)"
  by auto
termination
proof (relation "measure (\<lambda>(cmp, xs, lt, i, j, gt). j)", goal_cases)
  case 2
  then show ?case by (auto dest!: sym [of "(_, _)"] scan_right_down)
qed simp

declare partition_loop.simps [simp del]

text \<open>One round of the quicksort loop: the segment rearranged, and where its middle part starts and ends.\<close>

definition rq_partition :: "'a cmp_f \<Rightarrow> 'a list \<Rightarrow> 'a list \<times> nat \<times> nat" where
  "rq_partition cmp xs =
    (let n = length xs; m4 = n div 4; m = med3 cmp xs m4 (2 * m4) (3 * m4);
         (xs1, lt, i, gt) = partition_loop cmp (swap_elts xs 0 m) 1 1 n n;
         span = min lt (i - lt); xs2 = swap_block xs1 0 (i - span) span;
         span2 = min (n - gt) (gt - i); xs3 = swap_block xs2 i (n - span2) span2 in
     (xs3, i - lt, n - (gt - i)))"

text \<open>The insertion sort of small segments.\<close>

fun insert_down :: "'a cmp_f \<Rightarrow> 'a list \<Rightarrow> nat \<Rightarrow> 'a list" where
  "insert_down cmp xs 0 = xs"
| "insert_down cmp xs (Suc j) =
    (if cmp (xs ! j) (xs ! Suc j) > 0 then insert_down cmp (swap_elts xs (Suc j) j) j else xs)"

lemma length_swap_elts [simp]: "length (swap_elts xs i j) = length xs"
  by (simp add: swap_elts_def)

lemma length_insert_down [simp]: "length (insert_down cmp xs j) = length xs"
  by (induction cmp xs j rule: insert_down.induct) simp_all

function insertion_sort :: "'a cmp_f \<Rightarrow> 'a list \<Rightarrow> nat \<Rightarrow> 'a list" where
  "insertion_sort cmp xs i = (if i < length xs then insertion_sort cmp (insert_down cmp xs i) (i + 1) else xs)"
  by auto
termination by (relation "measure (\<lambda>(cmp, xs, i). length xs - i)") auto

declare insertion_sort.simps [simp del]

text \<open>A function on the segment of \<open>n\<close> elements at \<open>p\<close>.\<close>

definition seg :: "'a list \<Rightarrow> nat \<Rightarrow> nat \<Rightarrow> 'a list" where
  "seg xs p n = take n (drop p xs)"

definition put_seg :: "'a list \<Rightarrow> nat \<Rightarrow> 'a list \<Rightarrow> 'a list" where
  "put_seg xs p ys = take p xs @ ys @ drop (p + length ys) xs"

text \<open>
  The loop on one segment: the larger part is pushed with the new depth, the smaller one continues,
  and after 50 rounds the segment is heap sorted. \<open>None\<close> is an overflow of the stack of 50 entries.
\<close>

function rq_segment ::
  "'a cmp_f \<Rightarrow> 'a list \<Rightarrow> (nat \<times> nat \<times> nat) list \<Rightarrow> nat \<Rightarrow> nat \<Rightarrow> nat \<Rightarrow> ('a list \<times> (nat \<times> nat \<times> nat) list \<times> nat \<times> nat) option" where
  "rq_segment cmp xs sp p n depth =
    (if n > 6 then
       (if depth + 1 > 50 then Some (put_seg xs p (heapsortx cmp (seg xs p n)), sp, p, 0)
        else if length sp \<ge> 50 then None
        else case rq_partition cmp (seg xs p n) of (ys, lt, gt) \<Rightarrow>
          if lt > n - gt then rq_segment cmp (put_seg xs p ys) ((p, lt, depth + 1) # sp) (p + gt) (n - gt) (depth + 1)
          else rq_segment cmp (put_seg xs p ys) ((p + gt, n - gt, depth + 1) # sp) p lt (depth + 1))
     else Some (xs, sp, p, n))"
  by auto
termination by (relation "measure (\<lambda>(cmp, xs, sp, p, n, depth). 50 - depth)") auto

declare rq_segment.simps [simp del]

partial_function (option) rq_loop :: "'a cmp_f \<Rightarrow> 'a list \<Rightarrow> (nat \<times> nat \<times> nat) list \<Rightarrow> 'a list option" where
  "rq_loop cmp xs sp =
    (case sp of [] \<Rightarrow> Some xs
     | (p, n, depth) # sp' \<Rightarrow>
         (case rq_segment cmp xs sp' p n depth of None \<Rightarrow> None
          | Some (xs1, sp1, p1, n1) \<Rightarrow> rq_loop cmp (put_seg xs1 p1 (insertion_sort cmp (seg xs1 p1 n1) 1)) sp1))"

definition rqsort :: "'a cmp_f \<Rightarrow> 'a list \<Rightarrow> 'a list option" where
  "rqsort cmp xs = (if length xs < 2 then Some xs else rq_loop cmp xs [(0, length xs, 0)])"

end
