(* ===== verification/RqsortProofs.thy ===== *)
theory RqsortProofs
  imports Rqsort
begin

text \<open>
  Correctness of the sorting routine: the exchange functions, the heap sort, the partition, and the
  loop over the stack of segments, for any comparison function that is a total preorder.
\<close>

section \<open>Rearrangements of a segment\<close>

text \<open>
  \<open>ys\<close> has the elements of \<open>xs\<close>, equals it outside the segment of \<open>n\<close> elements at \<open>p\<close>, and every
  element inside comes from inside.
\<close>

definition rearr :: "nat \<Rightarrow> nat \<Rightarrow> 'a list \<Rightarrow> 'a list \<Rightarrow> bool" where
  "rearr p n xs ys \<longleftrightarrow> length ys = length xs \<and> mset ys = mset xs
    \<and> (\<forall>k. \<not> (p \<le> k \<and> k < p + n) \<longrightarrow> ys ! k = xs ! k)
    \<and> (\<forall>k. p \<le> k \<and> k < p + n \<longrightarrow> (\<exists>k'. p \<le> k' \<and> k' < p + n \<and> ys ! k = xs ! k'))"

lemma rearr_refl [simp, intro]: "rearr p n xs xs"
  by (auto simp: rearr_def)

lemma rearr_trans: "rearr p n xs ys \<Longrightarrow> rearr p n ys zs \<Longrightarrow> rearr p n xs zs"
  unfolding rearr_def by (intro conjI; (elim conjE)?; simp?) metis

lemma rearr_length: "rearr p n xs ys \<Longrightarrow> length ys = length xs"
  by (simp add: rearr_def)

lemma rearr_mset: "rearr p n xs ys \<Longrightarrow> mset ys = mset xs"
  by (simp add: rearr_def)

lemma swap_elts_nth: "i < length xs \<Longrightarrow> j < length xs \<Longrightarrow> swap_elts xs i j ! k = (if k = i then xs ! j else if k = j then xs ! i else xs ! k)"
  by (simp add: swap_elts_def nth_list_update)

lemma rearr_swap_elts:
  assumes "i < length xs" "j < length xs" "p \<le> i" "i < p + n" "p \<le> j" "j < p + n"
  shows "rearr p n xs (swap_elts xs i j)"
proof -
  have "mset (swap_elts xs i j) = mset xs" using assms(1,2) by (simp add: swap_elts_def mset_swap)
  then show ?thesis using assms by (auto simp: rearr_def swap_elts_nth)
qed

lemma rearr_mono:
  assumes "rearr p n xs ys" "q \<le> p" "p + n \<le> q + m"
  shows "rearr q m xs ys"
proof -
  have "\<exists>k'. q \<le> k' \<and> k' < q + m \<and> ys ! k = xs ! k'" if "q \<le> k" "k < q + m" for k
  proof (cases "p \<le> k \<and> k < p + n")
    case True
    then obtain k' where "p \<le> k'" "k' < p + n" "ys ! k = xs ! k'" using assms(1) unfolding rearr_def by blast
    then show ?thesis using assms(2,3) by (intro exI [of _ k']) simp
  next
    case False
    then show ?thesis using assms(1) that unfolding rearr_def by blast
  qed
  moreover have "ys ! k = xs ! k" if "\<not> (q \<le> k \<and> k < q + m)" for k
    using assms that unfolding rearr_def by (metis le_trans less_le_trans)
  ultimately show ?thesis using assms(1) by (simp add: rearr_def)
qed

lemma rearr_all:
  assumes "rearr p n xs ys" "\<forall>k. p \<le> k \<and> k < p + n \<longrightarrow> P (xs ! k)" "p \<le> k" "k < p + n"
  shows "P (ys ! k)"
  using assms unfolding rearr_def by metis

section \<open>Comparison functions\<close>

locale comparison =
  fixes cmp :: "'a cmp_f"
  assumes sign: "cmp x y < 0 \<longleftrightarrow> cmp y x > 0"
    and trans: "cmp x y \<le> 0 \<Longrightarrow> cmp y z \<le> 0 \<Longrightarrow> cmp x z \<le> 0"
begin

definition le :: "'a \<Rightarrow> 'a \<Rightarrow> bool" where
  "le x y \<longleftrightarrow> cmp x y \<le> 0"

lemma le_trans: "le x y \<Longrightarrow> le y z \<Longrightarrow> le x z"
  unfolding le_def by (rule trans)

lemma le_refl [simp]: "le x x"
  unfolding le_def using sign [of x x] by linarith

lemma cmp_pos: "cmp x y > 0 \<longleftrightarrow> \<not> le x y"
  by (simp add: le_def not_le)

lemma le_total: "\<not> le x y \<Longrightarrow> le y x"
  unfolding le_def using sign [of y x] by linarith

lemma le_sym_zero: "cmp x y = 0 \<longleftrightarrow> le x y \<and> le y x"
  unfolding le_def using sign [of x y] sign [of y x] by linarith

definition sorted_by :: "'a list \<Rightarrow> bool" where
  "sorted_by xs \<longleftrightarrow> (\<forall>i j. i < j \<longrightarrow> j < length xs \<longrightarrow> le (xs ! i) (xs ! j))"

section \<open>The heap sort\<close>

definition par :: "nat \<Rightarrow> nat" where
  "par c = (c - 1) div 2"

lemma par_children: "0 < c \<Longrightarrow> par c = r \<longleftrightarrow> c = 2 * r + 1 \<or> c = 2 * r + 2"
  by (auto simp: par_def)

lemma par_less: "0 < c \<Longrightarrow> par c < c"
  by (auto simp: par_def)

definition heap_from :: "'a list \<Rightarrow> nat \<Rightarrow> nat \<Rightarrow> bool" where
  "heap_from xs r0 n \<longleftrightarrow> (\<forall>c. 0 < c \<and> c < n \<and> r0 \<le> par c \<longrightarrow> le (xs ! c) (xs ! par c))"

text \<open>A heap except at \<open>r\<close>, whose children may be larger than it but not than its parent.\<close>

definition heap_hole :: "'a list \<Rightarrow> nat \<Rightarrow> nat \<Rightarrow> nat \<Rightarrow> bool" where
  "heap_hole xs r0 r n \<longleftrightarrow> r0 \<le> r \<and> (\<forall>c. 0 < c \<and> c < n \<and> r0 \<le> par c \<and> par c \<noteq> r \<longrightarrow> le (xs ! c) (xs ! par c))
    \<and> (0 < r \<and> r0 \<le> par r \<longrightarrow> (\<forall>c. 0 < c \<and> c < n \<and> par c = r \<longrightarrow> le (xs ! c) (xs ! par r)))"

lemma heap_hole_done:
  "heap_hole xs r0 r n \<Longrightarrow> (\<And>c. 0 < c \<Longrightarrow> c < n \<Longrightarrow> par c = r \<Longrightarrow> le (xs ! c) (xs ! r)) \<Longrightarrow> heap_from xs r0 n"
  unfolding heap_hole_def heap_from_def by metis

lemma heap_hole_down:
  assumes h: "heap_hole xs r0 r n" and c: "0 < c" "c < n" "par c = r" "n \<le> length xs"
    and big: "\<And>d. 0 < d \<Longrightarrow> d < n \<Longrightarrow> par d = r \<Longrightarrow> le (xs ! d) (xs ! c)" and up: "le (xs ! r) (xs ! c)"
  shows "heap_hole (swap_elts xs r c) r0 c n"
proof -
  have rc: "r < c" using par_less [OF c(1)] c(3) by simp
  note n = swap_elts_nth [of r xs c]
  have "le (swap_elts xs r c ! d) (swap_elts xs r c ! par d)" if d: "0 < d" "d < n" "r0 \<le> par d" "par d \<noteq> c" for d
  proof (cases "par d = r")
    case True
    then show ?thesis using n rc c up big [OF d(1,2) True] d(1) par_less [OF d(1)] by auto
  next
    case False
    have "le (xs ! d) (xs ! par d)" using h d False unfolding heap_hole_def by blast
    moreover have "le (xs ! c) (xs ! par r)" if "d = r"
      using h c d that unfolding heap_hole_def by blast
    moreover have "d \<noteq> c" using False c(3) by auto
    ultimately show ?thesis using n rc c False d by auto
  qed
  moreover have "le (swap_elts xs r c ! d) (swap_elts xs r c ! par c)" if d: "0 < d" "d < n" "par d = c" for d
  proof -
    have "le (xs ! d) (xs ! c)" using h d c rc unfolding heap_hole_def by (metis le_trans less_imp_le_nat order_trans nat_neq_iff)
    moreover have "d \<noteq> r" "d \<noteq> c" using d par_less [OF d(1)] rc by auto
    ultimately show ?thesis using n rc c by auto
  qed
  ultimately show ?thesis using h rc unfolding heap_hole_def by auto
qed

lemma sift_heap:
  "heap_hole xs r0 r n \<Longrightarrow> n \<le> length xs \<Longrightarrow> heap_from (sift cmp xs r n) r0 n \<and> rearr 0 n xs (sift cmp xs r n)"
proof (induction "n - r" arbitrary: xs r rule: less_induct)
  case less
  let ?c = "r * 2 + 1"
  show ?case
  proof (cases "?c < n")
    case False
    then have "heap_from xs r0 n" by (intro heap_hole_done [OF less(2)]) (auto simp: par_children)
    then show ?thesis using False by (subst (1 2) sift.simps) simp
  next
    case True
    define d where "d = (if ?c < n - 1 \<and> cmp (xs ! ?c) (xs ! (?c + 1)) \<le> 0 then ?c + 1 else ?c)"
    have d: "0 < d" "d < n" "par d = r" "r < d" using True by (auto simp: par_def d_def)
    have big: "le (xs ! e) (xs ! d)" if "0 < e" "e < n" "par e = r" for e
      using that le_total [of "xs ! ?c" "xs ! (?c + 1)"] unfolding par_children [OF that(1)]
      by (auto simp: le_def [symmetric] mult.commute d_def)
    have sift: "sift cmp xs r n = (if cmp (xs ! r) (xs ! d) > 0 then xs else sift cmp (swap_elts xs r d) d n)"
      unfolding sift.simps [of cmp xs r n] Let_def d_def by (simp only: True if_True)
    show ?thesis
    proof (cases "cmp (xs ! r) (xs ! d) > 0")
      case True
      then have dr: "le (xs ! d) (xs ! r)" using le_total cmp_pos by blast
      have "heap_from xs r0 n" by (rule heap_hole_done [OF less(2)], rule le_trans [OF big dr])
      then show ?thesis using True unfolding sift by simp
    next
      case False
      then have up: "le (xs ! r) (xs ! d)" using cmp_pos by blast
      have s: "rearr 0 n xs (swap_elts xs r d)" using less(3) d by (intro rearr_swap_elts) auto
      have m: "n - d < n - r" using d by arith
      have "heap_from (sift cmp (swap_elts xs r d) d n) r0 n \<and> rearr 0 n (swap_elts xs r d) (sift cmp (swap_elts xs r d) d n)"
        by (rule less(1) [OF m heap_hole_down [OF less(2) d(1-3) less(3) big up]]) (use less(3) in simp_all)
      then show ?thesis using rearr_trans [OF s] False unfolding sift by simp
    qed
  qed
qed

lemma heap_build_heap:
  "heap_from xs i n \<Longrightarrow> n \<le> length xs \<Longrightarrow> heap_from (heap_build cmp xs i n) 0 n \<and> rearr 0 n xs (heap_build cmp xs i n)"
proof (induction i arbitrary: xs)
  case (Suc i)
  have "le (xs ! c) (xs ! par c)" if "0 < c" "c < n" "i \<le> par c" "par c \<noteq> i" for c
    using Suc(2) that unfolding heap_from_def by (metis Suc_leI le_neq_implies_less)
  then have "heap_hole xs i i n" using par_less [of i] unfolding heap_hole_def by (meson leD order_refl)
  note t = sift_heap [OF this Suc(3)]
  then have "n \<le> length (sift cmp xs i n)" using Suc(3) rearr_length by fastforce
  with Suc(1) t show ?case by (auto intro: rearr_trans)
qed simp

lemma heap_root: "heap_from xs 0 n \<Longrightarrow> c < n \<Longrightarrow> le (xs ! c) (xs ! 0)"
proof (induction c rule: less_induct)
  case (less c)
  show ?case
  proof (cases "c = 0")
    case False
    then have "le (xs ! c) (xs ! par c)" "le (xs ! par c) (xs ! 0)"
      using less par_less [of c] unfolding heap_from_def by auto
    then show ?thesis by (rule le_trans)
  qed simp
qed

text \<open>The elements from \<open>m\<close> on are sorted and at or above all others.\<close>

definition sorted_from :: "'a list \<Rightarrow> nat \<Rightarrow> bool" where
  "sorted_from xs m \<longleftrightarrow> (\<forall>i j. i < j \<longrightarrow> j < length xs \<longrightarrow> m \<le> j \<longrightarrow> le (xs ! i) (xs ! j))"

lemma sorted_from_rearr:
  assumes "sorted_from xs m" "rearr 0 m xs ys"
  shows "sorted_from ys m"
  unfolding sorted_from_def
proof (intro allI impI)
  fix i j assume ij: "i < j" "j < length ys" "m \<le> j"
  have l: "length ys = length xs" and j: "ys ! j = xs ! j" using assms(2) ij by (auto simp: rearr_def)
  obtain i' where "i' < j" "ys ! i = xs ! i'"
    using assms(2) ij unfolding rearr_def by (metis add_0 le0 less_le_trans not_le)
  then show "le (ys ! i) (ys ! j)" using assms(1) ij l j by (simp add: sorted_from_def)
qed

lemma heap_pop_sorts:
  "heap_from xs 0 (Suc i) \<Longrightarrow> sorted_from xs (Suc i) \<Longrightarrow> i < length xs \<Longrightarrow>
    sorted_from (heap_pop cmp xs i) 0 \<and> rearr 0 (length xs) xs (heap_pop cmp xs i)"
proof (induction i arbitrary: xs)
  case 0
  then show ?case by (auto simp: sorted_from_def)
next
  case (Suc i)
  let ?s = "swap_elts xs 0 (Suc i)" and ?t = "sift cmp (swap_elts xs 0 (Suc i)) 0 (Suc i)"
  have sw: "?s ! k = (if k = 0 then xs ! Suc i else if k = Suc i then xs ! 0 else xs ! k)" for k
    using Suc(4) by (subst swap_elts_nth) auto
  have "heap_hole ?s 0 0 (Suc i)"
    using Suc(2) par_less unfolding heap_hole_def heap_from_def sw by (auto, metis less_SucI less_irrefl not_less_iff_gr_or_eq less_trans)
  from sift_heap [OF this] Suc(4) have t: "heap_from ?t 0 (Suc i)" "rearr 0 (Suc i) ?s ?t" by simp_all
  have "rearr 0 (Suc (Suc i)) xs ?s" using Suc(4) by (intro rearr_swap_elts) auto
  then have s2: "sorted_from ?s (Suc (Suc i))" using sorted_from_rearr [OF Suc(3)] by simp
  have "sorted_from ?s (Suc i)"
    unfolding sorted_from_def
  proof (intro allI impI)
    fix a b assume ab: "a < b" "b < length ?s" "Suc i \<le> b"
    show "le (?s ! a) (?s ! b)"
    proof (cases "b = Suc i")
      case True
      then show ?thesis using ab heap_root [OF Suc(2)] unfolding sw by auto
    next
      case False
      then show ?thesis using ab s2 by (simp add: sorted_from_def)
    qed
  qed
  then have "sorted_from ?t (Suc i)" by (rule sorted_from_rearr [OF _ t(2)])
  moreover have l: "length ?t = length xs" using rearr_length [OF t(2)] by simp
  moreover have "rearr 0 (length xs) xs ?t"
  proof (rule rearr_trans)
    show "rearr 0 (length xs) xs ?s" using Suc(4) by (intro rearr_swap_elts) auto
    show "rearr 0 (length xs) ?s ?t" using Suc(4) by (intro rearr_mono [OF t(2)]) auto
  qed
  ultimately show ?case using Suc(1) [OF t(1)] Suc(4) by (auto intro: rearr_trans)
qed

lemma heapsortx_sorts: "sorted_by (heapsortx cmp xs) \<and> mset (heapsortx cmp xs) = mset xs"
proof (cases "length xs > 1")
  case True
  have "heap_from xs (length xs div 2) (length xs)" by (auto simp: heap_from_def par_def)
  from heap_build_heap [OF this] have b: "heap_from (heap_build cmp xs (length xs div 2) (length xs)) 0 (length xs)"
    "rearr 0 (length xs) xs (heap_build cmp xs (length xs div 2) (length xs))" by auto
  let ?b = "heap_build cmp xs (length xs div 2) (length xs)"
  have l: "length ?b = length xs" "Suc (length xs - 1) = length xs" using rearr_length [OF b(2)] True by simp_all
  have "sorted_from ?b (Suc (length xs - 1))" using l by (simp add: sorted_from_def)
  from heap_pop_sorts [OF _ this] b(1) l True
  have p: "sorted_from (heap_pop cmp ?b (length xs - 1)) 0" "rearr 0 (length xs) ?b (heap_pop cmp ?b (length xs - 1))" by simp_all
  have "mset (heap_pop cmp ?b (length xs - 1)) = mset xs" using rearr_mset [OF p(2)] rearr_mset [OF b(2)] by simp
  then show ?thesis using p(1) True unfolding heapsortx_def Let_def by (simp add: sorted_by_def sorted_from_def)
qed (auto simp: heapsortx_def sorted_by_def)

section \<open>The partition\<close>

text \<open>
  Around the pivot \<open>v\<close> in element 0: equal below \<open>lt\<close>, smaller up to \<open>i\<close>, unknown up to \<open>j\<close>, greater up
  to \<open>gt\<close>, and equal again.
\<close>

definition parted :: "'a \<Rightarrow> 'a list \<Rightarrow> nat \<Rightarrow> nat \<Rightarrow> nat \<Rightarrow> nat \<Rightarrow> bool" where
  "parted v xs lt i j gt \<longleftrightarrow> 1 \<le> lt \<and> lt \<le> i \<and> i \<le> j \<and> j \<le> gt \<and> gt \<le> length xs \<and> xs ! 0 = v
    \<and> (\<forall>k < lt. cmp v (xs ! k) = 0) \<and> (\<forall>k. lt \<le> k \<and> k < i \<longrightarrow> cmp v (xs ! k) > 0)
    \<and> (\<forall>k. j \<le> k \<and> k < gt \<longrightarrow> cmp v (xs ! k) < 0) \<and> (\<forall>k. gt \<le> k \<and> k < length xs \<longrightarrow> cmp v (xs ! k) = 0)"

lemma parted_left_equal:
  "parted v xs lt i j gt \<Longrightarrow> i < j \<Longrightarrow> cmp v (xs ! i) = 0 \<Longrightarrow> parted v (swap_elts xs lt i) (Suc lt) (Suc i) j gt"
  unfolding parted_def by (auto simp: swap_elts_nth less_Suc_eq)

lemma parted_left_smaller:
  "parted v xs lt i j gt \<Longrightarrow> i < j \<Longrightarrow> cmp v (xs ! i) > 0 \<Longrightarrow> parted v xs lt (Suc i) j gt"
  unfolding parted_def by (auto simp: less_Suc_eq)

lemma parted_right_equal:
  assumes "parted v xs lt i (Suc j) gt" "i < j" "cmp v (xs ! j) = 0"
  shows "parted v (swap_elts xs (gt - 1) j) lt i j (gt - 1)"
proof -
  have "j \<le> gt - 1" "gt - 1 < length xs" "j < length xs" using assms unfolding parted_def by auto
  then show ?thesis using assms unfolding parted_def by (auto simp: swap_elts_nth less_Suc_eq)
qed

lemma parted_right_greater:
  assumes "parted v xs lt i (Suc j) gt" "i < j" "cmp v (xs ! j) < 0"
  shows "parted v xs lt i j gt"
proof -
  have "cmp v (xs ! k) < 0" if "j \<le> k" "k < gt" for k
    using assms that unfolding parted_def by (cases "k = j") simp_all
  then show ?thesis using assms(1,2) unfolding parted_def by simp
qed

lemma scan_left_parted:
  "scan_left cmp xs lt i j = (ys, lt', i') \<Longrightarrow> parted v xs lt i j gt \<Longrightarrow>
    parted v ys lt' i' j gt \<and> (i' < j \<longrightarrow> cmp v (ys ! i') < 0) \<and> i \<le> i' \<and> rearr 0 (length xs) xs ys"
proof (induction "j - i" arbitrary: xs lt i rule: less_induct)
  case less
  have v: "xs ! 0 = v" "lt \<le> i" "j \<le> length xs" using less(3) by (auto simp: parted_def)
  show ?case
  proof (cases "i < j \<and> cmp v (xs ! i) \<ge> 0")
    case True
    show ?thesis
    proof (cases "cmp v (xs ! i) = 0")
      case eq: True
      then have "scan_left cmp (swap_elts xs lt i) (Suc lt) (Suc i) j = (ys, lt', i')"
        using less(2) True v by (subst (asm) scan_left.simps) simp
      moreover have "rearr 0 (length xs) xs (swap_elts xs lt i)" using True v by (intro rearr_swap_elts) auto
      ultimately show ?thesis
        using less(1) [OF _ _ parted_left_equal [OF less(3) _ eq]] True by (fastforce intro: rearr_trans)
    next
      case False
      then have "scan_left cmp xs lt (Suc i) j = (ys, lt', i')"
        using less(2) True v by (subst (asm) scan_left.simps) simp
      then show ?thesis using less(1) [OF _ _ parted_left_smaller [OF less(3)]] True False by fastforce
    qed
  next
    case False
    then show ?thesis using less(2,3) v by (subst (asm) scan_left.simps) auto
  qed
qed

lemma scan_right_parted:
  "scan_right cmp xs gt i j = (ys, gt', j') \<Longrightarrow> parted v xs lt i j gt \<Longrightarrow> i < j \<longrightarrow> cmp v (xs ! i) < 0 \<Longrightarrow>
    rearr 0 (length xs) xs ys \<and> ys ! i = xs ! i
    \<and> (if i < j' then parted v ys lt i (Suc j') gt' \<and> cmp v (ys ! j') > 0 \<and> j' < j else parted v ys lt i i gt')"
proof (induction j arbitrary: xs gt)
  case 0
  then show ?case by (subst (asm) scan_right.simps) (auto simp: parted_def)
next
  case (Suc j)
  have v: "xs ! 0 = v" "lt \<le> i" "i \<le> Suc j" "Suc j \<le> gt" "gt \<le> length xs" using Suc(3) by (auto simp: parted_def)
  show ?case
  proof (cases "i < j \<and> cmp v (xs ! j) \<le> 0")
    case True
    show ?thesis
    proof (cases "cmp v (xs ! j) = 0")
      case eq: True
      have r: "scan_right cmp (swap_elts xs (gt - 1) j) (gt - 1) i j = (ys, gt', j')"
        using Suc(2) True eq v by (subst (asm) scan_right.simps) simp
      have i: "swap_elts xs (gt - 1) j ! i = xs ! i" using v True by (subst swap_elts_nth) auto
      have "rearr 0 (length xs) xs (swap_elts xs (gt - 1) j)" using v True by (intro rearr_swap_elts) auto
      then show ?thesis
        using Suc(1) [OF r parted_right_equal [OF Suc(3) _ eq]] True Suc(4) unfolding i
        by (auto intro: rearr_trans split: if_splits)
    next
      case False
      then have r: "scan_right cmp xs gt i j = (ys, gt', j')"
        using Suc(2) True v by (subst (asm) scan_right.simps) simp
      show ?thesis
        using Suc(1) [OF r parted_right_greater [OF Suc(3)]] True False Suc(4) by (auto split: if_splits)
    qed
  next
    case False
    then have r: "ys = xs" "gt' = gt" "j' = j" using Suc(2) v by (auto simp: scan_right.simps [of _ _ _ _ "Suc j"] Let_def split: if_splits)
    have "parted v xs lt i i gt" if "\<not> i < j"
      using Suc(3,4) that v unfolding parted_def by (auto simp: le_Suc_eq) (metis le_antisym le_Suc_eq not_less_eq_eq not_less)+
    then show ?thesis using False Suc(3) v unfolding r by auto
  qed
qed

lemma parted_swap:
  assumes "parted v xs lt i (Suc j) gt" "i < j" "cmp v (xs ! i) < 0" "cmp v (xs ! j) > 0"
  shows "parted v (swap_elts xs i j) lt (Suc i) j gt"
  using assms unfolding parted_def by (auto simp: swap_elts_nth less_Suc_eq Suc_le_eq)

lemma partition_loop_parted:
  "partition_loop cmp xs lt i j gt = (ys, lt', i', gt') \<Longrightarrow> parted v xs lt i j gt \<Longrightarrow>
    parted v ys lt' i' i' gt' \<and> rearr 0 (length xs) xs ys"
proof (induction j arbitrary: xs lt i gt rule: less_induct)
  case (less j)
  obtain xs1 lt1 i1 where l: "scan_left cmp xs lt i j = (xs1, lt1, i1)" by (cases "scan_left cmp xs lt i j")
  obtain xs2 gt1 j1 where r: "scan_right cmp xs1 gt i1 j = (xs2, gt1, j1)" by (cases "scan_right cmp xs1 gt i1 j")
  note L = scan_left_parted [OF l less(3)]
  note R = scan_right_parted [OF r conjunct1 [OF L]]
  have len: "length xs1 = length xs" "length xs2 = length xs" using L R rearr_length by metis+
  have rr: "rearr 0 (length xs) xs xs2" using L R len by (auto intro: rearr_trans)
  show ?case
  proof (cases "i1 < j1")
    case False
    then have "ys = xs2" "lt' = lt1" "i' = i1" "gt' = gt1" using less(2) l r by (auto simp: partition_loop.simps [of cmp xs])
    then show ?thesis using False L R rr by simp
  next
    case True
    then have e: "partition_loop cmp (swap_elts xs2 i1 j1) lt1 (Suc i1) j1 gt1 = (ys, lt', i', gt')"
      using less(2) l r by (simp add: partition_loop.simps [of cmp xs])
    have p: "parted v xs2 lt1 i1 (Suc j1) gt1" "cmp v (xs2 ! i1) < 0" "cmp v (xs2 ! j1) > 0" "j1 < j"
      using L R True by (simp_all split: if_splits)
    have "rearr 0 (length xs) xs2 (swap_elts xs2 i1 j1)"
      using p(1) True len by (intro rearr_swap_elts) (auto simp: parted_def)
    then show ?thesis
      using less(1) [OF p(4) e parted_swap [OF p(1) True p(2,3)]] rr len by (auto intro: rearr_trans)
  qed
qed

lemma mset_of_swap: "i < length xs \<Longrightarrow> j < length xs \<Longrightarrow> mset (swap_elts xs i j) = mset xs"
  by (simp add: swap_elts_def mset_swap)

lemma swap_block_spec:
  "a + m \<le> b \<Longrightarrow> b + m \<le> length xs \<Longrightarrow>
    length (swap_block xs a b m) = length xs \<and> mset (swap_block xs a b m) = mset xs
    \<and> (\<forall>k. swap_block xs a b m ! k = (if a \<le> k \<and> k < a + m then xs ! (b + (k - a))
          else if b \<le> k \<and> k < b + m then xs ! (a + (k - b)) else xs ! k))"
proof (induction m arbitrary: xs a b)
  case (Suc m)
  have ab: "a < length xs" "b < length xs" using Suc(2,3) by simp_all
  have ih: "length (swap_block (swap_elts xs a b) (Suc a) (Suc b) m) = length xs"
    "mset (swap_block (swap_elts xs a b) (Suc a) (Suc b) m) = mset xs"
    "swap_block (swap_elts xs a b) (Suc a) (Suc b) m ! k = (if Suc a \<le> k \<and> k < Suc a + m then swap_elts xs a b ! (Suc b + (k - Suc a))
          else if Suc b \<le> k \<and> k < Suc b + m then swap_elts xs a b ! (Suc a + (k - Suc b)) else swap_elts xs a b ! k)" for k
    using Suc(1) [of "Suc a" "Suc b" "swap_elts xs a b"] Suc(2,3) mset_of_swap [OF ab] by simp_all
  have "swap_block xs a b (Suc m) ! k = (if a \<le> k \<and> k < a + Suc m then xs ! (b + (k - a))
          else if b \<le> k \<and> k < b + Suc m then xs ! (a + (k - b)) else xs ! k)" for k
    using Suc(2) unfolding swap_block.simps ih(3) swap_elts_nth [OF ab] by (auto simp: Suc_le_eq Suc_diff_Suc)
  then show ?case using ih by simp
qed auto

text \<open>The two block exchanges: equal elements go from the ends to the middle.\<close>

lemma blocks_to_middle:
  assumes "parted v xs lt i i gt" "n = length xs" "lt \<le> i" "i \<le> gt" "gt \<le> n"
    and ys: "ys = swap_block xs 0 (i - min lt (i - lt)) (min lt (i - lt))"
    and zs: "zs = swap_block ys i (n - min (n - gt) (gt - i)) (min (n - gt) (gt - i))"
  shows "mset zs = mset xs" "length zs = n"
    "k < i - lt \<Longrightarrow> cmp v (zs ! k) > 0"
    "i - lt \<le> k \<Longrightarrow> k < n - (gt - i) \<Longrightarrow> cmp v (zs ! k) = 0"
    "n - (gt - i) \<le> k \<Longrightarrow> k < n \<Longrightarrow> cmp v (zs ! k) < 0"
proof -
  have p: "k < lt \<Longrightarrow> cmp v (xs ! k) = 0" "lt \<le> k \<Longrightarrow> k < i \<Longrightarrow> cmp v (xs ! k) > 0"
    "i \<le> k \<Longrightarrow> k < gt \<Longrightarrow> cmp v (xs ! k) < 0" "gt \<le> k \<Longrightarrow> k < n \<Longrightarrow> cmp v (xs ! k) = 0" for k
    using assms(1,2) unfolding parted_def by auto
  note Y = swap_block_spec [of 0 "min lt (i - lt)" "i - min lt (i - lt)" xs, folded ys]
  have y: "length ys = n" "mset ys = mset xs" using Y assms(2-5) by auto
  have yn: "ys ! k = (if k < min lt (i - lt) then xs ! (i - min lt (i - lt) + k)
      else if i - min lt (i - lt) \<le> k \<and> k < i then xs ! (k - (i - min lt (i - lt))) else xs ! k)" for k
    using Y assms(2-5) by auto
  have y1: "cmp v (ys ! k) > 0" if "k < i - lt" for k
    using that assms(3) unfolding yn by (auto simp: min_def not_le intro!: p(2) split: if_splits)
  have y2: "cmp v (ys ! k) = 0" if "i - lt \<le> k" "k < i" for k
    using that assms(3) unfolding yn by (auto simp: min_def not_le intro!: p(1) split: if_splits)
  have y3: "ys ! k = xs ! k" if "i \<le> k" for k using that unfolding yn by auto
  note Z = swap_block_spec [of i "min (n - gt) (gt - i)" "n - min (n - gt) (gt - i)" ys, folded zs]
  show "length zs = n" "mset zs = mset xs" using Z y assms(2-5) by auto
  have zn: "zs ! k = (if i \<le> k \<and> k < i + min (n - gt) (gt - i) then ys ! (n - min (n - gt) (gt - i) + (k - i))
      else if n - min (n - gt) (gt - i) \<le> k \<and> k < n then ys ! (i + (k - (n - min (n - gt) (gt - i)))) else ys ! k)" for k
    using Z y assms(2-5) by auto
  have zlow: "zs ! k = ys ! k" if "k < i" for k using that assms(3-5) unfolding zn by auto
  show "cmp v (zs ! k) > 0" if "k < i - lt" using y1 [OF that] zlow that by simp
  show "cmp v (zs ! k) = 0" if "i - lt \<le> k" "k < n - (gt - i)"
  proof (cases "k < i")
    case True
    then show ?thesis using y2 that zlow by simp
  next
    case False
    then show ?thesis using that assms(3-5) unfolding zn by (auto simp: min_def y3 intro!: p(4) split: if_splits)
  qed
  show "cmp v (zs ! k) < 0" if "n - (gt - i) \<le> k" "k < n"
    using that assms(3-5) unfolding zn by (auto simp: min_def y3 intro!: p(3) split: if_splits)
qed

lemma med3_cases: "med3 cmp xs a b c = a \<or> med3 cmp xs a b c = b \<or> med3 cmp xs a b c = c"
  by (simp add: med3_def)

lemma rq_partition_spec:
  assumes "rq_partition cmp xs = (ys, lt, gt)" "length xs > 6"
  shows "mset ys = mset xs \<and> lt < gt \<and> gt \<le> length xs
    \<and> (\<exists>v. (\<forall>k < lt. cmp v (ys ! k) > 0) \<and> (\<forall>k. lt \<le> k \<and> k < gt \<longrightarrow> cmp v (ys ! k) = 0)
        \<and> (\<forall>k. gt \<le> k \<and> k < length xs \<longrightarrow> cmp v (ys ! k) < 0))"
proof -
  let ?n = "length xs" and ?m = "med3 cmp xs (length xs div 4) (2 * (length xs div 4)) (3 * (length xs div 4))"
  have n0: "0 < ?n" using assms(2) by linarith
  have "4 * (length xs div 4) \<le> ?n" by simp
  with n0 have "length xs div 4 < ?n \<and> 2 * (length xs div 4) < ?n \<and> 3 * (length xs div 4) < ?n" by arith
  then have m: "?m < ?n" using med3_cases [of xs "length xs div 4" "2 * (length xs div 4)" "3 * (length xs div 4)"] by metis
  obtain xs1 l i g where p: "partition_loop cmp (swap_elts xs 0 ?m) 1 1 ?n ?n = (xs1, l, i, g)"
    by (cases "partition_loop cmp (swap_elts xs 0 ?m) 1 1 ?n ?n")
  have "cmp x x = 0" for x using le_sym_zero by simp
  then have "parted (swap_elts xs 0 ?m ! 0) (swap_elts xs 0 ?m) 1 1 ?n ?n" using assms(2) by (simp add: parted_def)
  from partition_loop_parted [OF p this] have P: "parted (swap_elts xs 0 ?m ! 0) xs1 l i i g" "rearr 0 ?n (swap_elts xs 0 ?m) xs1"
    by simp_all
  have len: "?n = length xs1" and ms: "mset xs1 = mset xs"
    using rearr_length [OF P(2)] rearr_mset [OF P(2)] mset_of_swap [OF n0 m] by simp_all
  have b: "1 \<le> l" "l \<le> i" "i \<le> g" "g \<le> ?n" using P(1) len unfolding parted_def by auto
  have r: "ys = swap_block (swap_block xs1 0 (i - min l (i - l)) (min l (i - l))) i (?n - min (?n - g) (g - i)) (min (?n - g) (g - i))"
    "lt = i - l" "gt = ?n - (g - i)"
    using assms(1) p by (auto simp: rq_partition_def Let_def)
  show ?thesis
    using blocks_to_middle [OF P(1) len b(2-4) refl r(1)] ms b unfolding r(2,3) by (intro conjI exI [of _ "swap_elts xs 0 ?m ! 0"]) auto
qed

section \<open>The insertion sort\<close>

text \<open>All but the element at \<open>j\<close> are in order among the first \<open>i\<close>, and it is at or below what follows it.\<close>

lemma insert_down_spec:
  "j < i \<Longrightarrow> i \<le> length xs \<Longrightarrow> (\<And>a b. a < b \<Longrightarrow> b < i \<Longrightarrow> b \<noteq> j \<Longrightarrow> le (xs ! a) (xs ! b)) \<Longrightarrow>
    mset (insert_down cmp xs j) = mset xs \<and> (\<forall>a b. a < b \<longrightarrow> b < i \<longrightarrow> le (insert_down cmp xs j ! a) (insert_down cmp xs j ! b))"
proof (induction j arbitrary: xs)
  case 0
  then show ?case by (metis insert_down.simps(1) not_less_zero)
next
  case (Suc j)
  show ?case
  proof (cases "cmp (xs ! j) (xs ! Suc j) > 0")
    case True
    have jl: "Suc j < length xs" "j < length xs" using Suc(2,3) by simp_all
    have up: "le (xs ! Suc j) (xs ! j)" using True cmp_pos le_total by blast
    have "le (swap_elts xs (Suc j) j ! a) (swap_elts xs (Suc j) j ! b)" if "a < b" "b < i" "b \<noteq> j" for a b
      using Suc(4) [of a b] Suc(4) [of j b] Suc(4) [of "Suc j" b] Suc(4) [of a j] up that Suc(2)
      unfolding swap_elts_nth [OF jl] by auto
    from Suc(1) [OF _ _ this, simplified] Suc(2,3) True mset_of_swap [OF jl] show ?thesis by simp
  next
    case False
    then have jj: "le (xs ! j) (xs ! Suc j)" using cmp_pos by blast
    have "le (xs ! a) (xs ! b)" if "a < b" "b < i" for a b
    proof (cases "b = Suc j")
      case True
      then show ?thesis using jj le_trans [OF Suc(4) [of a j] jj] that Suc(2) by (cases "a = j") auto
    qed (use Suc(4) that in blast)
    then show ?thesis using False by simp
  qed
qed

lemma insertion_sort_spec:
  "(\<And>a b. a < b \<Longrightarrow> b < i \<Longrightarrow> b < length xs \<Longrightarrow> le (xs ! a) (xs ! b)) \<Longrightarrow>
    sorted_by (insertion_sort cmp xs i) \<and> mset (insertion_sort cmp xs i) = mset xs"
proof (induction "length xs - i" arbitrary: xs i rule: less_induct)
  case less
  show ?case
  proof (cases "i < length xs")
    case True
    have d: "mset (insert_down cmp xs i) = mset xs"
      "\<forall>a b. a < b \<longrightarrow> b < Suc i \<longrightarrow> le (insert_down cmp xs i ! a) (insert_down cmp xs i ! b)"
      using insert_down_spec [of i "Suc i" xs] less(2) True by (auto simp: less_Suc_eq)
    then show ?thesis
      using less(1) [of "insert_down cmp xs i" "Suc i"] True by (subst (1 2) insertion_sort.simps) simp
  next
    case False
    then show ?thesis using less(2) by (subst (1 2) insertion_sort.simps) (auto simp: sorted_by_def)
  qed
qed

section \<open>The stack of segments\<close>

text \<open>
  The array is in order but for pairs inside one of the segments; the segments on the stack do not
  overlap, and an entry with \<open>k\<close> entries below it was pushed at depth \<open>k\<close> or more.
\<close>

definition in_order :: "'a list \<Rightarrow> (nat \<times> nat) set \<Rightarrow> bool" where
  "in_order xs S \<longleftrightarrow> (\<forall>a b. a < b \<longrightarrow> b < length xs \<longrightarrow> le (xs ! a) (xs ! b) \<or> (\<exists>(p, n) \<in> S. p \<le> a \<and> b < p + n))"

definition apart :: "nat \<Rightarrow> nat \<Rightarrow> (nat \<times> nat) set \<Rightarrow> bool" where
  "apart p n S \<longleftrightarrow> (\<forall>(q, m) \<in> S. p + n \<le> q \<or> q + m \<le> p)"

abbreviation segs :: "(nat \<times> nat \<times> nat) list \<Rightarrow> (nat \<times> nat) set" where
  "segs sp \<equiv> (\<lambda>(p, n, d). (p, n)) ` set sp"

fun stack_ok :: "nat \<Rightarrow> (nat \<times> nat \<times> nat) list \<Rightarrow> bool" where
  "stack_ok len [] = True"
| "stack_ok len ((p, n, d) # sp) \<longleftrightarrow> p + n \<le> len \<and> length sp \<le> d \<and> d \<le> 50 \<and> apart p n (segs sp) \<and> stack_ok len sp"

definition weight :: "(nat \<times> nat \<times> nat) list \<Rightarrow> nat" where
  "weight sp = sum_list (map (\<lambda>(p, n, d). 2 * n + 1) sp)"

lemma in_order_refine:
  assumes o: "in_order xs (insert (p, n) S)" and ap: "apart p n S" and r: "rearr p n xs ys" and pn: "p + n \<le> length xs"
    and i: "\<And>a b. p \<le> a \<Longrightarrow> a < b \<Longrightarrow> b < p + n \<Longrightarrow> le (ys ! a) (ys ! b) \<or> (\<exists>(q, m) \<in> T. q \<le> a \<and> b < q + m)"
  shows "in_order ys (T \<union> S)"
  unfolding in_order_def
proof (intro allI impI)
  fix a b assume ab: "a < b" "b < length ys"
  have len: "length ys = length xs" by (rule rearr_length [OF r])
  have out: "ys ! k = xs ! k" if "\<not> (p \<le> k \<and> k < p + n)" for k using r that unfolding rearr_def by blast
  have ins: "\<exists>k'. p \<le> k' \<and> k' < p + n \<and> ys ! k = xs ! k'" if "p \<le> k" "k < p + n" for k
    using r that unfolding rearr_def by blast
  have far: "\<not> (q \<le> c \<and> d < q + m)" if "(q, m) \<in> S" "c < d" "p \<le> c \<and> c < p + n \<or> p \<le> d \<and> d < p + n" for q m c d
    using ap that unfolding apart_def by fastforce
  consider (both) "p \<le> a" "b < p + n" | (left) "p \<le> a" "a < p + n" "p + n \<le> b" | (right) "a < p" "p \<le> b" "b < p + n"
    | (none) "\<not> (p \<le> a \<and> a < p + n)" "\<not> (p \<le> b \<and> b < p + n)"
    using ab(1) by linarith
  then show "le (ys ! a) (ys ! b) \<or> (\<exists>(q, m) \<in> T \<union> S. q \<le> a \<and> b < q + m)"
  proof cases
    case both
    then show ?thesis using i [OF both(1) ab(1) both(2)] by blast
  next
    case left
    then obtain a' where a': "p \<le> a'" "a' < p + n" "ys ! a = xs ! a'" using ins by blast
    have "a' < b" using a' left by simp
    then have "le (xs ! a') (xs ! b) \<or> (\<exists>(q, m) \<in> insert (p, n) S. q \<le> a' \<and> b < q + m)"
      using o ab(2) len unfolding in_order_def by simp
    then have "le (xs ! a') (xs ! b)" using far [OF _ \<open>a' < b\<close>] a' left by auto
    then show ?thesis using a'(3) out [of b] left by simp
  next
    case right
    then obtain b' where b': "p \<le> b'" "b' < p + n" "ys ! b = xs ! b'" using ins by blast
    have ab': "a < b'" using b' right by simp
    have "b' < length xs" using b' pn by simp
    then have "le (xs ! a) (xs ! b') \<or> (\<exists>(q, m) \<in> insert (p, n) S. q \<le> a \<and> b' < q + m)"
      using o ab' unfolding in_order_def by blast
    then have "le (xs ! a) (xs ! b')" using far [OF _ ab'] b' right by auto
    then show ?thesis using b'(3) out [of a] right by simp
  next
    case none
    then have "le (xs ! a) (xs ! b) \<or> (\<exists>(q, m) \<in> S. q \<le> a \<and> b < q + m)"
      using o ab len unfolding in_order_def by fastforce
    then show ?thesis using out none by auto
  qed
qed

lemma length_seg [simp]: "p + n \<le> length xs \<Longrightarrow> length (seg xs p n) = n"
  by (simp add: seg_def)

lemma nth_seg: "k < n \<Longrightarrow> p + n \<le> length xs \<Longrightarrow> seg xs p n ! k = xs ! (p + k)"
  by (simp add: seg_def)

lemma put_seg_rearr:
  assumes "p + n \<le> length xs" "mset zs = mset (seg xs p n)"
  shows "rearr p n xs (put_seg xs p zs)" "\<And>k. k < n \<Longrightarrow> put_seg xs p zs ! (p + k) = zs ! k"
proof -
  have l: "length zs = n" using mset_eq_length [OF assms(2)] assms(1) by simp
  have len: "length (put_seg xs p zs) = length xs" using assms(1) l by (simp add: put_seg_def)
  have "xs = take p xs @ seg xs p n @ drop (p + n) xs"
    by (metis append_take_drop_id drop_drop seg_def add.commute)
  then have ms: "mset (put_seg xs p zs) = mset xs"
    using assms(2) l unfolding put_seg_def by (metis mset_append)
  have nth: "put_seg xs p zs ! k = (if k < p then xs ! k else if k < p + n then zs ! (k - p) else xs ! k)" for k
  proof -
    have "length (take p xs) = p" using assms(1) by simp
    then show ?thesis using assms(1) l unfolding put_seg_def by (auto simp: nth_append)
  qed
  then show "\<And>k. k < n \<Longrightarrow> put_seg xs p zs ! (p + k) = zs ! k" by simp
  have "\<exists>k'. p \<le> k' \<and> k' < p + n \<and> put_seg xs p zs ! k = xs ! k'" if "p \<le> k" "k < p + n" for k
  proof -
    have "zs ! (k - p) \<in> set (seg xs p n)" using that l mset_eq_setD [OF assms(2)] nth_mem [of "k - p" zs] by simp
    then obtain j where "j < n" "zs ! (k - p) = xs ! (p + j)" using assms(1) by (auto simp: in_set_conv_nth nth_seg)
    then show ?thesis using that nth by (intro exI [of _ "p + j"]) simp
  qed
  then show "rearr p n xs (put_seg xs p zs)" unfolding rearr_def using len ms nth by simp
qed

lemma in_order_sorted_seg:
  assumes "in_order xs (insert (p, n) S)" "apart p n S" "p + n \<le> length xs"
    and z: "mset zs = mset (seg xs p n)" "sorted_by zs"
  shows "in_order (put_seg xs p zs) S"
proof -
  have l: "length zs = n" using mset_eq_length [OF z(1)] assms(3) by simp
  have "le (put_seg xs p zs ! a) (put_seg xs p zs ! b)" if "p \<le> a" "a < b" "b < p + n" for a b
    using put_seg_rearr(2) [OF assms(3) z(1), of "a - p"] put_seg_rearr(2) [OF assms(3) z(1), of "b - p"] that z(2) l
    by (simp add: sorted_by_def)
  then show ?thesis
    using in_order_refine [OF assms(1,2) put_seg_rearr(1) [OF assms(3) z(1)] assms(3), of "{}"] by simp
qed

lemma in_order_partition:
  assumes "in_order xs (insert (p, n) S)" "apart p n S" "p + n \<le> length xs" "n > 6"
    and r: "rq_partition cmp (seg xs p n) = (ys, lt, gt)"
  shows "in_order (put_seg xs p ys) (insert (p, lt) (insert (p + gt, n - gt) S))"
    "lt < gt" "gt \<le> n" "mset (put_seg xs p ys) = mset xs" "length (put_seg xs p ys) = length xs"
proof -
  have l: "length (seg xs p n) = n" using assms(3) by simp
  from rq_partition_spec [OF r] assms(4) l obtain v where
    m: "mset ys = mset (seg xs p n)" and b: "lt < gt" "gt \<le> n"
    and v: "\<forall>k < lt. cmp v (ys ! k) > 0" "\<forall>k. lt \<le> k \<and> k < gt \<longrightarrow> cmp v (ys ! k) = 0"
      "\<forall>k. gt \<le> k \<and> k < n \<longrightarrow> cmp v (ys ! k) < 0" by auto
  note P = put_seg_rearr [OF assms(3) m]
  have low: "le (ys ! k) v" if "k < gt" for k
    using v(1,2) that sign [of "ys ! k" v] le_sym_zero [of v "ys ! k"] unfolding le_def by (metis less_imp_le not_less)
  have high: "le v (ys ! k)" if "lt \<le> k" "k < n" for k
    using v(2,3) that unfolding le_def by (metis less_imp_le not_less order_refl)
  have "le (put_seg xs p ys ! a) (put_seg xs p ys ! c)
      \<or> (\<exists>(q, m) \<in> {(p, lt), (p + gt, n - gt)}. q \<le> a \<and> c < q + m)" if ac: "p \<le> a" "a < c" "c < p + n" for a c
  proof -
    have e: "put_seg xs p ys ! a = ys ! (a - p)" "put_seg xs p ys ! c = ys ! (c - p)"
      using P(2) [of "a - p"] P(2) [of "c - p"] ac by simp_all
    consider "c < p + lt" | "p + gt \<le> a" | "a - p < gt" "lt \<le> c - p" using ac b by linarith
    then show ?thesis
    proof cases
      case 3
      then show ?thesis unfolding e using le_trans [OF low high] ac by simp
    qed (use ac b in auto)
  qed
  from in_order_refine [OF assms(1,2) P(1) assms(3) this]
  show "in_order (put_seg xs p ys) (insert (p, lt) (insert (p + gt, n - gt) S))" by simp
  show "lt < gt" "gt \<le> n" by (fact b)+
  show "mset (put_seg xs p ys) = mset xs" "length (put_seg xs p ys) = length xs"
    using P(1) by (simp_all add: rearr_def)
qed

lemma apart_sub: "apart p n S \<Longrightarrow> p \<le> q \<Longrightarrow> q + m \<le> p + n \<Longrightarrow> apart q m S"
  unfolding apart_def by fastforce

text \<open>The loop on one segment never overflows the stack, and keeps all of this.\<close>

lemma rq_segment_spec:
  "in_order xs (insert (p, n) (segs sp)) \<Longrightarrow> stack_ok (length xs) ((p, n, d) # sp) \<Longrightarrow>
    \<exists>ys sp1 p1 n1 d1. rq_segment cmp xs sp p n d = Some (ys, sp1, p1, n1) \<and> mset ys = mset xs \<and> length ys = length xs
      \<and> in_order ys (insert (p1, n1) (segs sp1)) \<and> stack_ok (length xs) ((p1, n1, d1) # sp1) \<and> length sp1 \<le> 50
      \<and> weight sp1 \<le> weight sp + 2 * n"
proof (induction "50 - d" arbitrary: xs sp p n d rule: less_induct)
  case less
  have ok: "p + n \<le> length xs" "apart p n (segs sp)" "stack_ok (length xs) sp"
    and dd: "length sp \<le> d" "d \<le> 50" using less(3) by simp_all
  show ?case
  proof (cases "n > 6")
    case False
    then have "rq_segment cmp xs sp p n d = Some (xs, sp, p, n)" by (subst rq_segment.simps) simp
    then show ?thesis using less(2,3) dd by auto
  next
    case n: True
    show ?thesis
    proof (cases "d = 50")
      case True
      let ?y = "put_seg xs p (heapsortx cmp (seg xs p n))"
      have h: "mset (heapsortx cmp (seg xs p n)) = mset (seg xs p n)" "sorted_by (heapsortx cmp (seg xs p n))"
        using heapsortx_sorts by auto
      have y: "in_order ?y (segs sp)" using in_order_sorted_seg [OF less(2) ok(2,1) h] .
      have "rearr p n xs ?y" using put_seg_rearr(1) [OF ok(1) h(1)] .
      then have m: "mset ?y = mset xs" "length ?y = length xs" by (simp_all add: rearr_def)
      have "in_order ?y (insert (p, 0) (segs sp))" using y unfolding in_order_def by fastforce
      moreover have "stack_ok (length xs) ((p, 0, d) # sp)" using ok dd apart_sub [OF ok(2), of p 0] by simp
      moreover have "rq_segment cmp xs sp p n d = Some (?y, sp, p, 0)" using n True by (subst rq_segment.simps) simp
      ultimately show ?thesis using m dd True by auto
    next
      case False
      then have d: "Suc d \<le> 50" "50 - Suc d < 50 - d" using dd(2) by simp_all
      obtain ys lt gt where r: "rq_partition cmp (seg xs p n) = (ys, lt, gt)" by (cases "rq_partition cmp (seg xs p n)")
      note P = in_order_partition [OF less(2) ok(2,1) n r]
      let ?y = "put_seg xs p ys" and ?L = "(p, lt, Suc d)" and ?G = "(p + gt, n - gt, Suc d)"
      have room: "\<not> length sp \<ge> 50" using dd d by simp
      have ap: "apart p lt (segs sp)" "apart (p + gt) (n - gt) (segs sp)"
        using apart_sub [OF ok(2)] P(2,3) by simp_all
      have so: "stack_ok (length ?y) (?G # ?L # sp)" "stack_ok (length ?y) (?L # ?G # sp)"
        using ok P(2,3,5) dd d ap by (auto simp: apart_def)
      have io: "in_order ?y (insert (p + gt, n - gt) (segs (?L # sp)))" "in_order ?y (insert (p, lt) (segs (?G # sp)))"
        using P(1) by (simp_all add: insert_commute)
      show ?thesis
      proof (cases "lt > n - gt")
        case True
        have "rq_segment cmp xs sp p n d = rq_segment cmp ?y (?L # sp) (p + gt) (n - gt) (Suc d)"
          using n d room r True by (subst rq_segment.simps) simp
        with less(1) [OF d(2) io(1) so(1)]  P(2-5) show ?thesis by (fastforce simp: weight_def)
      next
        case False
        have "rq_segment cmp xs sp p n d = rq_segment cmp ?y (?G # sp) p lt (Suc d)"
          using n d room r False by (subst rq_segment.simps) simp
        with less(1) [OF d(2) io(2) so(2)]  P(2-5) show ?thesis by (fastforce simp: weight_def)
      qed
    qed
  qed
qed

lemma stack_ok_length: "stack_ok len sp \<Longrightarrow> length sp \<le> 51"
  by (cases "(len, sp)" rule: stack_ok.cases) auto

lemma rq_loop_spec:
  "in_order xs (segs sp) \<Longrightarrow> stack_ok (length xs) sp \<Longrightarrow>
    \<exists>ys. rq_loop cmp xs sp = Some ys \<and> sorted_by ys \<and> mset ys = mset xs"
proof (induction "weight sp" arbitrary: xs sp rule: less_induct)
  case less
  show ?case
  proof (cases sp)
    case Nil
    then show ?thesis using less(2) by (subst rq_loop.simps) (simp add: in_order_def sorted_by_def)
  next
    case (Cons e sp')
    obtain p n d where e: "e = (p, n, d)" by (cases e)
    have o: "in_order xs (insert (p, n) (segs sp'))" "stack_ok (length xs) ((p, n, d) # sp')"
      using less(2,3) unfolding Cons e by simp_all
    from rq_segment_spec [OF o] obtain ys sp1 p1 n1 d1 where
      s: "rq_segment cmp xs sp' p n d = Some (ys, sp1, p1, n1)" "mset ys = mset xs" "length ys = length xs"
        "in_order ys (insert (p1, n1) (segs sp1))" "stack_ok (length xs) ((p1, n1, d1) # sp1)" "weight sp1 \<le> weight sp' + 2 * n"
      by blast
    let ?z = "insertion_sort cmp (seg ys p1 n1) 1"
    have ins: "sorted_by ?z" "mset ?z = mset (seg ys p1 n1)"
      using insertion_sort_spec [of 1 "seg ys p1 n1"] by auto
    have ok1: "apart p1 n1 (segs sp1)" "p1 + n1 \<le> length ys" "stack_ok (length ys) sp1" using s(3,5) by simp_all
    have y: "in_order (put_seg ys p1 ?z) (segs sp1)" by (rule in_order_sorted_seg [OF s(4) ok1(1,2) ins(2,1)])
    have "rearr p1 n1 ys (put_seg ys p1 ?z)" by (rule put_seg_rearr(1) [OF ok1(2) ins(2)])
    then have m: "mset (put_seg ys p1 ?z) = mset xs" "length (put_seg ys p1 ?z) = length ys"
      using s(2) by (simp_all add: rearr_def)
    have "weight sp1 < weight sp" using s(6) unfolding Cons e by (simp add: weight_def)
    from less(1) [OF this y] ok1(3) m show ?thesis
      unfolding Cons e by (subst rq_loop.simps) (simp add: s(1))
  qed
qed

lemma rqsort_spec: "\<exists>ys. rqsort cmp xs = Some ys \<and> sorted_by ys \<and> mset ys = mset xs"
proof (cases "length xs < 2")
  case True
  then show ?thesis by (auto simp: rqsort_def sorted_by_def)
next
  case False
  have "in_order xs (segs [(0, length xs, 0)])" by (auto simp: in_order_def)
  from rq_loop_spec [OF this] False show ?thesis by (simp add: rqsort_def apart_def)
qed

end

section \<open>The exchange functions\<close>

text \<open>Exchanging \<open>n\<close> bytes at \<open>a\<close> and at \<open>b\<close>.\<close>

definition swap_mem :: "u8 list \<Rightarrow> nat \<Rightarrow> nat \<Rightarrow> nat \<Rightarrow> u8 list" where
  "swap_mem mem a b n = map (\<lambda>k. if a \<le> k \<and> k < a + n then mem ! (b + (k - a))
     else if b \<le> k \<and> k < b + n then mem ! (a + (k - b)) else mem ! k) [0..<length mem]"

definition disjoint_ranges :: "u8 list \<Rightarrow> nat \<Rightarrow> nat \<Rightarrow> nat \<Rightarrow> bool" where
  "disjoint_ranges mem a b n \<longleftrightarrow> a + n \<le> length mem \<and> b + n \<le> length mem \<and> (a + n \<le> b \<or> b + n \<le> a)"

lemma nth_store:
  "a + length v \<le> length mem \<Longrightarrow> length (store mem a v) = length mem
    \<and> store mem a v ! k = (if a \<le> k \<and> k < a + length v then v ! (k - a) else mem ! k)"
proof -
  assume l: "a + length v \<le> length mem"
  then have "length (take a mem) = a" by simp
  then show ?thesis using l unfolding store_def by (auto simp: nth_append)
qed

lemma load_spec: "a + w \<le> length mem \<Longrightarrow> length (load w mem a) = w \<and> (\<forall>k < w. load w mem a ! k = mem ! (a + k))"
  by (auto simp: load_def)

lemma exchange_word_swap:
  assumes "disjoint_ranges mem a b w"
  shows "exchange_word w mem a b = swap_mem mem a b w"
proof -
  have l: "length (load w mem a) = w" "length (load w mem b) = w" "\<And>k. k < w \<Longrightarrow> load w mem a ! k = mem ! (a + k)"
    "\<And>k. k < w \<Longrightarrow> load w mem b ! k = mem ! (b + k)"
    using assms load_spec [of a w mem] load_spec [of b w mem] by (auto simp: disjoint_ranges_def)
  have s1: "length (store mem a (load w mem b)) = length mem"
    "\<And>k. store mem a (load w mem b) ! k = (if a \<le> k \<and> k < a + w then load w mem b ! (k - a) else mem ! k)"
    using nth_store [of a "load w mem b" mem] assms l by (simp_all add: disjoint_ranges_def)
  have s2: "length (exchange_word w mem a b) = length mem"
    "\<And>k. exchange_word w mem a b ! k = (if b \<le> k \<and> k < b + w then load w mem a ! (k - b) else store mem a (load w mem b) ! k)"
    using nth_store [of b "load w mem a" "store mem a (load w mem b)"] assms l s1(1)
    by (simp_all add: disjoint_ranges_def exchange_word_def Let_def)
  show ?thesis
    by (rule nth_equalityI) (use assms in \<open>auto simp: s1 s2 l swap_mem_def disjoint_ranges_def\<close>)
qed

lemma length_swap_mem [simp]: "length (swap_mem mem a b n) = length mem"
  by (simp add: swap_mem_def)

lemma swap_mem_0 [simp]: "swap_mem mem a b 0 = mem"
  by (intro nth_equalityI) (auto simp: swap_mem_def)

lemma nth_swap_mem:
  "k < length mem \<Longrightarrow> swap_mem mem a b n ! k = (if a \<le> k \<and> k < a + n then mem ! (b + (k - a))
     else if b \<le> k \<and> k < b + n then mem ! (a + (k - b)) else mem ! k)"
  by (simp add: swap_mem_def)

lemma swap_mem_append:
  assumes d: "disjoint_ranges mem a b (m + n)"
  shows "swap_mem (swap_mem mem a b m) (a + m) (b + m) n = swap_mem mem a b (m + n)"
proof (rule nth_equalityI)
  fix k assume "k < length (swap_mem (swap_mem mem a b m) (a + m) (b + m) n)"
  then have k: "k < length mem" by simp
  have r: "a + (m + n) \<le> length mem" "b + (m + n) \<le> length mem" "a + (m + n) \<le> b \<or> b + (m + n) \<le> a"
    using d by (simp_all add: disjoint_ranges_def)
  consider "a \<le> k" "k < a + m" | "a + m \<le> k" "k < a + (m + n)" | "b \<le> k" "k < b + m" | "b + m \<le> k" "k < b + (m + n)"
    | "k < a \<or> a + (m + n) \<le> k" "k < b \<or> b + (m + n) \<le> k" by linarith
  then show "swap_mem (swap_mem mem a b m) (a + m) (b + m) n ! k = swap_mem mem a b (m + n) ! k"
  proof cases
    case 1
    then show ?thesis using r k by (auto simp: nth_swap_mem)
  next
    case 2
    then have "b + m + (k - (a + m)) = b + (k - a)" by simp
    then show ?thesis using 2 r k by (auto simp: nth_swap_mem)
  next
    case 3
    then show ?thesis using r k by (auto simp: nth_swap_mem)
  next
    case 4
    then have "a + m + (k - (b + m)) = a + (k - b)" by simp
    then show ?thesis using 4 r k by (auto simp: nth_swap_mem)
  next
    case 5
    then have "\<not> (a \<le> k \<and> k < a + m)" "\<not> (a + m \<le> k \<and> k < a + m + n)" "\<not> (b \<le> k \<and> k < b + m)"
      "\<not> (b + m \<le> k \<and> k < b + m + n)" "\<not> (a \<le> k \<and> k < a + (m + n))" "\<not> (b \<le> k \<and> k < b + (m + n))"
      by linarith+
    then show ?thesis using k by (simp only: nth_swap_mem length_swap_mem if_False)
  qed
qed simp

lemma exchange_words_swap:
  "disjoint_ranges mem a b (n * w) \<Longrightarrow> exchange_words w n mem a b = swap_mem mem a b (n * w)"
proof (induction n arbitrary: mem a b)
  case (Suc n)
  have d: "disjoint_ranges mem a b w" "disjoint_ranges (swap_mem mem a b w) (a + w) (b + w) (n * w)"
    "disjoint_ranges mem a b (w + n * w)"
    using Suc(2) by (auto simp: disjoint_ranges_def)
  show ?case using Suc(1) [OF d(2)] exchange_word_swap [OF d(1)] swap_mem_append [OF d(3)] by simp
qed simp

lemma exchange_one_int128_swap:
  assumes "disjoint_ranges mem a b 16"
  shows "exchange_one_int128 mem a b n = swap_mem mem a b 16"
proof -
  have r: "a + 16 \<le> length mem" "b + 16 \<le> length mem" "a + 16 \<le> b \<or> b + 16 \<le> a"
    using assms by (simp_all add: disjoint_ranges_def)
  define m1 where "m1 = store mem a (load 8 mem b)"
  define m2 where "m2 = store m1 (a + 8) (load 8 m1 (b + 8))"
  define m3 where "m3 = store m2 b (load 8 mem a)"
  define m4 where "m4 = store m3 (b + 8) (load 8 mem (a + 8))"
  have l: "length (load 8 mem a) = 8" "length (load 8 mem b) = 8" "length (load 8 mem (a + 8)) = 8"
    "\<And>k. k < 8 \<Longrightarrow> load 8 mem a ! k = mem ! (a + k)" "\<And>k. k < 8 \<Longrightarrow> load 8 mem b ! k = mem ! (b + k)"
    "\<And>k. k < 8 \<Longrightarrow> load 8 mem (a + 8) ! k = mem ! (a + 8 + k)"
    using load_spec [of a 8 mem] load_spec [of b 8 mem] load_spec [of "a + 8" 8 mem] r by auto
  have m1: "length m1 = length mem" "\<And>k. m1 ! k = (if a \<le> k \<and> k < a + 8 then load 8 mem b ! (k - a) else mem ! k)"
    using nth_store [of a "load 8 mem b" mem] r l(2) unfolding m1_def by simp_all
  have l1: "length (load 8 m1 (b + 8)) = 8" "\<And>k. k < 8 \<Longrightarrow> load 8 m1 (b + 8) ! k = mem ! (b + 8 + k)"
    using load_spec [of "b + 8" 8 m1] r m1 by auto
  have m2: "length m2 = length mem" "\<And>k. m2 ! k = (if a + 8 \<le> k \<and> k < a + 16 then load 8 m1 (b + 8) ! (k - (a + 8)) else m1 ! k)"
    using nth_store [of "a + 8" "load 8 m1 (b + 8)" m1] r l1(1) m1(1) unfolding m2_def by simp_all
  have m3: "length m3 = length mem" "\<And>k. m3 ! k = (if b \<le> k \<and> k < b + 8 then load 8 mem a ! (k - b) else m2 ! k)"
    using nth_store [of b "load 8 mem a" m2] r l(1) m2(1) unfolding m3_def by simp_all
  have m4: "length m4 = length mem" "\<And>k. m4 ! k = (if b + 8 \<le> k \<and> k < b + 16 then load 8 mem (a + 8) ! (k - (b + 8)) else m3 ! k)"
    using nth_store [of "b + 8" "load 8 mem (a + 8)" m3] r l(3) m3(1) unfolding m4_def by simp_all
  have "m4 = swap_mem mem a b 16"
  proof (rule nth_equalityI)
    fix k assume "k < length m4"
    then have k: "k < length mem" using m4(1) by simp
    consider "a \<le> k" "k < a + 8" | "a + 8 \<le> k" "k < a + 16" | "b \<le> k" "k < b + 8" | "b + 8 \<le> k" "k < b + 16"
      | "\<not> (a \<le> k \<and> k < a + 16)" "\<not> (b \<le> k \<and> k < b + 16)" by linarith
    then show "m4 ! k = swap_mem mem a b 16 ! k"
    proof cases
      case 1
      then show ?thesis using r(3) unfolding m4(2) m3(2) m2(2) m1(2) nth_swap_mem [OF k] by (auto simp: l)
    next
      case 2
      then have "b + 8 + (k - (a + 8)) = b + (k - a)" by simp
      then show ?thesis using 2 r(3) unfolding m4(2) m3(2) m2(2) m1(2) nth_swap_mem [OF k] by (auto simp: l1)
    next
      case 3
      then show ?thesis using r(3) unfolding m4(2) m3(2) nth_swap_mem [OF k] by (auto simp: l)
    next
      case 4
      then have "a + 8 + (k - (b + 8)) = a + (k - b)" by simp
      then show ?thesis using 4 r(3) unfolding m4(2) nth_swap_mem [OF k] by (auto simp: l)
    next
      case 5
      then have "\<not> (a \<le> k \<and> k < a + 8)" "\<not> (a + 8 \<le> k \<and> k < a + 16)" "\<not> (b \<le> k \<and> k < b + 8)" "\<not> (b + 8 \<le> k \<and> k < b + 16)"
        by linarith+
      then show ?thesis using 5 unfolding m4(2) m3(2) m2(2) m1(2) nth_swap_mem [OF k] by (simp only: if_False)
    qed
  qed (simp add: m4(1))
  then show ?thesis unfolding m4_def m3_def m2_def m1_def exchange_one_int128_def Let_def .
qed

lemma exchange_pairs_swap:
  "disjoint_ranges mem a b (n * 16) \<Longrightarrow> exchange_pairs n mem a b = swap_mem mem a b (n * 16)"
proof (induction n arbitrary: mem a b)
  case (Suc n)
  have d: "disjoint_ranges mem a b 16" "disjoint_ranges (swap_mem mem a b 16) (a + 16) (b + 16) (n * 16)"
    "disjoint_ranges mem a b (16 + n * 16)"
    using Suc(2) by (auto simp: disjoint_ranges_def)
  show ?case using Suc(1) [OF d(2)] exchange_one_int128_swap [OF d(1)] swap_mem_append [OF d(3)] by simp
qed simp

text \<open>The low four bits of \<open>base\<close> or \<open>size\<close> bound the alignment of the size.\<close>

lemma or_low_bits:
  fixes b s :: nat
  shows "(b OR s) AND 15 = 0 \<Longrightarrow> s mod 16 = 0" "(b OR s) AND 15 = 8 \<Longrightarrow> s mod 8 = 0"
    "(b OR s) AND 15 \<in> {4, 12} \<Longrightarrow> s mod 4 = 0" "(b OR s) AND 15 \<in> {2, 6, 10, 14} \<Longrightarrow> s mod 2 = 0"
proof -
  have low: "s mod 2 ^ j = 0" if z: "\<And>i. i < j \<Longrightarrow> \<not> bit ((b OR s) AND 15) i" "j \<le> 4" for j
  proof -
    have "\<not> bit s i" if i: "i < j" for i
    proof -
      have e: "(15 :: nat) = mask 4" by (simp add: mask_eq_exp_minus_1)
      have "bit (15 :: nat) i" unfolding e using i \<open>j \<le> 4\<close> by (subst bit_mask_iff) simp
      then show ?thesis using z(1) [OF i] by (simp add: bit_simps)
    qed
    then have "take_bit j s = 0" by (intro bit_eqI) (auto simp: bit_simps)
    then show ?thesis by (simp add: take_bit_eq_mod)
  qed
  have small: "i < 3 \<Longrightarrow> i = 0 \<or> i = 1 \<or> i = 2" "i < 2 \<Longrightarrow> i = 0 \<or> i = 1" for i :: nat by auto
  have z8: "\<not> bit (8 :: nat) i" if "i < 3" for i using small(1) [OF that] by (auto simp: bit_iff_odd)
  have z4: "\<not> bit k i" if "i < 2" "k \<in> {4, 12 :: nat}" for i k using small(2) [OF that(1)] that(2) by (auto simp: bit_iff_odd)
  show "(b OR s) AND 15 = 0 \<Longrightarrow> s mod 16 = 0" using low [of 4] by simp
  show "(b OR s) AND 15 = 8 \<Longrightarrow> s mod 8 = 0" using low [of 3] z8 by simp
  show "(b OR s) AND 15 \<in> {4, 12} \<Longrightarrow> s mod 4 = 0" using low [of 2] z4 by fastforce
  show "(b OR s) AND 15 \<in> {2, 6, 10, 14} \<Longrightarrow> s mod 2 = 0" using low [of 1] by (auto simp: bit_iff_odd)
qed

lemma exchange_by_size:
  assumes "disjoint_ranges mem a b n"
  shows "n mod 16 = 0 \<Longrightarrow> exchange_int128s mem a b n = swap_mem mem a b n"
    "n mod 8 = 0 \<Longrightarrow> exchange_int64s mem a b n = swap_mem mem a b n"
    "n mod 4 = 0 \<Longrightarrow> exchange_int32s mem a b n = swap_mem mem a b n"
    "n mod 2 = 0 \<Longrightarrow> exchange_int16s mem a b n = swap_mem mem a b n"
    "exchange_bytes mem a b n = swap_mem mem a b n"
proof -
  have w: "exchange_words w (n div w) mem a b = swap_mem mem a b n" if "n mod w = 0" for w
  proof -
    have "n div w * w = n" using that by auto
    then show ?thesis using exchange_words_swap [of mem a b "n div w" w] assms by simp
  qed
  show "n mod 16 = 0 \<Longrightarrow> exchange_int128s mem a b n = swap_mem mem a b n"
  proof -
    assume "n mod 16 = 0"
    then have "n div 16 * 16 = n" by auto
    then show ?thesis using exchange_pairs_swap [of mem a b "n div 16"] assms by (simp add: exchange_int128s_def)
  qed
  show "n mod 8 = 0 \<Longrightarrow> exchange_int64s mem a b n = swap_mem mem a b n"
    "n mod 4 = 0 \<Longrightarrow> exchange_int32s mem a b n = swap_mem mem a b n"
    "n mod 2 = 0 \<Longrightarrow> exchange_int16s mem a b n = swap_mem mem a b n"
    by (simp_all add: w exchange_int64s_def exchange_int32s_def exchange_int16s_def)
  show "exchange_bytes mem a b n = swap_mem mem a b n" using w [of 1] by (simp add: exchange_bytes_def)
qed

lemma exchange_one:
  assumes "disjoint_ranges mem a b n"
  shows "n = 16 \<Longrightarrow> exchange_one_int128 mem a b n = swap_mem mem a b n"
    "n = 8 \<Longrightarrow> exchange_one_int64 mem a b n = swap_mem mem a b n"
    "n = 4 \<Longrightarrow> exchange_one_int32 mem a b n = swap_mem mem a b n"
    "n = 2 \<Longrightarrow> exchange_one_int16 mem a b n = swap_mem mem a b n"
    "n = 1 \<Longrightarrow> exchange_one_byte mem a b n = swap_mem mem a b n"
  using assms exchange_one_int128_swap [of mem a b n] exchange_word_swap [of mem a b n]
  by (simp_all add: exchange_one_int64_def exchange_one_int32_def exchange_one_int16_def exchange_one_byte_def)

lemma exchange_func_cases:
  fixes base sz :: nat
  obtains "exchange_func base sz = exchange_one_int128" "sz = 16" | "exchange_func base sz = exchange_int128s" "sz mod 16 = 0"
  | "exchange_func base sz = exchange_one_int64" "sz = 8" | "exchange_func base sz = exchange_int64s" "sz mod 8 = 0"
  | "exchange_func base sz = exchange_one_int32" "sz = 4" | "exchange_func base sz = exchange_int32s" "sz mod 4 = 0"
  | "exchange_func base sz = exchange_one_int16" "sz = 2" | "exchange_func base sz = exchange_int16s" "sz mod 2 = 0"
  | "exchange_func base sz = exchange_one_byte" "sz = 1" | "exchange_func base sz = exchange_bytes"
proof -
  let ?k = "(base OR sz) AND 15"
  note lb = or_low_bits [of base sz]
  consider (k0) "?k = 0" | (k8) "?k = 8" | (k4) "?k \<in> {4, 12}" | (k2) "?k \<in> {2, 6, 10, 14}" | (odd) "?k \<notin> {0, 8, 4, 12, 2, 6, 10, 14}"
    by auto
  then show thesis
  proof cases
    case k0
    then show ?thesis using that(1,2) lb(1) by (cases "sz = 16") (simp_all add: exchange_func_def)
  next
    case k8
    then show ?thesis using that(3,4) lb(2) by (cases "sz = 8") (simp_all add: exchange_func_def)
  next
    case k4
    then show ?thesis using that(5,6) lb(3) by (cases "sz = 4") (auto simp: exchange_func_def)
  next
    case k2
    then show ?thesis using that(7,8) lb(4) by (cases "sz = 2") (auto simp: exchange_func_def)
  next
    case odd
    then show ?thesis using that(9,10) by (cases "sz = 1") (simp_all add: exchange_func_def)
  qed
qed

lemma exchange_func_swaps:
  assumes "disjoint_ranges mem a b sz"
  shows "exchange_func base sz mem a b sz = swap_mem mem a b sz"
  by (cases rule: exchange_func_cases [of base sz]) (use assms in \<open>auto simp: exchange_one exchange_by_size\<close>)

lemma or_128_large: "(s OR 128 :: nat) \<notin> {16, 8, 4, 2, 1}"
proof
  assume "(s OR 128) \<in> {16, 8, 4, 2, 1 :: nat}"
  then have "(s OR 128) AND 128 \<in> {16 AND 128, 8 AND 128, 4 AND 128, 2 AND 128, 1 AND 128 :: nat}" by auto
  moreover have "(s OR 128) AND 128 = (128 :: nat)" by (rule bit_eqI) (auto simp: bit_simps)
  ultimately show False by simp
qed

text \<open>With \<open>size | 128\<close> a function for spans is chosen: it exchanges any multiple of the size.\<close>

lemma exchange_func_block:
  assumes "disjoint_ranges mem a b (m * sz)"
  shows "exchange_func base (sz OR 128) mem a b (m * sz) = swap_mem mem a b (m * sz)"
proof -
  have "take_bit j sz = 0" if "take_bit j (sz OR 128) = 0" "take_bit j (128 :: nat) = 0" for j
    using that by (simp add: take_bit_or)
  from this [of 4] this [of 3] this [of 2] this [of 1]
  have low: "(sz OR 128) mod 16 = 0 \<Longrightarrow> sz mod 16 = 0" "(sz OR 128) mod 8 = 0 \<Longrightarrow> sz mod 8 = 0"
    "(sz OR 128) mod 4 = 0 \<Longrightarrow> sz mod 4 = 0" "(sz OR 128) mod 2 = 0 \<Longrightarrow> sz mod 2 = 0"
    by (simp_all add: take_bit_eq_mod)
  have d: "sz mod w = 0 \<Longrightarrow> (m * sz) mod w = 0" for w by (metis mod_mult_right_eq mult_0_right mod_0)
  note by_size = exchange_by_size(1) [OF assms d, OF low(1)] exchange_by_size(2) [OF assms d, OF low(2)]
    exchange_by_size(3) [OF assms d, OF low(3)] exchange_by_size(4) [OF assms d, OF low(4)] exchange_by_size(5) [OF assms]
  show ?thesis
    using or_128_large [of sz]
    by (cases rule: exchange_func_cases [of base "sz OR 128"]) (simp_all add: by_size)
qed

lemma store_load_same: "a + w \<le> length mem \<Longrightarrow> store mem a (load w mem a) = mem"
proof -
  assume "a + w \<le> length mem"
  then have "store mem a (load w mem a) = take a mem @ (take w (drop a mem) @ drop w (drop a mem))"
    by (simp add: store_def load_def add.commute)
  then show ?thesis by (simp only: append_take_drop_id)
qed

lemma exchange_word_same: "a + w \<le> length mem \<Longrightarrow> exchange_word w mem a a = mem"
  by (simp add: exchange_word_def store_load_same)

lemma exchange_words_same: "a + n * w \<le> length mem \<Longrightarrow> exchange_words w n mem a a = mem"
  by (induction n arbitrary: a) (simp_all add: exchange_word_same)

lemma exchange_one_int128_same: "a + 16 \<le> length mem \<Longrightarrow> exchange_one_int128 mem a a n = mem"
  by (simp add: exchange_one_int128_def store_load_same)

lemma exchange_pairs_same: "a + n * 16 \<le> length mem \<Longrightarrow> exchange_pairs n mem a a = mem"
  by (induction n arbitrary: a) (simp_all add: exchange_one_int128_same)

lemma exchange_func_same: "a + sz \<le> length mem \<Longrightarrow> exchange_func base sz mem a a sz = mem"
proof -
  assume a: "a + sz \<le> length mem"
  have "a + sz div w * w \<le> length mem" for w using a div_times_less_eq_dividend [of sz w] by linarith
  note w = exchange_words_same [OF this] exchange_pairs_same [OF this]
  show ?thesis
    using w a by (cases rule: exchange_func_cases [of base sz])
      (simp_all add: exchange_one_int64_def exchange_one_int32_def exchange_one_int16_def exchange_one_byte_def exchange_int64s_def
        exchange_int32s_def exchange_int16s_def exchange_bytes_def exchange_int128s_def exchange_words_same exchange_word_same
        exchange_one_int128_same)
qed

text \<open>The elements of an array in memory.\<close>

definition elems :: "nat \<Rightarrow> nat \<Rightarrow> nat \<Rightarrow> u8 list \<Rightarrow> u8 list list" where
  "elems sz base n mem = map (\<lambda>i. load sz mem (base + i * sz)) [0..<n]"

lemma elem_apart: "i < j \<Longrightarrow> base + i * sz + sz \<le> base + j * (sz :: nat)"
  using mult_le_mono1 [of "Suc i" j sz] by simp

lemma elem_fits: "base + n * sz \<le> len \<Longrightarrow> i < n \<Longrightarrow> base + i * sz + sz \<le> (len :: nat)"
  using elem_apart [of i n base sz] by linarith

lemma load_swap_mem:
  assumes d: "disjoint_ranges mem a b sz"
  shows "load sz (swap_mem mem a b sz) a = load sz mem b" "load sz (swap_mem mem a b sz) b = load sz mem a"
    "c + sz \<le> length mem \<Longrightarrow> a + sz \<le> c \<or> c + sz \<le> a \<Longrightarrow> b + sz \<le> c \<or> c + sz \<le> b \<Longrightarrow> load sz (swap_mem mem a b sz) c = load sz mem c"
  using d by (auto simp: load_def disjoint_ranges_def nth_swap_mem intro!: nth_equalityI)

lemma exchange_elems:
  assumes "base + n * sz \<le> length mem" "i < n" "j < n"
  shows "elems sz base n (exchange_func base sz mem (base + i * sz) (base + j * sz) sz) = swap_elts (elems sz base n mem) i j"
proof (cases "i = j")
  case True
  then show ?thesis using exchange_func_same elem_fits [OF assms(1,2)] by (simp add: swap_elts_def list_update_id)
next
  case False
  have ap: "base + k * sz + sz \<le> base + l * sz \<or> base + l * sz + sz \<le> base + k * sz" if "k \<noteq> l" for k l
    using elem_apart [of k l base sz] elem_apart [of l k base sz] that by linarith
  have d: "disjoint_ranges mem (base + i * sz) (base + j * sz) sz"
    using elem_fits [OF assms(1,2)] elem_fits [OF assms(1,3)] ap [OF False] by (auto simp: disjoint_ranges_def)
  show ?thesis
    unfolding exchange_func_swaps [OF d]
  proof (rule nth_equalityI)
    fix k assume "k < length (elems sz base n (swap_mem mem (base + i * sz) (base + j * sz) sz))"
    then have k: "k < n" by (simp add: elems_def)
    have s: "swap_elts (elems sz base n mem) i j ! k = load sz mem (base + (if k = i then j else if k = j then i else k) * sz)"
      using assms k by (subst swap_elts_nth) (simp_all add: elems_def)
    show "elems sz base n (swap_mem mem (base + i * sz) (base + j * sz) sz) ! k = swap_elts (elems sz base n mem) i j ! k"
      unfolding s using load_swap_mem [OF d] elem_fits [OF assms(1) k] ap [of i k] ap [of j k] False k
      by (auto simp: elems_def)
  qed (simp add: elems_def)
qed

end
