(* ===== verification/RangeSort.thy ===== *)
theory RangeSort
  imports CharRanges RqsortProofs
begin

text \<open>
  Sorting the intervals of a character range (\<open>cr_sort_and_remove_overlap\<close> of libunicode.c), and the
  properties of the sorting routine it calls.
\<close>

section \<open>The comparison of intervals\<close>

text \<open>\<open>point_cmp\<close> looks at the first word of an element, the start of the interval.\<close>

definition point_cmp :: "(u32 \<times> u32) cmp_f" where
  "point_cmp x y = of_bool (fst x > fst y) - of_bool (fst x < fst y)"

interpretation point: comparison point_cmp
  by unfold_locales (auto simp: point_cmp_def split: if_splits)

lemma point_le: "point.le x y \<longleftrightarrow> fst x \<le> fst y"
  by (auto simp: point.le_def point_cmp_def)

section \<open>Removing overlaps\<close>

text \<open>The inner loop extends the end of the current interval over those that start at or below it.\<close>

function overlap_end :: "u32 list \<Rightarrow> nat \<Rightarrow> u32 \<Rightarrow> nat \<times> u32" where
  "overlap_end pt i en =
    (if i < length pt then
       if pt ! i > en then (i, en)
       else if pt ! (i + 1) \<le> en then overlap_end pt (i + 2) en
       else overlap_end pt (i + 2) (pt ! (i + 1))
     else (i, en))"
  by auto
termination by (relation "measure (\<lambda>(pt, i, en). length pt - i)") auto

declare overlap_end.simps [simp del]

lemma overlap_end_ge: "i \<le> fst (overlap_end pt i en)"
proof (induction pt i en rule: overlap_end.induct)
  case (1 pt i en)
  then show ?case by (subst overlap_end.simps) (auto simp: Let_def)
qed

function overlap_loop :: "u32 list \<Rightarrow> nat \<Rightarrow> nat \<Rightarrow> u32 list \<times> nat" where
  "overlap_loop pt i j =
    (if i < length pt then
       (let (i', en) = overlap_end pt (i + 2) (pt ! (i + 1)) in overlap_loop (pt[j := pt ! i, j + 1 := en]) i' (j + 2))
     else (pt, j))"
  by auto
termination
proof (relation "measure (\<lambda>(pt, i, j). length pt - i)", goal_cases)
  case (2 pt i j x i' en)
  then show ?case using overlap_end_ge [of "i + 2" pt "pt ! (i + 1)"] by (simp add: prod_eq_iff)
qed simp

declare overlap_loop.simps [simp del]

definition points_of :: "(u32 \<times> u32) list \<Rightarrow> u32 list" where
  "points_of ps = concat (map (\<lambda>(a, b). [a, b]) ps)"

text \<open>\<open>None\<close> would be an overflow of the stack of the sorting routine.\<close>

definition cr_sort_and_remove_overlap :: "'m crange \<Rightarrow> 'm crange option" where
  "cr_sort_and_remove_overlap cr = (case rqsort point_cmp (intervals (cr_points cr)) of
     None \<Rightarrow> None
   | Some ps \<Rightarrow> (let (pt, j) = overlap_loop (points_of ps) 0 0 in Some (cr\<lparr>cr_points := take j pt\<rparr>)))"

section \<open>The loop on lists of intervals\<close>

fun absorb :: "u32 \<Rightarrow> (u32 \<times> u32) list \<Rightarrow> u32 \<times> (u32 \<times> u32) list" where
  "absorb en [] = (en, [])"
| "absorb en ((s1, e1) # ps) = (if s1 > en then (en, (s1, e1) # ps) else if e1 \<le> en then absorb en ps else absorb e1 ps)"

lemma absorb_length: "length (snd (absorb en ps)) \<le> length ps"
  by (induction en ps rule: absorb.induct) auto

function merged :: "(u32 \<times> u32) list \<Rightarrow> (u32 \<times> u32) list" where
  "merged [] = []"
| "merged ((s, e) # ps) = (s, fst (absorb e ps)) # merged (snd (absorb e ps))"
  by pat_completeness auto
termination by (relation "measure length") (auto simp: le_imp_less_Suc absorb_length)

lemma points_of_simps [simp]: "points_of [] = []" "points_of ((a, b) # ps) = a # b # points_of ps"
  by (simp_all add: points_of_def)

lemma length_points_of [simp]: "length (points_of ps) = 2 * length ps"
  by (induction ps) auto

lemma points_of_eq_Nil [simp]: "points_of ps = [] \<longleftrightarrow> ps = []"
  by (cases ps) auto

lemma intervals_points_of [simp]: "intervals (points_of ps) = ps"
  by (induction ps) auto

lemma points_of_intervals: "even (length pts) \<Longrightarrow> points_of (intervals pts) = pts"
  by (induction pts rule: intervals.induct) auto

lemma drop_pair: "drop i pt = a # b # r \<Longrightarrow> i + 1 < length pt \<and> pt ! i = a \<and> pt ! (i + 1) = b \<and> drop (i + 2) pt = r"
proof -
  assume d: "drop i pt = a # b # r"
  have "length (drop i pt) = Suc (Suc (length r))" unfolding d by simp
  then have l: "i + 1 < length pt" unfolding length_drop by simp
  moreover have "pt ! i = a" "pt ! (i + 1) = b" using d l nth_drop [of i pt 0] nth_drop [of i pt 1] by simp_all
  moreover have "drop (i + 2) pt = r" using arg_cong [OF d, of "drop 2"] by (simp add: add.commute)
  ultimately show ?thesis by simp
qed

lemma overlap_end_absorb:
  "drop i pt = points_of ps \<Longrightarrow> overlap_end pt i en = (i', en') \<Longrightarrow>
    en' = fst (absorb en ps) \<and> drop i' pt = points_of (snd (absorb en ps))"
proof (induction ps arbitrary: i en)
  case Nil
  then show ?case by (subst (asm) overlap_end.simps) auto
next
  case (Cons p ps)
  obtain a b where p: "p = (a, b)" by (cases p)
  from drop_pair [of i pt a b "points_of ps"] Cons(2) p
  have d: "i + 1 < length pt" "pt ! i = a" "pt ! (i + 1) = b" "drop (i + 2) pt = points_of ps" by simp_all
  have i: "i < length pt" using d(1) by simp
  have o: "overlap_end pt i en = (if a > en then (i, en) else if b \<le> en then overlap_end pt (i + 2) en else overlap_end pt (i + 2) b)"
    by (subst overlap_end.simps) (simp only: i d(2,3) if_True)
  consider "a > en" | "\<not> a > en" "b \<le> en" | "\<not> a > en" "\<not> b \<le> en" by blast
  then show ?case
  proof cases
    case 1
    then show ?thesis using o Cons(2,3) p by simp
  next
    case 2
    then show ?thesis using Cons(1) [OF d(4), of en] o Cons(3) p by simp
  next
    case 3
    then show ?thesis using Cons(1) [OF d(4), of b] o Cons(3) p by simp
  qed
qed

lemma overlap_loop_merged:
  "drop i pt = points_of ps \<Longrightarrow> j \<le> i \<Longrightarrow> overlap_loop pt i j = (pt', j') \<Longrightarrow>
    take j' pt' = take j pt @ points_of (merged ps)"
proof (induction ps arbitrary: pt i j rule: merged.induct)
  case 1
  then show ?case by (subst (asm) overlap_loop.simps) auto
next
  case (2 s e ps)
  from drop_pair [of i pt s e "points_of ps"] 2(2)
  have d: "i + 1 < length pt" "pt ! i = s" "pt ! (i + 1) = e" "drop (i + 2) pt = points_of ps" by simp_all
  obtain i' en where o: "overlap_end pt (i + 2) e = (i', en)" by (cases "overlap_end pt (i + 2) e")
  note a = overlap_end_absorb [OF d(4) o]
  have ge: "i + 2 \<le> i'" using overlap_end_ge [of "i + 2" pt e] o by simp
  let ?pt = "pt[j := s, j + 1 := en]"
  have "drop i' ?pt = points_of (snd (absorb e ps))" using a ge 2(3) by (simp add: drop_update_swap)
  moreover have "overlap_loop ?pt i' (j + 2) = (pt', j')"
    using 2(4) d(1) o by (subst (asm) overlap_loop.simps) (simp add: d(2,3) [simplified])
  moreover have "j + 2 \<le> i'" using ge 2(3) by simp
  ultimately have "take j' pt' = take (j + 2) ?pt @ points_of (merged (snd (absorb e ps)))" by (intro 2(1)) 
  then show ?case using take_update_pair [of j pt s en] d(1) 2(3) a by simp
qed

section \<open>Merging keeps the set\<close>

definition covered :: "(u32 \<times> u32) list \<Rightarrow> u32 set" where
  "covered ps = (\<Union>(a, b) \<in> set ps. {a..<b})"

lemma covered_simps [simp]: "covered [] = {}" "covered ((a, b) # ps) = {a..<b} \<union> covered ps"
  by (auto simp: covered_def)

definition by_start :: "(u32 \<times> u32) list \<Rightarrow> bool" where
  "by_start ps \<longleftrightarrow> sorted (map fst ps) \<and> (\<forall>(a, b) \<in> set ps. a \<le> b)"

lemma by_start_Cons: "by_start ((a, b) # ps) \<longleftrightarrow> a \<le> b \<and> (\<forall>p \<in> set ps. a \<le> fst p) \<and> by_start ps"
  by (auto simp: by_start_def)

lemma absorb_covered:
  "absorb e ps = (e', ps') \<Longrightarrow> by_start ((s, e) # ps) \<Longrightarrow>
    {s..<e'} \<union> covered ps' = {s..<e} \<union> covered ps \<and> by_start ((s, e') # ps') \<and> (\<forall>p \<in> set ps'. e' < fst p)
    \<and> set ps' \<subseteq> set ps"
proof (induction e ps rule: absorb.induct)
  case (1 en)
  then show ?case by simp
next
  case (2 en s1 e1 ps)
  have b: "s \<le> en" "s \<le> s1" "s1 \<le> e1" "\<forall>p \<in> set ps. s \<le> fst p" "\<forall>p \<in> set ps. s1 \<le> fst p" "by_start ps"
    using 2(4) by (auto simp: by_start_Cons)
  consider "s1 > en" | "s1 \<le> en" "e1 \<le> en" | "s1 \<le> en" "en < e1" by fastforce
  then show ?case
  proof cases
    case 1
    then show ?thesis using 2(3,4) b(5) by (fastforce simp: by_start_Cons)
  next
    case r: 2
    have c: "absorb en ps = (e', ps')" "by_start ((s, en) # ps)" using 2(3) r b by (auto simp: by_start_Cons not_less [symmetric])
    have "{s1..<e1} \<subseteq> {s..<en}" using r b(2) by auto
    moreover have "\<not> en < s1" using r(1) by simp
    note 2(1) [OF this r(2) c]
    ultimately show ?thesis by auto
  next
    case r: 3
    have c: "absorb e1 ps = (e', ps')" "by_start ((s, e1) # ps)" using 2(3) r b by (auto simp: by_start_Cons not_less [symmetric])
    have "{s..<en} \<union> {s1..<e1} = {s..<e1}" using r b(2) by auto
    moreover have "\<not> en < s1" "\<not> e1 \<le> en" using r by simp_all
    note 2(2) [OF this c]
    ultimately show ?thesis by auto
  qed
qed

text \<open>Intervals in order with a gap between any two.\<close>

lemma merged_spec:
  "by_start ps \<Longrightarrow> covered (merged ps) = covered ps \<and> sorted (points_of (merged ps))
    \<and> sorted_wrt (\<lambda>x y. snd x < fst y) (merged ps) \<and> set (map fst (merged ps)) \<subseteq> set (map fst ps)"
proof (induction ps rule: merged.induct)
  case (2 s e ps)
  obtain e' ps' where a: "absorb e ps = (e', ps')" by (cases "absorb e ps")
  note A = absorb_covered [OF a 2(2)]
  have ih: "covered (merged ps') = covered ps'" "sorted (points_of (merged ps'))"
    "sorted_wrt (\<lambda>x y. snd x < fst y) (merged ps')" "set (map fst (merged ps')) \<subseteq> set (map fst ps')"
    using 2(1) A a by (auto simp: by_start_Cons)
  have above: "\<forall>p \<in> set (merged ps'). e' < fst p" using ih(4) A by force
  have "s \<le> e'" using A by (simp add: by_start_Cons)
  moreover have "\<forall>x \<in> set (points_of (merged ps')). e' \<le> x"
  proof (cases "merged ps'")
    case (Cons p r)
    obtain x y where p: "p = (x, y)" by (cases p)
    have "e' < x" "\<forall>z \<in> set (points_of (merged ps')). x \<le> z" using above ih(2) unfolding Cons p by auto
    then show ?thesis by force
  qed simp
  ultimately have "sorted (s # e' # points_of (merged ps'))" using ih(2) by auto
  moreover have "fst ` set (merged ps') \<subseteq> fst ` set ps" 
  proof -
    have "fst ` set ps' \<subseteq> fst ` set ps" using A by (intro image_mono) simp
    then show ?thesis using ih(4) by simp
  qed
  ultimately show ?case using a A ih above by auto
qed simp

lemma covered_mset: "mset ps = mset qs \<Longrightarrow> covered ps = covered qs"
  by (simp add: covered_def set_mset_mset [symmetric] del: set_mset_mset)

lemma sorted_by_start: "point.sorted_by ps \<Longrightarrow> sorted (map fst ps)"
  by (auto simp: point.sorted_by_def point_le sorted_iff_nth_mono_less)

lemma remove_overlap_spec:
  assumes "even (length (cr_points cr))" "\<forall>(a, b) \<in> set (intervals (cr_points cr)). a \<le> b"
  shows "\<exists>cr'. cr_sort_and_remove_overlap cr = Some cr' \<and> sorted (cr_points cr')
    \<and> set_of (cr_points cr') = covered (intervals (cr_points cr))
    \<and> sorted_wrt (\<lambda>x y. snd x < fst y) (intervals (cr_points cr'))"
proof -
  obtain ps where r: "rqsort point_cmp (intervals (cr_points cr)) = Some ps" "point.sorted_by ps"
    "mset ps = mset (intervals (cr_points cr))"
    using point.rqsort_spec by blast
  have b: "by_start ps"
    using sorted_by_start [OF r(2)] assms(2) mset_eq_setD [OF r(3)] by (simp add: by_start_def)
  obtain pt j where l: "overlap_loop (points_of ps) 0 0 = (pt, j)" by (cases "overlap_loop (points_of ps) 0 0")
  have t: "take j pt = points_of (merged ps)" using overlap_loop_merged [OF _ _ l, of ps] by simp
  note M = merged_spec [OF b]
  have "set_of (points_of (merged ps)) = covered (merged ps)"
    unfolding set_of_def covered_def using sorted_crosses [OF conjunct1 [OF conjunct2 [OF M]]]
    by (simp add: set_eq_iff case_prod_beta)
  then show ?thesis
    using r(1) l t M covered_mset [OF r(3)] by (simp add: cr_sort_and_remove_overlap_def)
qed

section \<open>Properties of sorting\<close>

text \<open>
  C32. \<open>rqsort\<close> sorts: for any comparison function that is a total preorder it returns, without ever
  overflowing its stack of 50 entries, a sorted array with the same elements.
\<close>
theorem rqsort_sorts:
  assumes "comparison cmp"
  shows "\<exists>ys. rqsort cmp xs = Some ys \<and> (\<forall>i j. i < j \<longrightarrow> j < length ys \<longrightarrow> cmp (ys ! i) (ys ! j) \<le> 0) \<and> mset ys = mset xs"
  using comparison.rqsort_spec [OF assms, of xs] unfolding comparison.sorted_by_def [OF assms] comparison.le_def [OF assms] .

text \<open>
  Whatever the alignment of the array, the exchange function chosen for its element size
  exchanges exactly two elements, and the one chosen for spans exchanges whole ranges.
\<close>
theorem exchange_functions_exchange:
  assumes "base + n * sz \<le> length mem" and "i < n" and "j < n"
  shows "elems sz base n (exchange_func base sz mem (base + i * sz) (base + j * sz) sz) = swap_elts (elems sz base n mem) i j
    \<and> (disjoint_ranges mem a b (m * sz) \<longrightarrow> exchange_func base (sz OR 128) mem a b (m * sz) = swap_mem mem a b (m * sz))"
  using exchange_elems [OF assms] exchange_func_block by blast

text \<open>
  \<open>cr_sort_and_remove_overlap\<close> turns any array of intervals into a sorted one for the same set,
  with a gap between any two intervals.
\<close>
theorem overlaps_removed:
  assumes "even (length (cr_points cr))" and "\<forall>(a, b) \<in> set (intervals (cr_points cr)). a \<le> b"
  shows "\<exists>cr'. cr_sort_and_remove_overlap cr = Some cr' \<and> sorted (cr_points cr')
    \<and> set_of (cr_points cr') = (\<Union>(a, b) \<in> set (intervals (cr_points cr)). {a..<b})
    \<and> sorted_wrt (\<lambda>x y. snd x < fst y) (intervals (cr_points cr'))"
  using remove_overlap_spec [OF assms] by (simp add: covered_def)

theorem rqsort_sorts_witness:
  "\<exists>ys. rqsort point_cmp [(3, 4), (1, 2), (2, 9)] = Some ys \<and> mset ys = {#(3, 4), (1, 2), (2, 9)#}"
  using rqsort_sorts [OF point.comparison_axioms, of "[(3, 4), (1, 2), (2, 9)]"] by auto

theorem exchange_functions_exchange_witness:
  "elems 2 4 3 (exchange_func 4 2 [0, 0, 0, 0, 1, 2, 3, 4, 5, 6] 4 8 2) = [[5, 6], [3, 4], [1, 2]]"
proof -
  have "elems 2 4 3 [0, 0, 0, 0, 1, 2, 3, 4, 5, 6] = [[1, 2], [3, 4], [5, 6]]"
    by (simp add: elems_def load_def upt_rec)
  then show ?thesis
    using exchange_functions_exchange [of 4 3 2 "[0, 0, 0, 0, 1, 2, 3, 4, 5, 6]" 0 2 0 0 0] by (simp add: swap_elts_def)
qed

theorem overlaps_removed_witness:
  "\<exists>cr'. cr_sort_and_remove_overlap \<lparr>cr_heap = (), cr_points = [5, 9, 1, 6], cr_size = 4\<rparr> = Some cr' \<and> set_of (cr_points cr') = {1..<9}"
proof -
  let ?c = "\<lparr>cr_heap = (), cr_points = [5, 9, 1, 6 :: u32], cr_size = 4\<rparr>"
  have c: "even (length (cr_points ?c))" "\<forall>(a, b) \<in> set (intervals (cr_points ?c)). a \<le> b" by simp_all
  have "{5..<9} \<union> {1..<6} = {1..<9 :: u32}" by (rule set_eqI) (simp add: word_less_nat_alt word_le_nat_alt, arith)
  then show ?thesis using overlaps_removed [OF c] by auto
qed

end
