(* ===== verification/UriCodec.thy ===== *)
theory UriCodec
  imports StringConv
begin

text \<open>
  The URI functions of quickjs.c: \<open>encodeURI\<close>, \<open>encodeURIComponent\<close>, \<open>decodeURI\<close>,
  \<open>decodeURIComponent\<close>, \<open>escape\<close> and \<open>unescape\<close>, on strings, over the string buffers. Where the C code
  ignores the result of a buffer operation the model takes the buffer only: an error stays in it
  and comes out at \<open>string_buffer_end\<close>.
\<close>

section \<open>Hexadecimal digits\<close>

definition from_hex :: "u32 \<Rightarrow> u32 option" where
  "from_hex c =
    (if 0x30 \<le> c \<and> c \<le> 0x39 then Some (c - 0x30)
     else if 0x41 \<le> c \<and> c \<le> 0x46 then Some (c - 0x41 + 10)
     else if 0x61 \<le> c \<and> c \<le> 0x66 then Some (c - 0x61 + 10)
     else None)"

text \<open>\<open>n\<close> digits from index \<open>k\<close>; \<open>None\<close> is -1.\<close>

fun hex_loop :: "js_string \<Rightarrow> nat \<Rightarrow> nat \<Rightarrow> u32 \<Rightarrow> u32 option" where
  "hex_loop p k 0 c = Some c"
| "hex_loop p k (Suc n) c = (case from_hex (string_get p k) of None \<Rightarrow> None
     | Some h \<Rightarrow> hex_loop p (k + 1) n (push_bit 4 c OR h))"

definition string_get_hex :: "js_string \<Rightarrow> nat \<Rightarrow> nat \<Rightarrow> u32 option" where
  "string_get_hex p k n = hex_loop p k n 0"

text \<open>A set of characters, as \<open>memchr\<close> on a string literal.\<close>

definition in_chars :: "string \<Rightarrow> u32 \<Rightarrow> bool" where
  "in_chars s c \<longleftrightarrow> c < 0x100 \<and> ucast c \<in> set (cstr s)"

definition isURIReserved :: "u32 \<Rightarrow> bool" where
  "isURIReserved c = in_chars '';/?:@&=+$,#'' c"

definition isUnescaped :: "u32 \<Rightarrow> bool" where
  "isUnescaped c = in_chars ''ABCDEFGHIJKLMNOPQRSTUVWXYZabcdefghijklmnopqrstuvwxyz0123456789@*_+-./'' c"

definition isURIUnescaped :: "u32 \<Rightarrow> bool \<Rightarrow> bool" where
  "isURIUnescaped c isComponent \<longleftrightarrow> c < 0x100 \<and>
     (0x61 \<le> c \<and> c \<le> 0x7a \<or> 0x41 \<le> c \<and> c \<le> 0x5a \<or> 0x30 \<le> c \<and> c \<le> 0x39
      \<or> in_chars (''-_.!~*'' @ [CHR 0x27] @ ''()'') c \<or> \<not> isComponent \<and> isURIReserved c)"

section \<open>Decoding\<close>

text \<open>The messages of the URIErrors.\<close>

datatype uri_error = Expecting_percent | Expecting_hex_digit | Malformed_utf8 | Invalid_character | Expecting_surrogate_pair

definition hex_decode :: "js_string \<Rightarrow> nat \<Rightarrow> uri_error + u32" where
  "hex_decode p k =
    (if k \<ge> str_len p \<or> string_get p k \<noteq> 0x25 then Inl Expecting_percent
     else if k + 2 \<ge> str_len p then Inl Expecting_hex_digit
     else case string_get_hex p (k + 1) 2 of None \<Rightarrow> Inl Expecting_hex_digit | Some c \<Rightarrow> Inr c)"

text \<open>The continuation bytes: a byte that is none ends the loop with \<open>c = 0\<close>.\<close>

fun decode_tail :: "js_string \<Rightarrow> nat \<Rightarrow> u32 \<Rightarrow> nat \<Rightarrow> uri_error + (u32 \<times> nat)" where
  "decode_tail p 0 c k = Inr (c, k)"
| "decode_tail p (Suc n) c k = (case hex_decode p k of Inl e \<Rightarrow> Inl e
     | Inr c1 \<Rightarrow> if c1 AND 0xc0 \<noteq> 0x80 then Inr (0, k + 3)
                else decode_tail p n (push_bit 6 c OR (c1 AND 0x3f)) (k + 3))"

definition decode_lead :: "u32 \<Rightarrow> nat \<times> u32 \<times> u32" where
  "decode_lead c =
    (if 0xc0 \<le> c \<and> c \<le> 0xdf then (1, 0x80, c AND 0x1f)
     else if 0xe0 \<le> c \<and> c \<le> 0xef then (2, 0x800, c AND 0xf)
     else if 0xf0 \<le> c \<and> c \<le> 0xf7 then (3, 0x10000, c AND 0x7)
     else (0, 1, 0))"

definition decode_step :: "js_string \<Rightarrow> bool \<Rightarrow> nat \<Rightarrow> uri_error + (u32 \<times> nat)" where
  "decode_step p isComponent k =
    (let c = string_get p k in
     if c = 0x25 then
       (case hex_decode p k of Inl e \<Rightarrow> Inl e
        | Inr c \<Rightarrow>
            if c < 0x80 then
              (if \<not> isComponent \<and> isURIReserved c then Inr (0x25, k + 3 - 2) else Inr (c, k + 3))
            else
              (let (n, c_min, c0) = decode_lead c in
               case decode_tail p n c0 (k + 3) of Inl e \<Rightarrow> Inl e
               | Inr (c, k) \<Rightarrow> if c < c_min \<or> c > 0x10FFFF \<or> (0xd800 \<le> c \<and> c < 0xe000) then Inl Malformed_utf8 else Inr (c, k)))
     else Inr (c, k + 1))"

declare decode_tail.simps(2) [simp del]

lemma decode_tail_mono: "decode_tail p n c k = Inr (c', k') \<Longrightarrow> k \<le> k'"
proof (induction n arbitrary: c k)
  case (Suc n)
  show ?case
  proof (cases "hex_decode p k")
    case (Inr c1)
    then show ?thesis using Suc(2) Suc(1) [of "push_bit 6 c OR (c1 AND 0x3f)" "k + 3"]
      by (auto simp: decode_tail.simps(2) split: if_splits)
  qed (use Suc(2) in \<open>simp add: decode_tail.simps(2)\<close>)
qed simp

lemma decode_step_forward: "decode_step p isComponent k = Inr (c, k') \<Longrightarrow> k < k'"
  by (fastforce simp: decode_step_def Let_def split: if_splits sum.splits prod.splits dest: decode_tail_mono)

text \<open>The loop, with the buffer after it and the error if there was one.\<close>

function decode_loop :: "'m alloc \<Rightarrow> js_string \<Rightarrow> bool \<Rightarrow> nat \<Rightarrow> 'm strbuf \<Rightarrow> 'm strbuf \<times> uri_error option" where
  "decode_loop A p isComponent k b =
    (if k < str_len p then
       (case decode_step p isComponent k of Inl e \<Rightarrow> (b, Some e)
        | Inr (c, k') \<Rightarrow> decode_loop A p isComponent k' (fst (string_buffer_putc A b c)))
     else (b, None))"
  by auto
termination
  by (relation "measure (\<lambda>(A, p, isComponent, k, b). str_len p - k)") (auto dest!: decode_step_forward)

declare decode_loop.simps [simp del]

text \<open>
  The result: the error thrown, or the string (\<open>None\<close> when memory ran out). The argument is the
  string that \<open>JS_ToString\<close> returned.
\<close>

definition js_global_decodeURI :: "'m alloc \<Rightarrow> 'm \<Rightarrow> js_string \<Rightarrow> bool \<Rightarrow> 'm \<times> (uri_error + js_string option)" where
  "js_global_decodeURI A m p isComponent =
    (case decode_loop A p isComponent 0 (fst (string_buffer_init A m 0)) of
       (b, Some e) \<Rightarrow> (sb_mem b, Inl e)
     | (b, None) \<Rightarrow> (case string_buffer_end A b of (m', r) \<Rightarrow> (m', Inr r)))"

section \<open>Encoding\<close>

definition hex_digit :: "u32 \<Rightarrow> u8" where
  "hex_digit d = cstr ''0123456789ABCDEF'' ! unat (d AND 15)"

definition hex_bytes :: "u32 \<Rightarrow> u8 list" where
  "hex_bytes c = 0x25 # (if c \<ge> 256 then [0x75, hex_digit (drop_bit 12 c), hex_digit (drop_bit 8 c)] else [])
     @ [hex_digit (drop_bit 4 c), hex_digit c]"

definition encodeURI_hex :: "'m alloc \<Rightarrow> 'm strbuf \<Rightarrow> u32 \<Rightarrow> 'm strbuf" where
  "encodeURI_hex A b c = fst (string_buffer_write8 A b (hex_bytes c))"

text \<open>The code point at \<open>k\<close>, when it is to be escaped: a surrogate pair is joined, a lone surrogate is an error.\<close>

definition encode_point :: "js_string \<Rightarrow> u32 \<Rightarrow> nat \<Rightarrow> uri_error + (u32 \<times> nat)" where
  "encode_point p c k =
    (if 0xdc00 \<le> c \<and> c \<le> 0xdfff then Inl Invalid_character
     else if 0xd800 \<le> c \<and> c \<le> 0xdbff then
       (if k \<ge> str_len p then Inl Expecting_surrogate_pair
        else let c1 = string_get p k in
          if c1 < 0xdc00 \<or> c1 > 0xdfff then Inl Expecting_surrogate_pair
          else Inr ((push_bit 10 (c AND 0x3ff) OR (c1 AND 0x3ff)) + 0x10000, k + 1))
     else Inr (c, k))"

text \<open>The UTF-8 bytes of the code point, each as \<open>%XX\<close>.\<close>

definition encode_bytes :: "'m alloc \<Rightarrow> u32 \<Rightarrow> 'm strbuf \<Rightarrow> 'm strbuf" where
  "encode_bytes A c b =
    (if c < 0x80 then encodeURI_hex A b c
     else
       (let b1 = (if c < 0x800 then encodeURI_hex A b (drop_bit 6 c OR 0xc0)
                  else
                    (let b0 = (if c < 0x10000 then encodeURI_hex A b (drop_bit 12 c OR 0xe0)
                               else encodeURI_hex A (encodeURI_hex A b (drop_bit 18 c OR 0xf0)) ((drop_bit 12 c AND 0x3f) OR 0x80)) in
                     encodeURI_hex A b0 ((drop_bit 6 c AND 0x3f) OR 0x80))) in
        encodeURI_hex A b1 ((c AND 0x3f) OR 0x80)))"

function encode_loop :: "'m alloc \<Rightarrow> js_string \<Rightarrow> bool \<Rightarrow> nat \<Rightarrow> 'm strbuf \<Rightarrow> 'm strbuf \<times> uri_error option" where
  "encode_loop A p isComponent k b =
    (if k < str_len p then
       (let c = string_get p k in
        if isURIUnescaped c isComponent then encode_loop A p isComponent (k + 1) (fst (string_buffer_putc16 A b c))
        else case encode_point p c (k + 1) of Inl e \<Rightarrow> (b, Some e)
          | Inr (c, k') \<Rightarrow> encode_loop A p isComponent k' (encode_bytes A c b))
     else (b, None))"
  by auto
termination
  by (relation "measure (\<lambda>(A, p, isComponent, k, b). str_len p - k)") (auto simp: encode_point_def Let_def split: if_splits)

declare encode_loop.simps [simp del]

definition js_global_encodeURI :: "'m alloc \<Rightarrow> 'm \<Rightarrow> js_string \<Rightarrow> bool \<Rightarrow> 'm \<times> (uri_error + js_string option)" where
  "js_global_encodeURI A m p isComponent =
    (case encode_loop A p isComponent 0 (fst (string_buffer_init A m (int (str_len p)))) of
       (b, Some e) \<Rightarrow> (sb_mem b, Inl e)
     | (b, None) \<Rightarrow> (case string_buffer_end A b of (m', r) \<Rightarrow> (m', Inr r)))"

section \<open>\<open>escape\<close> and \<open>unescape\<close>\<close>

function escape_loop :: "'m alloc \<Rightarrow> js_string \<Rightarrow> nat \<Rightarrow> 'm strbuf \<Rightarrow> 'm strbuf" where
  "escape_loop A p i b =
    (if i < str_len p then
       (let c = string_get p i in
        escape_loop A p (i + 1) (if isUnescaped c then fst (string_buffer_putc16 A b c) else encodeURI_hex A b c))
     else b)"
  by auto
termination by (relation "measure (\<lambda>(A, p, i, b). str_len p - i)") auto

declare escape_loop.simps [simp del]

definition js_global_escape :: "'m alloc \<Rightarrow> 'm \<Rightarrow> js_string \<Rightarrow> 'm \<times> js_string option" where
  "js_global_escape A m p = string_buffer_end A (escape_loop A p 0 (fst (string_buffer_init A m (int (str_len p)))))"

text \<open>The character at \<open>i\<close>, with the index after it.\<close>

definition unescape_step :: "js_string \<Rightarrow> nat \<Rightarrow> u32 \<times> nat" where
  "unescape_step p i =
    (let c = string_get p i in
     if c = 0x25 then
       (case (if i + 6 \<le> str_len p \<and> string_get p (i + 1) = 0x75 then string_get_hex p (i + 2) 4 else None) of
          Some n \<Rightarrow> (n, i + 6)
        | None \<Rightarrow> (case (if i + 3 \<le> str_len p then string_get_hex p (i + 1) 2 else None) of
            Some n \<Rightarrow> (n, i + 3)
          | None \<Rightarrow> (c, i + 1)))
     else (c, i + 1))"

lemma unescape_step_forward: "i < snd (unescape_step p i)"
  by (simp add: unescape_step_def Let_def split: option.split)

function unescape_loop :: "'m alloc \<Rightarrow> js_string \<Rightarrow> nat \<Rightarrow> 'm strbuf \<Rightarrow> 'm strbuf" where
  "unescape_loop A p i b =
    (if i < str_len p then
       (let (c, i') = unescape_step p i in unescape_loop A p i' (fst (string_buffer_putc16 A b c)))
     else b)"
  by auto
termination
proof (relation "measure (\<lambda>(A, p, i, b). str_len p - i)", goal_cases)
  case (2 A p i b x c i')
  then show ?case using unescape_step_forward [of i p] by (simp add: prod_eq_iff)
qed simp

declare unescape_loop.simps [simp del]

definition js_global_unescape :: "'m alloc \<Rightarrow> 'm \<Rightarrow> js_string \<Rightarrow> 'm \<times> js_string option" where
  "js_global_unescape A m p = string_buffer_end A (unescape_loop A p 0 (fst (string_buffer_init A m 0)))"

section \<open>Writing without looking at the result\<close>

text \<open>
  What a sequence of operations may have done to the buffer: appended \<open>xs\<close>, or left it in the error
  state, where it stays; the latter only where the allocator refuses or the string gets too long.
\<close>

definition wrote :: "'m alloc \<Rightarrow> 'm strbuf \<Rightarrow> 'm strbuf \<Rightarrow> u16 list \<Rightarrow> bool" where
  "wrote A b b' xs \<longleftrightarrow> sb_inv b' \<and> (if sb_error b'
     then sb_error b \<or> refuses A \<or> JS_STRING_LEN_MAX < sb_len b + int (length xs)
     else \<not> sb_error b \<and> sb_units b' = sb_units b @ xs)"

definition writes :: "'m alloc \<Rightarrow> ('m strbuf \<Rightarrow> 'm strbuf) \<Rightarrow> u16 list \<Rightarrow> bool" where
  "writes A f xs \<longleftrightarrow> (\<forall>s. sb_inv s \<longrightarrow> wrote A s (f s) xs)"

lemma wrote_refl: "sb_inv b \<Longrightarrow> wrote A b b []"
  by (auto simp: wrote_def)

lemma wrote_trans: "wrote A b b1 xs \<Longrightarrow> wrote A b1 b2 ys \<Longrightarrow> wrote A b b2 (xs @ ys)"
  by (auto simp: wrote_def sb_len_def split: if_splits)

lemma writesD: "writes A f xs \<Longrightarrow> sb_inv s \<Longrightarrow> wrote A s (f s) xs"
  by (simp add: writes_def)

lemma wrote_inv: "wrote A b b' xs \<Longrightarrow> sb_inv b'"
  by (simp add: wrote_def)

lemma wrote_step: "writes A f xs \<Longrightarrow> sb_inv b \<Longrightarrow> wrote A (f b) b' ys \<Longrightarrow> wrote A b b' (xs @ ys)"
  by (rule wrote_trans [OF writesD])

lemma writes_of_appends:
  assumes a: "appends f xs" and v: "served A f (length xs)"
  shows "writes A (\<lambda>s. fst (f s)) xs"
  unfolding writes_def
proof (intro allI impI)
  fix s :: "'a strbuf" assume i: "sb_inv s"
  obtain s' ok where f: "f s = (s', ok)" by (cases "f s")
  from appendsD [OF a i f] v f show "wrote A s (fst (f s)) xs"
    by (auto simp: wrote_def served_def split: if_splits)
qed

lemma writes_comp: "writes A f xs \<Longrightarrow> writes A g ys \<Longrightarrow> writes A (\<lambda>s. g (f s)) (xs @ ys)"
  unfolding writes_def by (blast intro: wrote_trans wrote_inv)

lemma init_inv: "0 \<le> n \<Longrightarrow> sb_inv (fst (string_buffer_init A m n)) \<and> sb_units (fst (string_buffer_init A m n)) = []"
  by (auto simp: string_buffer_init_def string_buffer_init2_def sb_inv_def sb_len_def split: prod.split bool.split)

context allocator
begin

lemma writes_putc16: "writes A (\<lambda>s. fst (string_buffer_putc16 A s c)) [ucast c]"
  using putc16_served by (intro writes_of_appends putc16_appends) simp

lemma writes_putc: "writes A (\<lambda>s. fst (string_buffer_putc A s c)) (utf16_enc c)"
proof (cases "c \<ge> 0x10000")
  case big: True
  let ?h = "drop_bit 10 (c - 0x10000) + 0xd800" and ?l = "((c - 0x10000) AND 0x3ff) + 0xdc00"
  show ?thesis unfolding writes_def
  proof (intro allI impI)
    fix s :: "'m strbuf" assume i: "sb_inv s"
    obtain s1 ok where r: "string_buffer_putc16 A s ?h = (s1, ok)" by (cases "string_buffer_putc16 A s ?h")
    have w1: "wrote A s s1 [ucast ?h]" using writesD [OF writes_putc16 i, of ?h] r by simp
    show "wrote A s (fst (string_buffer_putc A s c)) (utf16_enc c)"
    proof (cases ok)
      case True
      have "wrote A s1 (fst (string_buffer_putc16 A s1 ?l)) [ucast ?l]" by (rule writesD [OF writes_putc16 wrote_inv [OF w1]])
      from wrote_trans [OF w1 this] show ?thesis
        using big r True by (simp add: string_buffer_putc_def Let_def utf16_enc_def)
    next
      case False
      then have "sb_error s1" using appendsD [OF putc16_appends i, of ?h s1 ok] r by simp
      then have "wrote A s s1 ([ucast ?h] @ [ucast ?l])" using w1 by (auto simp: wrote_def)
      then show ?thesis using big r False by (simp add: string_buffer_putc_def Let_def utf16_enc_def)
    qed
  qed
next
  case False
  then show ?thesis using writes_putc16 [of c] by (simp add: string_buffer_putc_def utf16_enc_def)
qed

lemma writes_hex: "writes A (\<lambda>s. encodeURI_hex A s c) (map ucast (hex_bytes c))"
  unfolding encodeURI_hex_def using write8_served [of A "hex_bytes c"] by (intro writes_of_appends write8_appends) simp

end

section \<open>Hexadecimal bytes\<close>

definition wide8 :: "u8 list \<Rightarrow> u16 list" where
  "wide8 = map ucast"

lemma wide8_simps [simp]: "wide8 [] = []" "wide8 (x # xs) = ucast x # wide8 xs" "wide8 (xs @ ys) = wide8 xs @ wide8 ys"
  by (simp_all add: wide8_def)

text \<open>A character of the string is the corresponding unit.\<close>

lemma string_get_units: "k < str_len p \<Longrightarrow> string_get p k = ucast (units p ! k)"
  by (cases p) (auto simp: string_get_def str_len_def word_unat_eq_iff unat_ucast_up)

lemma string_get_drop: "drop k (units p) = u # us \<Longrightarrow> string_get p k = ucast u \<and> k < str_len p \<and> drop (k + 1) (units p) = us"
proof -
  assume d: "drop k (units p) = u # us"
  then have k: "k < length (units p)" by (metis drop_all list.discI not_le)
  then have "units p ! k = u" "drop (k + 1) (units p) = us" using d by (auto simp: drop_eq_Cons_nth)
  then show ?thesis using k string_get_units [of k p] by (simp add: str_len_def)
qed

lemma and_15: "unat (d AND 15) = unat (d :: u32) mod 16"
proof -
  have "(15 :: u32) = mask 4" by (simp add: mask_eq_exp_minus_1)
  then show ?thesis by (simp only: take_bit_eq_mask [symmetric] unsigned_take_bit_eq) (simp add: take_bit_eq_mod)
qed

lemma hex_digit_cases:
  assumes "d < 16"
  shows "from_hex (ucast (cstr ''0123456789ABCDEF'' ! d)) = Some (of_nat d)"
proof -
  have "\<forall>d \<in> set [0..<16]. from_hex (ucast (cstr ''0123456789ABCDEF'' ! d)) = Some (of_nat d)"
    by code_simp
  then show ?thesis using assms by simp
qed

lemma from_hex_digit: "from_hex (ucast (ucast (hex_digit d) :: u16)) = Some (d AND 15)"
proof -
  have e: "(ucast (ucast x :: u16) :: u32) = ucast (x :: u8)" for x
    by (simp add: word_unat_eq_iff unat_ucast_up)
  have "unat (d AND 15) < 16" by (simp add: and_15)
  then show ?thesis unfolding e hex_digit_def by (simp add: hex_digit_cases)
qed

text \<open>Four bits at a time.\<close>

lemma or_and_15: "push_bit 4 c OR (d AND 15) = push_bit 4 c OR take_bit 4 (d :: u32)"
  by (simp add: take_bit_eq_mask mask_eq_exp_minus_1)

lemma nibbles: "push_bit 4 (take_bit n (drop_bit (k + 4) c)) OR take_bit 4 (drop_bit k c) = take_bit (n + 4) (drop_bit k (c :: u32))"
  by (rule bit_word_eqI) (auto simp: bit_simps add.commute add.left_commute)

lemma hex_loop_step:
  "drop k (units p) = ucast (hex_digit d) # us \<Longrightarrow> hex_loop p k (Suc n) c = hex_loop p (k + 1) n (push_bit 4 c OR take_bit 4 d)"
  using string_get_drop [of k p "ucast (hex_digit d)" us] by (simp add: from_hex_digit or_and_15)

lemma get_hex2:
  assumes "drop k (units p) = wide8 [hex_digit (drop_bit 4 c), hex_digit c] @ us"
  shows "string_get_hex p k 2 = Some (take_bit 8 c)"
proof -
  have d: "drop k (units p) = ucast (hex_digit (drop_bit 4 c)) # ucast (hex_digit c) # us" using assms by simp
  note d1 = string_get_drop [OF d]
  have "string_get_hex p k 2 = hex_loop p (k + 1) 1 (push_bit 4 0 OR take_bit 4 (drop_bit 4 c))"
    unfolding string_get_hex_def using hex_loop_step [OF d, of 1 0] by (simp add: numeral_2_eq_2)
  also have "\<dots> = hex_loop p (k + 1 + 1) 0 (push_bit 4 (take_bit 4 (drop_bit 4 c)) OR take_bit 4 c)"
    using hex_loop_step [of "k + 1" p c us 0] d1 by simp
  finally show ?thesis using nibbles [of 4 0 c] by simp
qed

lemma get_hex4:
  assumes "drop k (units p) = wide8 [hex_digit (drop_bit 12 c), hex_digit (drop_bit 8 c), hex_digit (drop_bit 4 c), hex_digit c] @ us"
  shows "string_get_hex p k 4 = Some (take_bit 16 c)"
proof -
  have d: "drop k (units p) = ucast (hex_digit (drop_bit 12 c)) # ucast (hex_digit (drop_bit 8 c))
      # ucast (hex_digit (drop_bit 4 c)) # ucast (hex_digit c) # us" using assms by simp
  note d1 = string_get_drop [OF d]
  note d2 = string_get_drop [OF conjunct2 [OF conjunct2 [OF d1]]]
  note d3 = string_get_drop [OF conjunct2 [OF conjunct2 [OF d2]]]
  have "string_get_hex p k 4 = hex_loop p (k + 1) 3 (take_bit 4 (drop_bit 12 c))"
    unfolding string_get_hex_def using hex_loop_step [OF d, of 3 0] by (simp add: eval_nat_numeral)
  also have "\<dots> = hex_loop p (k + 1 + 1) 2 (push_bit 4 (take_bit 4 (drop_bit 12 c)) OR take_bit 4 (drop_bit 8 c))"
    using hex_loop_step [OF conjunct2 [OF conjunct2 [OF d1]], of 2] by (simp add: eval_nat_numeral)
  also have "\<dots> = hex_loop p (k + 1 + 1) 2 (take_bit 8 (drop_bit 8 c))" using nibbles [of 4 8 c] by simp
  also have "\<dots> = hex_loop p (k + 1 + 1 + 1) 1 (push_bit 4 (take_bit 8 (drop_bit 8 c)) OR take_bit 4 (drop_bit 4 c))"
    using hex_loop_step [OF conjunct2 [OF conjunct2 [OF d2]], of 1] by (simp add: eval_nat_numeral)
  also have "\<dots> = hex_loop p (k + 1 + 1 + 1) 1 (take_bit 12 (drop_bit 4 c))" using nibbles [of 8 4 c] by simp
  also have "\<dots> = hex_loop p (k + 1 + 1 + 1 + 1) 0 (push_bit 4 (take_bit 12 (drop_bit 4 c)) OR take_bit 4 c)"
    using hex_loop_step [OF conjunct2 [OF conjunct2 [OF d3]], of 0] by simp
  finally show ?thesis using nibbles [of 12 0 c] by simp
qed

lemma drop_str_len: "drop k (units p) = xs @ us \<Longrightarrow> xs \<noteq> [] \<Longrightarrow> k + length xs \<le> str_len p \<and> drop (k + length xs) (units p) = us"
proof -
  assume d: "drop k (units p) = xs @ us" "xs \<noteq> []"
  have "length (drop k (units p)) = length xs + length us" using d by simp
  then have "k + length xs \<le> str_len p" using d(2) by (cases "k \<le> length (units p)") (auto simp: str_len_def)
  moreover have "drop (k + length xs) (units p) = drop (length xs) (drop k (units p))" by (simp add: add.commute)
  ultimately show ?thesis unfolding d(1) by simp
qed

text \<open>\<open>%XX\<close> is decoded to its byte.\<close>

lemma hex_decode_byte:
  assumes "c < 0x100" "drop k (units p) = wide8 (hex_bytes c) @ us"
  shows "hex_decode p k = Inr c \<and> drop (k + 3) (units p) = us \<and> string_get p k = 0x25 \<and> k < str_len p"
proof -
  have n: "\<not> 256 \<le> c" using assms(1) by simp
  have d: "drop k (units p) = 0x25 # wide8 [hex_digit (drop_bit 4 c), hex_digit c] @ us" using assms(2) n by (simp add: hex_bytes_def)
  note d1 = string_get_drop [OF d]
  have "k + 3 \<le> str_len p \<and> drop (k + 3) (units p) = us"
    using drop_str_len [of k p "0x25 # wide8 [hex_digit (drop_bit 4 c), hex_digit c]" us] d by (simp add: eval_nat_numeral)
  moreover have "take_bit 8 c = c" using assms(1) by (intro take_bit_lt) (simp add: word_less_nat_alt)
  ultimately show ?thesis
    using d1 get_hex2 [OF conjunct2 [OF conjunct2 [OF d1]]] unfolding hex_decode_def by simp
qed

section \<open>Percent-encoded UTF-8\<close>

definition cont32 :: "nat \<Rightarrow> u32 \<Rightarrow> u32" where
  "cont32 j c = (drop_bit j c AND 0x3f) OR 0x80"

definition pct_utf8 :: "u32 \<Rightarrow> u8 list" where
  "pct_utf8 c =
    (if c < 0x80 then hex_bytes c
     else if c < 0x800 then hex_bytes (drop_bit 6 c OR 0xc0) @ hex_bytes (cont32 0 c)
     else if c < 0x10000 then hex_bytes (drop_bit 12 c OR 0xe0) @ hex_bytes (cont32 6 c) @ hex_bytes (cont32 0 c)
     else hex_bytes (drop_bit 18 c OR 0xf0) @ hex_bytes (cont32 12 c) @ hex_bytes (cont32 6 c) @ hex_bytes (cont32 0 c))"

lemma cont32_facts:
  "cont32 j c < 0x100" "cont32 j c AND 0xc0 = 0x80" "cont32 j c AND 0x3f = take_bit 6 (drop_bit j c)" "\<not> cont32 j c < 0x80"
proof -
  let ?x = "take_bit 6 (drop_bit j c) :: u32"
  have x: "unat ?x < 64" by (simp add: unsigned_take_bit_eq take_bit_nat_def)
  have u: "unat (cont32 j c) = unat ?x + 128"
    unfolding cont32_def and_mask_6 using unat_or_tag [of ?x 6 "0x80" 2] x by simp
  then show "cont32 j c < 0x100" "\<not> cont32 j c < 0x80" using x by (simp_all add: word_less_nat_alt)
  have "(drop_bit j c AND 0x3f) AND 0xc0 = (0 :: u32)" by (simp add: and.assoc)
  then show "cont32 j c AND 0xc0 = 0x80" unfolding cont32_def by (simp add: bit.conj_disj_distrib2)
  show "cont32 j c AND 0x3f = ?x" unfolding cont32_def and_mask_6 by (simp add: take_bit_or)
qed

lemma decode_tail_byte:
  assumes "drop k (units p) = wide8 (hex_bytes (cont32 j c)) @ us"
  shows "decode_tail p (Suc n) (drop_bit (j + 6) c) k = decode_tail p n (drop_bit j c) (k + 3) \<and> drop (k + 3) (units p) = us"
  using hex_decode_byte [OF cont32_facts(1) assms] cont32_facts(2,3) [of j c] shift_in [of j c]
  by (simp add: decode_tail.simps(2))

text \<open>The lead bytes.\<close>

lemma lead_range:
  fixes c :: u32
  assumes "unat c < 2 ^ (j + n)" "tag = m * 2 ^ n" "tag < 256"
  shows "unat (drop_bit j c OR of_nat tag) = unat c div 2 ^ j + tag"
    "take_bit n (drop_bit j c OR of_nat tag) = drop_bit j c"
proof -
  have d: "unat (drop_bit j c) < 2 ^ n"
    using assms(1) by (simp add: unat_drop_bit power_add div_less_iff_less_mult mult.commute)
  have t: "unat (of_nat tag :: u32) = tag" using assms(3) by (simp add: unat_of_nat_small)
  show "unat (drop_bit j c OR of_nat tag) = unat c div 2 ^ j + tag"
    using unat_or_tag [OF d, of "of_nat tag" m] assms(2) t by (simp add: unat_drop_bit)
  have "unat (take_bit n (of_nat tag :: u32)) = tag mod 2 ^ n"
    by (simp only: unsigned_take_bit_eq t) (simp only: take_bit_eq_mod)
  also have "\<dots> = 0" using assms(2) by simp
  finally have "take_bit n (of_nat tag :: u32) = 0" by (simp only: unat_eq_zero)
  then show "take_bit n (drop_bit j c OR of_nat tag) = drop_bit j c"
    using take_bit_lt [OF d] by (simp add: take_bit_or)
qed

lemma decode_lead_2:
  assumes "c < 0x800"
  shows "decode_lead (drop_bit 6 c OR 0xc0) = (1, 0x80, drop_bit 6 c)" "drop_bit 6 c OR 0xc0 < (0x100 :: u32)"
    "\<not> drop_bit 6 c OR 0xc0 < (0x80 :: u32)"
proof -
  have c: "unat c < 2 ^ (6 + 5)" "unat c div 64 < 32" using assms by (simp_all add: word_less_nat_alt div_less_iff_less_mult)
  note l = lead_range [OF c(1), of 192 6, simplified]
  show "decode_lead (drop_bit 6 c OR 0xc0) = (1, 0x80, drop_bit 6 c)" "drop_bit 6 c OR 0xc0 < (0x100 :: u32)"
    "\<not> drop_bit 6 c OR 0xc0 < (0x80 :: u32)"
    using l c(2) by (simp_all add: decode_lead_def and_masks word_le_nat_alt word_less_nat_alt)
qed

lemma decode_lead_3:
  assumes "c < 0x10000"
  shows "decode_lead (drop_bit 12 c OR 0xe0) = (2, 0x800, drop_bit 12 c)" "drop_bit 12 c OR 0xe0 < (0x100 :: u32)"
    "\<not> drop_bit 12 c OR 0xe0 < (0x80 :: u32)"
proof -
  have c: "unat c < 2 ^ (12 + 4)" "unat c div 4096 < 16" using assms by (simp_all add: word_less_nat_alt div_less_iff_less_mult)
  note l = lead_range [OF c(1), of 224 14, simplified]
  show "decode_lead (drop_bit 12 c OR 0xe0) = (2, 0x800, drop_bit 12 c)" "drop_bit 12 c OR 0xe0 < (0x100 :: u32)"
    "\<not> drop_bit 12 c OR 0xe0 < (0x80 :: u32)"
    using l c(2) by (simp_all add: decode_lead_def and_masks word_le_nat_alt word_less_nat_alt)
qed

lemma decode_lead_4:
  assumes "c < 0x200000"
  shows "decode_lead (drop_bit 18 c OR 0xf0) = (3, 0x10000, drop_bit 18 c)" "drop_bit 18 c OR 0xf0 < (0x100 :: u32)"
    "\<not> drop_bit 18 c OR 0xf0 < (0x80 :: u32)"
proof -
  have c: "unat c < 2 ^ (18 + 3)" "unat c div 262144 < 8" using assms by (simp_all add: word_less_nat_alt div_less_iff_less_mult)
  note l = lead_range [OF c(1), of 240 30, simplified]
  show "decode_lead (drop_bit 18 c OR 0xf0) = (3, 0x10000, drop_bit 18 c)" "drop_bit 18 c OR 0xf0 < (0x100 :: u32)"
    "\<not> drop_bit 18 c OR 0xf0 < (0x80 :: u32)"
    using l c(2) by (simp_all add: decode_lead_def and_masks word_le_nat_alt word_less_nat_alt)
qed

lemma scalar_bounds:
  assumes "scalar c"
  shows "c \<le> 0x10FFFF" "\<not> (0xd800 \<le> c \<and> c < 0xe000)" "c < 0x200000" "\<not> c > 0x10FFFF"
  using assms by (auto simp: scalar_def word_less_nat_alt word_le_nat_alt)

lemma decode_step_lead:
  assumes "drop k (units p) = wide8 (hex_bytes l) @ us" "l < 0x100" "\<not> l < 0x80" "decode_lead l = (n, m, c0)"
    and "decode_tail p n c0 (k + 3) = Inr (c, k')" "\<not> c < m" "\<not> c > 0x10FFFF" "\<not> (0xd800 \<le> c \<and> c < 0xe000)"
  shows "decode_step p isComponent k = Inr (c, k')"
  using hex_decode_byte [OF assms(2,1)] assms(3-8) by (simp add: decode_step_def)

text \<open>The percent-encoded UTF-8 of a scalar value is decoded to it.\<close>

lemma decode_step_pct:
  assumes sc: "scalar c" and d: "drop k (units p) = wide8 (pct_utf8 c) @ us" and r: "\<not> (\<not> isComponent \<and> isURIReserved c)"
  shows "\<exists>k'. decode_step p isComponent k = Inr (c, k') \<and> drop k' (units p) = us \<and> k < str_len p"
proof -
  note sb = scalar_bounds [OF sc]
  consider "c < 0x80" | "\<not> c < 0x80" "c < 0x800" | "\<not> c < 0x800" "c < 0x10000" | "\<not> c < 0x10000"
    by blast
  then show ?thesis
  proof cases
    case 1
    then have d1: "drop k (units p) = wide8 (hex_bytes c) @ us" using d by (simp add: pct_utf8_def)
    have "c < 0x100" using 1 by (simp add: word_less_nat_alt)
    from hex_decode_byte [OF this d1] 1 r show ?thesis by (auto simp: decode_step_def)
  next
    case 2
    then have d1: "drop k (units p) = wide8 (hex_bytes (drop_bit 6 c OR 0xc0)) @ wide8 (hex_bytes (cont32 0 c)) @ us"
      using d by (simp add: pct_utf8_def)
    note h = hex_decode_byte [OF decode_lead_2(2) [OF 2(2)] d1]
    from decode_tail_byte [of "k + 3" p 0 c us 0] h have "decode_tail p 1 (drop_bit 6 c) (k + 3) = Inr (c, k + 3 + 3)"
      "drop (k + 3 + 3) (units p) = us" by simp_all
    with decode_step_lead [OF d1 decode_lead_2(2,3,1) [OF 2(2)], of c "k + 3 + 3"] 2 sb h show ?thesis by auto
  next
    case 3
    then have "\<not> c < 0x80" by (simp add: word_less_nat_alt)
    with 3 have d1: "drop k (units p) = wide8 (hex_bytes (drop_bit 12 c OR 0xe0)) @ wide8 (hex_bytes (cont32 6 c))
        @ wide8 (hex_bytes (cont32 0 c)) @ us"
      using d by (simp add: pct_utf8_def)
    note h = hex_decode_byte [OF decode_lead_3(2) [OF 3(2)] d1]
    note t1 = decode_tail_byte [of "k + 3" p 6 c "wide8 (hex_bytes (cont32 0 c)) @ us" 1]
    from t1 h decode_tail_byte [of "k + 3 + 3" p 0 c us 0] have "decode_tail p 2 (drop_bit 12 c) (k + 3) = Inr (c, k + 3 + 3 + 3)"
      "drop (k + 3 + 3 + 3) (units p) = us" by (simp_all add: numeral_2_eq_2)
    with decode_step_lead [OF d1 decode_lead_3(2,3,1) [OF 3(2)], of c "k + 3 + 3 + 3"] 3 sb h show ?thesis by auto
  next
    case 4
    then have "\<not> c < 0x80" "\<not> c < 0x800" by (simp_all add: word_less_nat_alt)
    with 4 have d1: "drop k (units p) = wide8 (hex_bytes (drop_bit 18 c OR 0xf0)) @ wide8 (hex_bytes (cont32 12 c))
        @ wide8 (hex_bytes (cont32 6 c)) @ wide8 (hex_bytes (cont32 0 c)) @ us"
      using d by (simp add: pct_utf8_def)
    note h = hex_decode_byte [OF decode_lead_4(2) [OF sb(3)] d1]
    note t1 = decode_tail_byte [of "k + 3" p 12 c "wide8 (hex_bytes (cont32 6 c)) @ wide8 (hex_bytes (cont32 0 c)) @ us" 2]
    note t2 = decode_tail_byte [of "k + 3 + 3" p 6 c "wide8 (hex_bytes (cont32 0 c)) @ us" 1]
    from t1 t2 h decode_tail_byte [of "k + 3 + 3 + 3" p 0 c us 0] have "decode_tail p 3 (drop_bit 18 c) (k + 3) = Inr (c, k + 3 + 3 + 3 + 3)"
      "drop (k + 3 + 3 + 3 + 3) (units p) = us" by (simp_all add: eval_nat_numeral)
    with decode_step_lead [OF d1 decode_lead_4(2,3,1) [OF sb(3)], of c "k + 3 + 3 + 3 + 3"] 4 sb h show ?thesis by auto
  qed
qed

section \<open>Well-formed UTF-16\<close>

fun wf16 :: "u16 list \<Rightarrow> bool" where
  "wf16 [] = True"
| "wf16 (x # xs) =
    (if 0xdc00 \<le> x \<and> x < 0xe000 then False
     else if 0xd800 \<le> x \<and> x < 0xdc00 then (case xs of [] \<Rightarrow> False | y # ys \<Rightarrow> 0xdc00 \<le> y \<and> y < 0xe000 \<and> wf16 ys)
     else wf16 xs)"

lemma in_charsD: "in_chars s c \<Longrightarrow> \<exists>x \<in> set (cstr s). c = ucast x"
proof -
  assume i: "in_chars s c"
  then have "unat c < 2 ^ LENGTH(8)" by (simp add: in_chars_def word_less_nat_alt)
  then have "c = ucast (ucast c :: u8)" by (simp add: word_unat_eq_iff unat_ucast_up unat_ucast_small)
  then show ?thesis using i unfolding in_chars_def by blast
qed

lemma reserved_low: "isURIReserved c \<Longrightarrow> c < 0x80 \<and> c \<noteq> 0x25"
  unfolding isURIReserved_def by (drule in_charsD) (auto simp: cstr_def)

lemma unescaped_low:
  assumes "isURIUnescaped c isComponent"
  shows "c < 0x80" "c \<noteq> 0x25"
proof -
  have m: "in_chars (''-_.!~*'' @ [CHR 0x27] @ ''()'') c \<Longrightarrow> c < 0x80 \<and> c \<noteq> 0x25"
    by (drule in_charsD) (auto simp: cstr_def)
  have r: "c < 0x80 \<and> c \<noteq> 0x25" if "(0x61 \<le> c \<and> c \<le> 0x7a) \<or> (0x41 \<le> c \<and> c \<le> 0x5a) \<or> (0x30 \<le> c \<and> c \<le> 0x39)"
    using that by (auto simp: word_less_nat_alt word_le_nat_alt)
  show "c < 0x80" "c \<noteq> 0x25" using assms m r reserved_low [of c] unfolding isURIUnescaped_def by blast+
qed

text \<open>What \<open>encodeURI\<close> writes for one scalar value.\<close>

definition enc_point :: "bool \<Rightarrow> u32 \<Rightarrow> u16 list" where
  "enc_point isComponent c = (if isURIUnescaped c isComponent then [ucast c] else wide8 (pct_utf8 c))"

context allocator
begin

lemma writes_encode_bytes: "writes A (encode_bytes A c) (wide8 (pct_utf8 c))"
proof -
  have w: "writes A (\<lambda>s. encodeURI_hex A s x) (wide8 (hex_bytes x))" for x using writes_hex by (simp add: wide8_def)
  note w2 = writes_comp [OF w w] and w3 = writes_comp [OF writes_comp [OF w w] w]
    and w4 = writes_comp [OF writes_comp [OF writes_comp [OF w w] w] w]
  consider "c < 0x80" | "\<not> c < 0x80" "c < 0x800" | "\<not> c < 0x800" "c < 0x10000" | "\<not> c < 0x10000" by blast
  then show ?thesis
  proof cases
    case 1
    then have "encode_bytes A c = (\<lambda>s. encodeURI_hex A s c)" by (simp add: encode_bytes_def fun_eq_iff)
    then show ?thesis using w [of c] 1 by (simp add: pct_utf8_def)
  next
    case 2
    then have "encode_bytes A c = (\<lambda>s. encodeURI_hex A (encodeURI_hex A s (drop_bit 6 c OR 0xc0)) (cont32 0 c))"
      by (simp add: encode_bytes_def fun_eq_iff cont32_def)
    then show ?thesis using w2 [of "drop_bit 6 c OR 0xc0" "cont32 0 c"] 2 by (simp add: pct_utf8_def)
  next
    case 3
    then have n: "\<not> c < 0x80" by (simp add: word_less_nat_alt)
    then have "encode_bytes A c = (\<lambda>s. encodeURI_hex A (encodeURI_hex A (encodeURI_hex A s (drop_bit 12 c OR 0xe0)) (cont32 6 c)) (cont32 0 c))"
      using 3 by (simp add: encode_bytes_def fun_eq_iff cont32_def)
    then show ?thesis using w3 [of "drop_bit 12 c OR 0xe0" "cont32 6 c" "cont32 0 c"] 3 n by (simp add: pct_utf8_def)
  next
    case 4
    then have n: "\<not> c < 0x80" "\<not> c < 0x800" by (simp_all add: word_less_nat_alt)
    then have "encode_bytes A c = (\<lambda>s. encodeURI_hex A (encodeURI_hex A (encodeURI_hex A
        (encodeURI_hex A s (drop_bit 18 c OR 0xf0)) (cont32 12 c)) (cont32 6 c)) (cont32 0 c))"
      using 4 by (simp add: encode_bytes_def fun_eq_iff cont32_def)
    then show ?thesis using w4 [of "drop_bit 18 c OR 0xf0" "cont32 12 c" "cont32 6 c" "cont32 0 c"] 4 n by (simp add: pct_utf8_def)
  qed
qed

end

section \<open>The loops\<close>

lemma ucast_u16_u32: "c < 0x10000 \<Longrightarrow> ucast (ucast (c :: u32) :: u16) = c"
  by (simp add: word_unat_eq_iff word_less_nat_alt unat_ucast_up unat_ucast_small)

lemma utf16_enc_small: "c < 0x10000 \<Longrightarrow> utf16_enc c = [ucast c]"
  by (simp add: utf16_enc_def)

text \<open>The surrogates of a scalar value outside the basic plane.\<close>

lemma encode_point_pair:
  assumes c: "scalar c" "\<not> c < 0x10000" and d: "drop k (units p) = utf16_enc c @ us"
  shows "\<exists>hi. string_get p k = hi \<and> \<not> isURIUnescaped hi isComponent \<and> encode_point p hi (k + 1) = Inr (c, k + 2)
    \<and> drop (k + 2) (units p) = us \<and> k < str_len p"
proof -
  let ?hi = "ucast (drop_bit 10 (c - 0x10000) + 0xd800) :: u16" and ?lo = "ucast (((c - 0x10000) AND 0x3ff) + 0xdc00) :: u16"
  note s = surrogates [OF c(2) scalar_lt [OF c(1)]]
  have "(unat c - 0x10000) div 1024 < 1024" using scalar_lt [OF c(1)] by (simp add: div_less_iff_less_mult)
  then have r: "0xd800 \<le> ?hi" "?hi < 0xdc00" "0xdc00 \<le> ?lo" "?lo < 0xe000"
    by (simp_all only: word_less_nat_alt word_le_nat_alt s) simp_all
  have up: "(ucast x :: u32) < ucast y \<longleftrightarrow> x < y" "(ucast x :: u32) \<le> ucast y \<longleftrightarrow> x \<le> y" for x y :: u16
    by (simp_all add: word_less_nat_alt word_le_nat_alt unat_ucast_up)
  have d1: "drop k (units p) = ?hi # ?lo # us" using d c(2) by (simp add: utf16_enc_def not_less)
  note g1 = string_get_drop [OF d1]
  note g2 = string_get_drop [OF conjunct2 [OF conjunct2 [OF g1]]]
  have b: "\<not> (ucast ?hi :: u32) < 0x100" "\<not> 0xdc00 \<le> (ucast ?hi :: u32)" "0xd800 \<le> (ucast ?hi :: u32)" "ucast ?hi \<le> (0xdbff :: u32)"
    "\<not> ucast ?lo < (0xdc00 :: u32)" "\<not> ucast ?lo > (0xdfff :: u32)"
    using r by (simp_all add: word_less_nat_alt word_le_nat_alt unat_ucast_up del: unsigned_ucast_eq)
  have "encode_point p (ucast ?hi) (k + 1) = Inr (c, k + 2)"
    using b g2 s(3) unfolding encode_point_def Let_def by simp
  moreover have "\<not> isURIUnescaped (ucast ?hi) isComponent" using b(1) by (simp add: isURIUnescaped_def)
  ultimately show ?thesis using g1 g2 by simp
qed

lemma encode_point_single:
  assumes "scalar c" "c < 0x10000"
  shows "encode_point p c k = Inr (c, k)"
proof -
  have "\<not> (0xdc00 \<le> c \<and> c \<le> 0xdfff)" "\<not> (0xd800 \<le> c \<and> c \<le> 0xdbff)"
    using assms by (auto simp: scalar_def word_less_nat_alt word_le_nat_alt)
  then show ?thesis unfolding encode_point_def by (auto simp: Let_def)
qed

context allocator
begin

lemma encode_loop_scalars:
  "drop k (units p) = utf16 cs \<Longrightarrow> \<forall>c \<in> set cs. scalar c \<Longrightarrow> sb_inv b \<Longrightarrow>
    \<exists>b'. encode_loop A p isComponent k b = (b', None) \<and> wrote A b b' (concat (map (enc_point isComponent) cs))"
proof (induction cs arbitrary: k b)
  case Nil
  then have "\<not> k < str_len p" by (simp add: utf16_def str_len_def)
  then show ?case using wrote_refl [OF Nil(3)] by (subst encode_loop.simps) simp
next
  case (Cons c cs)
  have d: "drop k (units p) = utf16_enc c @ utf16 cs" using Cons(2) by (simp add: utf16_def)
  have sc: "scalar c" using Cons(3) by simp
  have step: "\<exists>b'. encode_loop A p isComponent k' (f b) = (b', None) \<and> wrote A b b' (xs @ concat (map (enc_point isComponent) cs))"
    if "writes A f xs" "drop k' (units p) = utf16 cs" for f xs k'
    using Cons(1) [OF that(2), of "f b"] Cons(3) wrote_inv [OF writesD [OF that(1) Cons(4)]] wrote_step [OF that(1) Cons(4)] by (metis list.set_intros(2))
  show ?case
  proof (cases "c < 0x10000")
    case True
    have d1: "drop k (units p) = ucast c # utf16 cs" using d True by (simp add: utf16_enc_small)
    note g = string_get_drop [OF d1]
    have k: "string_get p k = c" "k < str_len p" "drop (k + 1) (units p) = utf16 cs"
      using g True by (simp_all add: ucast_u16_u32)
    show ?thesis
    proof (cases "isURIUnescaped c isComponent")
      case u: True
      have "encode_loop A p isComponent k b = encode_loop A p isComponent (k + 1) (fst (string_buffer_putc16 A b c))"
        using k u by (subst encode_loop.simps) (simp add: Let_def)
      then show ?thesis
        using step [OF writes_putc16 k(3)] u by (simp add: enc_point_def [of isComponent c])
    next
      case u: False
      have "encode_loop A p isComponent k b = encode_loop A p isComponent (k + 1) (encode_bytes A c b)"
        using k u by (subst encode_loop.simps) (simp add: Let_def encode_point_single [OF sc True])
      then show ?thesis
        using step [OF writes_encode_bytes k(3)] u by (simp add: enc_point_def [of isComponent c])
    qed
  next
    case False
    from encode_point_pair [OF sc False d, of isComponent] obtain hi where k: "string_get p k = hi" "\<not> isURIUnescaped hi isComponent"
      "encode_point p hi (k + 1) = Inr (c, k + 2)" "drop (k + 2) (units p) = utf16 cs" "k < str_len p" by blast
    have u: "\<not> isURIUnescaped c isComponent" using False by (auto simp: isURIUnescaped_def word_less_nat_alt)
    have "encode_loop A p isComponent k b = encode_loop A p isComponent (k + 2) (encode_bytes A c b)"
      using k by (subst encode_loop.simps) (simp add: Let_def)
    then show ?thesis
      using step [OF writes_encode_bytes k(4)] u by (simp add: enc_point_def [of isComponent c])
  qed
qed

lemma decode_loop_scalars:
  "drop k (units p) = concat (map (enc_point isComponent) cs) \<Longrightarrow> \<forall>c \<in> set cs. scalar c \<Longrightarrow> sb_inv b \<Longrightarrow>
    \<exists>b'. decode_loop A p isComponent k b = (b', None) \<and> wrote A b b' (utf16 cs)"
proof (induction cs arbitrary: k b)
  case Nil
  then have "\<not> k < str_len p" by (simp add: str_len_def)
  then show ?case using wrote_refl [OF Nil(3)] by (subst decode_loop.simps) (simp add: utf16_def)
next
  case (Cons c cs)
  let ?us = "concat (map (enc_point isComponent) cs)"
  have d: "drop k (units p) = enc_point isComponent c @ ?us" using Cons(2) by simp
  have "\<exists>k'. decode_step p isComponent k = Inr (c, k') \<and> drop k' (units p) = ?us \<and> k < str_len p"
  proof (cases "isURIUnescaped c isComponent")
    case True
    then have d1: "drop k (units p) = ucast c # ?us" using d by (simp add: enc_point_def)
    have "c < 0x10000" using unescaped_low(1) [OF True] by (simp add: word_less_nat_alt)
    then show ?thesis using string_get_drop [OF d1] unescaped_low(2) [OF True] by (simp add: decode_step_def ucast_u16_u32)
  next
    case False
    then have d1: "drop k (units p) = wide8 (pct_utf8 c) @ ?us" using d by (simp add: enc_point_def)
    have "\<not> (\<not> isComponent \<and> isURIReserved c)" using False by (auto simp: isURIUnescaped_def isURIReserved_def in_chars_def)
    from decode_step_pct [OF _ d1 this] Cons(3) show ?thesis by simp
  qed
  then obtain k' where k': "decode_step p isComponent k = Inr (c, k')" "drop k' (units p) = ?us" "k < str_len p" by blast
  have "decode_loop A p isComponent k b = decode_loop A p isComponent k' (fst (string_buffer_putc A b c))"
    using k' by (subst decode_loop.simps) simp
  moreover obtain b' where "decode_loop A p isComponent k' (fst (string_buffer_putc A b c)) = (b', None)"
    "wrote A (fst (string_buffer_putc A b c)) b' (utf16 cs)"
    using Cons(1) [OF k'(2)] Cons(3) wrote_inv [OF writesD [OF writes_putc Cons(4)]] by (metis list.set_intros(2))
  ultimately show ?case using wrote_step [OF writes_putc Cons(4)] by (simp add: utf16_def)
qed

end

section \<open>Errors\<close>

lemma unescaped_not_surrogate: "isURIUnescaped (ucast (x :: u16)) isComponent \<Longrightarrow> x < 0xd800"
  using unescaped_low(1) [of "ucast x" isComponent] by (auto simp: word_less_nat_alt unat_ucast_up)

lemma encode_loop_error:
  "snd (encode_loop A p isComponent k b) = None \<longleftrightarrow> wf16 (drop k (units p))"
proof (induction "str_len p - k" arbitrary: k b rule: less_induct)
  case less
  show ?case
  proof (cases "drop k (units p)")
    case Nil
    then have "\<not> k < str_len p" by (simp add: str_len_def)
    then show ?thesis using Nil by (subst encode_loop.simps) simp
  next
    case (Cons x xs)
    note g = string_get_drop [OF Cons]
    have up: "(ucast x :: u32) < ucast y \<longleftrightarrow> x < y" "(ucast x :: u32) \<le> ucast y \<longleftrightarrow> x \<le> y" for x y :: u16
      by (simp_all add: word_less_nat_alt word_le_nat_alt unat_ucast_up)
    have m: "str_len p - (k + 1) < str_len p - k" "str_len p - (k + 2) < str_len p - k" using g by linarith+
    have ih: "snd (encode_loop A p isComponent (k + 1) b') = None \<longleftrightarrow> wf16 xs" for b'
      using less [OF m(1), of b'] g by simp
    have r: "0xdc00 \<le> (ucast x :: u32) \<and> ucast x \<le> (0xdfff :: u32) \<longleftrightarrow> 0xdc00 \<le> x \<and> x < 0xe000"
      "0xd800 \<le> (ucast x :: u32) \<and> ucast x \<le> (0xdbff :: u32) \<longleftrightarrow> 0xd800 \<le> x \<and> x < 0xdc00" for x :: u16
      by (auto simp: word_less_nat_alt word_le_nat_alt unat_ucast_up)
    show ?thesis
    proof (cases "isURIUnescaped (ucast x) isComponent")
      case True
      then have "\<not> 0xd800 \<le> x" "\<not> 0xdc00 \<le> x" using unescaped_not_surrogate [OF True] by (auto simp: word_less_nat_alt word_le_nat_alt)
      then show ?thesis using True g ih Cons by (subst encode_loop.simps) simp
    next
      case u: False
      consider (low) "0xdc00 \<le> x" "x < 0xe000" | (high) "0xd800 \<le> x" "x < 0xdc00"
        | (other) "\<not> (0xdc00 \<le> x \<and> x < 0xe000)" "\<not> (0xd800 \<le> x \<and> x < 0xdc00)" by blast
      then show ?thesis
      proof cases
        case low
        then have "encode_point p (ucast x) (k + 1) = Inl Invalid_character" using r(1) [of x] by (simp add: encode_point_def)
        then show ?thesis using u g low Cons by (subst encode_loop.simps) simp
      next
        case other
        then have "encode_point p (ucast x) (k + 1) = Inr (ucast x, k + 1)" using r [of x] by (auto simp: encode_point_def Let_def)
        then show ?thesis using u g other ih Cons by (subst encode_loop.simps) auto
      next
        case high
        then have n: "\<not> 0xdc00 \<le> x" by (simp add: not_le)
        show ?thesis
        proof (cases xs)
          case Nil
          then have "str_len p \<le> k + 1" using g by (simp add: str_len_def)
          then have "encode_point p (ucast x) (k + 1) = Inl Expecting_surrogate_pair"
            using r [of x] high n by (simp add: encode_point_def)
          then show ?thesis using u g high n Cons Nil by (subst encode_loop.simps) simp
        next
          case y: (Cons y ys)
          note g2 = string_get_drop [OF conjunct2 [OF conjunct2 [OF g], unfolded y]]
          have ih2: "snd (encode_loop A p isComponent (k + 2) b') = None \<longleftrightarrow> wf16 ys" for b'
            using less [OF m(2), of b'] g2 by simp
          show ?thesis
          proof (cases "0xdc00 \<le> y \<and> y < 0xe000")
            case True
            then have "\<exists>c. encode_point p (ucast x) (k + 1) = Inr (c, k + 2)"
              using r [of x] r(1) [of y] high n g2 by (simp add: encode_point_def Let_def not_less)
            then show ?thesis using u g high n Cons y True ih2 by (subst encode_loop.simps) auto
          next
            case False
            then have "encode_point p (ucast x) (k + 1) = Inl Expecting_surrogate_pair"
              using r [of x] r(1) [of y] high n g2 by (auto simp: encode_point_def Let_def not_less not_le)
            then show ?thesis using u g high n Cons y False by (subst encode_loop.simps) auto
          qed
        qed
      qed
    qed
  qed
qed

lemma encodeURI_error: "isl (snd (js_global_encodeURI A m p isComponent)) \<longleftrightarrow> \<not> wf16 (units p)"
  using encode_loop_error [of A p isComponent 0 "fst (string_buffer_init A m (int (str_len p)))"]
  by (auto simp: js_global_encodeURI_def split: prod.splits option.splits)

text \<open>A well-formed string is the UTF-16 form of scalar values.\<close>

lemma u16_id: "ucast (ucast (u :: u16) :: u32) = u"
proof -
  have "unat u < 2 ^ LENGTH(16)" by (rule unsigned_less)
  then have lt: "unat u < 65536" by simp
  show ?thesis by (rule word_unat_eq_iff [THEN iffD2]) (simp only: unat_ucast_mod, use lt in simp)
qed

lemma wf16_scalars: "wf16 us \<Longrightarrow> \<exists>cs. (\<forall>c \<in> set cs. scalar c) \<and> us = utf16 cs"
proof (induction "length us" arbitrary: us rule: less_induct)
  case less
  show ?case
  proof (cases us)
    case Nil
    then show ?thesis by (intro exI [of _ "[]"]) (simp add: utf16_def)
  next
    case (Cons x xs)
    show ?thesis
    proof (cases "0xd800 \<le> x \<and> x < 0xdc00")
      case False
      then have x: "\<not> (0xdc00 \<le> x \<and> x < 0xe000)" "wf16 xs" using less(2) Cons by (auto split: if_splits)
      from less(1) [OF _ x(2)] Cons obtain cs where cs: "\<forall>c \<in> set cs. scalar c" "xs = utf16 cs" by auto
      have "unat x < 2 ^ LENGTH(16)" by (rule unsigned_less)
      then have lt: "unat x < 65536" by simp
      have sc: "scalar (ucast x)" and sm: "(ucast x :: u32) < 0x10000"
        using False x(1) lt by (auto simp: scalar_def word_less_nat_alt word_le_nat_alt unat_ucast_up)
      have "us = utf16 (ucast x # cs)"
        using cs Cons sm u16_id by (simp add: utf16_def utf16_enc_small)
      then show ?thesis using sc cs by (intro exI [of _ "ucast x # cs"]) simp
    next
      case True
      then have nl: "\<not> (0xdc00 \<le> x \<and> x < 0xe000)" by (auto simp: word_less_nat_alt word_le_nat_alt)
      with True less(2) Cons obtain y ys where y: "xs = y # ys" "0xdc00 \<le> y" "y < 0xe000" "wf16 ys"
        by (auto split: list.splits)
      from less(1) [OF _ y(4)] Cons y(1) obtain cs where cs: "\<forall>c \<in> set cs. scalar c" "ys = utf16 cs" by auto
      define h l where "h = unat x - 0xd800" and "l = unat y - 0xdc00"
      have hl: "h < 1024" "l < 1024" "unat x = h + 0xd800" "unat y = l + 0xdc00"
        using True y(2,3) by (auto simp: h_def l_def word_less_nat_alt word_le_nat_alt)
      define c :: u32 where "c = of_nat (h * 1024 + l + 0x10000)"
      have uc: "unat c = h * 1024 + l + 0x10000" unfolding c_def using hl by (intro unat_of_nat_small) simp
      have nc: "\<not> c < 0x10000" "unat c < 0x110000" using uc hl by (simp_all add: word_less_nat_alt)
      have sc: "scalar c" using uc hl by (simp add: scalar_def word_less_nat_alt word_le_nat_alt)
      note s = surrogates [OF nc]
      have "utf16_enc c = [x, y]"
        using nc(1) s(1,2) uc hl by (simp add: utf16_enc_def not_less word_unat_eq_iff)
      then have "us = utf16 (c # cs)" using cs Cons y(1) by (simp add: utf16_def)
      then show ?thesis using sc cs by (intro exI [of _ "c # cs"]) simp
    qed
  qed
qed

text \<open>What comes out at the end: the string written, unless memory ran out or it is too long.\<close>

definition result_is :: "'m alloc \<Rightarrow> js_string option \<Rightarrow> u16 list \<Rightarrow> bool" where
  "result_is A r xs \<longleftrightarrow> (case r of None \<Rightarrow> refuses A \<or> JS_STRING_LEN_MAX < int (length xs) | Some q \<Rightarrow> units q = xs)"

lemma result_isD: "result_is A r xs \<Longrightarrow> \<not> refuses A \<Longrightarrow> int (length xs) \<le> JS_STRING_LEN_MAX \<Longrightarrow> \<exists>q. r = Some q \<and> units q = xs"
  by (auto simp: result_is_def split: option.splits)

lemma init_error:
  "sb_error (fst (string_buffer_init A m n)) \<Longrightarrow> 0 \<le> n \<Longrightarrow> refuses A \<or> JS_STRING_LEN_MAX < n"
  by (auto simp: string_buffer_init_def string_buffer_init2_def js_alloc_string_def split: if_splits prod.splits bool.splits option.splits
      dest: refusesI)

lemma hex_bytes_byte: "c < 0x100 \<Longrightarrow> length (hex_bytes c) = 3"
  by (simp add: hex_bytes_def Let_def word_less_nat_alt word_le_nat_alt)

lemma pct_length:
  assumes "scalar c"
  shows "1 \<le> length (pct_utf8 c)" "length (pct_utf8 c) \<le> 9 * length (utf16_enc c)" "length (utf16_enc c) \<le> length (pct_utf8 c)"
proof -
  note sb = scalar_bounds [OF assms]
  consider "c < 0x80" | "\<not> c < 0x80" "c < 0x800" | "\<not> c < 0x80" "\<not> c < 0x800" "c < 0x10000" | "\<not> c < 0x80" "\<not> c < 0x800" "\<not> c < 0x10000"
    by blast
  then have "1 \<le> length (pct_utf8 c) \<and> length (pct_utf8 c) \<le> 9 * length (utf16_enc c) \<and> length (utf16_enc c) \<le> length (pct_utf8 c)"
  proof cases
    case 1
    then have "c < 0x100" "c < 0x10000" by (simp_all add: word_less_nat_alt)
    then show ?thesis using 1 by (simp add: pct_utf8_def hex_bytes_byte utf16_enc_small)
  next
    case 2
    then have "c < 0x10000" by (simp add: word_less_nat_alt)
    then show ?thesis using 2 by (simp add: pct_utf8_def hex_bytes_byte utf16_enc_small decode_lead_2(2) cont32_facts(1))
  next
    case 3
    then show ?thesis by (simp add: pct_utf8_def hex_bytes_byte utf16_enc_small decode_lead_3(2) cont32_facts(1))
  next
    case 4
    then show ?thesis using decode_lead_4(2) [OF sb(3)]
      by (simp add: pct_utf8_def hex_bytes_byte cont32_facts(1) utf16_enc_def not_less)
  qed
  then show "1 \<le> length (pct_utf8 c)" "length (pct_utf8 c) \<le> 9 * length (utf16_enc c)" "length (utf16_enc c) \<le> length (pct_utf8 c)"
    by simp_all
qed

lemma enc_point_length:
  assumes "scalar c"
  shows "length (utf16_enc c) \<le> length (enc_point isComponent c) \<and> length (enc_point isComponent c) \<le> 9 * length (utf16_enc c)"
proof (cases "isURIUnescaped c isComponent")
  case True
  then have "c < 0x10000" by (auto simp: isURIUnescaped_def word_less_nat_alt)
  then show ?thesis using True by (simp add: enc_point_def utf16_enc_small)
next
  case False
  then show ?thesis using pct_length [OF assms] by (simp add: enc_point_def wide8_def)
qed

lemma enc_length:
  "\<forall>c \<in> set cs. scalar c \<Longrightarrow> length (utf16 cs) \<le> length (concat (map (enc_point isComponent) cs))
    \<and> length (concat (map (enc_point isComponent) cs)) \<le> 9 * length (utf16 cs)"
proof (induction cs)
  case (Cons c cs)
  then show ?case using enc_point_length [of c isComponent] by (simp add: utf16_def)
qed (simp add: utf16_def)

context allocator
begin

lemma end_result:
  assumes "wrote A b b' xs" "sb_units b = []" "sb_error b \<Longrightarrow> refuses A \<or> JS_STRING_LEN_MAX < int (length xs)"
  shows "result_is A (snd (string_buffer_end A b')) xs"
proof (cases "sb_error b'")
  case True
  then show ?thesis using end_error [OF True] assms by (auto simp: wrote_def result_is_def sb_len_def)
next
  case False
  then show ?thesis using end_units [of b'] assms by (auto simp: wrote_def result_is_def split: option.splits)
qed

lemma end_init:
  assumes "wrote A (fst (string_buffer_init A m n)) b' xs" "0 \<le> n" "n \<le> int (length xs)"
  shows "result_is A (snd (string_buffer_end A b')) xs"
  using init_inv [OF assms(2), of A m] init_error [OF _ assms(2), of A m] assms(3) by (intro end_result [OF assms(1)]) auto

lemma encodeURI_result:
  assumes "units p = utf16 cs" "\<forall>c \<in> set cs. scalar c"
  shows "\<exists>m' r. js_global_encodeURI A m p isComponent = (m', Inr r)
    \<and> result_is A r (concat (map (enc_point isComponent) cs))"
proof -
  let ?b = "fst (string_buffer_init A m (int (str_len p)))"
  have i: "sb_inv ?b" "sb_units ?b = []" using init_inv [of "int (str_len p)" A m] by simp_all
  from encode_loop_scalars [of 0 p cs ?b isComponent] assms i obtain b' where
    b': "encode_loop A p isComponent 0 ?b = (b', None)" "wrote A ?b b' (concat (map (enc_point isComponent) cs))" by auto
  have "result_is A (snd (string_buffer_end A b')) (concat (map (enc_point isComponent) cs))"
    by (rule end_init [OF b'(2)]) (use assms(1) enc_length [OF assms(2), of isComponent] in \<open>simp_all add: str_len_def\<close>)
  moreover obtain m' r where e: "string_buffer_end A b' = (m', r)" by (cases "string_buffer_end A b'")
  ultimately show ?thesis using b'(1) by (simp add: js_global_encodeURI_def)
qed

lemma decodeURI_result:
  assumes "units p = concat (map (enc_point isComponent) cs)" "\<forall>c \<in> set cs. scalar c"
  shows "\<exists>m' r. js_global_decodeURI A m p isComponent = (m', Inr r) \<and> result_is A r (utf16 cs)"
proof -
  let ?b = "fst (string_buffer_init A m 0)"
  have i: "sb_inv ?b" "sb_units ?b = []" using init_inv [of 0 A m] by simp_all
  from decode_loop_scalars [of 0 p isComponent cs ?b] assms i obtain b' where
    b': "decode_loop A p isComponent 0 ?b = (b', None)" "wrote A ?b b' (utf16 cs)" by auto
  have "result_is A (snd (string_buffer_end A b')) (utf16 cs)" by (rule end_init [OF b'(2)]) simp_all
  moreover obtain m' r where e: "string_buffer_end A b' = (m', r)" by (cases "string_buffer_end A b'")
  ultimately show ?thesis using b'(1) by (simp add: js_global_decodeURI_def)
qed

lemma uri_undone:
  assumes "\<not> refuses A" "wf16 (units p)" "9 * int (str_len p) \<le> JS_STRING_LEN_MAX"
  shows "\<exists>m1 q m2 t. js_global_encodeURI A m p isComponent = (m1, Inr (Some q))
    \<and> js_global_decodeURI A m1 q isComponent = (m2, Inr (Some t)) \<and> units t = units p"
proof -
  from wf16_scalars [OF assms(2)] obtain cs where cs: "\<forall>c \<in> set cs. scalar c" "units p = utf16 cs" by blast
  have l: "int (length (concat (map (enc_point isComponent) cs))) \<le> JS_STRING_LEN_MAX" "int (length (utf16 cs)) \<le> JS_STRING_LEN_MAX"
    using enc_length [OF cs(1), of isComponent] assms(3) cs(2) by (simp_all add: str_len_def)
  from encodeURI_result [OF cs(2,1)] result_isD [OF _ assms(1) l(1)] obtain m1 q where
    q: "js_global_encodeURI A m p isComponent = (m1, Inr (Some q))" "units q = concat (map (enc_point isComponent) cs)" by metis
  from decodeURI_result [OF q(2) cs(1)] result_isD [OF _ assms(1) l(2)] obtain m2 t where
    "js_global_decodeURI A m1 q isComponent = (m2, Inr (Some t))" "units t = utf16 cs" by metis
  then show ?thesis using q(1) cs(2) by metis
qed

end

section \<open>\<open>unescape\<close> undoes \<open>escape\<close>\<close>

lemma hex_digit_not_u: "ucast (ucast (hex_digit d) :: u16) \<noteq> (0x75 :: u32)"
  using from_hex_digit [of d] by (auto simp: from_hex_def)

lemma isUnescaped_not_percent: "isUnescaped c \<Longrightarrow> c \<noteq> 0x25"
  unfolding isUnescaped_def by (drule in_charsD) (auto simp: cstr_def)

definition esc_unit :: "u16 \<Rightarrow> u16 list" where
  "esc_unit u = (if isUnescaped (ucast u) then [u] else wide8 (hex_bytes (ucast u)))"

lemma esc_unit_length: "1 \<le> length (esc_unit u) \<and> length (esc_unit u) \<le> 6"
  by (auto simp: esc_unit_def hex_bytes_def Let_def)

lemma esc_length: "length us \<le> length (concat (map esc_unit us)) \<and> length (concat (map esc_unit us)) \<le> 6 * length us"
proof (induction us)
  case (Cons u us)
  then show ?case using esc_unit_length [of u] by simp
qed simp

lemma u16_low: "take_bit 16 (ucast (u :: u16) :: u32) = ucast u"
proof -
  have "unat u < 2 ^ LENGTH(16)" by (rule unsigned_less)
  then show ?thesis by (intro take_bit_lt) (simp add: unat_ucast_up)
qed

lemma unescape_step_esc:
  assumes d: "drop i (units p) = esc_unit u @ us"
  shows "\<exists>i'. unescape_step p i = (ucast u, i') \<and> drop i' (units p) = us \<and> i < str_len p"
proof (cases "isUnescaped (ucast u)")
  case True
  then have "drop i (units p) = u # us" using d by (simp add: esc_unit_def)
  from string_get_drop [OF this] isUnescaped_not_percent [OF True] show ?thesis by (simp add: unescape_step_def)
next
  case False
  let ?c = "ucast u :: u32"
  have d0: "drop i (units p) = wide8 (hex_bytes ?c) @ us" using d False by (simp add: esc_unit_def)
  show ?thesis
  proof (cases "?c < 0x100")
    case True
    note h = hex_decode_byte [OF True d0]
    have n: "\<not> 256 \<le> ?c" using True by simp
    have d1: "drop i (units p) = 0x25 # ucast (hex_digit (drop_bit 4 ?c)) # ucast (hex_digit ?c) # us"
      using d0 n by (simp add: hex_bytes_def)
    note g = string_get_drop [OF d1]
    note g1 = string_get_drop [OF conjunct2 [OF conjunct2 [OF g]]]
    have "\<not> string_get p (i + 1) = 0x75" using g1 hex_digit_not_u by simp
    moreover have "string_get_hex p (i + 1) 2 = Some ?c \<and> i + 3 \<le> str_len p"
      using h by (auto simp: hex_decode_def split: if_splits option.splits)
    ultimately show ?thesis using h by (simp add: unescape_step_def)
  next
    case big: False
    then have n: "256 \<le> ?c" by simp
    let ?x = "wide8 [hex_digit (drop_bit 12 ?c), hex_digit (drop_bit 8 ?c), hex_digit (drop_bit 4 ?c), hex_digit ?c]"
    have d1: "drop i (units p) = 0x25 # 0x75 # ?x @ us" using d0 n by (simp add: hex_bytes_def)
    note g = string_get_drop [OF d1]
    note g1 = string_get_drop [OF conjunct2 [OF conjunct2 [OF g]]]
    have d2: "drop (i + 2) (units p) = ?x @ us"
    proof -
      have "i + 1 + 1 = i + 2" by simp
      with conjunct2 [OF conjunct2 [OF g1]] show ?thesis by (simp only:)
    qed
    have e: "drop i (units p) = [0x25, 0x75, ucast (hex_digit (drop_bit 12 ?c)), ucast (hex_digit (drop_bit 8 ?c)),
        ucast (hex_digit (drop_bit 4 ?c)), ucast (hex_digit ?c)] @ us" using d1 by (simp only: wide8_def list.map append_Cons append_Nil)
    have len: "i + 6 \<le> str_len p \<and> drop (i + 6) (units p) = us"
    proof -
      have l: "length [0x25, 0x75, a, b, c, d :: u16] = 6" for a b c d by simp
      show ?thesis using drop_str_len [OF e] unfolding l by simp
    qed
    have "string_get_hex p (i + 2) 4 = Some ?c" using get_hex4 [OF d2] u16_low by simp
    moreover have "string_get p (i + 1) = 0x75" using g1 by simp
    ultimately show ?thesis using g len by (simp add: unescape_step_def)
  qed
qed

context allocator
begin

lemma escape_loop_units:
  "drop i (units p) = us \<Longrightarrow> sb_inv b \<Longrightarrow> wrote A b (escape_loop A p i b) (concat (map esc_unit us))"
proof (induction us arbitrary: i b)
  case Nil
  then have "\<not> i < str_len p" by (simp add: str_len_def)
  then show ?case using wrote_refl [OF Nil(2)] by (subst escape_loop.simps) simp
next
  case (Cons u us)
  note g = string_get_drop [OF Cons(2)]
  let ?f = "\<lambda>b. if isUnescaped (ucast u) then fst (string_buffer_putc16 A b (ucast u)) else encodeURI_hex A b (ucast u)"
  have w: "writes A ?f (esc_unit u)"
    using writes_putc16 [of "ucast u"] writes_hex [of "ucast u"] u16_id unfolding esc_unit_def wide8_def by auto
  have "escape_loop A p i b = escape_loop A p (i + 1) (?f b)" using g by (subst escape_loop.simps) (simp add: Let_def)
  then show ?case using wrote_step [OF w Cons(3)] Cons(1) [of "i + 1" "?f b"] g wrote_inv [OF writesD [OF w Cons(3)]] by simp
qed

lemma unescape_loop_units:
  "drop i (units p) = concat (map esc_unit us) \<Longrightarrow> sb_inv b \<Longrightarrow> wrote A b (unescape_loop A p i b) us"
proof (induction us arbitrary: i b)
  case Nil
  then have "\<not> i < str_len p" by (simp add: str_len_def)
  then show ?case using wrote_refl [OF Nil(2)] by (subst unescape_loop.simps) simp
next
  case (Cons u us)
  from unescape_step_esc [of i p u "concat (map esc_unit us)"] Cons(2) obtain i' where
    i': "unescape_step p i = (ucast u, i')" "drop i' (units p) = concat (map esc_unit us)" "i < str_len p" by auto
  have w: "writes A (\<lambda>b. fst (string_buffer_putc16 A b (ucast u))) [u]" using writes_putc16 [of "ucast u"] u16_id by simp
  have "unescape_loop A p i b = unescape_loop A p i' (fst (string_buffer_putc16 A b (ucast u)))"
    using i' by (subst unescape_loop.simps) simp
  then show ?case using wrote_step [OF w Cons(3)] Cons(1) [OF i'(2)] wrote_inv [OF writesD [OF w Cons(3)]] by simp
qed

lemma escape_undone:
  assumes "\<not> refuses A" "6 * int (str_len p) \<le> JS_STRING_LEN_MAX"
  shows "\<exists>m1 q m2 t. js_global_escape A m p = (m1, Some q) \<and> js_global_unescape A m1 q = (m2, Some t) \<and> units t = units p"
proof -
  let ?xs = "concat (map esc_unit (units p))"
  define b where "b = fst (string_buffer_init A m (int (str_len p)))"
  have i: "sb_inv (fst (string_buffer_init A m n))" if "0 \<le> n" for m n using init_inv [OF that, of A m] by simp
  have l: "str_len p \<le> length ?xs" "length ?xs \<le> 6 * str_len p" using esc_length [of "units p"] by (simp_all add: str_len_def)
  have "wrote A b (escape_loop A p 0 b) ?xs" by (rule escape_loop_units) (simp_all add: i b_def)
  then have "result_is A (snd (js_global_escape A m p)) ?xs"
    unfolding js_global_escape_def b_def by (rule end_init) (use l in simp_all)
  then obtain m1 q where q: "js_global_escape A m p = (m1, Some q)" "units q = ?xs"
    using result_isD [OF _ assms(1), of "snd (js_global_escape A m p)" ?xs] l assms(2) by (cases "js_global_escape A m p") auto
  define b' where "b' = fst (string_buffer_init A m1 0)"
  have "wrote A b' (unescape_loop A q 0 b') (units p)" using q(2) by (intro unescape_loop_units) (simp_all add: i b'_def)
  then have "result_is A (snd (js_global_unescape A m1 q)) (units p)"
    unfolding js_global_unescape_def b'_def by (rule end_init) simp_all
  then obtain m2 t where "js_global_unescape A m1 q = (m2, Some t)" "units t = units p"
    using result_isD [OF _ assms(1), of "snd (js_global_unescape A m1 q)" "units p"] l assms(2)
    by (cases "js_global_unescape A m1 q") (auto simp: str_len_def)
  then show ?thesis using q(1) by blast
qed

end

section \<open>Properties\<close>

text \<open>
  C34. \<open>decodeURI\<close> undoes \<open>encodeURI\<close>: a string of well-formed UTF-16, short enough for its encoding to
  be a string at all, is encoded and decoded to itself when memory suffices; likewise for the
  component functions.
\<close>
theorem uri_round_trip:
  assumes "allocator A" and "\<not> refuses A" and "wf16 (units p)" and "9 * int (str_len p) \<le> JS_STRING_LEN_MAX"
  shows "\<exists>m1 q m2 t. js_global_encodeURI A m p isComponent = (m1, Inr (Some q))
    \<and> js_global_decodeURI A m1 q isComponent = (m2, Inr (Some t)) \<and> units t = units p"
  by (rule allocator.uri_undone [OF assms])

text \<open>
  \<open>encodeURI\<close> throws a URIError exactly on a string with a lone surrogate, whatever the allocator
  does.
\<close>
theorem encodeURI_throws_on_lone_surrogates:
  "isl (snd (js_global_encodeURI A m p isComponent)) \<longleftrightarrow> \<not> wf16 (units p)"
  by (rule encodeURI_error)

text \<open>
  \<open>unescape\<close> undoes \<open>escape\<close> on every string, lone surrogates included, that is short enough for its
  escaped form, when memory suffices.
\<close>
theorem escape_round_trip:
  assumes "allocator A" and "\<not> refuses A" and "6 * int (str_len p) \<le> JS_STRING_LEN_MAX"
  shows "\<exists>m1 q m2 t. js_global_escape A m p = (m1, Some q) \<and> js_global_unescape A m1 q = (m2, Some t) \<and> units t = units p"
  by (rule allocator.escape_undone [OF assms])

theorem uri_round_trip_witness:
  "\<exists>m1 q m2 t. js_global_encodeURI plenty () (Str16 [0x41, 0x20AC, 0xD83D, 0xDE00]) True = (m1, Inr (Some q))
    \<and> js_global_decodeURI plenty m1 q True = (m2, Inr (Some t)) \<and> units t = [0x41, 0x20AC, 0xD83D, 0xDE00]"
proof -
  let ?p = "Str16 [0x41, 0x20AC, 0xD83D, 0xDE00]"
  have "wf16 (units ?p)" "9 * int (str_len ?p) \<le> JS_STRING_LEN_MAX" by (simp_all add: str_len_def JS_STRING_LEN_MAX_def)
  from uri_round_trip [OF plenty.allocator_axioms plenty_serves this, of "()" True] show ?thesis by simp
qed

theorem escape_round_trip_witness:
  "\<exists>m1 q m2 t. js_global_escape plenty () (Str16 [0x25, 0x20, 0xD83D]) = (m1, Some q)
    \<and> js_global_unescape plenty m1 q = (m2, Some t) \<and> units t = [0x25, 0x20, 0xD83D]"
proof -
  let ?p = "Str16 [0x25, 0x20, 0xD83D]"
  have "6 * int (str_len ?p) \<le> JS_STRING_LEN_MAX" by (simp add: str_len_def JS_STRING_LEN_MAX_def)
  from escape_round_trip [OF plenty.allocator_axioms plenty_serves this, of "()"] show ?thesis by simp
qed

end
