(* ===== verification/GcMark.thy ===== *)
theory GcMark
  imports Bridge_Prelude
begin

text \<open>
  The objects the cycle collector of quickjs.c sees: the six kinds of GC objects, the payload of
  every built-in class, and \<open>mark_children\<close>, which hands each reference an object owns to a mark
  function. The mark functions only change headers, which \<open>mark_children\<close> does not read, so the
  model returns the list of the headers in the order of the calls. A header is its address.
\<close>

type_synonym gc = nat

section \<open>Values\<close>

text \<open>A value as the collector reads it: the tag, and the pointer where the tag has one.\<close>

record jsval =
  v_tag :: s32
  v_ptr :: gc

definition JS_TAG_FIRST :: s32 where "JS_TAG_FIRST = - 11"
definition JS_TAG_FUNCTION_BYTECODE :: s32 where "JS_TAG_FUNCTION_BYTECODE = - 2"
definition JS_TAG_OBJECT :: s32 where "JS_TAG_OBJECT = - 1"
definition JS_TAG_UNDEFINED :: s32 where "JS_TAG_UNDEFINED = 3"

definition JS_MKPTR :: "s32 \<Rightarrow> gc \<Rightarrow> jsval" where
  "JS_MKPTR t p = \<lparr>v_tag = t, v_ptr = p\<rparr>"

text \<open>The comparison is of unsigned numbers: the tags with a reference count are the negative ones.\<close>

definition JS_VALUE_HAS_REF_COUNT :: "jsval \<Rightarrow> bool" where
  "JS_VALUE_HAS_REF_COUNT v \<longleftrightarrow> uint (v_tag v) \<ge> uint JS_TAG_FIRST"

definition JS_MarkValue :: "jsval \<Rightarrow> gc list" where
  "JS_MarkValue v =
    (if JS_VALUE_HAS_REF_COUNT v then
       (if v_tag v = JS_TAG_OBJECT \<or> v_tag v = JS_TAG_FUNCTION_BYTECODE then [v_ptr v] else [])
     else [])"

text \<open>A pointer that may be \<open>NULL\<close>, and a loop over values or pointers.\<close>

definition mark_opt :: "gc option \<Rightarrow> gc list" where
  "mark_opt x = (case x of None \<Rightarrow> [] | Some p \<Rightarrow> [p])"

definition mark_values :: "jsval list \<Rightarrow> gc list" where
  "mark_values vs = concat (map JS_MarkValue vs)"

section \<open>The payload of an object\<close>

datatype (plugins only: code) map_state = MapState (is_weak: bool) (map_records: "(jsval \<times> jsval) list")

record promise_reaction =
  rd_resolving_funcs :: "jsval \<times> jsval"
  rd_handler :: jsval

record async_request =
  rq_result :: jsval
  rq_promise :: jsval
  rq_resolving_funcs :: "jsval \<times> jsval"

text \<open>The members of the union \<open>u\<close> that hold references; \<open>None\<close> is a \<open>NULL\<close> pointer.\<close>

datatype (plugins only: code) payload =
    U_opaque
  | U_array "jsval list"
  | U_object_data jsval
  | U_cfunc "gc option"
  | U_func "gc option" "gc option list option" "gc option"
  | U_bound_function jsval jsval "jsval list"
  | U_c_function_data "jsval list option"
  | U_for_in_iterator jsval
  | U_typed_array "gc option"
  | U_map_state "map_state option"
  | U_map_iterator "jsval option"
  | U_array_iterator "jsval option"
  | U_regexp_string_iterator "(jsval \<times> jsval) option"
  | U_generator "gc option option"
  | U_proxy "(jsval \<times> jsval) option"
  | U_promise "(promise_reaction list \<times> promise_reaction list \<times> jsval) option"
  | U_promise_function "jsval option"
  | U_async_function "gc option"
  | U_async_from_sync_iterator "(jsval \<times> jsval) option"
  | U_async_generator "(async_request list \<times> gc option) option"
  | U_operator_set "(gc option list \<times> gc option list list \<times> gc option list list) option"

datatype (plugins only: code) js_class =
    JS_CLASS_OBJECT | JS_CLASS_ARRAY | JS_CLASS_ERROR | JS_CLASS_NUMBER | JS_CLASS_STRING
  | JS_CLASS_BOOLEAN | JS_CLASS_SYMBOL | JS_CLASS_ARGUMENTS | JS_CLASS_MAPPED_ARGUMENTS | JS_CLASS_DATE
  | JS_CLASS_MODULE_NS | JS_CLASS_C_FUNCTION | JS_CLASS_BYTECODE_FUNCTION | JS_CLASS_BOUND_FUNCTION
  | JS_CLASS_C_FUNCTION_DATA | JS_CLASS_GENERATOR_FUNCTION | JS_CLASS_FOR_IN_ITERATOR | JS_CLASS_REGEXP
  | JS_CLASS_ARRAY_BUFFER | JS_CLASS_SHARED_ARRAY_BUFFER | JS_CLASS_UINT8C_ARRAY | JS_CLASS_INT8_ARRAY
  | JS_CLASS_UINT8_ARRAY | JS_CLASS_INT16_ARRAY | JS_CLASS_UINT16_ARRAY | JS_CLASS_INT32_ARRAY
  | JS_CLASS_UINT32_ARRAY | JS_CLASS_BIG_INT64_ARRAY | JS_CLASS_BIG_UINT64_ARRAY | JS_CLASS_FLOAT32_ARRAY
  | JS_CLASS_FLOAT64_ARRAY | JS_CLASS_DATAVIEW | JS_CLASS_BIG_INT | JS_CLASS_BIG_FLOAT
  | JS_CLASS_FLOAT_ENV | JS_CLASS_BIG_DECIMAL | JS_CLASS_OPERATOR_SET | JS_CLASS_MAP | JS_CLASS_SET
  | JS_CLASS_WEAKMAP | JS_CLASS_WEAKSET | JS_CLASS_MAP_ITERATOR | JS_CLASS_SET_ITERATOR
  | JS_CLASS_ARRAY_ITERATOR | JS_CLASS_STRING_ITERATOR | JS_CLASS_REGEXP_STRING_ITERATOR
  | JS_CLASS_GENERATOR | JS_CLASS_PROXY | JS_CLASS_PROMISE | JS_CLASS_PROMISE_RESOLVE_FUNCTION
  | JS_CLASS_PROMISE_REJECT_FUNCTION | JS_CLASS_ASYNC_FUNCTION | JS_CLASS_ASYNC_FUNCTION_RESOLVE
  | JS_CLASS_ASYNC_FUNCTION_REJECT | JS_CLASS_ASYNC_FROM_SYNC_ITERATOR | JS_CLASS_ASYNC_GENERATOR_FUNCTION
  | JS_CLASS_ASYNC_GENERATOR

section \<open>GC objects\<close>

text \<open>One property slot of an object: its flags select the member of the union.\<close>

datatype (plugins only: code) js_property =
    PROP_NORMAL jsval
  | PROP_GETSET "gc option" "gc option"
  | PROP_VARREF gc
  | PROP_AUTOINIT gc
  | PROP_DELETED

datatype (plugins only: code) export_entry = Export_local "gc option" | Export_indirect

record module_def =
  m_exports :: "export_entry list"
  m_module_ns :: jsval
  m_func_obj :: jsval
  m_eval_exception :: jsval
  m_meta_obj :: jsval
  m_promise :: jsval
  m_resolving_funcs :: "jsval \<times> jsval"

record js_context =
  c_modules :: "module_def list"
  c_global_obj :: jsval
  c_global_var_obj :: jsval
  c_throw_type_error :: jsval
  c_eval_obj :: jsval
  c_array_proto_values :: jsval
  c_native_error_proto :: "jsval list"
  c_class_proto :: "jsval list"
  c_iterator_proto :: jsval
  c_async_iterator_proto :: jsval
  c_promise_ctor :: jsval
  c_array_ctor :: jsval
  c_regexp_ctor :: jsval
  c_function_ctor :: jsval
  c_function_proto :: jsval
  c_array_shape :: "gc option"

record async_state =
  a_is_completed :: bool
  a_cur_func :: jsval
  a_this_val :: jsval
  a_stack :: "jsval list option"
  a_resolving_funcs :: "jsval \<times> jsval"

datatype (plugins only: code) gc_object =
    GC_JS_OBJECT gc "js_property list" js_class payload
  | GC_FUNCTION_BYTECODE (cpool: "jsval list") (realm: "gc option") (closure_var_count: nat)
  | GC_SHAPE "gc option"
  | GC_VAR_REF bool jsval "gc option"
  | GC_ASYNC_FUNCTION async_state
  | GC_JS_CONTEXT js_context

type_synonym gc_heap = "gc \<Rightarrow> gc_object"

section \<open>The mark functions of the classes\<close>

text \<open>
  Each class reads the member of the union that belongs to it; on another member, which a C program
  would misread, the model marks nothing.
\<close>

definition js_array_mark :: "payload \<Rightarrow> gc list" where
  "js_array_mark u = (case u of U_array vs \<Rightarrow> mark_values vs | _ \<Rightarrow> [])"

definition js_object_data_mark :: "payload \<Rightarrow> gc list" where
  "js_object_data_mark u = (case u of U_object_data v \<Rightarrow> JS_MarkValue v | _ \<Rightarrow> [])"

definition js_c_function_mark :: "payload \<Rightarrow> gc list" where
  "js_c_function_mark u = (case u of U_cfunc rlm \<Rightarrow> mark_opt rlm | _ \<Rightarrow> [])"

text \<open>The number of closure variables is read in the function bytecode.\<close>

definition js_bytecode_function_mark :: "gc_heap \<Rightarrow> payload \<Rightarrow> gc list" where
  "js_bytecode_function_mark h u = (case u of
     U_func b var_refs home_object \<Rightarrow>
       (case home_object of None \<Rightarrow> [] | Some p \<Rightarrow> JS_MarkValue (JS_MKPTR JS_TAG_OBJECT p)) @
       (case b of None \<Rightarrow> []
        | Some fb \<Rightarrow>
            (case var_refs of None \<Rightarrow> []
             | Some vs \<Rightarrow> concat (map mark_opt (take (closure_var_count (h fb)) vs))) @
            JS_MarkValue (JS_MKPTR JS_TAG_FUNCTION_BYTECODE fb))
   | _ \<Rightarrow> [])"

definition js_bound_function_mark :: "payload \<Rightarrow> gc list" where
  "js_bound_function_mark u = (case u of
     U_bound_function func this argv \<Rightarrow> JS_MarkValue func @ JS_MarkValue this @ mark_values argv | _ \<Rightarrow> [])"

definition js_c_function_data_mark :: "payload \<Rightarrow> gc list" where
  "js_c_function_data_mark u = (case u of U_c_function_data (Some vs) \<Rightarrow> mark_values vs | _ \<Rightarrow> [])"

definition js_for_in_iterator_mark :: "payload \<Rightarrow> gc list" where
  "js_for_in_iterator_mark u = (case u of U_for_in_iterator v \<Rightarrow> JS_MarkValue v | _ \<Rightarrow> [])"

definition js_typed_array_mark :: "payload \<Rightarrow> gc list" where
  "js_typed_array_mark u = (case u of U_typed_array (Some b) \<Rightarrow> JS_MarkValue (JS_MKPTR JS_TAG_OBJECT b) | _ \<Rightarrow> [])"

definition js_map_mark :: "payload \<Rightarrow> gc list" where
  "js_map_mark u = (case u of
     U_map_state (Some s) \<Rightarrow>
       concat (map (\<lambda>(k, v). (if is_weak s then [] else JS_MarkValue k) @ JS_MarkValue v) (map_records s))
   | _ \<Rightarrow> [])"

definition js_map_iterator_mark :: "payload \<Rightarrow> gc list" where
  "js_map_iterator_mark u = (case u of U_map_iterator (Some v) \<Rightarrow> JS_MarkValue v | _ \<Rightarrow> [])"

definition js_array_iterator_mark :: "payload \<Rightarrow> gc list" where
  "js_array_iterator_mark u = (case u of U_array_iterator (Some v) \<Rightarrow> JS_MarkValue v | _ \<Rightarrow> [])"

definition js_regexp_string_iterator_mark :: "payload \<Rightarrow> gc list" where
  "js_regexp_string_iterator_mark u = (case u of
     U_regexp_string_iterator (Some (r, s)) \<Rightarrow> JS_MarkValue r @ JS_MarkValue s | _ \<Rightarrow> [])"

definition js_generator_mark :: "payload \<Rightarrow> gc list" where
  "js_generator_mark u = (case u of U_generator (Some st) \<Rightarrow> mark_opt st | _ \<Rightarrow> [])"

definition js_proxy_mark :: "payload \<Rightarrow> gc list" where
  "js_proxy_mark u = (case u of U_proxy (Some (target, handler)) \<Rightarrow> JS_MarkValue target @ JS_MarkValue handler | _ \<Rightarrow> [])"

definition mark_pair :: "jsval \<times> jsval \<Rightarrow> gc list" where
  "mark_pair x = JS_MarkValue (fst x) @ JS_MarkValue (snd x)"

definition mark_reactions :: "promise_reaction list \<Rightarrow> gc list" where
  "mark_reactions rs = concat (map (\<lambda>rd. mark_pair (rd_resolving_funcs rd) @ JS_MarkValue (rd_handler rd)) rs)"

definition js_promise_mark :: "payload \<Rightarrow> gc list" where
  "js_promise_mark u = (case u of
     U_promise (Some (fulfill, reject, result)) \<Rightarrow>
       mark_reactions fulfill @ mark_reactions reject @ JS_MarkValue result | _ \<Rightarrow> [])"

definition js_promise_resolve_function_mark :: "payload \<Rightarrow> gc list" where
  "js_promise_resolve_function_mark u = (case u of U_promise_function (Some v) \<Rightarrow> JS_MarkValue v | _ \<Rightarrow> [])"

definition js_async_function_resolve_mark :: "payload \<Rightarrow> gc list" where
  "js_async_function_resolve_mark u = (case u of U_async_function (Some p) \<Rightarrow> [p] | _ \<Rightarrow> [])"

definition js_async_from_sync_iterator_mark :: "payload \<Rightarrow> gc list" where
  "js_async_from_sync_iterator_mark u = (case u of
     U_async_from_sync_iterator (Some x) \<Rightarrow> mark_pair x | _ \<Rightarrow> [])"

definition js_async_generator_mark :: "payload \<Rightarrow> gc list" where
  "js_async_generator_mark u = (case u of
     U_async_generator (Some (queue, func_state)) \<Rightarrow>
       concat (map (\<lambda>r. JS_MarkValue (rq_result r) @ JS_MarkValue (rq_promise r) @ mark_pair (rq_resolving_funcs r)) queue)
       @ mark_opt func_state
   | _ \<Rightarrow> [])"

definition mark_objs :: "gc option list \<Rightarrow> gc list" where
  "mark_objs ps = concat (map (\<lambda>x. case x of None \<Rightarrow> [] | Some p \<Rightarrow> JS_MarkValue (JS_MKPTR JS_TAG_OBJECT p)) ps)"

definition js_operator_set_mark :: "payload \<Rightarrow> gc list" where
  "js_operator_set_mark u = (case u of
     U_operator_set (Some (self, left, right)) \<Rightarrow>
       mark_objs self @ concat (map mark_objs left) @ concat (map mark_objs right) | _ \<Rightarrow> [])"

text \<open>
  The class table: the third column of the class definitions, \<open>None\<close> where it is \<open>NULL\<close>.
\<close>

fun class_gc_mark :: "gc_heap \<Rightarrow> js_class \<Rightarrow> (payload \<Rightarrow> gc list) option" where
  "class_gc_mark h JS_CLASS_ARRAY = Some js_array_mark"
| "class_gc_mark h JS_CLASS_NUMBER = Some js_object_data_mark"
| "class_gc_mark h JS_CLASS_STRING = Some js_object_data_mark"
| "class_gc_mark h JS_CLASS_BOOLEAN = Some js_object_data_mark"
| "class_gc_mark h JS_CLASS_SYMBOL = Some js_object_data_mark"
| "class_gc_mark h JS_CLASS_ARGUMENTS = Some js_array_mark"
| "class_gc_mark h JS_CLASS_DATE = Some js_object_data_mark"
| "class_gc_mark h JS_CLASS_C_FUNCTION = Some js_c_function_mark"
| "class_gc_mark h JS_CLASS_BYTECODE_FUNCTION = Some (js_bytecode_function_mark h)"
| "class_gc_mark h JS_CLASS_BOUND_FUNCTION = Some js_bound_function_mark"
| "class_gc_mark h JS_CLASS_C_FUNCTION_DATA = Some js_c_function_data_mark"
| "class_gc_mark h JS_CLASS_GENERATOR_FUNCTION = Some (js_bytecode_function_mark h)"
| "class_gc_mark h JS_CLASS_FOR_IN_ITERATOR = Some js_for_in_iterator_mark"
| "class_gc_mark h JS_CLASS_UINT8C_ARRAY = Some js_typed_array_mark"
| "class_gc_mark h JS_CLASS_INT8_ARRAY = Some js_typed_array_mark"
| "class_gc_mark h JS_CLASS_UINT8_ARRAY = Some js_typed_array_mark"
| "class_gc_mark h JS_CLASS_INT16_ARRAY = Some js_typed_array_mark"
| "class_gc_mark h JS_CLASS_UINT16_ARRAY = Some js_typed_array_mark"
| "class_gc_mark h JS_CLASS_INT32_ARRAY = Some js_typed_array_mark"
| "class_gc_mark h JS_CLASS_UINT32_ARRAY = Some js_typed_array_mark"
| "class_gc_mark h JS_CLASS_BIG_INT64_ARRAY = Some js_typed_array_mark"
| "class_gc_mark h JS_CLASS_BIG_UINT64_ARRAY = Some js_typed_array_mark"
| "class_gc_mark h JS_CLASS_FLOAT32_ARRAY = Some js_typed_array_mark"
| "class_gc_mark h JS_CLASS_FLOAT64_ARRAY = Some js_typed_array_mark"
| "class_gc_mark h JS_CLASS_DATAVIEW = Some js_typed_array_mark"
| "class_gc_mark h JS_CLASS_BIG_INT = Some js_object_data_mark"
| "class_gc_mark h JS_CLASS_BIG_FLOAT = Some js_object_data_mark"
| "class_gc_mark h JS_CLASS_BIG_DECIMAL = Some js_object_data_mark"
| "class_gc_mark h JS_CLASS_OPERATOR_SET = Some js_operator_set_mark"
| "class_gc_mark h JS_CLASS_MAP = Some js_map_mark"
| "class_gc_mark h JS_CLASS_SET = Some js_map_mark"
| "class_gc_mark h JS_CLASS_WEAKMAP = Some js_map_mark"
| "class_gc_mark h JS_CLASS_WEAKSET = Some js_map_mark"
| "class_gc_mark h JS_CLASS_MAP_ITERATOR = Some js_map_iterator_mark"
| "class_gc_mark h JS_CLASS_SET_ITERATOR = Some js_map_iterator_mark"
| "class_gc_mark h JS_CLASS_ARRAY_ITERATOR = Some js_array_iterator_mark"
| "class_gc_mark h JS_CLASS_STRING_ITERATOR = Some js_array_iterator_mark"
| "class_gc_mark h JS_CLASS_REGEXP_STRING_ITERATOR = Some js_regexp_string_iterator_mark"
| "class_gc_mark h JS_CLASS_GENERATOR = Some js_generator_mark"
| "class_gc_mark h JS_CLASS_PROXY = Some js_proxy_mark"
| "class_gc_mark h JS_CLASS_PROMISE = Some js_promise_mark"
| "class_gc_mark h JS_CLASS_PROMISE_RESOLVE_FUNCTION = Some js_promise_resolve_function_mark"
| "class_gc_mark h JS_CLASS_PROMISE_REJECT_FUNCTION = Some js_promise_resolve_function_mark"
| "class_gc_mark h JS_CLASS_ASYNC_FUNCTION = Some (js_bytecode_function_mark h)"
| "class_gc_mark h JS_CLASS_ASYNC_FUNCTION_RESOLVE = Some js_async_function_resolve_mark"
| "class_gc_mark h JS_CLASS_ASYNC_FUNCTION_REJECT = Some js_async_function_resolve_mark"
| "class_gc_mark h JS_CLASS_ASYNC_FROM_SYNC_ITERATOR = Some js_async_from_sync_iterator_mark"
| "class_gc_mark h JS_CLASS_ASYNC_GENERATOR_FUNCTION = Some (js_bytecode_function_mark h)"
| "class_gc_mark h JS_CLASS_ASYNC_GENERATOR = Some js_async_generator_mark"
| "class_gc_mark h _ = None"

section \<open>The children of an object\<close>

definition js_autoinit_mark :: "gc \<Rightarrow> gc list" where
  "js_autoinit_mark rlm = [rlm]"

definition mark_property :: "js_property \<Rightarrow> gc list" where
  "mark_property pr = (case pr of
     PROP_NORMAL v \<Rightarrow> JS_MarkValue v
   | PROP_GETSET getter setter \<Rightarrow> mark_opt getter @ mark_opt setter
   | PROP_VARREF r \<Rightarrow> [r]
   | PROP_AUTOINIT rlm \<Rightarrow> js_autoinit_mark rlm
   | PROP_DELETED \<Rightarrow> [])"

definition js_mark_module_def :: "module_def \<Rightarrow> gc list" where
  "js_mark_module_def m =
    concat (map (\<lambda>e. case e of Export_local r \<Rightarrow> mark_opt r | Export_indirect \<Rightarrow> []) (m_exports m))
    @ JS_MarkValue (m_module_ns m) @ JS_MarkValue (m_func_obj m) @ JS_MarkValue (m_eval_exception m)
    @ JS_MarkValue (m_meta_obj m) @ JS_MarkValue (m_promise m) @ mark_pair (m_resolving_funcs m)"

definition JS_MarkContext :: "js_context \<Rightarrow> gc list" where
  "JS_MarkContext c =
    concat (map js_mark_module_def (c_modules c))
    @ JS_MarkValue (c_global_obj c) @ JS_MarkValue (c_global_var_obj c)
    @ JS_MarkValue (c_throw_type_error c) @ JS_MarkValue (c_eval_obj c)
    @ JS_MarkValue (c_array_proto_values c)
    @ mark_values (c_native_error_proto c) @ mark_values (c_class_proto c)
    @ JS_MarkValue (c_iterator_proto c) @ JS_MarkValue (c_async_iterator_proto c)
    @ JS_MarkValue (c_promise_ctor c) @ JS_MarkValue (c_array_ctor c) @ JS_MarkValue (c_regexp_ctor c)
    @ JS_MarkValue (c_function_ctor c) @ JS_MarkValue (c_function_proto c)
    @ mark_opt (c_array_shape c)"

definition mark_async_state :: "async_state \<Rightarrow> gc list" where
  "mark_async_state s =
    (if \<not> a_is_completed s
     then JS_MarkValue (a_cur_func s) @ JS_MarkValue (a_this_val s)
       @ (case a_stack s of None \<Rightarrow> [] | Some vs \<Rightarrow> mark_values vs)
     else [])
    @ mark_pair (a_resolving_funcs s)"

definition mark_children :: "gc_heap \<Rightarrow> gc \<Rightarrow> gc list" where
  "mark_children h gp = (case h gp of
     GC_JS_OBJECT shape props class_id u \<Rightarrow>
       shape # concat (map mark_property props) @
       (if class_id \<noteq> JS_CLASS_OBJECT
        then (case class_gc_mark h class_id of None \<Rightarrow> [] | Some f \<Rightarrow> f u) else [])
   | GC_FUNCTION_BYTECODE cp rl n \<Rightarrow> mark_values cp @ mark_opt rl
   | GC_VAR_REF is_detached v async_func \<Rightarrow> if is_detached then JS_MarkValue v else mark_opt async_func
   | GC_ASYNC_FUNCTION s \<Rightarrow> mark_async_state s
   | GC_SHAPE proto \<Rightarrow> mark_opt proto
   | GC_JS_CONTEXT ctx \<Rightarrow> JS_MarkContext ctx)"

end
