(* ===== verification/CycleGC.thy ===== *)
theory CycleGC
  imports GcMark "HOL-Library.Multiset"
begin

text \<open>
  The cycle collector: \<open>gc_decref\<close> takes the references between GC objects off the reference counts,
  \<open>gc_scan\<close> gives them back to what is held from outside and to what that reaches; the objects left
  in \<open>tmp_obj_list\<close> are the garbage. Failing assertions are \<open>None\<close>.
\<close>

section \<open>The collector\<close>

record gc_state =
  ref_count :: "gc \<Rightarrow> int"
  mark :: "gc \<Rightarrow> nat"
  gc_obj_list :: "gc list"
  tmp_obj_list :: "gc list"

text \<open>The link of an object is in one of the lists; \<open>list_del\<close> takes it out of that one.\<close>

definition unlink :: "gc_state \<Rightarrow> gc \<Rightarrow> gc_state" where
  "unlink s p = s\<lparr>gc_obj_list := remove1 p (gc_obj_list s), tmp_obj_list := remove1 p (tmp_obj_list s)\<rparr>"

definition move_to_tmp :: "gc_state \<Rightarrow> gc \<Rightarrow> gc_state" where
  "move_to_tmp s p = (let s1 = unlink s p in s1\<lparr>tmp_obj_list := tmp_obj_list s1 @ [p]\<rparr>)"

definition add_gc_object :: "gc_state \<Rightarrow> gc \<Rightarrow> gc_state" where
  "add_gc_object s p = s\<lparr>mark := (mark s)(p := 0), gc_obj_list := gc_obj_list s @ [p]\<rparr>"

definition remove_gc_object :: "gc_state \<Rightarrow> gc \<Rightarrow> gc_state" where
  "remove_gc_object s p = unlink s p"

definition gc_decref_child :: "gc_state \<Rightarrow> gc \<Rightarrow> gc_state option" where
  "gc_decref_child s p =
    (if ref_count s p > 0 then
       let s1 = s\<lparr>ref_count := (ref_count s)(p := ref_count s p - 1)\<rparr> in
       Some (if ref_count s1 p = 0 \<and> mark s1 p = 1 then move_to_tmp s1 p else s1)
     else None)"

definition gc_scan_incref_child :: "gc_state \<Rightarrow> gc \<Rightarrow> gc_state option" where
  "gc_scan_incref_child s p =
    (let s1 = s\<lparr>ref_count := (ref_count s)(p := ref_count s p + 1)\<rparr> in
     Some (if ref_count s1 p = 1
           then let s2 = unlink s1 p in s2\<lparr>gc_obj_list := gc_obj_list s2 @ [p], mark := (mark s2)(p := 0)\<rparr>
           else s1))"

definition gc_scan_incref_child2 :: "gc_state \<Rightarrow> gc \<Rightarrow> gc_state option" where
  "gc_scan_incref_child2 s p = Some (s\<lparr>ref_count := (ref_count s)(p := ref_count s p + 1)\<rparr>)"

text \<open>\<open>mark_children(rt, p, f)\<close>.\<close>

fun mark_each :: "(gc_state \<Rightarrow> gc \<Rightarrow> gc_state option) \<Rightarrow> gc_state \<Rightarrow> gc list \<Rightarrow> gc_state option" where
  "mark_each f s [] = Some s"
| "mark_each f s (p # ps) = (case f s p of None \<Rightarrow> None | Some s1 \<Rightarrow> mark_each f s1 ps)"

text \<open>\<open>el->next\<close> in a list, \<open>None\<close> at its end.\<close>

definition next_el :: "gc list \<Rightarrow> gc \<Rightarrow> gc option" where
  "next_el xs p = (case dropWhile (\<lambda>x. x \<noteq> p) xs of _ # q # _ \<Rightarrow> Some q | _ \<Rightarrow> None)"

definition first_el :: "gc list \<Rightarrow> gc option" where
  "first_el xs = (case xs of [] \<Rightarrow> None | p # _ \<Rightarrow> Some p)"

text \<open>\<open>list_for_each_safe\<close>: the next element is read before the body runs.\<close>

partial_function (option) gc_decref_loop :: "gc_heap \<Rightarrow> gc option \<Rightarrow> gc_state \<Rightarrow> gc_state option" where
  "gc_decref_loop h el s = (case el of None \<Rightarrow> Some s
     | Some p \<Rightarrow>
         let el1 = next_el (gc_obj_list s) p in
         if mark s p = 0 then
           (case mark_each gc_decref_child s (mark_children h p) of None \<Rightarrow> None
            | Some s1 \<Rightarrow>
                let s2 = s1\<lparr>mark := (mark s1)(p := 1)\<rparr> in
                gc_decref_loop h el1 (if ref_count s2 p = 0 then move_to_tmp s2 p else s2))
         else None)"

definition gc_decref :: "gc_heap \<Rightarrow> gc_state \<Rightarrow> gc_state option" where
  "gc_decref h s = (let s1 = s\<lparr>tmp_obj_list := []\<rparr> in gc_decref_loop h (first_el (gc_obj_list s1)) s1)"

text \<open>\<open>list_for_each\<close>: the next element is read after the body, which may have appended to the list.\<close>

partial_function (option) gc_scan_loop :: "gc_heap \<Rightarrow> gc option \<Rightarrow> gc_state \<Rightarrow> gc_state option" where
  "gc_scan_loop h el s = (case el of None \<Rightarrow> Some s
     | Some p \<Rightarrow>
         if ref_count s p > 0 then
           (case mark_each gc_scan_incref_child (s\<lparr>mark := (mark s)(p := 0)\<rparr>) (mark_children h p) of None \<Rightarrow> None
            | Some s1 \<Rightarrow> gc_scan_loop h (next_el (gc_obj_list s1) p) s1)
         else None)"

fun gc_restore_loop :: "gc_heap \<Rightarrow> gc list \<Rightarrow> gc_state \<Rightarrow> gc_state option" where
  "gc_restore_loop h [] s = Some s"
| "gc_restore_loop h (p # ps) s =
    (case mark_each gc_scan_incref_child2 s (mark_children h p) of None \<Rightarrow> None
     | Some s1 \<Rightarrow> gc_restore_loop h ps s1)"

definition gc_scan :: "gc_heap \<Rightarrow> gc_state \<Rightarrow> gc_state option" where
  "gc_scan h s = (case gc_scan_loop h (first_el (gc_obj_list s)) s of None \<Rightarrow> None
     | Some s1 \<Rightarrow> gc_restore_loop h (tmp_obj_list s1) s1)"

text \<open>What \<open>JS_RunGC\<close> does before it frees \<open>tmp_obj_list\<close>.\<close>

definition gc_find_cycles :: "gc_heap \<Rightarrow> gc_state \<Rightarrow> gc_state option" where
  "gc_find_cycles h s = (case gc_decref h s of None \<Rightarrow> None | Some s1 \<Rightarrow> gc_scan h s1)"

section \<open>What a heap of live objects looks like\<close>

text \<open>The references that the objects of \<open>ps\<close> hold to \<open>p\<close>.\<close>

definition refs_from :: "gc_heap \<Rightarrow> gc list \<Rightarrow> gc \<Rightarrow> int" where
  "refs_from h ps p = (\<Sum>q\<leftarrow>ps. int (count_list (mark_children h q) p))"

text \<open>
  Between collections every GC object is linked once, unmarked, its references lead to GC objects,
  and its count includes every reference to it from a GC object.
\<close>

definition gc_ok :: "gc_heap \<Rightarrow> gc_state \<Rightarrow> bool" where
  "gc_ok h s \<longleftrightarrow> distinct (gc_obj_list s) \<and>
    (\<forall>p \<in> set (gc_obj_list s). mark s p = 0 \<and> set (mark_children h p) \<subseteq> set (gc_obj_list s)
       \<and> refs_from h (gc_obj_list s) p \<le> ref_count s p)"

text \<open>The objects that something outside of the GC objects holds, and what they reach.\<close>

definition held :: "gc_heap \<Rightarrow> gc_state \<Rightarrow> gc \<Rightarrow> bool" where
  "held h s p \<longleftrightarrow> p \<in> set (gc_obj_list s) \<and> refs_from h (gc_obj_list s) p < ref_count s p"

inductive gc_live :: "gc_heap \<Rightarrow> gc_state \<Rightarrow> gc \<Rightarrow> bool" for h s where
  root: "held h s p \<Longrightarrow> gc_live h s p"
| child: "gc_live h s q \<Longrightarrow> p \<in> set (mark_children h q) \<Longrightarrow> gc_live h s p"

section \<open>Lists and counts\<close>

lemma refs_from_Nil [simp]: "refs_from h [] p = 0"
  by (simp add: refs_from_def)

lemma refs_from_append [simp]: "refs_from h (xs @ ys) p = refs_from h xs p + refs_from h ys p"
  by (simp add: refs_from_def)

lemma refs_from_Cons [simp]: "refs_from h (q # xs) p = int (count_list (mark_children h q) p) + refs_from h xs p"
  by (simp add: refs_from_def)

lemma refs_from_nonneg [simp]: "0 \<le> refs_from h xs p"
  by (induction xs) simp_all

lemma refs_from_mset: "mset xs = mset ys \<Longrightarrow> refs_from h xs p = refs_from h ys p"
  unfolding refs_from_def by (metis mset_map sum_mset_sum_list)

lemma refs_from_pos: "q \<in> set xs \<Longrightarrow> p \<in> set (mark_children h q) \<Longrightarrow> 0 < refs_from h xs p"
proof (induction xs)
  case (Cons a xs)
  have "count_list (mark_children h q) p \<noteq> 0" using Cons(3) by (simp add: count_list_0_iff)
  then have "0 < int (count_list (mark_children h q) p)" by linarith
  then show ?case using Cons refs_from_nonneg [of h xs p] by (cases "q = a") (auto simp: add_nonneg_pos add_pos_nonneg)
qed simp

lemma remove1_filter: "distinct xs \<Longrightarrow> remove1 p (filter P xs) = filter (\<lambda>x. P x \<and> x \<noteq> p) xs"
  by (auto simp: distinct_remove1_removeAll removeAll_filter_not_eq intro!: filter_cong)

lemma next_el_append: "p \<notin> set xs \<Longrightarrow> next_el (xs @ p # ys) p = first_el ys"
  by (induction xs) (auto simp: next_el_def first_el_def split: list.split)

section \<open>Taking the references off\<close>

text \<open>
  After the objects of \<open>V\<close> have been visited and \<open>D\<close> references been taken off the initial counts:
  the visited objects whose count is 0 have moved.
\<close>

definition dec_inv :: "gc list \<Rightarrow> (gc \<Rightarrow> int) \<Rightarrow> gc set \<Rightarrow> (gc \<Rightarrow> int) \<Rightarrow> gc_state \<Rightarrow> bool" where
  "dec_inv L rc0 V D s \<longleftrightarrow> ref_count s = (\<lambda>p. rc0 p - D p)
    \<and> (\<forall>p \<in> set L. mark s p = (if p \<in> V then 1 else 0))
    \<and> gc_obj_list s = filter (\<lambda>p. \<not> (p \<in> V \<and> rc0 p = D p)) L
    \<and> set (tmp_obj_list s) = {p \<in> V. rc0 p = D p} \<and> distinct (tmp_obj_list s) \<and> V \<subseteq> set L"

lemma dec_child:
  assumes i: "dec_inv L rc0 V D s" and L: "distinct L" "p \<in> set L" "D p < rc0 p"
  shows "\<exists>s1. gc_decref_child s p = Some s1 \<and> dec_inv L rc0 V (D(p := D p + 1)) s1"
proof -
  let ?D = "D(p := D p + 1)"
  have pos: "ref_count s p > 0" using i L(3) by (simp add: dec_inv_def)
  have tmp: "p \<notin> set (tmp_obj_list s)" using i L(3) by (simp add: dec_inv_def)
  have rc: "(ref_count s)(p := ref_count s p - 1) = (\<lambda>q. rc0 q - ?D q)" using i by (auto simp: dec_inv_def)
  show ?thesis
  proof (cases "p \<in> V \<and> rc0 p = D p + 1")
    case True
    let ?s = "move_to_tmp (s\<lparr>ref_count := \<lambda>q. rc0 q - ?D q\<rparr>) p"
    have "gc_decref_child s p = Some ?s" using pos i L(2) True rc by (simp add: gc_decref_child_def dec_inv_def)
    moreover have "gc_obj_list ?s = filter (\<lambda>q. \<not> (q \<in> V \<and> rc0 q = ?D q)) L"
      using i L(1) True by (auto simp: move_to_tmp_def unlink_def dec_inv_def remove1_filter intro!: filter_cong)
    moreover have "tmp_obj_list ?s = tmp_obj_list s @ [p]" using tmp by (simp add: move_to_tmp_def unlink_def remove1_idem)
    moreover have "set (tmp_obj_list s @ [p]) = {q \<in> V. rc0 q = ?D q}" using i True by (auto simp: dec_inv_def)
    ultimately show ?thesis using i tmp by (auto simp: dec_inv_def move_to_tmp_def unlink_def Let_def)
  next
    case False
    let ?s = "s\<lparr>ref_count := \<lambda>q. rc0 q - ?D q\<rparr>"
    have "gc_decref_child s p = Some ?s" using pos i L(2) False rc by (auto simp: gc_decref_child_def dec_inv_def)
    moreover have "filter (\<lambda>q. \<not> (q \<in> V \<and> rc0 q = D q)) L = filter (\<lambda>q. \<not> (q \<in> V \<and> rc0 q = ?D q)) L"
      using False L(3) by (intro filter_cong) auto
    moreover have "{q \<in> V. rc0 q = D q} = {q \<in> V. rc0 q = ?D q}" using False L(3) by auto
    ultimately show ?thesis using i by (simp add: dec_inv_def)
  qed
qed

lemma dec_children:
  "dec_inv L rc0 V D s \<Longrightarrow> distinct L \<Longrightarrow> set ps \<subseteq> set L \<Longrightarrow> \<forall>p. p \<in> set ps \<longrightarrow> D p + int (count_list ps p) \<le> rc0 p \<Longrightarrow>
    \<exists>s1. mark_each gc_decref_child s ps = Some s1 \<and> dec_inv L rc0 V (\<lambda>p. D p + int (count_list ps p)) s1"
proof (induction ps arbitrary: D s)
  case Nil
  then show ?case by simp
next
  case (Cons q ps)
  let ?D = "D(q := D q + 1)"
  have "D q < rc0 q" using spec [OF Cons(5), of q] by simp
  then obtain s1 where s1: "gc_decref_child s q = Some s1" "dec_inv L rc0 V ?D s1"
    using dec_child [OF Cons(2,3), of q] Cons(4) by auto
  have "\<forall>p. p \<in> set ps \<longrightarrow> ?D p + int (count_list ps p) \<le> rc0 p" using Cons(5) by (auto split: if_splits)
  from Cons(1) [OF s1(2) Cons(3) _ this] Cons(4) obtain s2 where
    s2: "mark_each gc_decref_child s1 ps = Some s2" "dec_inv L rc0 V (\<lambda>p. ?D p + int (count_list ps p)) s2" by auto
  have "(\<lambda>p. ?D p + int (count_list ps p)) = (\<lambda>p. D p + int (count_list (q # ps) p))" by auto
  then show ?case using s1(1) s2 by simp
qed

lemma dec_visit:
  assumes i: "dec_inv L rc0 V D s" and L: "distinct L" "p \<in> set L" "p \<notin> V"
  shows "dec_inv L rc0 (insert p V) D
    (let s2 = s\<lparr>mark := (mark s)(p := 1)\<rparr> in if ref_count s2 p = 0 then move_to_tmp s2 p else s2)"
proof (cases "rc0 p = D p")
  case True
  have "remove1 p (gc_obj_list s) = filter (\<lambda>q. \<not> (q \<in> insert p V \<and> rc0 q = D q)) L"
    using i L True by (auto simp: dec_inv_def remove1_filter intro!: filter_cong)
  moreover have "p \<notin> set (tmp_obj_list s)" using i L(3) by (simp add: dec_inv_def)
  ultimately show ?thesis using i L True by (auto simp: dec_inv_def move_to_tmp_def unlink_def Let_def remove1_idem)
next
  case False
  have "filter (\<lambda>q. \<not> (q \<in> V \<and> rc0 q = D q)) L = filter (\<lambda>q. \<not> (q \<in> insert p V \<and> rc0 q = D q)) L"
    using False by (intro filter_cong) auto
  moreover have "{q \<in> V. rc0 q = D q} = {q \<in> insert p V. rc0 q = D q}" using False by auto
  ultimately show ?thesis using i L False by (simp add: dec_inv_def Let_def)
qed

lemma decref_loop:
  assumes L: "distinct L" "\<forall>p \<in> set L. set (mark_children h p) \<subseteq> set L \<and> refs_from h L p \<le> rc0 p"
  shows "L = ws @ rest \<Longrightarrow> dec_inv L rc0 (set ws) (refs_from h ws) s \<Longrightarrow>
    \<exists>s'. gc_decref_loop h (first_el rest) s = Some s' \<and> dec_inv L rc0 (set L) (refs_from h L) s'"
proof (induction rest arbitrary: ws s)
  case Nil
  then show ?case by (subst gc_decref_loop.simps) (simp add: first_el_def)
next
  case (Cons p rest)
  have p: "p \<in> set L" "p \<notin> set ws" using Cons(2) L(1) by auto
  let ?ps = "mark_children h p"
  have "refs_from h ws x + int (count_list ?ps x) \<le> rc0 x" if "x \<in> set ?ps" for x
  proof -
    have "x \<in> set L" using that L(2) p(1) by blast
    then have "refs_from h L x \<le> rc0 x" using L(2) by blast
    then show ?thesis using refs_from_nonneg [of h rest x] unfolding Cons(2) refs_from_append refs_from_Cons by linarith
  qed
  then obtain s1 where s1: "mark_each gc_decref_child s ?ps = Some s1"
    "dec_inv L rc0 (set ws) (\<lambda>x. refs_from h ws x + int (count_list ?ps x)) s1"
    using dec_children [OF Cons(3) L(1), of ?ps] L(2) p(1) by blast
  define s2 where "s2 = (let s2 = s1\<lparr>mark := (mark s1)(p := 1)\<rparr> in if ref_count s2 p = 0 then move_to_tmp s2 p else s2)"
  have "dec_inv L rc0 (insert p (set ws)) (\<lambda>x. refs_from h ws x + int (count_list ?ps x)) s2"
    unfolding s2_def by (rule dec_visit [OF s1(2) L(1) p])
  moreover have "(\<lambda>x. refs_from h ws x + int (count_list ?ps x)) = refs_from h (ws @ [p])" by (simp add: fun_eq_iff)
  ultimately have "dec_inv L rc0 (set (ws @ [p])) (refs_from h (ws @ [p])) s2" by (simp only: set_append set_simps Un_insert_right Un_empty_right)
  moreover have "L = (ws @ [p]) @ rest" using Cons(2) by (simp only: append_assoc append_Cons append_Nil)
  ultimately have "\<exists>s'. gc_decref_loop h (first_el rest) s2 = Some s' \<and> dec_inv L rc0 (set L) (refs_from h L) s'"
    using Cons(1) [of "ws @ [p]" s2] by (simp only: simp_thms)
  then obtain s' where s': "gc_decref_loop h (first_el rest) s2 = Some s'" "dec_inv L rc0 (set L) (refs_from h L) s'" by blast
  have "gc_obj_list s = filter (\<lambda>x. \<not> (x \<in> set ws \<and> rc0 x = refs_from h ws x)) ws @ p # rest"
  proof -
    have "filter (\<lambda>x. \<not> (x \<in> set ws \<and> rc0 x = refs_from h ws x)) (p # rest) = p # rest"
      using L(1) Cons(2) by (intro filter_True) auto
    then show ?thesis using Cons(3) by (simp add: dec_inv_def Cons(2) [symmetric]) (simp add: Cons(2))
  qed
  then have n: "next_el (gc_obj_list s) p = first_el rest" using p(2) by (simp add: next_el_append)
  have m: "mark s p = 0" using Cons(3) p by (simp add: dec_inv_def)
  have "gc_decref_loop h (first_el (p # rest)) s = gc_decref_loop h (first_el rest) s2"
    by (subst gc_decref_loop.simps) (simp add: first_el_def n m s1(1) s2_def Let_def)
  then show ?case using s' by simp
qed

section \<open>Giving them back\<close>

text \<open>
  \<open>e\<close> counts the references from outside, \<open>D\<close> those given back so far: what has a count is in
  \<open>gc_obj_list\<close> and live, the rest is in \<open>tmp_obj_list\<close>; \<open>W\<close> are the objects whose mark is reset.
\<close>

definition scan_inv :: "gc list \<Rightarrow> (gc \<Rightarrow> int) \<Rightarrow> (gc \<Rightarrow> bool) \<Rightarrow> gc set \<Rightarrow> (gc \<Rightarrow> int) \<Rightarrow> gc_state \<Rightarrow> bool" where
  "scan_inv L e alive W D s \<longleftrightarrow> ref_count s = (\<lambda>p. e p + D p)
    \<and> distinct (gc_obj_list s) \<and> set (gc_obj_list s) = {p \<in> set L. 0 < e p + D p}
    \<and> distinct (tmp_obj_list s) \<and> set (tmp_obj_list s) = {p \<in> set L. e p + D p = 0}
    \<and> (\<forall>p \<in> set (gc_obj_list s). alive p \<and> (p \<in> W \<or> e p \<le> 0 \<longrightarrow> mark s p = 0))"

lemma scan_child:
  assumes i: "scan_inv L e alive W D s" and p: "p \<in> set L" "alive p" "0 \<le> e p" "0 \<le> D p"
  shows "\<exists>s1 zs. gc_scan_incref_child s p = Some s1 \<and> scan_inv L e alive W (D(p := D p + 1)) s1
    \<and> gc_obj_list s1 = gc_obj_list s @ zs"
proof (cases "e p + D p = 0")
  case True
  let ?s = "s\<lparr>ref_count := (ref_count s)(p := ref_count s p + 1), tmp_obj_list := remove1 p (tmp_obj_list s),
    gc_obj_list := gc_obj_list s @ [p], mark := (mark s)(p := 0)\<rparr>"
  have n: "p \<notin> set (gc_obj_list s)" using i True by (simp add: scan_inv_def)
  have "gc_scan_incref_child s p = Some ?s"
    using i True n by (simp add: gc_scan_incref_child_def scan_inv_def unlink_def Let_def remove1_idem)
  moreover have "scan_inv L e alive W (D(p := D p + 1)) ?s"
    unfolding scan_inv_def using i True p n by (simp add: scan_inv_def fun_eq_iff) auto
  ultimately show ?thesis by auto
next
  case False
  let ?s = "s\<lparr>ref_count := (ref_count s)(p := ref_count s p + 1)\<rparr>"
  have "gc_scan_incref_child s p = Some ?s" using i False by (simp add: gc_scan_incref_child_def scan_inv_def)
  moreover have "scan_inv L e alive W (D(p := D p + 1)) ?s"
    unfolding scan_inv_def using i False p by (simp add: scan_inv_def fun_eq_iff) auto
  ultimately show ?thesis by auto
qed

lemma scan_children:
  "scan_inv L e alive W D s \<Longrightarrow> set ps \<subseteq> set L \<Longrightarrow> \<forall>p \<in> set ps. alive p \<Longrightarrow> \<forall>p \<in> set L. 0 \<le> e p \<and> 0 \<le> D p \<Longrightarrow>
    \<exists>s1 zs. mark_each gc_scan_incref_child s ps = Some s1 \<and> scan_inv L e alive W (\<lambda>p. D p + int (count_list ps p)) s1
      \<and> gc_obj_list s1 = gc_obj_list s @ zs"
proof (induction ps arbitrary: D s)
  case Nil
  then show ?case by simp
next
  case (Cons q ps)
  let ?D = "D(q := D q + 1)"
  have q: "q \<in> set L" "alive q" "0 \<le> e q" "0 \<le> D q" using Cons(3,4,5) by auto
  from scan_child [OF Cons(2) q] obtain s1 zs where s1: "gc_scan_incref_child s q = Some s1"
    "scan_inv L e alive W ?D s1" "gc_obj_list s1 = gc_obj_list s @ zs" by blast
  have "\<forall>p \<in> set L. 0 \<le> e p \<and> 0 \<le> ?D p" using Cons(5) by (simp add: add_nonneg_nonneg)
  from Cons(1) [OF s1(2) _ _ this] Cons(3,4) obtain s2 zs' where
    s2: "mark_each gc_scan_incref_child s1 ps = Some s2" "scan_inv L e alive W (\<lambda>p. ?D p + int (count_list ps p)) s2"
    "gc_obj_list s2 = gc_obj_list s1 @ zs'" by auto
  have "(\<lambda>p. ?D p + int (count_list ps p)) = (\<lambda>p. D p + int (count_list (q # ps) p))" by auto
  then show ?case using s1 s2 by simp
qed

lemma scan_visit:
  "scan_inv L e alive W D s \<Longrightarrow> scan_inv L e alive (insert p W) D (s\<lparr>mark := (mark s)(p := 0)\<rparr>)"
  by (auto simp: scan_inv_def)

lemma scan_length:
  assumes "scan_inv L e alive W D s"
  shows "length (gc_obj_list s) \<le> length L"
proof -
  have "distinct (gc_obj_list s)" "set (gc_obj_list s) \<subseteq> set L" using assms by (auto simp: scan_inv_def)
  then have "length (gc_obj_list s) \<le> card (set L)" using card_mono [of "set L" "set (gc_obj_list s)"] by (simp add: distinct_card)
  then show ?thesis using card_length [of L] by simp
qed

lemma scan_loop:
  assumes L: "\<forall>p \<in> set L. set (mark_children h p) \<subseteq> set L \<and> 0 \<le> e p"
    and alive: "\<And>p q. alive q \<Longrightarrow> p \<in> set (mark_children h q) \<Longrightarrow> alive p"
  shows "gc_obj_list s = ws @ rest \<Longrightarrow> scan_inv L e alive (set ws) (refs_from h ws) s \<Longrightarrow>
    \<exists>s'. gc_scan_loop h (first_el rest) s = Some s'
      \<and> scan_inv L e alive (set (gc_obj_list s')) (refs_from h (gc_obj_list s')) s'"
proof (induction "length L - length ws" arbitrary: ws rest s)
  case 0
  then have "rest = []" using scan_length [OF 0(3)] by (cases rest) auto
  then show ?case using 0 by (subst gc_scan_loop.simps) (simp add: first_el_def)
next
  case (Suc n)
  show ?case
  proof (cases rest)
    case Nil
    then show ?thesis using Suc by (subst gc_scan_loop.simps) (simp add: first_el_def)
  next
    case (Cons p rest')
    let ?ps = "mark_children h p" and ?s = "s\<lparr>mark := (mark s)(p := 0)\<rparr>"
    have p: "p \<in> set L" "alive p" "0 < ref_count s p" "p \<notin> set ws"
      using Suc(3,4) Cons by (auto simp: scan_inv_def)
    have i: "scan_inv L e alive (insert p (set ws)) (refs_from h ws) ?s" by (rule scan_visit [OF Suc(4)])
    have "\<forall>x \<in> set ?ps. alive x" using alive [OF p(2)] by blast
    with scan_children [OF i, of ?ps] L p(1) obtain s1 zs where
      s1: "mark_each gc_scan_incref_child ?s ?ps = Some s1"
        "scan_inv L e alive (insert p (set ws)) (\<lambda>x. refs_from h ws x + int (count_list ?ps x)) s1"
        "gc_obj_list s1 = gc_obj_list ?s @ zs" by auto
    have "(\<lambda>x. refs_from h ws x + int (count_list ?ps x)) = refs_from h (ws @ [p])" by (simp add: fun_eq_iff)
    then have i1: "scan_inv L e alive (set (ws @ [p])) (refs_from h (ws @ [p])) s1" using s1(2) by simp
    have g: "gc_obj_list s1 = ws @ p # rest' @ zs" using s1(3) Suc(3) Cons by simp
    have "n = length L - length (ws @ [p])" using Suc(2) by simp
    from Suc(1) [OF this _ i1, of "rest' @ zs"] g obtain s' where s': "gc_scan_loop h (first_el (rest' @ zs)) s1 = Some s'"
      "scan_inv L e alive (set (gc_obj_list s')) (refs_from h (gc_obj_list s')) s'" by auto
    have f: "first_el (p # rest') = Some p" by (simp add: first_el_def)
    have "gc_scan_loop h (first_el rest) s = gc_scan_loop h (first_el (rest' @ zs)) s1"
      by (subst gc_scan_loop.simps) (simp add: Cons f p(3) s1(1) g next_el_append [OF p(4)])
    then show ?thesis using s' by simp
  qed
qed

lemma restore_children:
  "mark_each gc_scan_incref_child2 s ps = Some (s\<lparr>ref_count := \<lambda>p. ref_count s p + int (count_list ps p)\<rparr>)"
proof (induction ps arbitrary: s)
  case (Cons q ps)
  let ?s = "s\<lparr>ref_count := (ref_count s)(q := ref_count s q + 1)\<rparr>"
  have "gc_scan_incref_child2 s q = Some ?s" by (simp add: gc_scan_incref_child2_def)
  then have "mark_each gc_scan_incref_child2 s (q # ps) = mark_each gc_scan_incref_child2 ?s ps" by simp
  also have "\<dots> = Some (?s\<lparr>ref_count := \<lambda>p. ref_count ?s p + int (count_list ps p)\<rparr>)" by (rule Cons)
  also have "(\<lambda>p. ref_count ?s p + int (count_list ps p)) = (\<lambda>p. ref_count s p + int (count_list (q # ps) p))" by auto
  finally show ?case by simp
qed simp

lemma restore_loop:
  "gc_restore_loop h ps s = Some (s\<lparr>ref_count := \<lambda>p. ref_count s p + refs_from h ps p\<rparr>)"
proof (induction ps arbitrary: s)
  case (Cons q ps)
  show ?case by (simp add: restore_children Cons add.assoc)
qed simp

section \<open>The garbage\<close>

lemma held_live_in: "gc_ok h s \<Longrightarrow> gc_live h s p \<Longrightarrow> p \<in> set (gc_obj_list s)"
  by (rotate_tac 1, induction rule: gc_live.induct) (auto simp: held_def gc_ok_def)

lemma decref_result:
  assumes "gc_ok h s"
  shows "\<exists>s1. gc_decref h s = Some s1 \<and> dec_inv (gc_obj_list s) (ref_count s) (set (gc_obj_list s)) (refs_from h (gc_obj_list s)) s1"
proof -
  let ?L = "gc_obj_list s" and ?s = "s\<lparr>tmp_obj_list := []\<rparr>"
  have "dec_inv ?L (ref_count s) (set []) (refs_from h []) ?s" using assms by (simp add: dec_inv_def gc_ok_def)
  from decref_loop [OF _ _ _ this, of ?L] assms show ?thesis by (simp add: gc_decref_def gc_ok_def)
qed

lemma scan_start:
  assumes ok: "gc_ok h s" and d: "dec_inv (gc_obj_list s) (ref_count s) (set (gc_obj_list s)) (refs_from h (gc_obj_list s)) s1"
  defines "e \<equiv> \<lambda>p. ref_count s p - refs_from h (gc_obj_list s) p"
  shows "scan_inv (gc_obj_list s) e (gc_live h s) {} (refs_from h []) s1"
proof -
  have nonneg: "0 \<le> e p" if "p \<in> set (gc_obj_list s)" for p using ok that by (auto simp: gc_ok_def e_def)
  have "set (gc_obj_list s1) = {p \<in> set (gc_obj_list s). 0 < e p}"
    using d nonneg by (auto simp: dec_inv_def e_def order.order_iff_strict)
  moreover have "\<forall>p \<in> set (gc_obj_list s). 0 < e p \<longrightarrow> gc_live h s p"
    by (auto intro: gc_live.root simp: held_def e_def)
  ultimately show ?thesis using d ok by (auto simp: scan_inv_def dec_inv_def gc_ok_def e_def)
qed

lemma cycles_found:
  assumes ok: "gc_ok h s"
  shows "\<exists>s'. gc_find_cycles h s = Some s' \<and> ref_count s' = ref_count s
    \<and> distinct (gc_obj_list s' @ tmp_obj_list s') \<and> set (gc_obj_list s') = {p. gc_live h s p}
    \<and> set (tmp_obj_list s') = set (gc_obj_list s) - {p. gc_live h s p} \<and> (\<forall>p \<in> set (gc_obj_list s'). mark s' p = 0)"
proof -
  let ?L = "gc_obj_list s"
  define e where "e = (\<lambda>p. ref_count s p - refs_from h ?L p)"
  obtain s1 where s1: "gc_decref h s = Some s1" "dec_inv ?L (ref_count s) (set ?L) (refs_from h ?L) s1"
    using decref_result [OF ok] by blast
  have i: "scan_inv ?L e (gc_live h s) (set []) (refs_from h []) s1" using scan_start [OF ok s1(2)] by (simp add: e_def)
  have L: "\<forall>p \<in> set ?L. set (mark_children h p) \<subseteq> set ?L \<and> 0 \<le> e p" using ok by (auto simp: gc_ok_def e_def)
  have g: "gc_obj_list s1 = [] @ gc_obj_list s1" by simp
  obtain s2 where s2: "gc_scan_loop h (first_el (gc_obj_list s1)) s1 = Some s2"
    "scan_inv ?L e (gc_live h s) (set (gc_obj_list s2)) (refs_from h (gc_obj_list s2)) s2"
    using scan_loop [OF L _ g i] gc_live.child by blast
  let ?G = "gc_obj_list s2" and ?T = "tmp_obj_list s2"
  let ?s = "s2\<lparr>ref_count := \<lambda>p. ref_count s2 p + refs_from h ?T p\<rparr>"
  have G: "set ?G = {p \<in> set ?L. 0 < e p + refs_from h ?G p}" "set ?T = {p \<in> set ?L. e p + refs_from h ?G p = 0}"
    "distinct ?G" "distinct ?T" "\<forall>p \<in> set ?G. gc_live h s p \<and> mark s2 p = 0"
    using s2(2) by (simp_all add: scan_inv_def)
  have nn: "0 \<le> e p + refs_from h ?G p" if "p \<in> set ?L" for p using L that by (simp add: add_nonneg_nonneg)
  have D: "set ?G \<inter> set ?T = {}" "set ?G \<union> set ?T = set ?L"
    using G(1,2) nn by force+
  have inG: "p \<in> set ?G" if "p \<in> set ?L" "0 < e p + refs_from h ?G p" for p using that by (subst G(1)) simp
  have inL: "p \<in> set ?L" if "p \<in> set ?G" for p using that by (subst (asm) G(1)) simp
  have "p \<in> set ?G" if "gc_live h s p" for p
    using that
  proof induction
    case (root p)
    then have "p \<in> set ?L" "0 < e p" by (simp_all add: held_def e_def)
    then show ?case using refs_from_nonneg [of h ?G p] by (intro inG) linarith+
  next
    case (child q p)
    then have p: "p \<in> set ?L" using L inL by blast
    then have "0 \<le> e p" using L by blast
    then show ?case using refs_from_pos [OF child(3,2)] by (intro inG p) linarith
  qed
  then have live: "set ?G = {p. gc_live h s p}" using G(5) by blast
  have "mset (?G @ ?T) = mset ?L"
    using D G(3,4) ok by (intro set_eq_iff_mset_eq_distinct [THEN iffD1]) (auto simp: gc_ok_def)
  then have sum: "refs_from h ?G p + refs_from h ?T p = refs_from h ?L p" for p using refs_from_mset [of "?G @ ?T" ?L h p] by simp
  have "ref_count s2 = (\<lambda>p. e p + refs_from h ?G p)" using s2(2) by (simp add: scan_inv_def)
  then have "ref_count ?s p = ref_count s p" for p using sum [of p] by (simp add: e_def)
  then have "ref_count ?s = ref_count s" by (rule ext)
  moreover have "gc_find_cycles h s = Some ?s" using s1(1) s2(1) by (simp add: gc_find_cycles_def gc_scan_def restore_loop)
  moreover have "gc_obj_list ?s = ?G" "tmp_obj_list ?s = ?T" "mark ?s = mark s2" by simp_all
  moreover have "set ?T = set ?L - {p. gc_live h s p}" using D live by blast
  moreover have "distinct (?G @ ?T)" using G(3,4) D by simp
  moreover have "\<forall>p \<in> set ?G. mark s2 p = 0" using G(5) by blast
  ultimately show ?thesis using live by (intro exI [of _ ?s]) (simp only: simp_thms)
qed

section \<open>Properties\<close>

text \<open>
  C35. On every sound heap the collector returns, with no assertion failing: the objects left in
  \<open>tmp_obj_list\<close> are exactly those that nothing held from outside reaches, every reference count is
  restored, and the live objects stay linked and unmarked.
\<close>
theorem gc_finds_garbage:
  assumes "gc_ok h s"
  shows "\<exists>s'. gc_find_cycles h s = Some s' \<and> ref_count s' = ref_count s
    \<and> distinct (gc_obj_list s' @ tmp_obj_list s') \<and> set (gc_obj_list s') = {p. gc_live h s p}
    \<and> set (tmp_obj_list s') = set (gc_obj_list s) - {p. gc_live h s p} \<and> (\<forall>p \<in> set (gc_obj_list s'). mark s' p = 0)"
  using assms by (rule cycles_found)

text \<open>Two objects that refer to each other, one that is held, and the shape of all three.\<close>

definition demo_gc_heap :: gc_heap where
  "demo_gc_heap p = (if p = 4 then GC_JS_OBJECT 10 [PROP_NORMAL (JS_MKPTR JS_TAG_OBJECT 5)] JS_CLASS_OBJECT U_opaque
     else if p = 5 then GC_JS_OBJECT 10 [] JS_CLASS_ARRAY (U_array [JS_MKPTR JS_TAG_OBJECT 4])
     else if p = 6 then GC_JS_OBJECT 10 [PROP_DELETED] JS_CLASS_ERROR U_opaque
     else GC_SHAPE None)"

definition demo_gc_state :: gc_state where
  "demo_gc_state = \<lparr>ref_count = (\<lambda>p. if p = 10 then 3 else 1), mark = (\<lambda>_. 0), gc_obj_list = [4, 5, 6, 10], tmp_obj_list = []\<rparr>"

lemma uint_tag_object: "uint (- 1 :: s32) = 4294967295"
  by code_simp

lemma demo_children:
  "mark_children demo_gc_heap 4 = [10, 5]" "mark_children demo_gc_heap 5 = [10, 4]"
  "mark_children demo_gc_heap 6 = [10]" "mark_children demo_gc_heap 10 = []"
  by (simp_all add: mark_children_def demo_gc_heap_def mark_property_def JS_MarkValue_def JS_VALUE_HAS_REF_COUNT_def
      JS_MKPTR_def JS_TAG_OBJECT_def JS_TAG_FIRST_def uint_tag_object js_array_mark_def mark_values_def mark_opt_def)

lemma demo_gc_ok: "gc_ok demo_gc_heap demo_gc_state"
  by (simp add: gc_ok_def demo_gc_state_def demo_children refs_from_def)

lemma demo_live: "gc_live demo_gc_heap demo_gc_state p \<Longrightarrow> p = 6 \<or> p = 10"
  by (induction rule: gc_live.induct)
    (auto simp: held_def demo_gc_state_def demo_children refs_from_def)

theorem gc_finds_garbage_witness:
  "\<exists>s'. gc_find_cycles demo_gc_heap demo_gc_state = Some s' \<and> {4, 5} \<subseteq> set (tmp_obj_list s') \<and> 6 \<in> set (gc_obj_list s')"
proof -
  have "gc_live demo_gc_heap demo_gc_state 6"
    by (rule gc_live.root) (simp add: held_def demo_gc_state_def demo_children refs_from_def)
  moreover have "{4, 5} \<subseteq> set (gc_obj_list demo_gc_state) - {p. gc_live demo_gc_heap demo_gc_state p}"
    using demo_live [of 4] demo_live [of 5] by (auto simp: demo_gc_state_def)
  ultimately show ?thesis using gc_finds_garbage [OF demo_gc_ok] by fastforce
qed

end
