(* ===== verification/DynBuf.thy ===== *)
theory DynBuf
  imports Bridge_Prelude
begin

text \<open>
  The growable byte buffer of cutils.c. The block of memory is a list of bytes, all of
  \<open>allocated_size\<close>; the reallocation function is a parameter that may refuse; sizes are \<open>size_t\<close> and
  wrap. A copy outside of the block is \<open>None\<close>, the undefined behaviour of \<open>memcpy\<close>.
\<close>

type_synonym 'm dbuf_realloc_func = "'m \<Rightarrow> u8 list \<Rightarrow> nat \<Rightarrow> 'm \<times> u8 list option"

record 'm dynbuf =
  db_opaque :: 'm
  db_buf :: "u8 list"
  db_size :: nat
  db_allocated :: nat
  db_error :: bool

definition size_max :: nat where
  "size_max = 2 ^ 64"

definition dbuf_init2 :: "'m \<Rightarrow> 'm dynbuf" where
  "dbuf_init2 m = \<lparr>db_opaque = m, db_buf = [], db_size = 0, db_allocated = 0, db_error = False\<rparr>"

definition dbuf_realloc :: "'m dbuf_realloc_func \<Rightarrow> 'm dynbuf \<Rightarrow> nat \<Rightarrow> 'm dynbuf \<times> bool" where
  "dbuf_realloc R s new_size =
    (if new_size > db_allocated s then
       (if db_error s then (s, False)
        else let sz = (db_allocated s * 3 mod size_max) div 2; n = (if sz > new_size then sz else new_size) in
          case R (db_opaque s) (db_buf s) n of
            (m, None) \<Rightarrow> (s\<lparr>db_opaque := m, db_error := True\<rparr>, False)
          | (m, Some b) \<Rightarrow> (s\<lparr>db_opaque := m, db_buf := b, db_allocated := n\<rparr>, True))
     else (s, True))"

definition memcpy_at :: "u8 list \<Rightarrow> nat \<Rightarrow> u8 list \<Rightarrow> u8 list option" where
  "memcpy_at b off data =
    (if off + length data \<le> length b then Some (take off b @ data @ drop (off + length data) b) else None)"

definition dbuf_write :: "'m dbuf_realloc_func \<Rightarrow> 'm dynbuf \<Rightarrow> nat \<Rightarrow> u8 list \<Rightarrow> ('m dynbuf \<times> bool) option" where
  "dbuf_write R s offset data =
    (let e = (offset + length data) mod size_max in
     case dbuf_realloc R s e of (s1, False) \<Rightarrow> Some (s1, False)
     | (s1, True) \<Rightarrow>
         (case memcpy_at (db_buf s1) offset data of None \<Rightarrow> None
          | Some b \<Rightarrow> Some (s1\<lparr>db_buf := b, db_size := (if e > db_size s1 then e else db_size s1)\<rparr>, True)))"

text \<open>The step that \<open>dbuf_put\<close> and \<open>dbuf_put_self\<close> start with.\<close>

definition dbuf_room :: "'m dbuf_realloc_func \<Rightarrow> 'm dynbuf \<Rightarrow> nat \<Rightarrow> 'm dynbuf \<times> bool" where
  "dbuf_room R s len = (let n = (db_size s + len) mod size_max in
     if n > db_allocated s then dbuf_realloc R s n else (s, True))"

definition dbuf_append :: "'m dynbuf \<Rightarrow> u8 list \<Rightarrow> ('m dynbuf \<times> bool) option" where
  "dbuf_append s data = (case memcpy_at (db_buf s) (db_size s) data of None \<Rightarrow> None
     | Some b \<Rightarrow> Some (s\<lparr>db_buf := b, db_size := (db_size s + length data) mod size_max\<rparr>, True))"

definition dbuf_put :: "'m dbuf_realloc_func \<Rightarrow> 'm dynbuf \<Rightarrow> u8 list \<Rightarrow> ('m dynbuf \<times> bool) option" where
  "dbuf_put R s data = (case dbuf_room R s (length data) of (s1, False) \<Rightarrow> Some (s1, False)
     | (s1, True) \<Rightarrow> dbuf_append s1 data)"

definition dbuf_put_self :: "'m dbuf_realloc_func \<Rightarrow> 'm dynbuf \<Rightarrow> nat \<Rightarrow> nat \<Rightarrow> ('m dynbuf \<times> bool) option" where
  "dbuf_put_self R s offset len = (case dbuf_room R s len of (s1, False) \<Rightarrow> Some (s1, False)
     | (s1, True) \<Rightarrow>
         if offset + len \<le> length (db_buf s1) then dbuf_append s1 (take len (drop offset (db_buf s1))) else None)"

definition dbuf_putc :: "'m dbuf_realloc_func \<Rightarrow> 'm dynbuf \<Rightarrow> u8 \<Rightarrow> ('m dynbuf \<times> bool) option" where
  "dbuf_putc R s c = dbuf_put R s [c]"

text \<open>The argument is a C string: its characters up to the first NUL.\<close>

definition dbuf_putstr :: "'m dbuf_realloc_func \<Rightarrow> 'm dynbuf \<Rightarrow> u8 list \<Rightarrow> ('m dynbuf \<times> bool) option" where
  "dbuf_putstr R s str = dbuf_put R s (takeWhile (\<lambda>c. c \<noteq> 0) str)"

text \<open>Little-endian integers: \<open>put_u16\<close> and \<open>put_u32\<close> copy the bytes of the number.\<close>

definition dbuf_put_u16 :: "'m dbuf_realloc_func \<Rightarrow> 'm dynbuf \<Rightarrow> u16 \<Rightarrow> ('m dynbuf \<times> bool) option" where
  "dbuf_put_u16 R s v = dbuf_put R s [ucast v, ucast (drop_bit 8 v)]"

definition dbuf_put_u32 :: "'m dbuf_realloc_func \<Rightarrow> 'm dynbuf \<Rightarrow> u32 \<Rightarrow> ('m dynbuf \<times> bool) option" where
  "dbuf_put_u32 R s v = dbuf_put R s [ucast v, ucast (drop_bit 8 v), ucast (drop_bit 16 v), ucast (drop_bit 24 v)]"

definition dbuf_free :: "'m dbuf_realloc_func \<Rightarrow> 'm dynbuf \<Rightarrow> 'm dynbuf" where
  "dbuf_free R s = dbuf_init2 (if db_buf s \<noteq> [] then fst (R (db_opaque s) (db_buf s) 0) else db_opaque s)"

section \<open>What the reallocation function promises\<close>

definition realloc_refuses :: "'m dbuf_realloc_func \<Rightarrow> bool" where
  "realloc_refuses R \<longleftrightarrow> (\<exists>m b n. snd (R m b n) = None)"

text \<open>The bytes of a buffer, and what holds of it between operations.\<close>

definition db_bytes :: "'m dynbuf \<Rightarrow> u8 list" where
  "db_bytes s = take (db_size s) (db_buf s)"

definition db_ok :: "'m dynbuf \<Rightarrow> bool" where
  "db_ok s \<longleftrightarrow> length (db_buf s) = db_allocated s \<and> db_size s \<le> db_allocated s \<and> db_allocated s < size_max"

text \<open>
  A run of operations that may have appended \<open>xs\<close>: an error is sticky and only comes from a refusal;
  without one the bytes are there.
\<close>

definition db_wrote :: "'m dbuf_realloc_func \<Rightarrow> 'm dynbuf \<Rightarrow> 'm dynbuf \<Rightarrow> u8 list \<Rightarrow> bool" where
  "db_wrote R s s' xs \<longleftrightarrow> db_ok s' \<and> db_size s' \<le> db_size s + length xs
     \<and> (if db_error s' then db_error s \<or> realloc_refuses R
        else \<not> db_error s \<and> db_bytes s' = db_bytes s @ xs)"

lemma append_ok:
  assumes "db_ok s" "db_size s + length xs \<le> db_allocated s"
  shows "\<exists>s1. dbuf_append s xs = Some (s1, True) \<and> db_ok s1 \<and> db_size s1 = db_size s + length xs
    \<and> db_error s1 = db_error s \<and> db_bytes s1 = db_bytes s @ xs"
proof (cases xs)
  case Nil
  then show ?thesis using assms by (auto simp: dbuf_append_def memcpy_at_def db_ok_def db_bytes_def)
next
  case (Cons x ys)
  let ?n = "db_size s + length xs" and ?b = "take (db_size s) (db_buf s) @ xs @ drop (db_size s + length xs) (db_buf s)"
  have l: "length (db_buf s) = db_allocated s" "db_size s < db_allocated s" "?n < size_max"
    using assms Cons by (simp_all add: db_ok_def)
  have "take ?n ?b = take (db_size s) (db_buf s) @ xs" using l by simp
  then show ?thesis using assms l by (simp add: dbuf_append_def memcpy_at_def db_ok_def db_bytes_def)
qed

locale reallocator =
  fixes R :: "'m dbuf_realloc_func"
  assumes realloc_block: "R m b n = (m', Some b') \<Longrightarrow> length b' = n \<and> take (min (length b) n) b' = take (min (length b) n) b"
begin

lemma realloc_ok:
  assumes "db_ok s" "n < size_max" "dbuf_realloc R s n = (s1, ok)"
  shows "db_ok s1 \<and> db_size s1 = db_size s \<and> (if ok then n \<le> db_allocated s1 \<and> db_error s1 = db_error s \<and> db_bytes s1 = db_bytes s
    else db_error s1 \<and> (db_error s \<or> realloc_refuses R))"
proof (cases "n > db_allocated s \<and> \<not> db_error s")
  case True
  let ?sz = "(db_allocated s * 3 mod size_max) div 2"
  let ?n = "if ?sz > n then ?sz else n"
  have "?sz < size_max" by (simp add: size_max_def)
  then have nm: "?n < size_max" "db_allocated s < ?n" using True assms(2) by auto
  obtain m r where r: "R (db_opaque s) (db_buf s) ?n = (m, r)" by (cases "R (db_opaque s) (db_buf s) ?n")
  show ?thesis
  proof (cases r)
    case None
    then have "realloc_refuses R" using r unfolding realloc_refuses_def by (metis snd_conv)
    then show ?thesis using assms True r None by (auto simp: dbuf_realloc_def Let_def db_ok_def)
  next
    case (Some b)
    have b: "length b = ?n" "take (db_allocated s) b = db_buf s"
      using realloc_block [OF r [unfolded Some]] nm(2) assms(1) unfolding db_ok_def by (simp_all only: min.absorb1 less_imp_le_nat take_all order_refl)
    then have "take (db_size s) b = take (db_size s) (db_buf s)"
      using assms(1) by (metis db_ok_def min.absorb1 take_take)
    then show ?thesis using assms True r Some b nm by (auto simp: dbuf_realloc_def Let_def db_ok_def db_bytes_def)
  qed
next
  case False
  then show ?thesis using assms by (auto simp: dbuf_realloc_def split: if_splits)
qed

lemma room_ok:
  assumes "db_ok s" "db_size s + n < size_max" "dbuf_room R s n = (s1, ok)"
  shows "db_ok s1 \<and> db_size s1 = db_size s \<and> (if ok then db_size s + n \<le> db_allocated s1 \<and> db_error s1 = db_error s \<and> db_bytes s1 = db_bytes s
    else db_error s1 \<and> (db_error s \<or> realloc_refuses R))"
proof (cases "db_size s + n > db_allocated s")
  case True
  then show ?thesis using realloc_ok [OF assms(1,2), of s1 ok] assms(2,3) by (simp add: dbuf_room_def Let_def)
next
  case False
  then show ?thesis using assms by (auto simp: dbuf_room_def Let_def)
qed

text \<open>The contract of \<open>dbuf_put\<close>.\<close>

lemma put_ok:
  assumes "db_ok s" "db_size s + length xs < size_max"
  shows "\<exists>s1 ok. dbuf_put R s xs = Some (s1, ok) \<and> db_ok s1 \<and> (if ok then db_size s1 = db_size s + length xs
    \<and> db_error s1 = db_error s \<and> db_bytes s1 = db_bytes s @ xs else db_size s1 = db_size s \<and> db_error s1 \<and> (db_error s \<or> realloc_refuses R))"
proof -
  obtain s1 ok where r: "dbuf_room R s (length xs) = (s1, ok)" by (cases "dbuf_room R s (length xs)")
  note o = room_ok [OF assms r]
  show ?thesis
  proof (cases ok)
    case True
    with o append_ok [of s1 xs] show ?thesis by (auto simp: dbuf_put_def r)
  next
    case False
    with o show ?thesis by (auto simp: dbuf_put_def r)
  qed
qed

lemma put_wrote:
  assumes "db_ok s" "db_size s + length xs < size_max"
  shows "\<exists>s1 ok. dbuf_put R s xs = Some (s1, ok) \<and> db_wrote R s s1 xs"
  using put_ok [OF assms] by (fastforce simp: db_wrote_def split: if_splits)

lemma putc_wrote: "db_ok s \<Longrightarrow> db_size s + 1 < size_max \<Longrightarrow> \<exists>s1 ok. dbuf_putc R s c = Some (s1, ok) \<and> db_wrote R s s1 [c]"
  using put_wrote [of s "[c]"] by (simp add: dbuf_putc_def)

end

lemma db_wrote_refl: "db_ok s \<Longrightarrow> db_wrote R s s []"
  by (simp add: db_wrote_def)

lemma db_wrote_trans: "db_wrote R s s1 xs \<Longrightarrow> db_wrote R s1 s2 ys \<Longrightarrow> db_wrote R s s2 (xs @ ys)"
  by (auto simp: db_wrote_def split: if_splits)

lemma db_wrote_ok: "db_wrote R s s1 xs \<Longrightarrow> db_ok s1 \<and> db_size s1 \<le> db_size s + length xs"
  by (simp add: db_wrote_def)

section \<open>Properties\<close>

text \<open>
  C38. \<open>dbuf_put\<close> never writes outside of its block: on a sound buffer whose size does not wrap it
  either appends exactly the bytes, or refuses, sets the sticky error and keeps the bytes it had.
\<close>
theorem dbuf_put_in_bounds:
  assumes "reallocator R" and "db_ok s" and "db_size s + length xs < size_max"
  shows "\<exists>s1 ok. dbuf_put R s xs = Some (s1, ok) \<and> db_ok s1
    \<and> (if ok then db_bytes s1 = db_bytes s @ xs \<and> db_error s1 = db_error s else db_error s1 \<and> db_bytes s1 = db_bytes s)"
proof -
  obtain s1 ok where r: "dbuf_room R s (length xs) = (s1, ok)" by (cases "dbuf_room R s (length xs)")
  note o = reallocator.room_ok [OF assms r]
  have b: "db_bytes s1 = db_bytes s"
  proof (cases ok)
    case False
    then have "db_buf s1 = db_buf s" using r
      by (auto simp: dbuf_room_def dbuf_realloc_def Let_def split: if_splits prod.splits option.splits)
    then show ?thesis using o by (simp add: db_bytes_def)
  qed (use o in simp)
  show ?thesis
  proof (cases ok)
    case True
    with o append_ok [of s1 xs] b show ?thesis by (auto simp: dbuf_put_def r)
  next
    case False
    with o b show ?thesis by (auto simp: dbuf_put_def r)
  qed
qed

text \<open>A reallocation function that refuses every block of more than 4 bytes.\<close>

definition small_blocks :: "unit dbuf_realloc_func" where
  "small_blocks m b n = (m, if n \<le> 4 then Some (take n b @ replicate (n - length b) 0) else None)"

interpretation small: reallocator small_blocks
  by unfold_locales (auto simp: small_blocks_def min_def split: if_splits)

theorem dbuf_put_in_bounds_witness:
  "\<exists>s1 s2. dbuf_put small_blocks (dbuf_init2 ()) [1, 2, 3] = Some (s1, True)
    \<and> dbuf_put small_blocks s1 [4, 5] = Some (s2, False) \<and> db_bytes s2 = [1, 2, 3]"
proof -
  let ?s = "dbuf_init2 ()" and ?s1 = "\<lparr>db_opaque = (), db_buf = [1, 2, 3], db_size = 3, db_allocated = 3, db_error = False\<rparr>"
  have 1: "dbuf_put small_blocks ?s [1, 2, 3] = Some (?s1, True)"
    by (simp add: dbuf_put_def dbuf_room_def dbuf_realloc_def dbuf_init2_def small_blocks_def dbuf_append_def memcpy_at_def size_max_def Let_def)
  have "dbuf_room small_blocks ?s1 (length [4, 5 :: u8]) = (?s1\<lparr>db_error := True\<rparr>, False)"
    by (simp add: dbuf_room_def dbuf_realloc_def small_blocks_def size_max_def Let_def)
  then obtain s2 where s2: "dbuf_put small_blocks ?s1 [4, 5] = Some (s2, False)" unfolding dbuf_put_def by simp
  have "db_ok ?s1" "db_size ?s1 + length [4, 5 :: u8] < size_max" by (simp_all add: db_ok_def size_max_def)
  from dbuf_put_in_bounds [OF small.reallocator_axioms this] s2 have "db_bytes s2 = db_bytes ?s1" by auto
  then have "db_bytes s2 = [1, 2, 3]" by (simp add: db_bytes_def)
  then show ?thesis using 1 s2 by blast
qed

end
