(* ===== verification/LineTable.thy ===== *)
theory LineTable
  imports DynBuf
begin

text \<open>
  LEB128 numbers and the table of line numbers of a function: \<open>add_pc2line_info\<close> collects slots
  while code is generated, \<open>compute_pc2line_info\<close> encodes them, \<open>find_line_num\<close> decodes them for a
  backtrace. A C \<open>int\<close> is a 32-bit word, compared with \<open>sint\<close>.
\<close>

section \<open>LEB128\<close>

text \<open>Where the C code ignores the result of a buffer operation, so does the model.\<close>

lemma drop_bit_less: "drop_bit 7 (v :: u32) \<noteq> 0 \<Longrightarrow> unat (drop_bit 7 v) < unat v"
proof -
  assume a: "drop_bit 7 v \<noteq> 0"
  have "unat v \<noteq> 0" using a by (auto simp: unat_eq_0)
  then show ?thesis by (simp add: unat_drop_bit)
qed

function dbuf_put_leb128 :: "'m dbuf_realloc_func \<Rightarrow> 'm dynbuf \<Rightarrow> u32 \<Rightarrow> 'm dynbuf option" where
  "dbuf_put_leb128 R s v =
    (let a = v AND 0x7f; v' = drop_bit 7 v in
     if v' \<noteq> 0 then (case dbuf_putc R s (ucast (a OR 0x80)) of None \<Rightarrow> None | Some (s1, _) \<Rightarrow> dbuf_put_leb128 R s1 v')
     else map_option fst (dbuf_putc R s (ucast a)))"
  by auto
termination by (relation "measure (\<lambda>(R, s, v). unat v)") (auto simp: drop_bit_less)

declare dbuf_put_leb128.simps [simp del]

definition dbuf_put_sleb128 :: "'m dbuf_realloc_func \<Rightarrow> 'm dynbuf \<Rightarrow> s32 \<Rightarrow> 'm dynbuf option" where
  "dbuf_put_sleb128 R s v = dbuf_put_leb128 R s ((2 * v) XOR - (drop_bit 31 v))"

text \<open>\<open>None\<close> is -1; otherwise the value and the number of bytes read.\<close>

fun get_leb128_loop :: "nat \<Rightarrow> nat \<Rightarrow> u32 \<Rightarrow> u8 list \<Rightarrow> (u32 \<times> nat) option" where
  "get_leb128_loop 0 i v p = None"
| "get_leb128_loop (Suc n) i v [] = None"
| "get_leb128_loop (Suc n) i v (a # p) =
    (let v' = v OR push_bit (i * 7) (ucast a AND 0x7f) in
     if a AND 0x80 = 0 then Some (v', i + 1) else get_leb128_loop n (i + 1) v' p)"

definition get_leb128 :: "u8 list \<Rightarrow> (u32 \<times> nat) option" where
  "get_leb128 buf = get_leb128_loop 5 0 0 buf"

definition get_sleb128 :: "u8 list \<Rightarrow> (s32 \<times> nat) option" where
  "get_sleb128 buf = (case get_leb128 buf of None \<Rightarrow> None
     | Some (val, n) \<Rightarrow> Some (drop_bit 1 val XOR - (val AND 1), n))"

section \<open>The table of line numbers\<close>

definition PC2LINE_BASE :: s32 where "PC2LINE_BASE = - 1"
definition PC2LINE_RANGE :: s32 where "PC2LINE_RANGE = 5"
definition PC2LINE_OP_FIRST :: s32 where "PC2LINE_OP_FIRST = 1"
definition PC2LINE_DIFF_PC_MAX :: s32 where "PC2LINE_DIFF_PC_MAX = 50"

record line_slots =
  ls_slots :: "(u32 \<times> s32) list"
  ls_size :: nat
  ls_last_pc :: u32
  ls_last :: s32

definition add_pc2line_info :: "line_slots \<Rightarrow> u32 \<Rightarrow> s32 \<Rightarrow> line_slots" where
  "add_pc2line_info s pc line_num =
    (if length (ls_slots s) < ls_size s \<and> pc \<ge> ls_last_pc s \<and> line_num \<noteq> ls_last s
     then s\<lparr>ls_slots := ls_slots s @ [(pc, line_num)], ls_last_pc := pc, ls_last := line_num\<rparr> else s)"

text \<open>One slot of the table.\<close>

definition put_slot :: "'m dbuf_realloc_func \<Rightarrow> 'm dynbuf \<Rightarrow> s32 \<Rightarrow> s32 \<Rightarrow> 'm dynbuf option" where
  "put_slot R s diff_pc diff_line =
    (if sint diff_line \<ge> sint PC2LINE_BASE \<and> sint diff_line < sint (PC2LINE_BASE + PC2LINE_RANGE) \<and> sint diff_pc \<le> sint PC2LINE_DIFF_PC_MAX
     then map_option fst (dbuf_putc R s (ucast ((diff_line - PC2LINE_BASE) + diff_pc * PC2LINE_RANGE + PC2LINE_OP_FIRST)))
     else case dbuf_putc R s 0 of None \<Rightarrow> None
       | Some (s1, _) \<Rightarrow> (case dbuf_put_leb128 R s1 diff_pc of None \<Rightarrow> None
           | Some s2 \<Rightarrow> dbuf_put_sleb128 R s2 diff_line))"

fun pc2line_loop :: "'m dbuf_realloc_func \<Rightarrow> 'm dynbuf \<Rightarrow> u32 \<Rightarrow> s32 \<Rightarrow> (u32 \<times> s32) list \<Rightarrow> 'm dynbuf option" where
  "pc2line_loop R s last_pc last_line [] = Some s"
| "pc2line_loop R s last_pc last_line ((pc, line_num) # slots) =
    (if sint line_num < 0 then pc2line_loop R s last_pc last_line slots
     else let diff_pc = pc - last_pc; diff_line = line_num - last_line in
       if diff_line = 0 \<or> sint diff_pc < 0 then pc2line_loop R s last_pc last_line slots
       else case put_slot R s diff_pc diff_line of None \<Rightarrow> None
         | Some s1 \<Rightarrow> pc2line_loop R s1 pc line_num slots)"

text \<open>The result is the buffer, \<open>Some None\<close> where the function keeps no table.\<close>

definition compute_pc2line_info ::
  "'m dbuf_realloc_func \<Rightarrow> 'm \<Rightarrow> bool \<Rightarrow> s32 \<Rightarrow> (u32 \<times> s32) list option \<Rightarrow> 'm dynbuf option option" where
  "compute_pc2line_info R m strip line_num slots = (case slots of
     Some ls \<Rightarrow> if \<not> strip then map_option Some (pc2line_loop R (dbuf_init2 m) 0 line_num ls) else Some None
   | None \<Rightarrow> Some None)"

text \<open>One step of the decoder: \<open>None\<close> is the malformed table.\<close>

definition read_slot :: "u8 list \<Rightarrow> (u32 \<times> s32 \<times> nat) option" where
  "read_slot p = (case p of [] \<Rightarrow> None
     | op # p1 \<Rightarrow>
         if op = 0 then
           (case get_leb128 p1 of None \<Rightarrow> None
            | Some (val, n) \<Rightarrow> (case get_sleb128 (drop n p1) of None \<Rightarrow> None
                | Some (v, k) \<Rightarrow> Some (val, v, 1 + n + k)))
         else let x = ucast op - PC2LINE_OP_FIRST in
           Some (x div PC2LINE_RANGE, x mod PC2LINE_RANGE + PC2LINE_BASE, 1))"

lemma read_slot_forward: "read_slot p = Some (d, v, n) \<Longrightarrow> 0 < n \<and> p \<noteq> []"
  by (auto simp: read_slot_def Let_def split: list.splits if_splits option.splits)

function find_line_loop :: "u8 list \<Rightarrow> u32 \<Rightarrow> s32 \<Rightarrow> s32 \<Rightarrow> u32 \<Rightarrow> s32" where
  "find_line_loop p pc line_num first pc_value =
    (if p = [] then line_num
     else case read_slot p of None \<Rightarrow> first
       | Some (d, v, n) \<Rightarrow> if pc_value < pc + d then line_num
           else find_line_loop (drop n p) (pc + d) (line_num + v) first pc_value)"
  by auto
termination
  by (relation "measure (\<lambda>(p, pc, line_num, first, pc_value). length p)")
    (auto dest!: sym [of "Some _"] dest: read_slot_forward)

declare find_line_loop.simps [simp del]

definition find_line_num :: "bool \<Rightarrow> u8 list option \<Rightarrow> s32 \<Rightarrow> u32 \<Rightarrow> s32" where
  "find_line_num has_debug pc2line_buf line_num pc_value =
    (if \<not> has_debug then - 1 else case pc2line_buf of None \<Rightarrow> - 1
       | Some p \<Rightarrow> find_line_loop p 0 line_num line_num pc_value)"

section \<open>LEB128 round trips\<close>

function leb_bytes :: "u32 \<Rightarrow> u8 list" where
  "leb_bytes v = (if drop_bit 7 v \<noteq> 0 then ucast ((v AND 0x7f) OR 0x80) # leb_bytes (drop_bit 7 v) else [ucast (v AND 0x7f)])"
  by auto
termination by (relation "measure unat") (auto simp: drop_bit_less)

declare leb_bytes.simps [simp del]

lemma and_127: "(x :: 'a :: len word) AND 0x7f = take_bit 7 x"
  by (simp add: take_bit_eq_mask mask_eq_exp_minus_1)

lemma bit_128: "bit (0x80 :: 'a :: len word) n \<longleftrightarrow> n = 7 \<and> 7 < LENGTH('a)"
  using bit_exp_iff [of 7 n, where 'a = "'a word"] by auto

lemma bit_128_int: "bit (0x80 :: int) n \<longleftrightarrow> n = 7"
  using bit_exp_iff [of 7 n, where 'a = int] by auto

lemma leb_digit:
  "ucast (ucast (take_bit 7 v OR 0x80) :: u8) AND (0x7f :: u32) = take_bit 7 (v :: u32)"
  "ucast (ucast (take_bit 7 v) :: u8) AND (0x7f :: u32) = take_bit 7 (v :: u32)"
  "\<not> (ucast (take_bit 7 v OR 0x80) :: u8) AND 0x80 = 0" "(ucast (take_bit 7 v) :: u8) AND 0x80 = 0"
proof -
  show "ucast (ucast (take_bit 7 v OR 0x80) :: u8) AND (0x7f :: u32) = take_bit 7 v"
    unfolding and_127 by (rule bit_word_eqI) (auto simp: bit_simps bit_128 bit_128_int)
  show "ucast (ucast (take_bit 7 v) :: u8) AND (0x7f :: u32) = take_bit 7 v"
    unfolding and_127 by (rule bit_word_eqI) (auto simp: bit_simps)
  have "bit ((ucast (take_bit 7 v OR 0x80) :: u8) AND 0x80) 7" by (simp add: bit_simps bit_128 bit_128_int)
  then show "\<not> (ucast (take_bit 7 v OR 0x80) :: u8) AND 0x80 = 0" by (metis bit_0_eq bot_apply bot_bool_def)
  show "(ucast (take_bit 7 v) :: u8) AND 0x80 = 0" by (rule bit_word_eqI) (auto simp: bit_simps bit_128 bit_128_int)
qed

lemma leb_join: "push_bit k (take_bit 7 h) OR push_bit (k + 7) (drop_bit 7 h) = push_bit k (h :: u32)"
proof -
  have "take_bit 7 h OR push_bit 7 (drop_bit 7 h) = h"
    by (rule bit_word_eqI) (auto simp: bit_simps, metis le_add_diff_inverse not_less)
  then have "push_bit k (take_bit 7 h OR push_bit 7 (drop_bit 7 h)) = push_bit k h" by simp
  then show ?thesis by (simp add: push_bit_or add.commute)
qed

lemma get_leb_loop:
  "unat h < 2 ^ (7 * n) \<Longrightarrow> 0 < n \<Longrightarrow>
    get_leb128_loop n i v (leb_bytes h @ rest) = Some (v OR push_bit (i * 7) h, i + length (leb_bytes h))"
proof (induction n arbitrary: h i v)
  case (Suc n)
  show ?case
  proof (cases "drop_bit 7 h = 0")
    case True
    then have "take_bit 7 h = h" by (metis bits_ident or.left_neutral push_bit_of_0 or.right_neutral add.right_neutral add.left_neutral)
    then show ?thesis using True leb_digit(2,4) [of h] by (simp add: leb_bytes.simps [of h] and_127)
  next
    case False
    have n: "unat (drop_bit 7 h) < 2 ^ (7 * n)" using Suc(2) by (simp add: unat_drop_bit div_less_iff_less_mult power_add mult.commute)
    moreover have "0 < n" using n False by (cases n) (auto simp: unat_eq_0 simp flip: unat_0_iff)
    ultimately show ?thesis
      using Suc(1) [of "drop_bit 7 h" "i + 1" "v OR push_bit (i * 7) (take_bit 7 h)"] False leb_digit(1,3) [of h]
      by (simp add: leb_bytes.simps [of h] and_127 or.assoc leb_join [of "i * 7", unfolded add.commute [of _ 7]])
  qed
qed simp

lemma get_leb_bytes: "get_leb128 (leb_bytes v @ rest) = Some (v, length (leb_bytes v))"
proof -
  have "unat v < 2 ^ 32" using unsigned_less [of v] by simp
  then have "unat v < 2 ^ (7 * 5)" by (rule less_le_trans) simp
  then show ?thesis by (simp add: get_leb128_def get_leb_loop)
qed

lemma zigzag: "drop_bit 1 ((2 * v) XOR - (drop_bit 31 v)) XOR - (((2 * v) XOR - (drop_bit 31 v)) AND 1) = (v :: s32)"
proof -
  have d: "drop_bit 31 v = (if bit v 31 then 1 else 0)"
  proof (rule bit_word_eqI)
    fix k assume "k < LENGTH(32)"
    show "bit (drop_bit 31 v) k = bit (if bit v 31 then 1 else 0 :: s32) k"
      by (cases k) (auto simp: bit_simps bit_1_iff dest: bit_imp_le_length)
  qed
  define w where "w = push_bit 1 v"
  have two: "2 * v = w" by (simp add: w_def push_bit_eq_mult)
  have bw: "bit w n \<longleftrightarrow> n < 32 \<and> 0 < n \<and> bit v (n - 1)" for n
    unfolding w_def bit_push_bit_iff by (auto dest: bit_imp_le_length)
  have n: "n = 31 \<or> Suc n < 32" if "n < 32" for n :: nat using that by linarith
  show ?thesis
  proof (cases "bit v 31")
    case True
    have "(w XOR - 1) AND 1 = 1" by (rule bit_word_eqI) (auto simp: bw bit_simps bit_1_iff)
    moreover have "drop_bit 1 (w XOR - 1) XOR - 1 = v"
    proof (rule bit_word_eqI)
      fix k assume "k < LENGTH(32)"
      with n [of k] True show "bit (drop_bit 1 (w XOR - 1) XOR - 1) k = bit v k" by (auto simp: bw bit_simps)
    qed
    ultimately show ?thesis using True by (simp add: d two)
  next
    case False
    have "w AND 1 = 0" by (rule bit_word_eqI) (auto simp: bw bit_simps bit_1_iff)
    moreover have "drop_bit 1 (w) = v"
    proof (rule bit_word_eqI)
      fix k assume "k < LENGTH(32)"
      with n [of k] False show "bit (drop_bit 1 (w)) k = bit v k" by (auto simp: bw bit_simps)
    qed
    ultimately show ?thesis using False by (simp add: d two)
  qed
qed

section \<open>The bytes of a table\<close>

definition sleb_bytes :: "s32 \<Rightarrow> u8 list" where
  "sleb_bytes v = leb_bytes ((2 * v) XOR - (drop_bit 31 v))"

lemma get_sleb_bytes: "get_sleb128 (sleb_bytes v @ rest) = Some (v, length (sleb_bytes v))"
  unfolding get_sleb128_def sleb_bytes_def get_leb_bytes by (simp only: option.case prod.case zigzag)

text \<open>The difference fits one byte.\<close>

definition short_slot :: "s32 \<Rightarrow> s32 \<Rightarrow> bool" where
  "short_slot d l \<longleftrightarrow> - 1 \<le> sint l \<and> sint l < 4 \<and> sint d \<le> 50"

definition slot_bytes :: "s32 \<Rightarrow> s32 \<Rightarrow> u8 list" where
  "slot_bytes d l = (if short_slot d l then [ucast ((l - PC2LINE_BASE) + d * PC2LINE_RANGE + PC2LINE_OP_FIRST)]
     else 0 # leb_bytes d @ sleb_bytes l)"

lemma slot_consts:
  "sint PC2LINE_BASE = - 1" "sint (PC2LINE_BASE + PC2LINE_RANGE) = 4" "sint PC2LINE_DIFF_PC_MAX = 50"
  by code_simp+

lemma word_of_sint: "(x :: s32) = word_of_int (sint x)"
  by simp

lemma ucast_of_nat_byte: "ucast (of_nat n :: s32) = (of_nat n :: u8)"
  by (simp add: word_unat_eq_iff unat_ucast_mod unat_of_nat mod_mod_cancel)

lemma read_short:
  assumes "short_slot d l" "0 \<le> sint d"
  shows "read_slot (slot_bytes d l @ rest) = Some (d, l, 1)"
proof -
  define dn ln where "dn = nat (sint d)" and "ln = nat (sint l + 1)"
  have b: "dn \<le> 50" "ln \<le> 4" using assms by (auto simp: short_slot_def dn_def ln_def)
  have d: "d = of_nat dn" using assms(2) word_of_sint [of d] by (simp add: dn_def)
  have l: "l = of_nat ln - 1"
  proof -
    have "of_nat ln = (word_of_int (sint l + 1) :: s32)" using assms(1) by (simp add: ln_def short_slot_def)
    also have "\<dots> = l + 1" by simp
    finally show ?thesis by simp
  qed
  let ?n = "ln + 5 * dn"
  have x: "(l - PC2LINE_BASE) + d * PC2LINE_RANGE + PC2LINE_OP_FIRST = of_nat (?n + 1)"
    unfolding d l PC2LINE_BASE_def PC2LINE_RANGE_def PC2LINE_OP_FIRST_def by (simp add: mult.commute)
  have "unat (of_nat (?n + 1) :: u8) = ?n + 1" using b by (subst unat_of_nat) simp
  moreover have "unat (of_nat (?n + 1) :: s32) = ?n + 1" using b by (subst unat_of_nat) simp
  moreover have u: "ucast (of_nat (?n + 1) :: s32) = (of_nat (?n + 1) :: u8)" by (rule ucast_of_nat_byte)
  ultimately have op: "(of_nat (?n + 1) :: u8) \<noteq> 0" "ucast (of_nat (?n + 1) :: u8) = (of_nat (?n + 1) :: s32)"
    using b by (auto simp: word_unat_eq_iff unat_ucast_up simp del: of_nat_Suc of_nat_add)
  have n: "unat (of_nat ?n :: s32) = ?n" using b by (subst unat_of_nat) simp
  have "(of_nat ?n :: s32) div 5 = of_nat dn" "(of_nat ?n :: s32) mod 5 = of_nat ln"
    using b by (simp_all only: word_unat_eq_iff unat_div unat_mod n) (simp_all add: unat_of_nat)
  moreover have "(of_nat (?n + 1) :: s32) - 1 = of_nat ?n" by simp
  ultimately show ?thesis
    using op assms(1) u x
    by (simp add: read_slot_def slot_bytes_def d l PC2LINE_OP_FIRST_def PC2LINE_RANGE_def PC2LINE_BASE_def Let_def del: of_nat_Suc of_nat_add)
qed

lemma read_slot_bytes:
  assumes "0 \<le> sint d"
  shows "read_slot (slot_bytes d l @ rest) = Some (d, l, length (slot_bytes d l))"
proof (cases "short_slot d l")
  case True
  then show ?thesis using read_short [OF True assms] by (simp add: slot_bytes_def)
next
  case False
  then show ?thesis by (simp add: read_slot_def slot_bytes_def get_leb_bytes get_sleb_bytes)
qed

fun pc2line_bytes :: "u32 \<Rightarrow> s32 \<Rightarrow> (u32 \<times> s32) list \<Rightarrow> u8 list" where
  "pc2line_bytes last_pc last_line [] = []"
| "pc2line_bytes last_pc last_line ((pc, line_num) # slots) =
    (if sint line_num < 0 \<or> line_num = last_line \<or> sint (pc - last_pc) < 0 then pc2line_bytes last_pc last_line slots
     else slot_bytes (pc - last_pc) (line_num - last_line) @ pc2line_bytes pc line_num slots)"

context reallocator
begin

lemma put_leb:
  "db_ok s \<Longrightarrow> db_size s + length (leb_bytes v) < size_max \<Longrightarrow>
    \<exists>s1. dbuf_put_leb128 R s v = Some s1 \<and> db_wrote R s s1 (leb_bytes v)"
proof (induction v arbitrary: s rule: leb_bytes.induct)
  case (1 v)
  show ?case
  proof (cases "drop_bit 7 v = 0")
    case True
    have "db_size s + 1 < size_max" using 1(3) True by (simp add: leb_bytes.simps [of v])
    from putc_wrote [OF 1(2) this, of "ucast (v AND 0x7f)"] show ?thesis
      using True by (auto simp: dbuf_put_leb128.simps [of R s v] leb_bytes.simps [of v])
  next
    case False
    let ?c = "ucast ((v AND 0x7f) OR 0x80) :: u8"
    have b: "leb_bytes v = ?c # leb_bytes (drop_bit 7 v)" using False by (simp add: leb_bytes.simps [of v])
    have "db_size s + 1 < size_max" using 1(3) b by simp
    from putc_wrote [OF 1(2) this, of ?c] obtain s1 ok where s1: "dbuf_putc R s ?c = Some (s1, ok)" "db_wrote R s s1 [?c]" by blast
    have "db_ok s1" "db_size s1 + length (leb_bytes (drop_bit 7 v)) < size_max" using db_wrote_ok [OF s1(2)] 1(3) b by auto
    from 1(1) [OF False this] obtain s2 where
      s2: "dbuf_put_leb128 R s1 (drop_bit 7 v) = Some s2" "db_wrote R s1 s2 (leb_bytes (drop_bit 7 v))" by blast
    have "dbuf_put_leb128 R s v = Some s2" using False s1(1) s2(1) by (simp add: dbuf_put_leb128.simps [of R s v])
    then show ?thesis using db_wrote_trans [OF s1(2) s2(2)] b by simp
  qed
qed

lemma put_slot_wrote:
  assumes "db_ok s" "db_size s + length (slot_bytes d l) < size_max"
  shows "\<exists>s1. put_slot R s d l = Some s1 \<and> db_wrote R s s1 (slot_bytes d l)"
proof (cases "short_slot d l")
  case True
  then have "db_size s + 1 < size_max" using assms(2) by (simp add: slot_bytes_def)
  from putc_wrote [OF assms(1) this, of "ucast ((l - PC2LINE_BASE) + d * PC2LINE_RANGE + PC2LINE_OP_FIRST)"] show ?thesis
    using True by (auto simp: put_slot_def slot_bytes_def short_slot_def slot_consts)
next
  case False
  have b: "slot_bytes d l = [0] @ leb_bytes d @ sleb_bytes l" using False by (simp add: slot_bytes_def)
  have "db_size s + 1 < size_max" using assms(2) b by simp
  from putc_wrote [OF assms(1) this, of 0] obtain s1 ok where s1: "dbuf_putc R s 0 = Some (s1, ok)" "db_wrote R s s1 [0]" by blast
  have o1: "db_ok s1" "db_size s1 + length (leb_bytes d) < size_max" using db_wrote_ok [OF s1(2)] assms(2) b by auto
  from put_leb [OF o1] obtain s2 where s2: "dbuf_put_leb128 R s1 d = Some s2" "db_wrote R s1 s2 (leb_bytes d)" by blast
  have o2: "db_ok s2" "db_size s2 + length (sleb_bytes l) < size_max" using db_wrote_ok [OF s2(2)] db_wrote_ok [OF s1(2)] assms(2) b by auto
  from put_leb [OF o2 [unfolded sleb_bytes_def]] obtain s3 where
    s3: "dbuf_put_sleb128 R s2 l = Some s3" "db_wrote R s2 s3 (sleb_bytes l)" by (auto simp: dbuf_put_sleb128_def sleb_bytes_def)
  have "put_slot R s d l = Some s3" using False s1(1) s2(1) s3(1)
    by (auto simp: put_slot_def short_slot_def slot_consts)
  moreover have "db_wrote R s s3 (slot_bytes d l)" unfolding b by (rule db_wrote_trans [OF s1(2) db_wrote_trans [OF s2(2) s3(2)]])
  ultimately show ?thesis by blast
qed

lemma pc2line_loop_wrote:
  "db_ok s \<Longrightarrow> db_size s + length (pc2line_bytes last_pc last_line slots) < size_max \<Longrightarrow>
    \<exists>s1. pc2line_loop R s last_pc last_line slots = Some s1 \<and> db_wrote R s s1 (pc2line_bytes last_pc last_line slots)"
proof (induction last_pc last_line slots arbitrary: s rule: pc2line_bytes.induct)
  case 1
  then show ?case by (simp add: db_wrote_refl)
next
  case (2 last_pc last_line pc line_num slots)
  show ?case
  proof (cases "sint line_num < 0 \<or> line_num = last_line \<or> sint (pc - last_pc) < 0")
    case True
    then show ?thesis using 2(1) [OF True 2(3)] 2(4) by auto
  next
    case False
    let ?d = "pc - last_pc" and ?l = "line_num - last_line"
    have "db_size s + length (slot_bytes ?d ?l) < size_max" using 2(4) False by simp
    from put_slot_wrote [OF 2(3) this] obtain s1 where s1: "put_slot R s ?d ?l = Some s1" "db_wrote R s s1 (slot_bytes ?d ?l)" by blast
    have "db_ok s1" "db_size s1 + length (pc2line_bytes pc line_num slots) < size_max"
      using db_wrote_ok [OF s1(2)] 2(4) False by auto
    from 2(2) [OF False this] obtain s2 where s2: "pc2line_loop R s1 pc line_num slots = Some s2"
      "db_wrote R s1 s2 (pc2line_bytes pc line_num slots)" by blast
    have "pc2line_loop R s last_pc last_line ((pc, line_num) # slots) = Some s2" using False s1(1) s2(1) by (simp add: Let_def)
    then show ?thesis using db_wrote_trans [OF s1(2) s2(2)] False by simp
  qed
qed

end

section \<open>Finding the line\<close>

text \<open>The line of the last slot at or before a position.\<close>

fun line_at :: "s32 \<Rightarrow> (u32 \<times> s32) list \<Rightarrow> u32 \<Rightarrow> s32" where
  "line_at l [] t = l"
| "line_at l ((pc, ln) # slots) t = (if pc \<le> t then line_at ln slots t else line_at l slots t)"

lemma line_at_before: "\<forall>(pc, _) \<in> set slots. t < pc \<Longrightarrow> line_at l slots t = l"
  by (induction l slots t rule: line_at.induct) auto

lemma find_line_bytes:
  assumes "\<forall>(pc, l) \<in> set slots. 0 \<le> sint l \<and> last_pc \<le> pc \<and> 0 \<le> sint (pc - last_pc)"
    and "sorted (map fst slots)" and "\<forall>(pc, _) \<in> set slots. \<forall>(pc', _) \<in> set slots. pc \<le> pc' \<longrightarrow> 0 \<le> sint (pc' - pc)"
  shows "find_line_loop (pc2line_bytes last_pc last_line slots) last_pc last_line first t = line_at last_line slots t"
  using assms
proof (induction last_pc last_line slots rule: pc2line_bytes.induct)
  case (1 last_pc last_line)
  then show ?case by (subst find_line_loop.simps) simp
next
  case (2 last_pc last_line pc line_num slots)
  have h: "0 \<le> sint line_num" "0 \<le> sint (pc - last_pc)" using 2(3) by auto
  have above: "\<forall>(pc', _) \<in> set slots. pc \<le> pc'" using 2(4) by auto
  have later: "line_at l slots t = l" if "t < pc" for l
    by (rule line_at_before) (use above that in \<open>auto intro: less_le_trans\<close>)
  show ?case
  proof (cases "line_num = last_line")
    case True
    have "find_line_loop (pc2line_bytes last_pc last_line slots) last_pc last_line first t = line_at last_line slots t"
      using True 2(3-5) by (intro 2(1)) auto
    then show ?thesis using True by simp
  next
    case False
    let ?b = "slot_bytes (pc - last_pc) (line_num - last_line)" and ?r = "pc2line_bytes pc line_num slots"
    have "find_line_loop ?r pc line_num first t = line_at line_num slots t"
    proof (rule 2(2))
      show "\<not> (sint line_num < 0 \<or> line_num = last_line \<or> sint (pc - last_pc) < 0)" using h False by auto
      show "\<forall>(pc', l) \<in> set slots. 0 \<le> sint l \<and> pc \<le> pc' \<and> 0 \<le> sint (pc' - pc)" using 2(3,5) above by fastforce
    qed (use 2(4,5) in auto)
    moreover have "?b \<noteq> []" by (auto simp: slot_bytes_def)
    moreover have "pc2line_bytes last_pc last_line ((pc, line_num) # slots) = ?b @ ?r" using h False by simp
    ultimately show ?thesis using later
      by (subst find_line_loop.simps) (auto simp: read_slot_bytes [OF h(2)] not_less)
  qed
qed

section \<open>The whole table\<close>

lemma leb_length: "unat v < 2 ^ (7 * n) \<Longrightarrow> 0 < n \<Longrightarrow> length (leb_bytes v) \<le> n"
proof (induction n arbitrary: v)
  case (Suc n)
  show ?case
  proof (cases "drop_bit 7 v = 0")
    case False
    have n: "unat (drop_bit 7 v) < 2 ^ (7 * n)" using Suc(2) by (simp add: unat_drop_bit div_less_iff_less_mult power_add mult.commute)
    moreover have "0 < n" using n False by (cases n) (auto simp: unat_eq_0 simp flip: unat_0_iff)
    ultimately show ?thesis using Suc(1) [of "drop_bit 7 v"] False by (simp add: leb_bytes.simps [of v])
  qed (simp add: leb_bytes.simps [of v])
qed simp

lemma leb_length_5: "length (leb_bytes v) \<le> 5"
proof (rule leb_length)
  have "unat v < 2 ^ 32" using unsigned_less [of v] by simp
  then show "unat v < 2 ^ (7 * 5)" by (rule less_le_trans) simp
qed simp

lemma pc2line_length: "length (pc2line_bytes last_pc last_line slots) \<le> 11 * length slots"
proof (induction last_pc last_line slots rule: pc2line_bytes.induct)
  case (2 last_pc last_line pc line_num slots)
  have "length (slot_bytes d l) \<le> 11" for d l
    using leb_length_5 [of d] leb_length_5 [of "(2 * l) XOR - (drop_bit 31 l)"] by (simp add: slot_bytes_def sleb_bytes_def)
  from this [of "pc - last_pc" "line_num - last_line"] show ?case using 2 by auto
qed simp

text \<open>The slots that a run of \<open>add_pc2line_info\<close> leaves, from the initial state of a function.\<close>

definition recorded :: "nat \<Rightarrow> s32 \<Rightarrow> (u32 \<times> s32) list \<Rightarrow> line_slots" where
  "recorded cap line0 emits = foldl (\<lambda>s (pc, l). add_pc2line_info s pc l)
    \<lparr>ls_slots = [], ls_size = cap, ls_last_pc = 0, ls_last = line0\<rparr> emits"

definition recorded_ok :: "line_slots \<Rightarrow> (u32 \<times> s32) list \<Rightarrow> bool" where
  "recorded_ok s emits \<longleftrightarrow> sorted (map fst (ls_slots s)) \<and> (\<forall>(pc, _) \<in> set (ls_slots s). pc \<le> ls_last_pc s)
    \<and> set (ls_slots s) \<subseteq> set emits \<and> length (ls_slots s) \<le> length emits"

lemma recorded_sorted: "recorded_ok (recorded cap line0 emits) emits"
proof (induction emits rule: rev_induct)
  case (snoc x emits)
  obtain pc l where x: "x = (pc, l)" by (cases x)
  have "recorded cap line0 (emits @ [x]) = add_pc2line_info (recorded cap line0 emits) pc l" by (simp add: recorded_def x)
  moreover have "recorded_ok (add_pc2line_info s pc l) (emits @ [(pc, l)])" if "recorded_ok s emits" for s
  proof (cases "length (ls_slots s) < ls_size s \<and> pc \<ge> ls_last_pc s \<and> l \<noteq> ls_last s")
    case True
    have "\<forall>(q, _) \<in> set (ls_slots s). q \<le> pc" using that True by (auto simp: recorded_ok_def intro: order_trans)
    then show ?thesis using that True by (auto simp: recorded_ok_def add_pc2line_info_def sorted_append)
  next
    case False
    then have "add_pc2line_info s pc l = s" unfolding add_pc2line_info_def by (rule if_not_P)
    then show ?thesis using that by (auto simp: recorded_ok_def)
  qed
  ultimately show ?case using snoc x by simp
qed (simp add: recorded_def recorded_ok_def)

lemma sint_diff_small:
  assumes "a \<le> b" "b < (0x80000000 :: u32)"
  shows "0 \<le> sint (b - a)"
proof -
  have "unat (b - a) = unat b - unat a" using assms(1) by (rule unat_sub)
  then have "unat (b - a) < 2 ^ 31" using assms(2) by (simp add: word_less_nat_alt)
  then have "int (unat (b - a)) < int (2 ^ 31)" by (simp only: of_nat_less_iff)
  then have "int (unat (b - a)) < 2 ^ 31" by (simp only: of_nat_power of_nat_numeral)
  then have "uint (b - a) < 2 ^ 31" by (simp only: uint_nat [symmetric])
  moreover have "0 \<le> uint (b - a)" by (rule unsigned_greater_eq)
  ultimately have "signed_take_bit 31 (uint (b - a)) = uint (b - a)" by (intro signed_take_bit_int_eq_self) linarith+
  then have "sint (b - a) = uint (b - a)" unfolding sint_uint by simp
  then show ?thesis by simp
qed

section \<open>Properties\<close>

text \<open>
  C37. \<open>get_leb128\<close> and \<open>get_sleb128\<close> read back what \<open>dbuf_put_leb128\<close> and \<open>dbuf_put_sleb128\<close> append
  to a buffer, whatever follows it, and consume exactly those bytes.
\<close>
theorem leb128_round_trip:
  assumes "reallocator R" and "\<not> realloc_refuses R" and "db_ok s" and "\<not> db_error s" and "db_size s + 5 < size_max"
  shows "\<exists>s1 s2 xs ys. dbuf_put_leb128 R s v = Some s1 \<and> db_bytes s1 = db_bytes s @ xs
      \<and> get_leb128 (xs @ rest) = Some (v, length xs)
    \<and> dbuf_put_sleb128 R s w = Some s2 \<and> db_bytes s2 = db_bytes s @ ys \<and> get_sleb128 (ys @ rest) = Some (w, length ys)"
proof -
  have put: "\<exists>s1. dbuf_put_leb128 R s v = Some s1 \<and> db_bytes s1 = db_bytes s @ leb_bytes v" for v
    using reallocator.put_leb [OF assms(1,3), of v] leb_length_5 [of v] assms(2,4,5) by (auto simp: db_wrote_def split: if_splits)
  from put [of v] put [of "(2 * w) XOR - (drop_bit 31 w)"] show ?thesis
    using get_leb_bytes [of v rest] get_sleb_bytes [of w rest]
    unfolding dbuf_put_sleb128_def sleb_bytes_def by blast
qed

text \<open>
  C36. The line numbers of a backtrace are right: for the slots that any run of \<open>add_pc2line_info\<close>
  leaves, the table that \<open>compute_pc2line_info\<close> encodes makes \<open>find_line_num\<close> return, for every
  position, the line of the last slot at or before it, or the line of the function.
\<close>
theorem line_table_round_trip:
  assumes "reallocator R" and "\<not> realloc_refuses R" and "\<forall>(pc, l) \<in> set emits. pc < 0x80000000 \<and> 0 \<le> sint l"
    and "11 * length emits < size_max"
  shows "\<exists>b. compute_pc2line_info R m False line0 (Some (ls_slots (recorded cap line0 emits))) = Some (Some b) \<and> \<not> db_error b
    \<and> find_line_num True (Some (db_bytes b)) line0 t = line_at line0 (ls_slots (recorded cap line0 emits)) t"
proof -
  let ?slots = "ls_slots (recorded cap line0 emits)" and ?s = "dbuf_init2 m"
  note r = recorded_sorted [of cap line0 emits, unfolded recorded_ok_def]
  have in_range: "pc < 0x80000000 \<and> 0 \<le> sint l" if "(pc, l) \<in> set ?slots" for pc l using r assms(3) that by blast
  have "db_ok ?s" "\<not> db_error ?s" "db_bytes ?s = []" "db_size ?s = 0" by (simp_all add: db_ok_def dbuf_init2_def db_bytes_def size_max_def)
  moreover have "length (pc2line_bytes 0 line0 ?slots) < size_max"
    using pc2line_length [of 0 line0 ?slots] r assms(4) by linarith
  ultimately obtain b where b: "pc2line_loop R ?s 0 line0 ?slots = Some b" "\<not> db_error b" "db_bytes b = pc2line_bytes 0 line0 ?slots"
    using reallocator.pc2line_loop_wrote [OF assms(1), of ?s 0 line0 ?slots] assms(2) by (auto simp: db_wrote_def split: if_splits)
  have "find_line_loop (pc2line_bytes 0 line0 ?slots) 0 line0 line0 t = line_at line0 ?slots t"
  proof (rule find_line_bytes)
    show "\<forall>(pc, l) \<in> set ?slots. 0 \<le> sint l \<and> 0 \<le> pc \<and> 0 \<le> sint (pc - 0)"
      using in_range sint_diff_small [of 0] by fastforce
    show "\<forall>(pc, _) \<in> set ?slots. \<forall>(pc', _) \<in> set ?slots. pc \<le> pc' \<longrightarrow> 0 \<le> sint (pc' - pc)"
      using in_range sint_diff_small by blast
  qed (use r in blast)
  then show ?thesis using b by (simp add: compute_pc2line_info_def find_line_num_def)
qed

text \<open>A reallocation function that never refuses.\<close>

definition grow_block :: "unit dbuf_realloc_func" where
  "grow_block m b n = (m, Some (take n b @ replicate (n - length b) 0))"

lemma grow_block_serves: "\<not> realloc_refuses grow_block"
  by (simp add: realloc_refuses_def grow_block_def)

interpretation grow: reallocator grow_block
  by unfold_locales (auto simp: grow_block_def min_def)

theorem leb128_round_trip_witness:
  "\<exists>s1 xs. dbuf_put_leb128 grow_block (dbuf_init2 ()) 300 = Some s1 \<and> db_bytes s1 = xs \<and> get_leb128 (xs @ [7]) = Some (300, length xs)"
proof -
  have "db_ok (dbuf_init2 ())" "\<not> db_error (dbuf_init2 ())" "db_size (dbuf_init2 ()) + 5 < size_max"
    by (simp_all add: db_ok_def dbuf_init2_def size_max_def)
  from leb128_round_trip [OF grow.reallocator_axioms grow_block_serves this, of 300 "[7]"]
  show ?thesis by (auto simp: dbuf_init2_def db_bytes_def)
qed

theorem line_table_round_trip_witness:
  "\<exists>b. compute_pc2line_info grow_block () False 10 (Some (ls_slots (recorded 8 10 [(4, 11), (90, 25), (90, 11)]))) = Some (Some b)
    \<and> find_line_num True (Some (db_bytes b)) 10 5 = 11"
proof -
  let ?e = "[(4, 11), (90, 25), (90, 11)] :: (u32 \<times> s32) list"
  have "sint (11 :: s32) = 11" "sint (25 :: s32) = 25" by code_simp+
  then have "\<forall>(pc, l) \<in> set ?e. pc < 0x80000000 \<and> 0 \<le> sint l" by simp
  moreover have "11 * length ?e < size_max" by (simp add: size_max_def)
  moreover have "line_at 10 (ls_slots (recorded 8 10 ?e)) 5 = 11" by (simp add: recorded_def add_pc2line_info_def)
  ultimately show ?thesis
    using line_table_round_trip [OF grow.reallocator_axioms grow_block_serves, of ?e "()" 10 8 5] by auto
qed

end
