(* ===== verification/SameValue.thy ===== *)
theory SameValue
  imports StringConv Float64
begin

text \<open>
  The equality of JavaScript values and the hash that the keyed collections of
  \<open>quickjs/quickjs.c\<close> build on: \<open>js_strict_eq2\<close> with its three modes, the comparison of
  arbitrary-precision numbers of \<open>quickjs/libbf.c\<close> it calls, \<open>hash_string\<close>, \<open>map_normalize_key\<close>
  and \<open>map_hash_key\<close>. The locale \<open>key_hash\<close> is what a hash table needs of the pair: an equivalence
  on the keys in use that the hash respects. It is interpreted on the code's functions for the keys
  that are no float64 with the value of a 32-bit integer; on those the hash does not respect the
  equality, which \<open>hash_splits_equal_numbers\<close> shows.
\<close>

section \<open>Arbitrary-precision numbers\<close>

text \<open>
  A \<open>bf_t\<close> without its context pointer: sign, exponent and limbs, the least significant first;
  \<open>len\<close> is the length of the list. A \<open>bfdec_t\<close> is laid out identically, and the comparisons of
  decimals are casts to the binary ones.
\<close>

record bf_t =
  bf_sign :: bool
  bf_expn :: s64
  bf_tab :: "u64 list"

definition BF_EXP_ZERO :: s64 where "BF_EXP_ZERO = word_of_int (- (2 ^ 63))"
definition BF_EXP_NAN :: s64 where "BF_EXP_NAN = word_of_int (2 ^ 63 - 1)"

definition get_limbz :: "bf_t \<Rightarrow> u64 \<Rightarrow> u64" where
  "get_limbz a idx = (if idx \<ge> of_nat (length (bf_tab a)) then 0 else bf_tab a ! unat idx)"

text \<open>The loop of \<open>bf_cmpu\<close>: \<open>n\<close> is \<open>i + 1\<close>, the index arithmetic is that of \<open>limb_t\<close>.\<close>

fun bf_cmpu_loop :: "bf_t \<Rightarrow> bf_t \<Rightarrow> nat \<Rightarrow> nat \<Rightarrow> int" where
  "bf_cmpu_loop a b len 0 = 0"
| "bf_cmpu_loop a b len (Suc i) =
    (let v1 = get_limbz a (of_nat (length (bf_tab a)) - of_nat len + of_nat i);
         v2 = get_limbz b (of_nat (length (bf_tab b)) - of_nat len + of_nat i) in
     if v1 \<noteq> v2 then (if v1 < v2 then - 1 else 1) else bf_cmpu_loop a b len i)"

definition bf_cmpu :: "bf_t \<Rightarrow> bf_t \<Rightarrow> int" where
  "bf_cmpu a b =
    (if bf_expn a \<noteq> bf_expn b then (if sint (bf_expn a) < sint (bf_expn b) then - 1 else 1)
     else (let len = max (length (bf_tab a)) (length (bf_tab b)) in bf_cmpu_loop a b len len))"

definition bf_cmp_full :: "bf_t \<Rightarrow> bf_t \<Rightarrow> int" where
  "bf_cmp_full a b =
    (if bf_expn a = BF_EXP_NAN \<or> bf_expn b = BF_EXP_NAN then
       (if bf_expn a = bf_expn b then 0 else if bf_expn a = BF_EXP_NAN then 1 else - 1)
     else if bf_sign a \<noteq> bf_sign b then 1 - 2 * (if bf_sign a then 1 else 0)
     else (let res = bf_cmpu a b in if bf_sign a then - res else res))"

definition bf_cmp :: "bf_t \<Rightarrow> bf_t \<Rightarrow> int" where
  "bf_cmp a b =
    (if bf_expn a = BF_EXP_NAN \<or> bf_expn b = BF_EXP_NAN then 2
     else if bf_sign a \<noteq> bf_sign b then
       (if bf_expn a = BF_EXP_ZERO \<and> bf_expn b = BF_EXP_ZERO then 0 else 1 - 2 * (if bf_sign a then 1 else 0))
     else (let res = bf_cmpu a b in if bf_sign a then - res else res))"

definition bf_cmp_eq :: "bf_t \<Rightarrow> bf_t \<Rightarrow> bool" where
  "bf_cmp_eq a b \<longleftrightarrow> bf_cmp a b = 0"

text \<open>
  The limb \<open>j\<close> places below the most significant one. Numbers whose tables are less than half of
  the address space compare as equal when these limbs agree.
\<close>

definition top_limb :: "bf_t \<Rightarrow> nat \<Rightarrow> u64" where
  "top_limb a j = (if j < length (bf_tab a) then bf_tab a ! (length (bf_tab a) - 1 - j) else 0)"

definition bf_fits :: "bf_t \<Rightarrow> bool" where
  "bf_fits a \<longleftrightarrow> length (bf_tab a) < 2 ^ 63"

lemma unat_of_nat_u64: "n < 2 ^ 64 \<Longrightarrow> unat (of_nat n :: u64) = n"
  by (rule unat_of_nat_small) simp

lemma get_limbz_nat:
  assumes "bf_fits a" "k < 2 ^ 64"
  shows "get_limbz a (of_nat k) = (if k < length (bf_tab a) then bf_tab a ! k else 0)"
proof -
  have "length (bf_tab a) < 2 ^ 64" using assms(1) by (simp add: bf_fits_def)
  then have "unat (of_nat (length (bf_tab a)) :: u64) = length (bf_tab a)" by (rule unat_of_nat_u64)
  moreover have "unat (of_nat k :: u64) = k" by (rule unat_of_nat_u64) (rule assms(2))
  ultimately show ?thesis unfolding get_limbz_def word_le_nat_alt by (simp only: not_le if_not_P) auto
qed

lemma limb_of_top:
  assumes "bf_fits a" "length (bf_tab a) \<le> len" "len < 2 ^ 63" "i < len"
  shows "get_limbz a (of_nat (length (bf_tab a)) - of_nat len + of_nat i) = top_limb a (len - 1 - i)"
proof -
  let ?l = "length (bf_tab a)"
  have l: "?l < 2 ^ 63" using assms(1) by (simp add: bf_fits_def)
  show ?thesis
  proof (cases "len - 1 - i < ?l")
    case True
    then have e: "(of_nat ?l - of_nat len + of_nat i :: u64) = of_nat (?l + i - len)"
      using assms(2-4) by (simp add: of_nat_diff)
    have k: "?l + i - len < ?l" "?l + i - len = ?l - 1 - (len - 1 - i)" using True assms(2-4) by auto
    have "?l + i - len < 2 ^ 64" using k(1) l by simp
    from get_limbz_nat [OF assms(1) this] k(1) True show ?thesis unfolding e top_limb_def
      by (simp only: if_True k(2))
  next
    case False
    define d where "d = len - ?l - i"
    have len: "len = ?l + i + d" "d \<le> 2 ^ 64" using False assms(2-4) by (auto simp: d_def)
    have "of_nat (2 ^ 64 - d) = (of_nat (2 ^ 64) - of_nat d :: u64)" using len(2) by (rule of_nat_diff)
    also have "of_nat (2 ^ 64) = (0 :: u64)" by (subst word_of_nat_eq_0_iff) simp
    finally have e: "(of_nat ?l - of_nat len + of_nat i :: u64) = of_nat (2 ^ 64 - d)"
      by (subst len(1)) simp
    have k: "\<not> 2 ^ 64 - d < ?l" "2 ^ 64 - d < (2 ^ 64 :: nat)"
      using False assms(2-4) l by (auto simp: d_def)
    from get_limbz_nat [OF assms(1) k(2)] k(1) False show ?thesis unfolding e top_limb_def
      by (simp only: if_False)
  qed
qed

lemma cmpu_loop_zero:
  assumes "bf_fits a" "bf_fits b" "length (bf_tab a) \<le> len" "length (bf_tab b) \<le> len" "len < 2 ^ 63"
  shows "n \<le> len \<Longrightarrow> bf_cmpu_loop a b len n = 0 \<longleftrightarrow> (\<forall>i < n. top_limb a (len - 1 - i) = top_limb b (len - 1 - i))"
  by (induction n) (simp_all add: limb_of_top [OF assms(1,3,5)] limb_of_top [OF assms(2,4,5)] Let_def less_Suc_eq, blast)

lemma cmpu_zero:
  assumes "bf_fits a" "bf_fits b"
  shows "bf_cmpu a b = 0 \<longleftrightarrow> bf_expn a = bf_expn b \<and> top_limb a = top_limb b"
proof -
  let ?n = "max (length (bf_tab a)) (length (bf_tab b))"
  have n: "?n < 2 ^ 63" using assms by (simp add: bf_fits_def)
  have "bf_cmpu_loop a b ?n ?n = 0 \<longleftrightarrow> (\<forall>i < ?n. top_limb a (?n - 1 - i) = top_limb b (?n - 1 - i))"
    by (rule cmpu_loop_zero [OF assms _ _ n]) simp_all
  also have "\<dots> \<longleftrightarrow> (\<forall>j. top_limb a j = top_limb b j)"
  proof (intro iffI allI impI)
    fix j assume *: "\<forall>i < ?n. top_limb a (?n - 1 - i) = top_limb b (?n - 1 - i)"
    show "top_limb a j = top_limb b j"
    proof (cases "j < ?n")
      case True
      then show ?thesis using spec [OF *, of "?n - 1 - j"] by simp
    next
      case False
      then have "\<not> j < length (bf_tab a)" "\<not> j < length (bf_tab b)" by simp_all
      then show ?thesis by (simp only: top_limb_def if_False)
    qed
  qed simp
  finally show ?thesis by (auto simp: bf_cmpu_def Let_def fun_eq_iff)
qed

lemma bf_cmp_eq_iff:
  assumes "bf_fits a" "bf_fits b"
  shows "bf_cmp_eq a b \<longleftrightarrow> bf_expn a \<noteq> BF_EXP_NAN \<and> bf_expn b \<noteq> BF_EXP_NAN \<and>
    (bf_sign a = bf_sign b \<and> bf_expn a = bf_expn b \<and> top_limb a = top_limb b
     \<or> bf_sign a \<noteq> bf_sign b \<and> bf_expn a = BF_EXP_ZERO \<and> bf_expn b = BF_EXP_ZERO)"
  using cmpu_zero [OF assms] by (auto simp: bf_cmp_eq_def bf_cmp_def Let_def)

lemma bf_cmp_full_iff:
  assumes "bf_fits a" "bf_fits b"
  shows "bf_cmp_full a b = 0 \<longleftrightarrow> bf_expn a = BF_EXP_NAN \<and> bf_expn b = BF_EXP_NAN
    \<or> bf_expn a \<noteq> BF_EXP_NAN \<and> bf_expn b \<noteq> BF_EXP_NAN \<and>
      bf_sign a = bf_sign b \<and> bf_expn a = bf_expn b \<and> top_limb a = top_limb b"
  using cmpu_zero [OF assms] by (auto simp: bf_cmp_full_def Let_def)

section \<open>Values and their equality\<close>

text \<open>
  The values a program can hold, by tag. Strings and numbers are their contents; objects and symbols
  are their addresses.
\<close>

datatype jsv =
    JV_undefined
  | JV_null
  | JV_bool bool
  | JV_int s32
  | JV_float u64
  | JV_string js_string
  | JV_symbol nat
  | JV_object nat
  | JV_bigint bf_t
  | JV_bigfloat bf_t
  | JV_bigdecimal bf_t

fun jv_tag :: "jsv \<Rightarrow> int" where
  "jv_tag (JV_bigdecimal _) = - 11"
| "jv_tag (JV_bigint _) = - 10"
| "jv_tag (JV_bigfloat _) = - 9"
| "jv_tag (JV_symbol _) = - 8"
| "jv_tag (JV_string _) = - 7"
| "jv_tag (JV_object _) = - 1"
| "jv_tag (JV_int _) = 0"
| "jv_tag (JV_bool _) = 1"
| "jv_tag JV_null = 2"
| "jv_tag JV_undefined = 3"
| "jv_tag (JV_float _) = 7"

datatype eq_mode = JS_EQ_STRICT | JS_EQ_SAME_VALUE | JS_EQ_SAME_VALUE_ZERO

text \<open>The code at the label \<open>number_test\<close>, on the two doubles.\<close>

definition number_test :: "eq_mode \<Rightarrow> u64 \<Rightarrow> u64 \<Rightarrow> bool" where
  "number_test m d1 d2 =
    (if m = JS_EQ_STRICT then f64_eq d1 d2
     else if f64_nan d1 \<or> f64_nan d2 then f64_nan d1 = f64_nan d2
     else if m = JS_EQ_SAME_VALUE_ZERO then f64_eq d1 d2
     else d1 = d2)"

text \<open>
  \<open>js_strict_eq2\<close>. Its two arguments are owned: they are freed at the end for the tags with a
  reference count, and need not be for the others. \<open>js_same_value_zero\<close> duplicates them first, so
  that a comparison leaves the counts as they are.
\<close>

definition js_strict_eq2 :: "jsv \<Rightarrow> jsv \<Rightarrow> eq_mode \<Rightarrow> bool" where
  "js_strict_eq2 op1 op2 m = (case op1 of
     JV_bool a \<Rightarrow> (case op2 of JV_bool b \<Rightarrow> a = b | _ \<Rightarrow> False)
   | JV_null \<Rightarrow> jv_tag op2 = jv_tag JV_null
   | JV_undefined \<Rightarrow> jv_tag op2 = jv_tag JV_undefined
   | JV_string p1 \<Rightarrow> (case op2 of JV_string p2 \<Rightarrow> js_string_compare p1 p2 = 0 | _ \<Rightarrow> False)
   | JV_symbol p1 \<Rightarrow> (case op2 of JV_symbol p2 \<Rightarrow> p1 = p2 | _ \<Rightarrow> False)
   | JV_object p1 \<Rightarrow> (case op2 of JV_object p2 \<Rightarrow> p1 = p2 | _ \<Rightarrow> False)
   | JV_int i \<Rightarrow> (case op2 of
         JV_int j \<Rightarrow> number_test m (f64_of_int (sint i)) (f64_of_int (sint j))
       | JV_float d2 \<Rightarrow> number_test m (f64_of_int (sint i)) d2
       | _ \<Rightarrow> False)
   | JV_float d1 \<Rightarrow> (case op2 of
         JV_float d2 \<Rightarrow> number_test m d1 d2
       | JV_int j \<Rightarrow> number_test m d1 (f64_of_int (sint j))
       | _ \<Rightarrow> False)
   | JV_bigint a \<Rightarrow> (case op2 of JV_bigint b \<Rightarrow> bf_cmp_eq a b | _ \<Rightarrow> False)
   | JV_bigfloat a \<Rightarrow> (case op2 of
         JV_bigfloat b \<Rightarrow>
           (if m = JS_EQ_STRICT then bf_cmp_eq a b
            else if m = JS_EQ_SAME_VALUE_ZERO \<and> bf_expn a = BF_EXP_ZERO \<and> bf_expn b = BF_EXP_ZERO then True
            else bf_cmp_full a b = 0)
       | _ \<Rightarrow> False)
   | JV_bigdecimal a \<Rightarrow> (case op2 of JV_bigdecimal b \<Rightarrow> bf_cmp_eq a b | _ \<Rightarrow> False))"

definition js_strict_eq :: "jsv \<Rightarrow> jsv \<Rightarrow> bool" where
  "js_strict_eq op1 op2 = js_strict_eq2 op1 op2 JS_EQ_STRICT"

definition js_same_value :: "jsv \<Rightarrow> jsv \<Rightarrow> bool" where
  "js_same_value op1 op2 = js_strict_eq2 op1 op2 JS_EQ_SAME_VALUE"

definition js_same_value_zero :: "jsv \<Rightarrow> jsv \<Rightarrow> bool" where
  "js_same_value_zero op1 op2 = js_strict_eq2 op1 op2 JS_EQ_SAME_VALUE_ZERO"

section \<open>Hashing\<close>

definition hash_string8 :: "u8 list \<Rightarrow> u32 \<Rightarrow> u32" where
  "hash_string8 str h = fold (\<lambda>c h. h * 263 + ucast c) str h"

definition hash_string16 :: "u16 list \<Rightarrow> u32 \<Rightarrow> u32" where
  "hash_string16 str h = fold (\<lambda>c h. h * 263 + ucast c) str h"

definition hash_string :: "js_string \<Rightarrow> u32 \<Rightarrow> u32" where
  "hash_string str h = (case str of Str16 u \<Rightarrow> hash_string16 u h | Str8 u \<Rightarrow> hash_string8 u h)"

definition map_normalize_key :: "jsv \<Rightarrow> jsv" where
  "map_normalize_key key = (case key of
     JV_float d \<Rightarrow> if f64_eq d 0 then JV_int 0 else key
   | _ \<Rightarrow> key)"

definition JS_FLOAT64_NAN :: u64 where "JS_FLOAT64_NAN = 0x7ff8000000000000"

definition hash_float64 :: "u64 \<Rightarrow> u32" where
  "hash_float64 u = (ucast u XOR ucast (drop_bit 32 u)) * 3163"

text \<open>
  The product with 3163 of the integer case is one of \<open>int\<close>: it wraps here, where C leaves the
  overflow undefined. The product of the pointer is cut to 32 bits by the assignment.
\<close>

definition map_hash_key :: "jsv \<Rightarrow> u32" where
  "map_hash_key key =
    (let h = (case key of
         JV_bool b \<Rightarrow> (if b then 1 else 0)
       | JV_string p \<Rightarrow> hash_string p 0
       | JV_object p \<Rightarrow> of_nat p * 3163
       | JV_symbol p \<Rightarrow> of_nat p * 3163
       | JV_int i \<Rightarrow> hash_float64 (f64_of_int (sint (i * 3163)))
       | JV_float d \<Rightarrow> hash_float64 (if f64_nan d then JS_FLOAT64_NAN else d)
       | _ \<Rightarrow> 0)
     in h XOR word_of_int (jv_tag key))"

section \<open>The keys on which hash and equality agree\<close>

text \<open>
  \<open>int_valued d\<close>: the value of the double is that of an \<open>int\<close>, and \<open>JS_NewFloat64\<close> would store it
  as one. Arithmetic does not go through \<open>JS_NewFloat64\<close>, so such a float64 can be a key.
\<close>

definition int_valued :: "u64 \<Rightarrow> bool" where
  "int_valued d \<longleftrightarrow> f64_scaled d mod f64_one = 0
     \<and> - 2147483648 * f64_one \<le> f64_scaled d \<and> f64_scaled d \<le> 2147483647 * f64_one"

definition bf_ok :: "bf_t \<Rightarrow> bool" where
  "bf_ok a \<longleftrightarrow> bf_fits a \<and> (bf_expn a = BF_EXP_ZERO \<longrightarrow> bf_tab a = [])"

definition map_key :: "jsv \<Rightarrow> bool" where
  "map_key v = (case v of
     JV_float d \<Rightarrow> \<not> int_valued d
   | JV_bigint a \<Rightarrow> bf_ok a \<and> bf_expn a \<noteq> BF_EXP_NAN
   | JV_bigfloat a \<Rightarrow> bf_ok a
   | JV_bigdecimal a \<Rightarrow> bf_ok a \<and> bf_expn a \<noteq> BF_EXP_NAN
   | _ \<Rightarrow> True)"

text \<open>What a key stands for: \<open>js_same_value_zero\<close> is equality of these.\<close>

definition bf_norm :: "bf_t \<Rightarrow> bool \<times> s64 \<times> (nat \<Rightarrow> u64)" where
  "bf_norm a = (if bf_expn a = BF_EXP_NAN \<or> bf_expn a = BF_EXP_ZERO then (False, bf_expn a, \<lambda>_. 0)
     else (bf_sign a, bf_expn a, top_limb a))"

datatype key_val =
    K_unit bool
  | K_bool bool
  | K_int s32
  | K_float u64
  | K_string "u16 list"
  | K_address bool nat
  | K_big int "bool \<times> s64 \<times> (nat \<Rightarrow> u64)"

definition key_val :: "jsv \<Rightarrow> key_val" where
  "key_val v = (case v of
     JV_undefined \<Rightarrow> K_unit False
   | JV_null \<Rightarrow> K_unit True
   | JV_bool b \<Rightarrow> K_bool b
   | JV_int i \<Rightarrow> K_int i
   | JV_float d \<Rightarrow> K_float (if f64_nan d then JS_FLOAT64_NAN else d)
   | JV_string p \<Rightarrow> K_string (units p)
   | JV_symbol p \<Rightarrow> K_address False p
   | JV_object p \<Rightarrow> K_address True p
   | JV_bigint a \<Rightarrow> K_big 0 (bf_norm a)
   | JV_bigfloat a \<Rightarrow> K_big 1 (bf_norm a)
   | JV_bigdecimal a \<Rightarrow> K_big 2 (bf_norm a))"

lemma exp_zero_nan: "BF_EXP_ZERO \<noteq> BF_EXP_NAN"
  by (simp add: BF_EXP_ZERO_def BF_EXP_NAN_def)

lemma bf_okD: "bf_ok a \<Longrightarrow> bf_fits a" "bf_ok a \<Longrightarrow> bf_expn a = BF_EXP_ZERO \<Longrightarrow> top_limb a = (\<lambda>_. 0)"
  by (auto simp: bf_ok_def top_limb_def)

lemma bf_eq_norm:
  assumes "bf_ok a" "bf_ok b" "bf_expn a \<noteq> BF_EXP_NAN" "bf_expn b \<noteq> BF_EXP_NAN"
  shows "bf_cmp_eq a b \<longleftrightarrow> bf_norm a = bf_norm b"
  using bf_cmp_eq_iff [OF bf_okD(1) [OF assms(1)] bf_okD(1) [OF assms(2)]] assms(3,4)
    bf_okD(2) [OF assms(1)] bf_okD(2) [OF assms(2)]
  by (auto simp: bf_norm_def exp_zero_nan)

lemma bf_full_norm:
  assumes "bf_ok a" "bf_ok b"
  shows "(bf_expn a = BF_EXP_ZERO \<and> bf_expn b = BF_EXP_ZERO \<or> bf_cmp_full a b = 0) \<longleftrightarrow> bf_norm a = bf_norm b"
proof -
  note f = bf_cmp_full_iff [OF bf_okD(1) [OF assms(1)] bf_okD(1) [OF assms(2)]]
  consider "bf_expn a = BF_EXP_NAN" | "bf_expn a = BF_EXP_ZERO" | "bf_expn a \<noteq> BF_EXP_NAN" "bf_expn a \<noteq> BF_EXP_ZERO"
    by blast
  then show ?thesis
    by cases (auto simp: f bf_norm_def exp_zero_nan exp_zero_nan [symmetric])
qed

lemma units_cmp_zero: "units_cmp xs ys = 0 \<longleftrightarrow> xs = ys"
  by (induction xs ys rule: units_cmp.induct) (auto simp: not_less)

lemma compare_zero: "js_string_compare p q = 0 \<longleftrightarrow> units p = units q"
  using compare_units [of p q] by (metis units_cmp_zero sgn_0_0)

lemma sint_s32_lt: "\<bar>sint (i :: s32)\<bar> < 2 ^ 53" "- 2147483648 \<le> sint i" "sint i \<le> 2147483647"
  using sint_range_size [of i] by (simp_all add: word_size) (simp add: abs_less_iff)

lemma of_int_s32_not_nan: "\<not> f64_nan (f64_of_int (sint (i :: s32)))"
  using f64_of_int_exact(2) [OF sint_s32_lt(1)] by (simp add: f64_nan_def f64_finite_def)

lemma of_int_s32_inj: "f64_eq (f64_of_int (sint i)) (f64_of_int (sint j)) \<longleftrightarrow> i = (j :: s32)"
  using f64_one_pos
  by (simp add: f64_eq_def of_int_s32_not_nan f64_of_int_exact(1) [OF sint_s32_lt(1)]) (metis signed_word_eqI)

lemma of_int_s32_int_valued:
  assumes "f64_eq (f64_of_int (sint (i :: s32))) d"
  shows "int_valued d"
proof -
  have s: "f64_scaled d = sint i * f64_one"
    using assms by (auto simp: f64_eq_def f64_of_int_exact(1) [OF sint_s32_lt(1)])
  show ?thesis unfolding int_valued_def s
    using mult_right_mono [OF sint_s32_lt(2) [of i], of f64_one] mult_right_mono [OF sint_s32_lt(3) [of i], of f64_one]
      f64_one_pos by simp
qed

lemma int_valued_of_int [simp]: "int_valued (f64_of_int (sint (i :: s32)))"
  by (rule of_int_s32_int_valued [of i]) (simp add: of_int_s32_inj)

lemma f64_eq_sym: "f64_eq a b = f64_eq b a"
  by (auto simp: f64_eq_def)

lemma int_valued_zero: "f64_scaled d = 0 \<Longrightarrow> int_valued d"
  using f64_one_pos by (simp add: int_valued_def)

lemma f64_eq_bits:
  assumes "\<not> int_valued a"
  shows "f64_eq a b \<longleftrightarrow> a = b \<and> \<not> f64_nan a"
proof -
  have "f64_scaled a \<noteq> 0" using assms int_valued_zero by blast
  then show ?thesis using scaled_inj [of a b] by (auto simp: f64_eq_def)
qed

lemma nan_canonical: "f64_nan JS_FLOAT64_NAN"
  by (simp add: f64_nan_def JS_FLOAT64_NAN_def f64_exp_unat f64_frac_unat)

lemma same_value_zero_iff:
  assumes "map_key v" "map_key w"
  shows "js_same_value_zero v w \<longleftrightarrow> key_val v = key_val w"
proof -
  have e: "\<not> f64_eq (f64_of_int (sint (i :: s32))) d" "\<not> f64_eq d (f64_of_int (sint (i :: s32)))"
    if "\<not> int_valued d" for d i
    using of_int_s32_int_valued [of i d] that f64_eq_sym by blast+
  show ?thesis
    using assms nan_canonical
    by (cases v; cases w)
      (simp_all add: js_same_value_zero_def js_strict_eq2_def key_val_def map_key_def number_test_def
        compare_zero of_int_s32_inj of_int_s32_not_nan e f64_eq_bits bf_eq_norm bf_full_norm [symmetric], auto)
qed

lemma hash_string_units: "hash_string p h = hash_string16 (units p) h"
proof (cases p)
  case (Str8 xs)
  have u: "(ucast (ucast (c :: u8) :: u16) :: u32) = ucast c" for c
    by (simp add: word_unat_eq_iff unat_ucast_up)
  have "hash_string8 xs g = hash_string16 (map ucast xs) g" for g
    by (induction xs arbitrary: g) (simp_all add: hash_string8_def hash_string16_def u)
  then show ?thesis by (simp add: Str8 hash_string_def)
qed (simp add: hash_string_def)

lemma hash_key_val: "key_val v = key_val w \<Longrightarrow> map_hash_key v = map_hash_key w"
  by (cases v; cases w) (auto simp: key_val_def map_hash_key_def hash_string_units Let_def split: if_splits)

section \<open>The contract of a hash table's keys\<close>

locale key_hash =
  fixes ok :: "'k \<Rightarrow> bool"
    and eq :: "'k \<Rightarrow> 'k \<Rightarrow> bool"
    and hash :: "'k \<Rightarrow> u32"
  assumes eq_refl: "ok a \<Longrightarrow> eq a a"
    and eq_sym: "ok a \<Longrightarrow> ok b \<Longrightarrow> eq a b \<Longrightarrow> eq b a"
    and eq_trans: "ok a \<Longrightarrow> ok b \<Longrightarrow> ok c \<Longrightarrow> eq a b \<Longrightarrow> eq b c \<Longrightarrow> eq a c"
    and eq_hash: "ok a \<Longrightarrow> ok b \<Longrightarrow> eq a b \<Longrightarrow> hash a = hash b"
begin

text \<open>
  Searching the bucket of a key finds what a search of all entries would find, whatever part of
  the hash selects the bucket.
\<close>

lemma find_in_bucket:
  assumes "\<forall>a \<in> set xs. ok (key a)" "ok k"
  shows "List.find (\<lambda>a. eq (key a) k) (filter (\<lambda>a. f (hash (key a)) = f (hash k)) xs)
    = List.find (\<lambda>a. eq (key a) k) xs"
  using assms eq_hash by (induction xs) auto

end

interpretation keys: key_hash map_key js_same_value_zero map_hash_key
  by unfold_locales (auto simp: same_value_zero_iff intro: hash_key_val)

end
