(* ===== verification/MapSet.thy ===== *)
theory MapSet
  imports SameValue "HOL-Library.Monad_Syntax"
begin

text \<open>
  \<open>Map\<close>, \<open>Set\<close>, \<open>WeakMap\<close> and \<open>WeakSet\<close> of \<open>quickjs/quickjs.c\<close>: a hash table whose entries are also
  linked in the order of their insertion, records that iterators lock, and weak records that hang
  on their key objects. An intrusive list is the list of the addresses it links; \<open>list_del\<close> takes
  an address out of the list it is in. Every access to a record goes through its address, and
  \<open>None\<close> is an access to freed memory, an index outside of a table or a failed assertion.
\<close>

section \<open>The store\<close>

record JSMapRecord =
  mr_ref_count :: int
  mr_empty :: bool
  mr_map :: nat
  mr_key :: jsv
  mr_value :: jsv

record JSMapState =
  ms_is_weak :: bool
  ms_records :: "nat list"
  ms_record_count :: u32
  ms_hash_table :: "nat list list"
  ms_hash_size :: u32
  ms_threshold :: u32

datatype iter_kind = JS_ITERATOR_KIND_KEY | JS_ITERATOR_KIND_VALUE | JS_ITERATOR_KIND_KEY_AND_VALUE

record JSMapIteratorData =
  it_obj :: jsv
  it_kind :: iter_kind
  it_cur_record :: "nat option"

text \<open>
  The memory the operations work on: the allocator's state, the records, the map and iterator
  objects with the \<open>magic\<close> of their class (bit 0: set, bit 1: weak) and their opaque pointer, the
  \<open>first_weak_ref\<close> list of each object, the addresses the next record and object get, the
  references taken to a value less those given up, and whether an out-of-memory exception is
  pending.
\<close>

record 'm map_store =
  memory :: 'm
  recs :: "nat \<Rightarrow> JSMapRecord option"
  map_objs :: "nat \<Rightarrow> (nat \<times> JSMapState option) option"
  iter_objs :: "nat \<Rightarrow> (nat \<times> JSMapIteratorData option) option"
  weak_refs :: "nat \<Rightarrow> nat list"
  next_rec :: nat
  next_obj :: nat
  refs :: "jsv \<Rightarrow> int"
  pending_oom :: bool

text \<open>What a method returns: a value, a new array of two values, or an exception.\<close>

datatype js_result = Exception | Value jsv | Pair_array jsv jsv

definition is_set :: "nat \<Rightarrow> bool" where "is_set magic = odd magic"
definition is_weak_magic :: "nat \<Rightarrow> bool" where "is_weak_magic magic = odd (magic div 2)"

definition JS_IsObject :: "jsv \<Rightarrow> bool" where
  "JS_IsObject v = (case v of JV_object _ \<Rightarrow> True | _ \<Rightarrow> False)"

text \<open>Only the tags below zero have a reference count; on the others these do nothing.\<close>

definition counted :: "jsv \<Rightarrow> bool" where
  "counted v \<longleftrightarrow> jv_tag v < 0"

definition JS_DupValue :: "jsv \<Rightarrow> 'm map_store \<Rightarrow> 'm map_store" where
  "JS_DupValue v st = (if counted v then st\<lparr>refs := (refs st)(v := refs st v + 1)\<rparr> else st)"

definition JS_FreeValue :: "jsv \<Rightarrow> 'm map_store \<Rightarrow> 'm map_store" where
  "JS_FreeValue v st = (if counted v then st\<lparr>refs := (refs st)(v := refs st v - 1)\<rparr> else st)"

definition map_of_obj :: "'m map_store \<Rightarrow> nat \<Rightarrow> JSMapState option" where
  "map_of_obj st p = (case map_objs st p of Some (_, Some s) \<Rightarrow> Some s | _ \<Rightarrow> None)"

definition put_map :: "nat \<Rightarrow> JSMapState \<Rightarrow> 'm map_store \<Rightarrow> 'm map_store" where
  "put_map p s st = (case map_objs st p of
     Some (c, _) \<Rightarrow> st\<lparr>map_objs := (map_objs st)(p \<mapsto> (c, Some s))\<rparr>
   | None \<Rightarrow> st)"

definition put_rec :: "nat \<Rightarrow> JSMapRecord \<Rightarrow> 'm map_store \<Rightarrow> 'm map_store" where
  "put_rec a r st = st\<lparr>recs := (recs st)(a \<mapsto> r)\<rparr>"

definition free_rec :: "nat \<Rightarrow> 'm map_store \<Rightarrow> 'm map_store" where
  "free_rec a st = st\<lparr>recs := (recs st)(a := None)\<rparr>"

text \<open>\<open>JS_GetOpaque2\<close> with \<open>JS_CLASS_MAP + magic\<close>; \<open>None\<close> has thrown a \<open>TypeError\<close>.\<close>

definition map_opaque :: "'m map_store \<Rightarrow> jsv \<Rightarrow> nat \<Rightarrow> (nat \<times> JSMapState) option" where
  "map_opaque st v magic = (case v of
     JV_object p \<Rightarrow> (case map_objs st p of
         Some (c, Some s) \<Rightarrow> if c = magic then Some (p, s) else None
       | _ \<Rightarrow> None)
   | _ \<Rightarrow> None)"

definition iter_opaque :: "'m map_store \<Rightarrow> jsv \<Rightarrow> nat \<Rightarrow> (nat \<times> JSMapIteratorData) option" where
  "iter_opaque st v magic = (case v of
     JV_object p \<Rightarrow> (case iter_objs st p of
         Some (c, Some it) \<Rightarrow> if c = magic then Some (p, it) else None
       | _ \<Rightarrow> None)
   | _ \<Rightarrow> None)"

text \<open>\<open>js_malloc\<close> and \<open>js_realloc2\<close>: a failure throws; the result is the slack of the block.\<close>

definition store_alloc :: "'m alloc \<Rightarrow> int \<Rightarrow> 'm map_store \<Rightarrow> 'm map_store \<times> int option" where
  "store_alloc A n st = (case A (memory st) n of
     (m', Some k) \<Rightarrow> (st\<lparr>memory := m'\<rparr>, Some k)
   | (m', None) \<Rightarrow> (st\<lparr>memory := m', pending_oom := True\<rparr>, None))"

text \<open>
  \<open>JS_NewObjectClass\<close> and \<open>js_create_array\<close> are the engine's: \<open>B\<close> says of a memory state whether
  they succeed.
\<close>

definition store_object :: "('m \<Rightarrow> 'm \<times> bool) \<Rightarrow> 'm map_store \<Rightarrow> 'm map_store \<times> bool" where
  "store_object B st = (case B (memory st) of (m', ok) \<Rightarrow> (st\<lparr>memory := m', pending_oom := (pending_oom st \<or> \<not> ok)\<rparr>, ok))"

definition sizeof_JSMapRecord :: int where "sizeof_JSMapRecord = 88"
definition sizeof_JSMapState :: int where "sizeof_JSMapState = 48"
definition sizeof_JSMapIteratorData :: int where "sizeof_JSMapIteratorData = 32"
definition sizeof_list_head :: int where "sizeof_list_head = 16"

section \<open>The hash table\<close>

definition table_slot :: "nat list list \<Rightarrow> u32 \<Rightarrow> nat list option" where
  "table_slot t h = (if unat h < length t then Some (t ! unat h) else None)"

fun find_hash :: "'m map_store \<Rightarrow> jsv \<Rightarrow> nat list \<Rightarrow> nat option option" where
  "find_hash st key [] = Some None"
| "find_hash st key (a # as) = do {
     mr \<leftarrow> recs st a;
     if js_same_value_zero (mr_key mr) key then Some (Some a) else find_hash st key as }"

definition map_find_record :: "'m map_store \<Rightarrow> JSMapState \<Rightarrow> jsv \<Rightarrow> nat option option" where
  "map_find_record st s key = do {
     bucket \<leftarrow> table_slot (ms_hash_table s) (map_hash_key key AND (ms_hash_size s - 1));
     find_hash st key bucket }"

definition table_add_tail :: "nat list list \<Rightarrow> u32 \<Rightarrow> nat \<Rightarrow> nat list list option" where
  "table_add_tail t h a = do {
     bucket \<leftarrow> table_slot t h;
     Some (t[unat h := bucket @ [a]]) }"

fun rehash :: "'m map_store \<Rightarrow> u32 \<Rightarrow> nat list \<Rightarrow> nat list list \<Rightarrow> nat list list option" where
  "rehash st n [] t = Some t"
| "rehash st n (a # as) t = do {
     mr \<leftarrow> recs st a;
     t' \<leftarrow> (if mr_empty mr then Some t else table_add_tail t (map_hash_key (mr_key mr) AND (n - 1)) a);
     rehash st n as t' }"

definition map_hash_resize :: "'m alloc \<Rightarrow> nat \<Rightarrow> 'm map_store \<Rightarrow> 'm map_store option" where
  "map_hash_resize A m st = do {
     s \<leftarrow> map_of_obj st m;
     let n = (if ms_hash_size s = 1 then 4 else ms_hash_size s * 2);
     case store_alloc A (sizeof_list_head * uint n) st of
       (st, None) \<Rightarrow> Some st
     | (st, Some slack) \<Rightarrow> do {
         let n = n + word_of_int (slack div sizeof_list_head);
         t \<leftarrow> rehash st n (ms_records s) (replicate (unat n) []);
         Some (put_map m (s\<lparr>ms_hash_table := t, ms_hash_size := n, ms_threshold := n * 2\<rparr>) st) } }"

text \<open>
  The new record's \<open>value\<close> is set by the caller; until then the memory is uninitialised, which the
  model shows as \<open>undefined\<close>.
\<close>

definition map_add_record :: "'m alloc \<Rightarrow> nat \<Rightarrow> jsv \<Rightarrow> 'm map_store \<Rightarrow> ('m map_store \<times> nat option) option" where
  "map_add_record A m key st = do {
     s \<leftarrow> map_of_obj st m;
     case store_alloc A sizeof_JSMapRecord st of
       (st, None) \<Rightarrow> Some (st, None)
     | (st, Some _) \<Rightarrow> do {
         let a = next_rec st;
         st \<leftarrow> (if ms_is_weak s
            then (case key of
                JV_object p \<Rightarrow> Some (st\<lparr>weak_refs := (weak_refs st)(p := a # weak_refs st p)\<rparr>)
              | _ \<Rightarrow> None)
            else Some (JS_DupValue key st));
         let st = put_rec a \<lparr>mr_ref_count = 1, mr_empty = False, mr_map = m, mr_key = key, mr_value = JV_undefined\<rparr> st;
         let st = st\<lparr>next_rec := Suc a\<rparr>;
         t \<leftarrow> table_add_tail (ms_hash_table s) (map_hash_key key AND (ms_hash_size s - 1)) a;
         let s = s\<lparr>ms_hash_table := t, ms_records := ms_records s @ [a], ms_record_count := ms_record_count s + 1\<rparr>;
         let st = put_map m s st;
         st \<leftarrow> (if ms_record_count s \<ge> ms_threshold s then map_hash_resize A m st else Some st);
         Some (st, Some a) } }"

text \<open>The loop asserts that the record is in the list of its key.\<close>

definition delete_weak_ref :: "nat \<Rightarrow> 'm map_store \<Rightarrow> 'm map_store option" where
  "delete_weak_ref a st = do {
     mr \<leftarrow> recs st a;
     (case mr_key mr of
        JV_object p \<Rightarrow> if a \<in> set (weak_refs st p)
          then Some (st\<lparr>weak_refs := (weak_refs st)(p := remove1 a (weak_refs st p))\<rparr>) else None
      | _ \<Rightarrow> None) }"

definition unlink_hash :: "nat \<Rightarrow> JSMapState \<Rightarrow> JSMapState" where
  "unlink_hash a s = s\<lparr>ms_hash_table := map (remove1 a) (ms_hash_table s)\<rparr>"

definition unlink_record :: "nat \<Rightarrow> JSMapState \<Rightarrow> JSMapState" where
  "unlink_record a s = s\<lparr>ms_records := remove1 a (ms_records s)\<rparr>"

definition map_delete_record :: "nat \<Rightarrow> nat \<Rightarrow> 'm map_store \<Rightarrow> 'm map_store option" where
  "map_delete_record m a st = do {
     mr \<leftarrow> recs st a;
     if mr_empty mr then Some st else do {
       s \<leftarrow> map_of_obj st m;
       let st = put_map m (unlink_hash a s) st;
       st \<leftarrow> (if ms_is_weak s then delete_weak_ref a st else Some (JS_FreeValue (mr_key mr) st));
       let st = JS_FreeValue (mr_value mr) st;
       s \<leftarrow> map_of_obj st m;
       let n = mr_ref_count mr - 1;
       let st = (if n = 0 then free_rec a (put_map m (unlink_record a s) st)
         else put_rec a (mr\<lparr>mr_ref_count := n, mr_empty := True, mr_key := JV_undefined, mr_value := JV_undefined\<rparr>) st);
       s \<leftarrow> map_of_obj st m;
       Some (put_map m (s\<lparr>ms_record_count := ms_record_count s - 1\<rparr>) st) } }"

definition map_decref_record :: "nat \<Rightarrow> 'm map_store \<Rightarrow> 'm map_store option" where
  "map_decref_record a st = do {
     mr \<leftarrow> recs st a;
     let n = mr_ref_count mr - 1;
     if n = 0 then
       (if mr_empty mr then do {
          s \<leftarrow> map_of_obj st (mr_map mr);
          Some (free_rec a (put_map (mr_map mr) (unlink_record a s) st)) }
        else None)
     else Some (put_rec a (mr\<lparr>mr_ref_count := n\<rparr>) st) }"

section \<open>The methods\<close>

definition js_map_set :: "'m alloc \<Rightarrow> jsv \<Rightarrow> jsv \<Rightarrow> jsv \<Rightarrow> nat \<Rightarrow> 'm map_store \<Rightarrow> ('m map_store \<times> js_result) option" where
  "js_map_set A this_val arg0 arg1 magic st = (case map_opaque st this_val magic of
     None \<Rightarrow> Some (st, Exception)
   | Some (m, s) \<Rightarrow>
       (let key = map_normalize_key arg0 in
        if ms_is_weak s \<and> \<not> JS_IsObject key then Some (st, Exception)
        else do {
          let val = (if is_set magic then JV_undefined else arg1);
          found \<leftarrow> map_find_record st s key;
          (st, mr) \<leftarrow> (case found of
              Some a \<Rightarrow> do { mr \<leftarrow> recs st a; Some (JS_FreeValue (mr_value mr) st, Some a) }
            | None \<Rightarrow> map_add_record A m key st);
          case mr of
            None \<Rightarrow> Some (st, Exception)
          | Some a \<Rightarrow> do {
              mr \<leftarrow> recs st a;
              let st = put_rec a (mr\<lparr>mr_value := val\<rparr>) (JS_DupValue val st);
              Some (JS_DupValue this_val st, Value this_val) } }))"

definition js_map_get :: "jsv \<Rightarrow> jsv \<Rightarrow> nat \<Rightarrow> 'm map_store \<Rightarrow> ('m map_store \<times> js_result) option" where
  "js_map_get this_val arg0 magic st = (case map_opaque st this_val magic of
     None \<Rightarrow> Some (st, Exception)
   | Some (m, s) \<Rightarrow> do {
       found \<leftarrow> map_find_record st s (map_normalize_key arg0);
       case found of
         None \<Rightarrow> Some (st, Value JV_undefined)
       | Some a \<Rightarrow> do { mr \<leftarrow> recs st a; Some (JS_DupValue (mr_value mr) st, Value (mr_value mr)) } })"

definition js_map_has :: "jsv \<Rightarrow> jsv \<Rightarrow> nat \<Rightarrow> 'm map_store \<Rightarrow> ('m map_store \<times> js_result) option" where
  "js_map_has this_val arg0 magic st = (case map_opaque st this_val magic of
     None \<Rightarrow> Some (st, Exception)
   | Some (m, s) \<Rightarrow> do {
       found \<leftarrow> map_find_record st s (map_normalize_key arg0);
       Some (st, Value (JV_bool (found \<noteq> None))) })"

definition js_map_delete :: "jsv \<Rightarrow> jsv \<Rightarrow> nat \<Rightarrow> 'm map_store \<Rightarrow> ('m map_store \<times> js_result) option" where
  "js_map_delete this_val arg0 magic st = (case map_opaque st this_val magic of
     None \<Rightarrow> Some (st, Exception)
   | Some (m, s) \<Rightarrow> do {
       found \<leftarrow> map_find_record st s (map_normalize_key arg0);
       case found of
         None \<Rightarrow> Some (st, Value (JV_bool False))
       | Some a \<Rightarrow> do { st \<leftarrow> map_delete_record m a st; Some (st, Value (JV_bool True)) } })"

text \<open>
  \<open>list_for_each_safe\<close> reads the next link before the body, which unlinks the current record only:
  the loop runs over the records linked at its start.
\<close>

fun clear_loop :: "nat \<Rightarrow> nat list \<Rightarrow> 'm map_store \<Rightarrow> 'm map_store option" where
  "clear_loop m [] st = Some st"
| "clear_loop m (a # as) st = do { st \<leftarrow> map_delete_record m a st; clear_loop m as st }"

definition js_map_clear :: "jsv \<Rightarrow> nat \<Rightarrow> 'm map_store \<Rightarrow> ('m map_store \<times> js_result) option" where
  "js_map_clear this_val magic st = (case map_opaque st this_val magic of
     None \<Rightarrow> Some (st, Exception)
   | Some (m, s) \<Rightarrow> do { st \<leftarrow> clear_loop m (ms_records s) st; Some (st, Value JV_undefined) })"

definition JS_NewUint32 :: "u32 \<Rightarrow> jsv" where
  "JS_NewUint32 v = (if v \<le> 0x7fffffff then JV_int v else JV_float (f64_of_int (uint v)))"

definition js_map_get_size :: "jsv \<Rightarrow> nat \<Rightarrow> 'm map_store \<Rightarrow> ('m map_store \<times> js_result) option" where
  "js_map_get_size this_val magic st = (case map_opaque st this_val magic of
     None \<Rightarrow> Some (st, Exception)
   | Some (m, s) \<Rightarrow> Some (st, Value (JS_NewUint32 (ms_record_count s))))"

text \<open>
  The part of the constructor before the iterable is read: an object of the class, whose opaque
  pointer stays \<open>NULL\<close> until the state is allocated. A failure frees the object, whose address is
  given out again.
\<close>

definition js_map_constructor :: "'m alloc \<Rightarrow> ('m \<Rightarrow> 'm \<times> bool) \<Rightarrow> nat \<Rightarrow> 'm map_store \<Rightarrow> 'm map_store \<times> js_result" where
  "js_map_constructor A B magic st = (case store_object B st of
     (st, False) \<Rightarrow> (st, Exception)
   | (st, True) \<Rightarrow>
       (let obj = next_obj st;
            st = st\<lparr>next_obj := Suc obj, map_objs := (map_objs st)(obj \<mapsto> (magic, None))\<rparr>;
            drop = (\<lambda>st. st\<lparr>next_obj := obj, map_objs := (map_objs st)(obj := None)\<rparr>) in
        case store_alloc A sizeof_JSMapState st of
          (st, None) \<Rightarrow> (drop st, Exception)
        | (st, Some _) \<Rightarrow>
            (case store_alloc A (sizeof_list_head * 1) st of
               (st, None) \<Rightarrow> (drop st, Exception)
             | (st, Some _) \<Rightarrow>
                 (put_map obj \<lparr>ms_is_weak = is_weak_magic magic, ms_records = [], ms_record_count = 0,
                    ms_hash_table = [[]], ms_hash_size = 1, ms_threshold = 4\<rparr> (JS_DupValue (JV_object obj) st),
                  Value (JV_object obj)))))"

section \<open>Walking the list of records\<close>

text \<open>\<open>el->next\<close> of a linked address, and of the head; \<open>None\<close> is the head again.\<close>

definition next_link :: "nat list \<Rightarrow> nat \<Rightarrow> nat option" where
  "next_link xs a = (case dropWhile (\<lambda>x. x \<noteq> a) xs of (_ # b # _) \<Rightarrow> Some b | _ \<Rightarrow> None)"

definition first_link :: "nat list \<Rightarrow> nat option" where
  "first_link xs = (case xs of [] \<Rightarrow> None | a # _ \<Rightarrow> Some a)"

definition links_from :: "nat list \<Rightarrow> nat option \<Rightarrow> nat list" where
  "links_from xs el = (case el of None \<Rightarrow> [] | Some a \<Rightarrow> dropWhile (\<lambda>x. x \<noteq> a) xs)"

text \<open>The loop of \<open>js_map_iterator_next\<close> that skips the empty records, which changes nothing.\<close>

fun skip_empty :: "'m map_store \<Rightarrow> nat list \<Rightarrow> nat option option" where
  "skip_empty st [] = Some None"
| "skip_empty st (a # as) = do {
     mr \<leftarrow> recs st a;
     if mr_empty mr then skip_empty st as else Some (Some a) }"

definition put_iter :: "nat \<Rightarrow> JSMapIteratorData \<Rightarrow> 'm map_store \<Rightarrow> 'm map_store" where
  "put_iter i it st = (case iter_objs st i of
     Some (c, _) \<Rightarrow> st\<lparr>iter_objs := (iter_objs st)(i \<mapsto> (c, Some it))\<rparr>
   | None \<Rightarrow> st)"

text \<open>The result of \<open>js_map_iterator_next\<close>: the state, the value and \<open>*pdone\<close>.\<close>

definition js_map_iterator_next ::
  "('m \<Rightarrow> 'm \<times> bool) \<Rightarrow> jsv \<Rightarrow> nat \<Rightarrow> 'm map_store \<Rightarrow> ('m map_store \<times> js_result \<times> bool) option" where
  "js_map_iterator_next B this_val magic st = (case iter_opaque st this_val magic of
     None \<Rightarrow> Some (st, Exception, False)
   | Some (i, it) \<Rightarrow>
       if it_obj it = JV_undefined then Some (st, Value JV_undefined, True)
       else do {
         (m, s) \<leftarrow> map_opaque st (it_obj it) magic;
         (el, st) \<leftarrow> (case it_cur_record it of
             None \<Rightarrow> Some (first_link (ms_records s), st)
           | Some a \<Rightarrow> do { st \<leftarrow> map_decref_record a st; Some (next_link (ms_records s) a, st) });
         s \<leftarrow> map_of_obj st m;
         found \<leftarrow> skip_empty st (links_from (ms_records s) el);
         case found of
           None \<Rightarrow> Some (put_iter i (it\<lparr>it_cur_record := None, it_obj := JV_undefined\<rparr>) (JS_FreeValue (it_obj it) st),
             Value JV_undefined, True)
         | Some a \<Rightarrow> do {
             mr \<leftarrow> recs st a;
             let st = put_rec a (mr\<lparr>mr_ref_count := mr_ref_count mr + 1\<rparr>) st;
             let st = put_iter i (it\<lparr>it_cur_record := Some a\<rparr>) st;
             let second = (if magic \<noteq> 0 then mr_key mr else mr_value mr);
             (case it_kind it of
                JS_ITERATOR_KIND_KEY \<Rightarrow> Some (JS_DupValue (mr_key mr) st, Value (mr_key mr), False)
              | JS_ITERATOR_KIND_VALUE \<Rightarrow> Some (JS_DupValue second st, Value second, False)
              | JS_ITERATOR_KIND_KEY_AND_VALUE \<Rightarrow>
                  (case store_object B st of
                     (st, True) \<Rightarrow> Some (JS_DupValue second (JS_DupValue (mr_key mr) st), Pair_array (mr_key mr) second, False)
                   | (st, False) \<Rightarrow> Some (st, Exception, False))) } })"

text \<open>\<open>js_create_map_iterator\<close>; its \<open>magic\<close> packs the kind above the two class bits.\<close>

definition js_create_map_iterator ::
  "'m alloc \<Rightarrow> ('m \<Rightarrow> 'm \<times> bool) \<Rightarrow> jsv \<Rightarrow> iter_kind \<Rightarrow> nat \<Rightarrow> 'm map_store \<Rightarrow> 'm map_store \<times> js_result" where
  "js_create_map_iterator A B this_val kind magic st = (case map_opaque st this_val magic of
     None \<Rightarrow> (st, Exception)
   | Some (m, s) \<Rightarrow>
       (case store_object B st of
          (st, False) \<Rightarrow> (st, Exception)
        | (st, True) \<Rightarrow>
            (let i = next_obj st;
                 st = st\<lparr>next_obj := Suc i, iter_objs := (iter_objs st)(i \<mapsto> (magic, None))\<rparr> in
             case store_alloc A sizeof_JSMapIteratorData st of
               (st, None) \<Rightarrow> (st\<lparr>next_obj := i, iter_objs := (iter_objs st)(i := None)\<rparr>, Exception)
             | (st, Some _) \<Rightarrow>
                 (put_iter i \<lparr>it_obj = this_val, it_kind = kind, it_cur_record = None\<rparr>
                    (JS_DupValue (JV_object i) (JS_DupValue this_val st)),
                  Value (JV_object i)))))"

text \<open>
  The finalizers. \<open>JS_IsLiveObject\<close> of an iterator's map is whether the map object is still there:
  the sweep of the cycle collector may have freed it first.
\<close>

definition js_map_iterator_finalizer :: "nat \<Rightarrow> 'm map_store \<Rightarrow> 'm map_store option" where
  "js_map_iterator_finalizer i st = (case iter_objs st i of
     Some (_, Some it) \<Rightarrow> do {
       st \<leftarrow> (case (it_obj it, it_cur_record it) of
           (JV_object p, Some a) \<Rightarrow> if map_objs st p \<noteq> None then map_decref_record a st else Some st
         | _ \<Rightarrow> Some st);
       Some ((JS_FreeValue (it_obj it) st)\<lparr>iter_objs := (iter_objs st)(i := None)\<rparr>) }
   | _ \<Rightarrow> Some (st\<lparr>iter_objs := (iter_objs st)(i := None)\<rparr>))"

fun finalize_loop :: "bool \<Rightarrow> nat list \<Rightarrow> 'm map_store \<Rightarrow> 'm map_store option" where
  "finalize_loop weak [] st = Some st"
| "finalize_loop weak (a # as) st = do {
     mr \<leftarrow> recs st a;
     st \<leftarrow> (if mr_empty mr then Some st else do {
         st \<leftarrow> (if weak then delete_weak_ref a st else Some (JS_FreeValue (mr_key mr) st));
         Some (JS_FreeValue (mr_value mr) st) });
     finalize_loop weak as (free_rec a st) }"

definition js_map_finalizer :: "nat \<Rightarrow> 'm map_store \<Rightarrow> 'm map_store option" where
  "js_map_finalizer m st = (case map_of_obj st m of
     None \<Rightarrow> Some (st\<lparr>map_objs := (map_objs st)(m := None)\<rparr>)
   | Some s \<Rightarrow> do {
       st \<leftarrow> finalize_loop (ms_is_weak s) (ms_records s) st;
       Some (st\<lparr>map_objs := (map_objs st)(m := None)\<rparr>) })"

text \<open>
  \<open>reset_weak_ref\<close>, called when the object \<open>p\<close> dies: the first pass unlinks its records from their
  maps, the second frees their values and the records. The count of the maps stays as it is.
\<close>

fun weak_unlink_loop :: "nat list \<Rightarrow> 'm map_store \<Rightarrow> 'm map_store option" where
  "weak_unlink_loop [] st = Some st"
| "weak_unlink_loop (a # as) st = do {
     mr \<leftarrow> recs st a;
     s \<leftarrow> map_of_obj st (mr_map mr);
     if ms_is_weak s \<and> \<not> mr_empty mr
     then weak_unlink_loop as (put_map (mr_map mr) (unlink_record a (unlink_hash a s)) st)
     else None }"

fun weak_free_loop :: "nat list \<Rightarrow> 'm map_store \<Rightarrow> 'm map_store option" where
  "weak_free_loop [] st = Some st"
| "weak_free_loop (a # as) st = do {
     mr \<leftarrow> recs st a;
     weak_free_loop as (free_rec a (JS_FreeValue (mr_value mr) st)) }"

definition reset_weak_ref :: "nat \<Rightarrow> 'm map_store \<Rightarrow> 'm map_store option" where
  "reset_weak_ref p st = do {
     st \<leftarrow> weak_unlink_loop (weak_refs st p) st;
     st \<leftarrow> weak_free_loop (weak_refs st p) st;
     Some (st\<lparr>weak_refs := (weak_refs st)(p := [])\<rparr>) }"

section \<open>\<open>forEach\<close>\<close>

text \<open>
  \<open>C\<close> stands for \<open>JS_Call\<close>: it may do anything to the store. One round of the loop at the record
  \<open>el\<close>; the result is where the loop stands: at a link (\<open>None\<close> is the head) or returned.
\<close>

datatype loop_pos = At "nat option" | Returned js_result

type_synonym 'm js_call = "jsv \<Rightarrow> jsv \<Rightarrow> jsv list \<Rightarrow> 'm map_store \<Rightarrow> ('m map_store \<times> js_result) option"

definition free_result :: "js_result \<Rightarrow> 'm map_store \<Rightarrow> 'm map_store" where
  "free_result r st = (case r of Value v \<Rightarrow> JS_FreeValue v st | _ \<Rightarrow> st)"

definition for_each_round ::
  "'m js_call \<Rightarrow> nat \<Rightarrow> jsv \<Rightarrow> jsv \<Rightarrow> jsv \<Rightarrow> nat \<Rightarrow> nat \<Rightarrow> 'm map_store \<Rightarrow> ('m map_store \<times> loop_pos) option" where
  "for_each_round C m func this_arg this_val magic el st = do {
     mr \<leftarrow> recs st el;
     if \<not> mr_empty mr then do {
       let st = put_rec el (mr\<lparr>mr_ref_count := mr_ref_count mr + 1\<rparr>) st;
       let key = mr_key mr;
       let st = JS_DupValue key st;
       let val = (if magic \<noteq> 0 then key else mr_value mr);
       let st = (if magic \<noteq> 0 then st else JS_DupValue val st);
       (st, ret) \<leftarrow> C func this_arg [val, key, this_val] st;
       let st = JS_FreeValue val st;
       let st = (if magic \<noteq> 0 then st else JS_FreeValue key st);
       s \<leftarrow> map_of_obj st m;
       let el' = next_link (ms_records s) el;
       st \<leftarrow> map_decref_record el st;
       if ret = Exception then Some (st, Returned Exception)
       else Some (free_result ret st, At el') }
     else do {
       s \<leftarrow> map_of_obj st m;
       Some (st, At (next_link (ms_records s) el)) } }"

text \<open>At most \<open>n\<close> rounds: the callback may add entries for ever.\<close>

fun for_each_loop ::
  "nat \<Rightarrow> 'm js_call \<Rightarrow> nat \<Rightarrow> jsv \<Rightarrow> jsv \<Rightarrow> jsv \<Rightarrow> nat \<Rightarrow> 'm map_store \<Rightarrow> loop_pos \<Rightarrow> ('m map_store \<times> loop_pos) option" where
  "for_each_loop n C m func this_arg this_val magic st (Returned r) = Some (st, Returned r)"
| "for_each_loop n C m func this_arg this_val magic st (At None) = Some (st, Returned (Value JV_undefined))"
| "for_each_loop 0 C m func this_arg this_val magic st (At (Some el)) = Some (st, At (Some el))"
| "for_each_loop (Suc n) C m func this_arg this_val magic st (At (Some el)) = do {
     (st, pos) \<leftarrow> for_each_round C m func this_arg this_val magic el st;
     for_each_loop n C m func this_arg this_val magic st pos }"

definition js_map_forEach ::
  "nat \<Rightarrow> (jsv \<Rightarrow> bool) \<Rightarrow> 'm js_call \<Rightarrow> jsv \<Rightarrow> jsv \<Rightarrow> jsv option \<Rightarrow> nat \<Rightarrow> 'm map_store \<Rightarrow> ('m map_store \<times> loop_pos) option" where
  "js_map_forEach n is_fun C this_val func arg1 magic st = (case map_opaque st this_val magic of
     None \<Rightarrow> Some (st, Returned Exception)
   | Some (m, s) \<Rightarrow>
       (let this_arg = (case arg1 of Some v \<Rightarrow> v | None \<Rightarrow> JV_undefined) in
        if \<not> is_fun func then Some (st, Returned Exception)
        else for_each_loop n C m func this_arg this_val magic st (At (first_link (ms_records s)))))"

end
