(* ===== verification/MapSetProofs.thy ===== *)
theory MapSetProofs
  imports MapSet
begin

text \<open>
  \<open>Map\<close> and \<open>Set\<close> implement their specification. ECMAScript gives a map a list of entries that are
  never removed, only emptied, and an iterator an index into it; the code unlinks a deleted record
  unless an iterator stands on it, keeps it as an empty one then, and lets the iterator hold the
  record. \<open>core\<close> relates the two: each entry of the specification has an address, the linked
  records are those that are not empty or locked, in order, and the buckets partition the live
  ones. Each elementary change of the code preserves it, and the methods and iterators follow.
\<close>

section \<open>The specification\<close>

record es_iter =
  es_kind :: iter_kind
  es_index :: "nat option"

record es_map =
  es_entries :: "(jsv \<times> jsv) option list"
  es_iters :: "nat \<Rightarrow> es_iter option"
  es_next_iter :: nat

datatype map_op =
    Op_set jsv jsv
  | Op_get jsv
  | Op_has jsv
  | Op_delete jsv
  | Op_clear
  | Op_size
  | Op_iterator iter_kind
  | Op_next nat
  | Op_drop nat

fun es_find :: "jsv \<Rightarrow> (jsv \<times> jsv) option list \<Rightarrow> nat option" where
  "es_find key [] = None"
| "es_find key (None # es) = map_option Suc (es_find key es)"
| "es_find key (Some (k, v) # es) = (if js_same_value_zero k key then Some 0 else map_option Suc (es_find key es))"

text \<open>The first entry from index \<open>j\<close> on that is not empty.\<close>

fun es_from :: "(jsv \<times> jsv) option list \<Rightarrow> (nat \<times> jsv \<times> jsv) option" where
  "es_from [] = None"
| "es_from (None # es) = map_option (map_prod Suc id) (es_from es)"
| "es_from (Some kv # es) = Some (0, kv)"

definition es_result :: "iter_kind \<Rightarrow> nat \<Rightarrow> jsv \<times> jsv \<Rightarrow> js_result" where
  "es_result kind magic kv =
    (let second = (if magic = 0 then snd kv else fst kv) in
     case kind of
       JS_ITERATOR_KIND_KEY \<Rightarrow> Value (fst kv)
     | JS_ITERATOR_KIND_VALUE \<Rightarrow> Value second
     | JS_ITERATOR_KIND_KEY_AND_VALUE \<Rightarrow> Pair_array (fst kv) second)"

definition es_step :: "nat \<Rightarrow> jsv \<Rightarrow> map_op \<Rightarrow> es_map \<Rightarrow> es_map \<times> js_result \<times> bool" where
  "es_step magic this_val p sp = (case p of
     Op_set k v \<Rightarrow>
       (let k = map_normalize_key k; v = (if is_set magic then JV_undefined else v) in
        (sp\<lparr>es_entries := (case es_find k (es_entries sp) of
            Some i \<Rightarrow> (es_entries sp)[i := map_option (\<lambda>(k', _). (k', v)) (es_entries sp ! i)]
          | None \<Rightarrow> es_entries sp @ [Some (k, v)])\<rparr>, Value this_val, False))
   | Op_get k \<Rightarrow> (sp, Value (case es_find (map_normalize_key k) (es_entries sp) of
         Some i \<Rightarrow> snd (the (es_entries sp ! i)) | None \<Rightarrow> JV_undefined), False)
   | Op_has k \<Rightarrow> (sp, Value (JV_bool (es_find (map_normalize_key k) (es_entries sp) \<noteq> None)), False)
   | Op_delete k \<Rightarrow> (case es_find (map_normalize_key k) (es_entries sp) of
         Some i \<Rightarrow> (sp\<lparr>es_entries := (es_entries sp)[i := None]\<rparr>, Value (JV_bool True), False)
       | None \<Rightarrow> (sp, Value (JV_bool False), False))
   | Op_clear \<Rightarrow> (sp\<lparr>es_entries := map (\<lambda>_. None) (es_entries sp)\<rparr>, Value JV_undefined, False)
   | Op_size \<Rightarrow> (sp, Value (JS_NewUint32 (of_nat (length (filter (\<lambda>e. e \<noteq> None) (es_entries sp))))), False)
   | Op_iterator kind \<Rightarrow>
       (sp\<lparr>es_iters := (es_iters sp)(es_next_iter sp \<mapsto> \<lparr>es_kind = kind, es_index = Some 0\<rparr>),
           es_next_iter := Suc (es_next_iter sp)\<rparr>, Value (JV_object (es_next_iter sp)), False)
   | Op_next i \<Rightarrow> (case es_iters sp i of
         None \<Rightarrow> (sp, Exception, False)
       | Some it \<Rightarrow> (case es_index it of
             None \<Rightarrow> (sp, Value JV_undefined, True)
           | Some j \<Rightarrow> (case es_from (drop j (es_entries sp)) of
                 None \<Rightarrow> (sp\<lparr>es_iters := (es_iters sp)(i \<mapsto> it\<lparr>es_index := None\<rparr>)\<rparr>, Value JV_undefined, True)
               | Some (d, kv) \<Rightarrow>
                   (sp\<lparr>es_iters := (es_iters sp)(i \<mapsto> it\<lparr>es_index := Some (Suc (j + d))\<rparr>)\<rparr>,
                    es_result (es_kind it) magic kv, False))))
   | Op_drop i \<Rightarrow> (sp\<lparr>es_iters := (es_iters sp)(i := None)\<rparr>, Value JV_undefined, False))"

text \<open>The same operations on the code's side.\<close>

definition map_step :: "'m alloc \<Rightarrow> ('m \<Rightarrow> 'm \<times> bool) \<Rightarrow> nat \<Rightarrow> jsv \<Rightarrow> map_op \<Rightarrow> 'm map_store
    \<Rightarrow> ('m map_store \<times> js_result \<times> bool) option" where
  "map_step A B magic this_val p st =
    (let flat = map_option (\<lambda>(st, r). (st, r, False)) in case p of
     Op_set k v \<Rightarrow> flat (js_map_set A this_val k v magic st)
   | Op_get k \<Rightarrow> flat (js_map_get this_val k magic st)
   | Op_has k \<Rightarrow> flat (js_map_has this_val k magic st)
   | Op_delete k \<Rightarrow> flat (js_map_delete this_val k magic st)
   | Op_clear \<Rightarrow> flat (js_map_clear this_val magic st)
   | Op_size \<Rightarrow> flat (js_map_get_size this_val magic st)
   | Op_iterator kind \<Rightarrow> flat (Some (js_create_map_iterator A B this_val kind magic st))
   | Op_next i \<Rightarrow> js_map_iterator_next B (JV_object i) magic st
   | Op_drop i \<Rightarrow> map_option (\<lambda>st. (st, Value JV_undefined, False)) (js_map_iterator_finalizer i st))"

section \<open>The relation\<close>

type_synonym slot = "nat \<times> (jsv \<times> jsv) option"

definition occupied :: "slot \<Rightarrow> bool" where
  "occupied x \<longleftrightarrow> snd x \<noteq> None"

definition slot_key :: "slot \<Rightarrow> jsv" where
  "slot_key x = fst (the (snd x))"

text \<open>The record of a slot on which \<open>n\<close> locks are held.\<close>

definition slot_rec :: "nat \<Rightarrow> nat \<Rightarrow> (jsv \<times> jsv) option \<Rightarrow> JSMapRecord option" where
  "slot_rec m n e = (case e of
     Some (k, v) \<Rightarrow> Some \<lparr>mr_ref_count = 1 + int n, mr_empty = False, mr_map = m, mr_key = k, mr_value = v\<rparr>
   | None \<Rightarrow> if n = 0 then None
       else Some \<lparr>mr_ref_count = int n, mr_empty = True, mr_map = m, mr_key = JV_undefined, mr_value = JV_undefined\<rparr>)"

lemma slot_rec_None: "slot_rec m 0 None = None"
  by (simp add: slot_rec_def)

lemma slot_rec_Some: "slot_rec m n (Some (k, v))
    = Some \<lparr>mr_ref_count = 1 + int n, mr_empty = False, mr_map = m, mr_key = k, mr_value = v\<rparr>"
  by (simp add: slot_rec_def)

definition slots_ok :: "slot list \<Rightarrow> bool" where
  "slots_ok xs \<longleftrightarrow> distinct (map fst xs) \<and> (\<forall>x \<in> set xs. occupied x \<longrightarrow> map_key (slot_key x))
     \<and> distinct (map (key_val \<circ> slot_key) (filter occupied xs))"

definition linked :: "(nat \<Rightarrow> nat) \<Rightarrow> slot list \<Rightarrow> nat list" where
  "linked n xs = map fst (filter (\<lambda>x. occupied x \<or> 0 < n (fst x)) xs)"

definition bucket_of :: "u32 \<Rightarrow> slot list \<Rightarrow> nat \<Rightarrow> nat list" where
  "bucket_of sz xs h = map fst (filter (\<lambda>x. unat (map_hash_key (slot_key x) AND (sz - 1)) = h) (filter occupied xs))"

definition state_ok :: "slot list \<Rightarrow> (nat \<Rightarrow> nat) \<Rightarrow> JSMapState \<Rightarrow> bool" where
  "state_ok xs n s \<longleftrightarrow> \<not> ms_is_weak s \<and> ms_records s = linked n xs
     \<and> 0 < ms_hash_size s \<and> ms_hash_size s < 2 ^ 31
     \<and> ms_hash_table s = map (bucket_of (ms_hash_size s) xs) [0 ..< unat (ms_hash_size s)]
     \<and> ms_record_count s = of_nat (length (filter occupied xs))"

definition core :: "nat \<Rightarrow> nat \<Rightarrow> slot list \<Rightarrow> (nat \<Rightarrow> nat) \<Rightarrow> 'm map_store \<Rightarrow> bool" where
  "core m magic xs n st \<longleftrightarrow> (\<exists>s. map_objs st m = Some (magic, Some s) \<and> state_ok xs n s)
     \<and> slots_ok xs \<and> (\<forall>x \<in> set xs. fst x < next_rec st \<and> recs st (fst x) = slot_rec m (n (fst x)) (snd x))"

lemma coreE:
  assumes "core m magic xs n st"
  obtains s where "map_objs st m = Some (magic, Some s)" "map_of_obj st m = Some s" "state_ok xs n s" "slots_ok xs"
    "\<And>x. x \<in> set xs \<Longrightarrow> fst x < next_rec st" "\<And>x. x \<in> set xs \<Longrightarrow> recs st (fst x) = slot_rec m (n (fst x)) (snd x)"
  using assms unfolding core_def map_of_obj_def by auto

text \<open>What the operations leave alone.\<close>

lemma core_refs [simp]: "core m magic xs n (st\<lparr>refs := r\<rparr>) = core m magic xs n st"
  "core m magic xs n (st\<lparr>memory := y\<rparr>) = core m magic xs n st"
  "core m magic xs n (st\<lparr>pending_oom := b\<rparr>) = core m magic xs n st"
  "core m magic xs n (st\<lparr>iter_objs := f\<rparr>) = core m magic xs n st"
  "core m magic xs n (st\<lparr>next_obj := j\<rparr>) = core m magic xs n st"
  by (simp_all add: core_def)

section \<open>Finding a record\<close>

lemma find_hash_slots:
  assumes "\<forall>x \<in> set xs. occupied x \<and> recs st (fst x) = slot_rec m (n (fst x)) (snd x)"
  shows "find_hash st key (map fst xs)
    = Some (map_option fst (List.find (\<lambda>x. js_same_value_zero (slot_key x) key) xs))"
  using assms by (induction xs) (auto simp: slot_rec_def slot_key_def occupied_def)

lemma find_occupied:
  "List.find (\<lambda>x. js_same_value_zero (slot_key x) key) (filter occupied xs)
    = map_option (\<lambda>i. xs ! i) (es_find key (map snd xs))"
proof (induction xs)
  case (Cons x xs)
  then show ?case
    by (cases x; cases "snd x") (auto simp: occupied_def slot_key_def option.map_comp comp_def)
qed simp

lemma es_find_SomeD:
  "es_find key es = Some i \<Longrightarrow> i < length es \<and> (\<exists>k v. es ! i = Some (k, v) \<and> js_same_value_zero k key)"
  by (induction key es arbitrary: i rule: es_find.induct) (auto split: if_splits)

lemma and_mask_less:
  assumes "0 < (sz :: u32)"
  shows "unat (h AND (sz - 1)) < unat sz"
proof -
  have "unat (h AND (sz - 1)) \<le> unat (sz - 1)" by (simp add: word_le_nat_alt [symmetric] word_and_le1)
  also have "\<dots> < unat sz" using assms by (simp add: unat_minus_one unat_gt_0)
  finally show ?thesis .
qed

lemma map_find_record_eq:
  assumes "core m magic xs n st" "map_of_obj st m = Some s" "map_key key"
  shows "map_find_record st s key = Some (map_option (\<lambda>i. fst (xs ! i)) (es_find key (map snd xs)))"
proof -
  from assms(1,2) have s: "state_ok xs n s" and ok: "slots_ok xs"
    and r: "\<And>x. x \<in> set xs \<Longrightarrow> recs st (fst x) = slot_rec m (n (fst x)) (snd x)"
    by (auto elim: coreE)
  let ?f = "\<lambda>h. unat (h AND (ms_hash_size s - 1))"
  let ?b = "filter (\<lambda>x. ?f (map_hash_key (slot_key x)) = ?f (map_hash_key key)) (filter occupied xs)"
  have "?f (map_hash_key key) < unat (ms_hash_size s)" using s by (simp add: and_mask_less state_ok_def)
  then have "table_slot (ms_hash_table s) (map_hash_key key AND (ms_hash_size s - 1)) = Some (map fst ?b)"
    using s by (simp add: table_slot_def state_ok_def bucket_of_def)
  moreover have "find_hash st key (map fst ?b) = Some (map_option fst (List.find (\<lambda>x. js_same_value_zero (slot_key x) key) ?b))"
    by (rule find_hash_slots) (use r in auto)
  moreover have "List.find (\<lambda>x. js_same_value_zero (slot_key x) key) ?b
      = List.find (\<lambda>x. js_same_value_zero (slot_key x) key) (filter occupied xs)"
    by (rule keys.find_in_bucket) (use ok assms(3) in \<open>auto simp: slots_ok_def\<close>)
  ultimately show ?thesis
    by (simp add: map_find_record_def find_occupied option.map_comp comp_def)
qed

section \<open>The elementary changes\<close>

lemma bucket_append:
  "bucket_of sz (xs @ [(a, Some (k, v))]) h
    = bucket_of sz xs h @ (if unat (map_hash_key k AND (sz - 1)) = h then [a] else [])"
  by (simp add: bucket_of_def occupied_def slot_key_def)

lemma add_tail_bucket:
  assumes "0 < sz"
  shows "table_add_tail (map (bucket_of sz xs) [0 ..< unat sz]) (map_hash_key k AND (sz - 1)) a
    = Some (map (bucket_of sz (xs @ [(a, Some (k, v))])) [0 ..< unat sz])"
  using and_mask_less [OF assms, of "map_hash_key k"]
  by (auto simp: table_add_tail_def table_slot_def bucket_append nth_list_update intro!: nth_equalityI)

lemma linked_snoc: "linked n (xs @ [(a, Some kv)]) = linked n xs @ [a]"
  by (simp add: linked_def occupied_def)

lemma unlink_filter:
  assumes "distinct (map fst xs)"
  shows "remove1 a (map fst (filter P xs)) = map fst (filter (\<lambda>x. P x \<and> fst x \<noteq> a) xs)"
proof -
  have "distinct (map fst (filter P xs))" using assms by (simp add: distinct_map_filter)
  then show ?thesis
    by (simp add: distinct_remove1_removeAll removeAll_filter_not_eq filter_map comp_def conj_commute)
      (metis (mono_tags, lifting) filter_cong)
qed

lemma slot_iff: "distinct (map fst xs) \<Longrightarrow> (a, e) \<in> set xs \<Longrightarrow> (a, e') \<in> set xs \<longleftrightarrow> e' = e"
  by (metis eq_key_imp_eq_value)

lemma linked_unlock:
  assumes "distinct (map fst xs)" "(a, None) \<in> set xs"
  shows "linked (n(a := 0)) xs = remove1 a (linked n xs)"
proof -
  have "(\<forall>x \<in> set xs. (occupied x \<or> 0 < (n(a := 0)) (fst x)) = ((occupied x \<or> 0 < n (fst x)) \<and> fst x \<noteq> a))"
    by (auto simp: occupied_def slot_iff [OF assms(1,2)])
  then show ?thesis unfolding linked_def unlink_filter [OF assms(1)]
    by (intro arg_cong [where f = "map fst"] filter_cong) auto
qed

lemma put_map_simps [simp]:
  "map_objs st m = Some (c, x) \<Longrightarrow> map_objs (put_map m s st) = (map_objs st)(m \<mapsto> (c, Some s))"
  "recs (put_map m s st) = recs st" "next_rec (put_map m s st) = next_rec st" "refs (put_map m s st) = refs st"
  "iter_objs (put_map m s st) = iter_objs st" "next_obj (put_map m s st) = next_obj st"
  "memory (put_map m s st) = memory st"
  by (simp_all add: put_map_def split: option.splits prod.splits)

lemma put_rec_simps [simp]:
  "map_objs (put_rec a r st) = map_objs st" "recs (put_rec a r st) = (recs st)(a \<mapsto> r)"
  "next_rec (put_rec a r st) = next_rec st" "refs (put_rec a r st) = refs st"
  "iter_objs (put_rec a r st) = iter_objs st" "next_obj (put_rec a r st) = next_obj st"
  "map_objs (free_rec a st) = map_objs st" "recs (free_rec a st) = (recs st)(a := None)"
  "next_rec (free_rec a st) = next_rec st" "refs (free_rec a st) = refs st"
  "iter_objs (free_rec a st) = iter_objs st" "next_obj (free_rec a st) = next_obj st"
  by (simp_all add: put_rec_def free_rec_def)

lemma value_simps [simp]:
  "map_objs (JS_FreeValue v st) = map_objs st" "recs (JS_FreeValue v st) = recs st"
  "next_rec (JS_FreeValue v st) = next_rec st" "iter_objs (JS_FreeValue v st) = iter_objs st"
  "next_obj (JS_FreeValue v st) = next_obj st" "memory (JS_FreeValue v st) = memory st"
  "map_objs (JS_DupValue v st) = map_objs st" "recs (JS_DupValue v st) = recs st"
  "next_rec (JS_DupValue v st) = next_rec st" "iter_objs (JS_DupValue v st) = iter_objs st"
  "next_obj (JS_DupValue v st) = next_obj st" "memory (JS_DupValue v st) = memory st"
  by (simp_all add: JS_FreeValue_def JS_DupValue_def)

lemma core_lock:
  assumes "core m magic xs n st" "(a, Some (k, v)) \<in> set xs"
  defines "mr \<equiv> \<lparr>mr_ref_count = 1 + int (n a), mr_empty = False, mr_map = m, mr_key = k, mr_value = v\<rparr>"
  shows "recs st a = Some mr" "core m magic xs (n(a := Suc (n a))) (put_rec a (mr\<lparr>mr_ref_count := mr_ref_count mr + 1\<rparr>) st)"
proof -
  from assms(1) obtain s where s: "map_objs st m = Some (magic, Some s)" "state_ok xs n s" "slots_ok xs"
    and r: "\<And>x. x \<in> set xs \<Longrightarrow> fst x < next_rec st" "\<And>x. x \<in> set xs \<Longrightarrow> recs st (fst x) = slot_rec m (n (fst x)) (snd x)"
    by (rule coreE) blast
  show "recs st a = Some mr" using r(2) [OF assms(2)] by (simp add: slot_rec_def mr_def)
  have d: "distinct (map fst xs)" using s(3) by (simp add: slots_ok_def)
  have "linked (n(a := Suc (n a))) xs = linked n xs"
    unfolding linked_def
    by (intro arg_cong [where f = "map fst"] filter_cong) (auto simp: occupied_def slot_iff [OF d assms(2)])
  then have "state_ok xs (n(a := Suc (n a))) s" using s(2) by (simp add: state_ok_def)
  then show "core m magic xs (n(a := Suc (n a))) (put_rec a (mr\<lparr>mr_ref_count := mr_ref_count mr + 1\<rparr>) st)"
    using s(1,3) r by (auto simp: core_def mr_def slot_rec_Some slot_iff [OF d assms(2)])
qed

text \<open>What a change of the records leaves alone.\<close>

definition frame :: "'m map_store \<Rightarrow> 'm map_store \<Rightarrow> bool" where
  "frame st st' \<longleftrightarrow> iter_objs st' = iter_objs st \<and> next_obj st' = next_obj st"

lemma core_decref:
  assumes "core m magic xs n st" "(a, e) \<in> set xs" "0 < n a"
  shows "\<exists>st'. map_decref_record a st = Some st' \<and> core m magic xs (n(a := n a - 1)) st'
    \<and> frame st st' \<and> refs st' = refs st \<and> next_rec st' = next_rec st"
proof -
  from assms(1) obtain s where s: "map_objs st m = Some (magic, Some s)" "map_of_obj st m = Some s" "state_ok xs n s" "slots_ok xs"
    and r: "\<And>x. x \<in> set xs \<Longrightarrow> fst x < next_rec st" "\<And>x. x \<in> set xs \<Longrightarrow> recs st (fst x) = slot_rec m (n (fst x)) (snd x)"
    by (rule coreE) blast
  have d: "distinct (map fst xs)" using s(4) by (simp add: slots_ok_def)
  note u = slot_iff [OF d assms(2)]
  have ra: "recs st a = slot_rec m (n a) e" using r(2) [OF assms(2)] by simp
  show ?thesis
  proof (cases "e = None \<and> n a = 1")
    case True
    then have mr: "recs st a = Some \<lparr>mr_ref_count = 1, mr_empty = True, mr_map = m, mr_key = JV_undefined, mr_value = JV_undefined\<rparr>"
      using ra by (simp add: slot_rec_def)
    let ?st = "free_rec a (put_map m (unlink_record a s) st)"
    have "map_decref_record a st = Some ?st" by (simp add: map_decref_record_def mr s(2))
    moreover have "linked (n(a := 0)) xs = remove1 a (linked n xs)"
      by (rule linked_unlock [OF d]) (use True assms(2) in simp)
    then have "state_ok xs (n(a := 0)) (unlink_record a s)"
      using s(3) by (simp add: state_ok_def unlink_record_def)
    then have "core m magic xs (n(a := n a - 1)) ?st"
      using s r True by (auto simp: core_def slot_rec_None u)
    ultimately show ?thesis by (simp add: frame_def)
  next
    case False
    then obtain mr where mr: "slot_rec m (n a) e = Some mr" "mr_ref_count mr - 1 \<noteq> 0"
      using assms(3) by (cases e) (auto simp: slot_rec_def)
    let ?st = "put_rec a (mr\<lparr>mr_ref_count := mr_ref_count mr - 1\<rparr>) st"
    have dec: "map_decref_record a st = Some ?st" using mr by (simp add: map_decref_record_def ra Let_def)
    have l: "linked (n(a := n a - 1)) xs = linked n xs"
      unfolding linked_def using False assms(3)
      by (intro arg_cong [where f = "map fst"] filter_cong) (auto simp: occupied_def u)
    have "slot_rec m (n a - 1) e = Some (mr\<lparr>mr_ref_count := mr_ref_count mr - 1\<rparr>)"
      using mr False assms(3) by (auto simp: slot_rec_def of_nat_diff split: option.splits if_splits)
    then have "core m magic xs (n(a := n a - 1)) ?st"
      using s r l by (auto simp: core_def state_ok_def u)
    with dec show ?thesis by (simp add: frame_def)
  qed
qed

lemma core_refs_ops [simp]: "core m magic xs n (JS_DupValue v st) = core m magic xs n st"
  "core m magic xs n (JS_FreeValue v st) = core m magic xs n st"
  by (simp_all add: JS_DupValue_def JS_FreeValue_def)

lemma slots_ok_value: "slots_ok (ys @ (a, Some (k, v')) # zs) = slots_ok (ys @ (a, Some (k, v)) # zs)"
  by (simp add: slots_ok_def occupied_def slot_key_def)

lemma slots_ok_delete: "slots_ok (ys @ (a, Some kv) # zs) \<Longrightarrow> slots_ok (ys @ (a, None) # zs)"
  unfolding slots_ok_def by (simp add: occupied_def [of "(a, None)"] occupied_def [of "(a, Some kv)"])

text \<open>Storing another value.\<close>

lemma core_set_value:
  assumes "core m magic (ys @ (a, Some (k, v)) # zs) n st"
  shows "\<exists>mr. recs st a = Some mr \<and> mr_key mr = k \<and> mr_value mr = v
    \<and> core m magic (ys @ (a, Some (k, v')) # zs) n (put_rec a (mr\<lparr>mr_value := v'\<rparr>) st)"
proof -
  let ?xs = "ys @ (a, Some (k, v)) # zs" and ?xs' = "ys @ (a, Some (k, v')) # zs"
  from assms obtain s where s: "map_objs st m = Some (magic, Some s)" "state_ok ?xs n s" "slots_ok ?xs"
    and r: "\<And>x. x \<in> set ?xs \<Longrightarrow> fst x < next_rec st" "\<And>x. x \<in> set ?xs \<Longrightarrow> recs st (fst x) = slot_rec m (n (fst x)) (snd x)"
    by (rule coreE) blast
  have d: "a \<notin> fst ` set ys" "a \<notin> fst ` set zs" using s(3) by (auto simp: slots_ok_def)
  have b: "bucket_of sz ?xs' h = bucket_of sz ?xs h" for sz h
    by (simp add: bucket_of_def occupied_def slot_key_def)
  have "bucket_of (ms_hash_size s) ?xs' = bucket_of (ms_hash_size s) ?xs" using b by (intro ext)
  then have "state_ok ?xs' n s" using s(2) by (simp add: state_ok_def linked_def occupied_def)
  moreover have "slots_ok ?xs'" using s(3) by (subst slots_ok_value)
  moreover have "recs st a = slot_rec m (n a) (Some (k, v))" using r(2) [of "(a, Some (k, v))"] by simp
  ultimately show ?thesis using s(1) r d by (force simp: core_def slot_rec_Some)
qed

text \<open>Deleting an entry, which keeps the record while it is locked.\<close>

lemma bucket_delete:
  assumes "slots_ok (ys @ (a, Some kv) # zs)"
  shows "bucket_of sz (ys @ (a, None) # zs) h = remove1 a (bucket_of sz (ys @ (a, Some kv) # zs) h)"
proof -
  have "a \<notin> fst ` set ys" "a \<notin> fst ` set zs" using assms by (auto simp: slots_ok_def)
  moreover from this have "a \<notin> set (map fst (filter P (filter occupied ys)))" "a \<notin> set (map fst (filter P (filter occupied zs)))" for P
    by (auto simp: image_iff)
  ultimately show ?thesis by (auto simp: bucket_of_def occupied_def remove1_append remove1_idem)
qed

lemma linked_delete:
  assumes "slots_ok (ys @ (a, Some kv) # zs)"
  shows "linked n (ys @ (a, None) # zs) =
    (if n a = 0 then remove1 a (linked n (ys @ (a, Some kv) # zs)) else linked n (ys @ (a, Some kv) # zs))"
proof -
  have "a \<notin> fst ` set ys" "a \<notin> fst ` set zs" using assms by (auto simp: slots_ok_def)
  moreover from this have "a \<notin> set (map fst (filter P ys))" "a \<notin> set (map fst (filter P zs))" for P
    by (auto simp: image_iff)
  ultimately show ?thesis by (auto simp: linked_def occupied_def remove1_append remove1_idem)
qed

lemma core_delete:
  assumes "core m magic (ys @ (a, Some (k, v)) # zs) n st"
  shows "\<exists>st'. map_delete_record m a st = Some st' \<and> core m magic (ys @ (a, None) # zs) n st'
    \<and> frame st st' \<and> refs st' = refs (JS_FreeValue v (JS_FreeValue k st)) \<and> next_rec st' = next_rec st"
proof -
  let ?xs = "ys @ (a, Some (k, v)) # zs" and ?xs' = "ys @ (a, None) # zs"
  from assms obtain s where s: "map_objs st m = Some (magic, Some s)" "map_of_obj st m = Some s" "state_ok ?xs n s" "slots_ok ?xs"
    and r: "\<And>x. x \<in> set ?xs \<Longrightarrow> fst x < next_rec st" "\<And>x. x \<in> set ?xs \<Longrightarrow> recs st (fst x) = slot_rec m (n (fst x)) (snd x)"
    by (rule coreE) blast
  have d: "a \<notin> fst ` set ys" "a \<notin> fst ` set zs" using s(4) by (auto simp: slots_ok_def)
  define mr where "mr = \<lparr>mr_ref_count = 1 + int (n a), mr_empty = False, mr_map = m, mr_key = k, mr_value = v\<rparr>"
  have ra: "recs st a = Some mr" using r(2) [of "(a, Some (k, v))"] by (simp add: slot_rec_Some mr_def)
  define s' where "s' = (let s = unlink_hash a s in
    (if n a = 0 then unlink_record a s else s)\<lparr>ms_record_count := ms_record_count s - 1\<rparr>)"
  define st' where "st' = put_map m s' ((if n a = 0 then free_rec a else
      put_rec a (mr\<lparr>mr_ref_count := int (n a), mr_empty := True, mr_key := JV_undefined, mr_value := JV_undefined\<rparr>))
      (JS_FreeValue v (JS_FreeValue k st)))"
  have ok': "slots_ok ?xs'" using s(4) by (rule slots_ok_delete)
  have b: "map (bucket_of (ms_hash_size s) ?xs') [0 ..< unat (ms_hash_size s)]
      = map (remove1 a) (map (bucket_of (ms_hash_size s) ?xs) [0 ..< unat (ms_hash_size s)])"
    using bucket_delete [OF s(4)] by simp
  have "state_ok ?xs' n s'"
    using s(3) b linked_delete [OF s(4), of n]
    by (auto simp: state_ok_def s'_def unlink_hash_def unlink_record_def Let_def occupied_def comp_def)
  then have "core m magic ?xs' n st'"
    using s(1) ok' r d by (force simp: core_def st'_def slot_rec_def mr_def)
  moreover have "map_delete_record m a st = Some st'"
    using s(1,3)
    by (simp add: map_delete_record_def ra map_of_obj_def st'_def s'_def mr_def put_map_def free_rec_def put_rec_def
        state_ok_def unlink_hash_def unlink_record_def JS_FreeValue_def Let_def)
  moreover have "frame st st' \<and> refs st' = refs (JS_FreeValue v (JS_FreeValue k st)) \<and> next_rec st' = next_rec st"
    by (simp add: frame_def st'_def)
  ultimately show ?thesis by blast
qed

section \<open>Growing and adding\<close>

text \<open>An allocator of blocks below 16 GiB: the table sizes stay below \<open>2 ^ 30\<close>.\<close>

locale block_allocator = allocator +
  assumes block_limit: "A y n = (y', Some k) \<Longrightarrow> n + k < 2 ^ 34"

definition limited :: "unit alloc" where
  "limited = (\<lambda>y n. (y, if n < 2 ^ 34 then Some 0 else None))"

interpretation limited: block_allocator limited
  by unfold_locales (auto simp: limited_def split: if_splits)

lemma rehash_slots:
  assumes "0 < sz" "\<forall>x \<in> set ys. recs st (fst x) = slot_rec m (n (fst x)) (snd x)"
  shows "rehash st sz (linked n ys) (map (bucket_of sz xs) [0 ..< unat sz])
    = Some (map (bucket_of sz (xs @ ys)) [0 ..< unat sz])"
  using assms(2)
proof (induction ys arbitrary: xs)
  case (Cons y ys)
  obtain a e where y: "y = (a, e)" by (cases y)
  have r: "recs st a = slot_rec m (n a) e" using Cons.prems y by simp
  have IH: "rehash st sz (linked n ys) (map (bucket_of sz xs) [0 ..< unat sz])
      = Some (map (bucket_of sz (xs @ ys)) [0 ..< unat sz])" for xs
    by (rule Cons.IH) (use Cons.prems in simp)
  show ?case
  proof (cases e)
    case None
    have "bucket_of sz (xs @ y # ys) = bucket_of sz (xs @ ys)"
      by (intro ext) (simp add: bucket_of_def y None occupied_def)
    then show ?thesis using IH [of xs] r
      by (simp add: y None linked_def occupied_def slot_rec_def)
  next
    case (Some kv)
    obtain k v where kv: "kv = (k, v)" by (cases kv)
    have "xs @ y # ys = (xs @ [(a, Some (k, v))]) @ ys" by (simp add: y Some kv)
    then show ?thesis using IH [of "xs @ [(a, Some (k, v))]"] r add_tail_bucket [OF assms(1), of xs k a v]
      by (simp add: y Some kv linked_def occupied_def slot_rec_def)
  qed
qed (simp add: linked_def)

lemma store_alloc_simps:
  assumes "store_alloc A z st = (st', r)"
  shows "map_objs st' = map_objs st" "recs st' = recs st" "next_rec st' = next_rec st" "refs st' = refs st"
    "iter_objs st' = iter_objs st" "next_obj st' = next_obj st"
    "core m magic xs n st' = core m magic xs n st" "map_of_obj st' m = map_of_obj st m"
  using assms by (auto simp: store_alloc_def map_of_obj_def core_def split: prod.splits option.splits)

context block_allocator
begin

lemma new_table_size:
  assumes "store_alloc A (sizeof_list_head * uint (z :: u32)) st = (st', Some slack)" "0 < z"
  shows "0 < z + word_of_int (slack div sizeof_list_head)" "z + word_of_int (slack div sizeof_list_head) < 2 ^ 31"
proof -
  from assms(1) obtain y' where a: "A (memory st) (16 * uint z) = (y', Some slack)"
    by (auto simp: store_alloc_def sizeof_list_head_def split: prod.splits option.splits)
  let ?q = "slack div 16"
  have q: "0 \<le> ?q" "16 * uint z + 16 * ?q < 2 ^ 34"
    using slack_nonneg [OF a] block_limit [OF a] by (simp_all add: pos_imp_zdiv_nonneg_iff)
  then have u: "uint z + ?q < 2 ^ 30" by simp
  have z: "0 < uint z" using assms(2) by (simp add: word_less_def)
  have "uint (z + word_of_int ?q) = uint z + ?q"
    using q u z by (simp add: uint_word_ariths uint_word_of_int)
  then show "0 < z + word_of_int (slack div sizeof_list_head)" "z + word_of_int (slack div sizeof_list_head) < 2 ^ 31"
    using u z q by (simp_all add: word_less_def sizeof_list_head_def)
qed

lemma core_resize:
  assumes "core m magic xs n st"
  shows "\<exists>st'. map_hash_resize A m st = Some st' \<and> core m magic xs n st'
    \<and> frame st st' \<and> refs st' = refs st \<and> next_rec st' = next_rec st \<and> recs st' = recs st"
proof -
  from assms obtain s where s: "map_objs st m = Some (magic, Some s)" "map_of_obj st m = Some s" "state_ok xs n s" "slots_ok xs"
    and r: "\<And>x. x \<in> set xs \<Longrightarrow> fst x < next_rec st" "\<And>x. x \<in> set xs \<Longrightarrow> recs st (fst x) = slot_rec m (n (fst x)) (snd x)"
    by (rule coreE) blast
  define z where "z = (if ms_hash_size s = 1 then 4 else ms_hash_size s * 2)"
  have zpos: "0 < z"
  proof -
    have "unat (ms_hash_size s) < 2 ^ 31" "0 < unat (ms_hash_size s)"
      using s(3) by (simp_all add: state_ok_def word_less_nat_alt)
    then have "unat (ms_hash_size s * 2) = unat (ms_hash_size s) * 2"
      by (subst unat_mult_lem [THEN iffD1]) simp_all
    with \<open>0 < unat (ms_hash_size s)\<close> show ?thesis by (simp add: z_def word_less_nat_alt)
  qed
  obtain st1 o1 where al: "store_alloc A (sizeof_list_head * uint z) st = (st1, o1)" by (cases "store_alloc A (sizeof_list_head * uint z) st")
  note f = store_alloc_simps [OF al]
  show ?thesis
  proof (cases o1)
    case None
    then show ?thesis using al f assms s(2) by (simp add: map_hash_resize_def z_def [symmetric] frame_def Let_def)
  next
    case (Some slack)
    define z' where "z' = z + word_of_int (slack div sizeof_list_head)"
    have z': "0 < z'" "z' < 2 ^ 31" unfolding z'_def using new_table_size [OF al [unfolded Some] zpos] by simp_all
    have "replicate (unat z') [] = map (bucket_of z' []) [0 ..< unat z']"
      by (rule nth_equalityI) (simp_all add: bucket_of_def)
    then have t: "rehash st1 z' (ms_records s) (replicate (unat z') []) = Some (map (bucket_of z' xs) [0 ..< unat z'])"
      using rehash_slots [OF z'(1), of xs st1 m n "[]"] r s(3) f by (simp add: state_ok_def)
    define s' where "s' = s\<lparr>ms_hash_table := map (bucket_of z' xs) [0 ..< unat z'], ms_hash_size := z', ms_threshold := z' * 2\<rparr>"
    have "map_hash_resize A m st = Some (put_map m s' st1)"
      using al s(2) t by (simp add: map_hash_resize_def z_def [symmetric] Some z'_def [symmetric] s'_def Let_def del: distrib_right_numeral)
    moreover have "state_ok xs n s'" using s(3) z' by (simp add: state_ok_def s'_def)
    then have "core m magic xs n (put_map m s' st1)" using s r f by (auto simp: core_def)
    ultimately show ?thesis using f by (simp add: frame_def)
  qed
qed

end

lemma slots_ok_add:
  assumes "slots_ok xs" "a \<notin> fst ` set xs" "map_key k" "es_find k (map snd xs) = None"
  shows "slots_ok (xs @ [(a, Some (k, v))])"
proof -
  have "List.find (\<lambda>x. js_same_value_zero (slot_key x) k) (filter occupied xs) = None"
    using assms(4) by (simp add: find_occupied)
  then have "\<forall>x \<in> set xs. occupied x \<longrightarrow> \<not> js_same_value_zero (slot_key x) k"
    by (auto simp: find_None_iff)
  moreover have "\<forall>x \<in> set xs. occupied x \<longrightarrow> map_key (slot_key x)" using assms(1) by (simp add: slots_ok_def)
  ultimately have "\<forall>x \<in> set xs. occupied x \<longrightarrow> key_val (slot_key x) \<noteq> key_val k"
    using same_value_zero_iff assms(3) by blast
  then show ?thesis using assms(1-3) by (auto simp: slots_ok_def occupied_def slot_key_def)
qed

context block_allocator
begin

lemma core_add:
  assumes "core m magic xs n st" "map_key k" "es_find k (map snd xs) = None" "n (next_rec st) = 0"
  shows "\<exists>st' r. map_add_record A m k st = Some (st', r) \<and> frame st st' \<and>
    (case r of
       None \<Rightarrow> core m magic xs n st' \<and> refs st' = refs st \<and> next_rec st' = next_rec st \<and> refuses A
     | Some a \<Rightarrow> a = next_rec st \<and> core m magic (xs @ [(a, Some (k, JV_undefined))]) n st'
         \<and> refs st' = refs (JS_DupValue k st) \<and> next_rec st' = Suc a)"
proof -
  from assms(1) obtain s where s: "map_objs st m = Some (magic, Some s)" "map_of_obj st m = Some s" "state_ok xs n s" "slots_ok xs"
    and r: "\<And>x. x \<in> set xs \<Longrightarrow> fst x < next_rec st" "\<And>x. x \<in> set xs \<Longrightarrow> recs st (fst x) = slot_rec m (n (fst x)) (snd x)"
    by (rule coreE) blast
  obtain st1 o1 where al: "store_alloc A sizeof_JSMapRecord st = (st1, o1)" by (cases "store_alloc A sizeof_JSMapRecord st")
  note f = store_alloc_simps [OF al]
  show ?thesis
  proof (cases o1)
    case None
    then have "refuses A" using al by (auto simp: store_alloc_def split: prod.splits option.splits intro: refusesI)
    with None show ?thesis using al f assms(1) s(2) by (simp add: map_add_record_def frame_def)
  next
    case (Some slack)
    let ?a = "next_rec st" and ?xs = "xs @ [(next_rec st, Some (k, JV_undefined))]"
    have fresh: "?a \<notin> fst ` set xs" using r(1) by force
    have ok: "slots_ok ?xs" by (rule slots_ok_add [OF s(4) fresh assms(2,3)])
    define mr where "mr = \<lparr>mr_ref_count = 1, mr_empty = False, mr_map = m, mr_key = k, mr_value = JV_undefined\<rparr>"
    define s1 where "s1 = s\<lparr>ms_hash_table := map (bucket_of (ms_hash_size s) ?xs) [0 ..< unat (ms_hash_size s)],
      ms_records := ms_records s @ [?a], ms_record_count := ms_record_count s + 1\<rparr>"
    define st2 where "st2 = put_map m s1 ((put_rec ?a mr (JS_DupValue k st1))\<lparr>next_rec := Suc ?a\<rparr>)"
    have t: "table_add_tail (ms_hash_table s) (map_hash_key k AND (ms_hash_size s - 1)) ?a = Some (ms_hash_table s1)"
      using s(3) add_tail_bucket [of "ms_hash_size s" xs k ?a JV_undefined] by (simp add: state_ok_def s1_def)
    have "state_ok ?xs n s1"
      using s(3) by (simp add: state_ok_def s1_def linked_snoc occupied_def)
    then have c2: "core m magic ?xs n st2"
      using s r f ok fresh assms(4) by (force simp: core_def st2_def slot_rec_Some mr_def less_SucI)
    have fr2: "frame st st2 \<and> refs st2 = refs (JS_DupValue k st) \<and> next_rec st2 = Suc ?a"
      using f s(1) by (simp add: frame_def st2_def JS_DupValue_def)
    have add: "map_add_record A m k st = (if ms_record_count s1 \<ge> ms_threshold s1
        then map_option (\<lambda>st. (st, Some ?a)) (map_hash_resize A m st2) else Some (st2, Some ?a))"
      using al s t f by (simp add: map_add_record_def Some st2_def s1_def [symmetric] mr_def state_ok_def Let_def)
        (simp add: s1_def map_conv_bind_option comp_def)
    from core_resize [OF c2] obtain st3 where st3: "map_hash_resize A m st2 = Some st3" "core m magic ?xs n st3"
      "frame st2 st3" "refs st3 = refs st2" "next_rec st3 = next_rec st2" by blast
    show ?thesis
    proof (cases "ms_record_count s1 \<ge> ms_threshold s1")
      case True
      then show ?thesis unfolding add using st3 fr2 by (simp add: frame_def)
    next
      case False
      then show ?thesis unfolding add using c2 fr2 by simp
    qed
  qed
qed

end

end
