(* ===== verification/MapSetRefine.thy ===== *)
theory MapSetRefine
  imports MapSetProofs
begin

text \<open>
  The methods and iterators of \<open>Map\<close> and \<open>Set\<close> refine the specification: \<open>represents\<close> relates a store
  to a map of the specification, the locks on a record being the iterators that stand on it, and
  accounts for every reference the map and its iterators hold.
\<close>

section \<open>Stores that represent a map\<close>

definition iter_cur :: "'m map_store \<Rightarrow> nat \<Rightarrow> nat option" where
  "iter_cur st i = (case iter_objs st i of Some (_, Some it) \<Rightarrow> it_cur_record it | _ \<Rightarrow> None)"

definition iter_locks :: "'m map_store \<Rightarrow> nat \<Rightarrow> nat" where
  "iter_locks st a = card {i. iter_cur st i = Some a}"

definition other_locks :: "'m map_store \<Rightarrow> nat \<Rightarrow> nat \<Rightarrow> nat" where
  "other_locks st i a = card ({k. iter_cur st k = Some a} - {i})"

text \<open>An iterator at index \<open>j\<close> of the specification stands on the record of the entry before it.\<close>

definition iter_rel :: "nat \<Rightarrow> nat \<Rightarrow> nat list \<Rightarrow> (nat \<times> JSMapIteratorData option) option \<Rightarrow> es_iter option \<Rightarrow> bool" where
  "iter_rel m magic as x e = (case e of
     None \<Rightarrow> x = None
   | Some e \<Rightarrow> (\<exists>it. x = Some (magic, Some it) \<and> it_kind it = es_kind e \<and>
       (case es_index e of
          None \<Rightarrow> it_obj it = JV_undefined \<and> it_cur_record it = None
        | Some j \<Rightarrow> it_obj it = JV_object m \<and> j \<le> length as
            \<and> it_cur_record it = (if j = 0 then None else Some (as ! (j - 1))))))"

text \<open>The references held by the entries, and by the iterators that are not finished.\<close>

definition entry_refs :: "(jsv \<times> jsv) option list \<Rightarrow> jsv \<Rightarrow> int" where
  "entry_refs es v = (\<Sum>e \<leftarrow> es. case e of None \<Rightarrow> 0 | Some (k, w) \<Rightarrow> of_bool (k = v) + of_bool (w = v))"

definition unfinished :: "es_iter option \<Rightarrow> bool" where
  "unfinished e = (case e of None \<Rightarrow> False | Some e \<Rightarrow> es_index e \<noteq> None)"

definition running :: "(nat \<Rightarrow> es_iter option) \<Rightarrow> nat set" where
  "running f = {i. unfinished (f i)}"

definition map_refs :: "nat \<Rightarrow> es_map \<Rightarrow> jsv \<Rightarrow> int" where
  "map_refs m sp v = entry_refs (es_entries sp) v + of_bool (v = JV_object m) * int (card (running (es_iters sp)))"

text \<open>\<open>ext\<close> counts the references held outside: by the program's variables, other objects, ...\<close>

definition represents :: "nat \<Rightarrow> nat \<Rightarrow> (jsv \<Rightarrow> int) \<Rightarrow> 'm map_store \<Rightarrow> es_map \<Rightarrow> bool" where
  "represents m magic ext st sp \<longleftrightarrow>
    (\<exists>xs. es_entries sp = map snd xs \<and> core m magic xs (iter_locks st) st
       \<and> (\<forall>i. iter_rel m magic (map fst xs) (iter_objs st i) (es_iters sp i)))
    \<and> finite {i. es_iters sp i \<noteq> None} \<and> (\<forall>i \<ge> next_obj st. es_iters sp i = None) \<and> es_next_iter sp = next_obj st
    \<and> (\<forall>v. counted v \<longrightarrow> refs st v = ext v + map_refs m sp v)"

text \<open>The references a result hands out.\<close>

definition result_refs :: "js_result \<Rightarrow> jsv \<Rightarrow> int" where
  "result_refs r v = (case r of
     Exception \<Rightarrow> 0
   | Value w \<Rightarrow> of_bool (w = v)
   | Pair_array a b \<Rightarrow> of_bool (a = v) + of_bool (b = v))"

definition refuses_objects :: "('m \<Rightarrow> 'm \<times> bool) \<Rightarrow> bool" where
  "refuses_objects B \<longleftrightarrow> (\<exists>y. \<not> snd (B y))"

lemma dup_refs: "counted w \<Longrightarrow> refs (JS_DupValue v st) w = refs st w + of_bool (v = w)"
  by (auto simp: JS_DupValue_def)

lemma free_refs: "counted w \<Longrightarrow> refs (JS_FreeValue v st) w = refs st w - of_bool (v = w)"
  by (auto simp: JS_FreeValue_def)

lemma not_counted [simp]: "counted JV_undefined = False" "counted (JV_bool b) = False" "counted (JV_int i) = False"
  by (simp_all add: counted_def)

section \<open>Locks of the iterators\<close>

lemma finite_cur:
  assumes "finite {i. e i \<noteq> None}" "\<forall>i. iter_rel m magic as (iter_objs st i) (e i)"
  shows "finite {k. iter_cur st k = Some a}"
proof (rule finite_subset [OF _ assms(1)])
  show "{k. iter_cur st k = Some a} \<subseteq> {i. e i \<noteq> None}"
  proof (intro subsetI CollectI notI)
    fix k assume k: "k \<in> {k. iter_cur st k = Some a}" and "e k = None"
    from assms(2) have "iter_rel m magic as (iter_objs st k) (e k)" by blast
    with \<open>e k = None\<close> have "iter_objs st k = None" by (simp add: iter_rel_def)
    with k show False by (simp add: iter_cur_def)
  qed
qed

lemma iter_locks_split:
  assumes "\<And>a. finite {k. iter_cur st k = Some a}"
  shows "iter_locks st = (case iter_cur st i of None \<Rightarrow> other_locks st i
    | Some a \<Rightarrow> (other_locks st i)(a := Suc (other_locks st i a)))"
proof
  fix b
  have "iter_locks st b = (if iter_cur st i = Some b then Suc (other_locks st i b) else other_locks st i b)"
  proof (cases "iter_cur st i = Some b")
    case True
    then have "i \<in> {k. iter_cur st k = Some b}" by simp
    from card_Suc_Diff1 [OF assms this] True show ?thesis by (simp add: iter_locks_def other_locks_def)
  next
    case False
    then have "{k. iter_cur st k = Some b} - {i} = {k. iter_cur st k = Some b}" by blast
    with False show ?thesis by (simp add: iter_locks_def other_locks_def)
  qed
  then show "iter_locks st b = (case iter_cur st i of None \<Rightarrow> other_locks st i
    | Some a \<Rightarrow> (other_locks st i)(a := Suc (other_locks st i a))) b"
    by (cases "iter_cur st i") auto
qed

lemma other_locks_upd:
  assumes "iter_objs st' = (iter_objs st)(i := y)"
  shows "other_locks st' i = other_locks st i"
proof
  fix a
  have "{k. iter_cur st' k = Some a} - {i} = {k. iter_cur st k = Some a} - {i}"
    using assms by (auto simp: iter_cur_def)
  then show "other_locks st' i a = other_locks st i a" by (simp add: other_locks_def)
qed

lemma iter_locks_frame: "iter_objs st' = iter_objs st \<Longrightarrow> iter_locks st' = iter_locks st"
  by (intro ext) (simp add: iter_locks_def iter_cur_def)

lemma iter_cur_rel:
  assumes "iter_rel m magic as (iter_objs st i) e" "iter_cur st i = Some a"
  shows "a \<in> set as"
  using assms by (auto simp: iter_rel_def iter_cur_def split: option.splits if_splits)

lemma fresh_unlocked:
  assumes "\<forall>i. iter_rel m magic as (iter_objs st i) (e i)" "a \<notin> set as"
  shows "iter_locks st a = 0"
proof -
  have "{i. iter_cur st i = Some a} = {}" using assms iter_cur_rel by blast
  then show ?thesis by (simp add: iter_locks_def)
qed

section \<open>The methods\<close>

lemma core_opaque:
  assumes "core m magic xs n st"
  shows "\<exists>s. map_of_obj st m = Some s \<and> map_opaque st (JV_object m) magic = Some (m, s) \<and> state_ok xs n s"
  using assms by (auto simp: core_def map_of_obj_def map_opaque_def)

lemma entry_refs_simps [simp]:
  "entry_refs [] v = 0"
  "entry_refs (e # es) v = entry_refs [e] v + entry_refs es v"
  "entry_refs (es @ fs) v = entry_refs es v + entry_refs fs v"
  by (simp_all add: entry_refs_def)

lemma entry_refs_single: "entry_refs [None] v = 0" "entry_refs [Some (k, w)] v = of_bool (k = v) + of_bool (w = v)"
  by (simp_all add: entry_refs_def)

declare entry_refs_simps(2) [simp del]

lemma iter_rel_mono: "iter_rel m magic as x e \<Longrightarrow> iter_rel m magic (as @ bs) x e"
proof (cases e)
  case (Some e')
  assume "iter_rel m magic as x e"
  moreover have "j \<le> length as \<Longrightarrow> j \<noteq> 0 \<Longrightarrow> (as @ bs) ! (j - 1) = as ! (j - 1)" for j
    by (cases j) (simp_all add: nth_append)
  ultimately show ?thesis
    by (cases "es_index e'") (auto simp: iter_rel_def Some simp del: One_nat_def)
qed (simp add: iter_rel_def)

lemma representsE:
  assumes "represents m magic ext st sp"
  obtains xs where "es_entries sp = map snd xs" "core m magic xs (iter_locks st) st"
    "\<forall>i. iter_rel m magic (map fst xs) (iter_objs st i) (es_iters sp i)"
    "finite {i. es_iters sp i \<noteq> None}" "\<forall>i \<ge> next_obj st. es_iters sp i = None" "es_next_iter sp = next_obj st"
    "\<And>v. counted v \<Longrightarrow> refs st v = ext v + map_refs m sp v"
  using assms unfolding represents_def by blast

text \<open>Changes of the entries only.\<close>

lemma represents_entries:
  assumes "represents m magic ext st sp" "es_entries sp = map snd xs"
    "\<forall>i. iter_rel m magic (map fst xs) (iter_objs st i) (es_iters sp i)"
    and "core m magic xs' (iter_locks st) st'" "map fst xs' = map fst xs @ as" "frame st st'"
    and "\<And>v. counted v \<Longrightarrow> refs st' v - refs st v = ext' v - ext v + entry_refs (map snd xs') v - entry_refs (map snd xs) v"
  shows "represents m magic ext' st' (sp\<lparr>es_entries := map snd xs'\<rparr>)"
proof -
  have f: "iter_objs st' = iter_objs st" "next_obj st' = next_obj st" using assms(6) by (simp_all add: frame_def)
  show ?thesis
    unfolding represents_def
  proof (intro conjI exI [of _ xs'] allI impI)
    show "core m magic xs' (iter_locks st') st'" using assms(4) iter_locks_frame [OF f(1)] by simp
    fix v :: jsv assume v: "counted v"
    have "refs st v = ext v + map_refs m sp v" using assms(1) v by (auto elim: representsE)
    with assms(7) [OF v] show "refs st' v = ext' v + map_refs m (sp\<lparr>es_entries := map snd xs'\<rparr>) v"
      by (simp add: map_refs_def assms(2))
  qed (use assms f in \<open>auto simp: represents_def intro: iter_rel_mono\<close>)
qed

lemma found_slot:
  assumes "es_find k (map snd xs) = Some i"
  obtains ys a k' v zs where "xs = ys @ (a, Some (k', v)) # zs" "length ys = i"
proof -
  from es_find_SomeD [OF assms] obtain k' v where i: "i < length xs" "snd (xs ! i) = Some (k', v)" by auto
  from id_take_nth_drop [OF i(1)] have "xs = take i xs @ (fst (xs ! i), Some (k', v)) # drop (Suc i) xs"
    using i(2) by (metis prod.collapse)
  with i(1) show thesis by (intro that [of "take i xs" "fst (xs ! i)" k' v "drop (Suc i) xs"]) auto
qed

lemma upd_middle: "length ys = i \<Longrightarrow> (map f ys @ x # zs)[i := y] = map f ys @ y # zs"
  by (auto simp: list_update_append)

definition op_ok :: "map_op \<Rightarrow> bool" where
  "op_ok p = (case p of
     Op_set k _ \<Rightarrow> map_key (map_normalize_key k)
   | Op_get k \<Rightarrow> map_key (map_normalize_key k)
   | Op_has k \<Rightarrow> map_key (map_normalize_key k)
   | Op_delete k \<Rightarrow> map_key (map_normalize_key k)
   | _ \<Rightarrow> True)"

text \<open>
  One operation on both sides: the same result and related states, or an exception the allocator
  caused, with the state of before or the one after.
\<close>

definition refines :: "bool \<Rightarrow> nat \<Rightarrow> nat \<Rightarrow> (jsv \<Rightarrow> int) \<Rightarrow> es_map \<Rightarrow> es_map \<times> js_result \<times> bool
    \<Rightarrow> ('m map_store \<times> js_result \<times> bool) option \<Rightarrow> bool" where
  "refines may_fail m magic ext sp spec c = (case c of
     None \<Rightarrow> False
   | Some (st', r, d) \<Rightarrow>
       (case spec of (sp', r', d') \<Rightarrow>
          r = r' \<and> d = d' \<and> represents m magic (\<lambda>v. ext v + result_refs r v) st' sp'
          \<or> may_fail \<and> r = Exception \<and> \<not> d \<and> (represents m magic ext st' sp \<or> represents m magic ext st' sp')))"

lemma represents_idem: "represents m magic ext st sp \<Longrightarrow> represents m magic ext st (sp\<lparr>es_entries := es_entries sp\<rparr>)"
  by simp

lemma represents_result:
  assumes "represents m magic ext st sp"
  shows "represents m magic (\<lambda>v. ext v + result_refs (Value w) v) (JS_DupValue w st) sp"
    "\<not> counted w \<Longrightarrow> represents m magic (\<lambda>v. ext v + result_refs (Value w) v) st sp"
proof -
  have l: "iter_locks (JS_DupValue w st) = iter_locks st" by (rule iter_locks_frame) simp
  show "represents m magic (\<lambda>v. ext v + result_refs (Value w) v) (JS_DupValue w st) sp"
    using assms by (auto simp: represents_def l dup_refs result_refs_def)
  show "represents m magic (\<lambda>v. ext v + result_refs (Value w) v) st sp" if "\<not> counted w"
    using assms that by (auto simp: represents_def result_refs_def)
qed

lemma get_refines:
  assumes "represents m magic ext st sp" "op_ok (Op_get k)"
  shows "refines False m magic ext sp (es_step magic (JV_object m) (Op_get k) sp) (map_step A B magic (JV_object m) (Op_get k) st)"
proof -
  let ?k = "map_normalize_key k"
  from assms(1) obtain xs where xs: "es_entries sp = map snd xs" "core m magic xs (iter_locks st) st" by (rule representsE)
  from core_opaque [OF xs(2)] obtain s where s: "map_of_obj st m = Some s" "map_opaque st (JV_object m) magic = Some (m, s)" by blast
  have f: "map_find_record st s ?k = Some (map_option (\<lambda>i. fst (xs ! i)) (es_find ?k (map snd xs)))"
    by (rule map_find_record_eq [OF xs(2) s(1)]) (use assms(2) in \<open>simp add: op_ok_def\<close>)
  show ?thesis
  proof (cases "es_find ?k (map snd xs)")
    case None
    then show ?thesis using s f xs(1) represents_result(2) [OF assms(1), of JV_undefined]
      by (simp add: map_step_def js_map_get_def es_step_def refines_def)
  next
    case (Some i)
    from Some obtain ys a k' v zs where i: "xs = ys @ (a, Some (k', v)) # zs" "length ys = i" by (rule found_slot)
    have "recs st a = slot_rec m (iter_locks st a) (Some (k', v))" using xs(2) i(1) by (auto simp: core_def)
    then show ?thesis using s f xs(1) Some i represents_result(1) [OF assms(1), of v]
      by (simp add: map_step_def js_map_get_def es_step_def refines_def slot_rec_Some nth_append)
  qed
qed

lemma has_refines:
  assumes "represents m magic ext st sp" "op_ok (Op_has k)"
  shows "refines False m magic ext sp (es_step magic (JV_object m) (Op_has k) sp) (map_step A B magic (JV_object m) (Op_has k) st)"
proof -
  let ?k = "map_normalize_key k"
  from assms(1) obtain xs where xs: "es_entries sp = map snd xs" "core m magic xs (iter_locks st) st" by (rule representsE)
  from core_opaque [OF xs(2)] obtain s where s: "map_of_obj st m = Some s" "map_opaque st (JV_object m) magic = Some (m, s)" by blast
  have f: "map_find_record st s ?k = Some (map_option (\<lambda>i. fst (xs ! i)) (es_find ?k (map snd xs)))"
    by (rule map_find_record_eq [OF xs(2) s(1)]) (use assms(2) in \<open>simp add: op_ok_def\<close>)
  show ?thesis using s f xs(1) represents_result(2) [OF assms(1), of "JV_bool (es_find ?k (map snd xs) \<noteq> None)"]
    by (simp add: map_step_def js_map_has_def es_step_def refines_def)
qed

lemma size_refines:
  assumes "represents m magic ext st sp"
  shows "refines False m magic ext sp (es_step magic (JV_object m) Op_size sp) (map_step A B magic (JV_object m) Op_size st)"
proof -
  from assms(1) obtain xs where xs: "es_entries sp = map snd xs" "core m magic xs (iter_locks st) st" by (rule representsE)
  from core_opaque [OF xs(2)] obtain s where s: "map_opaque st (JV_object m) magic = Some (m, s)" "state_ok xs (iter_locks st) s" by blast
  have "length (filter occupied xs) = length (filter (\<lambda>e. e \<noteq> None) (map snd xs))"
    by (simp add: filter_map comp_def occupied_def [abs_def] del: not_None_eq)
  then have "ms_record_count s = of_nat (length (filter (\<lambda>e. e \<noteq> None) (es_entries sp)))"
    using s(2) xs(1) by (simp add: state_ok_def)
  moreover have "\<not> counted (JS_NewUint32 c)" for c by (simp add: JS_NewUint32_def counted_def)
  ultimately show ?thesis using s(1) represents_result(2) [OF assms(1)]
    by (simp add: map_step_def js_map_get_size_def es_step_def refines_def)
qed

lemma delete_refines:
  assumes "represents m magic ext st sp" "op_ok (Op_delete k)"
  shows "refines False m magic ext sp (es_step magic (JV_object m) (Op_delete k) sp) (map_step A B magic (JV_object m) (Op_delete k) st)"
proof -
  let ?k = "map_normalize_key k"
  from assms(1) obtain xs where xs: "es_entries sp = map snd xs" "core m magic xs (iter_locks st) st"
    "\<forall>i. iter_rel m magic (map fst xs) (iter_objs st i) (es_iters sp i)" by (rule representsE)
  from core_opaque [OF xs(2)] obtain s where s: "map_of_obj st m = Some s" "map_opaque st (JV_object m) magic = Some (m, s)" by blast
  have f: "map_find_record st s ?k = Some (map_option (\<lambda>i. fst (xs ! i)) (es_find ?k (map snd xs)))"
    by (rule map_find_record_eq [OF xs(2) s(1)]) (use assms(2) in \<open>simp add: op_ok_def\<close>)
  show ?thesis
  proof (cases "es_find ?k (map snd xs)")
    case None
    then show ?thesis using s f xs(1) represents_result(2) [OF assms(1), of "JV_bool False"]
      by (simp add: map_step_def js_map_delete_def es_step_def refines_def)
  next
    case (Some i)
    from Some obtain ys a k' v zs where i: "xs = ys @ (a, Some (k', v)) # zs" "length ys = i" by (rule found_slot)
    from core_delete [OF xs(2) [unfolded i(1)]] obtain st' where st': "map_delete_record m a st = Some st'"
      "core m magic (ys @ (a, None) # zs) (iter_locks st) st'" "frame st st'" "refs st' = refs (JS_FreeValue v (JS_FreeValue k' st))"
      by blast
    have "represents m magic ext st' (sp\<lparr>es_entries := map snd (ys @ (a, None) # zs)\<rparr>)"
      by (rule represents_entries [OF assms(1) xs(1,3) st'(2) _ st'(3), where as = "[]"])
        (simp_all add: i(1) st'(4) free_refs entry_refs_single entry_refs_simps(2) [of _ "map snd zs"])
    from represents_result(2) [OF this, of "JV_bool True"] show ?thesis using s f xs(1) Some i st'(1)
      by (simp add: map_step_def js_map_delete_def es_step_def refines_def nth_append upd_middle)
  qed
qed

lemma clear_slots:
  assumes "core m magic (zs @ ys) n st"
  shows "\<exists>st'. clear_loop m (linked n ys) st = Some st' \<and> core m magic (zs @ map (\<lambda>x. (fst x, None)) ys) n st'
    \<and> frame st st' \<and> (\<forall>v. counted v \<longrightarrow> refs st' v = refs st v - entry_refs (map snd ys) v)"
  using assms
proof (induction ys arbitrary: zs st)
  case Nil
  then show ?case by (simp add: linked_def frame_def)
next
  case (Cons y ys)
  obtain a e where y: "y = (a, e)" by (cases y)
  show ?case
  proof (cases e)
    case None
    have c: "core m magic ((zs @ [(a, None)]) @ ys) n st" using Cons.prems y None by simp
    have r: "recs st a = slot_rec m (n a) None" using Cons.prems y None by (auto simp: core_def)
    have "clear_loop m (linked n (y # ys)) st = clear_loop m (linked n ys) st"
      by (simp add: linked_def y None occupied_def map_delete_record_def r slot_rec_def)
    with Cons.IH [OF c] show ?thesis
      by (simp add: y None entry_refs_single entry_refs_simps(2) [of None "map snd ys"])
  next
    case (Some kv)
    obtain k v where kv: "kv = (k, v)" by (cases kv)
    have "core m magic (zs @ (a, Some (k, v)) # ys) n st" using Cons.prems y Some kv by simp
    from core_delete [OF this] obtain st1 where st1: "map_delete_record m a st = Some st1"
      "core m magic (zs @ (a, None) # ys) n st1" "frame st st1" "refs st1 = refs (JS_FreeValue v (JS_FreeValue k st))" by blast
    have "core m magic ((zs @ [(a, None)]) @ ys) n st1" using st1(2) by simp
    from Cons.IH [OF this] obtain st2 where st2: "clear_loop m (linked n ys) st1 = Some st2"
      "core m magic ((zs @ [(a, None)]) @ map (\<lambda>x. (fst x, None)) ys) n st2" "frame st1 st2"
      "\<forall>v. counted v \<longrightarrow> refs st2 v = refs st1 v - entry_refs (map snd ys) v" by blast
    have "clear_loop m (linked n (y # ys)) st = Some st2"
      using st1(1) st2(1) by (simp add: linked_def y Some occupied_def)
    moreover have "refs st2 w = refs st w - entry_refs (map snd (y # ys)) w" if "counted w" for w
      using st2(4) st1(4) that
      by (simp add: y Some kv entry_refs_single entry_refs_simps(2) [of _ "map snd ys"] free_refs)
    moreover have "frame st st2" using st1(3) st2(3) by (simp add: frame_def)
    ultimately show ?thesis using st2(2) by (auto simp: y)
  qed
qed

lemma entry_refs_none [simp]: "entry_refs (map (\<lambda>x. None) xs) v = 0"
  by (induction xs) (simp_all add: entry_refs_def)

lemma clear_refines:
  assumes "represents m magic ext st sp"
  shows "refines False m magic ext sp (es_step magic (JV_object m) Op_clear sp) (map_step A B magic (JV_object m) Op_clear st)"
proof -
  from assms(1) obtain xs where xs: "es_entries sp = map snd xs" "core m magic xs (iter_locks st) st"
    "\<forall>i. iter_rel m magic (map fst xs) (iter_objs st i) (es_iters sp i)" by (rule representsE)
  from core_opaque [OF xs(2)] obtain s where s: "map_opaque st (JV_object m) magic = Some (m, s)" "state_ok xs (iter_locks st) s" by blast
  from clear_slots [of m magic "[]" xs "iter_locks st" st] xs(2) obtain st' where
    st': "clear_loop m (ms_records s) st = Some st'" "core m magic (map (\<lambda>x. (fst x, None)) xs) (iter_locks st) st'"
      "frame st st'" "\<And>v. counted v \<Longrightarrow> refs st' v = refs st v - entry_refs (map snd xs) v"
    using s(2) by (auto simp: state_ok_def)
  have "represents m magic ext st' (sp\<lparr>es_entries := map snd (map (\<lambda>x. (fst x, None)) xs)\<rparr>)"
    by (rule represents_entries [OF assms(1) xs(1,3) st'(2) _ st'(3), where as = "[]"])
      (simp_all add: st'(4) comp_def)
  from represents_result(2) [OF this, of JV_undefined] show ?thesis using s(1) st'(1) xs(1)
    by (simp add: map_step_def js_map_clear_def es_step_def refines_def comp_def)
qed

context block_allocator
begin

lemma set_refines:
  assumes "represents m magic ext st sp" "op_ok (Op_set k w)"
  shows "refines (refuses A) m magic ext sp (es_step magic (JV_object m) (Op_set k w) sp)
    (map_step A B magic (JV_object m) (Op_set k w) st)"
proof -
  let ?k = "map_normalize_key k" and ?w = "if is_set magic then JV_undefined else w"
  from assms(1) obtain xs where xs: "es_entries sp = map snd xs" "core m magic xs (iter_locks st) st"
    "\<forall>i. iter_rel m magic (map fst xs) (iter_objs st i) (es_iters sp i)" by (rule representsE)
  from core_opaque [OF xs(2)] obtain s where s: "map_of_obj st m = Some s" "map_opaque st (JV_object m) magic = Some (m, s)"
    "state_ok xs (iter_locks st) s" by blast
  have k: "map_key ?k" using assms(2) by (simp add: op_ok_def)
  note f = map_find_record_eq [OF xs(2) s(1) k]
  show ?thesis
  proof (cases "es_find ?k (map snd xs)")
    case None
    have "next_rec st \<notin> set (map fst xs)" using xs(2) by (auto simp: core_def)
    from fresh_unlocked [OF xs(3) this] core_add [OF xs(2) k None] obtain st1 r where
      add: "map_add_record A m ?k st = Some (st1, r)" and fr: "frame st st1" and
      r: "case r of
       None \<Rightarrow> core m magic xs (iter_locks st) st1 \<and> refs st1 = refs st \<and> next_rec st1 = next_rec st \<and> refuses A
     | Some a \<Rightarrow> a = next_rec st \<and> core m magic (xs @ [(a, Some (?k, JV_undefined))]) (iter_locks st) st1
         \<and> refs st1 = refs (JS_DupValue ?k st) \<and> next_rec st1 = Suc a" by blast
    show ?thesis
    proof (cases r)
      case None
      have "represents m magic ext st1 (sp\<lparr>es_entries := map snd xs\<rparr>)"
        by (rule represents_entries [OF assms(1) xs(1,3) _ _ fr, where as = "[]"]) (use r None in simp_all)
      moreover have "sp\<lparr>es_entries := map snd xs\<rparr> = sp" using xs(1) by (cases sp) simp
      ultimately have "represents m magic ext st1 sp" by simp
      with r None add s f \<open>es_find ?k (map snd xs) = None\<close> show ?thesis
        by (auto simp: map_step_def js_map_set_def refines_def state_ok_def Let_def split: prod.splits)
    next
      case (Some a)
      let ?xs = "xs @ [(a, Some (?k, ?w))]"
      from Some r core_set_value [of m magic xs a ?k JV_undefined "[]" "iter_locks st" st1 ?w] obtain mr where
        mr: "recs st1 a = Some mr" "core m magic ?xs (iter_locks st) (put_rec a (mr\<lparr>mr_value := ?w\<rparr>) st1)" by auto
      let ?st2 = "put_rec a (mr\<lparr>mr_value := ?w\<rparr>) (JS_DupValue ?w st1)"
      have p: "?st2 = JS_DupValue ?w (put_rec a (mr\<lparr>mr_value := ?w\<rparr>) st1)" by (simp add: put_rec_def JS_DupValue_def)
      have "represents m magic ext ?st2 (sp\<lparr>es_entries := map snd ?xs\<rparr>)"
      proof (rule represents_entries [OF assms(1) xs(1,3), where as = "[a]"])
        show "core m magic ?xs (iter_locks st) ?st2" unfolding p by (simp only: core_refs_ops mr(2))
      qed (use Some r fr in \<open>simp_all add: frame_def dup_refs entry_refs_single\<close>)
      from represents_result(1) [OF this, of "JV_object m"] show ?thesis
        using s f add Some mr(1) xs(1) \<open>es_find ?k (map snd xs) = None\<close>
        by (simp add: map_step_def js_map_set_def es_step_def refines_def state_ok_def Let_def)
    qed
  next
    case (Some i)
    from Some obtain ys a k' v zs where i: "xs = ys @ (a, Some (k', v)) # zs" "length ys = i" by (rule found_slot)
    let ?xs = "ys @ (a, Some (k', ?w)) # zs"
    from core_set_value [OF xs(2) [unfolded i(1)], of ?w] obtain mr where
      mr: "recs st a = Some mr" "mr_value mr = v" "core m magic ?xs (iter_locks st) (put_rec a (mr\<lparr>mr_value := ?w\<rparr>) st)" by blast
    let ?st2 = "put_rec a (mr\<lparr>mr_value := ?w\<rparr>) (JS_DupValue ?w (JS_FreeValue v st))"
    have p: "?st2 = JS_DupValue ?w (JS_FreeValue v (put_rec a (mr\<lparr>mr_value := ?w\<rparr>) st))"
      by (simp add: put_rec_def JS_DupValue_def JS_FreeValue_def)
    have "represents m magic ext ?st2 (sp\<lparr>es_entries := map snd ?xs\<rparr>)"
    proof (rule represents_entries [OF assms(1) xs(1,3), where as = "[]"])
      show "core m magic ?xs (iter_locks st) ?st2" unfolding p by (simp only: core_refs_ops mr(3))
    qed (simp_all add: i(1) frame_def dup_refs free_refs entry_refs_single entry_refs_simps(2) [of _ "map snd zs"])
    from represents_result(1) [OF this, of "JV_object m"] show ?thesis
      using s f Some mr(1,2) xs(1) i
      by (simp add: map_step_def js_map_set_def es_step_def refines_def state_ok_def Let_def nth_append upd_middle)
  qed
qed

end

section \<open>Iterators\<close>

lemma running_upd:
  assumes "finite {i. f i \<noteq> None}"
  shows "int (card (running (f(i := e)))) = int (card (running f)) - of_bool (unfinished (f i)) + of_bool (unfinished e)"
proof -
  have "running f \<subseteq> {i. f i \<noteq> None}" by (auto simp: running_def unfinished_def split: option.splits)
  then have fin: "finite (running f)" using assms by (rule finite_subset)
  have "running (f(i := e)) = (if unfinished e then insert i (running f - {i}) else running f - {i})"
    by (auto simp: running_def)
  moreover have "int (card (running f - {i})) = int (card (running f)) - of_bool (unfinished (f i))"
  proof (cases "unfinished (f i)")
    case True
    then have "i \<in> running f" by (simp add: running_def)
    from card_Suc_Diff1 [OF fin this] True show ?thesis by simp
  next
    case False
    then have "running f - {i} = running f" by (auto simp: running_def)
    with False show ?thesis by simp
  qed
  moreover have "card (insert i (running f - {i})) = Suc (card (running f - {i}))"
    by (rule card_insert_disjoint) (use fin in simp_all)
  ultimately show ?thesis by (simp del: insert_Diff_single)
qed

lemma represents_iter:
  assumes "represents m magic ext st sp" "es_entries sp = map snd xs"
    "\<forall>i. iter_rel m magic (map fst xs) (iter_objs st i) (es_iters sp i)"
    and "core m magic xs (iter_locks st') st'" "iter_objs st' = (iter_objs st)(i := y)"
    "iter_rel m magic (map fst xs) y e" "next_obj st \<le> next_obj st'" "i < next_obj st'"
    and "\<And>v. counted v \<Longrightarrow> refs st' v - refs st v = ext' v - ext v
      + of_bool (v = JV_object m) * (of_bool (unfinished e) - of_bool (unfinished (es_iters sp i)))"
  shows "represents m magic ext' st' (sp\<lparr>es_iters := (es_iters sp)(i := e), es_next_iter := next_obj st'\<rparr>)"
proof -
  from assms(1) have fin: "finite {i. es_iters sp i \<noteq> None}" and lim: "\<forall>i \<ge> next_obj st. es_iters sp i = None"
    and r: "\<And>v. counted v \<Longrightarrow> refs st v = ext v + map_refs m sp v" by (auto elim: representsE)
  show ?thesis
    unfolding represents_def
  proof (intro conjI exI [of _ xs] allI impI)
    have "{k. ((es_iters sp)(i := e)) k \<noteq> None} \<subseteq> insert i {i. es_iters sp i \<noteq> None}" by auto
    then show "finite {k. es_iters (sp\<lparr>es_iters := (es_iters sp)(i := e), es_next_iter := next_obj st'\<rparr>) k \<noteq> None}"
      using fin by (simp add: finite_subset)
    fix v :: jsv assume v: "counted v"
    show "refs st' v = ext' v + map_refs m (sp\<lparr>es_iters := (es_iters sp)(i := e), es_next_iter := next_obj st'\<rparr>) v"
      using r [OF v] assms(9) [OF v] running_upd [OF fin, of i e]
      by (cases "v = JV_object m") (simp_all add: map_refs_def)
  qed (use assms lim in auto)
qed

lemma cur_of_rel:
  assumes "iter_rel m magic as (iter_objs st i) (Some e)" "es_index e = Some j"
  shows "iter_cur st i = (if j = 0 then None else Some (as ! (j - 1)))" "j \<le> length as"
  using assms by (auto simp: iter_rel_def iter_cur_def)

lemma links_walk:
  assumes "distinct (map fst xs)" "P (xs ! j)" "j < length xs"
  shows "dropWhile (\<lambda>x. x \<noteq> fst (xs ! j)) (map fst (filter P xs)) = fst (xs ! j) # map fst (filter P (drop (Suc j) xs))"
proof -
  have "xs = take j xs @ xs ! j # drop (Suc j) xs" using assms(3) by (rule id_take_nth_drop)
  then have f: "filter P xs = filter P (take j xs) @ xs ! j # filter P (drop (Suc j) xs)"
    using assms(2) by (metis filter.simps(2) filter_append)
  have "fst (xs ! j) \<notin> set (map fst (filter P (take j xs)))"
  proof
    assume "fst (xs ! j) \<in> set (map fst (filter P (take j xs)))"
    then obtain x where "x \<in> set (take j xs)" "fst x = fst (xs ! j)" by auto
    then obtain i where "i < j" "map fst xs ! i = map fst xs ! j" using assms(3) by (auto simp: in_set_conv_nth)
    with assms(1,3) show False using nth_eq_iff_index_eq [of "map fst xs" i j] by simp
  qed
  then have "dropWhile (\<lambda>x. x \<noteq> fst (xs ! j)) (map fst (filter P (take j xs)) @ zs)
      = dropWhile (\<lambda>x. x \<noteq> fst (xs ! j)) zs" for zs
    by (intro dropWhile_append2) metis
  then show ?thesis unfolding f by simp
qed

lemma skip_slots:
  assumes "\<forall>x \<in> set ys. recs st (fst x) = slot_rec m (n (fst x)) (snd x)"
  shows "skip_empty st (linked n ys) = Some (map_option (\<lambda>(d, _). fst (ys ! d)) (es_from (map snd ys)))"
  using assms
proof (induction ys)
  case (Cons y ys)
  obtain a e where y: "y = (a, e)" by (cases y)
  show ?case
  proof (cases e)
    case None
    then show ?thesis using Cons
      by (auto simp: y linked_def occupied_def slot_rec_def option.map_comp comp_def split_def)
  next
    case (Some kv)
    then show ?thesis using Cons.prems by (cases kv) (auto simp: y linked_def occupied_def slot_rec_def)
  qed
qed (simp add: linked_def)

lemma es_from_SomeD: "es_from es = Some (d, kv) \<Longrightarrow> d < length es \<and> es ! d = Some kv"
  by (induction es arbitrary: d rule: es_from.induct) auto

text \<open>An iterator gives its lock up and looks at the records behind it.\<close>

lemma iter_leave:
  assumes "core m magic xs (iter_locks st) st" "\<And>a. finite {k. iter_cur st k = Some a}"
    "\<forall>i. iter_rel m magic (map fst xs) (iter_objs st i) (es_iters sp i)"
    and "es_iters sp i = Some e" "es_index e = Some j" "map_of_obj st m = Some s"
  shows "\<exists>el st1 s1. (case iter_cur st i of
       None \<Rightarrow> Some (first_link (ms_records s), st)
     | Some a \<Rightarrow> do { st \<leftarrow> map_decref_record a st; Some (next_link (ms_records s) a, st) }) = Some (el, st1)
    \<and> core m magic xs (other_locks st i) st1 \<and> frame st st1 \<and> refs st1 = refs st
    \<and> map_of_obj st1 m = Some s1 \<and> links_from (ms_records s1) el = linked (other_locks st i) (drop j xs)"
proof -
  have rel: "iter_rel m magic (map fst xs) (iter_objs st i) (Some e)" using assms(3,4) by metis
  note c = cur_of_rel [OF rel assms(5)]
  have s: "ms_records s = linked (iter_locks st) xs" and d: "distinct (map fst xs)"
    using assms(1,6) by (auto simp: core_def map_of_obj_def state_ok_def slots_ok_def)
  have recs1: "ms_records s1 = linked n xs" if "core m magic xs n st1" "map_of_obj st1 m = Some s1" for n st1 s1
    using that by (auto simp: core_def map_of_obj_def state_ok_def)
  show ?thesis
  proof (cases "j = 0")
    case True
    then have n: "iter_locks st = other_locks st i" using c iter_locks_split [OF assms(2), of i] by simp
    have "links_from (ms_records s) (first_link (ms_records s)) = ms_records s"
      by (cases "ms_records s") (simp_all add: links_from_def first_link_def)
    then show ?thesis using True c assms(1,6) s n by (simp add: frame_def)
  next
    case False
    let ?o = "other_locks st i" and ?x = "xs ! (j - 1)"
    have j: "j - 1 < length xs" "iter_cur st i = Some (fst ?x)" using c False by auto
    then have n: "iter_locks st = ?o(fst ?x := Suc (?o (fst ?x)))" using iter_locks_split [OF assms(2), of i] by simp
    have "(fst ?x, snd ?x) \<in> set xs" using j(1) by simp
    from core_decref [OF assms(1) this] obtain st1 where st1: "map_decref_record (fst ?x) st = Some st1"
      "core m magic xs ?o st1" "frame st st1" "refs st1 = refs st" by (auto simp: n)
    from core_opaque [OF st1(2)] obtain s1 where s1: "map_of_obj st1 m = Some s1" by blast
    let ?P = "\<lambda>x. occupied x \<or> 0 < iter_locks st (fst x)" and ?Q = "\<lambda>x. occupied x \<or> 0 < ?o (fst x)"
    have w: "dropWhile (\<lambda>x. x \<noteq> fst ?x) (linked (iter_locks st) xs) = fst ?x # map fst (filter ?P (drop j xs))"
      using links_walk [OF d, of ?P "j - 1"] j(1) n False by (simp add: linked_def)
    have behind: "fst x \<noteq> fst ?x" if "x \<in> set (drop j xs)" for x
    proof -
      from that obtain k where "x = xs ! (j + k)" "j + k < length xs" by (auto simp: in_set_conv_nth)
      then show ?thesis using nth_eq_iff_index_eq [OF d, of "j + k" "j - 1"] j(1) False by simp
    qed
    have pq: "filter ?P (drop j xs) = filter ?Q (drop j xs)"
      by (rule filter_cong) (use behind n in auto)
    have "links_from (ms_records s1) (next_link (ms_records s) (fst ?x)) = linked ?o (drop j xs)"
    proof (cases "filter ?Q (drop j xs)")
      case Nil
      then show ?thesis using w pq s by (simp add: next_link_def links_from_def linked_def)
    next
      case (Cons y ys)
      have "next_link (ms_records s) (fst ?x) = Some (fst y)"
        using w pq s Cons by (simp add: next_link_def)
      moreover obtain k where k: "drop j xs ! k = y" "k < length (drop j xs)" "\<forall>i < k. \<not> ?Q (drop j xs ! i)" "?Q y"
        "ys = filter ?Q (drop (Suc k) (drop j xs))"
      proof -
        from Cons have "filter ?Q (drop j xs) = y # ys" .
        then obtain us vs where u: "drop j xs = us @ y # vs" "\<forall>u \<in> set us. \<not> ?Q u" "?Q y" "ys = filter ?Q vs"
          by (auto simp: filter_eq_Cons_iff)
        show thesis by (rule that [of "length us"]) (use u in \<open>auto simp: nth_append\<close>)
      qed
      have "dropWhile (\<lambda>x. x \<noteq> fst (xs ! (j + k))) (map fst (filter ?Q xs)) = fst (xs ! (j + k)) # map fst (filter ?Q (drop (Suc (j + k)) xs))"
        by (rule links_walk [OF d]) (use k in auto)
      moreover have "xs ! (j + k) = y" using k(1,2) by simp
      moreover have "drop (Suc k) (drop j xs) = drop (Suc (j + k)) xs" by (simp add: add.commute)
      ultimately show ?thesis using recs1 [OF st1(2) s1] k(5) Cons by (simp add: links_from_def linked_def)
    qed
    with st1 s1 j(2) show ?thesis by auto
  qed
qed

lemma store_objectD:
  assumes "store_object B st = (st', ok)"
  shows "\<not> ok \<Longrightarrow> refuses_objects B" "recs st' = recs st" "map_objs st' = map_objs st" "refs st' = refs st"
    "iter_objs st' = iter_objs st" "next_obj st' = next_obj st" "next_rec st' = next_rec st" "frame st st'"
    "core m magic xs n st' = core m magic xs n st"
proof -
  obtain y b where B: "B (memory st) = (y, b)" by (cases "B (memory st)")
  with assms have e: "st' = st\<lparr>memory := y, pending_oom := (pending_oom st \<or> \<not> ok)\<rparr>" "b = ok" by (auto simp: store_object_def)
  show "\<not> ok \<Longrightarrow> refuses_objects B" using B e(2) unfolding refuses_objects_def by (metis snd_conv)
qed (use assms in \<open>auto simp: store_object_def frame_def core_def split: prod.splits\<close>)

lemma put_iter_simps:
  assumes "iter_objs st i = Some (c, y)"
  shows "iter_objs (put_iter i it st) = (iter_objs st)(i \<mapsto> (c, Some it))"
    "refs (put_iter i it st) = refs st" "next_obj (put_iter i it st) = next_obj st"
    "core m magic xs n (put_iter i it st) = core m magic xs n st"
  using assms by (simp_all add: put_iter_def core_def)

lemma locks_after:
  assumes "\<And>a. finite {k. iter_cur st k = Some a}" "iter_objs st' = (iter_objs st)(i := y)"
  shows "iter_locks st' = (case iter_cur st' i of None \<Rightarrow> other_locks st i
    | Some a \<Rightarrow> (other_locks st i)(a := Suc (other_locks st i a)))"
proof -
  have "finite {k. iter_cur st' k = Some a}" for a
  proof (rule finite_subset)
    show "{k. iter_cur st' k = Some a} \<subseteq> insert i {k. iter_cur st k = Some a}"
      using assms(2) by (auto simp: iter_cur_def)
  qed (use assms(1) in simp)
  note iter_locks_split [OF this, of i]
  then show ?thesis unfolding other_locks_upd [OF assms(2)] .
qed

lemma iter_at_rel:
  assumes "iter_rel m magic as x (Some e)"
  obtains it where "x = Some (magic, Some it)" "it_kind it = es_kind e"
    "es_index e = None \<longrightarrow> it_obj it = JV_undefined \<and> it_cur_record it = None"
    "\<forall>j. es_index e = Some j \<longrightarrow> it_obj it = JV_object m"
  using assms by (cases "es_index e") (auto simp: iter_rel_def)

lemma next_refines:
  assumes "represents m magic ext st sp"
  shows "refines (refuses_objects B) m magic ext sp (es_step magic (JV_object m) (Op_next i) sp)
    (map_step A B magic (JV_object m) (Op_next i) st)"
proof -
  from assms obtain xs where xs: "es_entries sp = map snd xs" "core m magic xs (iter_locks st) st"
    "\<forall>i. iter_rel m magic (map fst xs) (iter_objs st i) (es_iters sp i)" and
    fin: "finite {i. es_iters sp i \<noteq> None}" and lim: "\<forall>i \<ge> next_obj st. es_iters sp i = None"
    and nxt: "es_next_iter sp = next_obj st" by (rule representsE)
  have cfin: "finite {k. iter_cur st k = Some a}" for a by (rule finite_cur [OF fin xs(3)])
  have rel: "iter_rel m magic (map fst xs) (iter_objs st i) (es_iters sp i)" using xs(3) by blast
  show ?thesis
  proof (cases "es_iters sp i")
    case None
    then have "iter_objs st i = None" using rel by (simp add: iter_rel_def)
    then show ?thesis using None assms
      by (simp add: map_step_def js_map_iterator_next_def iter_opaque_def es_step_def refines_def result_refs_def)
  next
    case (Some e)
    have i: "i < next_obj st" using lim Some by (metis not_le option.distinct(1))
    from rel [unfolded Some] obtain it where it: "iter_objs st i = Some (magic, Some it)" "it_kind it = es_kind e"
      "es_index e = None \<longrightarrow> it_obj it = JV_undefined \<and> it_cur_record it = None"
      "\<forall>j. es_index e = Some j \<longrightarrow> it_obj it = JV_object m" by (rule iter_at_rel)
    have op: "iter_opaque st (JV_object i) magic = Some (i, it)" using it(1) by (simp add: iter_opaque_def)
    have cur: "iter_cur st i = it_cur_record it" using it(1) by (simp add: iter_cur_def)
    show ?thesis
    proof (cases "es_index e")
      case None
      then show ?thesis using Some op it(3) represents_result(2) [OF assms, of JV_undefined]
        by (simp add: map_step_def js_map_iterator_next_def es_step_def refines_def)
    next
      case (Some j)
      note e = \<open>es_iters sp i = Some e\<close> and j = Some
      have obj: "it_obj it = JV_object m" using it(4) j by blast
      have un: "unfinished (es_iters sp i)" using e j by (simp add: unfinished_def)
      from core_opaque [OF xs(2)] obtain s where s: "map_of_obj st m = Some s" "map_opaque st (JV_object m) magic = Some (m, s)" by blast
      from iter_leave [OF xs(2) cfin xs(3) e j s(1)] obtain el st1 s1 where
        lv: "(case iter_cur st i of None \<Rightarrow> Some (first_link (ms_records s), st)
          | Some a \<Rightarrow> do { st \<leftarrow> map_decref_record a st; Some (next_link (ms_records s) a, st) }) = Some (el, st1)"
        and c1: "core m magic xs (other_locks st i) st1" and fr: "frame st st1" "refs st1 = refs st"
        and s1: "map_of_obj st1 m = Some s1" and ln: "links_from (ms_records s1) el = linked (other_locks st i) (drop j xs)"
        by blast
      have io: "iter_objs st1 = iter_objs st" "next_obj st1 = next_obj st" using fr(1) by (simp_all add: frame_def)
      have sk: "skip_empty st1 (linked (other_locks st i) (drop j xs))
          = Some (map_option (\<lambda>(d, _). fst (drop j xs ! d)) (es_from (map snd (drop j xs))))"
        by (rule skip_slots) (use c1 in \<open>auto simp: core_def dest: in_set_dropD\<close>)
      have dm: "drop j (es_entries sp) = map snd (drop j xs)" by (simp add: xs(1) drop_map)
      show ?thesis
      proof (cases "es_from (map snd (drop j xs))")
        case None
        let ?it = "it\<lparr>it_cur_record := None, it_obj := JV_undefined\<rparr>" and ?e = "e\<lparr>es_index := None\<rparr>"
        let ?st = "put_iter i ?it (JS_FreeValue (JV_object m) st1)"
        have io2: "iter_objs ?st = (iter_objs st)(i := Some (magic, Some ?it))" "refs ?st = refs (JS_FreeValue (JV_object m) st1)"
          "next_obj ?st = next_obj st" "core m magic xs n ?st = core m magic xs n st1" for n
          using put_iter_simps [of "JS_FreeValue (JV_object m) st1" i magic "Some it"] it(1) io by simp_all
        have "iter_cur ?st i = None" by (simp add: iter_cur_def io2)
        then have lk: "iter_locks ?st = other_locks st i" using locks_after [OF cfin io2(1)] by simp
        have "represents m magic ext ?st (sp\<lparr>es_iters := (es_iters sp)(i := Some ?e), es_next_iter := next_obj ?st\<rparr>)"
        proof (rule represents_iter [OF assms xs(1,3) _ io2(1)])
          show "core m magic xs (iter_locks ?st) ?st" unfolding lk io2(4) by (rule c1)
          show "iter_rel m magic (map fst xs) (Some (magic, Some ?it)) (Some ?e)" using it(2) by (simp add: iter_rel_def)
        qed (use un i io2 fr in \<open>simp_all add: unfinished_def free_refs\<close>)
        then have "represents m magic ext ?st (sp\<lparr>es_iters := (es_iters sp)(i := Some ?e)\<rparr>)"
          by (simp add: io2 nxt [symmetric])
        from represents_result(2) [OF this, of JV_undefined] show ?thesis
          using op obj s lv cur s1 ln sk None e j dm
          by (simp add: map_step_def js_map_iterator_next_def es_step_def refines_def)
      next
        case (Some dkv)
        obtain d k v where dkv: "dkv = (d, k, v)" by (cases dkv) auto
        from es_from_SomeD [of "map snd (drop j xs)" d "(k, v)"] Some dkv
        have d: "j + d < length xs" "snd (xs ! (j + d)) = Some (k, v)" by auto
        define b where "b = fst (xs ! (j + d))"
        have bx: "(b, Some (k, v)) \<in> set xs" using d by (metis b_def nth_mem prod.collapse)
        define mr where "mr = \<lparr>mr_ref_count = 1 + int (other_locks st i b), mr_empty = False, mr_map = m, mr_key = k, mr_value = v\<rparr>"
        have mr: "mr_key mr = k" "mr_value mr = v" by (simp_all add: mr_def)
        define st2 where "st2 = put_rec b (mr\<lparr>mr_ref_count := mr_ref_count mr + 1\<rparr>) st1"
        have lock: "recs st1 b = Some mr" "core m magic xs ((other_locks st i)(b := Suc (other_locks st i b))) st2"
          using core_lock [OF c1 bx] by (simp_all add: st2_def mr_def)
        let ?it = "it\<lparr>it_cur_record := Some b\<rparr>" and ?e = "e\<lparr>es_index := Some (Suc (j + d))\<rparr>"
        define st3 where "st3 = put_iter i ?it st2"
        have io2: "iter_objs st3 = (iter_objs st)(i := Some (magic, Some ?it))" "refs st3 = refs st"
          "next_obj st3 = next_obj st" "core m magic xs n st3 = core m magic xs n st2" for n
          using put_iter_simps [of st2 i magic "Some it"] it(1) io fr(2) by (simp_all add: st2_def st3_def)
        have "iter_cur st3 i = Some b" by (simp add: iter_cur_def io2)
        then have lk: "iter_locks st3 = (other_locks st i)(b := Suc (other_locks st i b))" using locks_after [OF cfin io2(1)] by simp
        have "represents m magic ext st3 (sp\<lparr>es_iters := (es_iters sp)(i := Some ?e), es_next_iter := next_obj st3\<rparr>)"
        proof (rule represents_iter [OF assms xs(1,3) _ io2(1)])
          show "core m magic xs (iter_locks st3) st3" unfolding lk io2(4) by (rule lock(2))
          show "iter_rel m magic (map fst xs) (Some (magic, Some ?it)) (Some ?e)"
            using it(2) obj d(1) by (simp add: iter_rel_def b_def)
        qed (use un i io2 in \<open>simp_all add: unfinished_def\<close>)
        then have r3: "represents m magic ext st3 (sp\<lparr>es_iters := (es_iters sp)(i := Some ?e)\<rparr>)"
          by (simp add: io2 nxt [symmetric])
        have spec: "es_step magic (JV_object m) (Op_next i) sp
            = (sp\<lparr>es_iters := (es_iters sp)(i \<mapsto> ?e)\<rparr>, es_result (es_kind e) magic (k, v), False)"
          using e j dm Some dkv by (simp add: es_step_def)
        let ?w = "if magic \<noteq> 0 then k else v"
        have code: "map_step A B magic (JV_object m) (Op_next i) st = (case es_kind e of
            JS_ITERATOR_KIND_KEY \<Rightarrow> Some (JS_DupValue k st3, Value k, False)
          | JS_ITERATOR_KIND_VALUE \<Rightarrow> Some (JS_DupValue ?w st3, Value ?w, False)
          | JS_ITERATOR_KIND_KEY_AND_VALUE \<Rightarrow> (case store_object B st3 of
              (st, True) \<Rightarrow> Some (JS_DupValue ?w (JS_DupValue k st), Pair_array k ?w, False)
            | (st, False) \<Rightarrow> Some (st, Exception, False)))"
          using op obj s lv cur s1 ln sk Some dkv d lock(1) it(2)
          by (cases "es_kind e"; cases "magic = 0"; cases "store_object B st3"; cases "snd (store_object B st3)")
            (simp_all add: map_step_def js_map_iterator_next_def b_def [symmetric] st3_def [symmetric] st2_def [symmetric] mr_def [symmetric] mr)
        have r4: "represents m magic ext (fst (store_object B st3)) (sp\<lparr>es_iters := (es_iters sp)(i := Some ?e)\<rparr>)"
          using r3 iter_locks_frame [of "fst (store_object B st3)" st3]
          by (simp add: represents_def store_object_def split_def)
        show ?thesis
        proof (cases "es_kind e")
          case JS_ITERATOR_KIND_KEY
          then show ?thesis unfolding spec code refines_def using represents_result(1) [OF r3, of k]
            by (simp add: es_result_def)
        next
          case JS_ITERATOR_KIND_VALUE
          then show ?thesis unfolding spec code refines_def using represents_result(1) [OF r3, of ?w]
            by (simp add: es_result_def)
        next
          case kv: JS_ITERATOR_KIND_KEY_AND_VALUE
          obtain st4 ok where so: "store_object B st3 = (st4, ok)" by (cases "store_object B st3")
          have "refuses_objects B" if "\<not> ok"
            by (rule store_objectD(1) [OF so that])
          moreover have "represents m magic (\<lambda>v. ext v + result_refs (Pair_array k ?w) v) (JS_DupValue ?w (JS_DupValue k st4))
              (sp\<lparr>es_iters := (es_iters sp)(i := Some ?e)\<rparr>)"
            using represents_result(1) [OF represents_result(1) [OF r4, of k], of ?w] so
            by (simp add: result_refs_def add.assoc)
          ultimately show ?thesis using r4 so
            by (cases ok) (simp_all add: spec code refines_def kv es_result_def)
        qed
      qed
    qed
  qed
qed

lemma represents_frame:
  assumes "represents m magic ext st sp" "\<And>xs n. core m magic xs n st' = core m magic xs n st"
    "iter_objs st' = iter_objs st" "next_obj st' = next_obj st" "refs st' = refs st"
  shows "represents m magic ext st' sp"
  using assms by (simp add: represents_def iter_locks_frame [OF assms(3)])

lemma drop_refines:
  assumes "represents m magic ext st sp"
  shows "refines False m magic ext sp (es_step magic (JV_object m) (Op_drop i) sp)
    (map_step A B magic (JV_object m) (Op_drop i) st)"
proof -
  from assms obtain xs where xs: "es_entries sp = map snd xs" "core m magic xs (iter_locks st) st"
    "\<forall>i. iter_rel m magic (map fst xs) (iter_objs st i) (es_iters sp i)" and
    fin: "finite {i. es_iters sp i \<noteq> None}" and lim: "\<forall>i \<ge> next_obj st. es_iters sp i = None"
    and nxt: "es_next_iter sp = next_obj st" by (rule representsE)
  have cfin: "finite {k. iter_cur st k = Some a}" for a by (rule finite_cur [OF fin xs(3)])
  have rel: "iter_rel m magic (map fst xs) (iter_objs st i) (es_iters sp i)" using xs(3) by blast
  show ?thesis
  proof (cases "es_iters sp i")
    case None
    then have n: "iter_objs st i = None" using rel by (simp add: iter_rel_def)
    then have "st\<lparr>iter_objs := (iter_objs st)(i := None)\<rparr> = st" by (cases st) (auto simp: fun_upd_idem)
    moreover have "sp\<lparr>es_iters := (es_iters sp)(i := None)\<rparr> = sp" using None by (cases sp) (auto simp: fun_upd_idem)
    ultimately show ?thesis using n represents_result(2) [OF assms, of JV_undefined]
      by (simp add: map_step_def js_map_iterator_finalizer_def es_step_def refines_def)
  next
    case (Some e)
    have i: "i < next_obj st" using lim Some by (metis not_le option.distinct(1))
    from rel [unfolded Some] obtain it where it: "iter_objs st i = Some (magic, Some it)" "it_kind it = es_kind e"
      "es_index e = None \<longrightarrow> it_obj it = JV_undefined \<and> it_cur_record it = None"
      "\<forall>j. es_index e = Some j \<longrightarrow> it_obj it = JV_object m" by (rule iter_at_rel)
    have cur: "iter_cur st i = it_cur_record it" using it(1) by (simp add: iter_cur_def)
    have "\<exists>st1. (case (it_obj it, it_cur_record it) of
           (JV_object p, Some a) \<Rightarrow> if map_objs st p \<noteq> None then map_decref_record a st else Some st
         | _ \<Rightarrow> Some st) = Some st1 \<and> core m magic xs (other_locks st i) st1 \<and> frame st st1 \<and> refs st1 = refs st"
    proof (cases "it_cur_record it")
      case None
      then have "iter_locks st = other_locks st i" using iter_locks_split [OF cfin, of i] cur by simp
      with None xs(2) show ?thesis by (simp add: frame_def split: jsv.split)
    next
      case (Some a)
      have a: "a \<in> set (map fst xs)" by (rule iter_cur_rel [OF rel]) (simp add: cur Some)
      then obtain x where x: "(a, x) \<in> set xs" by auto
      have n: "iter_locks st = (other_locks st i)(a := Suc (other_locks st i a))"
        using iter_locks_split [OF cfin, of i] cur Some by simp
      from core_decref [OF xs(2) x] obtain st1 where "map_decref_record a st = Some st1"
        "core m magic xs (other_locks st i) st1" "frame st st1" "refs st1 = refs st" by (auto simp: n)
      moreover have "it_obj it = JV_object m" using it(3,4) Some by (cases "es_index e") auto
      moreover have "map_objs st m \<noteq> None" using xs(2) by (auto simp: core_def)
      ultimately show ?thesis using Some by simp
    qed
    then obtain st1 where st1: "(case (it_obj it, it_cur_record it) of
           (JV_object p, Some a) \<Rightarrow> if map_objs st p \<noteq> None then map_decref_record a st else Some st
         | _ \<Rightarrow> Some st) = Some st1" "core m magic xs (other_locks st i) st1" "frame st st1" "refs st1 = refs st" by blast
    let ?st = "(JS_FreeValue (it_obj it) st1)\<lparr>iter_objs := (iter_objs st1)(i := None)\<rparr>"
    have io: "iter_objs ?st = (iter_objs st)(i := None)" "next_obj ?st = next_obj st" using st1(3) by (simp_all add: frame_def)
    have "iter_cur ?st i = None" by (simp add: iter_cur_def)
    then have lk: "iter_locks ?st = other_locks st i" using locks_after [OF cfin io(1)] by simp
    have "represents m magic ext ?st (sp\<lparr>es_iters := (es_iters sp)(i := None), es_next_iter := next_obj ?st\<rparr>)"
    proof (rule represents_iter [OF assms xs(1,3) _ io(1)])
      show "core m magic xs (iter_locks ?st) ?st" unfolding lk using st1(2) by simp
      show "iter_rel m magic (map fst xs) None None" by (simp add: iter_rel_def)
    next
      fix v :: jsv assume "counted v"
      then show "refs ?st v - refs st v = ext v - ext v + of_bool (v = JV_object m) *
          (of_bool (unfinished None) - of_bool (unfinished (es_iters sp i)))"
        using it(3,4) Some by (cases "es_index e") (auto simp: free_refs st1(4) unfinished_def)
    qed (use i io(2) in simp_all)
    then have "represents m magic ext ?st (sp\<lparr>es_iters := (es_iters sp)(i := None)\<rparr>)"
      by (simp add: io(2) nxt [symmetric])
    from represents_result(2) [OF this, of JV_undefined] show ?thesis using it(1) st1(1)
      by (simp add: map_step_def js_map_iterator_finalizer_def es_step_def refines_def)
  qed
qed

lemma create_refines:
  assumes "represents m magic ext st sp"
  shows "refines (refuses A \<or> refuses_objects B) m magic ext sp (es_step magic (JV_object m) (Op_iterator kind) sp)
    (map_step A B magic (JV_object m) (Op_iterator kind) st)"
proof -
  from assms obtain xs where xs: "es_entries sp = map snd xs" "core m magic xs (iter_locks st) st"
    "\<forall>i. iter_rel m magic (map fst xs) (iter_objs st i) (es_iters sp i)" and
    fin: "finite {i. es_iters sp i \<noteq> None}" and lim: "\<forall>i \<ge> next_obj st. es_iters sp i = None"
    and nxt: "es_next_iter sp = next_obj st" by (rule representsE)
  have cfin: "finite {k. iter_cur st k = Some a}" for a by (rule finite_cur [OF fin xs(3)])
  let ?i = "next_obj st"
  have es: "es_iters sp ?i = None" using lim by simp
  have "iter_rel m magic (map fst xs) (iter_objs st ?i) (es_iters sp ?i)" using xs(3) by blast
  then have ni: "iter_objs st ?i = None" by (simp add: es iter_rel_def)
  from core_opaque [OF xs(2)] obtain s where s: "map_opaque st (JV_object m) magic = Some (m, s)" by blast
  obtain st1 ok where so: "store_object B st = (st1, ok)" by (cases "store_object B st")
  note f1 = store_objectD [OF so]
  show ?thesis
  proof (cases ok)
    case False
    have "represents m magic ext st1 sp" by (rule represents_frame [OF assms f1(9,5,6,4)])
    with False f1(1) s so show ?thesis
      by (simp add: map_step_def js_create_map_iterator_def es_step_def refines_def)
  next
    case True
    define st2 where "st2 = st1\<lparr>next_obj := Suc ?i, iter_objs := (iter_objs st1)(?i \<mapsto> (magic, None))\<rparr>"
    obtain st3 al where al: "store_alloc A sizeof_JSMapIteratorData st2 = (st3, al)"
      by (cases "store_alloc A sizeof_JSMapIteratorData st2")
    note f3 = store_alloc_simps [OF al]
    have code: "map_step A B magic (JV_object m) (Op_iterator kind) st = (case al of
        None \<Rightarrow> Some (st3\<lparr>next_obj := ?i, iter_objs := (iter_objs st3)(?i := None)\<rparr>, Exception, False)
      | Some _ \<Rightarrow> Some (put_iter ?i \<lparr>it_obj = JV_object m, it_kind = kind, it_cur_record = None\<rparr>
          (JS_DupValue (JV_object ?i) (JS_DupValue (JV_object m) st3)), Value (JV_object ?i), False))"
      using s so True al f1(6)
      by (cases al) (simp_all add: map_step_def js_create_map_iterator_def st2_def [symmetric] Let_def)
    show ?thesis
    proof (cases al)
      case None
      have "refuses A" using al None by (auto simp: store_alloc_def split: prod.splits option.splits intro: refusesI)
      moreover have "represents m magic ext (st3\<lparr>next_obj := ?i, iter_objs := (iter_objs st3)(?i := None)\<rparr>) sp"
        by (rule represents_frame [OF assms]) (use f3 f1 ni in \<open>simp_all add: st2_def fun_upd_idem\<close>)
      ultimately show ?thesis unfolding code None by (simp add: refines_def split_def)
    next
      case (Some slack)
      let ?it = "\<lparr>it_obj = JV_object m, it_kind = kind, it_cur_record = None\<rparr>"
      let ?e = "\<lparr>es_kind = kind, es_index = Some 0\<rparr>"
      define st4 where "st4 = put_iter ?i ?it (JS_DupValue (JV_object m) st3)"
      have io: "iter_objs st4 = (iter_objs st)(?i := Some (magic, Some ?it))" "refs st4 = refs (JS_DupValue (JV_object m) st)"
        "next_obj st4 = Suc ?i" "core m magic xs n st4 = core m magic xs n st" for n
        using put_iter_simps [of "JS_DupValue (JV_object m) st3" ?i magic None] f3 f1
        by (simp_all add: st4_def st2_def JS_DupValue_def)
      have "iter_cur st4 ?i = None" "iter_cur st ?i = None" by (simp_all add: iter_cur_def io ni)
      then have lk: "iter_locks st4 = iter_locks st" using locks_after [OF cfin io(1)] iter_locks_split [OF cfin, of ?i] by simp
      have r: "represents m magic ext st4 (sp\<lparr>es_iters := (es_iters sp)(?i := Some ?e), es_next_iter := next_obj st4\<rparr>)"
      proof (rule represents_iter [OF assms xs(1,3) _ io(1)])
        show "core m magic xs (iter_locks st4) st4" unfolding lk io(4) by (rule xs(2))
        show "iter_rel m magic (map fst xs) (Some (magic, Some ?it)) (Some ?e)" by (simp add: iter_rel_def)
      qed (use io es in \<open>simp_all add: unfinished_def dup_refs\<close>)
      have "put_iter ?i ?it (JS_DupValue (JV_object ?i) (JS_DupValue (JV_object m) st3)) = JS_DupValue (JV_object ?i) st4"
        by (auto simp: st4_def put_iter_def JS_DupValue_def split: option.splits prod.splits)
      with represents_result(1) [OF r, of "JV_object ?i"] show ?thesis unfolding code Some
        by (simp add: es_step_def refines_def nxt io(3))
    qed
  qed
qed

section \<open>Every operation\<close>

context block_allocator
begin

lemma step_refines:
  assumes "represents m magic ext st sp" "op_ok p"
  shows "refines (refuses A \<or> refuses_objects B) m magic ext sp (es_step magic (JV_object m) p sp)
    (map_step A B magic (JV_object m) p st)"
proof -
  have mono: "refines b m magic ext sp x y \<Longrightarrow> (b \<Longrightarrow> c) \<Longrightarrow> refines c m magic ext sp x y" for b c x and y :: "('a map_store \<times> js_result \<times> bool) option"
    by (auto simp: refines_def split: option.splits prod.splits)
  show ?thesis
  proof (cases p)
    case (Op_set k v)
    then show ?thesis using mono [OF set_refines [OF assms(1)]] assms(2) by simp
  qed (use assms mono [OF get_refines] mono [OF has_refines] mono [OF delete_refines] mono [OF clear_refines]
      mono [OF size_refines] mono [OF next_refines] mono [OF drop_refines] create_refines in auto)
qed

end

section \<open>Sequences of operations\<close>

fun map_run :: "'m alloc \<Rightarrow> ('m \<Rightarrow> 'm \<times> bool) \<Rightarrow> nat \<Rightarrow> jsv \<Rightarrow> map_op list \<Rightarrow> 'm map_store
    \<Rightarrow> ('m map_store \<times> (js_result \<times> bool) list) option" where
  "map_run A B magic this_val [] st = Some (st, [])"
| "map_run A B magic this_val (p # ps) st = do {
     (st, r, d) \<leftarrow> map_step A B magic this_val p st;
     (st, os) \<leftarrow> map_run A B magic this_val ps st;
     Some (st, (r, d) # os) }"

text \<open>
  \<open>es_explains\<close>: the specification gives these results, where an operation may have thrown instead
  if memory can run out, and then left the map as it was or as after the operation.
\<close>

fun es_explains :: "bool \<Rightarrow> nat \<Rightarrow> jsv \<Rightarrow> es_map \<Rightarrow> map_op list \<Rightarrow> (js_result \<times> bool) list \<Rightarrow> es_map \<Rightarrow> bool" where
  "es_explains f magic this_val sp [] [] sp' \<longleftrightarrow> sp' = sp"
| "es_explains f magic this_val sp (p # ps) (out # outs) sp' \<longleftrightarrow>
    (case es_step magic this_val p sp of (sp1, r, d) \<Rightarrow>
       out = (r, d) \<and> es_explains f magic this_val sp1 ps outs sp'
       \<or> f \<and> out = (Exception, False)
         \<and> (es_explains f magic this_val sp ps outs sp' \<or> es_explains f magic this_val sp1 ps outs sp'))"
| "es_explains f magic this_val sp _ _ sp' \<longleftrightarrow> False"

definition handed_out :: "(js_result \<times> bool) list \<Rightarrow> jsv \<Rightarrow> int" where
  "handed_out outs v = (\<Sum>out \<leftarrow> outs. result_refs (fst out) v)"

context block_allocator
begin

lemma run_refines:
  assumes "represents m magic ext st sp" "\<forall>p \<in> set ps. op_ok p"
  shows "\<exists>st' outs sp'. map_run A B magic (JV_object m) ps st = Some (st', outs)
    \<and> es_explains (refuses A \<or> refuses_objects B) magic (JV_object m) sp ps outs sp'
    \<and> represents m magic (\<lambda>v. ext v + handed_out outs v) st' sp'"
  using assms
proof (induction ps arbitrary: st sp ext)
  case Nil
  then show ?case by (auto simp: handed_out_def)
next
  case (Cons p ps)
  let ?f = "refuses A \<or> refuses_objects B"
  obtain sp1 r1 d1 where es: "es_step magic (JV_object m) p sp = (sp1, r1, d1)" by (cases "es_step magic (JV_object m) p sp")
  have "refines ?f m magic ext sp (es_step magic (JV_object m) p sp) (map_step A B magic (JV_object m) p st)"
    by (rule step_refines) (use Cons.prems in simp_all)
  then obtain st1 r d where st1: "map_step A B magic (JV_object m) p st = Some (st1, r, d)"
    and alt: "r = r1 \<and> d = d1 \<and> represents m magic (\<lambda>v. ext v + result_refs r v) st1 sp1
      \<or> ?f \<and> r = Exception \<and> \<not> d \<and> (represents m magic ext st1 sp \<or> represents m magic ext st1 sp1)"
    by (auto simp: refines_def es split: option.splits)
  have thr: "(\<lambda>v. ext v + result_refs Exception v) = ext" by (simp add: result_refs_def)
  from alt obtain sp2 where sp2: "represents m magic (\<lambda>v. ext v + result_refs r v) st1 sp2"
    and how: "r = r1 \<and> d = d1 \<and> sp2 = sp1 \<or> ?f \<and> r = Exception \<and> \<not> d \<and> (sp2 = sp \<or> sp2 = sp1)"
  proof -
    consider "r = r1" "d = d1" "represents m magic (\<lambda>v. ext v + result_refs r v) st1 sp1"
      | "?f" "r = Exception" "\<not> d" "represents m magic ext st1 sp"
      | "?f" "r = Exception" "\<not> d" "represents m magic ext st1 sp1" using alt by blast
    then show thesis
    proof cases
      case 1
      then show ?thesis by (intro that [of sp1]) simp_all
    next
      case 2
      then show ?thesis by (intro that [of sp]) (simp_all add: thr)
    next
      case 3
      then show ?thesis by (intro that [of sp1]) (simp_all add: thr)
    qed
  qed
  from Cons.IH [OF sp2] Cons.prems(2) obtain st' outs sp' where
    run: "map_run A B magic (JV_object m) ps st1 = Some (st', outs)"
      "es_explains ?f magic (JV_object m) sp2 ps outs sp'"
      "represents m magic (\<lambda>v. ext v + result_refs r v + handed_out outs v) st' sp'" by auto
  have "map_run A B magic (JV_object m) (p # ps) st = Some (st', (r, d) # outs)" by (simp add: st1 run(1))
  moreover have "es_explains ?f magic (JV_object m) sp (p # ps) ((r, d) # outs) sp'" using how run(2) by (auto simp: es)
  moreover have "represents m magic (\<lambda>v. ext v + handed_out ((r, d) # outs) v) st' sp'"
    using run(3) by (simp add: handed_out_def add.assoc)
  ultimately show ?case by blast
qed

end

text \<open>A new map of the specification, and a store without iterators.\<close>

definition es_new :: "nat \<Rightarrow> es_map" where
  "es_new i = \<lparr>es_entries = [], es_iters = (\<lambda>_. None), es_next_iter = i\<rparr>"

lemma constructor_represents:
  assumes "js_map_constructor A B magic st = (st', Value (JV_object m))" "iter_objs st = (\<lambda>_. None)" "\<not> is_weak_magic magic"
  shows "represents m magic (\<lambda>v. refs st v + of_bool (v = JV_object m)) st' (es_new (next_obj st'))"
proof -
  obtain st1 ok where so: "store_object B st = (st1, ok)" by (cases "store_object B st")
  note f1 = store_objectD [OF so]
  from assms(1) so have ok by (cases ok) (simp_all add: js_map_constructor_def)
  let ?m = "next_obj st1"
  define st2 where "st2 = st1\<lparr>next_obj := Suc ?m, map_objs := (map_objs st1)(?m \<mapsto> (magic, None))\<rparr>"
  obtain st3 o3 where a3: "store_alloc A sizeof_JSMapState st2 = (st3, o3)" by (cases "store_alloc A sizeof_JSMapState st2")
  obtain st4 o4 where a4: "store_alloc A (sizeof_list_head * 1) st3 = (st4, o4)" by (cases "store_alloc A (sizeof_list_head * 1) st3")
  note f3 = store_alloc_simps [OF a3] and f4 = store_alloc_simps [OF a4]
  define s where "s = \<lparr>ms_is_weak = is_weak_magic magic, ms_records = [], ms_record_count = 0,
    ms_hash_table = [[]], ms_hash_size = 1, ms_threshold = 4\<rparr>"
  from assms(1) so \<open>ok\<close> a3 a4 have e: "m = ?m" "st' = put_map ?m s (JS_DupValue (JV_object ?m) st4)"
    by (auto simp: js_map_constructor_def st2_def [symmetric] s_def Let_def split: option.splits)
  have mo: "map_objs st4 ?m = Some (magic, None)" using f3 f4 by (simp add: st2_def)
  then have st': "map_objs st' = (map_objs st4)(?m \<mapsto> (magic, Some s))" "iter_objs st' = (\<lambda>_. None)"
    "refs st' = refs (JS_DupValue (JV_object ?m) st)"
    using f3 f4 f1 assms(2) by (auto simp: e st2_def JS_DupValue_def)
  have "state_ok [] (iter_locks st') s"
    using assms(3) by (simp add: state_ok_def s_def linked_def bucket_of_def)
  then have "core m magic [] (iter_locks st') st'" using e(1) st'(1) by (simp add: core_def slots_ok_def)
  moreover have "iter_rel m magic [] (iter_objs st' i) None" for i by (simp add: iter_rel_def st'(2))
  ultimately show ?thesis
    using st'(3) e(1) by (auto simp: represents_def es_new_def map_refs_def running_def unfinished_def dup_refs)
qed



section \<open>Witnesses\<close>

definition demo_store :: "unit map_store" where
  "demo_store = \<lparr>memory = (), recs = (\<lambda>_. None), map_objs = (\<lambda>_. None), iter_objs = (\<lambda>_. None),
     weak_refs = (\<lambda>_. []), next_rec = 1, next_obj = 1, refs = (\<lambda>_. 0), pending_oom = False\<rparr>"

definition always :: "unit \<Rightarrow> unit \<times> bool" where
  "always y = (y, True)"

definition demo_ops :: "map_op list" where
  "demo_ops = [Op_set (JV_object 7) (JV_object 8), Op_iterator JS_ITERATOR_KIND_KEY, Op_next 2, Op_delete (JV_object 7),
     Op_next 2, Op_get (JV_object 7)]"

definition demo_map :: "unit map_store" where
  "demo_map = fst (js_map_constructor limited always 0 demo_store)"

lemma demo_constructed: "js_map_constructor limited always 0 demo_store = (demo_map, Value (JV_object 1))"
  by (simp add: demo_map_def js_map_constructor_def store_object_def store_alloc_def limited_def always_def demo_store_def
      sizeof_JSMapState_def sizeof_list_head_def)

lemma demo_ops_ok: "\<forall>p \<in> set demo_ops. op_ok p"
  by (simp add: demo_ops_def op_ok_def map_normalize_key_def map_key_def)

lemma demo_ready: "iter_objs demo_store = (\<lambda>_. None)" "\<not> is_weak_magic 0"
  by (simp_all add: demo_store_def is_weak_magic_def)

lemma demo_next: "next_obj demo_map = 2"
  by code_simp



end
