(* ===== verification/MapSetLimits.thy ===== *)
theory MapSetLimits
  imports MapSetRefine
begin

text \<open>
  Where the keyed collections fall short of their specification: equal numbers that are stored with
  different tags are different keys once the table has grown, and a weak map counts the records of
  dead keys for ever, so that its table grows with every key it has ever seen.
\<close>

section \<open>Equal numbers, different keys\<close>

text \<open>The float64 of value 1, as \<open>0.5 + 0.5\<close> computes it.\<close>

definition float_one :: jsv where
  "float_one = JV_float 0x3ff0000000000000"

definition number_ops :: "map_op list" where
  "number_ops = [Op_set (JV_int 1) (JV_bool True), Op_get float_one, Op_set (JV_int 2) JV_null, Op_set (JV_int 3) JV_null,
     Op_set (JV_int 4) JV_null, Op_get (JV_int 1), Op_get float_one, Op_set float_one JV_null, Op_size]"

lemma one_bits: "0x3ff0000000000000 = f64_of_int (sint (1 :: s32))"
  by (simp add: f64_of_int_def f64_mag_bits_def ilog2.simps)

lemma float_one_int: "float_one = JV_float (f64_of_int (sint (1 :: s32)))"
  unfolding float_one_def one_bits ..

lemma number_keys:
  "js_same_value_zero (JV_int i) (JV_int j) \<longleftrightarrow> i = j"
  "js_same_value_zero (JV_int i) float_one \<longleftrightarrow> i = 1"
  "js_same_value_zero float_one (JV_int j) \<longleftrightarrow> 1 = j"
  "js_same_value_zero float_one float_one"
  "map_normalize_key (JV_int i) = JV_int i" "map_normalize_key float_one = float_one"
proof -
  have z: "0 = f64_of_int (sint (0 :: s32))" by (simp add: f64_of_int_def)
  show "js_same_value_zero (JV_int i) (JV_int j) \<longleftrightarrow> i = j"
    "js_same_value_zero (JV_int i) float_one \<longleftrightarrow> i = 1" "js_same_value_zero float_one (JV_int j) \<longleftrightarrow> 1 = j"
    "js_same_value_zero float_one float_one" "map_normalize_key (JV_int i) = JV_int i"
    unfolding js_same_value_zero_def js_strict_eq2_def number_test_def float_one_int map_normalize_key_def jsv.case
    by (simp_all only: of_int_s32_inj of_int_s32_not_nan eq_mode.distinct if_False if_True simp_thms)
  show "map_normalize_key float_one = float_one"
    unfolding float_one_int map_normalize_key_def jsv.case
    by (subst z) (simp only: of_int_s32_inj, simp)
qed

lemma number_hashes:
  "map_hash_key (JV_int 1) = 0xe480b200"
  "map_hash_key (JV_int 2) = 0xaa30b200"
  "map_hash_key (JV_int 3) = 0x238c8580"
  "map_hash_key (JV_int 4) = 0x6fe0b200"
  "map_hash_key float_one = 0xfa500007"
proof -
  have "\<not> f64_nan 0x3ff0000000000000" unfolding one_bits by (rule of_int_s32_not_nan)
  then show "map_hash_key float_one = 0xfa500007" by (simp add: map_hash_key_def hash_float64_def float_one_def)
qed (simp_all add: map_hash_key_def hash_float64_def f64_of_int_def f64_mag_bits_def ilog2.simps)

lemma numbers_distinct: "JV_int i \<noteq> float_one" "float_one \<noteq> JV_int i" "counted float_one = False"
  by (simp_all add: float_one_def counted_def)

lemma numbers_run:
  "map_option snd (map_run limited always 0 (JV_object 1) number_ops demo_map) = Some
      [(Value (JV_object 1), False), (Value (JV_bool True), False), (Value (JV_object 1), False), (Value (JV_object 1), False),
       (Value (JV_object 1), False), (Value (JV_bool True), False), (Value JV_undefined, False), (Value (JV_object 1), False),
       (Value (JV_int 5), False)]"
  by (simp add: number_ops_def map_run.simps map_step_def js_map_set_def js_map_get_def js_map_get_size_def
      map_opaque_def map_of_obj_def demo_map_def demo_store_def js_map_constructor_def store_object_def store_alloc_def
      limited_def always_def put_map_def put_rec_def JS_DupValue_def JS_FreeValue_def is_weak_magic_def is_set_def
      map_find_record_def table_slot_def number_keys number_hashes numbers_distinct Let_def JS_NewUint32_def
      sizeof_JSMapState_def sizeof_list_head_def sizeof_JSMapRecord_def map_add_record_def table_add_tail_def map_hash_resize_def)
    (simp add: word_le_nat_alt)


section \<open>Dead keys of weak maps\<close>

text \<open>A key is entered into the weak map, and then its object dies.\<close>

definition weak_cycle :: "'m alloc \<Rightarrow> nat \<Rightarrow> nat \<Rightarrow> jsv \<Rightarrow> nat \<Rightarrow> 'm map_store \<Rightarrow> 'm map_store option" where
  "weak_cycle A magic m v p st = do {
     (st, _) \<leftarrow> js_map_set A (JV_object m) (JV_object p) v magic st;
     reset_weak_ref p st }"

fun weak_cycles :: "'m alloc \<Rightarrow> nat \<Rightarrow> nat \<Rightarrow> jsv \<Rightarrow> nat list \<Rightarrow> 'm map_store \<Rightarrow> 'm map_store option" where
  "weak_cycles A magic m v [] st = Some st"
| "weak_cycles A magic m v (p # ps) st = do {
     st \<leftarrow> weak_cycle A magic m v p st;
     weak_cycles A magic m v ps st }"

text \<open>An empty weak map that has seen \<open>c\<close> keys die.\<close>

definition forgotten :: "nat \<Rightarrow> nat \<Rightarrow> nat \<Rightarrow> 'm map_store \<Rightarrow> bool" where
  "forgotten magic m c st \<longleftrightarrow> (\<exists>s. map_objs st m = Some (magic, Some s) \<and> ms_is_weak s \<and> ms_records s = []
     \<and> ms_hash_table s = replicate (unat (ms_hash_size s)) [] \<and> ms_record_count s = of_nat c
     \<and> 0 < unat (ms_hash_size s) \<and> unat (ms_hash_size s) \<le> max 4 c
     \<and> ms_threshold s = (if ms_hash_size s = 1 then 4 else ms_hash_size s * 2)
     \<and> of_nat c < ms_threshold s)"

lemma slot_zero: "0 < unat n \<Longrightarrow> table_slot (replicate (unat n) []) (h AND (n - 1)) = Some []"
  using and_mask_less [of n h] by (simp add: table_slot_def word_gt_0 unat_gt_0)

lemma table_add_single:
  assumes "0 < unat n"
  shows "table_add_tail (replicate (unat n) []) (h AND (n - 1)) a = Some ((replicate (unat n) [])[unat (h AND (n - 1)) := [a]])"
  using slot_zero [OF assms, of h] by (simp add: table_add_tail_def)

lemma unlink_single: "map (remove1 a) ((replicate k [])[i := [a]]) = replicate k []"
  by (cases "i < k") (auto simp: nth_list_update list_update_beyond intro!: nth_equalityI)

text \<open>The state after the key has been entered, whether the table was resized or not.\<close>

definition one_record :: "nat \<Rightarrow> nat \<Rightarrow> nat \<Rightarrow> nat \<Rightarrow> 'm map_store \<Rightarrow> bool" where
  "one_record magic m c a st \<longleftrightarrow> (\<exists>s i. map_objs st m = Some (magic, Some s) \<and> ms_is_weak s \<and> ms_records s = [a]
     \<and> ms_hash_table s = (replicate (unat (ms_hash_size s)) [])[i := [a]] \<and> ms_record_count s = of_nat c
     \<and> 0 < unat (ms_hash_size s) \<and> unat (ms_hash_size s) \<le> max 4 c
     \<and> ms_threshold s = (if ms_hash_size s = 1 then 4 else ms_hash_size s * 2)
     \<and> of_nat c < ms_threshold s)"

lemma unat_double: "unat (h :: u32) < 2 ^ 31 \<Longrightarrow> unat (h * 2) = unat h * 2"
  by (subst unat_mult_lem [THEN iffD1]) simp_all

lemma of_nat_u32: "c < 2 ^ 32 \<Longrightarrow> unat (of_nat c :: u32) = c"
  by (rule unat_of_nat_small) simp

lemma weak_add:
  assumes "forgotten magic m c st" "c < 2 ^ 28" "weak_refs st p = []"
  shows "\<exists>st' mr. map_add_record limited m (JV_object p) st = Some (st', Some (next_rec st))
    \<and> one_record magic m (Suc c) (next_rec st) st' \<and> weak_refs st' = (weak_refs st)(p := [next_rec st])
    \<and> recs st' (next_rec st) = Some mr \<and> mr_key mr = JV_object p \<and> mr_map mr = m \<and> \<not> mr_empty mr"
proof -
  from assms(1) obtain s where s: "map_objs st m = Some (magic, Some s)" "ms_is_weak s" "ms_records s = []"
    "ms_hash_table s = replicate (unat (ms_hash_size s)) []" "ms_record_count s = of_nat c"
    "0 < unat (ms_hash_size s)" "unat (ms_hash_size s) \<le> max 4 c"
    "ms_threshold s = (if ms_hash_size s = 1 then 4 else ms_hash_size s * 2)" "of_nat c < ms_threshold s"
    unfolding forgotten_def by blast
  let ?a = "next_rec st" and ?h = "map_hash_key (JV_object p)" and ?z = "ms_hash_size s"
  define mr where "mr = \<lparr>mr_ref_count = 1, mr_empty = False, mr_map = m, mr_key = JV_object p, mr_value = JV_undefined\<rparr>"
  define s1 where "s1 = s\<lparr>ms_hash_table := (replicate (unat ?z) [])[unat (?h AND (?z - 1)) := [?a]], ms_records := [?a],
    ms_record_count := of_nat (Suc c)\<rparr>"
  define st1 where "st1 = put_map m s1 ((put_rec ?a mr (st\<lparr>weak_refs := (weak_refs st)(p := [?a])\<rparr>))\<lparr>next_rec := Suc ?a\<rparr>)"
  have al: "store_alloc limited sizeof_JSMapRecord st = (st, Some 0)"
    by (simp add: store_alloc_def limited_def sizeof_JSMapRecord_def)
  have add: "map_add_record limited m (JV_object p) st = (if ms_record_count s1 \<ge> ms_threshold s
      then map_option (\<lambda>st. (st, Some ?a)) (map_hash_resize limited m st1) else Some (st1, Some ?a))"
    using s assms(3) table_add_single [OF s(6), of ?h ?a]
    by (simp add: map_add_record_def map_of_obj_def al st1_def s1_def mr_def Let_def map_conv_bind_option comp_def add.commute)
  have m1: "map_objs st1 m = Some (magic, Some s1)" "weak_refs st1 = (weak_refs st)(p := [?a])" "recs st1 ?a = Some mr"
    using s(1) by (simp_all add: st1_def put_map_def put_rec_def)
  have z: "unat ?z < 2 ^ 31" "unat (?z * 2) = unat ?z * 2" using s(7) assms(2) by (auto intro: unat_double)
  show ?thesis
  proof (cases "ms_record_count s1 \<ge> ms_threshold s")
    case False
    then have "one_record magic m (Suc c) ?a st1"
      using s m1(1) unfolding one_record_def
      by (intro exI [of _ s1] exI [of _ "unat (?h AND (?z - 1))"]) (auto simp: s1_def not_le le_max_iff_disj)
    then show ?thesis using False add m1 by (auto simp: mr_def)
  next
    case True
    define n where "n = (if ?z = 1 then 4 else ?z * 2)"
    have un: "unat n = Suc c"
    proof -
      have "unat n = (if ?z = 1 then 4 else unat ?z * 2)" using z by (simp add: n_def)
      moreover have "c < unat n" using s(8,9) assms(2) by (simp add: n_def word_less_nat_alt of_nat_u32)
      moreover have "unat n \<le> Suc c" using True s(8) assms(2) of_nat_u32 [of "Suc c"] by (simp add: n_def s1_def word_le_nat_alt)
      ultimately show ?thesis by simp
    qed
    have n4: "unat n \<ge> 4 \<or> n = ?z * 2 \<and> ?z \<noteq> 1" by (simp add: n_def)
    have n1: "n \<noteq> 1"
    proof
      assume "n = 1"
      with n4 have "unat ?z * 2 = 1" using z by auto
      then show False by presburger
    qed
    have nf: "n = (if ms_hash_size s1 = 1 then 4 else ms_hash_size s1 * 2)" by (simp add: n_def s1_def)
    have f1: "ms_hash_size s1 = ?z" "ms_records s1 = [?a]" by (simp_all add: s1_def)
    define s2 where "s2 = s1\<lparr>ms_hash_table := (replicate (unat n) [])[unat (?h AND (n - 1)) := [?a]], ms_hash_size := n, ms_threshold := n * 2\<rparr>"
    have "16 * uint n < 2 ^ 34" using un assms(2) by (simp add: uint_nat)
    then have al2: "store_alloc limited (sizeof_list_head * uint n) st1 = (st1, Some 0)"
      by (simp add: store_alloc_def limited_def sizeof_list_head_def)
    have "\<not> mr_empty mr" "mr_key mr = JV_object p" by (simp_all add: mr_def)
    moreover have "table_add_tail (replicate (unat n) []) (?h AND (n - 1)) ?a = Some ((replicate (unat n) [])[unat (?h AND (n - 1)) := [?a]])"
      by (rule table_add_single) (simp add: un)
    ultimately have "map_hash_resize limited m st1 = Some (put_map m s2 st1)"
      using m1 al2 f1(2) by (simp add: map_hash_resize_def map_of_obj_def s2_def nf [symmetric] Let_def del: distrib_right_numeral)
    moreover have "unat (n * 2) = Suc c * 2" using un assms(2) by (subst unat_double) simp_all
    then have "of_nat (Suc c) < n * 2" using assms(2) of_nat_u32 [of "Suc c"] by (simp add: word_less_nat_alt)
    then have "one_record magic m (Suc c) ?a (put_map m s2 st1)"
      using s m1(1) un n1 unfolding one_record_def
      by (intro exI [of _ s2] exI [of _ "unat (?h AND (n - 1))"]) (simp add: s2_def s1_def)
    ultimately show ?thesis using True add m1 by (auto simp: mr_def put_map_def)
  qed
qed

text \<open>One cycle leaves the map empty and its count one higher.\<close>

lemma weak_cycle_counts:
  assumes "forgotten magic m c st" "c < 2 ^ 28" "weak_refs st p = []"
  shows "\<exists>st'. weak_cycle limited magic m v p st = Some st' \<and> forgotten magic m (Suc c) st' \<and> weak_refs st' = weak_refs st"
proof -
  from assms(1) obtain s where s: "map_objs st m = Some (magic, Some s)" "ms_is_weak s"
    "ms_hash_table s = replicate (unat (ms_hash_size s)) []" "0 < unat (ms_hash_size s)"
    unfolding forgotten_def by blast
  from weak_add [OF assms] obtain st1 mr where st1: "map_add_record limited m (JV_object p) st = Some (st1, Some (next_rec st))"
    "one_record magic m (Suc c) (next_rec st) st1" "weak_refs st1 = (weak_refs st)(p := [next_rec st])"
    "recs st1 (next_rec st) = Some mr" "mr_key mr = JV_object p" "mr_map mr = m" "\<not> mr_empty mr" by blast
  let ?a = "next_rec st" and ?w = "if is_set magic then JV_undefined else v"
  have find: "map_find_record st s (JV_object p) = Some None"
    using slot_zero [OF s(4)] s(3) by (simp add: map_find_record_def)
  define st2 where "st2 = JS_DupValue (JV_object m) (put_rec ?a (mr\<lparr>mr_value := ?w\<rparr>) (JS_DupValue ?w st1))"
  have set: "js_map_set limited (JV_object m) (JV_object p) v magic st = Some (st2, Value (JV_object m))"
    using s find st1(1,4)
    by (simp add: js_map_set_def map_opaque_def map_normalize_key_def JS_IsObject_def st2_def Let_def)
  have m2: "map_objs st2 = map_objs st1" "weak_refs st2 = weak_refs st1" "recs st2 ?a = Some (mr\<lparr>mr_value := ?w\<rparr>)"
    by (auto simp: st2_def put_rec_def JS_DupValue_def)
  from st1(2) obtain s1 i where s1: "map_objs st1 m = Some (magic, Some s1)" "ms_is_weak s1" "ms_records s1 = [?a]"
    "ms_hash_table s1 = (replicate (unat (ms_hash_size s1)) [])[i := [?a]]" "ms_record_count s1 = of_nat (Suc c)"
    "0 < unat (ms_hash_size s1)" "unat (ms_hash_size s1) \<le> max 4 (Suc c)"
    "ms_threshold s1 = (if ms_hash_size s1 = 1 then 4 else ms_hash_size s1 * 2)" "of_nat (Suc c) < ms_threshold s1"
    unfolding one_record_def by blast
  define s3 where "s3 = unlink_record ?a (unlink_hash ?a s1)"
  define st3 where "st3 = put_map m s3 st2"
  have m3: "map_objs st3 m = Some (magic, Some s3)" "weak_refs st3 = weak_refs st1" "recs st3 ?a = recs st2 ?a"
    using m2 s1(1) by (simp_all add: st3_def put_map_def)
  define st4 where "st4 = (free_rec ?a (JS_FreeValue ?w st3))\<lparr>weak_refs := (weak_refs st3)(p := [])\<rparr>"
  have un: "weak_unlink_loop [?a] st2 = Some st3"
    using m2 s1(1,2) st1(6,7) by (simp add: map_of_obj_def st3_def s3_def)
  have fr: "weak_free_loop [?a] st3 = Some (free_rec ?a (JS_FreeValue ?w st3))"
    using m2(3) m3(3) by simp
  have reset: "reset_weak_ref p st2 = Some st4"
    unfolding reset_weak_ref_def using un fr m2(2) m3(2) st1(3)
    by (simp add: st4_def) (simp add: free_rec_def JS_FreeValue_def)
  have w4: "weak_refs st4 = weak_refs st" using assms(3) by (auto simp: st4_def m3(2) st1(3))
  have "map_objs st4 m = Some (magic, Some s3)" using m3(1) by (simp add: st4_def)
  then have "forgotten magic m (Suc c) st4"
    using s1 unfolding forgotten_def
    by (intro exI [of _ s3]) (simp add: s3_def unlink_record_def unlink_hash_def unlink_single)
  with set reset w4 show ?thesis by (simp add: weak_cycle_def)
qed

lemma weak_cycles_count:
  assumes "forgotten magic m c st" "c + length ps < 2 ^ 28" "\<forall>p \<in> set ps. weak_refs st p = []"
  shows "\<exists>st'. weak_cycles limited magic m v ps st = Some st' \<and> forgotten magic m (c + length ps) st'"
  using assms
proof (induction ps arbitrary: c st)
  case (Cons p ps)
  from weak_cycle_counts [of magic m c st p v] Cons.prems obtain st1 where
    st1: "weak_cycle limited magic m v p st = Some st1" "forgotten magic m (Suc c) st1" "weak_refs st1 = weak_refs st" by auto
  from Cons.IH [OF st1(2)] Cons.prems st1(3) obtain st2 where
    "weak_cycles limited magic m v ps st1 = Some st2" "forgotten magic m (Suc c + length ps) st2" by auto
  with st1(1) show ?case by simp
qed simp

lemma new_weak_map:
  assumes "js_map_constructor limited B magic st = (st', Value (JV_object m))" "is_weak_magic magic"
  shows "forgotten magic m 0 st'" "weak_refs st' = weak_refs st"
proof -
  from assms(1) obtain st1 where "store_object B st = (st1, True)"
    by (cases "store_object B st"; cases "snd (store_object B st)") (auto simp: js_map_constructor_def)
  moreover from this have "weak_refs st1 = weak_refs st" by (auto simp: store_object_def split: prod.splits)
  ultimately show "forgotten magic m 0 st'" "weak_refs st' = weak_refs st" using assms
    by (auto simp: js_map_constructor_def store_alloc_def limited_def sizeof_JSMapState_def sizeof_list_head_def
        put_map_def JS_DupValue_def forgotten_def Let_def)
qed

text \<open>
  C25. A weak map leaks: after \<open>n\<close> keys have been entered and have died one after the other, the map
  is empty, but \<open>reset_weak_ref\<close> has not lowered its count, which is \<open>n\<close>, and the table has been
  doubled to more than \<open>(n - 3) / 2\<close> buckets.
\<close>
theorem weak_map_table_grows:
  assumes "js_map_constructor limited B magic st = (st1, Value (JV_object m))" and "is_weak_magic magic"
    and "\<forall>p. weak_refs st p = []" and "length ps < 2 ^ 28"
  shows "\<exists>st2 s. weak_cycles limited magic m v ps st1 = Some st2 \<and> map_of_obj st2 m = Some s \<and> ms_records s = []
    \<and> ms_record_count s = of_nat (length ps) \<and> length ps < 2 * length (ms_hash_table s) + 3"
proof -
  from new_weak_map [OF assms(1,2)] weak_cycles_count [of magic m 0 st1 ps v] assms(3,4) obtain st2 where
    st2: "weak_cycles limited magic m v ps st1 = Some st2" "forgotten magic m (length ps) st2" by auto
  from st2(2) obtain s where s: "map_objs st2 m = Some (magic, Some s)" "ms_records s = []"
    "ms_hash_table s = replicate (unat (ms_hash_size s)) []" "ms_record_count s = of_nat (length ps)"
    "0 < unat (ms_hash_size s)" "unat (ms_hash_size s) \<le> max 4 (length ps)"
    "ms_threshold s = (if ms_hash_size s = 1 then 4 else ms_hash_size s * 2)" "of_nat (length ps) < ms_threshold s"
    unfolding forgotten_def by blast
  have "length ps < (if ms_hash_size s = 1 then 4 else unat (ms_hash_size s) * 2)"
    using s(6-8) assms(4) unat_double [of "ms_hash_size s"] by (auto simp: word_less_nat_alt of_nat_u32)
  then have "length ps < 2 * length (ms_hash_table s) + 3" using s(3) by (auto split: if_splits)
  with st2(1) s show ?thesis by (auto simp: map_of_obj_def)
qed

theorem weak_map_table_grows_witness:
  "\<exists>st2 s. weak_cycles limited 2 1 JV_null (replicate 100 7) (fst (js_map_constructor limited always 2 demo_store)) = Some st2
    \<and> map_of_obj st2 1 = Some s \<and> ms_records s = [] \<and> 48 < length (ms_hash_table s)"
proof -
  have "js_map_constructor limited always 2 demo_store = (fst (js_map_constructor limited always 2 demo_store), Value (JV_object 1))"
    by (simp add: js_map_constructor_def store_object_def store_alloc_def limited_def always_def demo_store_def
      sizeof_JSMapState_def sizeof_list_head_def)
  from weak_map_table_grows [OF this, of "replicate 100 7" JV_null] show ?thesis
    by (fastforce simp: is_weak_magic_def demo_store_def)
qed

end
