(* ===== verification/MultiLimb.thy ===== *)
theory MultiLimb
  imports Bridge_Prelude
begin

text \<open>
  The multi-limb integer arithmetic of \<open>quickjs/libbf.c\<close> under big integers: arrays of 64-bit limbs,
  the least significant first, and the loops over them with their carries. A function that stores
  through \<open>res\<close> or \<open>tabr\<close> returns the new array; in-place calls read each limb before they store
  it, so that they need no more. \<open>limbs_val\<close> is the number an array denotes, and each loop is shown to
  compute on it.
\<close>

type_synonym limb = u64
type_synonym dlimb = "128 word"

definition B :: nat where "B = 2 ^ 64"

fun limbs_val :: "limb list \<Rightarrow> nat" where
  "limbs_val [] = 0"
| "limbs_val (x # xs) = unat x + B * limbs_val xs"

section \<open>Addition and subtraction\<close>

fun mp_add :: "limb list \<Rightarrow> limb list \<Rightarrow> limb \<Rightarrow> limb list \<times> limb" where
  "mp_add (v # op1) (w # op2) k =
    (let a = v + w; k1 = a < v; a = a + k; k = (if a < k \<or> k1 then 1 else 0);
         (res, k') = mp_add op1 op2 k in
     (a # res, k'))"
| "mp_add _ _ k = ([], k)"

fun mp_add_ui :: "limb list \<Rightarrow> limb \<Rightarrow> limb list \<times> limb" where
  "mp_add_ui [] k = ([], k)"
| "mp_add_ui (x # tab) k =
    (if k = 0 then (x # tab, k)
     else (let a = x + k; k = (if a < k then 1 else 0); (res, k') = mp_add_ui tab k in (a # res, k')))"

fun mp_sub :: "limb list \<Rightarrow> limb list \<Rightarrow> limb \<Rightarrow> limb list \<times> limb" where
  "mp_sub (v # op1) (w # op2) k =
    (let a = v - w; k1 = a > v; v = a - k; k = (if v > a \<or> k1 then 1 else 0);
         (res, k') = mp_sub op1 op2 k in
     (v # res, k'))"
| "mp_sub _ _ k = ([], k)"

fun mp_neg :: "limb list \<Rightarrow> limb \<Rightarrow> limb list \<times> limb" where
  "mp_neg [] k = ([], k)"
| "mp_neg (w # op2) k =
    (let v = 0; a = v - w; k1 = a > v; v = a - k; k = (if v > a \<or> k1 then 1 else 0);
         (res, k') = mp_neg op2 k in
     (v # res, k'))"

fun mp_sub_ui :: "limb list \<Rightarrow> limb \<Rightarrow> limb list \<times> limb" where
  "mp_sub_ui [] k = ([], k)"
| "mp_sub_ui (v # tab) k =
    (let a = v - k; k = (if a > v then 1 else 0) in
     if k = 0 then (a # tab, k) else (let (res, k') = mp_sub_ui tab k in (a # res, k')))"

section \<open>Shift\<close>

text \<open>The loop runs from the top limb down; the list is reversed for it.\<close>

fun mp_shr_loop :: "limb list \<Rightarrow> nat \<Rightarrow> limb \<Rightarrow> limb list \<times> limb" where
  "mp_shr_loop [] shift l = ([], l)"
| "mp_shr_loop (a # tab) shift l =
    (let r = drop_bit shift a OR push_bit (64 - shift) l; (res, l') = mp_shr_loop tab shift a in (r # res, l'))"

definition mp_shr :: "limb list \<Rightarrow> nat \<Rightarrow> limb \<Rightarrow> (limb list \<times> limb) option" where
  "mp_shr tab shift high =
    (if 1 \<le> shift \<and> shift < 64
     then (let (res, l) = mp_shr_loop (rev tab) shift high in Some (rev res, l AND (push_bit shift 1 - 1)))
     else None)"

section \<open>Multiplication\<close>

fun mp_mul1 :: "limb list \<Rightarrow> limb \<Rightarrow> limb \<Rightarrow> limb list \<times> limb" where
  "mp_mul1 [] b l = ([], l)"
| "mp_mul1 (x # taba) b l =
    (let t = (ucast x :: dlimb) * ucast b + ucast l;
         (res, l') = mp_mul1 taba b (ucast (drop_bit 64 t)) in
     (ucast t # res, l'))"

fun mp_add_mul1 :: "limb list \<Rightarrow> limb list \<Rightarrow> limb \<Rightarrow> limb \<Rightarrow> limb list \<times> limb" where
  "mp_add_mul1 (r # tabr) (x # taba) b l =
    (let t = (ucast x :: dlimb) * ucast b + ucast l + ucast r;
         (res, l') = mp_add_mul1 tabr taba b (ucast (drop_bit 64 t)) in
     (ucast t # res, l'))"
| "mp_add_mul1 _ _ b l = ([], l)"

fun mp_sub_mul1 :: "limb list \<Rightarrow> limb list \<Rightarrow> limb \<Rightarrow> limb \<Rightarrow> limb list \<times> limb" where
  "mp_sub_mul1 (r # tabr) (x # taba) b l =
    (let t = ucast r - (ucast x :: dlimb) * ucast b - ucast l;
         (res, l') = mp_sub_mul1 tabr taba b (- ucast (drop_bit 64 t)) in
     (ucast t # res, l'))"
| "mp_sub_mul1 _ _ b l = ([], l)"

text \<open>
  The rows of \<open>mp_mul_basecase\<close> after the first: row \<open>i\<close> is added at \<open>result + i\<close>, and its carry is
  stored behind it. The result array is written in full, so it starts as what the first row leaves.
\<close>

fun mul_rows :: "limb list \<Rightarrow> limb list \<Rightarrow> nat \<Rightarrow> limb list \<Rightarrow> limb list" where
  "mul_rows op1 [] i result = result"
| "mul_rows op1 (b # op2) i result =
    (let n = length op1;
         (row, r) = mp_add_mul1 (take n (drop i result)) op1 b 0 in
     mul_rows op1 op2 (Suc i) (take i result @ row @ [r]))"

definition mp_mul_basecase :: "limb list \<Rightarrow> limb list \<Rightarrow> limb list" where
  "mp_mul_basecase op1 op2 =
    (let (row, r) = mp_mul1 op1 (hd op2) 0 in mul_rows op1 (tl op2) 1 (row @ [r]))"

section \<open>Limbs and their values\<close>

lemma B_pos [simp]: "0 < B" "B \<noteq> 0" by (simp_all add: B_def)

lemma limb_less: "unat (x :: limb) < B"
  using unsigned_less [of x] by (simp add: B_def)

lemma limbs_val_append: "limbs_val (xs @ ys) = limbs_val xs + B ^ length xs * limbs_val ys"
  by (induction xs) (simp_all add: algebra_simps)

lemma limbs_val_less: "limbs_val xs < B ^ length xs"
proof (induction xs)
  case (Cons x xs)
  have "limbs_val (x # xs) < B + B * limbs_val xs" using limb_less [of x] by simp
  also have "\<dots> = B * Suc (limbs_val xs)" by simp
  also have "\<dots> \<le> B * B ^ length xs" using Cons by (intro mult_le_mono2) simp
  finally show ?case by simp
qed simp

lemma unat_limb_add: "unat (a + b :: limb) = (unat a + unat b) mod B"
  by (simp add: unat_word_ariths B_def)

text \<open>One step of the additions and subtractions, with its carry.\<close>

lemma add_carry:
  fixes v w k :: limb
  assumes "unat k \<le> 1"
  shows "unat (v + w + k) + B * (if v + w + k < k \<or> v + w < v then 1 else 0) = unat v + unat w + unat k"
proof -
  have l: "unat v < B" "unat w < B" by (rule limb_less)+
  have s: "unat (v + w) = (if unat v + unat w < B then unat v + unat w else unat v + unat w - B)"
    unfolding unat_limb_add using l by (auto simp: mod_if)
  have t: "unat (v + w + k) = (if unat (v + w) + unat k < B then unat (v + w) + unat k else unat (v + w) + unat k - B)"
    unfolding unat_limb_add [of "v + w" k] using limb_less [of "v + w"] assms by (auto simp: mod_if)
  have B: "2 \<le> B" by (simp add: B_def)
  show ?thesis unfolding word_less_nat_alt t s using l assms B by (auto split: if_splits)
qed

lemma unat_limb_sub: "unat (x - y :: limb) = (if unat y \<le> unat x then unat x - unat y else B + unat x - unat y)"
proof (cases "y \<le> x")
  case True
  then show ?thesis by (simp add: unat_sub word_le_nat_alt)
next
  case False
  then have "unat (x - y) = unat x + 2 ^ 64 - unat y" by (simp add: unat_sub_if_size word_size word_le_nat_alt)
  with False show ?thesis by (simp add: word_le_nat_alt B_def)
qed

lemma sub_borrow:
  fixes v w k :: limb
  assumes "unat k \<le> 1"
  shows "unat (v - w - k) + unat w + unat k = unat v + B * (if v - w - k > v - w \<or> v - w > v then 1 else 0)"
proof -
  have l: "unat v < B" "unat w < B" by (rule limb_less)+
  have B: "2 \<le> B" by (simp add: B_def)
  show ?thesis unfolding word_less_nat_alt unat_limb_sub using l assms B by (auto split: if_splits)
qed

lemma mp_add_val:
  "length op1 = length op2 \<Longrightarrow> unat k \<le> 1 \<Longrightarrow> mp_add op1 op2 k = (res, c) \<Longrightarrow>
   limbs_val res + B ^ length op1 * unat c = limbs_val op1 + limbs_val op2 + unat k \<and> unat c \<le> 1 \<and> length res = length op1"
proof (induction op1 arbitrary: op2 k res c)
  case (Cons v op1 ops k)
  from Cons.prems(1) obtain w op2 where ops: "ops = w # op2" "length op1 = length op2" by (cases ops) auto
  note prems = Cons.prems [unfolded ops(1)]
  define k1 where "k1 = (if v + w + k < k \<or> v + w < v then 1 else 0 :: limb)"
  obtain r c' where r: "mp_add op1 op2 k1 = (r, c')" by (cases "mp_add op1 op2 k1")
  have k1: "unat k1 = (if v + w + k < k \<or> v + w < v then 1 else 0)" by (simp add: k1_def)
  have IH: "limbs_val r + B ^ length op1 * unat c' = limbs_val op1 + limbs_val op2 + unat k1 \<and> unat c' \<le> 1 \<and> length r = length op1"
    by (rule Cons.IH [OF ops(2) _ r]) (simp add: k1)
  have res: "res = (v + w + k) # r" "c = c'" using prems(3) r by (simp_all add: k1_def Let_def)
  have "limbs_val res + B ^ length (v # op1) * unat c = unat (v + w + k) + B * (limbs_val r + B ^ length op1 * unat c')"
    by (simp add: res algebra_simps)
  also have "\<dots> = unat (v + w + k) + B * unat k1 + B * limbs_val op1 + B * limbs_val op2"
    using IH by (simp add: algebra_simps)
  also have "unat (v + w + k) + B * unat k1 = unat v + unat w + unat k"
    unfolding k1 by (rule add_carry [OF prems(2)])
  finally show ?case using IH res by (simp add: ops(1))
qed simp

lemma mp_sub_val:
  "length op1 = length op2 \<Longrightarrow> unat k \<le> 1 \<Longrightarrow> mp_sub op1 op2 k = (res, c) \<Longrightarrow>
   limbs_val res + limbs_val op2 + unat k = limbs_val op1 + B ^ length op1 * unat c \<and> unat c \<le> 1 \<and> length res = length op1"
proof (induction op1 arbitrary: op2 k res c)
  case (Cons v op1 ops k)
  from Cons.prems(1) obtain w op2 where ops: "ops = w # op2" "length op1 = length op2" by (cases ops) auto
  note prems = Cons.prems [unfolded ops(1)]
  define k1 where "k1 = (if v - w - k > v - w \<or> v - w > v then 1 else 0 :: limb)"
  obtain r c' where r: "mp_sub op1 op2 k1 = (r, c')" by (cases "mp_sub op1 op2 k1")
  have k1: "unat k1 = (if v - w - k > v - w \<or> v - w > v then 1 else 0)" by (simp add: k1_def)
  have IH: "limbs_val r + limbs_val op2 + unat k1 = limbs_val op1 + B ^ length op1 * unat c' \<and> unat c' \<le> 1 \<and> length r = length op1"
    by (rule Cons.IH [OF ops(2) _ r]) (simp add: k1)
  have res: "res = (v - w - k) # r" "c = c'" using prems(3) r by (simp_all add: k1_def Let_def)
  have "limbs_val res + limbs_val (w # op2) + unat k
      = unat (v - w - k) + unat w + unat k + B * limbs_val r + B * limbs_val op2" by (simp add: res)
  also have "unat (v - w - k) + unat w + unat k = unat v + B * unat k1"
    unfolding k1 by (rule sub_borrow [OF prems(2)])
  also have "unat v + B * unat k1 + B * limbs_val r + B * limbs_val op2 = unat v + B * (limbs_val op1 + B ^ length op1 * unat c')"
    using arg_cong [OF conjunct1 [OF IH], of "\<lambda>t. B * t"] by (simp add: algebra_simps)
  finally show ?case using IH res by (simp add: ops(1) algebra_simps)
qed simp

lemma mp_neg_sub: "mp_neg op2 k = mp_sub (replicate (length op2) 0) op2 k"
  by (induction op2 arbitrary: k) (simp_all add: Let_def)

lemma mp_add_ui_val:
  "mp_add_ui tab k = (res, c) \<Longrightarrow> limbs_val res + B ^ length tab * unat c = limbs_val tab + unat k \<and> length res = length tab"
proof (induction tab arbitrary: k res c)
  case (Cons x tab k)
  show ?case
  proof (cases "k = 0")
    case False
    define k1 where "k1 = (if x + k < k then 1 else 0 :: limb)"
    obtain r c' where r: "mp_add_ui tab k1 = (r, c')" by (cases "mp_add_ui tab k1")
    have IH: "limbs_val r + B ^ length tab * unat c' = limbs_val tab + unat k1 \<and> length r = length tab"
      by (rule Cons.IH [OF r])
    have res: "res = (x + k) # r" "c = c'" using Cons.prems r False by (simp_all add: k1_def Let_def)
    have "unat (x + k) + B * unat k1 = unat x + unat k"
      using add_carry [of 0 k x] limb_less [of x] by (cases "k + x < k") (simp_all add: k1_def add.commute)
    then have "limbs_val res + B ^ length (x # tab) * unat c = unat x + unat k + B * limbs_val tab"
      using arg_cong [OF conjunct1 [OF IH], of "\<lambda>t. B * t"] by (simp add: res algebra_simps)
    then show ?thesis using IH by (simp add: res)
  qed (use Cons.prems in auto)
qed simp

lemma mp_sub_ui_val:
  "mp_sub_ui tab k = (res, c) \<Longrightarrow> limbs_val res + unat k = limbs_val tab + B ^ length tab * unat c \<and> length res = length tab"
proof (induction tab arbitrary: k res c)
  case (Cons v tab k)
  define k1 where "k1 = (if v - k > v then 1 else 0 :: limb)"
  have s: "unat (v - k) + unat k = unat v + B * unat k1"
    using sub_borrow [of 0 v k] by (simp add: k1_def)
  show ?case
  proof (cases "k1 = 0")
    case True
    then have "res = (v - k) # tab" "c = 0" using Cons.prems by (auto simp: k1_def Let_def split: if_splits)
    then show ?thesis using s True by simp
  next
    case False
    obtain r c' where r: "mp_sub_ui tab k1 = (r, c')" by (cases "mp_sub_ui tab k1")
    have IH: "limbs_val r + unat k1 = limbs_val tab + B ^ length tab * unat c' \<and> length r = length tab"
      by (rule Cons.IH [OF r])
    have res: "res = (v - k) # r" "c = c'" using Cons.prems r False by (auto simp: k1_def Let_def split: if_splits)
    have "limbs_val res + unat k = unat v + B * (limbs_val r + unat k1)" using s by (simp add: res algebra_simps)
    then show ?thesis using arg_cong [OF conjunct1 [OF IH], of "\<lambda>t. B * t"] IH by (simp add: res algebra_simps)
  qed
qed auto


section \<open>Products\<close>

lemma BB: "B * B = 2 ^ 128" by (simp add: B_def)

lemma dlimb_less: "unat (t :: dlimb) < B * B"
  unfolding BB by (rule order_less_le_trans [OF unsigned_less]) simp

lemma dlimb_parts:
  fixes t :: dlimb
  shows "unat (ucast t :: limb) = unat t mod B" "unat (ucast (drop_bit 64 t) :: limb) = unat t div B"
proof -
  show "unat (ucast t :: limb) = unat t mod B"
    by (simp add: unsigned_ucast_eq unsigned_take_bit_eq take_bit_eq_mod B_def)
  have "unat t div B < B" using dlimb_less [of t] by (simp add: less_mult_imp_div_less)
  then show "unat (ucast (drop_bit 64 t) :: limb) = unat t div B"
    by (simp add: unsigned_ucast_eq unsigned_take_bit_eq unsigned_drop_bit_eq take_bit_eq_mod drop_bit_eq_div unat_div_distrib B_def)
qed

lemma unat_dlimb [simp]: "unat (ucast (y :: limb) :: dlimb) = unat y"
  using limb_less [of y] by (simp add: unsigned_ucast_eq unsigned_take_bit_eq take_bit_eq_mod B_def)

lemma mul_add_bound:
  assumes "x < B" "b < B" "l < B" "r < B"
  shows "x * b + l + r < B * B"
proof -
  have "x * b \<le> (B - 1) * (B - 1)" using assms by (intro mult_le_mono) auto
  also have "\<dots> + 2 * (B - 1) + 1 = B * B" by (simp add: B_def)
  finally show ?thesis using assms by linarith
qed

lemma unat_dlimb_mul_add:
  fixes x b l r :: limb
  shows "unat ((ucast x :: dlimb) * ucast b + ucast l + ucast r) = unat x * unat b + unat l + unat r"
proof -
  have b: "unat x * unat b + unat l + unat r < 2 ^ 128"
    using mul_add_bound [OF limb_less limb_less limb_less limb_less] by (simp only: BB)
  show ?thesis using b by (simp add: unat_word_ariths mod_simps)
qed

lemma mul_step:
  fixes x b l r :: limb
  assumes t: "t = (ucast x :: dlimb) * ucast b + ucast l + ucast r"
  shows "unat (ucast t :: limb) + B * unat (ucast (drop_bit 64 t) :: limb) = unat x * unat b + unat l + unat r"
  unfolding dlimb_parts(2) unfolding dlimb_parts(1) mod_mult_div_eq t by (rule unat_dlimb_mul_add)

lemma mp_add_mul1_val:
  "length tabr = length taba \<Longrightarrow> mp_add_mul1 tabr taba b l = (res, c) \<Longrightarrow>
   limbs_val res + B ^ length taba * unat c = limbs_val tabr + limbs_val taba * unat b + unat l \<and> length res = length taba"
proof (induction taba arbitrary: tabr l res c)
  case (Cons x taba rs l)
  from Cons.prems(1) obtain r tabr where rs: "rs = r # tabr" "length tabr = length taba" by (cases rs) auto
  define t where "t = (ucast x :: dlimb) * ucast b + ucast l + ucast r"
  define l1 where "l1 = (ucast (drop_bit 64 t) :: limb)"
  obtain res1 c' where r: "mp_add_mul1 tabr taba b l1 = (res1, c')" by (cases "mp_add_mul1 tabr taba b l1")
  have IH: "limbs_val res1 + B ^ length taba * unat c' = limbs_val tabr + limbs_val taba * unat b + unat l1 \<and> length res1 = length taba"
    by (rule Cons.IH [OF rs(2) r])
  have res: "res = ucast t # res1" "c = c'" using Cons.prems(2) r by (simp_all add: rs(1) l1_def t_def Let_def)
  have s: "unat (ucast t :: limb) + B * unat l1 = unat x * unat b + unat l + unat r"
    unfolding l1_def by (rule mul_step [OF t_def])
  have "limbs_val res + B ^ length (x # taba) * unat c = unat (ucast t :: limb) + B * (limbs_val res1 + B ^ length taba * unat c')"
    by (simp add: res algebra_simps)
  also have "\<dots> = unat (ucast t :: limb) + B * unat l1 + B * (limbs_val tabr + limbs_val taba * unat b)"
    unfolding conjunct1 [OF IH] by (simp add: algebra_simps)
  finally show ?case unfolding s using IH by (simp add: res rs algebra_simps)
qed simp

lemma mp_mul1_add_mul1: "mp_mul1 taba b l = mp_add_mul1 (replicate (length taba) 0) taba b l"
  by (induction taba arbitrary: l) (simp_all add: Let_def)

lemma mp_mul1_val:
  assumes "mp_mul1 taba b l = (res, c)"
  shows "limbs_val res + B ^ length taba * unat c = limbs_val taba * unat b + unat l \<and> length res = length taba"
proof -
  have "limbs_val (replicate n 0) = 0" for n by (induction n) simp_all
  then show ?thesis using mp_add_mul1_val [OF _ assms [unfolded mp_mul1_add_mul1]] by simp
qed


lemma mul_rows_val:
  "length result = length op1 + i \<Longrightarrow>
   limbs_val (mul_rows op1 op2 i result) = limbs_val result + B ^ i * (limbs_val op1 * limbs_val op2) \<and>
   length (mul_rows op1 op2 i result) = length op1 + i + length op2"
proof (induction op2 arbitrary: i result)
  case (Cons b op2 i result)
  define mid where "mid = take (length op1) (drop i result)"
  obtain row r where m: "mp_add_mul1 mid op1 b 0 = (row, r)" by (cases "mp_add_mul1 mid op1 b 0")
  have mid: "result = take i result @ mid" "length mid = length op1"
    using Cons.prems by (simp_all add: mid_def)
  have row: "limbs_val row + B ^ length op1 * unat r = limbs_val mid + limbs_val op1 * unat b" "length row = length op1"
    using mp_add_mul1_val [OF mid(2) m] by simp_all
  define result' where "result' = take i result @ row @ [r]"
  have len: "length result' = length op1 + Suc i" using Cons.prems row(2) by (simp add: result'_def)
  have step: "mul_rows op1 (b # op2) i result = mul_rows op1 op2 (Suc i) result'"
    using m by (simp add: mid_def result'_def)
  have i: "length (take i result) = i" using Cons.prems by simp
  have "limbs_val result' = limbs_val (take i result) + B ^ i * (limbs_val mid + limbs_val op1 * unat b)"
    unfolding row(1) [symmetric] by (simp add: result'_def limbs_val_append i row(2) min_absorb2 Cons.prems)
  also have "\<dots> = limbs_val (take i result @ mid) + B ^ i * (limbs_val op1 * unat b)"
    unfolding limbs_val_append i by (simp add: algebra_simps)
  finally have v: "limbs_val result' = limbs_val result + B ^ i * (limbs_val op1 * unat b)" using mid(1) by simp
  show ?case using Cons.IH [OF len] unfolding step v by (simp add: algebra_simps)
qed simp

lemma mp_mul_basecase_val:
  assumes "op2 \<noteq> []"
  shows "limbs_val (mp_mul_basecase op1 op2) = limbs_val op1 * limbs_val op2 \<and>
         length (mp_mul_basecase op1 op2) = length op1 + length op2"
proof -
  from assms obtain b op2' where o: "op2 = b # op2'" by (cases op2) auto
  obtain row r where m: "mp_mul1 op1 b 0 = (row, r)" by (cases "mp_mul1 op1 b 0")
  have row: "limbs_val row + B ^ length op1 * unat r = limbs_val op1 * unat b" "length row = length op1"
    using mp_mul1_val [OF m] by simp_all
  have d: "mp_mul_basecase op1 op2 = mul_rows op1 op2' 1 (row @ [r])" by (simp add: mp_mul_basecase_def o m)
  have v: "limbs_val (row @ [r]) = limbs_val op1 * unat b" using row by (simp add: limbs_val_append)
  show ?thesis using mul_rows_val [of "row @ [r]" op1 1 op2'] row(2) unfolding d v by (simp add: o algebra_simps)
qed

section \<open>Multiply and subtract\<close>

lemma mul_sub_step:
  fixes x b l r :: limb
  defines "t \<equiv> ucast r - (ucast x :: dlimb) * ucast b - ucast l"
  shows "unat (ucast t :: limb) + unat x * unat b + unat l = unat r + B * unat (- ucast (drop_bit 64 t) :: limb)"
proof -
  define m where "m = unat x * unat b + unat l"
  have BB2: "B * B = B * (B - 1) + B" by (simp add: B_def)
  have rB: "unat r < B" by (rule limb_less)
  have mB: "m + B \<le> B * B" using mul_add_bound [OF limb_less [of x] limb_less [of b] limb_less [of l], of "B - 1"] by (simp add: m_def)
  then have mb: "m < B * B" using B_pos by linarith
  have t: "t = ucast r - ((ucast x :: dlimb) * ucast b + ucast l + ucast (0 :: limb))" by (simp add: t_def)
  have um: "unat ((ucast x :: dlimb) * ucast b + ucast l + ucast (0 :: limb)) = m"
    unfolding unat_dlimb_mul_add by (simp add: m_def)
  have sz: "size (ucast r :: dlimb) = 128" by (simp add: word_size)
  have ut: "unat t = (if m \<le> unat r then unat r - m else B * B + unat r - m)"
    unfolding t unat_sub_if_size um sz unat_dlimb BB by (simp only: add.commute)
  define h where "h = unat t div B"
  have neg: "unat (- ucast (drop_bit 64 t) :: limb) = (if h = 0 then 0 else B - h)"
    using unat_limb_sub [of 0 "ucast (drop_bit 64 t)"] by (simp add: dlimb_parts(2) h_def)
  have low: "unat (ucast t :: limb) = unat t mod B" by (rule dlimb_parts)
  have split: "unat t = B * h + unat t mod B" by (simp add: h_def)
  have hB: "h < B" using dlimb_less [of t] by (simp add: h_def less_mult_imp_div_less)
  show ?thesis
  proof (cases "m \<le> unat r")
    case True
    then have "h = 0" using ut rB by (simp add: h_def)
    then show ?thesis using True ut split by (simp add: neg low m_def)
  next
    case False
    have "0 < h"
    proof (rule ccontr)
      assume "\<not> 0 < h"
      then have "unat t < B" using split by (metis B_pos add_0 mod_less_divisor mult_0_right not_gr0)
      then show False using False ut mB by simp
    qed
    have "B * (B - h) + B * h = B * B" using hB by (simp add: distrib_left [symmetric])
    then have "unat t mod B + m = unat r + B * (B - h)" using False ut split mb by simp
    then show ?thesis using \<open>0 < h\<close> by (simp add: neg low m_def)
  qed
qed

lemma mp_sub_mul1_val:
  "length tabr = length taba \<Longrightarrow> mp_sub_mul1 tabr taba b l = (res, c) \<Longrightarrow>
   limbs_val res + limbs_val taba * unat b + unat l = limbs_val tabr + B ^ length taba * unat c \<and> length res = length taba"
proof (induction taba arbitrary: tabr l res c)
  case (Cons x taba rs l)
  from Cons.prems(1) obtain r tabr where rs: "rs = r # tabr" "length tabr = length taba" by (cases rs) auto
  define t where "t = ucast r - (ucast x :: dlimb) * ucast b - ucast l"
  define l1 where "l1 = (- ucast (drop_bit 64 t) :: limb)"
  obtain res1 c' where r: "mp_sub_mul1 tabr taba b l1 = (res1, c')" by (cases "mp_sub_mul1 tabr taba b l1")
  have IH: "limbs_val res1 + limbs_val taba * unat b + unat l1 = limbs_val tabr + B ^ length taba * unat c' \<and> length res1 = length taba"
    by (rule Cons.IH [OF rs(2) r])
  have res: "res = ucast t # res1" "c = c'" using Cons.prems(2) r by (simp_all add: rs(1) l1_def t_def Let_def)
  have s: "unat (ucast t :: limb) + unat x * unat b + unat l = unat r + B * unat l1"
    unfolding t_def l1_def by (rule mul_sub_step)
  have "limbs_val res + limbs_val (x # taba) * unat b + unat l
      = (unat (ucast t :: limb) + unat x * unat b + unat l) + B * limbs_val res1 + B * (limbs_val taba * unat b)"
    by (simp add: res algebra_simps)
  also have "\<dots> = unat r + B * (limbs_val res1 + limbs_val taba * unat b + unat l1)"
    unfolding s by (simp add: algebra_simps)
  finally show ?case unfolding conjunct1 [OF IH] using IH by (simp add: res rs algebra_simps)
qed simp

section \<open>Shift right\<close>

lemma shr_limb:
  fixes a l :: limb
  assumes s: "1 \<le> s" "s < 64"
  shows "2 ^ s * unat (drop_bit s a OR push_bit (64 - s) l) + unat a mod 2 ^ s = unat a + B * (unat l mod 2 ^ s)"
proof -
  have BB: "B = 2 ^ s * 2 ^ (64 - s)" using s by (simp add: B_def power_add [symmetric])
  have or: "drop_bit s a OR push_bit (64 - s) l = drop_bit s a + push_bit (64 - s) l"
    by (rule disjunctive_add [symmetric]) (auto simp: bit_simps dest: bit_imp_le_length)
  have d: "unat (drop_bit s a) = unat a div 2 ^ s"
    using limb_less [of a]
    by (simp add: unsigned_drop_bit_eq take_bit_nat_eq_self drop_bit_eq_div [of s "unat a"] B_def)
  have p: "unat (push_bit (64 - s) l) = 2 ^ (64 - s) * (unat l mod 2 ^ s)"
  proof -
    have "unat (push_bit (64 - s) l) = (unat l * 2 ^ (64 - s)) mod (2 ^ s * 2 ^ (64 - s))"
      using s by (simp add: unsigned_push_bit_eq take_bit_eq_mod [of 64 "unat l * 2 ^ (64 - s)"] push_bit_eq_mult [of _ "unat l"]
        power_add [symmetric])
    then show ?thesis by (simp add: mult_mod_left [symmetric] mult.commute)
  qed
  have "unat a div 2 ^ s < 2 ^ (64 - s)"
    using limb_less [of a] by (simp add: BB less_mult_imp_div_less mult.commute)
  moreover have "2 ^ (64 - s) * (unat l mod 2 ^ s) + 2 ^ (64 - s) \<le> B"
  proof -
    have "unat l mod 2 ^ s + 1 \<le> 2 ^ s" by (simp add: Suc_leI)
    from mult_le_mono2 [OF this, of "2 ^ (64 - s)"] show ?thesis by (simp add: BB algebra_simps)
  qed
  ultimately have "unat (drop_bit s a + push_bit (64 - s) l) = unat a div 2 ^ s + 2 ^ (64 - s) * (unat l mod 2 ^ s)"
    unfolding unat_limb_add d p by simp
  then have "2 ^ s * unat (drop_bit s a OR push_bit (64 - s) l) = 2 ^ s * (unat a div 2 ^ s) + B * (unat l mod 2 ^ s)"
    unfolding or by (simp add: BB algebra_simps)
  then show ?thesis by (simp add: mult_div_mod_eq [symmetric])
qed

lemma mp_shr_loop_val:
  assumes s: "1 \<le> s" "s < 64"
  shows "mp_shr_loop tab s l = (res, l') \<Longrightarrow>
    2 ^ s * limbs_val (rev res) + unat l' mod 2 ^ s = limbs_val (rev tab) + B ^ length tab * (unat l mod 2 ^ s) \<and>
    length res = length tab"
proof (induction tab arbitrary: l res)
  case (Cons a tab l)
  obtain res1 where r: "mp_shr_loop tab s a = (res1, l')" and
    res: "res = (drop_bit s a OR push_bit (64 - s) l) # res1"
    using Cons.prems by (auto simp: Let_def split: prod.splits)
  have IH: "2 ^ s * limbs_val (rev res1) + unat l' mod 2 ^ s = limbs_val (rev tab) + B ^ length tab * (unat a mod 2 ^ s)"
    and len: "length res1 = length tab" using Cons.IH [OF r] by simp_all
  have "2 ^ s * limbs_val (rev res) + unat l' mod 2 ^ s
      = (2 ^ s * limbs_val (rev res1) + unat l' mod 2 ^ s)
        + B ^ length tab * (2 ^ s * unat (drop_bit s a OR push_bit (64 - s) l))"
    by (simp add: res limbs_val_append len algebra_simps)
  also have "\<dots> = limbs_val (rev tab) + B ^ length tab *
      (2 ^ s * unat (drop_bit s a OR push_bit (64 - s) l) + unat a mod 2 ^ s)"
    unfolding IH by (simp add: algebra_simps)
  finally show ?case unfolding shr_limb [OF s] by (simp add: limbs_val_append len res algebra_simps)
qed simp

lemma mp_shr_val:
  assumes "mp_shr tab s high = Some (res, r)"
  shows "2 ^ s * limbs_val res + unat r = limbs_val tab + B ^ length tab * (unat high mod 2 ^ s)"
    and "unat r < 2 ^ s" and "length res = length tab"
proof -
  have s: "1 \<le> s" "s < 64" using assms by (auto simp: mp_shr_def split: if_splits)
  obtain res' l where l: "mp_shr_loop (rev tab) s high = (res', l)" by (cases "mp_shr_loop (rev tab) s high")
  have res: "res = rev res'" "r = l AND (push_bit s 1 - 1)" using assms s l by (simp_all add: mp_shr_def)
  have "unat r = unat l mod 2 ^ s"
  proof -
    have "r = take_bit s l" by (simp add: res take_bit_eq_mask mask_eq_exp_minus_1 push_bit_eq_mult)
    then show ?thesis using take_bit_eq_mod [of s "unat l"] by (simp only: unsigned_take_bit_eq)
  qed
  then show "2 ^ s * limbs_val res + unat r = limbs_val tab + B ^ length tab * (unat high mod 2 ^ s)"
    "unat r < 2 ^ s" "length res = length tab"
    using mp_shr_loop_val [OF s l] by (simp_all add: res)
qed

section \<open>The operations together\<close>



end
