(* ===== verification/MultiDiv.thy ===== *)
theory MultiDiv
  imports MultiLimb
begin

text \<open>
  Division of \<open>quickjs/libbf.c\<close> over normalised divisors: one limb by a precomputed reciprocal
  (\<open>udiv1norm\<close>), many limbs by one (\<open>mp_div1norm\<close>), and many by many (\<open>mp_divnorm\<close>): quotient limbs
  estimated from the two top limbs, then corrected by adding the divisor back until the window is
  no longer negative. The loop of the correction is a partial function, so its end is proved.
\<close>

section \<open>One limb by a reciprocal\<close>

definition udiv1norm_init :: "limb \<Rightarrow> limb" where
  "udiv1norm_init d =
    (let a1 = - d - 1; a0 = - 1 :: limb in
     ucast ((push_bit 64 (ucast a1 :: dlimb) OR ucast a0) div ucast d))"

definition udiv1norm :: "limb \<Rightarrow> limb \<Rightarrow> limb \<Rightarrow> limb \<Rightarrow> limb \<times> limb" where
  "udiv1norm a1 a0 d d_inv =
    (let n1m = signed_drop_bit 63 a0;
         n_adj = a0 + (n1m AND d);
         a = (ucast d_inv :: dlimb) * ucast (a1 - n1m) + ucast n_adj;
         q = ucast (drop_bit 64 a + ucast a1) :: limb;
         a = push_bit 64 (ucast a1 :: dlimb) OR ucast a0;
         a = a - ucast q * ucast d - ucast d;
         ah = ucast (drop_bit 64 a) :: limb in
     (q + (1 + ah), ucast a + (ah AND d)))"

section \<open>Many limbs by one\<close>

fun div1_inv_loop :: "limb list \<Rightarrow> limb \<Rightarrow> limb \<Rightarrow> limb \<Rightarrow> limb list \<times> limb" where
  "div1_inv_loop [] b b_inv r = ([], r)"
| "div1_inv_loop (a # taba) b b_inv r =
    (let (q, r) = udiv1norm r a b b_inv; (qs, r') = div1_inv_loop taba b b_inv r in (q # qs, r'))"

fun div1_loop :: "limb list \<Rightarrow> limb \<Rightarrow> limb \<Rightarrow> limb list \<times> limb" where
  "div1_loop [] b r = ([], r)"
| "div1_loop (a # taba) b r =
    (let a1 = push_bit 64 (ucast r :: dlimb) OR ucast a;
         q = ucast (a1 div ucast b); r = ucast (a1 mod ucast b);
         (qs, r') = div1_loop taba b r in
     (q # qs, r'))"

definition mp_div1norm :: "limb list \<Rightarrow> limb \<Rightarrow> limb \<Rightarrow> limb list \<times> limb" where
  "mp_div1norm taba b r =
    (let (qs, r') =
       (if 3 \<le> length taba then div1_inv_loop (rev taba) b (udiv1norm_init b) r else div1_loop (rev taba) b r) in
     (rev qs, r'))"

section \<open>The estimate\<close>

text \<open>
  The quotient read off the reciprocal is the quotient or one less: \<open>X\<close> is the number whose high limb
  is the estimate, \<open>k\<close> the top bit of the low limb.
\<close>

lemma udiv_estimate:
  fixes B D v a1 a0 k :: int
  assumes B: "0 < B" and D: "B \<le> 2 * D" "D < B"
    and v: "v = (B * B - 1) div D - B"
    and a: "0 \<le> a1" "a1 < D" "0 \<le> a0" "a0 < B"
    and k: "k = (if B \<le> 2 * a0 then 1 else 0)"
  defines "X \<equiv> v * (a1 + k) + (a0 + k * (D - B)) + B * a1"
  shows "X div B \<le> (a1 * B + a0) div D" "(a1 * B + a0) div D \<le> X div B + 1"
proof -
  have D0: "0 < D" using B D by simp
  define e where "e = (B * B - 1) mod D + 1"
  have e: "1 \<le> e" "e \<le> D" using D0 by (simp_all add: e_def pos_mod_bound add1_zle_eq)
  have "D * ((B * B - 1) div D) + (B * B - 1) mod D = B * B - 1" by (rule mult_div_mod_eq)
  then have ve: "D * (v + B) = B * B - e" unfolding v e_def by (simp add: algebra_simps)
  define N where "N = a1 * B + a0"
  have DX: "D * X = B * N + (k * (B - D) * (B - D) - (B - D) * a0 - e * (a1 + k))"
  proof -
    have "D * X = (D * (v + B)) * (a1 + k) - D * B * k + D * a0 + D * k * (D - B)"
      by (simp add: X_def algebra_simps)
    then show ?thesis unfolding ve by (simp add: N_def algebra_simps)
  qed
  have ea: "0 \<le> e * (a1 + k)" using e a k by simp
  have BD: "0 < B - D" "B - D \<le> D" using D by simp_all
  have up: "k * (B - D) * (B - D) \<le> (B - D) * a0"
  proof (cases "k = 1")
    case True
    then have "B - D \<le> a0" using k D by (auto split: if_splits)
    then show ?thesis using True BD by simp
  qed (use k BD a in \<open>auto split: if_splits\<close>)
  have low: "(B - D) * a0 + e * (a1 + k) - k * (B - D) * (B - D) \<le> D * B"
  proof (cases "k = 1")
    case True
    have "e * (a1 + 1) \<le> D * D" using e a by (intro mult_mono) auto
    moreover have "(B - D) * (a0 - (B - D)) \<le> (B - D) * D" using BD a by (intro mult_left_mono) auto
    ultimately show ?thesis using True by (simp add: algebra_simps)
  next
    case False
    then have k0: "k = 0" "a0 \<le> D" using k D by (auto split: if_splits)
    have "e * a1 \<le> D * D" using e a by (intro mult_mono) auto
    moreover have "(B - D) * a0 \<le> (B - D) * D" using BD k0 by (intro mult_left_mono) auto
    ultimately show ?thesis using k0 by (simp add: algebra_simps)
  qed
  have X: "D * X \<le> B * N" "B * N \<le> D * X + D * B" using DX up low ea by linarith+
  have s: "X div B = (D * X) div (D * B)" "(a1 * B + a0) div D = (B * N) div (D * B)"
    using D0 B div_mult_mult1 [of B N D] by (simp_all add: N_def mult.commute)
  have "(D * X + D * B) div (D * B) = (D * X) div (D * B) + 1" using D0 B by (intro div_add_self2) simp
  then show "X div B \<le> (a1 * B + a0) div D" "(a1 * B + a0) div D \<le> X div B + 1"
    unfolding s using zdiv_mono1 [OF X(1), of "D * B"] zdiv_mono1 [OF X(2), of "D * B"] D0 B by simp_all
qed

section \<open>The reciprocal\<close>

lemma dlimb_pair: "unat (push_bit 64 (ucast a1 :: dlimb) OR ucast (a0 :: limb)) = unat a1 * B + unat (a0 :: limb)"
  for a1 :: limb
proof -
  have or: "push_bit 64 (ucast a1 :: dlimb) OR ucast a0 = push_bit 64 (ucast a1) + ucast a0"
    by (rule disjunctive_add [symmetric]) (auto simp: bit_simps dest: bit_imp_le_length)
  have "unat a1 * 2 ^ 64 < 2 ^ 128" using limb_less [of a1] by (simp add: B_def)
  then have p: "unat (push_bit 64 (ucast a1 :: dlimb)) = unat a1 * B"
    by (simp add: unsigned_push_bit_eq take_bit_nat_eq_self push_bit_eq_mult [of _ "unat a1"] B_def)
  have "unat a1 * B + unat a0 < B * B"
  proof -
    have "(unat a1 + 1) * B \<le> B * B" using limb_less [of a1] by (intro mult_le_mono1) simp
    then show ?thesis using limb_less [of a0] by simp
  qed
  then show ?thesis unfolding or by (simp add: unat_word_ariths p BB)
qed

lemma udiv1norm_init_val:
  assumes d: "B \<le> 2 * unat d"
  shows "int (unat (udiv1norm_init d)) = (int B * int B - 1) div int (unat d) - int B"
proof -
  define D where "D = unat d"
  have D: "0 < D" "D < B" "B \<le> 2 * D" using d limb_less [of d] by (auto simp: D_def B_def)
  have a1: "unat (- d - 1) = B - 1 - D"
    using unat_limb_sub [of "- d" 1] unat_limb_sub [of 0 d] D by (simp add: D_def)
  have a0: "unat (- 1 :: limb) = B - 1" using unat_limb_sub [of 0 1] by simp
  have "int ((B - 1 - D) * B + (B - 1)) = (int B * int B - 1) + int D * (- int B)"
  proof -
    have "int (B - 1 - D) = int B - 1 - int D" "int (B - 1) = int B - 1" using D by simp_all
    then show ?thesis unfolding of_nat_add of_nat_mult by (simp add: algebra_simps)
  qed
  moreover have "(int B * int B - 1 + int D * (- int B)) div int D = - int B + (int B * int B - 1) div int D"
    using D by (intro div_mult_self2) simp
  ultimately have q: "int (((B - 1 - D) * B + (B - 1)) div D) = (int B * int B - 1) div int D - int B"
    unfolding zdiv_int by simp
  have "int B * int B \<le> 2 * int D * int B" using D by (intro mult_right_mono) simp_all
  also have "2 * int D * int B = int D * (2 * int B)" by simp
  finally have "int B * int B - 1 < int D * (2 * int B)" by linarith
  moreover have "int D * ((int B * int B - 1) div int D) \<le> int B * int B - 1"
    using mult_div_mod_eq [of "int D" "int B * int B - 1"] D pos_mod_sign [of "int D" "int B * int B - 1"] by linarith
  ultimately have "(int B * int B - 1) div int D < 2 * int B"
    by (metis mult_left_less_imp_less of_nat_0_le_iff order_le_less_trans)
  then have lt: "((B - 1 - D) * B + (B - 1)) div D < B" using q by linarith
  have "unat (udiv1norm_init d) = ((B - 1 - D) * B + (B - 1)) div D"
    unfolding udiv1norm_init_def Let_def dlimb_parts(1) unat_div_distrib dlimb_pair a1 a0 unat_dlimb D_def [symmetric]
    by (rule mod_less [OF lt])
  then show ?thesis using q by (simp add: D_def)
qed


section \<open>One quotient limb\<close>

lemma limb_top_bit: "bit (x :: limb) 63 \<longleftrightarrow> B \<le> 2 * unat x"
proof -
  have "bit x 63 \<longleftrightarrow> odd (unat x div 2 ^ 63)"
    using bit_unsigned_iff [of x 63, where 'a = nat] by (simp add: bit_iff_odd)
  moreover have "unat x div 2 ^ 63 < 2" using limb_less [of x] by (simp add: B_def less_mult_imp_div_less)
  moreover have "unat x div 2 ^ 63 = 0 \<longleftrightarrow> unat x < 2 ^ 63" by (simp add: div_eq_0_iff)
  ultimately show ?thesis by (auto simp: B_def less_2_cases_iff)
qed

lemma udiv1norm_adjust:
  fixes a0 d :: limb
  assumes d: "B \<le> 2 * unat d"
  defines "k \<equiv> if B \<le> 2 * unat a0 then 1 else 0 :: nat"
  shows "signed_drop_bit 63 a0 = - of_nat k"
    and "int (unat (a0 + (signed_drop_bit 63 a0 AND d))) = int (unat a0) + int k * (int (unat d) - int B)"
proof -
  note b = limb_top_bit [of a0]
  show s: "signed_drop_bit 63 a0 = - of_nat k"
    unfolding k_def b [symmetric] by (rule bit_word_eqI) (auto simp: bit_simps le_Suc_eq not_le)
  show "int (unat (a0 + (signed_drop_bit 63 a0 AND d))) = int (unat a0) + int k * (int (unat d) - int B)"
    unfolding s using d limb_less [of a0] limb_less [of d]
    by (auto simp: k_def unat_limb_add mod_if)
qed


text \<open>The whole step: the 128-bit remainder tells, by its high limb, which of the two it was.\<close>

lemma udiv1norm_val:
  assumes d: "B \<le> 2 * unat d" and a1: "unat a1 < unat d"
    and v: "int (unat v) = (int B * int B - 1) div int (unat d) - int B"
    and r: "udiv1norm a1 a0 d v = (q, r)"
  shows "unat q = (unat a1 * B + unat a0) div unat d" "unat r = (unat a1 * B + unat a0) mod unat d"
proof -
  define k where "k = (if B \<le> 2 * unat a0 then 1 else 0 :: nat)"
  define D N Q R where "D = unat d" and "N = unat a1 * B + unat a0" and "Q = N div D" and "R = N mod D"
  have D: "0 < D" "D < B" "B \<le> 2 * D" using d limb_less [of d] by (auto simp: D_def)
  define n_adj where "n_adj = a0 + (signed_drop_bit 63 a0 AND d)"
  have n_adj: "int (unat n_adj) = int (unat a0) + int k * (int D - int B)"
    unfolding n_adj_def k_def D_def by (rule udiv1norm_adjust [OF d])
  have n1: "unat (a1 - signed_drop_bit 63 a0) = unat a1 + k"
    using udiv1norm_adjust(1) [OF d, of a0] a1 D by (simp add: k_def D_def unat_limb_add)
  define a where "a = (ucast v :: dlimb) * ucast (a1 - signed_drop_bit 63 a0) + ucast n_adj"
  have ua: "unat a = unat v * (unat a1 + k) + unat n_adj"
    using unat_dlimb_mul_add [of v "a1 - signed_drop_bit 63 a0" n_adj 0] by (simp add: a_def n1)
  define q1 where "q1 = unat a div B + unat a1"
  have "N < D * B"
  proof -
    have "(unat a1 + 1) * B \<le> D * B" using a1 by (intro mult_le_mono1) (simp add: D_def)
    then show ?thesis using limb_less [of a0] by (simp add: N_def)
  qed
  then have QB: "Q < B" by (simp add: Q_def less_mult_imp_div_less mult.commute)
  have est: "q1 \<le> Q" "Q \<le> q1 + 1"
  proof -
    have q1: "int q1 = (int (unat v) * (int (unat a1) + int k) + (int (unat a0) + int k * (int D - int B)) + int B * int (unat a1)) div int B"
    proof -
      have "int q1 = (int (unat a) + int B * int (unat a1)) div int B" by (simp add: q1_def zdiv_int)
      then show ?thesis unfolding ua of_nat_add of_nat_mult n_adj .
    qed
    have Q: "int Q = (int (unat a1) * int B + int (unat a0)) div int D" by (simp add: Q_def N_def zdiv_int)
    have k: "int k = (if int B \<le> 2 * int (unat a0) then 1 else 0)"
    proof (cases "B \<le> 2 * unat a0")
      case True
      then have "int B \<le> 2 * int (unat a0)" by linarith
      then show ?thesis using True by (simp only: k_def if_True of_nat_1)
    next
      case False
      then have "\<not> int B \<le> 2 * int (unat a0)" by linarith
      then show ?thesis using False by (simp only: k_def if_False of_nat_0)
    qed
    have "unat a1 < D" using a1 by (simp add: D_def)
    then have pre: "0 < int B" "int B \<le> 2 * int D" "int D < int B" "0 \<le> int (unat a1)" "int (unat a1) < int D"
      "0 \<le> int (unat a0)" "int (unat a0) < int B"
      using D limb_less [of a0] by linarith+
    note e = udiv_estimate [OF pre(1-3) v [folded D_def] pre(4-7) k]
    have "int q1 \<le> int Q" "int Q \<le> int q1 + 1" unfolding q1 Q by (rule e)+
    then show "q1 \<le> Q" "Q \<le> q1 + 1" by linarith+
  qed
  define qh where "qh = (ucast (drop_bit 64 a + ucast a1) :: limb)"
  have qh: "unat qh = q1"
  proof -
    have "unat (drop_bit 64 a) = unat a div B"
      using dlimb_less [of a] by (simp add: unsigned_drop_bit_eq take_bit_nat_eq_self BB drop_bit_eq_div [of 64 "unat a"] B_def)
    moreover have "q1 < 2 ^ 128" using est(1) QB by (simp add: B_def)
    ultimately have "unat (drop_bit 64 a + ucast a1) = q1" by (simp add: unat_word_ariths q1_def)
    then show ?thesis using est(1) QB unfolding qh_def dlimb_parts(1) by simp
  qed
  define w where "w = (push_bit 64 (ucast a1 :: dlimb) OR ucast a0) - ucast qh * ucast d - ucast d"
  define ah where "ah = (ucast (drop_bit 64 w) :: limb)"
  have qr: "q = qh + (1 + ah)" "r = ucast w + (ah AND d)"
    using r by (simp_all add: udiv1norm_def Let_def qh_def a_def n_adj_def w_def ah_def)
  have uw: "unat w = (if q1 * D + D \<le> N then N - (q1 * D + D) else B * B + N - (q1 * D + D))"
  proof -
    have w: "w = (push_bit 64 (ucast a1 :: dlimb) OR ucast a0) - (ucast qh * ucast d + ucast d + ucast (0 :: limb))"
      by (simp add: w_def)
    have sz: "size (push_bit 64 (ucast a1 :: dlimb) OR ucast a0) = 128" by (simp add: word_size)
    show ?thesis
      unfolding w unat_sub_if_size unat_dlimb_mul_add dlimb_pair sz BB qh N_def D_def by (simp add: add.commute)
  qed
  have NQR: "N = Q * D + R" "R < D" using D by (simp_all add: Q_def R_def)
  have uah: "unat ah = unat w div B" unfolding ah_def by (rule dlimb_parts)
  have ulow: "unat (ucast w :: limb) = unat w mod B" by (rule dlimb_parts)
  have "unat q = Q \<and> unat r = R"
  proof (cases "q1 = Q")
    case True
    define g where "g = D - R"
    have g: "0 < g" "g < B" "R + g = D" using NQR(2) D by (simp_all add: g_def)
    have w: "unat w = B * (B - 1) + (B - g)"
    proof -
      have "unat w = B * B - g" using uw NQR(1) g True by simp
      moreover have "B * B = B * (B - 1) + B" by (simp add: B_def)
      ultimately show ?thesis using g by simp
    qed
    have "B - g < B" using g D by simp
    then have h: "unat ah = B - 1" "unat (ucast w :: limb) = B - g"
      unfolding uah ulow w by simp_all
    have "ah = - 1" using h(1) unat_limb_sub [of 0 1] by (simp add: word_unat_eq_iff)
    then have "q = qh" "r = ucast w + d" using qr by simp_all
    moreover have "B - g + D = B + R" "R < B" using g D by simp_all
    ultimately show ?thesis using qh True unfolding unat_limb_add by (simp add: unat_limb_add h(2) D_def [symmetric])
  next
    case False
    then have Q: "Q = q1 + 1" using est by simp
    then have w: "unat w = R" using uw NQR(1) by (simp add: algebra_simps)
    have RB: "R < B" using NQR(2) D by simp
    have "unat ah = 0" "unat (ucast w :: limb) = R" unfolding uah ulow w using RB by simp_all
    then have "ah = 0" "unat (ucast w :: limb) = R" by (simp_all add: unat_eq_0)
    then show ?thesis using qr qh Q QB by (simp add: unat_limb_add)
  qed
  then show "unat q = (unat a1 * B + unat a0) div unat d" "unat r = (unat a1 * B + unat a0) mod unat d"
    by (simp_all add: Q_def R_def N_def D_def)
qed


section \<open>Dividing by one limb\<close>

lemma div1_limb:
  fixes r a b :: limb
  assumes "unat r < unat b"
  defines "a1 \<equiv> push_bit 64 (ucast r :: dlimb) OR ucast a"
  shows "unat (ucast (a1 div ucast b) :: limb) = (unat r * B + unat a) div unat b"
    "unat (ucast (a1 mod ucast b) :: limb) = (unat r * B + unat a) mod unat b"
proof -
  have "(unat r + 1) * B \<le> unat b * B" using assms(1) by (intro mult_le_mono1) simp
  then have "unat r * B + unat a < unat b * B" using limb_less [of a] by simp
  then have "(unat r * B + unat a) div unat b < B" by (simp add: less_mult_imp_div_less mult.commute)
  moreover have "(unat r * B + unat a) mod unat b < B"
    using assms(1) limb_less [of b]
    by (intro order.strict_trans [OF mod_less_divisor]) simp_all
  ultimately show "unat (ucast (a1 div ucast b) :: limb) = (unat r * B + unat a) div unat b"
    "unat (ucast (a1 mod ucast b) :: limb) = (unat r * B + unat a) mod unat b"
    unfolding a1_def dlimb_parts(1) unat_div_distrib unat_mod_distrib dlimb_pair unat_dlimb by simp_all
qed

text \<open>The optimised loop and the plain one compute the same, limb by limb.\<close>

lemma udiv1norm_div:
  assumes "B \<le> 2 * unat b" "unat r < unat b"
  shows "udiv1norm r a b (udiv1norm_init b) =
    (ucast ((push_bit 64 (ucast r :: dlimb) OR ucast a) div ucast b), ucast ((push_bit 64 (ucast r :: dlimb) OR ucast a) mod ucast b))"
  using udiv1norm_val [OF assms udiv1norm_init_val [OF assms(1)]] div1_limb [OF assms(2), of a]
  by (cases "udiv1norm r a b (udiv1norm_init b)") (simp add: word_unat_eq_iff)

lemma div1_inv_loop_eq:
  assumes b: "B \<le> 2 * unat b"
  shows "unat r < unat b \<Longrightarrow> div1_inv_loop taba b (udiv1norm_init b) r = div1_loop taba b r"
proof (induction taba arbitrary: r)
  case (Cons a taba r)
  have "unat (ucast ((push_bit 64 (ucast r :: dlimb) OR ucast a) mod ucast b) :: limb) < unat b"
    unfolding div1_limb(2) [OF Cons.prems] using Cons.prems by (metis gr_zeroI mod_less_divisor not_less0)
  from Cons.IH [OF this] show ?case by (simp add: udiv1norm_div [OF b Cons.prems] Let_def)
qed simp

lemma div1_loop_val:
  "unat r < unat b \<Longrightarrow> div1_loop taba b r = (qs, r') \<Longrightarrow>
   limbs_val (rev taba) + B ^ length taba * unat r = limbs_val (rev qs) * unat b + unat r' \<and>
   unat r' < unat b \<and> length qs = length taba"
proof (induction taba arbitrary: r qs)
  case (Cons a taba r)
  define a1 where "a1 = push_bit 64 (ucast r :: dlimb) OR ucast a"
  define q r1 where "q = (ucast (a1 div ucast b) :: limb)" and "r1 = (ucast (a1 mod ucast b) :: limb)"
  obtain qs1 where l: "div1_loop taba b r1 = (qs1, r')" and qs: "qs = q # qs1"
    using Cons.prems(2) by (auto simp: Let_def q_def r1_def a1_def split: prod.splits)
  have qr: "unat q * unat b + unat r1 = unat r * B + unat a" "unat r1 < unat b"
    unfolding q_def r1_def a1_def div1_limb [OF Cons.prems(1)] using Cons.prems(1) by simp_all
  have IH: "limbs_val (rev taba) + B ^ length taba * unat r1 = limbs_val (rev qs1) * unat b + unat r'"
    "unat r' < unat b" "length qs1 = length taba" using Cons.IH [OF qr(2) l] by simp_all
  have "limbs_val (rev (a # taba)) + B ^ length (a # taba) * unat r
      = limbs_val (rev taba) + B ^ length taba * (unat r * B + unat a)"
    by (simp add: limbs_val_append algebra_simps)
  also have "\<dots> = (limbs_val (rev taba) + B ^ length taba * unat r1) + B ^ length taba * (unat q * unat b)"
    unfolding qr(1) [symmetric] by (simp add: algebra_simps)
  finally show ?case unfolding IH(1) using IH by (simp add: qs limbs_val_append algebra_simps)
qed simp

lemma mp_div1norm_val:
  assumes "B \<le> 2 * unat b" "unat r < unat b" "mp_div1norm taba b r = (q, r')"
  shows "limbs_val taba + B ^ length taba * unat r = limbs_val q * unat b + unat r' \<and>
    unat r' < unat b \<and> length q = length taba"
proof -
  obtain qs where l: "div1_loop (rev taba) b r = (qs, r')" and q: "q = rev qs"
    using assms(3) by (cases "3 \<le> length taba")
      (auto simp: mp_div1norm_def div1_inv_loop_eq [OF assms(1,2)] split: prod.splits)
  show ?thesis using div1_loop_val [OF assms(2) l] by (simp add: q)
qed

text \<open>C39. The division by a precomputed reciprocal is the division: for a normalised divisor and a high limb
  below it, \<open>udiv1norm\<close> returns exactly the quotient and the remainder of the two limbs, as the two-limb division does.\<close>
theorem udiv1norm_divides:
  assumes "2 ^ 63 \<le> unat d" "unat a1 < unat d"
  shows "udiv1norm a1 a0 d (udiv1norm_init d) =
    (of_nat ((unat a1 * B + unat a0) div unat d), of_nat ((unat a1 * B + unat a0) mod unat d))"
proof -
  have d: "B \<le> 2 * unat d" using assms(1) by (simp add: B_def)
  obtain q r where e: "udiv1norm a1 a0 d (udiv1norm_init d) = (q, r)" by (cases "udiv1norm a1 a0 d (udiv1norm_init d)")
  show ?thesis unfolding e udiv1norm_val [OF d assms(2) udiv1norm_init_val [OF d] e, symmetric] by simp
qed

lemma udiv1norm_divides_witness:
  "udiv1norm 0x8000000000000000 7 0xffffffffffffffff (udiv1norm_init 0xffffffffffffffff) =
    (of_nat ((2 ^ 63 * B + 7) div (2 ^ 64 - 1)), of_nat ((2 ^ 63 * B + 7) mod (2 ^ 64 - 1)))"
  using udiv1norm_divides [of "0xffffffffffffffff" "0x8000000000000000" 7] by simp

end
