(* ===== verification/MultiDivNorm.thy ===== *)
theory MultiDivNorm
  imports MultiDiv
begin

text \<open>
  The division of a limb array by another (\<open>mp_divnorm\<close> of \<open>quickjs/libbf.c\<close>) below the threshold of
  its subquadratic form. It overwrites the dividend with the remainder and is modelled as returning
  the quotient and the new dividend. The correction may not end for all inputs, and so is a partial
  function; for a normalised divisor it ends at the first value that is not negative.
\<close>

section \<open>The loops\<close>

fun divnorm_first :: "limb list \<Rightarrow> limb list \<Rightarrow> limb" where
  "divnorm_first (a # taba) (b # tabb) =
    (if a \<noteq> b then (if a < b then 0 else 1) else divnorm_first taba tabb)"
| "divnorm_first _ _ = 1"

partial_function (option) add_back ::
    "limb list \<Rightarrow> limb list \<Rightarrow> limb \<Rightarrow> limb \<Rightarrow> (limb list \<times> limb \<times> limb) option" where
  "add_back win tabb hi q =
    (let q = q - 1; (win, c) = mp_add win tabb 0 in
     if c \<noteq> 0
     then (let hi = hi + 1 in if hi = 0 then Some (win, hi, q) else add_back win tabb hi q)
     else add_back win tabb hi q)"

definition divnorm_q :: "limb \<Rightarrow> limb \<Rightarrow> limb \<Rightarrow> limb \<Rightarrow> limb" where
  "divnorm_q hi lo b1 b1_inv =
    (if hi \<ge> b1 then - 1
     else if b1_inv \<noteq> 0 then fst (udiv1norm hi lo b1 b1_inv)
     else ucast ((push_bit 64 (ucast hi :: dlimb) OR ucast lo) div ucast b1))"

definition divnorm_step :: "limb list \<Rightarrow> limb \<Rightarrow> limb list \<Rightarrow> nat \<Rightarrow> (limb list \<times> limb) option" where
  "divnorm_step tabb b1_inv taba i =
    (let nb = length tabb;
         b1 = tabb ! (nb - 1);
         q = divnorm_q (taba ! (i + nb)) (taba ! (i + nb - 1)) b1 b1_inv;
         (win, r) = mp_sub_mul1 (take nb (drop i taba)) tabb q 0;
         v = taba ! (i + nb);
         a = v - r in
     case (if a > v then add_back win tabb a q else Some (win, a, q)) of
       None \<Rightarrow> None
     | Some (win, hi, q) \<Rightarrow> Some (take i taba @ win @ [hi] @ drop (i + nb + 1) taba, q))"

fun divnorm_loop :: "limb list \<Rightarrow> limb \<Rightarrow> limb list \<Rightarrow> limb list \<Rightarrow> nat \<Rightarrow> (limb list \<times> limb list) option" where
  "divnorm_loop tabb b1_inv taba tabq 0 = Some (tabq, taba)"
| "divnorm_loop tabb b1_inv taba tabq (Suc i) =
    (case divnorm_step tabb b1_inv taba i of
       None \<Rightarrow> None
     | Some (taba, q) \<Rightarrow> divnorm_loop tabb b1_inv taba (q # tabq) i)"

definition divnorm_base :: "limb list \<Rightarrow> limb list \<Rightarrow> (limb list \<times> limb list) option" where
  "divnorm_base taba tabb =
    (let nb = length tabb; b1 = tabb ! (nb - 1) in
     if nb = 1 then (let (tabq, r) = mp_div1norm taba b1 0 in Some (tabq, taba[0 := r]))
     else
       (let n = length taba - nb;
            b1_inv = (if 3 \<le> n then udiv1norm_init b1 else 0);
            q = divnorm_first (rev (drop n taba)) (rev tabb);
            taba = (if q \<noteq> 0 then take n taba @ fst (mp_sub (drop n taba) tabb 0) else taba) in
        divnorm_loop tabb b1_inv taba [q] n))"

section \<open>The correction\<close>

lemma limb_inc:
  fixes h :: limb
  shows "h + 1 = 0 \<Longrightarrow> unat h = B - 1" "h + 1 \<noteq> 0 \<Longrightarrow> unat (h + 1) = unat h + 1"
proof -
  show "unat h = B - 1" if "h + 1 = 0"
    using that unat_limb_sub [of 0 1] by (simp add: eq_neg_iff_add_eq_0 [symmetric])
  show "unat (h + 1) = unat h + 1" if "h + 1 \<noteq> 0" using that unatSuc [of h] by (simp add: add.commute)
qed

text \<open>\<open>S\<close> is what the window and the limb above it stand for in two's complement.\<close>

lemma add_back_ends:
  assumes D: "0 < limbs_val tabb"
  shows "length win = length tabb \<Longrightarrow>
    int (limbs_val win) + int (B ^ length tabb) * int (unat hi) - int (B ^ Suc (length tabb)) = S \<Longrightarrow> S < 0 \<Longrightarrow>
    \<exists>win' j. add_back win tabb hi q = Some (win', 0, q - of_nat j) \<and> length win' = length tabb \<and>
      int (limbs_val win') = S + int j * int (limbs_val tabb) \<and> limbs_val win' < limbs_val tabb"
proof (induction "nat (- S)" arbitrary: S win hi q rule: less_induct)
  case less
  define D where "D = limbs_val tabb"
  define P where "P = B ^ length tabb"
  obtain win1 c where w: "mp_add win tabb 0 = (win1, c)" by (cases "mp_add win tabb 0")
  have v: "limbs_val win1 + P * unat c = limbs_val win + D" "unat c \<le> 1" "length win1 = length tabb"
    using mp_add_val [OF less.prems(1) _ w] by (simp_all add: D_def P_def less.prems(1))
  have less_P: "limbs_val win1 < P" using limbs_val_less [of win1] by (simp add: v(3) P_def)
  have S: "int (limbs_val win) + int P * int (unat hi) - int P * int B = S"
    using less.prems(2) by (simp add: P_def mult.commute)
  have neg: "int (limbs_val win1) + int P * int (unat hi') - int P * int B < 0" for hi' :: limb
  proof -
    have "P * (unat hi' + 1) \<le> P * B" using limb_less [of hi'] by (intro mult_le_mono2) simp
    then have "limbs_val win1 + P * unat hi' < P * B" using less_P by simp
    then show ?thesis by (metis diff_less_0_iff_less of_nat_add of_nat_less_iff of_nat_mult)
  qed
  have rec: "\<exists>win' j. add_back win1 tabb hi' (q - 1) = Some (win', 0, q - of_nat j) \<and> length win' = length tabb \<and>
      int (limbs_val win') = S + int j * int (limbs_val tabb) \<and> limbs_val win' < limbs_val tabb"
    if e: "int (limbs_val win1) + int P * int (unat hi') - int P * int B = S + int D" for hi'
  proof -
    have "S + int D < 0" using neg [of hi'] e by simp
    moreover from this have "nat (- (S + int D)) < nat (- S)" using D by (simp add: D_def)
    moreover have "int (limbs_val win1) + int (B ^ length tabb) * int (unat hi') - int (B ^ Suc (length tabb)) = S + int D"
      using e by (simp add: P_def mult.commute)
    ultimately obtain win' j where r: "add_back win1 tabb hi' (q - 1) = Some (win', 0, q - 1 - of_nat j)"
      "length win' = length tabb" "int (limbs_val win') = S + int D + int j * int (limbs_val tabb)" "limbs_val win' < limbs_val tabb"
      using less.hyps [of "S + int D" win1 hi' "q - 1"] v(3) by blast
    show ?thesis
      by (rule exI [of _ win'], rule exI [of _ "Suc j"]) (use r in \<open>simp add: D_def algebra_simps\<close>)
  qed
  show ?case
  proof (cases "c = 0")
    case True
    then have "add_back win tabb hi q = add_back win1 tabb hi (q - 1)" by (subst add_back.simps) (simp add: w)
    moreover have "int (limbs_val win1) + int P * int (unat hi) - int P * int B = S + int D"
      using True v(1) S by simp
    ultimately show ?thesis using rec by simp
  next
    case False
    then have c: "unat c = 1" using v(2) by (metis le_neq_implies_less less_one unat_eq_0)
    show ?thesis
    proof (cases "hi + 1 = 0")
      case True
      then have hi: "unat hi = B - 1" by (rule limb_inc)
      have a: "add_back win tabb hi q = Some (win1, 0, q - 1)" using False True by (subst add_back.simps) (simp add: w)
      have "int P * int (B - 1) = int P * int B - int P" by (simp add: B_def algebra_simps)
      then have "int (limbs_val win1) = S + int D" using v(1) S unfolding c hi by simp
      then show ?thesis using a v(3) less.prems(3) by (intro exI [of _ win1] exI [of _ 1]) (simp add: D_def)
    next
      case hi: False
      then have "unat (hi + 1) = unat hi + 1" by (rule limb_inc)
      then have "int (limbs_val win1) + int P * int (unat (hi + 1)) - int P * int B = S + int D"
        using v(1) S c by (simp add: algebra_simps)
      moreover have "add_back win tabb hi q = add_back win1 tabb (hi + 1) (q - 1)"
        using False hi by (subst add_back.simps) (simp add: w)
      ultimately show ?thesis using rec by simp
    qed
  qed
qed


section \<open>One limb of the quotient\<close>

lemma limbs_val_last:
  assumes "xs \<noteq> []"
  shows "unat (last xs) * B ^ (length xs - 1) \<le> limbs_val xs" "limbs_val xs < (unat (last xs) + 1) * B ^ (length xs - 1)"
proof -
  have v: "limbs_val xs = limbs_val (butlast xs) + B ^ (length xs - 1) * unat (last xs)"
    using limbs_val_append [of "butlast xs" "[last xs]"] assms by simp
  have "limbs_val (butlast xs) < B ^ (length xs - 1)" using limbs_val_less [of "butlast xs"] by simp
  then show "unat (last xs) * B ^ (length xs - 1) \<le> limbs_val xs" "limbs_val xs < (unat (last xs) + 1) * B ^ (length xs - 1)"
    unfolding v by (simp_all add: algebra_simps)
qed

lemma divnorm_q_val:
  assumes b1: "B \<le> 2 * unat b1" and inv: "b1_inv = 0 \<or> b1_inv = udiv1norm_init b1"
  shows "unat (divnorm_q hi lo b1 b1_inv) = (if unat b1 \<le> unat hi then B - 1 else (unat hi * B + unat lo) div unat b1)"
proof (cases "unat b1 \<le> unat hi")
  case True
  then show ?thesis using unat_limb_sub [of 0 1] by (simp add: divnorm_q_def word_le_nat_alt)
next
  case False
  then have l: "unat hi < unat b1" by simp
  show ?thesis using False inv div1_limb(1) [OF l, of lo] udiv1norm_div [OF b1 l, of lo]
    by (cases "b1_inv = 0") (simp_all add: divnorm_q_def word_le_nat_alt)
qed

text \<open>The estimate is never too small.\<close>

lemma divnorm_q_upper:
  assumes b1: "B \<le> 2 * unat (last tabb)" and inv: "b1_inv = 0 \<or> b1_inv = udiv1norm_init (last tabb)"
    and len: "w0 \<noteq> []" "length w0 = length tabb"
    and W: "W = limbs_val w0 + B ^ length tabb * unat hi" "W < B * limbs_val tabb"
  shows "W < (unat (divnorm_q hi (last w0) (last tabb) b1_inv) + 1) * limbs_val tabb"
proof (cases "unat (last tabb) \<le> unat hi")
  case True
  then show ?thesis using W(2) by (simp add: divnorm_q_val [OF b1 inv])
next
  case False
  define b h l P where "b = unat (last tabb)" and "h = unat hi" and "l = unat (last w0)" and "P = B ^ (length tabb - 1)"
  have b0: "0 < b" using b1 B_pos by (simp add: b_def del: B_pos)
  have q: "unat (divnorm_q hi (last w0) (last tabb) b1_inv) = (h * B + l) div b"
    using False by (simp add: divnorm_q_val [OF b1 inv] b_def h_def l_def)
  have tb: "tabb \<noteq> []" using len by auto
  have B: "B ^ length tabb = B * P" using tb by (cases tabb) (simp_all add: P_def)
  have "limbs_val w0 < (l + 1) * P" using limbs_val_last(2) [OF len(1)] by (simp add: l_def P_def len(2))
  then have "W < (h * B + l + 1) * P" unfolding W(1) B by (simp add: h_def algebra_simps)
  also have "(h * B + l + 1) * P \<le> (((h * B + l) div b + 1) * b) * P"
    using dividend_less_div_times [OF b0, of "h * B + l"] by (intro mult_le_mono1) (simp add: algebra_simps)
  also have "\<dots> = ((h * B + l) div b + 1) * (b * P)" by (simp add: algebra_simps)
  also have "\<dots> \<le> ((h * B + l) div b + 1) * limbs_val tabb"
    using limbs_val_last(1) [OF tb] by (intro mult_le_mono2) (simp add: b_def P_def)
  finally show ?thesis unfolding q .
qed

lemma divnorm_step_val:
  assumes b1: "B \<le> 2 * unat (last tabb)" and tb: "tabb \<noteq> []"
    and inv: "b1_inv = 0 \<or> b1_inv = udiv1norm_init (last tabb)"
    and i: "i + length tabb < length taba"
    and W: "W = limbs_val (take (length tabb) (drop i taba)) + B ^ length tabb * unat (taba ! (i + length tabb))"
      "W < B * limbs_val tabb"
  shows "\<exists>win q. divnorm_step tabb b1_inv taba i = Some (take i taba @ win @ [0] @ drop (i + length tabb + 1) taba, q) \<and>
    length win = length tabb \<and> limbs_val win = W mod limbs_val tabb \<and> unat q = W div limbs_val tabb"
proof -
  define D P w0 hi where "D = limbs_val tabb" and "P = B ^ length tabb" and "w0 = take (length tabb) (drop i taba)"
    and "hi = taba ! (i + length tabb)"
  have w0: "length w0 = length tabb" "w0 \<noteq> []" using i tb by (auto simp: w0_def)
  have lo: "taba ! (i + length tabb - 1) = last w0"
    using w0 i tb by (simp add: last_conv_nth w0_def Suc_le_eq)
  have lb: "tabb ! (length tabb - 1) = last tabb" using tb by (simp add: last_conv_nth)
  have W': "W = limbs_val w0 + P * unat hi" "W < B * D" using W by (simp_all add: w0_def P_def hi_def D_def)
  define q0 where "q0 = divnorm_q hi (last w0) (last tabb) b1_inv"
  have up: "W < (unat q0 + 1) * D"
    unfolding q0_def D_def by (rule divnorm_q_upper [OF b1 inv w0(2,1) W'(1) [unfolded P_def] W'(2) [unfolded D_def]])
  have D0: "0 < D" using W'(2) by (cases D) simp_all
  have DP: "D < P" unfolding D_def P_def by (rule limbs_val_less)
  obtain win r where m: "mp_sub_mul1 w0 tabb q0 0 = (win, r)" by (cases "mp_sub_mul1 w0 tabb q0 0")
  have win: "limbs_val win + D * unat q0 = limbs_val w0 + P * unat r" "length win = length tabb"
    using mp_sub_mul1_val [OF w0(1) m] by (simp_all add: D_def P_def)
  define a where "a = hi - r"
  have c: "a > hi \<longleftrightarrow> unat hi < unat r"
    using limb_less [of r] limb_less [of hi] by (auto simp: a_def word_less_nat_alt unat_limb_sub)
  have step: "divnorm_step tabb b1_inv taba i =
      (case (if a > hi then add_back win tabb a q0 else Some (win, a, q0)) of
         None \<Rightarrow> None | Some (win, h, q) \<Rightarrow> Some (take i taba @ win @ [h] @ drop (i + length tabb + 1) taba, q))"
    unfolding divnorm_step_def Let_def lo lb w0_def [symmetric] hi_def [symmetric] q0_def [symmetric] m a_def
    by (simp only: prod.case)
  have QR: "W = W div D * D + W mod D" "W mod D < D" using D0 by simp_all
  have QB: "W div D < B" using W'(2) by (simp add: less_mult_imp_div_less)
  show ?thesis
  proof (cases "a > hi")
    case False
    then have a: "unat a = unat hi - unat r" "unat r \<le> unat hi" using c by (simp_all add: a_def unat_limb_sub)
    have "P * unat hi = P * unat a + P * unat r" unfolding a(1) using a(2) by (simp add: distrib_left [symmetric])
    then have e: "W = limbs_val win + P * unat a + D * unat q0" using win(1) W'(1) by simp
    then have l: "limbs_val win + P * unat a < D" using up by (simp add: algebra_simps)
    have "unat a = 0"
    proof (rule ccontr)
      assume "unat a \<noteq> 0"
      then have "P * 1 \<le> P * unat a" by (intro mult_le_mono2) simp
      then show False using l DP by linarith
    qed
    then have a0: "a = 0" "limbs_val win < D" using l by (simp_all add: unat_eq_0)
    have "W = limbs_val win + unat q0 * D" using e a0 by (simp add: mult.commute)
    then have "W div D = unat q0" "W mod D = limbs_val win" using a0(2) by simp_all
    then show ?thesis unfolding step using False a0 win(2) by (simp add: D_def)
  next
    case True
    then have a: "unat a + unat r = B + unat hi" using c limb_less [of r] by (simp add: a_def unat_limb_sub)
    define S where "S = int (limbs_val win) + int P * int (unat a) - int (P * B)"
    have "int P * int (unat a) + int P * int (unat r) = int P * int B + int P * int (unat hi)"
      using arg_cong [OF a, of "\<lambda>t. int P * int t"] by (simp add: distrib_left)
    moreover have "int (limbs_val win) + int D * int (unat q0) = int (limbs_val w0) + int P * int (unat r)"
      using arg_cong [OF win(1), of int] by simp
    moreover have "int W = int (limbs_val w0) + int P * int (unat hi)" using W'(1) by simp
    ultimately have S: "S = int W - int D * int (unat q0)" by (simp add: S_def)
    have "P * (unat a + 1) \<le> P * B" using limb_less [of a] by (intro mult_le_mono2) simp
    then have "limbs_val win + P * unat a < P * B" using limbs_val_less [of win] win(2) by (simp add: P_def)
    then have "S < 0" unfolding S_def by (metis diff_less_0_iff_less of_nat_add of_nat_less_iff of_nat_mult)
    moreover have "int (limbs_val win) + int (B ^ length tabb) * int (unat a) - int (B ^ Suc (length tabb)) = S"
      by (simp add: S_def P_def mult.commute)
    ultimately obtain win' j where r: "add_back win tabb a q0 = Some (win', 0, q0 - of_nat j)" "length win' = length tabb"
      "int (limbs_val win') = S + int j * int D" "limbs_val win' < D"
      using add_back_ends [OF D0 [unfolded D_def] win(2), of a S q0] unfolding D_def by blast
    have W2: "int W = (int (unat q0) - int j) * int D + int (limbs_val win')" using r(3) unfolding S by (simp add: algebra_simps)
    have "int (W div D) = int (unat q0) - int j" "int (W mod D) = int (limbs_val win')"
      unfolding zdiv_int zmod_int W2 using r(4) D0 by simp_all
    then have Q: "unat q0 = W div D + j" "W mod D = limbs_val win'" by linarith+
    have "q0 = of_nat (W div D + j)" unfolding Q(1) [symmetric] by simp
    then have "q0 - of_nat j = of_nat (W div D)" by simp
    then have "unat (q0 - of_nat j) = W div D" using QB by (simp add: unat_of_nat B_def)
    then show ?thesis unfolding step using True r Q(2) by (simp add: D_def)
  qed
qed

section \<open>All limbs\<close>

lemma take_snoc_val:
  "i < length xs \<Longrightarrow> limbs_val (take (Suc i) xs) = limbs_val (take i xs) + B ^ i * unat (xs ! i)"
  by (simp add: take_Suc_conv_app_nth limbs_val_append min_absorb2)

lemma take_split_val:
  "i + n \<le> length xs \<Longrightarrow> limbs_val (take (i + n) xs) = limbs_val (take i xs) + B ^ i * limbs_val (take n (drop i xs))"
  by (simp add: take_add limbs_val_append min_absorb2)

lemma divnorm_loop_val:
  assumes b1: "B \<le> 2 * unat (last tabb)" and tb: "tabb \<noteq> []"
    and inv: "b1_inv = 0 \<or> b1_inv = udiv1norm_init (last tabb)"
  shows "i + length tabb \<le> length taba \<Longrightarrow> limbs_val (take (length tabb) (drop i taba)) < limbs_val tabb \<Longrightarrow>
    \<exists>tq taba'. divnorm_loop tabb b1_inv taba tabq i = Some (tq @ tabq, taba') \<and> length tq = i \<and> length taba' = length taba \<and>
      limbs_val tq * limbs_val tabb + limbs_val (take (length tabb) taba') = limbs_val (take (i + length tabb) taba) \<and>
      limbs_val (take (length tabb) taba') < limbs_val tabb \<and>
      drop (length tabb) taba' = replicate i 0 @ drop (i + length tabb) taba"
proof (induction i arbitrary: taba tabq)
  case (Suc i)
  define nb D where "nb = length tabb" and "D = limbs_val tabb"
  define W where "W = limbs_val (take nb (drop i taba)) + B ^ nb * unat (taba ! (i + nb))"
  have i: "i + nb < length taba" using Suc.prems(1) by (simp add: nb_def)
  have "W = limbs_val (take (Suc nb) (drop i taba))" using i by (simp add: W_def take_snoc_val)
  also have "take (Suc nb) (drop i taba) = taba ! i # take nb (drop (Suc i) taba)"
    using i by (simp add: Cons_nth_drop_Suc [symmetric])
  finally have "W = unat (taba ! i) + B * limbs_val (take nb (drop (Suc i) taba))" by simp
  moreover have "B * (limbs_val (take nb (drop (Suc i) taba)) + 1) \<le> B * D"
    using Suc.prems(2) by (intro mult_le_mono2) (simp add: nb_def D_def)
  ultimately have WB: "W < B * D" using limb_less [of "taba ! i"] by simp
  obtain win q where s: "divnorm_step tabb b1_inv taba i = Some (take i taba @ win @ [0] @ drop (i + nb + 1) taba, q)"
    and win: "length win = nb" "limbs_val win = W mod D" "unat q = W div D"
    using divnorm_step_val [OF b1 tb inv i [unfolded nb_def] W_def [unfolded nb_def] WB [unfolded D_def]]
    unfolding nb_def D_def by blast
  define taba1 where "taba1 = take i taba @ win @ [0] @ drop (i + nb + 1) taba"
  have t1: "length taba1 = length taba" "take i taba1 = take i taba" "take nb (drop i taba1) = win"
    "drop (i + nb) taba1 = 0 # drop (Suc i + nb) taba"
    using i win(1) by (simp_all add: taba1_def)
  have D0: "0 < D" using WB by (cases D) simp_all
  have "i + length tabb \<le> length taba1" using i t1(1) by (simp add: nb_def)
  moreover have "limbs_val (take (length tabb) (drop i taba1)) < limbs_val tabb"
    using D0 by (simp add: t1(3) [unfolded nb_def] win(2) D_def)
  ultimately obtain tq taba' where r: "divnorm_loop tabb b1_inv taba1 (q # tabq) i = Some (tq @ q # tabq, taba')"
    "length tq = i" "length taba' = length taba1"
    "limbs_val tq * D + limbs_val (take nb taba') = limbs_val (take (i + nb) taba1)"
    "limbs_val (take nb taba') < D" "drop nb taba' = replicate i 0 @ drop (i + nb) taba1"
    using Suc.IH [of taba1 "q # tabq"] unfolding nb_def D_def by blast
  have v: "limbs_val (tq @ [q]) * D + limbs_val (take nb taba') = limbs_val (take (Suc i + nb) taba)"
  proof -
    have "limbs_val (tq @ [q]) * D + limbs_val (take nb taba') = limbs_val (take (i + nb) taba1) + B ^ i * (W div D * D)"
      using r(4) by (simp add: limbs_val_append r(2) win(3) algebra_simps)
    also have "limbs_val (take (i + nb) taba1) = limbs_val (take i taba) + B ^ i * (W mod D)"
      using i by (simp add: take_split_val t1 win(2))
    also have "limbs_val (take i taba) + B ^ i * (W mod D) + B ^ i * (W div D * D) = limbs_val (take i taba) + B ^ i * W"
      by (simp add: add.assoc distrib_left [symmetric])
    also have "W = limbs_val (take (Suc nb) (drop i taba))"
      using i by (simp add: W_def take_snoc_val)
    also have "limbs_val (take i taba) + B ^ i * \<dots> = limbs_val (take (i + Suc nb) taba)"
      using i by (intro take_split_val [symmetric]) simp
    finally show ?thesis by simp
  qed
  have "divnorm_loop tabb b1_inv taba tabq (Suc i) = Some ((tq @ [q]) @ tabq, taba')"
    using s r(1) by (simp add: taba1_def)
  moreover have "drop nb taba' = replicate (Suc i) 0 @ drop (Suc i + nb) taba"
    unfolding r(6) t1(4) by (simp add: replicate_append_same [symmetric] del: replicate_append_same)
  ultimately show ?case
    by (intro exI [of _ "tq @ [q]"] exI [of _ taba']) (use r(2,3,5) t1(1) v in \<open>simp add: nb_def D_def\<close>)
qed simp

lemma divnorm_first_val:
  "length taba = length tabb \<Longrightarrow>
   divnorm_first (rev taba) (rev tabb) = (if limbs_val tabb \<le> limbs_val taba then 1 else 0)"
proof (induction taba arbitrary: tabb rule: rev_induct)
  case (snoc a taba tabs)
  obtain tabb b where t: "tabs = tabb @ [b]" "length tabb = length taba"
    using snoc.prems by (cases tabs rule: rev_cases) auto
  define P where "P = B ^ length taba"
  have l: "limbs_val taba < P" "limbs_val tabb < P"
    using limbs_val_less [of taba] limbs_val_less [of tabb] by (simp_all add: P_def t(2))
  have v: "limbs_val (taba @ [a]) = limbs_val taba + P * unat a" "limbs_val tabs = limbs_val tabb + P * unat b"
    by (simp_all add: t limbs_val_append P_def)
  have lt: "x + P * m < y + P * n" if "m < n" "x < P" for x y m n
  proof -
    have "P * (m + 1) \<le> P * n" using that(1) by (intro mult_le_mono2) simp
    then show ?thesis using that(2) by simp
  qed
  show ?case
  proof (cases "a = b")
    case True
    then show ?thesis unfolding v using snoc.IH [OF t(2) [symmetric]] by (simp add: t)
  next
    case False
    then consider "unat a < unat b" | "unat b < unat a" by (meson linorder_neqE_nat word_unat_eq_iff)
    then show ?thesis
      unfolding v using False lt [OF _ l(1), of "unat a" "unat b" "limbs_val tabb"]
        lt [OF _ l(2), of "unat b" "unat a" "limbs_val taba"]
      by cases (auto simp: t word_less_nat_alt not_le)
  qed
qed simp


section \<open>The division\<close>

lemma norm_divisor:
  assumes "B \<le> 2 * unat (last tabb)" "tabb \<noteq> []"
  shows "B ^ length tabb \<le> 2 * limbs_val tabb" "0 < limbs_val tabb"
proof -
  have "B ^ length tabb = B * B ^ (length tabb - 1)" using assms(2) by (cases tabb) simp_all
  also have "\<dots> \<le> 2 * unat (last tabb) * B ^ (length tabb - 1)" using assms(1) by (rule mult_le_mono1)
  also have "\<dots> \<le> 2 * limbs_val tabb" using limbs_val_last(1) [OF assms(2)] by simp
  finally show "B ^ length tabb \<le> 2 * limbs_val tabb" .
  moreover have "0 < B ^ length tabb" by simp
  ultimately show "0 < limbs_val tabb" by linarith
qed

lemma divnorm_base_long:
  assumes b1: "B \<le> 2 * unat (last tabb)" and nb: "length tabb \<noteq> 1" "tabb \<noteq> []" "length tabb \<le> length taba"
  shows "\<exists>tabq taba'. divnorm_base taba tabb = Some (tabq, taba') \<and>
    limbs_val tabq * limbs_val tabb + limbs_val (take (length tabb) taba') = limbs_val taba \<and>
    limbs_val (take (length tabb) taba') < limbs_val tabb \<and>
    length tabq = length taba - length tabb + 1 \<and> length taba' = length taba"
proof -
  define n hi D where "n = length taba - length tabb" and "hi = drop n taba" and "D = limbs_val tabb"
  have hi: "length hi = length tabb" "taba = take n taba @ hi" "length (take n taba) = n" using nb(3) by (simp_all add: n_def hi_def)
  define b1_inv where "b1_inv = (if 3 \<le> n then udiv1norm_init (last tabb) else 0)"
  define q where "q = (if D \<le> limbs_val hi then 1 else 0 :: limb)"
  define low where "low = (if D \<le> limbs_val hi then fst (mp_sub hi tabb 0) else hi)"
  have d: "divnorm_base taba tabb = divnorm_loop tabb b1_inv (take n taba @ low) [q] n"
    using nb hi(2) divnorm_first_val [OF hi(1)]
    by (auto simp: divnorm_base_def Let_def n_def [symmetric] hi_def [symmetric] b1_inv_def q_def low_def D_def last_conv_nth)
  have low: "length low = length tabb" "limbs_val low + unat q * D = limbs_val hi" "limbs_val low < D"
  proof -
    obtain r c where s: "mp_sub hi tabb 0 = (r, c)" by (cases "mp_sub hi tabb 0")
    have s': "limbs_val r + D = limbs_val hi + B ^ length tabb * unat c" "unat c \<le> 1" "length r = length tabb"
      using mp_sub_val [OF hi(1) _ s] by (simp_all add: D_def hi(1))
    have r: "limbs_val r < B ^ length tabb" using limbs_val_less [of r] by (simp add: s'(3))
    have "unat c = 0" if "D \<le> limbs_val hi"
    proof (rule ccontr)
      assume "unat c \<noteq> 0"
      then have "unat c = 1" using s'(2) by simp
      then show False using s'(1) r that by simp
    qed
    moreover have "limbs_val hi < 2 * D"
      using limbs_val_less [of hi] norm_divisor(1) [OF b1 nb(2)] by (simp add: hi(1) D_def)
    ultimately show "length low = length tabb" "limbs_val low + unat q * D = limbs_val hi" "limbs_val low < D"
      using s' hi(1) s by (auto simp: low_def q_def)
  qed
  define taba1 where "taba1 = take n taba @ low"
  have t: "n + length tabb \<le> length taba1" "take (length tabb) (drop n taba1) = low" "take (n + length tabb) taba1 = taba1"
    "length taba1 = length taba"
    using hi(3) low(1) nb(3) by (simp_all add: taba1_def n_def)
  have inv: "b1_inv = 0 \<or> b1_inv = udiv1norm_init (last tabb)" by (simp add: b1_inv_def)
  obtain tq taba' where r: "divnorm_loop tabb b1_inv taba1 [q] n = Some (tq @ [q], taba')" "length tq = n"
    "length taba' = length taba1" "limbs_val tq * D + limbs_val (take (length tabb) taba') = limbs_val taba1"
    "limbs_val (take (length tabb) taba') < D"
    using divnorm_loop_val [OF b1 nb(2) inv t(1), of "[q]"] low(3) unfolding t(2,3) D_def by blast
  have "limbs_val taba = limbs_val (take n taba) + B ^ n * limbs_val hi"
    using arg_cong [OF hi(2), of limbs_val] by (simp only: limbs_val_append hi(3))
  also have "\<dots> = limbs_val taba1 + B ^ n * (unat q * D)"
    unfolding low(2) [symmetric] taba1_def limbs_val_append hi(3) by (simp add: algebra_simps)
  also have "\<dots> = limbs_val (tq @ [q]) * D + limbs_val (take (length tabb) taba')"
    unfolding r(4) [symmetric] by (simp add: limbs_val_append r(2) algebra_simps)
  finally show ?thesis using d r t(4) by (intro exI [of _ "tq @ [q]"] exI [of _ taba']) (simp add: taba1_def n_def D_def)
qed


lemma divnorm_base_one:
  assumes b: "B \<le> 2 * unat b" and a: "taba \<noteq> []"
  shows "\<exists>tabq taba'. divnorm_base taba [b] = Some (tabq, taba') \<and>
    limbs_val tabq * unat b + limbs_val (take 1 taba') = limbs_val taba \<and> limbs_val (take 1 taba') < unat b \<and>
    length tabq = length taba \<and> length taba' = length taba"
proof -
  obtain tabq r where m: "mp_div1norm taba b 0 = (tabq, r)" by (cases "mp_div1norm taba b 0")
  have b0: "unat (0 :: limb) < unat b" using b by (cases "unat b") (simp_all add: B_def)
  obtain a0 as where t: "taba = a0 # as" using a by (cases taba) auto
  show ?thesis using mp_div1norm_val [OF b b0 m] m by (simp add: divnorm_base_def t)
qed

text \<open>Every division ends, with the quotient and the remainder.\<close>

theorem divnorm_base_divides:
  assumes b1: "B \<le> 2 * unat (last tabb)" and nb: "tabb \<noteq> []" "length tabb \<le> length taba"
  obtains tabq taba' where "divnorm_base taba tabb = Some (tabq, taba')"
    "limbs_val tabq = limbs_val taba div limbs_val tabb"
    "limbs_val (take (length tabb) taba') = limbs_val taba mod limbs_val tabb"
    "length tabq = length taba - length tabb + 1" "length taba' = length taba"
proof -
  obtain tabq taba' where r: "divnorm_base taba tabb = Some (tabq, taba')"
    "limbs_val tabq * limbs_val tabb + limbs_val (take (length tabb) taba') = limbs_val taba"
    "limbs_val (take (length tabb) taba') < limbs_val tabb"
    "length tabq = length taba - length tabb + 1" "length taba' = length taba"
  proof (cases "length tabb = 1")
    case True
    then obtain b where b: "tabb = [b]" by (cases tabb) auto
    have a: "taba \<noteq> []" using nb by auto
    then have "length taba = length taba - 1 + 1" by (cases taba) simp_all
    then show ?thesis using divnorm_base_one [OF _ a, of b] b1 that by (auto simp: b)
  next
    case False
    show ?thesis using divnorm_base_long [OF b1 False nb] that by blast
  qed
  have "limbs_val taba div limbs_val tabb = limbs_val tabq" "limbs_val taba mod limbs_val tabb = limbs_val (take (length tabb) taba')"
    unfolding r(2) [symmetric] using r(3) by simp_all
  then show thesis using that r by simp
qed

end
