(* ===== verification/MultiNewton.thy ===== *)
theory MultiNewton
  imports MultiDivNorm
begin

text \<open>
  The subquadratic division of \<open>quickjs/libbf.c\<close>: the reciprocal of a limb array by one step of
  Newton's iteration over its upper half (\<open>mp_recip\<close>), the quotient estimated from a reciprocal and
  then incremented until the remainder is below the divisor (\<open>mp_divnorm_large\<close>), and \<open>mp_divnorm\<close>,
  which chooses. From 100 limbs a product is taken by \<open>fft_mul\<close>, the number-theoretic transform of the
  same file, which is not modelled: it is an argument, and may fail for want of memory. The other
  allocations succeed.
\<close>

section \<open>Product, comparison and test for zero\<close>

type_synonym mul_fun = "limb list \<Rightarrow> limb list \<Rightarrow> limb list option"

definition mp_mul :: "mul_fun \<Rightarrow> limb list \<Rightarrow> limb list \<Rightarrow> limb list option" where
  "mp_mul fft_mul op1 op2 =
    (if 100 \<le> min (length op1) (length op2) then fft_mul op1 op2 else Some (mp_mul_basecase op1 op2))"

fun mp_scan_nz :: "limb list \<Rightarrow> limb" where
  "mp_scan_nz [] = 0"
| "mp_scan_nz (x # tab) = (if x \<noteq> 0 then 1 else mp_scan_nz tab)"

fun mp_cmp_loop :: "limb list \<Rightarrow> limb list \<Rightarrow> int" where
  "mp_cmp_loop (a # taba) (b # tabb) =
    (if a \<noteq> b then (if a < b then - 1 else 1) else mp_cmp_loop taba tabb)"
| "mp_cmp_loop _ _ = 0"

definition mp_cmp :: "limb list \<Rightarrow> limb list \<Rightarrow> int" where
  "mp_cmp taba tabb = mp_cmp_loop (rev taba) (rev tabb)"

section \<open>The reciprocal\<close>

partial_function (option) recip_fix ::
    "limb list \<Rightarrow> limb list \<Rightarrow> limb list \<Rightarrow> (limb list \<times> limb list) option" where
  "recip_fix taba tabxh tabt =
    (if last tabt \<noteq> 0
     then (let n = length taba;
               tabxh = fst (mp_sub_ui tabxh 1);
               (low, c) = mp_sub (take n tabt) taba 0;
               high = fst (mp_sub_ui (drop n tabt) c) in
           recip_fix taba tabxh (low @ high))
     else Some (tabxh, tabt))"

function mp_recip :: "mul_fun \<Rightarrow> limb list \<Rightarrow> limb list option" where
  "mp_recip fft_mul taba =
    (let n = length taba in
     if n \<le> 2
     then (case divnorm_base (replicate (2 * n) 0 @ [1]) taba of
             None \<Rightarrow> None
           | Some (tabt, tabu) \<Rightarrow>
               (let tabr = take (n + 1) tabt in
                Some (if mp_scan_nz (take n tabu) = 0 then fst (mp_sub_ui tabr 1) else tabr)))
     else
       (let l = (n - 1) div 2; h = n - l in
        case mp_recip fft_mul (drop l taba) of None \<Rightarrow> None | Some tabxh \<Rightarrow>
        (case mp_mul fft_mul taba tabxh of None \<Rightarrow> None | Some tabt \<Rightarrow>
        (case recip_fix taba tabxh tabt of None \<Rightarrow> None | Some (tabxh, tabt) \<Rightarrow>
         (let tabt = fst (mp_neg tabt 0); tabt = tabt[n + h := tabt ! (n + h) + 1] in
          case mp_mul fft_mul (drop l tabt) tabxh of None \<Rightarrow> None | Some tabu \<Rightarrow>
          (let k = 2 * h - l in
           Some (take l (drop k tabu) @ fst (mp_add (take h tabxh) (take h (drop (2 * h) tabu)) 0) @ drop h tabxh)))))))"
  by pat_completeness auto
termination by (relation "measure (\<lambda>(_, taba). length taba)") auto

declare mp_recip.simps [simp del]

section \<open>The division\<close>

partial_function (option) large_fix ::
    "limb list \<Rightarrow> limb list \<Rightarrow> limb list \<Rightarrow> (limb list \<times> limb list) option" where
  "large_fix taba tabb tabq =
    (let nb = length tabb in
     if taba ! nb = 0 \<and> mp_cmp (take nb taba) tabb < 0 then Some (tabq, taba)
     else
       (let (low, c) = mp_sub (take nb taba) tabb 0 in
        large_fix (low @ [taba ! nb - c] @ drop (nb + 1) taba) tabb (fst (mp_add_ui tabq 1))))"

definition mp_divnorm_large :: "mul_fun \<Rightarrow> limb list \<Rightarrow> limb list \<Rightarrow> (limb list \<times> limb list) option" where
  "mp_divnorm_large fft_mul taba tabb =
    (let na = length taba; nb = length tabb; nq = na - nb; n = (if nq < nb then nq + 1 else nq) in
     case (if nb \<le> n then mp_recip fft_mul (replicate (n - nb) 0 @ tabb)
           else (let (tabt, c) = mp_add_ui (drop (nb - n) tabb) 1 in
                 if c \<noteq> 0 then Some (replicate n 0 @ [1]) else mp_recip fft_mul tabt)) of
       None \<Rightarrow> None
     | Some tabb_inv \<Rightarrow>
         (case mp_mul fft_mul tabb_inv (drop (na - (n + 1)) taba) of None \<Rightarrow> None | Some tabt \<Rightarrow>
          (let tabq = take (nq + 1) (drop (2 * (n + 1) - (nq + 1)) tabt) in
           case mp_mul fft_mul tabq tabb of None \<Rightarrow> None | Some tabt \<Rightarrow>
           large_fix (fst (mp_sub (take (nb + 1) taba) (take (nb + 1) tabt) 0) @ drop (nb + 1) taba) tabb tabq)))"

definition mp_divnorm :: "mul_fun \<Rightarrow> limb list \<Rightarrow> limb list \<Rightarrow> (limb list \<times> limb list) option" where
  "mp_divnorm fft_mul taba tabb =
    (if length tabb \<noteq> 1 \<and> 50 \<le> min (length taba - length tabb) (length tabb)
     then mp_divnorm_large fft_mul taba tabb
     else divnorm_base taba tabb)"

section \<open>Values of parts and of the small loops\<close>

lemma limbs_val_take_drop:
  "limbs_val (take i xs) = limbs_val xs mod B ^ i" "limbs_val (drop i xs) = limbs_val xs div B ^ i"
proof -
  have "limbs_val (take i xs) = limbs_val xs mod B ^ i \<and> limbs_val (drop i xs) = limbs_val xs div B ^ i"
  proof (cases "i \<le> length xs")
    case True
    have v: "limbs_val xs = limbs_val (take i xs) + B ^ i * limbs_val (drop i xs)"
      using limbs_val_append [of "take i xs" "drop i xs"] True by (simp add: min_absorb2)
    have "limbs_val (take i xs) < B ^ i" using limbs_val_less [of "take i xs"] True by (simp add: min_absorb2)
    then show ?thesis by (simp add: v)
  next
    case False
    have "limbs_val xs < B ^ i"
      using limbs_val_less [of xs] power_increasing [of "length xs" i B] False B_pos by (simp add: Suc_leI del: B_pos)
    then show ?thesis using False by simp
  qed
  then show "limbs_val (take i xs) = limbs_val xs mod B ^ i" "limbs_val (drop i xs) = limbs_val xs div B ^ i" by simp_all
qed

lemma limbs_val_zeros [simp]: "limbs_val (replicate n 0) = 0"
  by (induction n) simp_all

lemma mp_sub_ui_exact:
  assumes "unat k \<le> limbs_val tab"
  shows "limbs_val (fst (mp_sub_ui tab k)) = limbs_val tab - unat k" "length (fst (mp_sub_ui tab k)) = length tab"
proof -
  obtain res c where r: "mp_sub_ui tab k = (res, c)" by (cases "mp_sub_ui tab k")
  have v: "limbs_val res + unat k = limbs_val tab + B ^ length tab * unat c" "length res = length tab"
    using mp_sub_ui_val [OF r] by simp_all
  have "unat c = 0"
  proof (rule ccontr)
    assume "unat c \<noteq> 0"
    then have "B ^ length tab * 1 \<le> B ^ length tab * unat c" by (intro mult_le_mono2) simp
    then show False using v(1) assms limbs_val_less [of res] unfolding v(2) by linarith
  qed
  then show "limbs_val (fst (mp_sub_ui tab k)) = limbs_val tab - unat k" "length (fst (mp_sub_ui tab k)) = length tab"
    using v r by simp_all
qed

lemma mp_scan_nz_zero: "mp_scan_nz tab = 0 \<longleftrightarrow> limbs_val tab = 0"
  by (induction tab) (auto simp: unat_eq_0 B_def)

lemma mp_cmp_val:
  assumes "length taba = length tabb"
  shows "mp_cmp taba tabb < 0 \<longleftrightarrow> limbs_val taba < limbs_val tabb"
proof -
  have "mp_cmp_loop as bs < 0 \<longleftrightarrow> divnorm_first as bs = 0" for as bs
    by (induction as bs rule: mp_cmp_loop.induct) auto
  then show ?thesis using divnorm_first_val [OF assms] by (simp add: mp_cmp_def not_le [symmetric])
qed

text \<open>A subtraction over all limbs when the low ones borrow.\<close>

lemma sub_propagate:
  assumes n: "length taba = n" "n \<le> length tabt" and ge: "limbs_val taba \<le> limbs_val tabt"
    and s: "mp_sub (take n tabt) taba 0 = (low, c)"
  shows "limbs_val (low @ fst (mp_sub_ui (drop n tabt) c)) = limbs_val tabt - limbs_val taba"
    "length (low @ fst (mp_sub_ui (drop n tabt) c)) = length tabt"
proof -
  have v: "limbs_val low + limbs_val taba = limbs_val tabt mod B ^ n + B ^ n * unat c" "unat c \<le> 1" "length low = n"
    using mp_sub_val [OF _ _ s] n by (simp_all add: limbs_val_take_drop(1) min_absorb2)
  have low: "limbs_val low < B ^ n" using limbs_val_less [of low] by (simp add: v(3))
  have "unat c \<le> limbs_val tabt div B ^ n"
  proof (rule ccontr)
    assume "\<not> ?thesis"
    then have "limbs_val tabt div B ^ n = 0" "unat c = 1" using v(2) by simp_all
    moreover from this have "limbs_val tabt mod B ^ n = limbs_val tabt" using mult_div_mod_eq [of "B ^ n" "limbs_val tabt"] by simp
    ultimately show False using v(1) low ge by simp
  qed
  then have h: "limbs_val (fst (mp_sub_ui (drop n tabt) c)) = limbs_val tabt div B ^ n - unat c"
    "length (fst (mp_sub_ui (drop n tabt) c)) = length tabt - n" "B ^ n * unat c \<le> B ^ n * (limbs_val tabt div B ^ n)"
    using mp_sub_ui_exact [of c "drop n tabt"] by (simp_all add: limbs_val_take_drop(2))
  have "limbs_val tabt = limbs_val tabt mod B ^ n + B ^ n * (limbs_val tabt div B ^ n)" by simp
  then show "limbs_val (low @ fst (mp_sub_ui (drop n tabt) c)) = limbs_val tabt - limbs_val taba"
    unfolding limbs_val_append v(3) h(1) diff_mult_distrib2 using v(1) h(3) ge by linarith
  show "length (low @ fst (mp_sub_ui (drop n tabt) c)) = length tabt" using n v(3) h(2) by simp
qed

section \<open>Newton's step\<close>

text \<open>
  \<open>A\<close> has \<open>n = h + l\<close> limbs, \<open>g = B\<^sup>h\<close>, \<open>b = B\<^sup>l\<close> and \<open>K = B\<^sup>k\<close>; \<open>X\<close> is the reciprocal of its
  upper half after its correction.
\<close>

lemma newton_step:
  fixes A X g b K :: nat
  assumes A: "A < g * b" "g * b \<le> 2 * A" and g: "6 * b \<le> g" "0 < b" and K: "K * b = g * g"
    and X: "A * X < g * b * g" "g * b * g \<le> A * (X + 2)"
  defines "T \<equiv> g * b * g - A * X"
  defines "R \<equiv> X * b + (T div b * X) div K"
  shows "A * R < (g * b) * (g * b)" "(g * b) * (g * b) < A * (R + 2)"
proof -
  define Tm Tl u r where "Tm = T div b" and "Tl = T mod b" and "u = (Tm * X) div K" and "r = (Tm * X) mod K"
  have T: "T = b * Tm + Tl" "Tl < b" "0 < T" "T + A * X = g * b * g" "T \<le> 2 * A"
    using g(2) X by (simp_all add: Tm_def Tl_def T_def)
  have K0: "0 < K" using K g by (cases K) auto
  have u: "Tm * X = K * u + r" "r < K" using K0 by (simp_all add: u_def r_def)
  have R: "R = X * b + u" by (simp add: R_def u_def Tm_def)
  have gb: "(g * b) * (g * b) = b * (A * X) + b * b * Tm + b * Tl"
  proof -
    have "(g * b) * (g * b) = b * (T + A * X)" by (simp add: T(4) algebra_simps)
    then show ?thesis unfolding T(1) by (simp add: algebra_simps)
  qed
  text \<open>What is left, times \<open>K\<close>.\<close>
  have left: "K * (b * b * Tm + b * Tl) = K * (A * u) + (Tm * T + g * g * Tl + A * r)"
  proof -
    have "K * (b * b * Tm + b * Tl) = (K * b) * (b * Tm) + (K * b) * Tl" by (simp add: algebra_simps)
    also have "\<dots> = Tm * (g * b * g) + g * g * Tl" unfolding K by (simp add: algebra_simps)
    also have "Tm * (g * b * g) = Tm * T + A * (Tm * X)" unfolding T(4) [symmetric] by (simp add: algebra_simps)
    also have "A * (Tm * X) = K * (A * u) + A * r" unfolding u(1) by (simp add: algebra_simps)
    finally show ?thesis by simp
  qed
  have "0 < Tm * T + g * g * Tl"
    using T(1,3) g by (cases "Tm = 0") auto
  then have "K * (A * u) < K * (b * b * Tm + b * Tl)" using left by simp
  then have "A * u < b * b * Tm + b * Tl" by simp
  then show "A * R < (g * b) * (g * b)" unfolding gb R by (simp add: algebra_simps)
  have A0: "0 < A" using A by auto
  have "b * (Tm * T + g * g * Tl) \<le> b * (A * K)"
  proof -
    have "b * Tm * T \<le> T * T" using T(1) by (intro mult_le_mono1) simp
    also have "T * T \<le> (2 * A) * (2 * A)" using T(5) by (intro mult_le_mono)
    also have "\<dots> \<le> 4 * A * (g * b)" using A(1) by simp
    finally have 1: "b * Tm * T \<le> 4 * A * (g * b)" .
    have "b * (g * g * Tl) \<le> b * (g * g * b)" using T(2) by (intro mult_le_mono2) simp
    also have "\<dots> = (g * b) * (g * b)" by simp
    also have "\<dots> \<le> (2 * A) * (g * b)" using A(2) by (rule mult_le_mono1)
    finally have 2: "b * (g * g * Tl) \<le> (2 * A) * (g * b)" .
    have "A * g * (6 * b) \<le> A * g * g" using g(1) by (rule mult_le_mono2)
    also have "\<dots> = b * (A * K)" using K by (simp add: algebra_simps)
    finally have 3: "A * g * (6 * b) \<le> b * (A * K)" .
    have "b * (Tm * T + g * g * Tl) = b * Tm * T + b * (g * g * Tl)" "4 * A * (g * b) + 2 * A * (g * b) = A * g * (6 * b)"
      by (simp_all add: algebra_simps)
    then show ?thesis using 1 2 3 by linarith
  qed
  then have "Tm * T + g * g * Tl \<le> A * K" using g(2) by simp
  moreover have "A * r < A * K" using A0 u(2) by simp
  ultimately have "K * (b * b * Tm + b * Tl) < K * (A * u) + 2 * (A * K)" unfolding left by linarith
  then have "K * (b * b * Tm + b * Tl) < K * (A * u + 2 * A)" by (simp add: algebra_simps)
  then have "b * b * Tm + b * Tl < A * u + 2 * A" by simp
  then show "(g * b) * (g * b) < A * (R + 2)" unfolding gb R by (simp add: algebra_simps)
qed


section \<open>The correction of the upper half\<close>

lemma limbs_val_top:
  assumes "length xs = Suc m"
  shows "limbs_val xs = limbs_val (butlast xs) + B ^ m * unat (last xs)" "limbs_val (butlast xs) < B ^ m"
proof -
  have "xs \<noteq> []" using assms by auto
  then show "limbs_val xs = limbs_val (butlast xs) + B ^ m * unat (last xs)"
    using limbs_val_append [of "butlast xs" "[last xs]"] assms by simp
  show "limbs_val (butlast xs) < B ^ m" using limbs_val_less [of "butlast xs"] assms by simp
qed

lemma limbs_val_top_zero:
  assumes "length xs = Suc m"
  shows "last xs = 0 \<longleftrightarrow> limbs_val xs < B ^ m"
proof (cases "last xs = 0")
  case True
  then show ?thesis using limbs_val_top [OF assms] by simp
next
  case False
  then have "B ^ m * 1 \<le> B ^ m * unat (last xs)" by (intro mult_le_mono2) (simp add: Suc_le_eq unat_gt_0)
  then have "\<not> limbs_val xs < B ^ m" using limbs_val_top(1) [OF assms] by linarith
  then show ?thesis using False by simp
qed

lemma recip_fix_val:
  assumes A: "0 < limbs_val taba" and n: "length taba = n"
  shows "length tabt = Suc (n + h) \<Longrightarrow> limbs_val tabt = limbs_val taba * limbs_val tabxh \<Longrightarrow>
    B ^ (n + h) \<le> limbs_val taba * (limbs_val tabxh + 2) \<Longrightarrow>
    \<exists>x t. recip_fix taba tabxh tabt = Some (x, t) \<and> length x = length tabxh \<and> length t = Suc (n + h) \<and>
      limbs_val t = limbs_val taba * limbs_val x \<and> limbs_val t < B ^ (n + h) \<and>
      B ^ (n + h) \<le> limbs_val taba * (limbs_val x + 2) \<and>
      (x = tabxh \<or> B ^ (n + h) \<le> limbs_val taba * (limbs_val x + 1))"
proof (induction "limbs_val tabxh" arbitrary: tabxh tabt rule: less_induct)
  case less
  show ?case
  proof (cases "last tabt = 0")
    case True
    then have "recip_fix taba tabxh tabt = Some (tabxh, tabt)" by (subst recip_fix.simps) simp
    then show ?thesis using less.prems limbs_val_top_zero [OF less.prems(1)] True by simp
  next
    case False
    then have P: "B ^ (n + h) \<le> limbs_val tabt" using limbs_val_top_zero [OF less.prems(1)] by simp
    moreover have "0 < B ^ (n + h)" by simp
    ultimately have x0: "0 < limbs_val tabxh" using less.prems(2) by (cases "limbs_val tabxh") auto
    define x1 where "x1 = fst (mp_sub_ui tabxh 1)"
    have x1: "limbs_val x1 = limbs_val tabxh - 1" "length x1 = length tabxh"
      using mp_sub_ui_exact [of 1 tabxh] x0 by (simp_all add: x1_def)
    obtain low c where s: "mp_sub (take n tabt) taba 0 = (low, c)" by (cases "mp_sub (take n tabt) taba 0")
    define t1 where "t1 = low @ fst (mp_sub_ui (drop n tabt) c)"
    have t0: "limbs_val tabt = limbs_val taba * limbs_val x1 + limbs_val taba"
      using x0 less.prems(2) by (simp add: x1(1) diff_mult_distrib2)
    have t1: "limbs_val t1 = limbs_val taba * limbs_val x1" "length t1 = length tabt"
      using sub_propagate [OF n _ _ s] less.prems(1) t0 by (simp_all add: t1_def)
    have step: "recip_fix taba tabxh tabt = recip_fix taba x1 t1"
      using False s by (subst recip_fix.simps) (simp add: n x1_def t1_def Let_def)
    have b1: "B ^ (n + h) \<le> limbs_val taba * (limbs_val x1 + 1)" using P t0 by simp
    have "limbs_val x1 < limbs_val tabxh" using x0 x1(1) by simp
    from less.hyps [OF this _ t1(1)] obtain x t where "recip_fix taba x1 t1 = Some (x, t)" "length x = length x1"
      "length t = Suc (n + h)" "limbs_val t = limbs_val taba * limbs_val x" "limbs_val t < B ^ (n + h)"
      "B ^ (n + h) \<le> limbs_val taba * (limbs_val x + 2)" "x = x1 \<or> B ^ (n + h) \<le> limbs_val taba * (limbs_val x + 1)"
      using t1(2) less.prems(1) b1 by auto
    then show ?thesis unfolding step using x1(2) b1 by auto
  qed
qed

text \<open>\<open>T = B\<^sup>n\<^sup>+\<^sup>h - T\<close>.\<close>

lemma recip_complement:
  assumes t: "length tabt = Suc m" "0 < limbs_val tabt" "limbs_val tabt < B ^ m"
  defines "t1 \<equiv> fst (mp_neg tabt 0)"
  shows "limbs_val (t1[m := t1 ! m + 1]) = B ^ m - limbs_val tabt" "length (t1[m := t1 ! m + 1]) = Suc m"
proof -
  obtain c where s: "mp_sub (replicate (length tabt) 0) tabt 0 = (t1, c)"
    by (cases "mp_sub (replicate (length tabt) 0) tabt 0") (simp add: t1_def mp_neg_sub)
  have v: "limbs_val t1 + limbs_val tabt = B ^ Suc m * unat c" "unat c \<le> 1" "length t1 = Suc m"
    using mp_sub_val [OF _ _ s] by (simp_all add: t(1))
  have "unat c = 1"
  proof (rule ccontr)
    assume "unat c \<noteq> 1"
    then have "unat c = 0" using v(2) by simp
    then show False using v(1) t(2) by simp
  qed
  then have e: "limbs_val t1 + limbs_val tabt = B ^ m * (B - 1) + B ^ m" using v(1) by (simp add: B_def)
  note top = limbs_val_top [OF v(3)]
  define w where "w = B ^ m - limbs_val tabt"
  have w: "w < B ^ m" "limbs_val t1 = w + B ^ m * (B - 1)" using e t(2,3) by (simp_all add: w_def)
  have "limbs_val t1 div B ^ m = unat (last t1)" using top by simp
  then have last: "unat (last t1) = B - 1" using w by simp
  then have "last t1 = - 1" using unat_limb_sub [of 0 1] by (simp add: word_unat_eq_iff)
  moreover have t1: "t1 = butlast t1 @ [last t1]" "length (butlast t1) = m" using v(3) by (cases t1 rule: rev_cases; simp)+
  ultimately have u: "t1[m := t1 ! m + 1] = butlast t1 @ [0]"
    by (metis add.left_inverse list_update_length nth_append_length)
  show "limbs_val (t1[m := t1 ! m + 1]) = B ^ m - limbs_val tabt"
    using top(1) w(2) last unfolding u by (simp add: limbs_val_append w_def [symmetric])
  show "length (t1[m := t1 ! m + 1]) = Suc m" using v(3) by simp
qed

section \<open>The reciprocal is right\<close>

lemma recip_range:
  fixes A X P :: nat
  assumes "A < P" "P \<le> 2 * A" "A * X < P * P" "P * P < A * (X + 2)"
  shows "P \<le> X" "X < 2 * P"
proof -
  show "P \<le> X"
  proof (rule ccontr)
    assume "\<not> P \<le> X"
    then have "A * (X + 2) \<le> (P - 1) * (P + 1)" using assms(1) by (intro mult_le_mono) auto
    also have "(P - 1) * (P + 1) \<le> P * P" using assms(1) by (simp add: algebra_simps)
    finally show False using assms(4) by simp
  qed
  have "A * X < (2 * A) * P" using assms(3) mult_le_mono1 [OF assms(2), of P] by linarith
  then have "A * X < A * (2 * P)" by (simp add: algebra_simps)
  then show "X < 2 * P" by simp
qed

text \<open>What every product promises; the transform is one provider, the basecase another.\<close>

locale limb_product =
  fixes product :: mul_fun
  assumes product: "a \<noteq> [] \<Longrightarrow> b \<noteq> [] \<Longrightarrow>
    \<exists>r. product a b = Some r \<and> limbs_val r = limbs_val a * limbs_val b \<and> length r = length a + length b"
begin

lemma mp_mul_val:
  assumes "a \<noteq> []" "b \<noteq> []"
  obtains r where "mp_mul product a b = Some r" "limbs_val r = limbs_val a * limbs_val b" "length r = length a + length b"
  using product [OF assms] mp_mul_basecase_val [OF assms(2), of a]
  by (cases "100 \<le> min (length a) (length b)") (auto simp: mp_mul_def)

lemma mp_recip_small:
  assumes n: "length taba = n" "1 \<le> n" "n \<le> 2" and b1: "B \<le> 2 * unat (last taba)"
  shows "\<exists>r. mp_recip product taba = Some r \<and> length r = n + 1 \<and>
    limbs_val taba * limbs_val r < B ^ n * B ^ n \<and> B ^ n * B ^ n < limbs_val taba * (limbs_val r + 2)"
proof -
  define A P where "A = limbs_val taba" and "P = B ^ n"
  have ta: "taba \<noteq> []" using n by auto
  have A: "P \<le> 2 * A" "0 < A" using norm_divisor [OF b1 ta] by (simp_all add: A_def P_def n(1))
  have P: "0 < P" "P * B = B ^ (n + 1)" by (simp_all add: P_def)
  have v: "limbs_val (replicate (2 * n) 0 @ [1]) = P * P"
    by (simp add: limbs_val_append P_def mult_2 power_add)
  have "length taba \<le> length (replicate (2 * n) 0 @ [1 :: limb])" by (simp add: n(1))
  from divnorm_base_divides [OF b1 ta this] obtain tabt tabu where d0: "divnorm_base (replicate (2 * n) 0 @ [1]) taba = Some (tabt, tabu)"
    "limbs_val tabt = limbs_val (replicate (2 * n) 0 @ [1]) div limbs_val taba"
    "limbs_val (take (length taba) tabu) = limbs_val (replicate (2 * n) 0 @ [1]) mod limbs_val taba"
    "length tabt = length (replicate (2 * n) 0 @ [1 :: limb]) - length taba + 1" by blast
  have d: "divnorm_base (replicate (2 * n) 0 @ [1]) taba = Some (tabt, tabu)" "limbs_val tabt = P * P div A"
    "limbs_val (take n tabu) = P * P mod A" "length tabt = n + 2"
    using d0 unfolding v n(1) by (simp_all add: A_def)
  define tabr where "tabr = take (n + 1) tabt"
  have "P * P div A \<le> 2 * P"
  proof -
    have "P * P \<le> A * (2 * P)" using mult_le_mono1 [OF A(1), of P] by (simp add: algebra_simps)
    then show ?thesis using A(2) by (metis div_le_mono nonzero_mult_div_cancel_left less_not_refl2)
  qed
  also have "\<dots> < P * B" using P(1) by (simp add: B_def)
  finally have "limbs_val tabr = P * P div A" unfolding tabr_def limbs_val_take_drop(1) P(2) d(2) by simp
  moreover have "length tabr = n + 1" by (simp add: tabr_def d(4))
  ultimately have r: "limbs_val tabr = P * P div A" "length tabr = n + 1" by simp_all
  have dm: "A * (P * P div A) + P * P mod A = P * P" "P * P mod A < A" using A(2) by simp_all
  define res where "res = (if mp_scan_nz (take n tabu) = 0 then fst (mp_sub_ui tabr 1) else tabr)"
  have m: "mp_recip product taba = Some res"
    by (subst mp_recip.simps) (simp add: n d(1) res_def tabr_def Let_def)
  have "length res = n + 1 \<and> A * limbs_val res < P * P \<and> P * P < A * (limbs_val res + 2)"
  proof (cases "P * P mod A = 0")
    case False
    then have res: "res = tabr" using mp_scan_nz_zero [of "take n tabu"] d(3) by (simp add: res_def)
    show ?thesis unfolding res r add_mult_distrib2 using dm False by linarith
  next
    case True
    then have res: "res = fst (mp_sub_ui tabr 1)" using mp_scan_nz_zero [of "take n tabu"] d(3) by (simp add: res_def)
    have q: "0 < P * P div A" using dm True P(1) by (cases "P * P div A") auto
    have l: "limbs_val res = P * P div A - 1" "length res = n + 1"
      using mp_sub_ui_exact [of 1 tabr] q by (simp_all add: res r)
    have e: "A * (P * P div A - 1) + A = P * P"
    proof -
      have "A * 1 \<le> A * (P * P div A)" using q by (intro mult_le_mono2) simp
      then show ?thesis unfolding diff_mult_distrib2 using dm(1) True by linarith
    qed
    show ?thesis unfolding l(1) add_mult_distrib2 using e A(2) l(2) by linarith
  qed
  then show ?thesis using m by (simp add: A_def P_def)
qed

text \<open>The limbs of the sum, and why no carry reaches its top limb.\<close>

lemma recip_assemble:
  assumes len: "length x = Suc h" "3 * h \<le> length u" "l \<le> h"
    and x: "B ^ h \<le> limbs_val x"
    and R: "R = limbs_val x * B ^ l + limbs_val u div B ^ (2 * h - l)" "R < 2 * (B ^ h * B ^ l)"
  defines "r \<equiv> take l (drop (2 * h - l) u) @ fst (mp_add (take h x) (take h (drop (2 * h) u)) 0) @ drop h x"
  shows "limbs_val r = R" "length r = Suc (h + l)"
proof -
  define b g U where "b = B ^ l" and "g = B ^ h" and "U = limbs_val u"
  have pos: "0 < b" "0 < g" by (simp_all add: b_def g_def)
  define u1 u2 where "u1 = U div B ^ (2 * h - l) mod b" and "u2 = U div B ^ (2 * h)"
  have K: "B ^ (2 * h - l) * b = B ^ (2 * h)" using len(3) by (simp add: b_def power_add [symmetric])
  have uk: "U div B ^ (2 * h - l) = u1 + b * u2"
    unfolding u1_def u2_def K [symmetric] by (simp add: div_mult2_eq)
  have "b * (limbs_val x + u2) \<le> R" unfolding R(1) U_def [symmetric] uk by (simp add: b_def [symmetric] algebra_simps)
  then have "b * (limbs_val x + u2) < b * (2 * g)" using R(2) by (simp add: b_def g_def algebra_simps)
  then have xu: "limbs_val x + u2 < 2 * g" by simp
  then have u2: "u2 < g" "limbs_val x < 2 * g" using x by (simp_all add: g_def)
  define xl xt where "xl = limbs_val (take h x)" and "xt = limbs_val (drop h x)"
  have xx: "limbs_val x = xl + g * xt" "xl < g"
    by (simp_all add: xl_def xt_def g_def limbs_val_take_drop)
  have xt: "xt = 1"
  proof -
    have "xt = limbs_val x div g" by (simp add: xt_def limbs_val_take_drop g_def)
    moreover have "limbs_val x div g < 2" using u2(2) by (simp add: less_mult_imp_div_less mult.commute)
    moreover have "0 < limbs_val x div g" using x pos by (simp add: div_greater_zero_iff g_def)
    ultimately show ?thesis by simp
  qed
  have uu: "limbs_val (take l (drop (2 * h - l) u)) = u1" "limbs_val (take h (drop (2 * h) u)) = u2"
    "length (take l (drop (2 * h - l) u)) = l" "length (take h x) = h" "length (take h (drop (2 * h) u)) = h"
    using len u2(1) by (simp_all add: limbs_val_take_drop u1_def u2_def U_def b_def g_def)
  obtain m c where s: "mp_add (take h x) (take h (drop (2 * h) u)) 0 = (m, c)"
    by (cases "mp_add (take h x) (take h (drop (2 * h) u)) 0")
  have m: "limbs_val m + g * unat c = xl + u2" "length m = h"
    using mp_add_val [OF _ _ s] uu by (simp_all add: xl_def g_def)
  have "unat c = 0"
  proof (rule ccontr)
    assume "unat c \<noteq> 0"
    then have "g * 1 \<le> g * unat c" by (intro mult_le_mono2) simp
    moreover have "xl + u2 < g" using xu xx(1) xt by simp
    ultimately show False using m(1) by linarith
  qed
  then have "limbs_val (m @ drop h x) = xl + u2 + g" using m by (simp add: limbs_val_append g_def [symmetric] xt_def [symmetric] xt)
  then have "limbs_val r = u1 + b * (limbs_val x + u2)"
    unfolding r_def s fst_conv limbs_val_append [of "take l _"] uu by (simp add: b_def xx(1) xt)
  then show "limbs_val r = R" unfolding R(1) U_def [symmetric] uk by (simp add: b_def [symmetric] algebra_simps)
  show "length r = Suc (h + l)" using m(2) s uu(3) len(1) by (simp add: r_def)
qed


lemma mp_recip_val:
  "length taba = n \<Longrightarrow> 1 \<le> n \<Longrightarrow> B \<le> 2 * unat (last taba) \<Longrightarrow>
   \<exists>r. mp_recip product taba = Some r \<and> length r = n + 1 \<and>
    limbs_val taba * limbs_val r < B ^ n * B ^ n \<and> B ^ n * B ^ n < limbs_val taba * (limbs_val r + 2)"
proof (induction n arbitrary: taba rule: less_induct)
  case (less n)
  note n = less.prems(1)
  show ?case
  proof (cases "n \<le> 2")
    case True
    then show ?thesis using mp_recip_small [OF n less.prems(2) _ less.prems(3)] by simp
  next
    case False
    define l h where "l = (n - 1) div 2" and "h = n - l"
    have lh: "1 \<le> l" "l < n" "l + 1 \<le> h" "h < n" "n = h + l" using False by (auto simp: l_def h_def)
    define A b g where "A = limbs_val taba" and "b = B ^ l" and "g = B ^ h"
    have Bn: "B ^ n = g * b" by (simp add: lh(5) power_add g_def b_def)
    have pos: "0 < b" "0 < g" by (simp_all add: b_def g_def)
    have ta: "taba \<noteq> []" using n False by auto
    have A: "g * b \<le> 2 * A" "0 < A" "A < g * b"
      using norm_divisor [OF less.prems(3) ta] limbs_val_less [of taba] by (simp_all add: A_def n Bn)
    define Ah where "Ah = limbs_val (drop l taba)"
    have Ah: "Ah = A div b" by (simp add: Ah_def A_def b_def limbs_val_take_drop)
    have dl: "length (drop l taba) = h" "drop l taba \<noteq> []" "last (drop l taba) = last taba" using n lh by auto
    obtain x0 where x0: "mp_recip product (drop l taba) = Some x0" "length x0 = h + 1"
      "Ah * limbs_val x0 < g * g" "g * g < Ah * (limbs_val x0 + 2)"
      using less.IH [OF lh(4) dl(1)] lh(3) less.prems(3) unfolding dl(3) Ah_def g_def by auto
    have "Ah < g" "g \<le> 2 * Ah"
      using limbs_val_less [of "drop l taba"] norm_divisor(1) [of "drop l taba"] dl less.prems(3) by (simp_all add: Ah_def g_def)
    then have x0g: "g \<le> limbs_val x0" using recip_range(1) x0(3,4) by blast
    have x0n: "x0 \<noteq> []" using x0(2) by auto
    obtain t0 where t0: "mp_mul product taba x0 = Some t0" "limbs_val t0 = A * limbs_val x0" "length t0 = Suc (n + h)"
      using mp_mul_val [OF ta x0n] n x0(2) by (auto simp: A_def)
    have "g * g * b \<le> Ah * (limbs_val x0 + 2) * b" using x0(4) by (intro mult_le_mono1) simp
    also have "\<dots> = (b * (A div b)) * (limbs_val x0 + 2)" by (simp add: Ah algebra_simps)
    also have "\<dots> \<le> A * (limbs_val x0 + 2)" by (intro mult_le_mono1) simp
    finally have big: "B ^ (n + h) \<le> A * (limbs_val x0 + 2)" by (simp add: power_add Bn g_def algebra_simps)
    obtain x t where f: "recip_fix taba x0 t0 = Some (x, t)" "length x = length x0" "length t = Suc (n + h)"
      "limbs_val t = A * limbs_val x" "limbs_val t < B ^ (n + h)" "B ^ (n + h) \<le> A * (limbs_val x + 2)"
      "x = x0 \<or> B ^ (n + h) \<le> A * (limbs_val x + 1)"
      using recip_fix_val [OF A(2) [unfolded A_def] n t0(3) t0(2) [unfolded A_def] big [unfolded A_def]]
      unfolding A_def by blast
    have nh: "B ^ (n + h) = g * b * g" by (simp add: power_add Bn g_def)
    have xg: "g \<le> limbs_val x"
    proof (cases "x = x0")
      case True
      then show ?thesis using x0g by simp
    next
      case False
      then have "g * b * g \<le> A * (limbs_val x + 1)" using f(7) nh by simp
      also have "\<dots> < (g * b) * (limbs_val x + 1)" using A(3) by (intro mult_less_mono1) simp_all
      finally have "g < limbs_val x + 1" by (simp only: mult_less_cancel1)
      then show ?thesis by simp
    qed
    define T where "T = g * b * g - A * limbs_val x"
    have "0 < limbs_val t" using A(2) xg pos by (simp add: f(4))
    note comp = recip_complement [OF f(3) this f(5)]
    define t1 where "t1 = (fst (mp_neg t 0))[n + h := fst (mp_neg t 0) ! (n + h) + 1]"
    have c: "limbs_val t1 = T" "length t1 = Suc (n + h)" using comp by (simp_all only: t1_def T_def f(4) nh)
    have t1: "limbs_val (drop l t1) = T div b" "length (drop l t1) = 2 * h + 1" "drop l t1 \<noteq> []"
      using c(2) lh by (auto simp: limbs_val_take_drop c(1) b_def)
    have xn: "x \<noteq> []" using f(2) x0(2) by auto
    obtain u where u: "mp_mul product (drop l t1) x = Some u" "limbs_val u = (T div b) * limbs_val x" "length u = 3 * h + 2"
      using mp_mul_val [OF t1(3) xn] t1 f(2) x0(2) by auto
    define R where "R = limbs_val x * b + limbs_val u div B ^ (2 * h - l)"
    have K: "B ^ (2 * h - l) * b = g * g" using lh(3) by (simp add: b_def g_def power_add [symmetric] mult_2)
    have six: "6 * b \<le> g"
    proof -
      have "6 * b \<le> B * b" by (intro mult_le_mono1) (simp add: B_def)
      also have "\<dots> = B ^ (l + 1)" by (simp add: b_def)
      also have "\<dots> \<le> g" unfolding g_def using lh(3) by (intro power_increasing) (simp_all add: Suc_leI)
      finally show ?thesis .
    qed
    note N = newton_step [OF A(3,1) six pos(1) K f(5)[unfolded f(4) nh] f(6)[unfolded nh], folded T_def, folded u(2), folded R_def]
    have R2: "R < 2 * (g * b)" using recip_range(2) [OF A(3,1) N] .
    define r where "r = take l (drop (2 * h - l) u) @ fst (mp_add (take h x) (take h (drop (2 * h) u)) 0) @ drop h x"
    have r: "limbs_val r = R" "length r = Suc (h + l)"
      using recip_assemble [OF _ _ _ xg [unfolded g_def] R_def [unfolded b_def] R2 [unfolded b_def g_def]] f(2) x0(2) u(3) lh(3)
      by (simp_all add: r_def)
    have "mp_recip product taba = Some r"
      unfolding mp_recip.simps [of product taba] Let_def n l_def [symmetric] h_def [symmetric]
      using False x0(1) t0(1) f(1) u(1) by (simp add: t1_def r_def)
    then show ?thesis unfolding Bn using N r lh(5) by (simp add: A_def)
  qed
qed

end

end
