(* ===== verification/MultiLarge.thy ===== *)
theory MultiLarge
  imports MultiNewton
begin

text \<open>
  The proof that \<open>mp_divnorm_large\<close> and so \<open>mp_divnorm\<close> of \<open>quickjs/libbf.c\<close> divide: the quotient read
  off the reciprocal is at most four below the quotient and never above it, the remainder fits one
  limb more than the divisor, and the loop of the correction counts up to the quotient.
\<close>

section \<open>The estimate from the reciprocal\<close>

text \<open>
  \<open>At\<close> stands for the upper limbs of \<open>A\<close>, above \<open>S\<close>; \<open>X\<close> for the reciprocal of \<open>D'\<close>, which is \<open>D\<close> shifted
  by \<open>F1\<close>, or \<open>D\<close> cut by \<open>F2\<close> and rounded up (then \<open>G = F2\<close>, otherwise \<open>0\<close>).
\<close>

lemma large_estimate:
  fixes A D D' X P S E F1 F2 G At :: nat
  assumes At: "S * At \<le> A" "A < S * (At + 1)" "At < B * P"
    and X: "D' * X \<le> P * P" "P * P \<le> D' * (X + 2)" "X \<le> 2 * P"
    and F: "D * F1 \<le> D' * F2" "D' * F2 \<le> D * F1 + G"
    and W: "P * P * F2 = E * S * F1" "B * P \<le> E" "0 < E" "0 < S" "0 < F1" "0 < D'" "0 < F2"
  defines "Q \<equiv> (X * At) div E"
  shows "Q * D \<le> A" "A * (E * S * F1) < E * S * ((Q + 4) * (D * F1 + G))"
proof -
  have Q: "Q * E \<le> X * At" "X * At < (Q + 1) * E"
    using W(3) dividend_less_div_times [of E "X * At"] by (simp_all add: Q_def algebra_simps)
  have "(E * S * F1) * (Q * D) = (Q * E) * S * (D * F1)" by (simp add: algebra_simps)
  also have "\<dots> \<le> (X * At) * S * (D' * F2)" by (rule mult_le_mono [OF mult_le_mono1 [OF Q(1)] F(1)])
  also have "\<dots> = (S * At) * ((D' * X) * F2)" by (simp add: algebra_simps)
  also have "\<dots> \<le> A * ((P * P) * F2)" by (rule mult_le_mono [OF At(1) mult_le_mono1 [OF X(1)]])
  also have "\<dots> = (E * S * F1) * A" unfolding W(1) by (simp add: algebra_simps)
  finally show "Q * D \<le> A" using W by simp
  have "2 * At + X + 2 \<le> 3 * (B * P)"
  proof -
    have "2 * P \<le> B * P" by (intro mult_le_mono1) (simp add: B_def)
    then show ?thesis using At(3) X(3) by linarith
  qed
  then have "2 * At + X + 2 \<le> 3 * E" using W(2) by linarith
  moreover have "(At + 1) * (X + 2) = X * At + (2 * At + X + 2)" by (simp add: algebra_simps)
  ultimately have q: "(At + 1) * (X + 2) \<le> (Q + 4) * E" using Q(2) by (simp add: algebra_simps)
  have "A * (E * S * F1) = A * (P * P * F2)" by (simp only: W(1))
  also have "\<dots> < (S * (At + 1)) * (P * P * F2)"
    using At(2) W unfolding W(1) by (intro mult_less_mono1) simp_all
  also have "\<dots> \<le> (S * (At + 1)) * (D' * (X + 2) * F2)" by (rule mult_le_mono2 [OF mult_le_mono1 [OF X(2)]])
  also have "\<dots> = S * ((At + 1) * (X + 2)) * (D' * F2)" by (simp add: algebra_simps)
  also have "\<dots> \<le> S * ((Q + 4) * E) * (D * F1 + G)" by (rule mult_le_mono [OF mult_le_mono2 [OF q] F(2)])
  finally show "A * (E * S * F1) < E * S * ((Q + 4) * (D * F1 + G))" by (simp add: algebra_simps)
qed

section \<open>The correction\<close>

lemma mp_add_ui_exact:
  assumes "limbs_val tab + unat k < B ^ length tab"
  shows "limbs_val (fst (mp_add_ui tab k)) = limbs_val tab + unat k" "length (fst (mp_add_ui tab k)) = length tab"
proof -
  obtain res c where r: "mp_add_ui tab k = (res, c)" by (cases "mp_add_ui tab k")
  have v: "limbs_val res + B ^ length tab * unat c = limbs_val tab + unat k" "length res = length tab"
    using mp_add_ui_val [OF r] by simp_all
  have "unat c = 0"
  proof (rule ccontr)
    assume "unat c \<noteq> 0"
    then have "B ^ length tab * 1 \<le> B ^ length tab * unat c" by (intro mult_le_mono2) simp
    then show False using v(1) assms by linarith
  qed
  then show "limbs_val (fst (mp_add_ui tab k)) = limbs_val tab + unat k" "length (fst (mp_add_ui tab k)) = length tab"
    using v r by simp_all
qed

lemma large_fix_val:
  assumes D: "0 < limbs_val tabb" and nb: "length tabb = nb"
  shows "nb < length taba \<Longrightarrow> limbs_val (take (Suc nb) taba) = R \<Longrightarrow>
    limbs_val tabq + R div limbs_val tabb < B ^ length tabq \<Longrightarrow>
    \<exists>tabq' taba'. large_fix taba tabb tabq = Some (tabq', taba') \<and> length tabq' = length tabq \<and> length taba' = length taba \<and>
      limbs_val tabq' = limbs_val tabq + R div limbs_val tabb \<and> limbs_val (take nb taba') = R mod limbs_val tabb"
proof (induction R arbitrary: taba tabq rule: less_induct)
  case (less R)
  define D where "D = limbs_val tabb"
  have R: "R = limbs_val (take nb taba) + B ^ nb * unat (taba ! nb)"
    using less.prems(1,2) by (simp add: take_snoc_val)
  have DB: "D < B ^ nb" using limbs_val_less [of tabb] by (simp add: D_def nb)
  have test: "taba ! nb = 0 \<and> mp_cmp (take nb taba) tabb < 0 \<longleftrightarrow> R < D"
  proof (cases "taba ! nb = 0")
    case True
    then show ?thesis using mp_cmp_val [of "take nb taba" tabb] less.prems(1) nb R by (simp add: D_def)
  next
    case False
    then have "B ^ nb * 1 \<le> B ^ nb * unat (taba ! nb)" by (intro mult_le_mono2) (simp add: Suc_le_eq unat_gt_0)
    then show ?thesis using False R DB by linarith
  qed
  show ?case
  proof (cases "R < D")
    case True
    then have "large_fix taba tabb tabq = Some (tabq, taba)"
      using test by (subst large_fix.simps) (simp add: Let_def nb)
    moreover have "taba ! nb = 0" using test True by simp
    ultimately show ?thesis using True R by (simp add: D_def)
  next
    case False
    obtain low c where s: "mp_sub (take nb taba) tabb 0 = (low, c)" by (cases "mp_sub (take nb taba) tabb 0")
    define taba1 where "taba1 = low @ [taba ! nb - c] @ drop (nb + 1) taba"
    have tk: "take nb (take (Suc nb) taba) = take nb taba" "drop nb (take (Suc nb) taba) = [taba ! nb]"
      using less.prems(1) by (simp_all add: min_absorb1 take_Suc_conv_app_nth)
    have u: "fst (mp_sub_ui [taba ! nb] c) = [taba ! nb - c]" by (simp add: Let_def)
    have v: "limbs_val (low @ [taba ! nb - c]) = R - D" "length (low @ [taba ! nb - c]) = Suc nb"
      using sub_propagate [of tabb nb "take (Suc nb) taba" low c] nb less.prems(1,2) False s
      unfolding tk u by (simp_all add: D_def min_absorb2)
    have t1: "nb < length taba1" "limbs_val (take (Suc nb) taba1) = R - D" "length taba1 = length taba"
      using v less.prems(1) by (simp_all add: taba1_def)
    define q1 where "q1 = fst (mp_add_ui tabq 1)"
    have D0: "0 < D" using D by (simp add: D_def)
    then have RD: "R div D = (R - D) div D + 1" "R mod D = (R - D) mod D" "R - D < R"
      using False by (simp_all add: le_div_geq le_mod_geq)
    have q1: "limbs_val q1 = limbs_val tabq + 1" "length q1 = length tabq"
      using mp_add_ui_exact [of tabq 1] less.prems(3) RD(1) by (simp_all add: q1_def D_def)
    have "limbs_val q1 + (R - D) div limbs_val tabb < B ^ length q1"
      using less.prems(3) RD(1) by (simp add: q1 D_def)
    from less.IH [OF RD(3) t1(1,2) this] obtain tabq' taba' where r: "large_fix taba1 tabb q1 = Some (tabq', taba')"
      "length tabq' = length q1" "length taba' = length taba1" "limbs_val tabq' = limbs_val q1 + (R - D) div limbs_val tabb"
      "limbs_val (take nb taba') = (R - D) mod limbs_val tabb" by blast
    have "large_fix taba tabb tabq = large_fix taba1 tabb q1"
    proof -
      have "\<not> (taba ! nb = 0 \<and> mp_cmp (take nb taba) tabb < 0)" using False test by simp
      then show ?thesis using s by (subst large_fix.simps) (simp add: Let_def nb taba1_def q1_def del: de_Morgan_conj)
    qed
    then show ?thesis using r q1 t1(3) RD(1,2) by (simp add: D_def)
  qed
qed

section \<open>The inverse of the divisor\<close>

lemma norm_top:
  assumes "length xs = Suc m" "B \<le> 2 * b" "b * B ^ m \<le> limbs_val xs"
  shows "B \<le> 2 * unat (last xs)"
proof -
  have "b * B ^ m < (unat (last xs) + 1) * B ^ m"
    using assms(3) limbs_val_top [OF assms(1)] by (simp add: algebra_simps)
  then have "b < unat (last xs) + 1" by (simp only: mult_less_cancel2)
  then have "b \<le> unat (last xs)" by simp
  then show ?thesis using assms(2) by simp
qed

context limb_product
begin

lemma large_recip:
  fixes n :: nat
  assumes b1: "B \<le> 2 * unat (last tabb)" and tb: "tabb \<noteq> []" and n: "1 \<le> n"
  defines "nb \<equiv> length tabb" and "P \<equiv> B ^ n"
  shows "\<exists>x D'. (if nb \<le> n then mp_recip product (replicate (n - nb) 0 @ tabb)
      else (let (tabt, c) = mp_add_ui (drop (nb - n) tabb) 1 in
            if c \<noteq> 0 then Some (replicate n 0 @ [1]) else mp_recip product tabt)) = Some x \<and>
    length x = n + 1 \<and> 0 < D' \<and> D' * limbs_val x \<le> P * P \<and> P * P \<le> D' * (limbs_val x + 2) \<and> limbs_val x \<le> 2 * P \<and>
    limbs_val tabb * B ^ (n - nb) \<le> D' * B ^ (nb - n) \<and>
    D' * B ^ (nb - n) \<le> limbs_val tabb * B ^ (n - nb) + (if nb \<le> n then 0 else B ^ (nb - n))"
proof -
  define D where "D = limbs_val tabb"
  have recip: "\<exists>x. mp_recip product t = Some x \<and> length x = n + 1 \<and> 0 < limbs_val t \<and> limbs_val t * limbs_val x \<le> P * P \<and>
      P * P \<le> limbs_val t * (limbs_val x + 2) \<and> limbs_val x \<le> 2 * P"
    if t: "length t = n" "B \<le> 2 * unat (last t)" for t
  proof -
    have ne: "t \<noteq> []" using t(1) n by auto
    obtain x where x: "mp_recip product t = Some x" "length x = n + 1" "limbs_val t * limbs_val x < P * P"
      "P * P < limbs_val t * (limbs_val x + 2)" using mp_recip_val [OF t(1) n t(2)] by (auto simp: P_def)
    have "limbs_val x < 2 * P"
      using recip_range(2) [OF _ _ x(3,4)] limbs_val_less [of t] norm_divisor(1) [OF t(2) ne] by (simp add: P_def t(1))
    then show ?thesis using x norm_divisor(2) [OF t(2) ne] by auto
  qed
  show ?thesis
  proof (cases "nb \<le> n")
    case True
    have l: "length (replicate (n - nb) 0 @ tabb) = n" using True by (simp add: nb_def)
    have t: "last (replicate (n - nb) 0 @ tabb) = last tabb" using tb by simp
    have v: "limbs_val (replicate (n - nb) 0 @ tabb) = D * B ^ (n - nb)" by (simp add: limbs_val_append D_def)
    obtain x where "mp_recip product (replicate (n - nb) 0 @ tabb) = Some x" "length x = n + 1" "0 < D * B ^ (n - nb)"
      "D * B ^ (n - nb) * limbs_val x \<le> P * P" "P * P \<le> D * B ^ (n - nb) * (limbs_val x + 2)" "limbs_val x \<le> 2 * P"
      using recip [OF l] b1 unfolding t v by blast
    then show ?thesis using True
      by (intro exI [of _ x] exI [of _ "D * B ^ (n - nb)"]) (simp add: D_def [symmetric])
  next
    case False
    define F where "F = B ^ (nb - n)"
    have F0: "0 < F" by (simp add: F_def)
    obtain t c where s: "mp_add_ui (drop (nb - n) tabb) 1 = (t, c)" by (cases "mp_add_ui (drop (nb - n) tabb) 1")
    have ln: "length (drop (nb - n) tabb) = n" using False by (simp add: nb_def)
    have t: "limbs_val t + P * unat c = D div F + 1" "length t = n"
      using mp_add_ui_val [OF s] unfolding ln by (simp_all add: limbs_val_take_drop D_def P_def F_def)
    have fits: "D div F + 1 \<le> P"
      using limbs_val_less [of "drop (nb - n) tabb"] unfolding ln by (simp add: limbs_val_take_drop D_def P_def F_def)
    have dm: "D = F * (D div F) + D mod F" "D mod F < F" using F0 by simp_all
    have "(D div F + 1) * F = F * (D div F) + F" by (simp add: algebra_simps)
    then have d': "D \<le> (D div F + 1) * F" "(D div F + 1) * F \<le> D + F" using dm by linarith+
    have x: "\<exists>x. (if c \<noteq> 0 then Some (replicate n 0 @ [1]) else mp_recip product t) = Some x \<and> length x = n + 1 \<and>
      (D div F + 1) * limbs_val x \<le> P * P \<and> P * P \<le> (D div F + 1) * (limbs_val x + 2) \<and> limbs_val x \<le> 2 * P"
    proof (cases "c = 0")
      case True
      then have v: "limbs_val t = D div F + 1" using t(1) by simp
      obtain m where m: "n = Suc m" using n by (cases n) auto
      have "unat (last tabb) * B ^ m * F \<le> D"
      proof -
        have "B ^ (nb - 1) = B ^ m * F" using False m by (simp add: F_def power_add [symmetric])
        then show ?thesis using limbs_val_last(1) [OF tb] by (simp add: nb_def D_def mult.assoc)
      qed
      then have "unat (last tabb) * B ^ m \<le> D div F" using F0 by (simp add: less_eq_div_iff_mult_less_eq)
      then have "B \<le> 2 * unat (last t)" using norm_top [OF t(2) [unfolded m] b1] v by simp
      from recip [OF t(2) this] show ?thesis using True v by auto
    next
      case c: False
      then have "P * 1 \<le> P * unat c" by (intro mult_le_mono2) (simp add: Suc_le_eq unat_gt_0)
      then have p: "D div F + 1 = P" using t(1) fits by linarith
      show ?thesis unfolding p using c by (simp add: limbs_val_append P_def)
    qed
    then obtain x where "(if c \<noteq> 0 then Some (replicate n 0 @ [1]) else mp_recip product t) = Some x"
      "length x = n + 1" "(D div F + 1) * limbs_val x \<le> P * P" "P * P \<le> (D div F + 1) * (limbs_val x + 2)" "limbs_val x \<le> 2 * P"
      by blast
    then show ?thesis using False s d' by (intro exI [of _ x] exI [of _ "D div F + 1"]) (simp add: D_def F_def)
  qed
qed

end

section \<open>The subquadratic division\<close>

lemma large_error:
  assumes D: "B ^ nb \<le> 2 * D" and A: "A < B ^ (nq + nb)" and nq: "1 \<le> nq"
    and n: "n = (if nq < nb then nq + 1 else nq)"
    and e: "Q * D \<le> A"
      "A * (V * B ^ (n - nb)) < V * ((Q + 4) * (D * B ^ (n - nb) + (if nb \<le> n then 0 else B ^ (nb - n))))"
  shows "Q < 2 * B ^ nq" "A < (Q + 5) * D"
proof -
  have "0 < B ^ nb" by simp
  then have D0: "0 < D" using D by linarith
  have "Q * D < 2 * B ^ nq * D"
  proof -
    have "Q * D < B ^ nq * B ^ nb" using e(1) A by (simp add: power_add)
    also have "\<dots> \<le> B ^ nq * (2 * D)" using D by (rule mult_le_mono2)
    finally show ?thesis by (simp add: algebra_simps)
  qed
  then show Q: "Q < 2 * B ^ nq" by simp
  show "A < (Q + 5) * D"
  proof (cases "nb \<le> n")
    case True
    define F where "F = B ^ (n - nb)"
    have "(V * F) * A < (V * F) * ((Q + 4) * D)" using e(2) True by (simp add: F_def algebra_simps)
    then have "A < (Q + 4) * D" by (simp only: mult_less_cancel1)
    then show ?thesis by (simp add: algebra_simps)
  next
    case False
    define F where "F = B ^ (nb - n)"
    have n': "n = nq + 1" "nb - 1 = nq + (nb - n)" "1 \<le> nb" using False n by (simp_all split: if_splits)
    have "V * A < V * ((Q + 4) * (D + F))" using e(2) False by (simp add: F_def mult.commute)
    then have "A < (Q + 4) * (D + F)" by (simp only: mult_less_cancel1)
    moreover have "(Q + 4) * F \<le> D"
    proof -
      have "B ^ 1 \<le> B ^ nq" using nq by (intro power_increasing) (simp_all add: Suc_leI)
      then have "Q + 4 \<le> 3 * B ^ nq" using Q by (simp add: B_def)
      then have "(Q + 4) * F \<le> 3 * B ^ nq * F" by (rule mult_le_mono1)
      also have "\<dots> = 3 * B ^ (nb - 1)" unfolding F_def n'(2) power_add by simp
      finally have 1: "(Q + 4) * F \<le> 3 * B ^ (nb - 1)" .
      have "6 * B ^ (nb - 1) \<le> B * B ^ (nb - 1)" by (intro mult_le_mono1) (simp add: B_def)
      also have "\<dots> = B ^ nb" using n'(3) by (cases nb) simp_all
      finally show ?thesis using 1 D by linarith
    qed
    ultimately show ?thesis by (simp add: algebra_simps)
  qed
qed

text \<open>A difference over some limbs, when it is known to fit them.\<close>

lemma sub_low:
  fixes x y R M :: nat
  assumes "x < M" "x + y mod M = (y + R) mod M + M * c" "c \<le> 1" "R < M"
  shows "x = R"
proof -
  define z where "z = y mod M"
  have z: "z < M" using assms(1) by (simp add: z_def)
  have m: "(y + R) mod M = (if z + R < M then z + R else z + R - M)"
  proof -
    have "(y + R) mod M = (z + R) mod M" by (simp add: z_def mod_add_left_eq)
    also have "\<dots> = (if z + R < M then z + R else z + R - M)"
      using z assms(4) by (cases "z + R < M") (simp_all add: le_mod_geq)
    finally show ?thesis .
  qed
  consider "c = 0" | "c = 1" using assms(3) by linarith
  then show ?thesis
    using assms(1,2,4) z unfolding m z_def [symmetric] by cases (simp_all split: if_splits)
qed

context limb_product
begin

lemma mp_divnorm_large_val:
  assumes b1: "B \<le> 2 * unat (last tabb)" and tb: "tabb \<noteq> []" and len: "length tabb < length taba"
  shows "\<exists>tabq taba'. mp_divnorm_large product taba tabb = Some (tabq, taba') \<and>
    limbs_val tabq = limbs_val taba div limbs_val tabb \<and>
    limbs_val (take (length tabb) taba') = limbs_val taba mod limbs_val tabb \<and>
    length tabq = length taba - length tabb + 1 \<and> length taba' = length taba"
proof -
  define na nb nq n where "na = length taba" and "nb = length tabb" and "nq = na - nb"
    and "n = (if nq < nb then nq + 1 else nq)"
  define A D where "A = limbs_val taba" and "D = limbs_val tabb"
  have nn: "1 \<le> nq" "1 \<le> n" "1 \<le> nb" "na = nq + nb" "n + 1 \<le> na" "nq \<le> n"
  proof -
    obtain m where "length tabb = Suc m" using tb by (cases tabb) auto
    then show "1 \<le> nq" "1 \<le> n" "1 \<le> nb" "na = nq + nb" "n + 1 \<le> na" "nq \<le> n"
      unfolding na_def nb_def nq_def n_def using len by auto
  qed
  have D: "B ^ nb \<le> 2 * D" "0 < D" "D < B ^ nb"
    using norm_divisor [OF b1 tb] limbs_val_less [of tabb] by (simp_all add: D_def nb_def)
  have A: "A < B ^ (nq + nb)" using limbs_val_less [of taba] by (simp add: A_def na_def [symmetric] nn(4))
  obtain x D' where x: "(if nb \<le> n then mp_recip product (replicate (n - nb) 0 @ tabb)
      else (let (tabt, c) = mp_add_ui (drop (nb - n) tabb) 1 in
            if c \<noteq> 0 then Some (replicate n 0 @ [1]) else mp_recip product tabt)) = Some x"
    and xl: "length x = n + 1" and D': "0 < D'" "D' * limbs_val x \<le> B ^ n * B ^ n" "B ^ n * B ^ n \<le> D' * (limbs_val x + 2)"
      "limbs_val x \<le> 2 * B ^ n" "D * B ^ (n - nb) \<le> D' * B ^ (nb - n)"
      "D' * B ^ (nb - n) \<le> D * B ^ (n - nb) + (if nb \<le> n then 0 else B ^ (nb - n))"
    using large_recip [OF b1 tb nn(2)] unfolding nb_def D_def by blast
  define top S where "top = drop (na - (n + 1)) taba" and "S = B ^ (na - (n + 1))"
  have top: "limbs_val top = A div S" "length top = n + 1" "top \<noteq> []"
    using nn(5) by (auto simp: top_def limbs_val_take_drop A_def S_def na_def)
  have S: "0 < S" "S * limbs_val top \<le> A" "A < S * (limbs_val top + 1)"
    using dividend_less_div_times [of S A] by (simp_all add: top S_def algebra_simps)
  have topB: "limbs_val top < B * B ^ n" using limbs_val_less [of top] by (simp add: top(2))
  have xne: "x \<noteq> []" using xl by auto
  obtain t where t0: "mp_mul product x top = Some t" "limbs_val t = limbs_val x * limbs_val top" "length t = length x + length top"
    by (rule mp_mul_val [OF xne top(3)])
  have t: "mp_mul product x top = Some t" "limbs_val t = limbs_val x * limbs_val top" "length t = 2 * (n + 1)"
    using t0 xl top(2) by simp_all
  define e E where "e = 2 * (n + 1) - (nq + 1)" and "E = B ^ e"
  have W: "B ^ n * B ^ n * B ^ (nb - n) = E * S * B ^ (n - nb)"
  proof -
    have "n + n + (nb - n) = e + (na - (n + 1)) + (n - nb)"
    proof (cases "nq < nb")
      case True
      then have "n = nq + 1" by (simp add: n_def)
      then show ?thesis using nn(1,4) True by (simp add: e_def)
    next
      case False
      then have "n = nq" by (simp add: n_def)
      then show ?thesis using nn(3,4) False by (simp add: e_def)
    qed
    then show ?thesis by (simp only: E_def S_def power_add [symmetric])
  qed
  have BE: "B * B ^ n \<le> E"
    using nn(6) power_increasing [of "Suc n" e B] by (simp add: E_def e_def Suc_leI)
  define Q where "Q = (limbs_val x * limbs_val top) div E"
  have E0: "0 < E" by (simp add: E_def)
  have Bp: "0 < B ^ (n - nb)" "0 < B ^ (nb - n)" by simp_all
  note est = large_estimate [OF S(2,3) topB D'(2,3,4,5,6) W BE E0 S(1) Bp(1) D'(1) Bp(2), folded Q_def]
  have err: "Q < 2 * B ^ nq" "A < (Q + 5) * D"
    using large_error [OF D(1) A nn(1) n_def est(1), of "E * S"] est(2) by (simp_all add: mult.assoc)
  define tabq where "tabq = take (nq + 1) (drop e t)"
  have q: "limbs_val tabq = Q" "length tabq = nq + 1" "tabq \<noteq> []"
  proof -
    have "2 * B ^ nq \<le> B ^ (nq + 1)" by (simp add: B_def)
    then have "Q < B ^ (nq + 1)" using err(1) by linarith
    then show "limbs_val tabq = Q" by (simp add: tabq_def limbs_val_take_drop t(2) Q_def E_def)
    show l: "length tabq = nq + 1" using nn(6) by (simp add: tabq_def t(3) e_def)
    then show "tabq \<noteq> []" by auto
  qed
  obtain u where u0: "mp_mul product tabq tabb = Some u" "limbs_val u = limbs_val tabq * limbs_val tabb"
    "length u = length tabq + length tabb" by (rule mp_mul_val [OF q(3) tb])
  have u: "mp_mul product tabq tabb = Some u" "limbs_val u = Q * D" "length u = na + 1"
    using u0 q nn(4) by (simp_all add: D_def nb_def)
  obtain low c where s: "mp_sub (take (nb + 1) taba) (take (nb + 1) u) 0 = (low, c)"
    by (cases "mp_sub (take (nb + 1) taba) (take (nb + 1) u) 0")
  have lens: "length (take (nb + 1) taba) = nb + 1" "length (take (nb + 1) u) = nb + 1"
    using nn(1,4) u(3) by (simp_all add: na_def [symmetric])
  define R where "R = A - Q * D"
  have R: "A = Q * D + R" "R < B ^ (nb + 1)"
  proof -
    have "R < 5 * D" using err(2) est(1) by (simp add: R_def algebra_simps)
    also have "\<dots> \<le> B * B ^ nb" using D(3) by (intro mult_le_mono) (simp_all add: B_def)
    finally show "R < B ^ (nb + 1)" by simp
    show "A = Q * D + R" using est(1) by (simp add: R_def)
  qed
  have v: "limbs_val low + (Q * D) mod B ^ (nb + 1) = (Q * D + R) mod B ^ (nb + 1) + B ^ (nb + 1) * unat c"
    "unat c \<le> 1" "length low = nb + 1"
    using mp_sub_val [OF _ _ s] lens by (simp_all add: limbs_val_take_drop(1) u(2) A_def [symmetric] R(1) [symmetric])
  have low: "limbs_val low = R"
    using sub_low [OF _ v(1,2) R(2)] limbs_val_less [of low] by (simp add: v(3))
  define taba1 where "taba1 = low @ drop (nb + 1) taba"
  have t1: "nb < length taba1" "limbs_val (take (Suc nb) taba1) = R" "length taba1 = na"
    using v(3) low nn(1,4) by (simp_all add: taba1_def na_def [symmetric])
  have QR: "Q + R div D = A div D" "R mod D = A mod D" using D(2) by (simp_all add: R(1))
  have "A div D < B ^ (nq + 1)"
  proof -
    have "A < B ^ nq * (2 * D)" using A mult_le_mono2 [OF D(1), of "B ^ nq"] unfolding power_add by linarith
    also have "\<dots> = (2 * B ^ nq) * D" by simp
    finally have "A div D < 2 * B ^ nq" by (simp add: less_mult_imp_div_less)
    also have "\<dots> \<le> B ^ (nq + 1)" by (simp add: B_def)
    finally show ?thesis .
  qed
  then have "limbs_val tabq + R div limbs_val tabb < B ^ length tabq" using QR(1) q by (simp add: D_def)
  from large_fix_val [OF D(2) [unfolded D_def] nb_def [symmetric] t1(1,2) this]
  obtain tabq' taba' where r: "large_fix taba1 tabb tabq = Some (tabq', taba')" "length tabq' = length tabq"
    "length taba' = length taba1" "limbs_val tabq' = A div D" "limbs_val (take nb taba') = A mod D"
    using QR q by (auto simp: D_def)
  have "mp_divnorm_large product taba tabb = Some (tabq', taba')"
    unfolding mp_divnorm_large_def Let_def na_def [symmetric] nb_def [symmetric] nq_def [symmetric] n_def [symmetric]
      x [unfolded Let_def] option.case top_def [symmetric] t(1) e_def [symmetric] tabq_def [symmetric] u(1) s fst_conv
      taba1_def [symmetric] by (rule r(1))
  then show ?thesis using r q t1(3) by (simp add: A_def D_def nb_def na_def nq_def)
qed

text \<open>Whatever form is chosen, the division ends with the quotient and the remainder.\<close>

lemma mp_divnorm_val:
  assumes b1: "B \<le> 2 * unat (last tabb)" and tb: "tabb \<noteq> []" "length tabb \<le> length taba"
  shows "\<exists>tabq taba'. mp_divnorm product taba tabb = Some (tabq, taba') \<and>
    limbs_val tabq = limbs_val taba div limbs_val tabb \<and>
    limbs_val (take (length tabb) taba') = limbs_val taba mod limbs_val tabb \<and>
    length tabq = length taba - length tabb + 1 \<and> length taba' = length taba"
proof (cases "length tabb \<noteq> 1 \<and> 50 \<le> min (length taba - length tabb) (length tabb)")
  case True
  then have "length tabb < length taba" by auto
  from mp_divnorm_large_val [OF b1 tb(1) this] show ?thesis using True by (simp add: mp_divnorm_def)
next
  case False
  then have "mp_divnorm product taba tabb = divnorm_base taba tabb" unfolding mp_divnorm_def by (rule if_not_P)
  then show ?thesis using divnorm_base_divides [OF b1 tb] by metis
qed

end

interpretation basecase: limb_product "\<lambda>op1 op2. Some (mp_mul_basecase op1 op2)"
  by unfold_locales (simp add: mp_mul_basecase_val)

section \<open>Reciprocal and division for every multiplication\<close>

lemma norm_limb: "2 ^ 63 \<le> unat (x :: limb) \<Longrightarrow> B \<le> 2 * unat x"
  by (simp add: B_def)

text \<open>C6. The division of limb arrays is total and right: for every multiplication \<open>fft_mul\<close> of long arrays that
  multiplies, and every normalised divisor no longer than the dividend, \<open>mp_divnorm\<close> returns, in its
  one-limb, schoolbook or subquadratic form, the quotient and leaves the remainder in the dividend.\<close>
theorem mp_divnorm_divides:
  assumes "limb_product fft_mul" "tabb \<noteq> []" "length tabb \<le> length taba" "2 ^ 63 \<le> unat (last tabb)"
  shows "\<exists>tabq taba'. mp_divnorm fft_mul taba tabb = Some (tabq, taba') \<and>
    limbs_val tabq = limbs_val taba div limbs_val tabb \<and>
    limbs_val (take (length tabb) taba') = limbs_val taba mod limbs_val tabb \<and>
    length tabq = length taba - length tabb + 1 \<and> length taba' = length taba"
  using limb_product.mp_divnorm_val [OF assms(1) norm_limb [OF assms(4)] assms(2,3)] .

lemma mp_divnorm_divides_witness:
  "\<exists>tabq taba'. mp_divnorm (\<lambda>op1 op2. Some (mp_mul_basecase op1 op2)) [5, 7, 9] [1, 0x8000000000000000] = Some (tabq, taba') \<and>
    limbs_val tabq = limbs_val [5, 7, 9] div limbs_val [1, 0x8000000000000000] \<and>
    limbs_val (take (length [1, 0x8000000000000000 :: limb]) taba') = limbs_val [5, 7, 9] mod limbs_val [1, 0x8000000000000000] \<and>
    length tabq = length [5, 7, 9 :: limb] - length [1, 0x8000000000000000 :: limb] + 1 \<and> length taba' = length [5, 7, 9 :: limb]"
  by (rule mp_divnorm_divides [OF basecase.limb_product_axioms]) simp_all

text \<open>C23. The approximate inverse: for every normalised array of \<open>n\<close> limbs \<open>mp_recip\<close> ends with \<open>n + 1\<close> limbs \<open>r\<close> such
  that \<open>a r < B\<^sup>2\<^sup>n < a (r + 2)\<close>, the bounds of the algorithm its comment names.\<close>
theorem mp_recip_approximates:
  assumes "limb_product fft_mul" "taba \<noteq> []" "2 ^ 63 \<le> unat (last taba)"
  shows "\<exists>r. mp_recip fft_mul taba = Some r \<and> length r = length taba + 1 \<and>
    limbs_val taba * limbs_val r < B ^ length taba * B ^ length taba \<and>
    B ^ length taba * B ^ length taba < limbs_val taba * (limbs_val r + 2)"
proof -
  have "1 \<le> length taba" using assms(2) by (cases taba) auto
  from limb_product.mp_recip_val [OF assms(1) refl this norm_limb [OF assms(3)]] show ?thesis .
qed

lemma mp_recip_approximates_witness:
  "\<exists>r. mp_recip (\<lambda>op1 op2. Some (mp_mul_basecase op1 op2)) [3, 4, 0x8000000000000000] = Some r \<and>
    length r = length [3, 4, 0x8000000000000000 :: limb] + 1 \<and>
    limbs_val [3, 4, 0x8000000000000000] * limbs_val r < B ^ length [3, 4, 0x8000000000000000 :: limb] * B ^ length [3, 4, 0x8000000000000000 :: limb] \<and>
    B ^ length [3, 4, 0x8000000000000000 :: limb] * B ^ length [3, 4, 0x8000000000000000 :: limb]
      < limbs_val [3, 4, 0x8000000000000000] * (limbs_val r + 2)"
  by (rule mp_recip_approximates [OF basecase.limb_product_axioms]) simp_all

text \<open>The comment of \<open>mp_recip\<close> has \<open>a r + 2\<close> for the upper bound, without parentheses; that fails already for one limb.\<close>
lemma recip_comment_is_wrong:
  "\<exists>r. mp_recip (\<lambda>op1 op2. Some (mp_mul_basecase op1 op2)) [0x8000000000000000] = Some r \<and>
    \<not> B ^ 2 < limbs_val [0x8000000000000000] * limbs_val r + 2"
proof -
  have h: "1 \<le> length [0x8000000000000000 :: limb]" "B \<le> 2 * unat (last [0x8000000000000000 :: limb])" by (simp_all add: B_def)
  obtain r where r: "mp_recip (\<lambda>op1 op2. Some (mp_mul_basecase op1 op2)) [0x8000000000000000] = Some r"
    "B ^ 1 * B ^ 1 < limbs_val [0x8000000000000000] * (limbs_val r + 2)"
    "limbs_val [0x8000000000000000] * limbs_val r < B ^ 1 * B ^ 1"
    using basecase.mp_recip_val [OF refl h] by auto
  have v: "limbs_val [0x8000000000000000] = 2 ^ 63" by simp
  have "limbs_val r < 2 ^ 65" using r(3) unfolding v by (simp add: B_def)
  then have "2 ^ 63 * limbs_val r + 2 \<le> 2 ^ 63 * (2 ^ 65 - 1) + (2 :: nat)" by (intro add_le_mono mult_le_mono) simp_all
  also have "\<dots> \<le> B ^ 2" by (simp add: B_def)
  finally show ?thesis using r(1) unfolding v by (auto simp: not_less)
qed

end
