(* ===== verification/BigFloat.thy ===== *)
theory BigFloat
  imports MultiLarge SameValue
begin

text \<open>
  The numbers of \<open>quickjs/libbf.c\<close> that \<open>BigInt\<close> and \<open>BigFloat\<close> are made of: setting, normalisation and
  rounding of a \<open>bf_t\<close> in all rounding modes, with subnormal results, underflow and overflow, and the
  product. A function that changes \<open>*r\<close> returns it with the status; \<open>None\<close> is \<open>abort()\<close>, a failing
  assertion or an access outside of the limbs. Limb and bit positions are integers: a table is shorter
  than \<open>2\<^sup>5\<^sup>0\<close> limbs, so that the code computes them without overflow. \<open>mem n\<close> says that the allocator
  gives out \<open>n\<close> limbs; making a table shorter cannot fail, as the code has it.
\<close>

section \<open>Constants and small functions\<close>

definition BF_EXP_INF :: s64 where "BF_EXP_INF = word_of_int (2 ^ 63 - 2)"
definition BF_PREC_INF :: int where "BF_PREC_INF = 2 ^ 62 - 1"
definition BF_FLAG_SUBNORMAL :: u32 where "BF_FLAG_SUBNORMAL = 8"
definition BF_FLAG_RADPNT_PREC :: u32 where "BF_FLAG_RADPNT_PREC = 16"

definition BF_ST_INVALID_OP :: u32 where "BF_ST_INVALID_OP = 1"
definition BF_ST_OVERFLOW :: u32 where "BF_ST_OVERFLOW = 4"
definition BF_ST_UNDERFLOW :: u32 where "BF_ST_UNDERFLOW = 8"
definition BF_ST_INEXACT :: u32 where "BF_ST_INEXACT = 16"
definition BF_ST_MEM_ERROR :: u32 where "BF_ST_MEM_ERROR = 32"

datatype bf_rnd_t = BF_RNDN | BF_RNDZ | BF_RNDD | BF_RNDU | BF_RNDNA | BF_RNDA | BF_RNDF

text \<open>The last value of the three bits is no mode: \<open>bf_get_rnd_add\<close> aborts.\<close>

definition rnd_mode :: "u32 \<Rightarrow> bf_rnd_t option" where
  "rnd_mode flags =
    (let m = flags AND 7 in
     if m = 0 then Some BF_RNDN else if m = 1 then Some BF_RNDZ else if m = 2 then Some BF_RNDD
     else if m = 3 then Some BF_RNDU else if m = 4 then Some BF_RNDNA else if m = 5 then Some BF_RNDA
     else if m = 6 then Some BF_RNDF else None)"

definition bf_get_exp_bits :: "u32 \<Rightarrow> nat" where
  "bf_get_exp_bits flags = (let e = drop_bit 5 flags AND 0x3f in if e = 0x3f then 62 else 61 - unat e)"

fun leading_zeros :: "limb \<Rightarrow> nat \<Rightarrow> nat" where
  "leading_zeros a 0 = 0"
| "leading_zeros a (Suc n) = (if bit a n then 0 else Suc (leading_zeros a n))"

definition clz :: "limb \<Rightarrow> nat" where
  "clz a = (if a = 0 then 64 else leading_zeros a 64)"

definition limb_mask :: "nat \<Rightarrow> nat \<Rightarrow> limb" where
  "limb_mask start stop = (let n = stop - start + 1 in if n = 64 then - 1 else push_bit start (push_bit n 1 - 1))"

definition get_bit :: "limb list \<Rightarrow> int \<Rightarrow> limb" where
  "get_bit tab pos =
    (let i = pos div 64 in
     if i < 0 \<or> int (length tab) \<le> i then 0
     else drop_bit (nat (pos mod 64)) (tab ! nat i) AND 1)"

definition scan_bit_nz :: "limb list \<Rightarrow> int \<Rightarrow> limb" where
  "scan_bit_nz tab bit_pos =
    (let pos = bit_pos div 64 in
     if pos < 0 then 0
     else if tab ! nat pos AND limb_mask 0 (nat (bit_pos mod 64)) \<noteq> 0 then 1
     else mp_scan_nz (take (nat pos) tab))"

section \<open>Setting a number\<close>

text \<open>\<open>bf_resize\<close> together with the limbs that its callers then store.\<close>

definition bf_resize :: "(nat \<Rightarrow> bool) \<Rightarrow> bf_t \<Rightarrow> limb list \<Rightarrow> bf_t option" where
  "bf_resize mem r tab =
    (if length tab \<noteq> length (bf_tab r) \<and> tab \<noteq> [] \<and> \<not> mem (length tab) then None else Some (r\<lparr>bf_tab := tab\<rparr>))"

definition bf_set_nan :: "bf_t \<Rightarrow> bf_t" where
  "bf_set_nan r = r\<lparr>bf_tab := [], bf_expn := BF_EXP_NAN, bf_sign := False\<rparr>"

definition bf_set_zero :: "bf_t \<Rightarrow> bool \<Rightarrow> bf_t" where
  "bf_set_zero r is_neg = r\<lparr>bf_tab := [], bf_expn := BF_EXP_ZERO, bf_sign := is_neg\<rparr>"

definition bf_set_inf :: "bf_t \<Rightarrow> bool \<Rightarrow> bf_t" where
  "bf_set_inf r is_neg = r\<lparr>bf_tab := [], bf_expn := BF_EXP_INF, bf_sign := is_neg\<rparr>"

definition bf_set_ui :: "(nat \<Rightarrow> bool) \<Rightarrow> bf_t \<Rightarrow> u64 \<Rightarrow> bf_t \<times> u32" where
  "bf_set_ui mem r a =
    (let r = r\<lparr>bf_sign := False\<rparr> in
     if a = 0 then (r\<lparr>bf_expn := BF_EXP_ZERO, bf_tab := []\<rparr>, 0)
     else
       (let shift = clz a in
        case bf_resize mem r [push_bit shift a] of
          None \<Rightarrow> (bf_set_nan r, BF_ST_MEM_ERROR)
        | Some r \<Rightarrow> (r\<lparr>bf_expn := of_int (64 - int shift)\<rparr>, 0)))"

definition bf_set_si :: "(nat \<Rightarrow> bool) \<Rightarrow> bf_t \<Rightarrow> s64 \<Rightarrow> bf_t \<times> u32" where
  "bf_set_si mem r a =
    (if sint a < 0 then (let (r, ret) = bf_set_ui mem r (- a) in (r\<lparr>bf_sign := True\<rparr>, ret))
     else bf_set_ui mem r a)"

definition bf_set :: "(nat \<Rightarrow> bool) \<Rightarrow> bf_t \<Rightarrow> bf_t \<Rightarrow> bf_t \<times> u32" where
  "bf_set mem r a =
    (case bf_resize mem r (bf_tab a) of
       None \<Rightarrow> (bf_set_nan r, BF_ST_MEM_ERROR)
     | Some r \<Rightarrow> (r\<lparr>bf_sign := bf_sign a, bf_expn := bf_expn a\<rparr>, 0))"

section \<open>Rounding\<close>

text \<open>What to add at digit \<open>prec - 1\<close>, and whether digits are lost; \<open>tab\<close> has the \<open>l\<close> limbs in use.\<close>

definition bf_get_rnd_add :: "bool \<Rightarrow> limb list \<Rightarrow> int \<Rightarrow> bf_rnd_t \<Rightarrow> bool \<times> bool" where
  "bf_get_rnd_add sign tab prec mode =
    (let top = int (length tab) * 64 - 1;
         bit0 = (if mode = BF_RNDF then 1 else scan_bit_nz tab (top - max 0 (prec + 1)));
         bit1 = get_bit tab (top - prec);
         inexact = (bit1 OR bit0) \<noteq> 0;
         add_one = (case mode of
             BF_RNDZ \<Rightarrow> False
           | BF_RNDN \<Rightarrow> if bit1 \<noteq> 0 then (if bit0 \<noteq> 0 then True else get_bit tab (top - (prec - 1)) \<noteq> 0) else False
           | BF_RNDD \<Rightarrow> if sign then inexact else False
           | BF_RNDU \<Rightarrow> if \<not> sign then inexact else False
           | BF_RNDA \<Rightarrow> inexact
           | BF_RNDNA \<Rightarrow> bit1 \<noteq> 0
           | BF_RNDF \<Rightarrow> bit1 \<noteq> 0) in
     (add_one, inexact))"

definition bf_set_overflow :: "(nat \<Rightarrow> bool) \<Rightarrow> bf_t \<Rightarrow> bool \<Rightarrow> int \<Rightarrow> u32 \<Rightarrow> bf_rnd_t \<Rightarrow> (bf_t \<times> u32) option" where
  "bf_set_overflow mem r sign prec flags mode =
    (if prec = BF_PREC_INF \<or> mode = BF_RNDN \<or> mode = BF_RNDNA \<or> mode = BF_RNDA \<or>
        (mode = BF_RNDD \<and> sign) \<or> (mode = BF_RNDU \<and> \<not> sign)
     then Some (bf_set_inf r sign, BF_ST_OVERFLOW OR BF_ST_INEXACT)
     else
       (let l = nat ((prec + 63) div 64) in
        if l = 0 then None else
        case bf_resize mem r (limb_mask (nat ((- prec) mod 64)) 63 # replicate (l - 1) (- 1)) of
          None \<Rightarrow> Some (bf_set_nan r, BF_ST_MEM_ERROR)
        | Some r \<Rightarrow> Some (r\<lparr>bf_expn := of_int (2 ^ (bf_get_exp_bits flags - 1)), bf_sign := sign\<rparr>,
                         BF_ST_OVERFLOW OR BF_ST_INEXACT)))"

text \<open>
  Adding the digit from limb \<open>pos\<close> on; after a carry out of the top limb the limbs from \<open>pos\<close> are
  shifted right by one bit, the carry coming in at the top.
\<close>

fun round_carry :: "limb list \<Rightarrow> limb \<Rightarrow> limb list \<times> limb" where
  "round_carry [] carry = ([], carry)"
| "round_carry (x # tab) carry =
    (let v = x + carry; carry = (if v < carry then 1 else 0) in
     if carry = 0 then (v # tab, carry) else (let (res, c) = round_carry tab carry in (v # res, c)))"

definition round_up :: "limb list \<Rightarrow> nat \<Rightarrow> limb \<Rightarrow> limb list \<times> bool" where
  "round_up tab pos carry =
    (let (high, c) = round_carry (drop pos tab) carry in
     if c \<noteq> 0 then (take pos tab @ rev (fst (mp_shr_loop (rev high) 1 1)), True)
     else (take pos tab @ high, False))"

text \<open>Dropping the digits below \<open>prec\<close> and the limbs that are zero.\<close>

definition round_keep :: "limb list \<Rightarrow> int \<Rightarrow> limb list option" where
  "round_keep tab bit_pos =
    (let i = bit_pos div 64;
         tab = (if 0 \<le> i
                then (let j = nat i; shift = nat (bit_pos mod 64) in
                      drop j (if shift \<noteq> 0 then tab[j := tab ! j AND limb_mask shift 63] else tab))
                else tab);
         tab = dropWhile (\<lambda>x. x = 0) tab in
     if tab = [] then None else Some tab)"

definition bf_underflow :: "bf_t \<Rightarrow> u32 \<Rightarrow> bf_t \<times> u32" where
  "bf_underflow r ret = (bf_set_zero r (bf_sign r), ret OR BF_ST_UNDERFLOW OR BF_ST_INEXACT)"

definition round_prec :: "bf_t \<Rightarrow> int \<Rightarrow> u32 \<Rightarrow> int \<Rightarrow> int option" where
  "round_prec r prec1 flags e_min =
    (if flags AND BF_FLAG_RADPNT_PREC \<noteq> 0
     then Some (if prec1 \<noteq> BF_PREC_INF then sint (bf_expn r) + prec1 else prec1)
     else if sint (bf_expn r) < e_min \<and> flags AND BF_FLAG_SUBNORMAL \<noteq> 0
     then (if prec1 \<noteq> BF_PREC_INF then Some (prec1 - (e_min - sint (bf_expn r))) else None)
     else Some prec1)"

definition bf_round_limbs :: "(nat \<Rightarrow> bool) \<Rightarrow> bf_t \<Rightarrow> int \<Rightarrow> u32 \<Rightarrow> nat \<Rightarrow> u32 \<Rightarrow> (bf_t \<times> u32) option" where
  "bf_round_limbs mem r prec1 flags l ret =
    (let tab = take l (bf_tab r);
         e_range = 2 ^ (bf_get_exp_bits flags - 1) :: int; e_min = - e_range + 3; e_max = e_range in
     case round_prec r prec1 flags e_min of None \<Rightarrow> None | Some prec \<Rightarrow>
     (case rnd_mode flags of None \<Rightarrow> None | Some mode \<Rightarrow>
      (let (add_one, inexact) = bf_get_rnd_add (bf_sign r) tab prec mode;
           ret = (if inexact then ret OR BF_ST_INEXACT else ret);
           bit_pos = int l * 64 - 1 - (prec - 1) in
       if prec \<le> 0
       then (if add_one
             then Some (r\<lparr>bf_tab := [push_bit 63 1], bf_expn := bf_expn r + of_int (1 - prec)\<rparr>,
                        ret OR BF_ST_UNDERFLOW OR BF_ST_INEXACT)
             else Some (bf_underflow r ret))
       else if add_one \<and> bit_pos < 0 then None
       else
         (let (tab, carry) =
                (if add_one then round_up tab (nat (bit_pos div 64)) (push_bit (nat (bit_pos mod 64)) 1) else (tab, False));
              r = r\<lparr>bf_tab := tab @ drop l (bf_tab r), bf_expn := (if carry then bf_expn r + 1 else bf_expn r)\<rparr>;
              small = sint (bf_expn r) < e_min in
          if small \<and> flags AND BF_FLAG_SUBNORMAL = 0 then Some (bf_underflow r ret)
          else
            (let ret = (if small \<and> ret AND BF_ST_INEXACT \<noteq> 0 then ret OR BF_ST_UNDERFLOW else ret) in
             if sint (bf_expn r) > e_max then bf_set_overflow mem r (bf_sign r) prec1 flags mode
             else (case round_keep tab bit_pos of None \<Rightarrow> None | Some tab \<Rightarrow> Some (r\<lparr>bf_tab := tab\<rparr>, ret)))))))"

definition bf_round :: "(nat \<Rightarrow> bool) \<Rightarrow> bf_t \<Rightarrow> int \<Rightarrow> u32 \<Rightarrow> (bf_t \<times> u32) option" where
  "bf_round mem r prec flags =
    (if bf_tab r = [] then Some (r, 0) else bf_round_limbs mem r prec flags (length (bf_tab r)) 0)"

section \<open>Normalisation and product\<close>

fun norm_shift :: "limb list \<Rightarrow> nat \<Rightarrow> limb \<Rightarrow> limb list" where
  "norm_shift [] shift v = []"
| "norm_shift (a # tab) shift v = (push_bit shift a OR drop_bit (64 - shift) v) # norm_shift tab shift a"

definition top_limbs :: "limb list \<Rightarrow> nat" where
  "top_limbs tab = length (dropWhile (\<lambda>x. x = 0) (rev tab))"

definition bf_normalize_and_round :: "(nat \<Rightarrow> bool) \<Rightarrow> bf_t \<Rightarrow> int \<Rightarrow> u32 \<Rightarrow> (bf_t \<times> u32) option" where
  "bf_normalize_and_round mem r prec1 flags =
    (let l = top_limbs (bf_tab r) in
     if l = 0 then Some (r\<lparr>bf_expn := BF_EXP_ZERO, bf_tab := []\<rparr>, 0)
     else
       (let expn = bf_expn r - of_nat ((length (bf_tab r) - l) * 64);
            tab = take l (bf_tab r);
            shift = clz (tab ! (l - 1));
            r = (if shift \<noteq> 0
                 then r\<lparr>bf_tab := norm_shift tab shift 0 @ drop l (bf_tab r), bf_expn := expn - of_nat shift\<rparr>
                 else r\<lparr>bf_expn := expn\<rparr>) in
        bf_round_limbs mem r prec1 flags l 0))"

text \<open>
  \<open>*r\<close> may be \<open>*a\<close> or \<open>*b\<close>; the code then computes into a fresh number and moves it. \<open>r\<close> is the number
  computed into, and only the length of its table is used.
\<close>

definition bf_mul :: "mul_fun \<Rightarrow> (nat \<Rightarrow> bool) \<Rightarrow> bf_t \<Rightarrow> bf_t \<Rightarrow> bf_t \<Rightarrow> int \<Rightarrow> u32 \<Rightarrow> (bf_t \<times> u32) option" where
  "bf_mul fft_mul mem r a b prec flags =
    (let (a, b) = (if length (bf_tab a) < length (bf_tab b) then (b, a) else (a, b));
         r_sign = (bf_sign a \<noteq> bf_sign b) in
     if bf_tab b = []
     then Some
       (if bf_expn a = BF_EXP_NAN \<or> bf_expn b = BF_EXP_NAN then (bf_set_nan r, 0)
        else if bf_expn a = BF_EXP_INF \<or> bf_expn b = BF_EXP_INF
        then (if (bf_expn a = BF_EXP_INF \<and> bf_expn b = BF_EXP_ZERO) \<or> (bf_expn a = BF_EXP_ZERO \<and> bf_expn b = BF_EXP_INF)
              then (bf_set_nan r, BF_ST_INVALID_OP)
              else (bf_set_inf r r_sign, 0))
        else (bf_set_zero r r_sign, 0))
     else
       (let precl = nat ((prec + 2 + 63) div 64);
            cut = (\<lambda>tab. if flags AND 7 = 6 then drop (length tab - min (length tab) precl) tab else tab);
            a_tab = cut (bf_tab a);
            b_tab = cut (bf_tab b) in
        case (if 100 \<le> length b_tab
              then map_option (\<lambda>tab. r\<lparr>bf_tab := tab\<rparr>) (fft_mul a_tab b_tab)
              else bf_resize mem r (mp_mul_basecase a_tab b_tab)) of
          None \<Rightarrow> Some (bf_set_nan r, BF_ST_MEM_ERROR)
        | Some r \<Rightarrow>
            bf_normalize_and_round mem (r\<lparr>bf_sign := r_sign, bf_expn := bf_expn a + bf_expn b\<rparr>) prec flags))"

end
