(* ===== verification/BigRound.thy ===== *)
theory BigRound
  imports BigFloat Complex_Main
begin

text \<open>
  \<open>__bf_round\<close> and \<open>bf_normalize_and_round\<close> of \<open>quickjs/libbf.c\<close> against the arithmetic they implement: the
  scans of bits are divisions of the number by powers of two, the addition of a digit with its shift
  is the successor of the rounded mantissa, and the result is the rounded value, normalised again.
\<close>

section \<open>Bits of a limb array\<close>

lemma B_pow: "B ^ n = 2 ^ (64 * n)"
  by (simp add: B_def power_mult)

lemma limbs_val_bit: "bit (limbs_val tab) n \<longleftrightarrow> n div 64 < length tab \<and> bit (tab ! (n div 64)) (n mod 64)"
proof (induction tab arbitrary: n)
  case (Cons x tab)
  have pb: "B * limbs_val tab = push_bit 64 (limbs_val tab)" by (simp add: B_def push_bit_eq_mult)
  have "unat x + push_bit 64 (limbs_val tab) = unat x OR push_bit 64 (limbs_val tab)"
  proof (rule disjunctive_add)
    fix n
    have "\<not> bit (unat x) n" if "64 \<le> n" using that by (auto simp: bit_unsigned_iff dest: bit_imp_le_length)
    then show "\<not> bit (unat x) n \<or> \<not> bit (push_bit 64 (limbs_val tab)) n"
      by (cases "64 \<le> n") (auto simp only: bit_push_bit_iff_nat)
  qed
  then have b: "bit (limbs_val (x # tab)) n \<longleftrightarrow> bit x n \<or> 64 \<le> n \<and> bit (limbs_val tab) (n - 64)"
    unfolding limbs_val.simps pb by (auto simp only: bit_or_iff bit_push_bit_iff_nat bit_unsigned_iff possible_bit_def power_not_zero dest: bit_imp_le_length)
  show ?case
  proof (cases "n < 64")
    case True
    then show ?thesis unfolding b by simp
  next
    case False
    then have "n = 64 + (n - 64)" by simp
    then have d: "n div 64 = Suc ((n - 64) div 64)" "n mod 64 = (n - 64) mod 64"
      by (metis div_add_self1 Suc_eq_plus1 numeral_neq_zero, metis mod_add_self1)
    have "\<not> bit x n" using False by (auto dest: bit_imp_le_length)
    then show ?thesis unfolding b d using False Cons.IH [of "n - 64"] by simp
  qed
qed (simp)

lemma get_bit_val: "get_bit tab pos = (if 0 \<le> pos \<and> bit (limbs_val tab) (nat pos) then 1 else 0)"
proof (cases "pos div 64 < 0 \<or> int (length tab) \<le> pos div 64")
  case True
  have "\<not> (0 \<le> pos \<and> bit (limbs_val tab) (nat pos))"
  proof
    assume a: "0 \<le> pos \<and> bit (limbs_val tab) (nat pos)"
    then have "nat pos div 64 < length tab" using limbs_val_bit by blast
    moreover have "int (nat pos div 64) = pos div 64" "0 \<le> pos div 64"
      using a by (simp_all add: zdiv_int pos_imp_zdiv_nonneg_iff)
    ultimately show False using True by linarith
  qed
  then show ?thesis using True by (simp add: get_bit_def Let_def)
next
  case False
  then have p: "0 \<le> pos" by (simp add: not_less pos_imp_zdiv_nonneg_iff)
  have i: "nat (pos div 64) = nat pos div 64" "nat (pos mod 64) = nat pos mod 64" using p by (simp_all add: nat_div_distrib nat_mod_distrib)
  have l: "nat pos div 64 < length tab" using False p by (simp add: i(1) [symmetric]) linarith
  have "drop_bit k x AND 1 = (if bit x k then 1 else 0)" for x :: limb and k
  proof (rule bit_word_eqI)
    fix n
    show "bit (drop_bit k x AND 1) n = bit (if bit x k then 1 else 0 :: limb) n" by (cases n) (auto simp: bit_simps)
  qed
  then show ?thesis using False p l by (simp add: get_bit_def Let_def i limbs_val_bit)
qed

lemma limbs_mod_split:
  assumes "p < length tab" "k \<le> 64"
  shows "limbs_val tab mod 2 ^ (64 * p + k) = limbs_val tab mod B ^ p + B ^ p * (unat (tab ! p) mod 2 ^ k)"
proof -
  have "limbs_val tab mod 2 ^ (64 * p + k) = limbs_val tab mod (B ^ p * 2 ^ k)" by (simp add: B_pow power_add)
  also have "\<dots> = B ^ p * (limbs_val tab div B ^ p mod 2 ^ k) + limbs_val tab mod B ^ p" by (rule mod_mult2_eq)
  also have "limbs_val tab div B ^ p mod 2 ^ k = unat (tab ! p) mod 2 ^ k"
  proof -
    have "limbs_val tab div B ^ p = limbs_val (drop p tab)" by (simp add: limbs_val_take_drop)
    also have "\<dots> = unat (tab ! p) + B * limbs_val (drop (Suc p) tab)" using assms(1) by (simp add: Cons_nth_drop_Suc [symmetric])
    finally have e: "limbs_val tab div B ^ p = unat (tab ! p) + B * limbs_val (drop (Suc p) tab)" .
    have B': "B = 2 ^ k * 2 ^ (64 - k)" using assms(2) by (simp add: B_def power_add [symmetric])
    show ?thesis unfolding e by (simp only: B' mult.assoc mod_mult_self2)
  qed
  finally show ?thesis by simp
qed

lemma scan_bit_nz_val:
  assumes "pos < 64 * int (length tab)"
  shows "scan_bit_nz tab pos = 0 \<longleftrightarrow> limbs_val tab mod 2 ^ nat (pos + 1) = 0"
proof (cases "pos div 64 < 0")
  case True
  then have "pos < 0" by (simp add: neg_imp_zdiv_neg_iff)
  then have "nat (pos + 1) = 0" by simp
  then show ?thesis using True by (simp add: scan_bit_nz_def Let_def)
next
  case False
  then have p: "0 \<le> pos" by (simp add: not_less pos_imp_zdiv_nonneg_iff)
  define i m where "i = nat (pos div 64)" and "m = nat (pos mod 64)"
  have im: "int i = pos div 64" "int m = pos mod 64" "m < 64" using p by (simp_all add: i_def m_def pos_imp_zdiv_nonneg_iff nat_less_iff)
  then have n: "nat (pos + 1) = 64 * i + (m + 1)" using mult_div_mod_eq [of 64 pos] p by linarith
  have i: "i < length tab" using assms im by linarith
  have "limb_mask 0 m = mask (m + 1)"
    by (cases "m = 63") (auto simp: limb_mask_def mask_eq_exp_minus_1 push_bit_eq_mult intro: bit_word_eqI)
  then have mask: "x AND limb_mask 0 m = take_bit (m + 1) x" for x :: limb by (simp only: take_bit_eq_mask)
  have "unat (take_bit (m + 1) (tab ! i)) = unat (tab ! i) mod 2 ^ (m + 1)"
    using take_bit_eq_mod [of "m + 1" "unat (tab ! i)"] by (simp only: unsigned_take_bit_eq)
  then have t: "tab ! i AND limb_mask 0 m = 0 \<longleftrightarrow> unat (tab ! i) mod 2 ^ (m + 1) = 0"
    unfolding mask by (metis unat_eq_0)
  have "limbs_val tab mod 2 ^ nat (pos + 1) = 0 \<longleftrightarrow> limbs_val tab mod B ^ i = 0 \<and> unat (tab ! i) mod 2 ^ (m + 1) = 0"
    unfolding n limbs_mod_split [OF i, of "m + 1"] using im(3) B_pos by (subst limbs_mod_split [OF i]) (auto simp del: B_pos)
  moreover have "scan_bit_nz tab pos = 0 \<longleftrightarrow> tab ! i AND limb_mask 0 m = 0 \<and> mp_scan_nz (take i tab) = 0"
    using False by (simp add: scan_bit_nz_def Let_def i_def [symmetric] m_def [symmetric])
  ultimately show ?thesis unfolding t mp_scan_nz_zero limbs_val_take_drop by auto
qed

section \<open>The digit to add\<close>

text \<open>Rounding \<open>v / 2\<^sup>s\<close> to an integer, and whether it is inexact; faithful rounding is to nearest.\<close>

definition round_adds :: "bf_rnd_t \<Rightarrow> bool \<Rightarrow> nat \<Rightarrow> nat \<Rightarrow> bool" where
  "round_adds mode sign v s =
    (let q = v div 2 ^ s; m = v mod 2 ^ s in
     case mode of
       BF_RNDZ \<Rightarrow> False
     | BF_RNDN \<Rightarrow> 2 * m > 2 ^ s \<or> (2 * m = 2 ^ s \<and> odd q)
     | BF_RNDD \<Rightarrow> sign \<and> m \<noteq> 0
     | BF_RNDU \<Rightarrow> \<not> sign \<and> m \<noteq> 0
     | BF_RNDA \<Rightarrow> m \<noteq> 0
     | BF_RNDNA \<Rightarrow> 2 * m \<ge> 2 ^ s
     | BF_RNDF \<Rightarrow> 2 * m \<ge> 2 ^ s)"

definition rounded :: "bf_rnd_t \<Rightarrow> bool \<Rightarrow> nat \<Rightarrow> nat \<Rightarrow> nat" where
  "rounded mode sign v s = v div 2 ^ s + (if round_adds mode sign v s then 1 else 0)"

lemma halves:
  fixes v :: nat
  assumes "1 \<le> s"
  shows "bit v (s - 1) \<longleftrightarrow> 2 ^ s \<le> 2 * (v mod 2 ^ s)"
    and "v mod 2 ^ (s - 1) = 0 \<longleftrightarrow> v mod 2 ^ s = 0 \<or> 2 * (v mod 2 ^ s) = 2 ^ s"
proof -
  obtain t where s: "s = Suc t" using assms by (cases s) auto
  define h l where "h = (v div 2 ^ t) mod 2" and "l = v mod 2 ^ t"
  have m: "v mod 2 ^ s = 2 ^ t * h + l" unfolding s h_def l_def power_Suc2 by (rule mod_mult2_eq)
  have l: "l < 2 ^ t" by (simp add: l_def)
  have h: "h = 0 \<or> h = 1" by (auto simp: h_def)
  have b: "bit v (s - 1) \<longleftrightarrow> h = 1" by (simp add: s h_def bit_iff_odd odd_iff_mod_2_eq_one)
  show "bit v (s - 1) \<longleftrightarrow> 2 ^ s \<le> 2 * (v mod 2 ^ s)" unfolding b m using h l by (auto simp: s)
  have vl: "v mod 2 ^ (s - 1) = l" by (simp add: s l_def)
  have "l = 0 \<longleftrightarrow> 2 ^ t * h + l = 0 \<or> 2 * (2 ^ t * h + l) = 2 ^ s" using h l by (elim disjE) (simp_all add: s)
  then show "v mod 2 ^ (s - 1) = 0 \<longleftrightarrow> v mod 2 ^ s = 0 \<or> 2 * (v mod 2 ^ s) = 2 ^ s" unfolding m vl .
qed

lemma rnd_add_val:
  assumes s: "int s = 64 * int (length tab) - prec" "1 \<le> s" and p: "0 \<le> prec"
  shows "bf_get_rnd_add sign tab prec mode =
    (round_adds mode sign (limbs_val tab) s, mode = BF_RNDF \<or> limbs_val tab mod 2 ^ s \<noteq> 0)"
proof -
  define v where "v = limbs_val tab"
  have t: "int (length tab) * 64 - 1 - prec = int (s - 1)" "int (length tab) * 64 - 1 - (prec - 1) = int s"
    "int (length tab) * 64 - 1 - max 0 (prec + 1) = int (s - 1) - 1"
    using s p by (simp_all add: of_nat_diff)
  have b1: "get_bit tab (int (s - 1)) = (if bit v (s - 1) then 1 else 0)" "get_bit tab (int s) = (if bit v s then 1 else 0)"
    by (simp_all add: get_bit_val v_def)
  have sc: "scan_bit_nz tab (int (s - 1) - 1) = 0 \<longleftrightarrow> v mod 2 ^ (s - 1) = 0"
  proof -
    have "int (s - 1) - 1 < 64 * int (length tab)" using s p by linarith
    from scan_bit_nz_val [OF this] show ?thesis by (simp only: v_def diff_add_cancel nat_int)
  qed
  have sc1: "scan_bit_nz tab pos = 0 \<or> scan_bit_nz tab pos = 1" for pos
  proof -
    have "mp_scan_nz t = 0 \<or> mp_scan_nz t = 1" for t by (induction t) auto
    then show ?thesis by (simp add: scan_bit_nz_def Let_def)
  qed
  have q: "bit v s \<longleftrightarrow> odd (v div 2 ^ s)" by (simp add: bit_iff_odd)
  define m where "m = v mod 2 ^ s"
  have h: "bit v (s - 1) \<longleftrightarrow> 2 ^ s \<le> 2 * m" "scan_bit_nz tab (int (s - 1) - 1) = 0 \<longleftrightarrow> m = 0 \<or> 2 * m = 2 ^ s"
    unfolding sc m_def using halves [OF s(2), of v] by simp_all
  have z: "2 * m = 2 ^ s \<longrightarrow> 0 < m" by (cases m) auto
  show ?thesis
    unfolding bf_get_rnd_add_def Let_def t b1 h(1) q v_def [symmetric]
    using h(2) sc1 [of "int (s - 1) - 1"] z
    by (cases mode) (auto simp: round_adds_def m_def [symmetric])
qed

lemma rnd_add_exact:
  assumes "64 * int (length tab) \<le> prec"
  shows "bf_get_rnd_add sign tab prec mode = (False, mode = BF_RNDF)"
proof -
  have "get_bit tab pos = 0" "scan_bit_nz tab pos = 0" if "pos < 0" for pos
    using that div_neg_pos_less0 [of pos 64] by (simp_all add: get_bit_val scan_bit_nz_def Let_def)
  then show ?thesis using assms by (cases mode) (simp_all add: bf_get_rnd_add_def Let_def max_def)
qed

section \<open>Adding it and dropping the rest\<close>

lemma mp_add_ui_zero: "mp_add_ui tab 0 = (tab, 0)"
  by (cases tab) simp_all

lemma round_carry_add_ui: "carry \<noteq> 0 \<Longrightarrow> round_carry tab carry = mp_add_ui tab carry"
proof (induction tab arbitrary: carry)
  case (Cons x tab)
  then show ?case using mp_add_ui_zero [of tab] by (cases "x + carry < carry") (simp_all add: Let_def)
qed simp

text \<open>
  \<open>H\<close> is the number in the limbs from \<open>pos\<close>, \<open>q = H div 2\<^sup>k\<close> its mantissa, \<open>k\<close> the bit of the last digit
  in its lowest limb. A carry happens exactly when all digits are ones; then only the top one is left.
\<close>

lemma round_up_val:
  assumes pos: "pos < length tab" and k: "k < 64" and p: "64 * (length tab - pos) = k + p" "1 \<le> p"
  defines "H \<equiv> limbs_val (drop pos tab)"
  shows "\<exists>tab' c. round_up tab pos (push_bit k 1) = (tab', c) \<and> length tab' = length tab \<and>
    (c \<longleftrightarrow> H div 2 ^ k + 1 = 2 ^ p) \<and>
    limbs_val (drop pos tab') div 2 ^ k = (if c then 2 ^ (p - 1) else H div 2 ^ k + 1)"
proof -
  define n where "n = length tab - pos"
  have n: "B ^ n = 2 ^ k * 2 ^ p" by (simp add: B_pow n_def p(1) power_add)
  have one: "unat (push_bit k 1 :: limb) = 2 ^ k"
  proof -
    have "(2 :: nat) ^ k < 2 ^ 64" using k by (intro power_strict_increasing) simp_all
    then show ?thesis unfolding unsigned_push_bit_eq using k by (simp add: push_bit_eq_mult take_bit_nat_eq_self)
  qed
  then have ne: "push_bit k 1 \<noteq> (0 :: limb)" by (metis unat_0 power_not_zero zero_neq_numeral)
  obtain high c where a: "mp_add_ui (drop pos tab) (push_bit k 1) = (high, c)" by (cases "mp_add_ui (drop pos tab) (push_bit k 1)")
  have rc: "round_carry (drop pos tab) (push_bit k 1) = (high, c)" unfolding round_carry_add_ui [OF ne] by (rule a)
  have v: "limbs_val high + B ^ n * unat c = H + 2 ^ k" "length high = n"
    using mp_add_ui_val [OF a] unfolding one n_def H_def length_drop by blast+
  have H: "H < B ^ n" using limbs_val_less [of "drop pos tab"] by (simp add: H_def n_def)
  define q m where "q = H div 2 ^ k" and "m = H mod 2 ^ k"
  have qm: "H = 2 ^ k * q + m" "m < 2 ^ k" by (simp_all add: q_def m_def)
  have q: "q < 2 ^ p" using H unfolding n by (simp add: q_def less_mult_imp_div_less mult.commute)
  have hn: "limbs_val high < B ^ n" using limbs_val_less [of high] by (simp add: v(2))
  show ?thesis
  proof (cases "q + 1 = 2 ^ p")
    case True
    have e: "H + 2 ^ k = B ^ n + m" unfolding qm(1) n True [symmetric] by (simp add: algebra_simps)
    have c: "unat c = 1"
    proof (rule ccontr)
      assume "unat c \<noteq> 1"
      then consider "unat c = 0" | "2 \<le> unat c" by linarith
      then show False
      proof cases
        case 1
        then show ?thesis using v(1) hn e by simp
      next
        case 2
        then have "B ^ n * 2 \<le> B ^ n * unat c" by (rule mult_le_mono2)
        then have "B ^ n \<le> m" using v(1) e by linarith
        moreover have "2 ^ k * 1 \<le> B ^ n" unfolding n by (intro mult_le_mono2) simp
        ultimately show ?thesis using qm(2) by linarith
      qed
    qed
    then have hm: "limbs_val high = m" using v(1) e by simp
    obtain sh x where sh: "mp_shr_loop (rev high) 1 1 = (sh, x)" by (cases "mp_shr_loop (rev high) 1 1")
    have shv: "2 * limbs_val (rev sh) + unat x mod 2 = m + B ^ n" "length sh = n"
      using mp_shr_loop_val [OF _ _ sh] by (simp_all add: v(2) hm)
    have r: "round_up tab pos (push_bit k 1) = (take pos tab @ rev sh, True)"
      unfolding round_up_def rc prod.case using c sh by auto
    have "limbs_val (rev sh) = (m + B ^ n) div 2" using shv(1) by linarith
    also have "B ^ n = 2 * (2 ^ k * 2 ^ (p - 1))" unfolding n using p(2) by (cases p) simp_all
    finally have "limbs_val (rev sh) = m div 2 + 2 ^ k * 2 ^ (p - 1)" by simp
    moreover have "m div 2 < 2 ^ k" using qm(2) by simp
    ultimately have "limbs_val (rev sh) div 2 ^ k = 2 ^ (p - 1)" by simp
    then show ?thesis using r shv(2) pos True
      by (intro exI [of _ "take pos tab @ rev sh"] exI [of _ True]) (simp add: n_def q_def)
  next
    case False
    then have q1: "q + 2 \<le> 2 ^ p" using q by linarith
    have e: "H + 2 ^ k = 2 ^ k * (q + 1) + m" unfolding qm(1) by (simp add: algebra_simps)
    have "2 ^ k * (q + 2) \<le> B ^ n" unfolding n using q1 by (rule mult_le_mono2)
    then have "H + 2 ^ k < B ^ n" unfolding e using qm(2) by (simp add: algebra_simps)
    then have c: "c = 0" using v(1) by (cases "unat c") (simp_all add: unat_eq_0)
    then have "limbs_val high = m + (q + 1) * 2 ^ k" using v(1) e by simp
    moreover have "(m + (q + 1) * 2 ^ k) div 2 ^ k = (q + 1) + m div 2 ^ k" by (rule div_mult_self1) simp
    ultimately have "limbs_val high div 2 ^ k = q + 1" using qm(2) by simp
    moreover have "round_up tab pos (push_bit k 1) = (take pos tab @ high, False)"
      unfolding round_up_def rc prod.case using c by simp
    ultimately show ?thesis using pos v(2) False
      by (intro exI [of _ "take pos tab @ high"] exI [of _ False]) (simp add: n_def q_def)
  qed
qed

lemma limb_mask_high:
  assumes "1 \<le> k" "k < 64"
  shows "limb_mask k 63 = push_bit k (mask (64 - k))"
proof -
  have e: "63 - k + 1 = 64 - k" using assms by simp
  have m: "push_bit (64 - k) 1 - 1 = (mask (64 - k) :: limb)" by (simp add: mask_eq_exp_minus_1 push_bit_eq_mult)
  show ?thesis using assms unfolding limb_mask_def Let_def e m by auto
qed

lemma mask_high:
  assumes "1 \<le> k" "k < 64"
  shows "unat (x AND limb_mask k 63) = 2 ^ k * (unat x div 2 ^ k)"
proof -
  have "x AND limb_mask k 63 = push_bit k (drop_bit k x)"
  proof (rule bit_word_eqI)
    fix n assume n: "n < LENGTH(64)"
    show "bit (x AND limb_mask k 63) n = bit (push_bit k (drop_bit k x)) n" using n assms by (auto simp: limb_mask_high bit_simps)
  qed
  moreover have "unat (push_bit k (drop_bit k x)) = 2 ^ k * (unat x div 2 ^ k)"
  proof -
    have d: "unat (drop_bit k x) = unat x div 2 ^ k"
      using limb_less [of x] by (simp add: unsigned_drop_bit_eq take_bit_nat_eq_self drop_bit_eq_div [of k "unat x"] B_def)
    have "unat x div 2 ^ k * 2 ^ k \<le> unat x" by simp
    then have "unat x div 2 ^ k * 2 ^ k < 2 ^ 64" using limb_less [of x] unfolding B_def by linarith
    then show ?thesis unfolding unsigned_push_bit_eq d by (simp add: push_bit_eq_mult take_bit_nat_eq_self)
  qed
  ultimately show ?thesis by simp
qed

lemma drop_zero_limbs:
  "limbs_val tab = B ^ (length tab - length (dropWhile (\<lambda>x. x = 0) tab)) * limbs_val (dropWhile (\<lambda>x. x = 0) tab)"
proof (induction tab)
  case (Cons x tab)
  then show ?case using length_dropWhile_le [of "\<lambda>x. x = 0" tab] by (simp add: Suc_diff_le)
qed simp

lemma limbs_val_zero_iff: "limbs_val tab = 0 \<longleftrightarrow> dropWhile (\<lambda>x. x = 0) tab = []"
  by (induction tab) (auto simp: unat_eq_0 B_def)

text \<open>\<open>G\<close> is the mantissa that the limbs from bit \<open>s\<close> hold; what is kept is \<open>G\<close> over its digits.\<close>

lemma round_keep_val:
  assumes s: "s < 64 * length tab" "64 * length tab = s + p"
    and G: "G = limbs_val tab div 2 ^ s" "2 ^ (p - 1) \<le> G" "1 \<le> p"
  shows "\<exists>t. round_keep tab (int s) = Some t \<and> t \<noteq> [] \<and> hd t \<noteq> 0 \<and> bit (last t) 63 \<and>
    length t \<le> length tab \<and> limbs_val t * 2 ^ p = G * B ^ length t"
proof -
  define pos k where "pos = s div 64" and "k = s mod 64"
  have pk: "s = 64 * pos + k" "k < 64" by (simp_all add: pos_def k_def)
  then have pos: "pos < length tab" using s by linarith
  define n where "n = length tab - pos"
  have n: "64 * n = k + p" "B ^ n = 2 ^ k * 2 ^ p"
    using s pk pos by (simp_all add: n_def B_pow diff_mult_distrib2 flip: power_add)
  define t0 where "t0 = drop pos (if k \<noteq> 0 then tab[pos := tab ! pos AND limb_mask k 63] else tab)"
  have t0: "limbs_val t0 = 2 ^ k * G" "length t0 = n"
  proof -
    show "length t0 = n" by (simp add: t0_def n_def)
    have d: "drop pos tab = tab ! pos # drop (Suc pos) tab" using pos by (simp add: Cons_nth_drop_Suc)
    have g: "G = limbs_val (drop pos tab) div 2 ^ k"
      unfolding G(1) limbs_val_take_drop by (simp add: pk(1) power_add B_pow div_mult2_eq)
    show "limbs_val t0 = 2 ^ k * G"
    proof (cases "k = 0")
      case True
      then show ?thesis using g by (simp add: t0_def)
    next
      case False
      define x R where "x = unat (tab ! pos)" and "R = limbs_val (drop (Suc pos) tab)"
      have "t0 = (tab ! pos AND limb_mask k 63) # drop (Suc pos) tab"
        using False pos by (simp add: t0_def drop_update_swap Cons_nth_drop_Suc [symmetric])
      then have "limbs_val t0 = 2 ^ k * (x div 2 ^ k) + B * R"
        using False pk(2) by (simp add: mask_high x_def R_def)
      moreover have B': "B = 2 ^ k * 2 ^ (64 - k)" using pk(2) by (simp add: B_def flip: power_add)
      moreover have "G = x div 2 ^ k + 2 ^ (64 - k) * R"
      proof -
        have "(x + 2 ^ k * (2 ^ (64 - k) * R)) div 2 ^ k = 2 ^ (64 - k) * R + x div 2 ^ k" by (rule div_mult_self2) simp
        then show ?thesis unfolding g d by (simp add: x_def R_def B' mult.assoc)
      qed
      ultimately show ?thesis by (simp add: algebra_simps)
    qed
  qed
  define t where "t = dropWhile (\<lambda>x. x = 0) t0"
  have G0: "0 < G" using G(2) by (cases G) simp_all
  then have ne: "t \<noteq> []" using t0(1) limbs_val_zero_iff [of t0] by (simp add: t_def)
  have ik: "nat (int s div 64) = pos" "nat (int s mod 64) = k" "(0 \<le> int s div 64) = True"
    by (simp_all add: pos_def k_def nat_div_distrib nat_mod_distrib pos_imp_zdiv_nonneg_iff)
  have r: "round_keep tab (int s) = Some t"
    using ne by (simp only: round_keep_def Let_def ik if_True t0_def [symmetric] t_def [symmetric] if_False)
  obtain m where m: "n = Suc m" using pos by (cases n) (simp_all add: n_def)
  have "B ^ m * 2 ^ 63 * 2 = 2 ^ k * 2 ^ p" using n(2) by (simp add: m B_def)
  also have "\<dots> = 2 ^ k * 2 ^ (p - 1) * 2" using G(3) by (cases p) simp_all
  finally have "2 ^ 63 * B ^ m = 2 ^ k * 2 ^ (p - 1)" by simp
  also have "\<dots> \<le> limbs_val t0" unfolding t0(1) using G(2) by (rule mult_le_mono2)
  finally have top: "B \<le> 2 * unat (last t0)" using norm_top [of t0 m "2 ^ 63"] t0(2) m by (simp add: B_def)
  have last: "last t = last t0" using ne last_appendR [of t "takeWhile (\<lambda>x. x = 0) t0"] by (simp add: t_def)
  have hd: "hd t \<noteq> 0" using ne hd_dropWhile [of "\<lambda>x. x = 0" t0] by (simp add: t_def)
  have len: "length t \<le> n" using length_dropWhile_le [of "\<lambda>x. x = 0" t0] by (simp add: t_def t0(2))
  have "B ^ (n - length t) * (limbs_val t * 2 ^ p) = limbs_val t0 * 2 ^ p"
    using drop_zero_limbs [of t0] by (simp add: t_def t0(2))
  also have "\<dots> = G * B ^ n" unfolding t0(1) n(2) by (simp add: algebra_simps)
  also have "\<dots> = B ^ (n - length t) * (G * B ^ length t)" using len by (simp flip: power_add)
  finally have "limbs_val t * 2 ^ p = G * B ^ length t" by simp
  then show ?thesis using r ne hd top len last limb_top_bit [of "last t"] by (auto simp: n_def)
qed

section \<open>The value of a number\<close>

definition bf_val :: "bf_t \<Rightarrow> rat" where
  "bf_val r = (if bf_sign r then - 1 else 1) *
    (of_nat (limbs_val (bf_tab r)) / of_nat (B ^ length (bf_tab r)) * 2 powi sint (bf_expn r))"

text \<open>
  A \<open>bf_t\<close> as every function leaves it: without limbs it is a zero, an infinity or NaN; otherwise its
  top bit is set and its lowest limb is not zero, and its exponent is none of the special ones.
\<close>

definition bf_wf :: "bf_t \<Rightarrow> bool" where
  "bf_wf r = (if bf_tab r = [] then bf_expn r \<in> {BF_EXP_ZERO, BF_EXP_INF, BF_EXP_NAN}
    else hd (bf_tab r) \<noteq> 0 \<and> bit (last (bf_tab r)) 63 \<and> bf_expn r \<notin> {BF_EXP_ZERO, BF_EXP_INF, BF_EXP_NAN})"

lemma finite_exp:
  assumes "\<bar>sint x\<bar> < 2 ^ 63 - 2"
  shows "x \<notin> {BF_EXP_ZERO, BF_EXP_INF, BF_EXP_NAN}"
  using assms by (auto simp: BF_EXP_ZERO_def BF_EXP_INF_def BF_EXP_NAN_def)

lemma sint_s64_small: "\<bar>i\<bar> < 2 ^ 63 \<Longrightarrow> sint (of_int i :: s64) = i"
  by (rule sint_word_of_int_small) simp_all

lemma exp_bits: "bf_get_exp_bits flags \<le> 62"
  unfolding bf_get_exp_bits_def Let_def using diff_le_self [of 61] by (auto intro: order_trans [OF diff_le_self])

lemma e_range: "(2 :: int) ^ (bf_get_exp_bits flags - 1) \<le> 2 ^ 61"
  using exp_bits [of flags] by (intro power_increasing) simp_all

lemma sint_add_small:
  fixes x :: s64
  assumes "\<bar>sint x + i\<bar> < 2 ^ 63"
  shows "sint (x + of_int i) = sint x + i"
proof -
  have "x + of_int i = of_int (sint x + i)" by simp
  then show ?thesis using sint_s64_small [OF assms] by simp
qed

text \<open>The limbs of the mantissa: all branches but those of the exponent.\<close>

lemma round_limbs_digits:
  assumes l: "length tab = l" "1 \<le> l" and top: "bit (last tab) 63" and p: "1 \<le> p" "64 * l = s + p"
    and r: "(t1, c) = (if round_adds mode sign (limbs_val tab) s
        then round_up tab (nat (int s div 64)) (push_bit (nat (int s mod 64)) 1) else (tab, False))"
  shows "\<exists>t. round_keep t1 (int s) = Some t \<and> t \<noteq> [] \<and> hd t \<noteq> 0 \<and> bit (last t) 63 \<and> length t1 = l \<and>
    limbs_val t * 2 ^ p * (if c then 2 else 1) = rounded mode sign (limbs_val tab) s * B ^ length t"
proof -
  define V where "V = limbs_val tab"
  define pos k where "pos = s div 64" and "k = s mod 64"
  have pk: "s = 64 * pos + k" "k < 64" by (simp_all add: pos_def k_def)
  have sl: "s < 64 * l" using p by simp
  then have pos: "pos < length tab" using pk l by linarith
  define H where "H = limbs_val (drop pos tab)"
  have q: "H div 2 ^ k = V div 2 ^ s"
    by (simp add: H_def V_def limbs_val_take_drop pk(1) power_add B_pow div_mult2_eq)
  have ne: "tab \<noteq> []" using l by auto
  have "2 ^ (p - 1) \<le> V div 2 ^ s"
  proof -
    have "B ^ l \<le> 2 * V" using norm_divisor(1) [of tab] top ne l(1) by (simp add: limb_top_bit V_def)
    moreover have "B ^ l = 2 * (2 ^ (p - 1) * 2 ^ s)" using p by (cases p) (simp_all add: B_pow power_add)
    ultimately show ?thesis by (simp add: less_eq_div_iff_mult_less_eq)
  qed
  then have q_low: "2 ^ (p - 1) \<le> H div 2 ^ k" by (simp add: q)
  define G where "G = limbs_val t1 div 2 ^ s"
  have "length t1 = l \<and> 2 ^ (p - 1) \<le> G \<and> G * (if c then 2 else 1) = rounded mode sign V s"
  proof (cases "round_adds mode sign V s")
    case False
    then have t: "t1 = tab" "c = False" using r by (simp_all add: V_def)
    then show ?thesis using q q_low l False by (simp add: G_def rounded_def V_def)
  next
    case True
    have ik: "nat (int s div 64) = pos" "nat (int s mod 64) = k" by (simp_all add: pos_def k_def nat_div_distrib nat_mod_distrib)
    have "64 * (length tab - pos) = k + p" using p pk pos by (simp add: l(1) diff_mult_distrib2)
    then obtain tab' c' where u: "round_up tab pos (push_bit k 1) = (tab', c')" "length tab' = length tab"
      "c' \<longleftrightarrow> H div 2 ^ k + 1 = 2 ^ p" "limbs_val (drop pos tab') div 2 ^ k = (if c' then 2 ^ (p - 1) else H div 2 ^ k + 1)"
      using round_up_val [OF pos pk(2) _ p(1)] unfolding H_def by blast
    have t: "t1 = tab'" "c = c'" using r True u(1) unfolding ik V_def by simp_all
    have "G = limbs_val (drop pos tab') div 2 ^ k"
      unfolding G_def t limbs_val_take_drop by (simp add: pk(1) power_add B_pow div_mult2_eq)
    then have G: "G = (if c then 2 ^ (p - 1) else V div 2 ^ s + 1)" using u(4) t q by simp
    have "2 * 2 ^ (p - 1) = (2 :: nat) ^ p" using p(1) by (cases p) simp_all
    then show ?thesis using G True u(2,3) t l q q_low by (auto simp: rounded_def)
  qed
  then have G: "length t1 = l" "2 ^ (p - 1) \<le> G" "G * (if c then 2 else 1) = rounded mode sign V s" by blast+
  from round_keep_val [of s t1 p G] sl p G(1,2) obtain t where t: "round_keep t1 (int s) = Some t" "t \<noteq> []" "hd t \<noteq> 0"
    "bit (last t) 63" "limbs_val t * 2 ^ p = G * B ^ length t" by (auto simp: G_def)
  have "limbs_val t * 2 ^ p * (if c then 2 else 1) = rounded mode sign V s * B ^ length t"
    unfolding t(5) G(3) [symmetric] by simp
  then show ?thesis using t G(1) by (auto simp: V_def)
qed

lemma round_adds_zero: "\<not> round_adds mode sign v 0"
  by (cases mode) (simp_all add: round_adds_def)

lemma rnd_add_digits:
  assumes p: "int p = min prec (64 * int (length tab))" "1 \<le> p" and s: "64 * length tab = s + p"
  shows "bf_get_rnd_add sign tab prec mode = (round_adds mode sign (limbs_val tab) s, mode = BF_RNDF \<or> limbs_val tab mod 2 ^ s \<noteq> 0)"
proof (cases "prec < 64 * int (length tab)")
  case True
  then have "int s = 64 * int (length tab) - prec" "1 \<le> s" "0 \<le> prec" using p s by linarith+
  then show ?thesis by (rule rnd_add_val)
next
  case False
  then have "s = 0" using p s by linarith
  then show ?thesis using rnd_add_exact [of tab prec sign mode] False by (simp add: round_adds_zero)
qed

lemma round_keep_digits:
  assumes "int p = min prec (64 * int (length tab))" "64 * length tab = s + p"
  shows "round_keep tab (int (length tab) * 64 - 1 - (prec - 1)) = round_keep tab (int s)"
proof (cases "prec \<le> 64 * int (length tab)")
  case True
  then have "int (length tab) * 64 - 1 - (prec - 1) = int s" using assms by linarith
  then show ?thesis by simp
next
  case False
  then have "s = 0" "int (length tab) * 64 - 1 - (prec - 1) < 0" using assms by linarith+
  then show ?thesis using div_neg_pos_less0 [of "int (length tab) * 64 - 1 - (prec - 1)" 64]
    by (simp add: round_keep_def Let_def)
qed

text \<open>
  Rounding to \<open>prec\<close> binary digits when the exponent stays in its e_rng: the value of the result is
  the one of \<open>rounded\<close>, in every mode.
\<close>

lemma round_limbs_in_range:
  fixes r :: bf_t and l :: nat and flags :: u32
  defines "tab \<equiv> take l (bf_tab r)" and "e \<equiv> sint (bf_expn r)" and "e_rng \<equiv> (2 :: int) ^ (bf_get_exp_bits flags - 1)"
  assumes l: "1 \<le> l" "l \<le> length (bf_tab r)" and top: "bit (last tab) 63" and mode: "rnd_mode flags = Some mode"
    and flags: "flags AND BF_FLAG_RADPNT_PREC = 0" and e: "3 - e_rng \<le> e" "e < e_rng"
    and p: "1 \<le> prec" "int p = min prec (64 * int l)" "64 * l = s + p"
  shows "\<exists>r'. bf_round_limbs mem r prec flags l ret =
      Some (r', if mode = BF_RNDF \<or> limbs_val tab mod 2 ^ s \<noteq> 0 then ret OR BF_ST_INEXACT else ret) \<and>
    bf_wf r' \<and> bf_tab r' \<noteq> [] \<and> bf_sign r' = bf_sign r \<and>
    bf_val r' = (if bf_sign r then - 1 else 1) * (of_nat (rounded mode (bf_sign r) (limbs_val tab) s) * 2 powi (e - int p))"
proof -
  define V add where "V = limbs_val tab" and "add = round_adds mode (bf_sign r) V s"
  have tl: "length tab = l" using l by (simp add: tab_def)
  have p1: "1 \<le> p" using p l by linarith
  have add: "bf_get_rnd_add (bf_sign r) tab prec mode = (add, mode = BF_RNDF \<or> V mod 2 ^ s \<noteq> 0)"
    unfolding add_def V_def by (rule rnd_add_digits) (use p p1 tl in simp_all)
  define bp where "bp = int l * 64 - 1 - (prec - 1)"
  have bp: "bp = int s" if add
  proof -
    have "s \<noteq> 0" using that round_adds_zero by (metis add_def)
    then show ?thesis using p unfolding bp_def by linarith
  qed
  obtain t1 c where t1: "(t1, c) = (if add then round_up tab (nat (int s div 64)) (push_bit (nat (int s mod 64)) 1) else (tab, False))"
    by (cases "round_up tab (nat (int s div 64)) (push_bit (nat (int s mod 64)) 1)") (cases add; auto)
  obtain t where t: "round_keep t1 (int s) = Some t" "t \<noteq> []" "hd t \<noteq> 0" "bit (last t) 63" "length t1 = l"
    "limbs_val t * 2 ^ p * (if c then 2 else 1) = rounded mode (bf_sign r) V s * B ^ length t"
    using round_limbs_digits [OF tl l(1) top p1 p(3) t1 [unfolded add_def V_def]] unfolding V_def by blast
  have keep: "round_keep t1 bp = Some t" using round_keep_digits [of p prec t1 s] p t(1,5) by (simp add: bp_def)
  have tc: "(if add then round_up tab (nat (bp div 64)) (push_bit (nat (bp mod 64)) 1) else (tab, False)) = (t1, c)"
    using t1 bp by (cases add) simp_all
  have nb: "(add \<and> bp < 0) = False" using bp by auto
  have er: "e_rng \<le> 2 ^ 61" unfolding e_rng_def by (rule e_range)
  define x' where "x' = (if c then bf_expn r + 1 else bf_expn r)"
  have x': "sint x' = e + (if c then 1 else 0)"
    using sint_add_small [of "bf_expn r" 1] e er by (cases c) (simp_all add: x'_def e_def)
  have lim: "(sint x' < 3 - e_rng) = False" "(sint x' > e_rng) = False" using x' e by auto
  define r' where "r' = r\<lparr>bf_tab := t, bf_expn := x'\<rparr>"
  have pp: "round_prec r prec flags (3 - e_rng) = Some prec"
    using flags e by (simp add: round_prec_def e_def)
  have "bf_round_limbs mem r prec flags l ret = Some (r', if mode = BF_RNDF \<or> V mod 2 ^ s \<noteq> 0 then ret OR BF_ST_INEXACT else ret)"
    unfolding bf_round_limbs_def Let_def tab_def [symmetric] e_rng_def [symmetric] uminus_add_conv_diff pp option.case mode add prod.case
      bp_def [symmetric] nb if_False tc
    using p(1) lim keep by (simp add: x'_def [symmetric] r'_def)
  moreover have "\<bar>sint x'\<bar> < 2 ^ 63 - 2" using x' e er by (cases c) auto
  then have "bf_wf r'" using t finite_exp [of x'] by (simp add: bf_wf_def r'_def)
  moreover have "bf_val r' = (if bf_sign r then - 1 else 1) * (of_nat (rounded mode (bf_sign r) V s) * 2 powi (e - int p))"
  proof -
    have "(of_nat (limbs_val t) * 2 ^ p * (if c then 2 else 1) :: rat) = of_nat (rounded mode (bf_sign r) V s) * of_nat (B ^ length t)"
      using arg_cong [OF t(6), of "of_nat :: nat \<Rightarrow> rat"] by (cases c) simp_all
    then have q: "of_nat (limbs_val t) / of_nat (B ^ length t) * (if c then 2 else 1) = of_nat (rounded mode (bf_sign r) V s) / (2 ^ p :: rat)"
      by (simp add: field_simps)
    have x: "(2 :: rat) powi sint x' = (if c then 2 else 1) * 2 powi e"
      by (cases c) (simp_all add: x' power_int_add)
    have d: "(2 :: rat) powi (e - int p) = 2 powi e / 2 ^ p" by (simp add: power_int_diff)
    have "of_nat (limbs_val t) / of_nat (B ^ length t) * 2 powi sint x'
        = (of_nat (limbs_val t) / of_nat (B ^ length t) * (if c then 2 else 1)) * (2 powi e :: rat)"
      unfolding x by (simp only: mult.assoc)
    then have "of_nat (limbs_val t) / of_nat (B ^ length t) * 2 powi sint x'
        = of_nat (rounded mode (bf_sign r) V s) * (2 powi (e - int p) :: rat)"
      unfolding q d by simp
    then show ?thesis by (simp add: bf_val_def r'_def)
  qed
  ultimately show ?thesis using t(2) by (intro exI [of _ r']) (simp add: r'_def V_def)
qed

text \<open>In every branch the result is well formed, and there is one unless the code aborts.\<close>

lemma wf_special [simp]: "bf_wf (bf_set_nan r)" "bf_wf (bf_set_zero r b)" "bf_wf (bf_set_inf r b)"
  by (simp_all add: bf_wf_def bf_set_nan_def bf_set_zero_def bf_set_inf_def)

lemma wf_overflow: "1 \<le> prec \<Longrightarrow> \<exists>r' ret. bf_set_overflow mem r sign prec flags mode = Some (r', ret) \<and> bf_wf r'"
proof -
  assume p: "1 \<le> prec"
  define k l where "k = nat ((- prec) mod 64)" and "l = nat ((prec + 63) div 64)"
  have k: "k < 64" using pos_mod_bound [of 64 "- prec"] by (simp add: k_def nat_less_iff)
  have "bit (limb_mask k 63) 63"
  proof (cases "k = 0")
    case True
    then show ?thesis by (simp add: limb_mask_def)
  next
    case False
    have "63 - k < 64" "63 - k < 64 - k" using k by linarith+
    then show ?thesis using k False by (simp add: limb_mask_high bit_simps)
  qed
  moreover from this have "limb_mask k 63 \<noteq> 0" by auto
  ultimately have t: "hd (limb_mask k 63 # replicate (l - 1) (- 1)) \<noteq> 0" "bit (last (limb_mask k 63 # replicate (l - 1) (- 1))) 63"
    by (auto simp: last_replicate)
  have "\<bar>2 ^ (bf_get_exp_bits flags - 1)\<bar> < (2 ^ 63 - 2 :: int)" using e_range [of flags] by simp
  then have "of_int (2 ^ (bf_get_exp_bits flags - 1)) \<notin> {BF_EXP_ZERO, BF_EXP_INF, BF_EXP_NAN}"
    by (intro finite_exp) (subst sint_s64_small, simp_all)
  then have "bf_wf (r\<lparr>bf_tab := limb_mask k 63 # replicate (l - 1) (- 1), bf_expn := of_int (2 ^ (bf_get_exp_bits flags - 1)), bf_sign := sign\<rparr>)"
    using t by (simp add: bf_wf_def)
  moreover have "(l = 0) = False" using p by (simp add: l_def)
  ultimately show ?thesis
    unfolding bf_set_overflow_def Let_def k_def [symmetric] l_def [symmetric] by (simp add: bf_resize_def)
qed


text \<open>The branch in which digits are kept, for whatever precision the flags lead to.\<close>

lemma round_limbs_wf:
  fixes r :: bf_t and l :: nat and flags :: u32
  defines "tab \<equiv> take l (bf_tab r)"
  assumes l: "1 \<le> l" "l \<le> length (bf_tab r)" and top: "bit (last tab) 63" and mode: "rnd_mode flags = Some mode"
    and e: "\<bar>sint (bf_expn r)\<bar> \<le> 2 ^ 62" and p: "1 \<le> prec1" "prec1 \<le> BF_PREC_INF"
    and sub: "prec1 = BF_PREC_INF \<Longrightarrow> flags AND BF_FLAG_SUBNORMAL = 0"
  shows "\<exists>r' ret'. bf_round_limbs mem r prec1 flags l ret = Some (r', ret') \<and> bf_wf r'"
proof -
  define e_rng where "e_rng = (2 :: int) ^ (bf_get_exp_bits flags - 1)"
  have er: "0 < e_rng" "e_rng \<le> 2 ^ 61" using e_range [of flags] by (simp_all add: e_rng_def)
  have tl: "length tab = l" using l by (simp add: tab_def)
  have P: "prec1 \<le> 2 ^ 62 - 1" using p by (simp add: BF_PREC_INF_def)
  define prec where "prec = (if flags AND BF_FLAG_RADPNT_PREC \<noteq> 0
      then (if prec1 \<noteq> BF_PREC_INF then sint (bf_expn r) + prec1 else prec1)
      else if sint (bf_expn r) < - e_rng + 3 \<and> flags AND BF_FLAG_SUBNORMAL \<noteq> 0
      then prec1 - (- e_rng + 3 - sint (bf_expn r)) else prec1)"
  have prec: "round_prec r prec1 flags (- e_rng + 3) = Some prec"
    using sub by (auto simp: round_prec_def prec_def)
  have prec2: "\<bar>sint (bf_expn r) + (1 - prec)\<bar> < 2 ^ 63 - 2" if "prec \<le> 0"
  proof -
    have "prec \<in> {sint (bf_expn r) + prec1, prec1, prec1 - (- e_rng + 3 - sint (bf_expn r))}" by (simp add: prec_def)
    then show ?thesis using that p P e er by auto
  qed
  obtain add inexact where ra: "bf_get_rnd_add (bf_sign r) tab prec mode = (add, inexact)"
    by (cases "bf_get_rnd_add (bf_sign r) tab prec mode")
  define ret1 where "ret1 = (if inexact then ret OR BF_ST_INEXACT else ret)"
  define bp where "bp = int l * 64 - 1 - (prec - 1)"
  note unf = bf_round_limbs_def Let_def tab_def [symmetric] e_rng_def [symmetric] prec option.case mode ra prod.case bp_def [symmetric]
  show ?thesis
  proof (cases "prec \<le> 0")
    case True
    define r1 where "r1 = r\<lparr>bf_tab := [push_bit 63 1], bf_expn := bf_expn r + of_int (1 - prec)\<rparr>"
    have x: "\<bar>sint (bf_expn r) + (1 - prec)\<bar> < 2 ^ 63 - 2" by (rule prec2 [OF True])
    then have "sint (bf_expn r + of_int (1 - prec)) = sint (bf_expn r) + (1 - prec)" by (intro sint_add_small) linarith
    then have "bf_expn r + of_int (1 - prec) \<notin> {BF_EXP_ZERO, BF_EXP_INF, BF_EXP_NAN}" using x by (intro finite_exp) (simp only:)
    then have "bf_wf r1" by (simp add: r1_def bf_wf_def bit_push_bit_iff)
    then show ?thesis using True unfolding unf by (cases add) (simp_all add: r1_def bf_underflow_def)
  next
    case False
    define p where "p = nat (min prec (64 * int l))"
    define s where "s = 64 * l - p"
    have ps: "1 \<le> p" "int p = min prec (64 * int l)" "64 * l = s + p" using False l by (simp_all add: p_def s_def)
    have "add = round_adds mode (bf_sign r) (limbs_val tab) s"
      using rnd_add_digits [of p prec tab s "bf_sign r" mode] ps tl ra by simp
    note add = this
    have bp: "bp = int s" if add
    proof -
      have "s \<noteq> 0" using that round_adds_zero by (metis add)
      then show ?thesis using ps unfolding bp_def by linarith
    qed
    obtain t1 c where t1: "(t1, c) = (if add then round_up tab (nat (int s div 64)) (push_bit (nat (int s mod 64)) 1) else (tab, False))"
      by (cases "round_up tab (nat (int s div 64)) (push_bit (nat (int s mod 64)) 1)") (cases add; auto)
    obtain t where t: "round_keep t1 (int s) = Some t" "t \<noteq> []" "hd t \<noteq> 0" "bit (last t) 63" "length t1 = l"
      using round_limbs_digits [OF tl l(1) top ps(1,3) t1 [unfolded add]] by blast
    have keep: "round_keep t1 bp = Some t" using round_keep_digits [of p prec t1 s] ps t(1,5) by (simp add: bp_def)
    have tc: "(if add then round_up tab (nat (bp div 64)) (push_bit (nat (bp mod 64)) 1) else (tab, False)) = (t1, c)"
      using t1 bp by (cases add) simp_all
    have nb: "(add \<and> bp < 0) = False" using bp by auto
    define x' where "x' = (if c then bf_expn r + 1 else bf_expn r)"
    have x': "sint x' = sint (bf_expn r) + (if c then 1 else 0)"
      using sint_add_small [of "bf_expn r" 1] e by (cases c) (simp_all add: x'_def)
    then have "\<bar>sint x'\<bar> < 2 ^ 63 - 2" using e by (cases c) auto
    then have wf: "bf_wf (r\<lparr>bf_expn := x', bf_tab := t\<rparr>)" using t finite_exp [of x'] by (simp add: bf_wf_def)
    note ov = wf_overflow [OF p(1), of mem _ _ flags mode]
    show ?thesis
      using False keep ov wf unfolding unf nb if_False tc
      by (auto simp: bf_underflow_def simp flip: x'_def)
  qed
qed

end
