(* ===== verification/BigNorm.thy ===== *)
theory BigNorm
  imports BigRound
begin

text \<open>
  \<open>bf_normalize_and_round\<close> and \<open>bf_mul\<close> of \<open>quickjs/libbf.c\<close> against rational numbers: \<open>round_to\<close> is
  the rounding of a number to an integer in each mode, and the functions return the operand, or the
  product, rounded to \<open>prec\<close> digits.
\<close>

section \<open>Rounding rational numbers\<close>

definition round_to :: "bf_rnd_t \<Rightarrow> bool \<Rightarrow> rat \<Rightarrow> int" where
  "round_to mode sign y = (case mode of
      BF_RNDZ \<Rightarrow> \<lfloor>y\<rfloor>
    | BF_RNDN \<Rightarrow> if y - of_int \<lfloor>y\<rfloor> > 1 / 2 \<or> (y - of_int \<lfloor>y\<rfloor> = 1 / 2 \<and> odd \<lfloor>y\<rfloor>) then \<lfloor>y\<rfloor> + 1 else \<lfloor>y\<rfloor>
    | BF_RNDD \<Rightarrow> if sign then \<lceil>y\<rceil> else \<lfloor>y\<rfloor>
    | BF_RNDU \<Rightarrow> if sign then \<lfloor>y\<rfloor> else \<lceil>y\<rceil>
    | BF_RNDA \<Rightarrow> \<lceil>y\<rceil>
    | BF_RNDNA \<Rightarrow> \<lfloor>y + 1 / 2\<rfloor>
    | BF_RNDF \<Rightarrow> \<lfloor>y + 1 / 2\<rfloor>)"

lemma rounded_round_to: "int (rounded mode sign v s) = round_to mode sign (of_nat v / 2 ^ s)"
proof -
  define q m where "q = v div 2 ^ s" and "m = v mod 2 ^ s"
  define y f :: rat where "y = of_nat v / 2 ^ s" and "f = of_nat m / 2 ^ s"
  have v: "v = 2 ^ s * q + m" "m < 2 ^ s" by (simp_all add: q_def m_def)
  have y: "y = of_nat q + f" unfolding y_def f_def v(1) by (simp add: field_simps)
  have "(of_nat m :: rat) < 2 ^ s" using v(2) by (metis of_nat_less_iff of_nat_numeral of_nat_power)
  then have f: "0 \<le> f" "f < 1" by (simp_all add: f_def)
  have fl: "\<lfloor>y\<rfloor> = int q" using f unfolding y by (simp add: floor_unique)
  have ce: "\<lceil>y\<rceil> = (if m = 0 then int q else int q + 1)"
  proof (cases "m = 0")
    case True
    then show ?thesis using y by (simp add: f_def)
  next
    case False
    then have "0 < f" by (simp add: f_def)
    then show ?thesis using f False unfolding y by (simp add: ceiling_unique)
  qed
  have half: "f > 1 / 2 \<longleftrightarrow> 2 * m > 2 ^ s" "f = 1 / 2 \<longleftrightarrow> 2 * m = 2 ^ s" "f \<ge> 1 / 2 \<longleftrightarrow> 2 * m \<ge> 2 ^ s"
  proof -
    have c: "f > 1 / 2 \<longleftrightarrow> of_nat (2 ^ s) < (of_nat (2 * m) :: rat)" "f = 1 / 2 \<longleftrightarrow> of_nat (2 * m) = (of_nat (2 ^ s) :: rat)"
      "f \<ge> 1 / 2 \<longleftrightarrow> of_nat (2 ^ s) \<le> (of_nat (2 * m) :: rat)"
      by (auto simp add: f_def field_simps)
    show "f > 1 / 2 \<longleftrightarrow> 2 * m > 2 ^ s" "f = 1 / 2 \<longleftrightarrow> 2 * m = 2 ^ s" "f \<ge> 1 / 2 \<longleftrightarrow> 2 * m \<ge> 2 ^ s"
      unfolding c by (simp_all only: of_nat_less_iff of_nat_eq_iff of_nat_le_iff)
  qed
  have fh: "\<lfloor>y + 1 / 2\<rfloor> = (if f \<ge> 1 / 2 then int q + 1 else int q)"
    using f unfolding y by (auto intro: floor_unique)
  have yf: "y - of_int (int q) = f" unfolding y by simp
  show ?thesis
    unfolding rounded_def round_adds_def Let_def q_def [symmetric] m_def [symmetric] round_to_def y_def [symmetric] fl ce fh yf half
    by (cases mode) auto
qed

section \<open>Normalisation\<close>

lemma leading_zeros_bit: "leading_zeros a n < n \<Longrightarrow> bit a (n - 1 - leading_zeros a n)"
  "n - leading_zeros a n \<le> i \<Longrightarrow> i < n \<Longrightarrow> \<not> bit a i" "leading_zeros a n \<le> n"
proof -
  show "leading_zeros a n < n \<Longrightarrow> bit a (n - 1 - leading_zeros a n)" by (induction n) auto
  show "n - leading_zeros a n \<le> i \<Longrightarrow> i < n \<Longrightarrow> \<not> bit a i"
    by (induction n) (auto split: if_splits simp: less_Suc_eq)
  show "leading_zeros a n \<le> n" by (induction n) auto
qed

lemma clz_val:
  assumes "a \<noteq> 0"
  shows "clz a < 64" "2 ^ clz a * unat a < B" "B \<le> 2 * (2 ^ clz a * unat a)"
proof -
  define z where "z = leading_zeros a 64"
  have c: "clz a = z" using assms by (simp add: clz_def z_def)
  have hi: "\<not> bit a i" if "64 - z \<le> i" for i
    using leading_zeros_bit(2) [of 64 a i] that bit_imp_le_length [of a i] by (cases "i < 64") (auto simp: z_def)
  have z64: "z \<le> 64" using leading_zeros_bit(3) [of a 64] by (simp add: z_def)
  have "z < 64"
  proof (rule ccontr)
    assume "\<not> z < 64"
    then have "a = 0" using hi by (intro bit_word_eqI) simp
    then show False using assms by simp
  qed
  then show "clz a < 64" by (simp add: c)
  have "bit a (63 - z)" using leading_zeros_bit(1) [of a 64] \<open>z < 64\<close> by (simp add: z_def)
  then have "bit (unat a) (63 - z)" by (simp add: bit_unsigned_iff)
  then have low: "2 ^ (63 - z) \<le> unat a"
    by (metis bit_iff_odd div_less even_zero not_le)
  have "take_bit (64 - z) a = a"
  proof (rule bit_word_eqI)
    fix n
    show "bit (take_bit (64 - z) a) n = bit a n" using hi [of n] by (cases "64 - z \<le> n") (auto simp: bit_take_bit_iff)
  qed
  then have "unat a < 2 ^ (64 - z)" by (metis unsigned_take_bit_eq take_bit_nat_less_exp)
  then have "2 ^ z * unat a < 2 ^ z * 2 ^ (64 - z)" by simp
  also have "\<dots> = B" using z64 by (simp add: B_def flip: power_add)
  finally show "2 ^ clz a * unat a < B" by (simp add: c)
  have "B = 2 * (2 ^ z * 2 ^ (63 - z))" using \<open>z < 64\<close> by (simp add: B_def flip: power_add power_Suc)
  also have "\<dots> \<le> 2 * (2 ^ z * unat a)" using low by simp
  finally show "B \<le> 2 * (2 ^ clz a * unat a)" by (simp add: c)
qed

lemma norm_shift_val:
  assumes sh: "1 \<le> sh" "sh < 64"
  shows "limbs_val (norm_shift tab sh v) = (2 ^ sh * limbs_val tab + unat v div 2 ^ (64 - sh)) mod B ^ length tab
    \<and> length (norm_shift tab sh v) = length tab"
proof (induction tab arbitrary: v)
  case (Cons a tab)
  define s where "s = 64 - sh"
  have s: "1 \<le> s" "s < 64" "64 - s = sh" using sh by (simp_all add: s_def)
  define x where "x = push_bit sh a OR drop_bit s v"
  have e1: "2 ^ s * unat x + unat v mod 2 ^ s = unat v + B * (unat a mod 2 ^ s)"
    using shr_limb [OF s(1,2), of v a] by (simp only: x_def s(3) or.commute)
  have "s + sh = 64" using s by simp
  then have B': "B = 2 ^ s * 2 ^ sh" by (simp add: B_def flip: power_add)
  have "unat v = 2 ^ s * (unat v div 2 ^ s) + unat v mod 2 ^ s" by simp
  then have "2 ^ s * unat x = 2 ^ s * (unat v div 2 ^ s) + B * (unat a mod 2 ^ s)" using e1 by linarith
  then have "2 ^ s * unat x = 2 ^ s * (unat v div 2 ^ s + 2 ^ sh * (unat a mod 2 ^ s))" unfolding B' by (simp add: algebra_simps)
  then have x: "unat x = unat v div 2 ^ s + 2 ^ sh * (unat a mod 2 ^ s)" by simp
  have a: "2 ^ sh * unat a = B * (unat a div 2 ^ s) + 2 ^ sh * (unat a mod 2 ^ s)"
  proof -
    have "2 ^ sh * unat a = 2 ^ sh * (2 ^ s * (unat a div 2 ^ s) + unat a mod 2 ^ s)" by simp
    also have "\<dots> = 2 ^ s * 2 ^ sh * (unat a div 2 ^ s) + 2 ^ sh * (unat a mod 2 ^ s)" by (simp only: algebra_simps)
    finally show ?thesis by (simp only: B')
  qed
  define y where "y = 2 ^ sh * limbs_val tab + unat a div 2 ^ s"
  have IH: "limbs_val (norm_shift tab sh a) = y mod B ^ length tab" "length (norm_shift tab sh a) = length tab"
    using Cons.IH [of a] by (simp_all add: y_def s_def)
  have "2 ^ sh * limbs_val (a # tab) + unat v div 2 ^ s = B * y + unat x"
    unfolding y_def limbs_val.simps distrib_left a x by (simp add: algebra_simps)
  also have "(B * y + unat x) mod B ^ length (a # tab) = B * (y mod B ^ length tab) + unat x"
    using mod_mult2_eq [of "B * y + unat x" B "B ^ length tab"] limb_less [of x] by (simp add: mult.commute)
  finally show ?case using IH by (simp add: x_def s_def [symmetric])
qed simp

lemma top_limbs_take:
  assumes "limbs_val tab \<noteq> 0"
  defines "l \<equiv> top_limbs tab"
  shows "1 \<le> l" "l \<le> length tab" "limbs_val (take l tab) = limbs_val tab" "tab ! (l - 1) \<noteq> 0"
proof -
  define t z where "t = dropWhile (\<lambda>x. x = 0) (rev tab)" and "z = takeWhile (\<lambda>x. x = 0) (rev tab)"
  have l: "l = length t" by (simp add: l_def top_limbs_def t_def)
  have "rev tab = z @ t" by (simp add: t_def z_def)
  then have tab: "tab = rev t @ rev z" by (metis rev_append rev_rev_ident)
  have zero: "limbs_val xs = 0" if "\<forall>x \<in> set xs. x = 0" for xs using that by (induction xs) simp_all
  have z: "limbs_val (rev z) = 0" by (rule zero) (auto simp: z_def dest: set_takeWhileD)
  have v: "limbs_val (rev t) = limbs_val tab" by (subst tab) (simp add: limbs_val_append z)
  then have ne: "t \<noteq> []" using assms(1) by auto
  then show "1 \<le> l" by (cases t) (simp_all add: l)
  show "l \<le> length tab" by (simp add: tab l)
  have tk: "take l tab = rev t" by (subst tab) (simp add: l)
  then show "limbs_val (take l tab) = limbs_val tab" using v by simp
  have "l - 1 < length (rev t)" using ne by (cases t) (simp_all add: l)
  then have "tab ! (l - 1) = rev t ! (l - 1)" by (subst tab) (simp only: nth_append if_True)
  also have "\<dots> = hd t" using ne by (simp add: rev_nth l hd_conv_nth)
  also have "\<dots> \<noteq> 0" using ne hd_dropWhile [of "\<lambda>x. x = 0" "rev tab"] by (simp add: t_def)
  finally show "tab ! (l - 1) \<noteq> 0" .
qed

lemma normalized_limbs:
  assumes "limbs_val tab \<noteq> 0"
  defines "l \<equiv> top_limbs tab"
  defines "sh \<equiv> clz (tab ! (l - 1))"
  defines "tab1 \<equiv> (if sh \<noteq> 0 then norm_shift (take l tab) sh 0 else take l tab)"
  shows "length tab1 = l" "limbs_val tab1 = 2 ^ sh * limbs_val tab" "bit (last tab1) 63" "sh < 64"
proof -
  note l = top_limbs_take [OF assms(1), folded l_def]
  note c = clz_val [OF l(4), folded sh_def]
  show "sh < 64" by (rule c(1))
  define t where "t = take l tab"
  have t: "length t = l" "limbs_val t = limbs_val tab" "t \<noteq> []" using l by (auto simp: t_def)
  then have tl: "last t = tab ! (l - 1)" using l(1) by (simp add: last_conv_nth t_def)
  have B: "B ^ l = B * B ^ (l - 1)" using l(1) by (cases l) simp_all
  have lv: "unat (last t) * B ^ (l - 1) \<le> limbs_val t" "limbs_val t < (unat (last t) + 1) * B ^ (l - 1)"
    using limbs_val_last [OF t(3)] by (simp_all add: t(1))
  have fits: "2 ^ sh * limbs_val t < B ^ l"
  proof -
    have "2 ^ sh * (unat (last t) + 1) \<le> B"
    proof -
      have "2 ^ sh * (2 ^ (64 - sh)) = B" using c(1) by (simp add: B_def flip: power_add)
      moreover have "unat (last t) < 2 ^ (64 - sh)"
        using c(1,2) unfolding tl [symmetric] by (metis calculation mult_less_cancel1)
      ultimately show ?thesis by (metis Suc_eq_plus1 Suc_leI mult_le_mono2)
    qed
    then have "2 ^ sh * (unat (last t) + 1) * B ^ (l - 1) \<le> B * B ^ (l - 1)" by (rule mult_le_mono1)
    moreover have "2 ^ sh * limbs_val t < 2 ^ sh * (unat (last t) + 1) * B ^ (l - 1)"
      unfolding mult.assoc using lv(2) by (intro mult_strict_left_mono) simp_all
    ultimately show ?thesis unfolding B by (rule order_less_le_trans [rotated])
  qed
  have t1: "length tab1 = l \<and> limbs_val tab1 = 2 ^ sh * limbs_val t"
  proof (cases "sh = 0")
    case True
    then show ?thesis using t by (simp add: tab1_def t_def)
  next
    case False
    then show ?thesis using norm_shift_val [of sh t 0] c(1) fits t(1) by (simp add: tab1_def t_def [symmetric])
  qed
  then show "length tab1 = l" "limbs_val tab1 = 2 ^ sh * limbs_val tab" by (simp_all add: t(2))
  have "(2 ^ sh * unat (last t)) * B ^ (l - 1) \<le> limbs_val tab1"
    using t1 mult_le_mono2 [OF lv(1), of "2 ^ sh"] by (simp add: mult.assoc)
  then have "B \<le> 2 * unat (last tab1)"
    using norm_top [of tab1 "l - 1" "2 ^ sh * unat (last t)"] c(3) t1 l(1) by (simp add: tl)
  then show "bit (last tab1) 63" by (simp add: limb_top_bit)
qed

section \<open>The rounded value\<close>

lemma round_to_int: "round_to mode sign (of_int k) = k"
proof -
  have "\<lfloor>of_int k + 1 / 2 :: rat\<rfloor> = k" by (rule floor_unique) simp_all
  then show ?thesis by (cases mode) (simp_all add: round_to_def)
qed

lemma powi_less: "(2 :: rat) powi a < 2 powi b \<Longrightarrow> a < b"
  by (meson linorder_not_less power_int_increasing one_le_numeral)

lemma powi_exponent:
  assumes "(2 :: rat) powi (a - 1) \<le> x" "x < 2 powi a" "(2 :: rat) powi (b - 1) \<le> x" "x < 2 powi b"
  shows "a = b"
  using powi_less [of "a - 1" b] powi_less [of "b - 1" a] assms by force

lemma B_powi: "(of_nat (B ^ n) :: rat) = 2 powi int (64 * n)"
proof -
  have "(of_nat (B ^ n) :: rat) = 2 ^ (64 * n)" by (simp add: B_pow)
  then show ?thesis by (simp only: power_int_of_nat)
qed

text \<open>A normalised mantissa \<open>V / B\<^sup>l\<close> lies between a half and one.\<close>

lemma mantissa_bounds:
  assumes "length tab = l" "1 \<le> l" "bit (last tab) 63"
  shows "(2 :: rat) powi (e - 1) \<le> of_nat (limbs_val tab) / of_nat (B ^ l) * 2 powi e"
    and "of_nat (limbs_val tab) / of_nat (B ^ l) * 2 powi e < (2 :: rat) powi e"
proof -
  have ne: "tab \<noteq> []" using assms by auto
  have "B ^ l \<le> 2 * limbs_val tab" using norm_divisor(1) [of tab] ne assms by (simp add: limb_top_bit)
  then have lo: "(of_nat (B ^ l) :: rat) \<le> 2 * of_nat (limbs_val tab)" by (metis of_nat_le_iff of_nat_mult of_nat_numeral)
  have hi: "(of_nat (limbs_val tab) :: rat) < of_nat (B ^ l)"
    using limbs_val_less [of tab] assms(1) by (simp only: of_nat_less_iff)
  have b: "(0 :: rat) < of_nat (B ^ l)" by simp
  have e: "(2 :: rat) powi (e - 1) = 2 powi e / 2" by (simp add: power_int_diff)
  have p: "(0 :: rat) < 2 powi e" by simp
  have "1 / 2 \<le> of_nat (limbs_val tab) / (of_nat (B ^ l) :: rat)" using lo b by (simp add: field_simps del: of_nat_power)
  from mult_right_mono [OF this, of "2 powi e"] p show "(2 :: rat) powi (e - 1) \<le> of_nat (limbs_val tab) / of_nat (B ^ l) * 2 powi e"
    unfolding e by simp
  have "of_nat (limbs_val tab) / (of_nat (B ^ l) :: rat) < 1" using hi b by (simp add: field_simps del: of_nat_power)
  from mult_strict_right_mono [OF this p] show "of_nat (limbs_val tab) / of_nat (B ^ l) * 2 powi e < (2 :: rat) powi e" by simp
qed

text \<open>The two forms of the rounded mantissa agree, also when there are fewer digits than asked for.\<close>

lemma rounded_digits:
  fixes V :: nat and e :: int
  assumes p: "1 \<le> prec" "int p = min prec (64 * int l)" "64 * l = s + p"
  defines "x \<equiv> of_nat V / of_nat (B ^ l) * (2 :: rat) powi e"
  shows "of_nat (rounded mode sign V s) * (2 :: rat) powi (e - int p) = of_int (round_to mode sign (x * 2 powi (prec - e))) * 2 powi (e - prec)"
    and "of_nat (rounded mode sign V s) * (2 :: rat) powi (e - int p) = x \<longleftrightarrow> V mod 2 ^ s = 0"
proof -
  have Bl: "(of_nat (B ^ l) :: rat) = 2 ^ s * 2 ^ p" unfolding B_pow using p(3) by (simp add: power_add)
  have x: "x = of_nat V / 2 ^ s * 2 powi (e - int p)"
    unfolding x_def Bl by (simp add: power_int_diff)
  show "of_nat (rounded mode sign V s) * (2 :: rat) powi (e - int p) = of_int (round_to mode sign (x * 2 powi (prec - e))) * 2 powi (e - prec)"
  proof (cases "prec \<le> 64 * int l")
    case True
    then have pp: "int p = prec" using p by linarith
    have "x * 2 powi (prec - e) = of_nat V / 2 ^ s" unfolding x pp by (simp add: power_int_diff)
    then show ?thesis using rounded_round_to [of mode sign V s] by (simp add: pp)
  next
    case False
    then have s: "s = 0" "int p = 64 * int l" "0 \<le> prec - int p" using p by linarith+
    define k where "k = nat (prec - int p)"
    have k: "prec = int p + int k" using s(3) by (simp add: k_def)
    have "x * 2 powi (prec - e) = of_nat V * 2 ^ k" unfolding x k s(1) by (simp add: power_int_diff power_int_add)
    also have "\<dots> = of_int (int V * 2 ^ k)" by simp
    finally have r: "round_to mode sign (x * 2 powi (prec - e)) = int V * 2 ^ k" using round_to_int by (simp only:)
    have "rounded mode sign V s = V" by (simp add: rounded_def s(1) round_adds_zero)
    then show ?thesis unfolding r by (simp add: k power_int_diff power_int_add)
  qed
  have "of_nat (rounded mode sign V s) * (2 :: rat) powi (e - int p) = x \<longleftrightarrow> of_nat (rounded mode sign V s) = of_nat V / (2 ^ s :: rat)"
    unfolding x mult_cancel_right by simp
  also have "\<dots> \<longleftrightarrow> of_nat (rounded mode sign V s * 2 ^ s) = (of_nat V :: rat)" by (simp add: field_simps)
  also have "\<dots> \<longleftrightarrow> rounded mode sign V s * 2 ^ s = V" by (simp only: of_nat_eq_iff)
  also have "\<dots> \<longleftrightarrow> V mod 2 ^ s = 0"
  proof
    assume "rounded mode sign V s * 2 ^ s = V"
    then show "V mod 2 ^ s = 0" by (metis mod_mult_self2_is_0)
  next
    assume m: "V mod 2 ^ s = 0"
    then have "\<not> round_adds mode sign V s" by (cases mode) (simp_all add: round_adds_def)
    then show "rounded mode sign V s * 2 ^ s = V" using m by (simp add: rounded_def mod_0_imp_dvd)
  qed
  finally show "of_nat (rounded mode sign V s) * (2 :: rat) powi (e - int p) = x \<longleftrightarrow> V mod 2 ^ s = 0" .
qed

section \<open>\<open>bf_normalize_and_round\<close>\<close>

text \<open>It rounds a number with the same value and a normalised mantissa.\<close>

lemma normalize_step:
  assumes V: "limbs_val (bf_tab r) \<noteq> 0" and size: "length (bf_tab r) < 2 ^ 50" "\<bar>sint (bf_expn r)\<bar> \<le> 2 ^ 62 - 2 ^ 57"
  obtains r1 l where
    "\<And>mem prec flags. bf_normalize_and_round mem r prec flags = bf_round_limbs mem r1 prec flags l 0"
    "1 \<le> l" "l \<le> length (bf_tab r1)" "l \<le> length (bf_tab r)" "bit (last (take l (bf_tab r1))) 63" "bf_sign r1 = bf_sign r"
    "\<bar>sint (bf_expn r1)\<bar> \<le> 2 ^ 62"
    "\<bar>bf_val r\<bar> = of_nat (limbs_val (take l (bf_tab r1))) / of_nat (B ^ l) * 2 powi sint (bf_expn r1)"
proof -
  define tab l where "tab = bf_tab r" and "l = top_limbs tab"
  define sh where "sh = clz (tab ! (l - 1))"
  define tab1 where "tab1 = (if sh \<noteq> 0 then norm_shift (take l tab) sh 0 else take l tab)"
  note V' = V [folded tab_def]
  note l = top_limbs_take [OF V', folded l_def]
  note n = normalized_limbs [OF V', folded l_def, folded sh_def, folded tab1_def]
  define expn where "expn = bf_expn r - of_nat ((length tab - l) * 64)"
  define r1 where "r1 = (if sh \<noteq> 0 then r\<lparr>bf_tab := norm_shift (take l tab) sh 0 @ drop l tab, bf_expn := expn - of_nat sh\<rparr>
      else r\<lparr>bf_expn := expn\<rparr>)"
  have l0: "(l = 0) = False" "take l tab ! (l - 1) = tab ! (l - 1)" using l(1) by simp_all
  have r: "bf_normalize_and_round mem r prec flags = bf_round_limbs mem r1 prec flags l 0" for mem prec flags
    unfolding bf_normalize_and_round_def Let_def tab_def [symmetric] l_def [symmetric] l0 if_False sh_def [symmetric]
      expn_def [symmetric] r1_def [symmetric] by (rule refl)
  have ns: "length (norm_shift (take l tab) sh 0) = l" if "sh \<noteq> 0"
    using norm_shift_val [of sh "take l tab" 0] that n(4) l(2) by simp
  have tk: "take l (bf_tab r1) = tab1" "l \<le> length (bf_tab r1)"
    using ns l(2) by (auto simp: r1_def tab1_def tab_def)
  define k where "k = int ((length tab - l) * 64) + int sh"
  have k: "0 \<le> k" "k \<le> 64 * int (length tab) + 63" using n(4) by (auto simp: k_def)
  have "int (length tab) < 2 ^ 50" using size(1) by (simp add: tab_def zless_nat_eq_int_zless [symmetric])
  then have kb: "k < 2 ^ 57" using k(2) by simp
  have "bf_expn r1 = bf_expn r + of_int (- k)"
    by (cases "sh = 0") (simp_all add: r1_def expn_def k_def of_nat_diff)
  moreover have "sint (bf_expn r + of_int (- k)) = sint (bf_expn r) + - k" using size(2) k(1) kb by (intro sint_add_small) (simp add: abs_le_iff abs_less_iff)
  ultimately have e: "sint (bf_expn r1) = sint (bf_expn r) - k" by simp
  have "\<bar>sint (bf_expn r1)\<bar> \<le> 2 ^ 62" using e size(2) k(1) kb by linarith
  moreover have "\<bar>bf_val r\<bar> = of_nat (limbs_val tab1) / of_nat (B ^ l) * 2 powi sint (bf_expn r1)"
  proof -
    have a: "\<bar>bf_val r\<bar> = of_nat (limbs_val tab) / of_nat (B ^ length tab) * 2 powi sint (bf_expn r)"
      by (simp add: bf_val_def tab_def abs_mult del: of_nat_power)
    have B: "(of_nat (B ^ length tab) :: rat) = of_nat (B ^ l) * 2 ^ (64 * (length tab - l))"
      using l(2) by (simp add: B_pow flip: power_add)
    have "(2 :: rat) powi k = 2 ^ (64 * (length tab - l)) * 2 ^ sh"
      by (simp add: k_def power_int_add mult.commute flip: power_int_of_nat)
    then have p: "(2 :: rat) powi sint (bf_expn r1) = 2 powi sint (bf_expn r) / (2 ^ (64 * (length tab - l)) * 2 ^ sh)"
      by (simp add: e power_int_diff)
    have v: "(of_nat (limbs_val tab1) :: rat) = 2 ^ sh * of_nat (limbs_val tab)" unfolding n(2) by simp
    show ?thesis unfolding a B p v by (simp del: of_nat_power)
  qed
  ultimately show ?thesis
    using that [of r1 l] r l(1,2) tk n(3) by (simp add: r1_def tab_def)
qed

lemma normalize_val:
  assumes V: "limbs_val (bf_tab r) \<noteq> 0" and size: "length (bf_tab r) < 2 ^ 50" "\<bar>sint (bf_expn r)\<bar> \<le> 2 ^ 62 - 2 ^ 57"
    and mode: "rnd_mode flags = Some mode" and flags: "flags AND BF_FLAG_RADPNT_PREC = 0" and prec: "1 \<le> prec"
    and x: "2 powi (e - 1) \<le> \<bar>bf_val r\<bar>" "\<bar>bf_val r\<bar> < 2 powi e"
    and e: "3 - 2 ^ (bf_get_exp_bits flags - 1) \<le> e" "e < 2 ^ (bf_get_exp_bits flags - 1)"
  shows "\<exists>r' ret. bf_normalize_and_round mem r prec flags = Some (r', ret) \<and> bf_wf r' \<and> bf_sign r' = bf_sign r \<and>
    bf_val r' = (if bf_sign r then - 1 else 1) *
      (of_int (round_to mode (bf_sign r) (\<bar>bf_val r\<bar> * 2 powi (prec - e))) * 2 powi (e - prec)) \<and>
    ret = (if mode = BF_RNDF \<or> bf_val r' \<noteq> bf_val r then BF_ST_INEXACT else 0) \<and>
    (64 * int (length (bf_tab r)) \<le> prec \<longrightarrow> bf_val r' = bf_val r)"
proof -
  obtain r1 l where n: "\<And>mem prec flags. bf_normalize_and_round mem r prec flags = bf_round_limbs mem r1 prec flags l 0"
    "1 \<le> l" "l \<le> length (bf_tab r1)" "l \<le> length (bf_tab r)" "bit (last (take l (bf_tab r1))) 63" "bf_sign r1 = bf_sign r"
    "\<bar>sint (bf_expn r1)\<bar> \<le> 2 ^ 62"
    "\<bar>bf_val r\<bar> = of_nat (limbs_val (take l (bf_tab r1))) / of_nat (B ^ l) * 2 powi sint (bf_expn r1)"
    by (rule normalize_step [OF V size]) blast
  define t where "t = take l (bf_tab r1)"
  have tl: "length t = l" using n(3) by (simp add: t_def)
  have ee: "sint (bf_expn r1) = e"
    using powi_exponent [OF mantissa_bounds [OF tl n(2) n(5) [folded t_def], of "sint (bf_expn r1)"], of e] x n(8)
    by (simp add: t_def)
  define p s where "p = nat (min prec (64 * int l))" and "s = 64 * l - p"
  have ps: "int p = min prec (64 * int l)" "64 * l = s + p" using prec n(2) by (simp_all add: p_def s_def)
  define y where "y = of_nat (rounded mode (bf_sign r) (limbs_val t) s) * (2 :: rat) powi (e - int p)"
  from round_limbs_in_range [OF n(2,3,5) mode flags _ _ prec ps, of mem 0] e obtain r' where
    r': "bf_round_limbs mem r1 prec flags l 0 = Some (r', if mode = BF_RNDF \<or> limbs_val t mod 2 ^ s \<noteq> 0 then 0 OR BF_ST_INEXACT else 0)"
    "bf_wf r'" "bf_sign r' = bf_sign r" "bf_val r' = (if bf_sign r then - 1 else 1) * y"
    unfolding ee n(6) t_def [symmetric] y_def by blast
  note d = rounded_digits [OF prec ps, of mode "bf_sign r" "limbs_val t" e, folded y_def]
  have xx: "of_nat (limbs_val t) / of_nat (B ^ l) * 2 powi e = \<bar>bf_val r\<bar>" using n(8) ee by (simp add: t_def)
  have y: "y = of_int (round_to mode (bf_sign r) (\<bar>bf_val r\<bar> * 2 powi (prec - e))) * 2 powi (e - prec)" using d(1) unfolding xx .
  have sg: "bf_val r = (if bf_sign r then - 1 else 1) * \<bar>bf_val r\<bar>"
    by (simp add: bf_val_def abs_mult del: of_nat_power)
  have "bf_val r' = bf_val r \<longleftrightarrow> y = \<bar>bf_val r\<bar>" unfolding r'(4) by (subst sg) simp
  then have ex: "bf_val r' \<noteq> bf_val r \<longleftrightarrow> limbs_val t mod 2 ^ s \<noteq> 0" using d(2) unfolding xx by simp
  have "64 * int (length (bf_tab r)) \<le> prec \<longrightarrow> bf_val r' = bf_val r"
  proof
    assume "64 * int (length (bf_tab r)) \<le> prec"
    then have "s = 0" using ps n(4) by linarith
    then show "bf_val r' = bf_val r" using ex by simp
  qed
  then show ?thesis unfolding n(1) using r' y ex by (intro exI [of _ r']) simp
qed


lemma normalize_wf:
  assumes size: "length (bf_tab r) < 2 ^ 50" "\<bar>sint (bf_expn r)\<bar> \<le> 2 ^ 62 - 2 ^ 57"
    and mode: "rnd_mode flags = Some mode" and p: "1 \<le> prec" "prec \<le> BF_PREC_INF"
    and sub: "prec = BF_PREC_INF \<Longrightarrow> flags AND BF_FLAG_SUBNORMAL = 0"
  shows "\<exists>r' ret. bf_normalize_and_round mem r prec flags = Some (r', ret) \<and> bf_wf r'"
proof (cases "limbs_val (bf_tab r) = 0")
  case True
  have "\<forall>x \<in> set xs. x = 0" if "limbs_val xs = 0" for xs
    using that by (induction xs) (auto simp: unat_eq_0)
  from this [OF True] have "dropWhile (\<lambda>x. x = 0) (rev (bf_tab r)) = []" by simp
  then show ?thesis by (simp add: bf_normalize_and_round_def top_limbs_def bf_wf_def)
next
  case False
  obtain r1 l where n: "\<And>mem prec flags. bf_normalize_and_round mem r prec flags = bf_round_limbs mem r1 prec flags l 0"
    "1 \<le> l" "l \<le> length (bf_tab r1)" "bit (last (take l (bf_tab r1))) 63" "\<bar>sint (bf_expn r1)\<bar> \<le> 2 ^ 62"
    by (rule normalize_step [OF False size]) blast
  show ?thesis unfolding n(1) by (rule round_limbs_wf [OF n(2-4) mode n(5) p sub])
qed

section \<open>Setting and multiplying\<close>

lemma set_ui_wf: "bf_wf (fst (bf_set_ui mem r a))"
proof (cases "a = 0")
  case True
  then show ?thesis by (simp add: bf_set_ui_def bf_wf_def)
next
  case False
  note c = clz_val [OF False]
  have u: "unat (push_bit (clz a) a) = 2 ^ clz a * unat a"
    using c(2) unfolding unsigned_push_bit_eq by (simp add: push_bit_eq_mult take_bit_nat_eq_self B_def mult.commute)
  then have t: "bit (push_bit (clz a) a) 63" using c(3) by (simp only: limb_top_bit)
  then have z: "push_bit (clz a) a \<noteq> 0" by auto
  have "\<bar>64 - int (clz a)\<bar> < 2 ^ 63 - 2" using c(1) by simp
  moreover from this have "sint (of_int (64 - int (clz a)) :: s64) = 64 - int (clz a)" by (intro sint_s64_small) simp
  ultimately have "of_int (64 - int (clz a)) \<notin> {BF_EXP_ZERO, BF_EXP_INF, BF_EXP_NAN}" by (intro finite_exp) (simp only:)
  then show ?thesis using False t z by (auto simp: bf_set_ui_def Let_def bf_resize_def bf_wf_def bf_set_nan_def split: option.splits)
qed

lemma wf_sign [simp]: "bf_wf (r\<lparr>bf_sign := b\<rparr>) = bf_wf r"
  by (simp add: bf_wf_def)

lemma set_si_wf: "bf_wf (fst (bf_set_si mem r a))"
  using set_ui_wf [of mem r "- a"] set_ui_wf [of mem r a] by (simp add: bf_set_si_def split_beta)

lemma set_wf: "bf_wf a \<Longrightarrow> bf_wf (fst (bf_set mem r a))"
  by (auto simp: bf_set_def bf_resize_def bf_wf_def bf_set_nan_def split: option.splits)

lemma product_val:
  assumes t: "limbs_val t = limbs_val (bf_tab a) * limbs_val (bf_tab b)" "length t = length (bf_tab a) + length (bf_tab b)"
    and e: "\<bar>sint (bf_expn a) + sint (bf_expn b)\<bar> < 2 ^ 63"
  shows "bf_val (r\<lparr>bf_tab := t, bf_sign := (bf_sign a \<noteq> bf_sign b), bf_expn := bf_expn a + bf_expn b\<rparr>) = bf_val a * bf_val b"
proof -
  have "sint (bf_expn a + bf_expn b) = sint (bf_expn a) + sint (bf_expn b)"
    using sint_add_small [of "bf_expn a" "sint (bf_expn b)"] e by simp
  then have "(2 :: rat) powi sint (bf_expn a + bf_expn b) = 2 powi sint (bf_expn a) * 2 powi sint (bf_expn b)"
    by (simp add: power_int_add)
  then show ?thesis by (simp add: bf_val_def t power_add)
qed

lemma rnd_mode_rndf: "rnd_mode flags = Some mode \<Longrightarrow> flags AND 7 = 6 \<longleftrightarrow> mode = BF_RNDF"
  by (auto simp: rnd_mode_def Let_def split: if_splits)

context limb_product
begin

text \<open>A product of numbers with limbs is their limbs multiplied and then rounded, or the allocator refuses.\<close>

lemma bf_mul_limbs:
  fixes prec :: int and flags :: u32 and r a b :: bf_t
  assumes a: "bf_tab a \<noteq> []" and b: "bf_tab b \<noteq> []" and p: "1 \<le> prec"
  defines "out \<equiv> (\<lambda>t. r\<lparr>bf_tab := t, bf_sign := (bf_sign a \<noteq> bf_sign b), bf_expn := bf_expn a + bf_expn b\<rparr>)"
  shows "\<exists>t. length t \<le> length (bf_tab a) + length (bf_tab b) \<and>
    (flags AND 7 \<noteq> 6 \<longrightarrow> limbs_val t = limbs_val (bf_tab a) * limbs_val (bf_tab b) \<and> length t = length (bf_tab a) + length (bf_tab b)) \<and>
    (bf_mul product mem r a b prec flags = bf_normalize_and_round mem (out t) prec flags \<or>
     (\<not> mem (length t) \<and> bf_mul product mem r a b prec flags = Some (bf_set_nan r, BF_ST_MEM_ERROR)))"
proof -
  define precl where "precl = nat ((prec + 2 + 63) div 64)"
  define cut :: "limb list \<Rightarrow> limb list" where
    "cut = (\<lambda>tab. if flags AND 7 = 6 then drop (length tab - min (length tab) precl) tab else tab)"
  have pl: "1 \<le> precl" using p by (simp add: precl_def)
  have cut: "cut t \<noteq> []" "length (cut t) \<le> length t" "flags AND 7 \<noteq> 6 \<Longrightarrow> cut t = t" if "t \<noteq> []" for t
  proof -
    have "length t - min (length t) precl < length t" using that pl by (cases t) auto
    then show "cut t \<noteq> []" using that by (simp add: cut_def)
    show "length (cut t) \<le> length t" "flags AND 7 \<noteq> 6 \<Longrightarrow> cut t = t" by (simp_all add: cut_def)
  qed
  define c d where "c = (if length (bf_tab a) < length (bf_tab b) then b else a)"
    and "d = (if length (bf_tab a) < length (bf_tab b) then a else b)"
  have cd: "(if length (bf_tab a) < length (bf_tab b) then (b, a) else (a, b)) = (c, d)" by (simp add: c_def d_def)
  have sym: "bf_tab c \<noteq> []" "bf_tab d \<noteq> []" "limbs_val (bf_tab c) * limbs_val (bf_tab d) = limbs_val (bf_tab a) * limbs_val (bf_tab b)"
    "length (bf_tab c) + length (bf_tab d) = length (bf_tab a) + length (bf_tab b)"
    "(bf_sign c \<noteq> bf_sign d) = (bf_sign a \<noteq> bf_sign b)" "bf_expn c + bf_expn d = bf_expn a + bf_expn b"
    using a b by (auto simp: c_def d_def add.commute)
  define ct dt where "ct = cut (bf_tab c)" and "dt = cut (bf_tab d)"
  have ne: "ct \<noteq> []" "dt \<noteq> []" unfolding ct_def dt_def using cut(1) sym(1,2) by blast+
  have lens: "length ct + length dt \<le> length (bf_tab a) + length (bf_tab b)"
    unfolding ct_def dt_def sym(4) [symmetric] using cut(2) sym(1,2) by (intro add_le_mono) blast+
  obtain u where u: "product ct dt = Some u" "limbs_val u = limbs_val ct * limbs_val dt" "length u = length ct + length dt"
    using product [OF ne] by blast
  define t where "t = (if 100 \<le> length dt then u else mp_mul_basecase ct dt)"
  have t: "limbs_val t = limbs_val ct * limbs_val dt" "length t = length ct + length dt"
    using u mp_mul_basecase_val [OF ne(2), of ct] by (simp_all add: t_def)
  have exact: "limbs_val t = limbs_val (bf_tab a) * limbs_val (bf_tab b) \<and> length t = length (bf_tab a) + length (bf_tab b)" if "flags AND 7 \<noteq> 6"
    using t cut(3) [OF sym(1) that] cut(3) [OF sym(2) that] sym(3,4) by (simp add: ct_def dt_def)
  have de: "(bf_tab d = []) = False" using sym(2) by simp
  have m: "bf_mul product mem r a b prec flags =
      (case (if 100 \<le> length dt then map_option (\<lambda>tab. r\<lparr>bf_tab := tab\<rparr>) (product ct dt) else bf_resize mem r (mp_mul_basecase ct dt)) of
         None \<Rightarrow> Some (bf_set_nan r, BF_ST_MEM_ERROR)
       | Some r \<Rightarrow> bf_normalize_and_round mem (r\<lparr>bf_sign := (bf_sign a \<noteq> bf_sign b), bf_expn := bf_expn a + bf_expn b\<rparr>) prec flags)"
    unfolding bf_mul_def cd prod.case Let_def de if_False sym(5,6) ct_def dt_def cut_def precl_def ..
  have "bf_mul product mem r a b prec flags = bf_normalize_and_round mem (out t) prec flags \<or>
     (\<not> mem (length t) \<and> bf_mul product mem r a b prec flags = Some (bf_set_nan r, BF_ST_MEM_ERROR))"
    unfolding m t_def out_def using u(1) by (cases "100 \<le> length dt") (auto simp: bf_resize_def)
  then show ?thesis using lens t(2) exact by (intro exI [of _ t]) auto
qed

end

section \<open>What rounding and multiplication promise\<close>

lemma wf_nonzero: "bf_wf a \<Longrightarrow> bf_tab a \<noteq> [] \<Longrightarrow> limbs_val (bf_tab a) \<noteq> 0"
  by (cases "bf_tab a") (auto simp: bf_wf_def unat_eq_0)

text \<open>C7. Correct rounding in every mode: for a non-zero number of any limbs whose exponent stays in the range of
  \<open>flags\<close>, \<open>bf_normalize_and_round\<close> returns the well-formed number of the same sign whose value is the
  operand rounded to \<open>prec\<close> binary digits, and \<open>BF_ST_INEXACT\<close> exactly when that is not the operand
  (always for faithful rounding, which rounds to nearest).\<close>
theorem bf_normalize_and_round_rounds:
  assumes "limbs_val (bf_tab r) \<noteq> 0" "length (bf_tab r) < 2 ^ 50" "\<bar>sint (bf_expn r)\<bar> \<le> 2 ^ 62 - 2 ^ 57"
    and "rnd_mode flags = Some mode" "flags AND BF_FLAG_RADPNT_PREC = 0" "1 \<le> prec"
    and "2 powi (e - 1) \<le> \<bar>bf_val r\<bar>" "\<bar>bf_val r\<bar> < 2 powi e"
    and "3 - 2 ^ (bf_get_exp_bits flags - 1) \<le> e" "e < 2 ^ (bf_get_exp_bits flags - 1)"
  shows "\<exists>r' ret. bf_normalize_and_round mem r prec flags = Some (r', ret) \<and> bf_wf r' \<and> bf_sign r' = bf_sign r \<and>
    bf_val r' = (if bf_sign r then - 1 else 1) *
      (of_int (round_to mode (bf_sign r) (\<bar>bf_val r\<bar> * 2 powi (prec - e))) * 2 powi (e - prec)) \<and>
    ret = (if mode = BF_RNDF \<or> bf_val r' \<noteq> bf_val r then BF_ST_INEXACT else 0)"
  using normalize_val [OF assms] by blast

text \<open>Three limbs of which two are zero, rounded to three digits: \<open>- 11/2\<close> becomes \<open>- 6\<close>, to even.\<close>

lemma bf_normalize_and_round_rounds_witness:
  "\<exists>r'. bf_normalize_and_round (\<lambda>_. False) \<lparr>bf_sign = True, bf_expn = 67, bf_tab = [0, 11 * 2 ^ 60, 0]\<rparr> 3 0
      = Some (r', BF_ST_INEXACT) \<and> bf_wf r' \<and> bf_val r' = - 6"
proof -
  define r where "r = \<lparr>bf_sign = True, bf_expn = 67, bf_tab = [0, 11 * 2 ^ 60, 0]\<rparr>"
  have v: "bf_val r = - (11 / 2)" "limbs_val (bf_tab r) \<noteq> 0" "length (bf_tab r) < 2 ^ 50" "\<bar>sint (bf_expn r)\<bar> \<le> 2 ^ 62 - 2 ^ 57"
    "bf_sign r" by (simp_all add: bf_val_def r_def B_def)
  have f: "rnd_mode 0 = Some BF_RNDN" "0 AND BF_FLAG_RADPNT_PREC = 0" "bf_get_exp_bits 0 = 61"
    by (simp_all add: rnd_mode_def BF_FLAG_RADPNT_PREC_def bf_get_exp_bits_def)
  have "\<lfloor>11 / 2 :: rat\<rfloor> = 5" by (rule floor_unique) simp_all
  then have ro: "round_to BF_RNDN True (11 / 2) = 6" by (simp add: round_to_def)
  obtain r' ret where r': "bf_normalize_and_round (\<lambda>_. False) r 3 0 = Some (r', ret)" "bf_wf r'" "bf_val r' = - 6"
    "ret = (if bf_val r' \<noteq> bf_val r then BF_ST_INEXACT else 0)"
    using bf_normalize_and_round_rounds [OF v(2-4) f(1,2), of 3 3 "\<lambda>_. False"] by (auto simp: v f(3) ro)
  have "ret = BF_ST_INEXACT" using r'(3,4) by (simp add: v(1))
  then show ?thesis using r'(1-3) unfolding r_def by blast
qed

text \<open>C8. The product: with a multiplication of limb arrays that multiplies and memory enough, \<open>bf_mul\<close> of two
  finite non-zero numbers is their product rounded to \<open>prec\<close> digits, and is the product itself when \<open>prec\<close>
  covers the limbs of both, as it does for the infinite precision of \<open>BigInt\<close>.\<close>
theorem bf_mul_rounds_product:
  assumes "limb_product fft_mul" "\<forall>n. mem n" "bf_wf a" "bf_wf b" "bf_tab a \<noteq> []" "bf_tab b \<noteq> []"
    and len: "length (bf_tab a) < 2 ^ 49" "length (bf_tab b) < 2 ^ 49"
    and expn: "\<bar>sint (bf_expn a)\<bar> \<le> 2 ^ 60" "\<bar>sint (bf_expn b)\<bar> \<le> 2 ^ 60"
    and mode: "rnd_mode flags = Some mode" "mode \<noteq> BF_RNDF" and flags: "flags AND BF_FLAG_RADPNT_PREC = 0" and prec: "1 \<le> prec"
    and e: "2 powi (e - 1) \<le> \<bar>bf_val a * bf_val b\<bar>" "\<bar>bf_val a * bf_val b\<bar> < 2 powi e"
      "3 - 2 ^ (bf_get_exp_bits flags - 1) \<le> e" "e < 2 ^ (bf_get_exp_bits flags - 1)"
  shows "\<exists>r' ret. bf_mul fft_mul mem r a b prec flags = Some (r', ret) \<and> bf_wf r' \<and>
    bf_val r' = (if bf_sign a \<noteq> bf_sign b then - 1 else 1) *
      (of_int (round_to mode (bf_sign a \<noteq> bf_sign b) (\<bar>bf_val a * bf_val b\<bar> * 2 powi (prec - e))) * 2 powi (e - prec)) \<and>
    ret = (if bf_val r' \<noteq> bf_val a * bf_val b then BF_ST_INEXACT else 0) \<and>
    (64 * int (length (bf_tab a) + length (bf_tab b)) \<le> prec \<longrightarrow> bf_val r' = bf_val a * bf_val b)"
proof -
  obtain t where t: "limbs_val t = limbs_val (bf_tab a) * limbs_val (bf_tab b)" "length t = length (bf_tab a) + length (bf_tab b)"
    and m: "bf_mul fft_mul mem r a b prec flags =
      bf_normalize_and_round mem (r\<lparr>bf_tab := t, bf_sign := (bf_sign a \<noteq> bf_sign b), bf_expn := bf_expn a + bf_expn b\<rparr>) prec flags"
    using limb_product.bf_mul_limbs [OF assms(1,5,6) prec, of flags mem r] assms(2) rnd_mode_rndf [OF mode(1)] mode(2) by auto
  define x where "x = r\<lparr>bf_tab := t, bf_sign := (bf_sign a \<noteq> bf_sign b), bf_expn := bf_expn a + bf_expn b\<rparr>"
  have "\<bar>sint (bf_expn a) + sint (bf_expn b)\<bar> < 2 ^ 63" using expn by simp
  from product_val [OF t this, of r] have v: "bf_val x = bf_val a * bf_val b" by (simp only: x_def)
  have "sint (bf_expn a + of_int (sint (bf_expn b))) = sint (bf_expn a) + sint (bf_expn b)"
    using expn by (intro sint_add_small) simp
  then have ex: "\<bar>sint (bf_expn x)\<bar> \<le> 2 ^ 62 - 2 ^ 57" using expn by (simp add: x_def)
  have nz: "limbs_val (bf_tab x) \<noteq> 0" using wf_nonzero assms(3-6) by (simp add: x_def t)
  have sz: "length (bf_tab x) < 2 ^ 50" using len by (simp add: x_def t)
  have xs: "bf_sign x = (bf_sign a \<noteq> bf_sign b)" "length (bf_tab x) = length (bf_tab a) + length (bf_tab b)" by (simp_all add: x_def t)
  have mf: "(mode = BF_RNDF \<or> P) = P" for P using mode(2) by simp
  show ?thesis unfolding m x_def [symmetric]
    using normalize_val [OF nz sz ex mode(1) flags prec e [folded v], of mem] unfolding v xs mf by blast
qed


text \<open>\<open>- 3/2\<close> times \<open>2\<close> is \<open>- 3\<close>, at infinite precision.\<close>

lemma bf_mul_rounds_product_witness:
  "\<exists>r'. bf_mul (\<lambda>op1 op2. Some (mp_mul_basecase op1 op2)) (\<lambda>_. True) \<lparr>bf_sign = False, bf_expn = 0, bf_tab = []\<rparr>
      \<lparr>bf_sign = True, bf_expn = 1, bf_tab = [3 * 2 ^ 62]\<rparr> \<lparr>bf_sign = False, bf_expn = 2, bf_tab = [2 ^ 63]\<rparr> BF_PREC_INF 1
    = Some (r', 0) \<and> bf_wf r' \<and> bf_val r' = - 3"
proof -
  define r where "r = \<lparr>bf_sign = False, bf_expn = 0, bf_tab = []\<rparr>"
  define a b where "a = \<lparr>bf_sign = True, bf_expn = 1, bf_tab = [3 * 2 ^ 62]\<rparr>" and "b = \<lparr>bf_sign = False, bf_expn = 2, bf_tab = [2 ^ 63]\<rparr>"
  have v: "bf_val a = - (3 / 2)" "bf_val b = 2" by (simp_all add: bf_val_def a_def b_def B_def)
  have n: "length (bf_tab a) = 1" "length (bf_tab b) = 1" by (simp_all add: a_def b_def)
  have w: "bf_wf a" "bf_wf b" "bf_tab a \<noteq> []" "bf_tab b \<noteq> []" "length (bf_tab a) < 2 ^ 49" "length (bf_tab b) < 2 ^ 49"
    "\<bar>sint (bf_expn a)\<bar> \<le> 2 ^ 60" "\<bar>sint (bf_expn b)\<bar> \<le> 2 ^ 60"
    by (simp_all add: a_def b_def bf_wf_def limb_top_bit B_def BF_EXP_ZERO_def BF_EXP_INF_def BF_EXP_NAN_def)
  have f: "rnd_mode 1 = Some BF_RNDZ" "BF_RNDZ \<noteq> BF_RNDF" "1 AND BF_FLAG_RADPNT_PREC = 0" "bf_get_exp_bits 1 = 61" "1 \<le> BF_PREC_INF"
    by (simp_all add: rnd_mode_def BF_FLAG_RADPNT_PREC_def bf_get_exp_bits_def BF_PREC_INF_def)
  have e: "2 powi (2 - 1) \<le> \<bar>bf_val a * bf_val b\<bar>" "\<bar>bf_val a * bf_val b\<bar> < 2 powi 2"
    "3 - 2 ^ (bf_get_exp_bits 1 - 1) \<le> (2 :: int)" "(2 :: int) < 2 ^ (bf_get_exp_bits 1 - 1)" by (simp_all add: v f(4))
  have c: "64 * int (length (bf_tab a) + length (bf_tab b)) \<le> BF_PREC_INF" by (simp add: n BF_PREC_INF_def)
  obtain r' ret where r': "bf_mul (\<lambda>op1 op2. Some (mp_mul_basecase op1 op2)) (\<lambda>_. True) r a b BF_PREC_INF 1 = Some (r', ret)" "bf_wf r'"
    "bf_val r' = bf_val a * bf_val b" "ret = (if bf_val r' \<noteq> bf_val a * bf_val b then BF_ST_INEXACT else 0)"
    using bf_mul_rounds_product [OF basecase.limb_product_axioms _ w f(1-3,5) e, of "\<lambda>_. True" r] c by blast
  then have "ret = 0" "bf_val r' = - 3" by (simp_all add: v)
  then show ?thesis using r'(1,2) unfolding a_def b_def r_def by blast
qed

lemma bf_mul_special:
  assumes "bf_tab a = [] \<or> bf_tab b = []"
  shows "\<exists>r' ret. bf_mul fft_mul mem r a b prec flags = Some (r', ret) \<and> bf_wf r'"
proof -
  obtain c d where cd: "(if length (bf_tab a) < length (bf_tab b) then (b, a) else (a, b)) = (c, d)" "bf_tab d = []"
    using assms by (cases "length (bf_tab a) < length (bf_tab b)") auto
  show ?thesis unfolding bf_mul_def cd(1) Let_def prod.case cd(2) by simp
qed



end
