(* ===== verification/Spec2Isabelle.thy ===== *)
theory Spec2Isabelle
  imports Bridge_Prelude Host_Protocol Cutils Utf8 JSStrings StringConv Float64 Terms TermConvert JSHeap
    TermRefine TermBack TermRoundTrip JobQueue HostFunctions ModuleLoader NifContext
    CharRanges Rqsort RqsortProofs RangeSort UriCodec GcMark CycleGC
    DynBuf LineTable SameValue MapSet MapSetProofs MapSetRefine MapSetLimits
    MultiLimb MultiDiv MultiDivNorm MultiNewton MultiLarge BigFloat BigRound BigNorm
begin

text \<open>
  BeamJS embeds the QuickJS engine in an Erlang NIF: an Erlang process owns a JavaScript context,
  sends it scripts, and answers the requests that host functions of the script send back. This
  library models the C sources of the bridge (\<open>src/apps/beamjs_nif/c_src/\<close>) completely, and of the
  engine under \<open>quickjs/\<close> the parts that the bridge stands on or that carry an algorithm of their own.

  \<^bold>\<open>Parts and theories.\<close>

  \<^item> \<open>Bridge_Prelude\<close>: machine words, C strings, fact collections, lemmas on lists and words.
  \<^item> \<open>Host_Protocol\<close> (host_functions.c, module_loader.c, nif_deliver_host_reply): the reply slot of
    \<open>BeamjsContext\<close>, its mutex and condition variable, as a step relation of the JavaScript thread,
    the delivering processes and the owner. Lemmas: inductive invariants (mutual exclusion, wakeups,
    lifetime of reply environments, pairing of replies), progress, and the two deadlocks.
  \<^item> \<open>Cutils\<close>, \<open>Utf8\<close>, \<open>Rqsort\<close>, \<open>RqsortProofs\<close>, \<open>DynBuf\<close> (cutils.c): C string helpers, the UTF-8
    codec, the sorting routine with its exchange functions, and the growable byte buffer.
  \<^item> \<open>JSStrings\<close>, \<open>StringConv\<close>, \<open>UriCodec\<close> (quickjs.c): 8- and 16-bit strings, string buffers with
    their error state, conversion from and to UTF-8, comparison, and the URI functions.
  \<^item> \<open>Float64\<close>: numbers as the 64 bits of a double; the integer conversions of the engine.
  \<^item> \<open>Terms\<close>, \<open>TermConvert\<close> (term_convert.c): the NIF API on terms as a record of operations, and
    \<open>erl_term_to_js\<close>, \<open>js_value_to_erl\<close>, \<open>js_exception_to_erl\<close> with every branch and the references
    they own. \<open>JSHeap\<close> is a heap of arrays and plain objects that provides the engine's operations;
    \<open>TermRefine\<close>, \<open>TermBack\<close>, \<open>TermRoundTrip\<close> show that the conversions implement the abstract
    trees of terms and values, and that they undo each other.
  \<^item> \<open>JobQueue\<close> (list.h, quickjs.c): the queue of jobs on the ring of links, and the drain loop.
  \<^item> \<open>HostFunctions\<close>, \<open>ModuleLoader\<close>, \<open>NifContext\<close> (host_functions.c, module_loader.c, beamjs_nif.c):
    the host functions and the console, the normalizer and the loader, and every NIF with the life
    cycle of the context resource.
  \<^item> \<open>CharRanges\<close>, \<open>RangeSort\<close> (libunicode.c): sorted point lists as sets of code points.
  \<^item> \<open>GcMark\<close>, \<open>CycleGC\<close> (quickjs.c): the references of every kind of GC object, and the two
    phases of the cycle collector that find the garbage.
  \<^item> \<open>LineTable\<close> (quickjs.c): LEB128 numbers and the table of line numbers of a function.
  \<^item> \<open>SameValue\<close> (quickjs.c, libbf.c): \<open>js_strict_eq2\<close> on all tags, the comparison of big numbers it
    uses, and the hash of map keys; the locale \<open>key_hash\<close> is what a hash table needs of the two.
  \<^item> \<open>MapSet\<close> (quickjs.c): \<open>Map\<close>, \<open>Set\<close>, \<open>WeakMap\<close> and \<open>WeakSet\<close>, their iterators, \<open>forEach\<close> and
    finalizers over a store of records. \<open>MapSetProofs\<close> has the invariant and the elementary changes
    (lock, release, store, add, delete, resize), \<open>MapSetRefine\<close> the simulation of the specification's
    list of entries with the accounting of references, \<open>MapSetLimits\<close> what the hash of numbers and
    the weak maps get wrong.
  \<^item> \<open>MultiLimb\<close>, \<open>MultiDiv\<close>, \<open>MultiDivNorm\<close>, \<open>MultiNewton\<close>, \<open>MultiLarge\<close> (libbf.c): the integers under
    \<open>BigInt\<close> as arrays of 64-bit limbs. Additions, shifts and products with their carries; division by
    one limb over a precomputed reciprocal; schoolbook division, whose correction loop is shown to end;
    the reciprocal by Newton's iteration; and the subquadratic division built on it.
  \<^item> \<open>BigFloat\<close> (libbf.c): the numbers \<open>bf_t\<close> over these arrays: setting, normalisation, rounding in all
    modes and the product. \<open>BigRound\<close> reads them as rational numbers (\<open>bf_val\<close>), states their
    well-formedness (\<open>bf_wf\<close>) and follows the rounding limb by limb; \<open>BigNorm\<close> has the theorems against the
    rounding of rational numbers (\<open>round_to\<close>).

  \<^bold>\<open>How the code is modelled.\<close> Integers that may wrap are words, or \<open>int\<close> and \<open>nat\<close> with the
  wrap-around written out. A C function that writes through pointers returns its new state. Undefined
  behaviour, a failing assertion and a call that does not return are \<open>None\<close>; an exception is a value.
  What is not in the repository is a parameter with its documented laws: the term operations of the NIF
  API (locale \<open>erl_nif\<close>), the allocators (\<open>allocator\<close>, \<open>block_allocator\<close>, \<open>reallocator\<close>), the comparison function of a
  sort (\<open>comparison\<close>). The engine operations that the bridge calls (\<open>js_engine\<close>), the job functions
  (\<open>job_runtime\<close>) and the evaluator are parameters too, and so is the multiplication of long limb
  arrays by number-theoretic transforms (\<open>limb_product\<close>); each locale is interpreted on a model
  defined here.

  \<^bold>\<open>Bounds and fuel.\<close> \<open>erl_term_to_js\<close> and \<open>js_value_to_erl\<close> take the depth of the C stack as fuel; the
  refinement theorems hold for every depth above that of the term or value, and a cyclic value fails for
  every depth. Loops that need not end (the drain loop, the sort loop, the passes of the collector) are
  \<open>partial_function\<close>s; that they return is part of their theorems. \<open>rqsort\<close> has its stack of 50 entries:
  a full stack is \<open>None\<close>, and the theorem shows that it never fills, for arrays of any length. The
  allocator of the keyed collections gives out no block of 16 GiB or more, which keeps the sizes of hash
  tables in 32 bits; a table of limbs is shorter than \<open>2\<^sup>5\<^sup>0\<close>, so that the positions of its bits are computed
  without overflow; the callback of \<open>forEach\<close> may add entries for ever, so its loop counts rounds.

  \<^bold>\<open>Not modelled.\<close> The parser, the bytecode compiler and the interpreter of quickjs.c: the evaluator is
  a parameter. Property access through shapes and the built-in objects, except for what is listed above.
  The freeing of garbage with its finalizers; the regular expression matcher; of
  libbf.c the number-theoretic transforms, the sum and quotient of \<open>bf_t\<close> (of the quotient, the division
  of the limbs is), the elementary functions, the conversions and the decimal numbers; the generated
  Unicode tables; quickjs-libc.c and the command line tools, which are not part of the NIF; quickjs-ng, the second engine, which the default build does not use.
\<close>

end
